(* ===== verification/Prelude.thy ===== *)
theory Prelude
  imports Main "HOL-Library.Word" "HOL-Library.Monad_Syntax" "HOL-Library.Multiset"
begin

text \<open>
  Shared vocabulary of the development: the machine integer types of the crate, Rust's
  \<open>Result\<close>, the checked arithmetic of the standard library that the sources call, and the
  generic facts on words, powers of two and lists that the component theories rest on.

  Three conventions are used everywhere.
  \<^item> A computation of type \<open>'a option\<close> yields \<open>None\<close> where the Rust code panics or where an
    \<open>unsafe\<close> access would be undefined behaviour (reading a slot that holds no value,
    indexing outside an allocation). Theorems that an operation returns \<open>Some\<close> are therefore
    memory-safety and panic-freedom theorems.
  \<^item> A \<open>MaybeUninit<T>\<close> cell is an \<open>'a option\<close>: \<open>None\<close> is a cell that owns no value, and
    \<open>assume_init_read\<close> moves the value out, which leaves \<open>None\<close>.
  \<^item> \<open>usize\<close> is a 64-bit word: \<open>+\<close> and \<open>-\<close> are \<open>wrapping_add\<close> and \<open>wrapping_sub\<close>.
\<close>

unbundle bit_operations_syntax

named_theorems slot_simps \<open>slot addressing of power-of-two buffers\<close>

type_synonym u8 = "8 word"
type_synonym u16 = "16 word"
type_synonym u32 = "32 word"
type_synonym u64 = "64 word"
type_synonym usize = "64 word"

datatype ('v, 'e) Result = Ok 'v | Err 'e

text \<open>\<open>Result::and_then\<close>, which is also what the \<open>?\<close> operator does.\<close>

fun and_then :: "('v, 'e) Result \<Rightarrow> ('v \<Rightarrow> ('w, 'e) Result) \<Rightarrow> ('w, 'e) Result" where
  "and_then (Ok v) f = f v"
| "and_then (Err e) f = Err e"

lemma and_then_Ok_conv: "and_then r f = Ok w \<longleftrightarrow> (\<exists>v. r = Ok v \<and> f v = Ok w)"
  by (cases r) auto

text \<open>How a call that runs user code ends: it returns, or user code panics and the stack unwinds.\<close>

datatype 'r control = Return 'r | Unwind

text \<open>
  How a call that may wait ends when it is given the list of what the rest of the program does during
  each of its pauses: it returns, or it is still waiting when the list has ended.
\<close>

datatype 'r spin = Done 'r | Spinning

section \<open>Powers of two\<close>

fun next_pow2 :: "nat \<Rightarrow> nat" where
  "next_pow2 n = (if n \<le> 1 then 1 else 2 * next_pow2 ((n + 1) div 2))"

declare next_pow2.simps [simp del]

lemma next_pow2_pos [simp]: "0 < next_pow2 n"
  by (induction n rule: next_pow2.induct) (simp add: next_pow2.simps)

lemma next_pow2_ge: "n \<le> next_pow2 n"
proof (induction n rule: next_pow2.induct)
  case (1 n)
  then show ?case by (cases "n \<le> 1") (auto simp: next_pow2.simps [of n])
qed

lemma next_pow2_is_power: "\<exists>k. next_pow2 n = 2 ^ k"
proof (induction n rule: next_pow2.induct)
  case (1 n)
  show ?case
  proof (cases "n \<le> 1")
    case True
    then show ?thesis by (auto simp: next_pow2.simps [of n] intro: exI [of _ 0])
  next
    case False
    with 1 obtain k where "next_pow2 ((n + 1) div 2) = 2 ^ k" by auto
    with False have "next_pow2 n = 2 ^ Suc k" by (simp add: next_pow2.simps [of n])
    then show ?thesis ..
  qed
qed

lemma next_pow2_least: "n \<le> 2 ^ k \<Longrightarrow> next_pow2 n \<le> 2 ^ k"
proof (induction n arbitrary: k rule: next_pow2.induct)
  case (1 n)
  show ?case
  proof (cases "n \<le> 1")
    case True
    then show ?thesis by (simp add: next_pow2.simps [of n])
  next
    case False
    with "1.prems" obtain j where k: "k = Suc j" by (cases k) auto
    with "1.prems" have "(n + 1) div 2 \<le> 2 ^ j" by simp
    with 1 False have "next_pow2 ((n + 1) div 2) \<le> 2 ^ j" by simp
    with False k show ?thesis by (simp add: next_pow2.simps [of n])
  qed
qed

lemma next_pow2_small [simp]: "next_pow2 0 = 1" "next_pow2 (Suc 0) = 1"
  by (simp_all add: next_pow2.simps)

lemma next_pow2_less_double: "1 < n \<Longrightarrow> next_pow2 n < 2 * n"
proof (induction n rule: next_pow2.induct)
  case (1 n)
  show ?case
  proof (cases "n = 2")
    case True
    then show ?thesis by (simp add: next_pow2.simps [of 2])
  next
    case False
    then have "1 < (n + 1) div 2" using "1.prems" by auto
    then have "next_pow2 ((n + 1) div 2) < 2 * ((n + 1) div 2)" using 1 by auto
    moreover obtain k where "next_pow2 ((n + 1) div 2) = 2 ^ k" using next_pow2_is_power by blast
    ultimately show ?thesis using "1.prems" by (cases k) (auto simp: next_pow2.simps [of n])
  qed
qed

lemma next_pow2_power [simp]: "next_pow2 (2 ^ k) = 2 ^ k"
  by (rule antisym) (auto intro: next_pow2_least next_pow2_ge)

text \<open>\<open>usize::checked_next_power_of_two\<close>: the least power of two that is not smaller, if it fits.\<close>

definition checked_next_power_of_two :: "usize \<Rightarrow> usize option" where
  "checked_next_power_of_two n =
     (if unat n \<le> 2 ^ 63 then Some (of_nat (next_pow2 (unat n))) else None)"

lemma next_pow2_le_63: "n \<le> 2 ^ 63 \<Longrightarrow> \<exists>k\<le>63. next_pow2 n = 2 ^ k"
proof -
  assume "n \<le> 2 ^ 63"
  then have "next_pow2 n \<le> 2 ^ 63" by (rule next_pow2_least)
  moreover obtain k where "next_pow2 n = 2 ^ k" using next_pow2_is_power by blast
  moreover from calculation have "k \<le> 63"
    using power_le_imp_le_exp [of "2::nat" k 63] by simp
  ultimately show ?thesis by blast
qed

lemma unat_of_nat_usize: "n < 2 ^ 64 \<Longrightarrow> unat (of_nat n :: usize) = n"
  by (simp add: unat_of_nat)

lemma unat_min: "unat (min a b) = min (unat a) (unat b)" for a b :: usize
  by (simp add: min_def word_le_nat_alt)

lemma unat_of_nat_pow2: "k \<le> 63 \<Longrightarrow> unat (of_nat (2 ^ k) :: usize) = 2 ^ k"
proof -
  assume "k \<le> 63"
  then have "(2::nat) ^ k < 2 ^ 64"
    using power_strict_increasing [of k 64 "2::nat"] by linarith
  then show ?thesis by (rule unat_of_nat_usize)
qed

lemma checked_next_power_of_two_SomeD:
  assumes "checked_next_power_of_two n = Some c"
  shows "\<exists>k\<le>63. unat c = 2 ^ k" and "unat n \<le> unat c" and "unat c = next_pow2 (unat n)"
proof -
  from assms have n: "unat n \<le> 2 ^ 63" and c: "c = of_nat (next_pow2 (unat n))"
    by (auto simp: checked_next_power_of_two_def split: if_splits)
  from next_pow2_le_63 [OF n] obtain k where k: "k \<le> 63" "next_pow2 (unat n) = 2 ^ k" by blast
  then have u: "unat c = 2 ^ k" using c unat_of_nat_pow2 [of k] by simp
  with k show "\<exists>k\<le>63. unat c = 2 ^ k" by blast
  show "unat n \<le> unat c" using u k next_pow2_ge [of "unat n"] by simp
  show "unat c = next_pow2 (unat n)" using u k by simp
qed

section \<open>Wrapping cursors\<close>

text \<open>
  A cursor that has been advanced \<open>n\<close> times is the word \<open>of_nat n\<close>. The ghost count \<open>n\<close> never
  wraps, so distances between cursors are ordinary differences as long as they fit a word.
\<close>

lemma unat_cursor_diff:
  assumes "b \<le> a" "a - b < 2 ^ 64"
  shows "unat (of_nat a - of_nat b :: usize) = a - b"
proof -
  have "(of_nat a - of_nat b :: usize) = of_nat (a - b)" using assms(1) by simp
  then show ?thesis using assms(2) by (simp only: unat_of_nat_usize)
qed

lemma cursor_eq_iff:
  assumes "b \<le> a" "a - b < 2 ^ 64"
  shows "(of_nat a :: usize) = of_nat b \<longleftrightarrow> a = b"
proof
  assume "(of_nat a :: usize) = of_nat b"
  then have "unat (of_nat a - of_nat b :: usize) = 0" by simp
  with unat_cursor_diff [OF assms] assms(1) show "a = b" by simp
qed simp

lemma cursor_index [slot_simps]:
  assumes "k \<le> 63"
  shows "unat ((of_nat n :: usize) AND (of_nat (2 ^ k) - 1)) = n mod 2 ^ k"
proof -
  have m: "(of_nat (2 ^ k) - 1 :: usize) = mask k"
    by (simp add: mask_eq_exp_minus_1)
  have "unat ((of_nat n :: usize) AND mask k) = take_bit k (unat (of_nat n :: usize))"
    by (simp add: take_bit_eq_mask [symmetric] unsigned_take_bit_eq)
  also have "\<dots> = n mod 2 ^ 64 mod 2 ^ k" by (simp add: take_bit_eq_mod unat_of_nat)
  also have "\<dots> = n mod 2 ^ k"
    using assms by (intro mod_mod_cancel le_imp_power_dvd) simp
  finally show ?thesis by (simp only: m)
qed

lemma mod_neq_of_window:
  fixes a b c :: nat
  assumes "a < b" "b < a + c"
  shows "a mod c \<noteq> b mod c"
proof
  assume "a mod c = b mod c"
  then have "c dvd b - a" using assms(1) by (metis less_imp_le mod_eq_dvd_iff_nat)
  then have "c \<le> b - a" using assms(1) by (simp add: dvd_imp_le)
  with assms show False by simp
qed

lemma mod_cycle_perm:
  fixes m i :: nat
  assumes "0 < m"
  shows "mset (map (\<lambda>j. (i + j) mod m) [0..<m]) = mset [0..<m]"
proof -
  have inj: "inj_on (\<lambda>j. (i + j) mod m) {0..<m}"
  proof (rule linorder_inj_onI')
    fix a b assume "a \<in> {0..<m}" "b \<in> {0..<m}" "a < b"
    then show "(i + a) mod m \<noteq> (i + b) mod m" by (intro mod_neq_of_window) auto
  qed
  moreover have "(\<lambda>j. (i + j) mod m) ` {0..<m} \<subseteq> {0..<m}" using assms by auto
  ultimately have "(\<lambda>j. (i + j) mod m) ` {0..<m} = {0..<m}" by (intro endo_inj_surj) auto
  with inj show ?thesis
    by (intro set_eq_iff_mset_eq_distinct [THEN iffD1]) (auto simp: distinct_map)
qed

lemma mod_cycle_set:
  fixes m i :: nat
  assumes "0 < m"
  shows "(\<lambda>j. (i + j) mod m) ` {0..<m} = {0..<m}"
  using arg_cong [OF mod_cycle_perm [OF assms, of i], of set_mset] by simp

section \<open>User callbacks\<close>

text \<open>
  A \<open>FnMut(T)\<close> argument is a state transformer: it takes a value and the state it captures, and
  yields whether it returned normally (\<open>True\<close>) or panicked (\<open>False\<close>), with the state it left.
  \<open>feed\<close> is what handing it a list of values one by one does: how many values were handed over
  (the one that panicked included), whether every call returned, and the final state.
\<close>

type_synonym ('a, 's) callback = "'a \<Rightarrow> 's \<Rightarrow> bool \<times> 's"

fun feed :: "('a, 's) callback \<Rightarrow> 'a list \<Rightarrow> 's \<Rightarrow> nat \<times> bool \<times> 's" where
  "feed f [] s = (0, True, s)"
| "feed f (v # vs) s =
     (let (ok, s') = f v s
      in if ok then (let (n, ok', s'') = feed f vs s' in (Suc n, ok', s'')) else (1, False, s'))"

lemma feed_Cons:
  "feed f (v # vs) s =
     (if fst (f v s)
      then (Suc (fst (feed f vs (snd (f v s)))), snd (feed f vs (snd (f v s))))
      else (1, False, snd (f v s)))"
  by (simp add: case_prod_beta Let_def prod_eq_iff)

lemma feed_le: "fst (feed f vs s) \<le> length vs"
  by (induction vs arbitrary: s) (auto simp: feed_Cons simp del: feed.simps(2))

lemma feed_all: "fst (snd (feed f vs s)) \<Longrightarrow> fst (feed f vs s) = length vs"
  by (induction vs arbitrary: s) (auto simp: feed_Cons simp del: feed.simps(2) split: if_splits)

lemma feed_append:
  assumes "feed f xs s = (m, ok, s')"
  shows "feed f (xs @ ys) s =
    (if ok then (m + fst (feed f ys s'), snd (feed f ys s')) else (m, False, s'))"
  using assms
  by (induction xs arbitrary: s m)
    (auto simp: feed_Cons prod_eq_iff simp del: feed.simps(2) split: if_splits)

text \<open>The callback that collects what it is given, in order.\<close>

definition collect :: "('a, 'a list) callback" where
  "collect v s = (True, s @ [v])"

lemma feed_collect [simp]: "feed collect vs s = (length vs, True, s @ vs)"
  by (induction vs arbitrary: s) (auto simp: collect_def)

lemma feed_seen: "feed f vs s = (m, ok, s') \<Longrightarrow> feed f (take m vs) s = (m, ok, s')"
proof (induction vs arbitrary: s m)
  case (Cons v vs)
  show ?case
  proof (cases "fst (f v s)")
    case True
    then obtain m' where m: "m = Suc m'" "feed f vs (snd (f v s)) = (m', ok, s')"
      using Cons.prems by (auto simp: feed_Cons prod_eq_iff simp del: feed.simps(2))
    show ?thesis using Cons.IH [OF m(2)] True m(1) by (simp add: feed_Cons prod_eq_iff del: feed.simps(2))
  next
    case False
    then show ?thesis using Cons.prems by (auto simp: feed_Cons simp del: feed.simps(2))
  qed
qed simp

lemma feed_pos: "vs \<noteq> [] \<Longrightarrow> 0 < fst (feed f vs s)"
  by (cases vs) (auto simp: feed_Cons simp del: feed.simps(2))

section \<open>Logs of values with their producers\<close>

definition from_producer :: "nat \<Rightarrow> (nat \<times> 'a) list \<Rightarrow> 'a list" where
  "from_producer i tr = map snd (filter (\<lambda>p. fst p = i) tr)"

lemma from_producer_append: "from_producer i (xs @ ys) = from_producer i xs @ from_producer i ys"
  by (simp add: from_producer_def)

lemma from_producer_Nil [simp]: "from_producer i [] = []"
  by (simp add: from_producer_def)

lemma from_producer_Pair: "from_producer i (map (Pair j) vs) = (if i = j then vs else [])"
  by (induction vs) (auto simp: from_producer_def)

section \<open>Lists of cells\<close>

lemma those_map_Some [simp]: "those (map Some xs) = Some xs"
  by (induction xs) auto

text \<open>
  \<open>ptr::copy_nonoverlapping(src.add(so), dst.add(d), n)\<close>: defined only inside both allocations.
\<close>

definition copy_span :: "'c list \<Rightarrow> nat \<Rightarrow> 'c list \<Rightarrow> nat \<Rightarrow> nat \<Rightarrow> 'c list option" where
  "copy_span src so dst d n =
     (if so + n \<le> length src \<and> d + n \<le> length dst
      then Some (take d dst @ take n (drop so src) @ drop (d + n) dst) else None)"

lemma copy_span_length: "copy_span src so dst d n = Some dst' \<Longrightarrow> length dst' = length dst"
  by (auto simp: copy_span_def split: if_splits)

lemma copy_span_nth:
  assumes "copy_span src so dst d n = Some dst'" "i < length dst"
  shows "dst' ! i = (if d \<le> i \<and> i < d + n then src ! (so + (i - d)) else dst ! i)"
proof -
  have b: "so + n \<le> length src" "d + n \<le> length dst"
    and e: "dst' = take d dst @ take n (drop so src) @ drop (d + n) dst"
    using assms(1) by (auto simp: copy_span_def split: if_splits)
  from b have l: "length (take d dst) = d" "length (take n (drop so src)) = n" by auto
  show ?thesis using b l assms(2) by (cases "i < d"; cases "i < d + n") (auto simp: e nth_append)
qed

lemma count_list_update:
  "i < length xs \<Longrightarrow> count_list (xs[i := y]) a + of_bool (xs ! i = a) = count_list xs a + of_bool (y = a)"
proof (induction xs arbitrary: i)
  case (Cons x xs)
  then show ?case by (cases i) auto
qed simp

end
