(* ===== verification/Batch.thy ===== *)
theory Batch
  imports Prelude
begin

text \<open>
  The owned FIFO batch (\<open>src/src/backend/batch.rs\<close>): a vector of \<open>MaybeUninit\<close> cells of which
  only the suffix from \<open>read\<close> on owns values. Growth of the vector is taken to succeed.
\<close>

record 'a Batch =
  bvalues :: "'a option list"
  bread :: nat

definition batch_new :: "'a Batch" where
  "batch_new = \<lparr>bvalues = [], bread = 0\<rparr>"

text \<open>\<open>Batch::clear\<close> and the batch's \<open>Drop\<close>: the values whose destructors run, and the batch left.\<close>

definition batch_clear :: "'a Batch \<Rightarrow> ('a list \<times> 'a Batch) option" where
  "batch_clear b =
     (if bread b \<le> length (bvalues b)
      then do { vs \<leftarrow> those (drop (bread b) (bvalues b)); Some (vs, b\<lparr>bvalues := [], bread := 0\<rparr>) }
      else None)"

definition batch_len :: "'a Batch \<Rightarrow> nat" where
  "batch_len b = length (bvalues b) - bread b"

definition batch_is_empty :: "'a Batch \<Rightarrow> bool" where
  "batch_is_empty b \<longleftrightarrow> bread b = length (bvalues b)"

definition batch_as_slice :: "'a Batch \<Rightarrow> 'a list option" where
  "batch_as_slice b =
     (if bread b \<le> length (bvalues b) then those (drop (bread b) (bvalues b)) else None)"

definition batch_push_back :: "'a \<Rightarrow> 'a Batch \<Rightarrow> 'a Batch" where
  "batch_push_back v b = b\<lparr>bvalues := bvalues b @ [Some v]\<rparr>"

definition batch_pop_front :: "'a Batch \<Rightarrow> ('a option \<times> 'a Batch) option" where
  "batch_pop_front b =
     (let r = bread b
      in if r = length (bvalues b) then Some (None, b)
         else if r < length (bvalues b)
         then do { v \<leftarrow> bvalues b ! r;
                   Some (Some v, b\<lparr>bread := r + 1, bvalues := (bvalues b)[r := None]\<rparr>) }
         else None)"

text \<open>\<open>Batch::restore_front\<close> panics when nothing has been popped or the slot is out of range.\<close>

definition batch_restore_front :: "'a \<Rightarrow> 'a Batch \<Rightarrow> 'a Batch option" where
  "batch_restore_front v b =
     (if bread b = 0 then None
      else let r = bread b - 1
           in if r < length (bvalues b)
              then Some (b\<lparr>bvalues := (bvalues b)[r := Some v], bread := r\<rparr>) else None)"

section \<open>The batch is a FIFO list\<close>

text \<open>
  The representation invariant: the moved-out prefix owns nothing, the suffix owns the values.
\<close>

definition batch_rep :: "'a Batch \<Rightarrow> 'a list \<Rightarrow> bool" where
  "batch_rep b vs \<longleftrightarrow> bvalues b = replicate (bread b) None @ map Some vs"

named_theorems batch_simps \<open>effect of the batch operations under the representation invariant\<close>

lemma batch_rep_new [batch_simps, simp]: "batch_rep batch_new []"
  by (simp add: batch_rep_def batch_new_def)

lemma batch_rep_inj: "batch_rep b vs \<Longrightarrow> batch_rep b ws \<Longrightarrow> vs = ws"
  by (simp add: batch_rep_def inj_map_eq_map)

lemma batch_len_rep [batch_simps]: "batch_rep b vs \<Longrightarrow> batch_len b = length vs"
  by (simp add: batch_rep_def batch_len_def)

lemma batch_is_empty_rep [batch_simps]: "batch_rep b vs \<Longrightarrow> batch_is_empty b \<longleftrightarrow> vs = []"
  by (simp add: batch_rep_def batch_is_empty_def)

lemma batch_as_slice_rep [batch_simps]: "batch_rep b vs \<Longrightarrow> batch_as_slice b = Some vs"
  by (simp add: batch_rep_def batch_as_slice_def)

lemma batch_clear_rep [batch_simps]:
  "batch_rep b vs \<Longrightarrow> batch_clear b = Some (vs, b\<lparr>bvalues := [], bread := 0\<rparr>)"
  by (simp add: batch_rep_def batch_clear_def)

lemma batch_cleared_rep [batch_simps, simp]: "batch_rep (b\<lparr>bvalues := [], bread := 0\<rparr>) []"
  by (simp add: batch_rep_def)

lemma batch_push_back_rep [batch_simps]:
  "batch_rep b vs \<Longrightarrow> batch_rep (batch_push_back v b) (vs @ [v])"
  by (simp add: batch_rep_def batch_push_back_def)

lemma replicate_snoc: "replicate n x @ [x] = replicate (Suc n) x"
  by (simp add: replicate_append_same)

lemma batch_pop_front_Nil [batch_simps]: "batch_rep b [] \<Longrightarrow> batch_pop_front b = Some (None, b)"
  by (simp add: batch_rep_def batch_pop_front_def)

lemma batch_pop_front_Cons:
  assumes "batch_rep b (v # vs)"
  shows "\<exists>b'. batch_pop_front b = Some (Some v, b') \<and> batch_rep b' vs
    \<and> bread b' = Suc (bread b) \<and> length (bvalues b') = length (bvalues b)"
  using assms
  by (auto simp: batch_rep_def batch_pop_front_def Let_def nth_append list_update_append
      replicate_append_same [symmetric])

lemma batch_restore_front_rep:
  assumes "batch_rep b vs" "0 < bread b"
  shows "\<exists>b'. batch_restore_front v b = Some b' \<and> batch_rep b' (v # vs)"
proof -
  obtain r where r: "bread b = Suc r" using assms(2) by (cases "bread b") auto
  have vals: "bvalues b = replicate r None @ None # map Some vs"
    using assms(1) by (simp add: batch_rep_def r replicate_app_Cons_same)
  then show ?thesis by (simp add: batch_restore_front_def r batch_rep_def list_update_append)
qed

end
