(* ===== verification/Ring.thy ===== *)
theory Ring
  imports Batch
begin

text \<open>
  The bounded SPSC ring (\<open>src/src/backend/ring.rs\<close>): a power-of-two buffer addressed by two
  wrapping cursors, with a cached copy of the peer's cursor at each endpoint.

  \<open>Inner\<close> is the shared allocation, \<open>Ring\<close> extends it with the private field of the two
  endpoints (\<open>Sender::head_cache\<close>, \<open>Receiver::tail_cache\<close>). This theory gives the whole
  operations as the endpoints run them one after another; their interleaving at the level of
  single atomic accesses is in the theory on concurrent rings.
\<close>

section \<open>State\<close>

record 'a Inner =
  buf :: "'a option list"
  ring_mask :: usize
  cap :: usize
  head :: usize
  tail :: usize
  inbox_next :: "nat option"   \<comment> \<open>the intrusive link, an address or null\<close>
  producer_gone :: bool
  consumer_gone :: bool
  strong :: nat                \<comment> \<open>strong count of the \<open>Arc\<close> that owns the allocation\<close>

record 'a Ring = "'a Inner" +
  head_cache :: usize
  tail_cache :: usize

text \<open>\<open>Inner::slot\<close>: the masked index; \<open>get_unchecked\<close> is undefined outside the buffer.\<close>

definition slot :: "('a, 'z) Inner_scheme \<Rightarrow> usize \<Rightarrow> nat option" where
  "slot r cursor =
     (let i = unat (cursor AND ring_mask r) in if i < length (buf r) then Some i else None)"

definition slot_write :: "('a, 'z) Inner_scheme \<Rightarrow> usize \<Rightarrow> 'a \<Rightarrow> ('a, 'z) Inner_scheme option" where
  "slot_write r cursor v = do { i \<leftarrow> slot r cursor; Some (r\<lparr>buf := (buf r)[i := Some v]\<rparr>) }"

definition slot_take :: "('a, 'z) Inner_scheme \<Rightarrow> usize \<Rightarrow> ('a \<times> ('a, 'z) Inner_scheme) option" where
  "slot_take r cursor =
     do { i \<leftarrow> slot r cursor; v \<leftarrow> buf r ! i; Some (v, r\<lparr>buf := (buf r)[i := None]\<rparr>) }"

text \<open>\<open>build\<close> panics when the rounded capacity does not fit; \<open>halves\<close> shares the allocation.\<close>

definition build :: "usize \<Rightarrow> 'a Inner option" where
  "build capacity =
     do { c \<leftarrow> checked_next_power_of_two (max capacity 1);
          Some \<lparr>buf = replicate (unat c) None, ring_mask = c - 1, cap = c, head = 0, tail = 0,
                inbox_next = None, producer_gone = False, consumer_gone = False, strong = 1\<rparr> }"

definition halves :: "'a Inner \<Rightarrow> 'a Ring" where
  "halves i = Inner.extend (i\<lparr>strong := strong i + 1\<rparr>) (Ring.fields 0 0)"

definition ring :: "usize \<Rightarrow> 'a Ring option" where
  "ring capacity = map_option halves (build capacity)"

section \<open>The sending half\<close>

definition try_push :: "'a Ring \<Rightarrow> 'a \<Rightarrow> ((unit, 'a) Result \<times> 'a Ring) option" where
  "try_push r item =
     (let t = tail r;
          publish = (\<lambda>r. do { r \<leftarrow> slot_write r t item; Some (Ok (), r\<lparr>tail := t + 1\<rparr>) })
      in if t - head_cache r \<ge> cap r
         then (let r = r\<lparr>head_cache := head r\<rparr>
               in if t - head_cache r \<ge> cap r then Some (Err item, r) else publish r)
         else publish r)"

text \<open>
  Moving a span by \<open>copy_nonoverlapping\<close> transfers ownership: the destination cells hold what the
  source cells held, and the source cells own nothing from then on.
\<close>

definition move_span ::
  "'c option list \<Rightarrow> nat \<Rightarrow> 'c option list \<Rightarrow> nat \<Rightarrow> nat \<Rightarrow> ('c option list \<times> 'c option list) option"
  where
  "move_span src so dst d n =
     do { dst' \<leftarrow> copy_span src so dst d n;
          Some (take so src @ replicate n None @ drop (so + n) src, dst') }"

text \<open>The move of \<open>n\<close> reserved values: a singleton path and a path of at most two spans.\<close>

definition push_move :: "'a Ring \<Rightarrow> usize \<Rightarrow> nat \<Rightarrow> 'a Batch \<Rightarrow> ('a Ring \<times> 'a Batch) option" where
  "push_move r t n source =
     (if n = 1
      then do { value \<leftarrow> (if bread source < length (bvalues source)
                         then bvalues source ! bread source else None);
                let source = source\<lparr>bvalues := (bvalues source)[bread source := None],
                                    bread := bread source + 1\<rparr>;
                r \<leftarrow> slot_write r t value;
                Some (r, source) }
      else do { let start = unat (t AND ring_mask r);
                let first = min n (unat (cap r) - start);
                (vals, b) \<leftarrow> move_span (bvalues source) (bread source) (buf r) start first;
                (vals, b) \<leftarrow> (if first \<noteq> n
                             then move_span vals (bread source + first) b 0 (n - first)
                             else Some (vals, b));
                Some (r\<lparr>buf := b\<rparr>, source\<lparr>bvalues := vals, bread := bread source + n\<rparr>) })"

definition push_from :: "'a Ring \<Rightarrow> usize \<Rightarrow> 'a Batch \<Rightarrow> (nat \<times> 'a Ring \<times> 'a Batch) option" where
  "push_from r mx source =
     (let limit = min (batch_len source) (unat mx)
      in if limit = 0 then Some (0, r, source)
         else let t = tail r;
                  r = (if t - head_cache r \<ge> cap r then r\<lparr>head_cache := head r\<rparr> else r);
                  used = t - head_cache r
              in if used > cap r then None
                 else let n = min limit (unat (cap r - used))
                      in if n = 0 then Some (0, r, source)
                         else do { (r, source) \<leftarrow> push_move r t n source;
                                   Some (n, r\<lparr>tail := t + of_nat n\<rparr>, source) })"

definition is_consumer_gone :: "'a Ring \<Rightarrow> bool" where
  "is_consumer_gone r = consumer_gone r"

section \<open>The receiving half\<close>

definition try_pop :: "'a Ring \<Rightarrow> ('a option \<times> 'a Ring) option" where
  "try_pop r =
     (let h = head r;
          take_head = (\<lambda>r. do { (v, r) \<leftarrow> slot_take r h; Some (Some v, r\<lparr>head := h + 1\<rparr>) })
      in if h = tail_cache r
         then (let r = r\<lparr>tail_cache := tail r\<rparr>
               in if h = tail_cache r then Some (None, r) else take_head r)
         else take_head r)"

definition drain_move :: "'a Ring \<Rightarrow> usize \<Rightarrow> nat \<Rightarrow> 'a Batch \<Rightarrow> ('a Ring \<times> 'a Batch) option" where
  "drain_move r h n out =
     (if n = 1
      then do { (v, r) \<leftarrow> slot_take r h; Some (r, out\<lparr>bvalues := bvalues out @ [Some v]\<rparr>) }
      else do { let len = length (bvalues out);
                let start = unat (h AND ring_mask r);
                let first = min n (unat (cap r) - start);
                (b, vals) \<leftarrow> move_span (buf r) start (bvalues out @ replicate n None) len first;
                (b, vals) \<leftarrow> (if first \<noteq> n then move_span b 0 vals (len + first) (n - first)
                             else Some (b, vals));
                Some (r\<lparr>buf := b\<rparr>, out\<lparr>bvalues := vals\<rparr>) })"

definition drain_into :: "'a Ring \<Rightarrow> usize \<Rightarrow> 'a Batch \<Rightarrow> (nat \<times> 'a Ring \<times> 'a Batch) option" where
  "drain_into r mx out =
     (let h = head r;
          r = (if tail_cache r - h = 0 then r\<lparr>tail_cache := tail r\<rparr> else r);
          available = tail_cache r - h;
          n = unat (min available mx)
      in if n = 0 then Some (0, r, out)
         else do { (r, out) \<leftarrow> drain_move r h n out;
                   Some (n, r\<lparr>head := h + of_nat n\<rparr>, out) })"

text \<open>
  \<open>drain_in_place\<close>: the loop moves slot \<open>k\<close> out, counts it in the commit guard, then runs user
  code. When user code panics the guard's destructor still stores \<open>base + done\<close>.
\<close>

fun drain_loop ::
  "nat \<Rightarrow> usize \<Rightarrow> nat \<Rightarrow> 'a Ring \<Rightarrow> ('a, 's) callback \<Rightarrow> 's \<Rightarrow> (bool \<times> nat \<times> 'a Ring \<times> 's) option" where
  "drain_loop 0 h k r f s = Some (True, k, r, s)"
| "drain_loop (Suc m) h k r f s =
     do { (v, r) \<leftarrow> slot_take r (h + of_nat k);
          let (ok, s) = f v s;
          if ok then drain_loop m h (k + 1) r f s else Some (False, k + 1, r, s) }"

definition drain_in_place ::
  "'a Ring \<Rightarrow> usize \<Rightarrow> ('a, 's) callback \<Rightarrow> 's \<Rightarrow> (nat control \<times> 'a Ring \<times> 's) option" where
  "drain_in_place r mx f s =
     (let h = head r;
          r = (if tail_cache r - h = 0 then r\<lparr>tail_cache := tail r\<rparr> else r);
          avail = tail_cache r - h
      in if avail = 0 then Some (Return 0, r, s)
         else let n = unat (min avail mx)
              in do { (ok, fin, r, s) \<leftarrow> drain_loop n h 0 r f s;
                      Some (if ok then Return n else Unwind, r\<lparr>head := h + of_nat fin\<rparr>, s) })"

text \<open>
  \<open>drain_in_place_async\<close>: the commit guard also notifies the producer's waiter, after the head is
  published, on return and on unwinding alike. The waiter is passed as the notification it runs.
\<close>

definition drain_in_place_async ::
  "'a Ring \<Rightarrow> usize \<Rightarrow> ('w \<Rightarrow> 'w) \<Rightarrow> 'w \<Rightarrow> ('a, 's) callback \<Rightarrow> 's
     \<Rightarrow> (nat control \<times> 'a Ring \<times> 'w \<times> 's) option" where
  "drain_in_place_async r mx notify w f s =
     (if mx = 0 then Some (Return 0, r, w, s)
      else let h = head r;
          r = (if tail_cache r - h = 0 then r\<lparr>tail_cache := tail r\<rparr> else r);
          avail = tail_cache r - h
      in if avail = 0 then Some (Return 0, r, w, s)
         else let n = unat (min avail mx)
              in do { (ok, fin, r, s) \<leftarrow> drain_loop n h 0 r f s;
                      Some (if ok then Return n else Unwind, r\<lparr>head := h + of_nat fin\<rparr>,
                            notify w, s) })"

definition is_empty :: "('a, 'z) Ring_scheme \<Rightarrow> bool" where
  "is_empty r \<longleftrightarrow> head r = tail r"

definition is_finished :: "('a, 'z) Ring_scheme \<Rightarrow> bool" where
  "is_finished r \<longleftrightarrow> producer_gone r \<and> is_empty r"

text \<open>\<open>recycle\<close> succeeds only while the receiver holds the last reference (\<open>Arc::get_mut\<close>).\<close>

definition recycle :: "'a Ring \<Rightarrow> bool \<times> 'a Ring" where
  "recycle r =
     (if strong r = 1
      then (True, r\<lparr>head := 0, tail := 0, producer_gone := False, tail_cache := 0,
                    strong := strong r + 1, head_cache := 0\<rparr>)
      else (False, r))"

definition close :: "'a Ring \<Rightarrow> 'a Ring" where
  "close r = r\<lparr>consumer_gone := True\<rparr>"

section \<open>Teardown\<close>

text \<open>
  Dropping an endpoint runs its \<open>Drop\<close> body and then releases its reference; the last release
  runs \<open>Inner::drop\<close>. Each step yields the values whose destructors run. The loops run as long
  as values are left; the bound on their iterations is the number of slots, and \<open>None\<close> would mean
  that it does not suffice.
\<close>

definition drop_sender :: "'a Ring \<Rightarrow> 'a Ring" where
  "drop_sender r = r\<lparr>producer_gone := True, strong := strong r - 1\<rparr>"

fun pop_all :: "nat \<Rightarrow> 'a Ring \<Rightarrow> ('a list \<times> 'a Ring) option" where
  "pop_all 0 r = None"
| "pop_all (Suc fuel) r =
     do { (v, r) \<leftarrow> try_pop r;
          case v of None \<Rightarrow> Some ([], r)
          | Some v \<Rightarrow> do { (vs, r) \<leftarrow> pop_all fuel r; Some (v # vs, r) } }"

definition drop_receiver :: "'a Ring \<Rightarrow> ('a list \<times> 'a Ring) option" where
  "drop_receiver r =
     do { (vs, r) \<leftarrow> pop_all (Suc (length (buf r))) (r\<lparr>consumer_gone := True\<rparr>);
          Some (vs, r\<lparr>strong := strong r - 1\<rparr>) }"

fun drop_slots :: "nat \<Rightarrow> ('a, 'z) Inner_scheme \<Rightarrow> usize \<Rightarrow> ('a list \<times> ('a, 'z) Inner_scheme) option" where
  "drop_slots 0 r i = (if i = tail r then Some ([], r) else None)"
| "drop_slots (Suc fuel) r i =
     (if i = tail r then Some ([], r)
      else do { (v, r) \<leftarrow> slot_take r i; (vs, r) \<leftarrow> drop_slots fuel r (i + 1); Some (v # vs, r) })"

definition drop_inner :: "('a, 'z) Inner_scheme \<Rightarrow> ('a list \<times> ('a, 'z) Inner_scheme) option" where
  "drop_inner r = drop_slots (length (buf r)) r (head r)"

section \<open>The representation invariant\<close>

text \<open>
  \<open>ring_at k H T HC TC r vs\<close>: the ring has \<open>2 ^ k\<close> slots, its cursors and caches have been advanced
  \<open>H\<close>, \<open>T\<close>, \<open>HC\<close> and \<open>TC\<close> times, and it holds the values \<open>vs\<close>, oldest first. The counts are ghost
  numbers that never wrap; the words of the ring are their images.
\<close>

definition cells_at :: "nat \<Rightarrow> nat \<Rightarrow> 'a option list \<Rightarrow> 'a list \<Rightarrow> bool" where
  "cells_at c H b vs \<longleftrightarrow> length b = c \<and> length vs \<le> c
     \<and> (\<forall>i<c. b ! ((H + i) mod c) = (if i < length vs then Some (vs ! i) else None))"

definition ring_at :: "nat \<Rightarrow> nat \<Rightarrow> nat \<Rightarrow> nat \<Rightarrow> nat \<Rightarrow> 'a Ring \<Rightarrow> 'a list \<Rightarrow> bool" where
  "ring_at k H T HC TC r vs \<longleftrightarrow>
     k \<le> 63 \<and> cap r = of_nat (2 ^ k) \<and> ring_mask r = of_nat (2 ^ k) - 1
     \<and> head r = of_nat H \<and> tail r = of_nat T \<and> head_cache r = of_nat HC \<and> tail_cache r = of_nat TC
     \<and> HC \<le> H \<and> H \<le> TC \<and> TC \<le> T \<and> T \<le> HC + 2 ^ k \<and> T = H + length vs
     \<and> cells_at (2 ^ k) H (buf r) vs"

definition ring_rep :: "'a Ring \<Rightarrow> 'a list \<Rightarrow> bool" where
  "ring_rep r vs \<longleftrightarrow> (\<exists>k H T HC TC. ring_at k H T HC TC r vs)"

text \<open>What no data operation touches: geometry, liveness flags, reference count.\<close>

definition same_ctl :: "'a Ring \<Rightarrow> 'a Ring \<Rightarrow> bool" where
  "same_ctl r r' \<longleftrightarrow> cap r' = cap r \<and> ring_mask r' = ring_mask r \<and> inbox_next r' = inbox_next r
     \<and> producer_gone r' = producer_gone r \<and> consumer_gone r' = consumer_gone r \<and> strong r' = strong r"

lemma same_ctl_refl [simp]: "same_ctl r r"
  by (simp add: same_ctl_def)

lemma same_ctl_trans: "same_ctl a b \<Longrightarrow> same_ctl b c \<Longrightarrow> same_ctl a c"
  by (simp add: same_ctl_def)

lemma window_index_eq_iff:
  fixes i j c :: nat
  assumes "i < c" "j < c"
  shows "(H + i) mod c = (H + j) mod c \<longleftrightarrow> i = j"
proof (rule linorder_cases [of i j])
  assume "i < j"
  then show ?thesis using assms mod_neq_of_window [of "H + i" "H + j" c] by auto
next
  assume "j < i"
  then show ?thesis using assms mod_neq_of_window [of "H + j" "H + i" c] by auto
qed simp

lemma cells_at_push:
  assumes "cells_at c H b vs" "length vs < c"
  shows "cells_at c H (b[(H + length vs) mod c := Some v]) (vs @ [v])"
  using assms
  by (auto simp: cells_at_def nth_list_update window_index_eq_iff nth_append less_Suc_eq)

lemma cells_at_pop:
  assumes "cells_at c H b (v # vs)"
  shows "b ! (H mod c) = Some v" and "cells_at c (Suc H) (b[H mod c := None]) vs"
proof -
  have c: "0 < c" "length b = c" "Suc (length vs) \<le> c"
    and cell: "\<And>i. i < c \<Longrightarrow> b ! ((H + i) mod c) = (if i < Suc (length vs) then Some ((v # vs) ! i) else None)"
    using assms by (auto simp: cells_at_def)
  show "b ! (H mod c) = Some v" using cell [of 0] c by simp
  have "b[H mod c := None] ! ((Suc H + i) mod c) = (if i < length vs then Some (vs ! i) else None)"
    if i: "i < c" for i
  proof (cases "Suc i < c")
    case True
    have "H mod c \<noteq> (H + Suc i) mod c" using window_index_eq_iff [of 0 c "Suc i" H] True c by simp
    then show ?thesis using cell [OF True] c by simp
  next
    case False
    with i have "c = Suc i" by simp
    then have "Suc H + i = H + c" by simp
    then have "(Suc H + i) mod c = H mod c" by (simp only: mod_add_self2)
    then show ?thesis using c \<open>c = Suc i\<close> by simp
  qed
  with c show "cells_at c (Suc H) (b[H mod c := None]) vs" by (simp add: cells_at_def)
qed

lemmas ring_at_defs = ring_at_def cells_at_def

lemma slot_at [slot_simps]:
  assumes "k \<le> 63" "ring_mask r = of_nat (2 ^ k) - 1" "length (buf r) = 2 ^ k"
  shows "slot r (of_nat n) = Some (n mod 2 ^ k)"
  using assms cursor_index [of k n] by (simp add: slot_def Let_def)

lemma pow2_less_64: "k \<le> 63 \<Longrightarrow> (2::nat) ^ k < 2 ^ 64"
  by (rule power_strict_increasing) auto

lemma cap_le_iff:
  assumes "k \<le> 63" "b \<le> a" "a \<le> b + 2 ^ k"
  shows "(of_nat (2 ^ k) :: usize) \<le> of_nat a - of_nat b \<longleftrightarrow> a = b + 2 ^ k"
proof -
  have "unat (of_nat a - of_nat b :: usize) = a - b"
    using assms pow2_less_64 [OF assms(1)] by (intro unat_cursor_diff) auto
  then show ?thesis
    using assms unat_of_nat_pow2 [OF assms(1)] by (auto simp: word_le_nat_alt)
qed

lemma cursor_eq_window:
  assumes "k \<le> 63" "b \<le> a" "a \<le> b + 2 ^ k"
  shows "(of_nat a :: usize) = of_nat b \<longleftrightarrow> a = b" "(of_nat b :: usize) = of_nat a \<longleftrightarrow> a = b"
    and "(of_nat a - of_nat b :: usize) = 0 \<longleftrightarrow> a = b"
proof -
  show e: "(of_nat a :: usize) = of_nat b \<longleftrightarrow> a = b"
    using assms pow2_less_64 [OF assms(1)] by (intro cursor_eq_iff) auto
  then show "(of_nat b :: usize) = of_nat a \<longleftrightarrow> a = b" by metis
  show "(of_nat a - of_nat b :: usize) = 0 \<longleftrightarrow> a = b" using e by simp
qed

lemma ring_at_window:
  assumes "ring_at k H T HC TC r vs"
  shows "k \<le> 63" "HC \<le> T" "T \<le> HC + 2 ^ k" "H \<le> TC" "TC \<le> H + 2 ^ k" "H \<le> T" "T \<le> H + 2 ^ k"
  using assms by (auto simp: ring_at_def)

lemma ring_at_refresh_head: "ring_at k H T HC TC r vs \<Longrightarrow> ring_at k H T H TC (r\<lparr>head_cache := head r\<rparr>) vs"
  by (auto simp: ring_at_def)

lemma ring_at_refresh_tail: "ring_at k H T HC TC r vs \<Longrightarrow> ring_at k H T HC T (r\<lparr>tail_cache := tail r\<rparr>) vs"
  by (auto simp: ring_at_def)

lemma ring_at_slot: "ring_at k H T HC TC r vs \<Longrightarrow> slot r (of_nat n) = Some (n mod 2 ^ k)"
  by (auto simp: ring_at_def cells_at_def intro: slot_at)

section \<open>Single-value operations\<close>

lemma ring_publish:
  assumes "ring_at k H T HC TC r vs" "T < HC + 2 ^ k"
  shows "\<exists>r'. slot_write r (tail r) v = Some r' \<and> ring_at k H (Suc T) HC TC (r'\<lparr>tail := tail r + 1\<rparr>) (vs @ [v])
     \<and> same_ctl r (r'\<lparr>tail := tail r + 1\<rparr>)"
proof -
  have t: "tail r = of_nat T" "T = H + length vs" "length vs < 2 ^ k"
    using assms by (auto simp: ring_at_def)
  have c: "cells_at (2 ^ k) H ((buf r)[T mod 2 ^ k := Some v]) (vs @ [v])"
    using assms t cells_at_push [of "2 ^ k" H "buf r" vs v] by (simp add: ring_at_def)
  have w: "slot_write r (tail r) v = Some (r\<lparr>buf := (buf r)[T mod 2 ^ k := Some v]\<rparr>)"
    using ring_at_slot [OF assms(1), of T] by (simp add: slot_write_def t(1))
  show ?thesis unfolding w using assms c by (auto simp: ring_at_def same_ctl_def)
qed

lemma try_push_ok:
  assumes r: "ring_at k H T HC TC r vs" and room: "length vs < 2 ^ k"
  shows "\<exists>r' HC'. try_push r v = Some (Ok (), r') \<and> ring_at k H (Suc T) HC' TC r' (vs @ [v]) \<and> same_ctl r r'"
proof (cases "T = HC + 2 ^ k")
  case True
  have f: "cap r \<le> tail r - head_cache r"
    using r True cap_le_iff [of k HC T] by (simp add: ring_at_def)
  let ?r = "r\<lparr>head_cache := head r\<rparr>"
  have r1: "ring_at k H T H TC ?r vs" using r by (rule ring_at_refresh_head)
  have nf: "\<not> cap r \<le> tail r - head r" "T < H + 2 ^ k"
    using r room cap_le_iff [of k H T] by (auto simp: ring_at_def)
  show ?thesis using f nf ring_publish [OF r1 nf(2), of v] by (auto simp: try_push_def Let_def same_ctl_def)
next
  case False
  then have nf: "\<not> cap r \<le> tail r - head_cache r" "T < HC + 2 ^ k"
    using r cap_le_iff [of k HC T] by (auto simp: ring_at_def)
  then show ?thesis using ring_publish [OF r nf(2), of v] by (auto simp: try_push_def Let_def)
qed

lemma try_push_full:
  assumes r: "ring_at k H T HC TC r vs" and full: "length vs = 2 ^ k"
  shows "try_push r v = Some (Err v, r\<lparr>head_cache := head r\<rparr>)"
    and "ring_at k H T H TC (r\<lparr>head_cache := head r\<rparr>) vs"
proof -
  have "HC = H" using r full by (auto simp: ring_at_def)
  then have f: "cap r \<le> tail r - head_cache r" "cap r \<le> tail r - head r"
    using r full cap_le_iff [of k HC T] by (auto simp: ring_at_def)
  then show "try_push r v = Some (Err v, r\<lparr>head_cache := head r\<rparr>)" by (simp add: try_push_def Let_def)
  show "ring_at k H T H TC (r\<lparr>head_cache := head r\<rparr>) vs" using r by (rule ring_at_refresh_head)
qed

lemma ring_release:
  assumes "ring_at k H T HC TC r (v # vs)" "H < TC"
  shows "\<exists>r'. slot_take r (head r) = Some (v, r') \<and> ring_at k (Suc H) T HC TC (r'\<lparr>head := head r + 1\<rparr>) vs
     \<and> same_ctl r (r'\<lparr>head := head r + 1\<rparr>)"
proof -
  have c: "buf r ! (H mod 2 ^ k) = Some v" "cells_at (2 ^ k) (Suc H) ((buf r)[H mod 2 ^ k := None]) vs"
    using assms cells_at_pop [of "2 ^ k" H "buf r" v vs] by (auto simp: ring_at_def)
  have h: "head r = of_nat H" using assms by (simp add: ring_at_def)
  have w: "slot_take r (head r) = Some (v, r\<lparr>buf := (buf r)[H mod 2 ^ k := None]\<rparr>)"
    using ring_at_slot [OF assms(1), of H] c by (simp add: slot_take_def h)
  show ?thesis unfolding w using assms c by (auto simp: ring_at_def same_ctl_def)
qed

lemma try_pop_some:
  assumes r: "ring_at k H T HC TC r (v # vs)"
  shows "\<exists>r' TC'. try_pop r = Some (Some v, r') \<and> ring_at k (Suc H) T HC TC' r' vs \<and> same_ctl r r'"
proof (cases "TC = H")
  case True
  let ?r = "r\<lparr>tail_cache := tail r\<rparr>"
  have r1: "ring_at k H T HC T ?r (v # vs)" using r by (rule ring_at_refresh_tail)
  have lt: "H < T" using r by (simp add: ring_at_def)
  have ne: "head r \<noteq> tail r" and eq: "head r = tail_cache r"
    using r True lt cursor_eq_window [of k H T] by (auto simp: ring_at_def)
  show ?thesis using ne eq ring_release [OF r1 lt] by (auto simp: try_pop_def Let_def same_ctl_def)
next
  case False
  then have lt: "H < TC" using r by (simp add: ring_at_def)
  then have ne: "head r \<noteq> tail_cache r"
    using r ring_at_window [OF r] cursor_eq_window [of k H TC] by (auto simp: ring_at_def)
  show ?thesis using ne ring_release [OF r lt] by (auto simp: try_pop_def Let_def)
qed

lemma try_pop_none:
  assumes r: "ring_at k H T HC TC r []"
  shows "try_pop r = Some (None, r\<lparr>tail_cache := tail r\<rparr>)"
    and "ring_at k H T HC T (r\<lparr>tail_cache := tail r\<rparr>) []"
proof -
  have "head r = tail_cache r" "head r = tail r" using r by (auto simp: ring_at_def)
  then show "try_pop r = Some (None, r\<lparr>tail_cache := tail r\<rparr>)" by (simp add: try_pop_def Let_def)
  show "ring_at k H T HC T (r\<lparr>tail_cache := tail r\<rparr>) []" using r by (rule ring_at_refresh_tail)
qed

lemma ring_at_is_empty:
  assumes "ring_at k H T HC TC r vs"
  shows "is_empty r \<longleftrightarrow> vs = []"
  using ring_at_window [OF assms] assms cursor_eq_window [of k H T] by (auto simp: is_empty_def ring_at_def)

section \<open>Spans that wrap around the buffer\<close>

lemma wrap_index:
  fixes c :: nat
  assumes "d < c"
  shows "(T + d) mod c = (if d < c - T mod c then T mod c + d else d - (c - T mod c))"
proof -
  have c: "0 < c" and s: "T mod c < c" using assms by auto
  have e: "(T + d) mod c = (T mod c + d) mod c" by (simp add: mod_add_left_eq)
  show ?thesis
  proof (cases "d < c - T mod c")
    case True
    then show ?thesis using e by simp
  next
    case False
    then have "T mod c + d = d - (c - T mod c) + c" using s by simp
    then have "(T + d) mod c = (d - (c - T mod c)) mod c" using e by (simp only: mod_add_self2)
    moreover have "d - (c - T mod c) < c" using assms by (rule less_imp_diff_less)
    ultimately show ?thesis using False by (simp only: mod_less if_False)
  qed
qed

lemma wrap_lo: "d < c - T mod c \<Longrightarrow> (T + d) mod c = T mod c + (d::nat)"
  using wrap_index [of d c T] by simp

lemma wrap_hi:
  assumes "\<not> d < c - T mod c" "d < (c::nat)"
  shows "(T + d) mod c = d - (c - T mod c)" "d - (c - T mod c) < T mod c" "d - (c - T mod c) < c"
proof -
  have s: "T mod c < c" using assms by simp
  show "(T + d) mod c = d - (c - T mod c)" using wrap_index [OF assms(2), of T] assms(1) by (simp only: if_False)
  show "d - (c - T mod c) < T mod c" using assms s by linarith
  then show "d - (c - T mod c) < c" using s by linarith
qed

lemma move_span_Some:
  assumes "so + n \<le> length src" "d + n \<le> length dst"
  shows "move_span src so dst d n =
    Some (take so src @ replicate n None @ drop (so + n) src,
          take d dst @ take n (drop so src) @ drop (d + n) dst)"
  using assms by (simp add: move_span_def copy_span_def)

lemma move_span_nth:
  assumes "move_span src so dst d n = Some (src', dst')"
  shows "length src' = length src" "length dst' = length dst"
    and "\<And>i. i < length src \<Longrightarrow> src' ! i = (if so \<le> i \<and> i < so + n then None else src ! i)"
    and "\<And>i. i < length dst \<Longrightarrow> dst' ! i = (if d \<le> i \<and> i < d + n then src ! (so + (i - d)) else dst ! i)"
proof -
  have c: "copy_span src so dst d n = Some dst'"
    and s': "src' = take so src @ replicate n None @ drop (so + n) src"
    using assms by (auto simp: move_span_def split: bind_splits)
  from c have b: "so + n \<le> length src" by (simp add: copy_span_def split: if_splits)
  show "length src' = length src" using b by (simp add: s')
  show "length dst' = length dst" using c by (rule copy_span_length)
  show "src' ! i = (if so \<le> i \<and> i < so + n then None else src ! i)" if "i < length src" for i
    using b that by (cases "i < so"; cases "i < so + n") (auto simp: s' nth_append)
  show "dst' ! i = (if d \<le> i \<and> i < d + n then src ! (so + (i - d)) else dst ! i)"
    if "i < length dst" for i using copy_span_nth [OF c that] .
qed

lemma move_span_defined:
  assumes "so + n \<le> length src" "d + n \<le> length dst"
  shows "\<exists>src' dst'. move_span src so dst d n = Some (src', dst')"
  using move_span_Some [OF assms] by blast

text \<open>The two moves of \<open>push_from\<close>: a contiguous source into the free window of the ring.\<close>

lemma two_spans_in:
  assumes c: "0 < c" "length b = c" "n \<le> c" "so + n \<le> length src"
    and f: "first = min n (c - T mod c)"
  obtains vals1 b1 vals b2 where
    "move_span src so b (T mod c) first = Some (vals1, b1)"
    "(if first \<noteq> n then move_span vals1 (so + first) b1 0 (n - first) else Some (vals1, b1)) = Some (vals, b2)"
    "length b2 = c" "length vals = length src"
    "\<forall>i<length src. vals ! i = (if so \<le> i \<and> i < so + n then None else src ! i)"
    "\<forall>d<c. b2 ! ((T + d) mod c) = (if d < n then src ! (so + d) else b ! ((T + d) mod c))"
proof -
  let ?s = "T mod c"
  have s: "?s < c" using c(1) by simp
  have le: "so + first \<le> length src" "?s + first \<le> length b" using c s f by auto
  obtain vals1 b1 where m1: "move_span src so b ?s first = Some (vals1, b1)"
    using move_span_defined [OF le] by blast
  note n1 = move_span_nth [OF m1]
  show thesis
  proof (cases "first = n")
    case True
    have "b1 ! ((T + d) mod c) = (if d < n then src ! (so + d) else b ! ((T + d) mod c))" if d: "d < c" for d
    proof (cases "d < c - ?s")
      case True
      then have ix: "(T + d) mod c = ?s + d" using wrap_index [OF d, of T] by simp
      show ?thesis using n1(4) [of "?s + d"] c True f \<open>first = n\<close> by (simp add: ix)
    next
      case False
      then have ix: "(T + d) mod c = d - (c - ?s)" using wrap_index [OF d, of T] by simp
      have "d - (c - ?s) < ?s" "d - (c - ?s) < c" "\<not> d < n" using d s False f \<open>first = n\<close> by linarith+
      then show ?thesis using n1(4) [of "d - (c - ?s)"] c(2) unfolding ix by simp
    qed
    then show thesis using that [OF m1, of vals1 b1] True n1(1-3) c by simp
  next
    case False
    then have fe: "first = c - ?s" "n - first \<le> c" using f c by linarith+
    have le2: "so + first + (n - first) \<le> length vals1" "0 + (n - first) \<le> length b1"
      using c n1(1,2) f False by linarith+
    obtain vals b2 where m2: "move_span vals1 (so + first) b1 0 (n - first) = Some (vals, b2)"
      using move_span_defined [OF le2] by blast
    note n2 = move_span_nth [OF m2]
    have v: "vals ! i = (if so \<le> i \<and> i < so + n then None else src ! i)" if "i < length src" for i
      using n2(3) [of i] n1(3) [of i] n1(1) that f by auto
    have w: "b2 ! ((T + d) mod c) = (if d < n then src ! (so + d) else b ! ((T + d) mod c))" if d: "d < c" for d
    proof (cases "d < first")
      case True
      then have ix: "(T + d) mod c = ?s + d" using wrap_index [OF d, of T] fe by simp
      have "\<not> ?s + d < n - first" "d < n" using fe c f True by auto
      then show ?thesis using n2(4) [of "?s + d"] n1(4) [of "?s + d"] n1(2) c True fe f s by (simp add: ix)
    next
      case False
      then have ix: "(T + d) mod c = d - first" using wrap_index [OF d, of T] fe by simp
      have lt: "d - first < c" "d - first < ?s" using d fe(1) s False by linarith+
      have "vals1 ! (so + first + (d - first)) = src ! (so + d)" if "d < n"
        using n1(3) [of "so + d"] that False c by simp
      then show ?thesis using n2(4) [of "d - first"] n1(4) [of "d - first"] n1(2) c lt False by (auto simp: ix)
    qed
    show thesis using that [OF m1, of vals b2] m2 False v w n1 n2 c by simp
  qed
qed


text \<open>The two moves of \<open>drain_into\<close>: the full window of the ring onto the end of a vector.\<close>

lemma two_spans_out:
  assumes c: "0 < c" "length b = c" "n \<le> c" "length dst = len + n"
    and f: "first = min n (c - H mod c)"
  obtains vals1 b1 vals b2 where
    "move_span b (H mod c) dst len first = Some (b1, vals1)"
    "(if first \<noteq> n then move_span b1 0 vals1 (len + first) (n - first) else Some (b1, vals1)) = Some (b2, vals)"
    "length b2 = c" "length vals = length dst"
    "\<forall>i<len + n. vals ! i = (if len \<le> i then b ! ((H + (i - len)) mod c) else dst ! i)"
    "\<forall>d<c. b2 ! ((H + d) mod c) = (if d < n then None else b ! ((H + d) mod c))"
proof -
  let ?s = "H mod c"
  have s: "?s < c" using c(1) by simp
  have le: "?s + first \<le> length b" "len + first \<le> length dst" using c s f by auto
  obtain b1 vals1 where m1: "move_span b ?s dst len first = Some (b1, vals1)"
    using move_span_defined [OF le] by blast
  note n1 = move_span_nth [OF m1]
  note lo = wrap_lo [of _ c H] and hi = wrap_hi [of _ c H]
  show thesis
  proof (cases "first = n")
    case True
    then have fe: "n \<le> c - ?s" using f by simp
    have v: "vals1 ! i = (if len \<le> i then b ! ((H + (i - len)) mod c) else dst ! i)" if "i < len + n" for i
      using n1(4) [of i] c that True fe lo [of "i - len"] by auto
    have w: "b1 ! ((H + d) mod c) = (if d < n then None else b ! ((H + d) mod c))" if d: "d < c" for d
    proof (cases "d < c - ?s")
      case True
      then show ?thesis using n1(3) [of "?s + d"] c \<open>first = n\<close> by (simp add: lo)
    next
      case False
      have "\<not> d < n" using False fe by simp
      then show ?thesis using n1(3) [of "d - (c - ?s)"] hi(2,3) [OF False d] c(2) unfolding hi(1) [OF False d] by simp
    qed
    show thesis using that [OF m1, of b1 vals1] True n1 c v w by simp
  next
    case False
    then have fe: "first = c - ?s" using f by auto
    have le2: "0 + (n - first) \<le> length b1" "len + first + (n - first) \<le> length vals1"
      using c n1(1,2) f False by linarith+
    obtain b2 vals where m2: "move_span b1 0 vals1 (len + first) (n - first) = Some (b2, vals)"
      using move_span_defined [OF le2] by blast
    note n2 = move_span_nth [OF m2]
    have nf: "first < n" "n - first \<le> ?s" using False f fe c s by auto
    have v: "vals ! i = (if len \<le> i then b ! ((H + (i - len)) mod c) else dst ! i)" if i: "i < len + n" for i
    proof (cases "len + first \<le> i")
      case True
      then have k: "\<not> i - len < c - ?s" "i - len < c" "i - (len + first) = i - len - (c - ?s)" using i c fe by auto
      have "vals ! i = b1 ! (i - len - (c - ?s))" using n2(4) [of i] n1(2) c i True k nf by simp
      also have "\<dots> = b ! (i - len - (c - ?s))" using n1(3) [of "i - len - (c - ?s)"] hi(2,3) [OF k(1,2)] c by simp
      finally show ?thesis using hi(1) [OF k(1,2)] True by simp
    next
      case False
      then show ?thesis using n2(4) [of i] n1(2,4) c i fe lo [of "i - len"] by auto
    qed
    have w: "b2 ! ((H + d) mod c) = (if d < n then None else b ! ((H + d) mod c))" if d: "d < c" for d
    proof (cases "d < c - ?s")
      case True
      then show ?thesis using n2(3) [of "?s + d"] n1(1,3) c nf fe by (simp add: lo)
    next
      case False
      have "d - (c - ?s) < n - first \<longleftrightarrow> d < n" using False fe nf by linarith
      then show ?thesis
        using n2(3) [of "d - (c - ?s)"] n1(3) [of "d - (c - ?s)"] hi(2,3) [OF False d] n1(1) c(2)
        unfolding hi(1) [OF False d] by simp
    qed
    show thesis using that [OF m1, of b2 vals] m2 False v w n1 n2 c by simp
  qed
qed


section \<open>Bulk operations\<close>

lemma cells_at_extend:
  assumes b: "cells_at c H b vs" and n: "n \<le> length xs" "length vs + n \<le> c" and b2: "length b2 = c"
    and w: "\<And>d. d < c \<Longrightarrow> b2 ! ((H + length vs + d) mod c) = (if d < n then Some (xs ! d) else b ! ((H + length vs + d) mod c))"
  shows "cells_at c H b2 (vs @ take n xs)"
proof -
  have "b2 ! ((H + i) mod c) = (if i < length vs + n then Some ((vs @ take n xs) ! i) else None)" if i: "i < c" for i
  proof (cases "i < length vs")
    case True
    have "(H + i) mod c = (H + i + c) mod c" by simp
    moreover have "H + i + c = H + length vs + (c - (length vs - i))" using n True by simp
    ultimately have ix: "(H + i) mod c = (H + length vs + (c - (length vs - i))) mod c" by simp
    have "c - (length vs - i) < c" "\<not> c - (length vs - i) < n" using n True by linarith+
    then have "b2 ! ((H + i) mod c) = b ! ((H + i) mod c)" unfolding ix using w by presburger
    then show ?thesis using b i True by (simp add: cells_at_def nth_append)
  next
    case False
    then show ?thesis using w [of "i - length vs"] b i n by (auto simp: cells_at_def nth_append)
  qed
  then show ?thesis using b2 n by (simp add: cells_at_def)
qed

lemma cells_at_release:
  assumes b: "cells_at c H b vs" and n: "n \<le> length vs" and b2: "length b2 = c"
    and w: "\<And>d. d < c \<Longrightarrow> b2 ! ((H + d) mod c) = (if d < n then None else b ! ((H + d) mod c))"
  shows "cells_at c (H + n) b2 (drop n vs)"
proof -
  have "b2 ! ((H + n + i) mod c) = (if i < length vs - n then Some (drop n vs ! i) else None)" if i: "i < c" for i
  proof (cases "n + i < c")
    case True
    then show ?thesis using w [of "n + i"] b n by (auto simp: cells_at_def add.assoc)
  next
    case False
    then have lt: "n + i - c < n" "n + i - c < c" using i b n by (auto simp: cells_at_def)
    have "H + n + i = H + (n + i - c) + c" using False by simp
    then have ix: "(H + n + i) mod c = (H + (n + i - c)) mod c" by (simp only: mod_add_self2)
    have "\<not> i < length vs - n" using False b by (auto simp: cells_at_def)
    then show ?thesis using w [of "n + i - c"] lt unfolding ix by simp
  qed
  then show ?thesis using b b2 n by (auto simp: cells_at_def)
qed

lemma batch_rep_nth:
  assumes "batch_rep b xs" "d < length xs"
  shows "bvalues b ! (bread b + d) = Some (xs ! d)"
  using assms by (simp add: batch_rep_def nth_append)

lemma batch_rep_drop:
  assumes "batch_rep b xs" "n \<le> length xs" "length vals = length (bvalues b)"
    and "\<And>i. i < length (bvalues b) \<Longrightarrow> vals ! i = (if bread b \<le> i \<and> i < bread b + n then None else bvalues b ! i)"
  shows "batch_rep (b\<lparr>bvalues := vals, bread := bread b + n\<rparr>) (drop n xs)"
  unfolding batch_rep_def
proof (simp, rule nth_equalityI)
  show "length vals = length (replicate (bread b + n) None @ map Some (drop n xs))"
    using assms by (simp add: batch_rep_def)
  fix i assume "i < length vals"
  then show "vals ! i = (replicate (bread b + n) None @ map Some (drop n xs)) ! i"
    using assms(2,3) assms(4) [of i] assms(1)
    by (cases "i < bread b + n") (auto simp: batch_rep_def nth_append)
qed

lemma push_move_spec:
  assumes r: "ring_at k H T HC TC r vs" and s: "batch_rep source xs"
    and n: "0 < n" "n \<le> length xs" "T + n \<le> HC + 2 ^ k"
  shows "\<exists>r' source'. push_move r (tail r) n source = Some (r', source')
     \<and> ring_at k H (T + n) HC TC (r'\<lparr>tail := tail r + of_nat n\<rparr>) (vs @ take n xs)
     \<and> batch_rep source' (drop n xs) \<and> same_ctl r (r'\<lparr>tail := tail r + of_nat n\<rparr>)"
proof -
  let ?c = "2 ^ k :: nat"
  have g: "k \<le> 63" "tail r = of_nat T" "T = H + length vs" "length vs + n \<le> ?c" "length (buf r) = ?c"
    "cells_at ?c H (buf r) vs"
    using r n by (auto simp: ring_at_def cells_at_def)
  have srcl: "bread source + n \<le> length (bvalues source)" using s n by (simp add: batch_rep_def)
  have src: "bvalues source ! (bread source + d) = Some (xs ! d)" if "d < n" for d
    using batch_rep_nth [OF s, of d] that n by simp
  show ?thesis
  proof (cases "n = 1")
    case True
    have w: "slot_write r (tail r) (xs ! 0) = Some (r\<lparr>buf := (buf r)[T mod ?c := Some (xs ! 0)]\<rparr>)"
      using ring_at_slot [OF r, of T] by (simp add: slot_write_def g)
    have c: "cells_at ?c H ((buf r)[T mod ?c := Some (xs ! 0)]) (vs @ take 1 xs)"
      using cells_at_push [OF g(6)] g n True by (cases xs) auto
    have b: "batch_rep (source\<lparr>bvalues := (bvalues source)[bread source := None], bread := bread source + 1\<rparr>) (drop 1 xs)"
      using srcl True n by (intro batch_rep_drop [OF s]) (auto simp: nth_list_update)
    show ?thesis using True src [of 0] srcl w c b r n
      by (auto simp: push_move_def Let_def ring_at_def same_ctl_def)
  next
    case False
    have ix: "unat (tail r AND ring_mask r) = T mod ?c" "unat (cap r) = ?c"
      using r cursor_index [of k T] unat_of_nat_pow2 [of k] by (auto simp: ring_at_def)
    have pos: "0 < ?c" "n \<le> ?c" using g by auto
    obtain vals1 b1 vals b2 where m:
      "move_span (bvalues source) (bread source) (buf r) (T mod ?c) (min n (?c - T mod ?c)) = Some (vals1, b1)"
      "(if min n (?c - T mod ?c) \<noteq> n then move_span vals1 (bread source + min n (?c - T mod ?c)) b1 0 (n - min n (?c - T mod ?c))
        else Some (vals1, b1)) = Some (vals, b2)"
      "length b2 = ?c" "length vals = length (bvalues source)"
      "\<forall>i<length (bvalues source). vals ! i = (if bread source \<le> i \<and> i < bread source + n then None else bvalues source ! i)"
      "\<forall>d<?c. b2 ! ((T + d) mod ?c) = (if d < n then bvalues source ! (bread source + d) else buf r ! ((T + d) mod ?c))"
      by (rule two_spans_in [OF pos(1) g(5) pos(2) srcl refl, of T]) (rule that)
    have c: "cells_at ?c H b2 (vs @ take n xs)"
      using m(6) src g by (intro cells_at_extend [OF g(6) n(2) g(4) m(3)]) simp
    have b: "batch_rep (source\<lparr>bvalues := vals, bread := bread source + n\<rparr>) (drop n xs)"
      using m(4,5) n by (intro batch_rep_drop [OF s]) auto
    have e: "push_move r (tail r) n source =
      Some (r\<lparr>buf := b2\<rparr>, source\<lparr>bvalues := vals, bread := bread source + n\<rparr>)"
      using False m(1,2) by (simp add: push_move_def Let_def ix split del: if_split)
    show ?thesis unfolding e using b c r n by (auto simp: ring_at_def same_ctl_def)
  qed
qed


text \<open>The reservation of \<open>push_from\<close>: refreshing the cache only when it looks full.\<close>

lemma push_reserve:
  assumes r: "ring_at k H T HC TC r vs"
    and r1: "r1 = (if tail r - head_cache r \<ge> cap r then r\<lparr>head_cache := head r\<rparr> else r)"
  shows "\<exists>HC'. ring_at k H T HC' TC r1 vs \<and> \<not> cap r1 < tail r - head_cache r1
     \<and> unat (cap r1 - (tail r - head_cache r1)) = HC' + 2 ^ k - T
     \<and> HC' + 2 ^ k - T \<le> 2 ^ k - length vs
     \<and> (HC' + 2 ^ k - T = 0 \<longleftrightarrow> length vs = 2 ^ k) \<and> same_ctl r r1"
proof -
  define HC' where "HC' = (if T = HC + 2 ^ k then H else HC)"
  have g: "k \<le> 63" "HC \<le> T" "T \<le> HC + 2 ^ k" using ring_at_window [OF r] by auto
  have f: "cap r \<le> tail r - head_cache r \<longleftrightarrow> T = HC + 2 ^ k"
    using r cap_le_iff [OF g] by (simp add: ring_at_def)
  have at: "ring_at k H T HC' TC r1 vs"
    unfolding HC'_def r1 f using r ring_at_refresh_head [OF r]
    by (cases "T = HC + 2 ^ k") (simp_all only: refl if_True if_False)
  have g': "HC' \<le> T" "T \<le> HC' + 2 ^ k" using ring_at_window [OF at] by auto
  have u: "unat (tail r - head_cache r1) = T - HC'"
    using at r g' pow2_less_64 [OF g(1)] unat_cursor_diff [of HC' T] by (simp add: ring_at_def)
  have cu: "unat (cap r1) = 2 ^ k" using at unat_of_nat_pow2 [OF g(1)] by (simp add: ring_at_def)
  have le: "tail r - head_cache r1 \<le> cap r1" using u cu g' by (simp add: word_le_nat_alt)
  then have d: "unat (cap r1 - (tail r - head_cache r1)) = HC' + 2 ^ k - T"
    using u cu g' by (simp add: unat_sub)
  have z: "HC' + 2 ^ k - T = 0 \<longleftrightarrow> length vs = 2 ^ k" "HC' + 2 ^ k - T \<le> 2 ^ k - length vs"
    using r at by (auto simp: HC'_def ring_at_def)
  show ?thesis using at le d z by (auto simp: r1 same_ctl_def)
qed

lemma push_from_spec:
  assumes r: "ring_at k H T HC TC r vs" and s: "batch_rep source xs"
  shows "\<exists>n r' source' HC'. push_from r mx source = Some (n, r', source')
     \<and> ring_at k H (T + n) HC' TC r' (vs @ take n xs) \<and> batch_rep source' (drop n xs) \<and> same_ctl r r'
     \<and> n \<le> min (length xs) (unat mx) \<and> n \<le> 2 ^ k - length vs
     \<and> (n = 0 \<longleftrightarrow> xs = [] \<or> mx = 0 \<or> length vs = 2 ^ k)"
proof (cases "min (length xs) (unat mx) = 0")
  case True
  then have "push_from r mx source = Some (0, r, source)"
    using batch_len_rep [OF s] by (simp add: push_from_def Let_def)
  moreover have "xs = [] \<or> mx = 0" using True by (auto simp: min_def unat_eq_0 split: if_splits)
  moreover have "ring_at k H (T + 0) HC TC r (vs @ take 0 xs)" "batch_rep source (drop 0 xs)" using r s by auto
  ultimately show ?thesis using same_ctl_refl [of r] by blast
next
  case False
  then have nz: "xs \<noteq> []" "mx \<noteq> 0" by (auto simp: min_def split: if_splits)
  define r1 where "r1 = (if tail r - head_cache r \<ge> cap r then r\<lparr>head_cache := head r\<rparr> else r)"
  obtain HC' where q: "ring_at k H T HC' TC r1 vs" "\<not> cap r1 < tail r - head_cache r1"
    "unat (cap r1 - (tail r - head_cache r1)) = HC' + 2 ^ k - T" "HC' + 2 ^ k - T \<le> 2 ^ k - length vs"
    "HC' + 2 ^ k - T = 0 \<longleftrightarrow> length vs = 2 ^ k" "same_ctl r r1"
    using push_reserve [OF r r1_def] by (elim exE conjE) (rule that)
  define n where "n = min (min (length xs) (unat mx)) (HC' + 2 ^ k - T)"
  have t: "tail r1 = tail r" by (simp add: r1_def)
  have e: "push_from r mx source = (if n = 0 then Some (0, r1, source)
      else do { (r, source) \<leftarrow> push_move r1 (tail r) n source; Some (n, r\<lparr>tail := tail r1 + of_nat n\<rparr>, source) })"
    unfolding push_from_def Let_def r1_def [symmetric] n_def batch_len_rep [OF s] q(3) t
    by (simp only: False q(2) if_False)
  show ?thesis
  proof (cases "n = 0")
    case True
    then have "HC' + 2 ^ k - T = 0" using False unfolding n_def by linarith
    then have "length vs = 2 ^ k" using q(5) by (rule iffD1 [rotated])
    moreover have "push_from r mx source = Some (0, r1, source)" using True e by simp
    moreover have "ring_at k H (T + 0) HC' TC r1 (vs @ take 0 xs)" "batch_rep source (drop 0 xs)" using q(1) s by auto
    ultimately show ?thesis using q(6) by blast
  next
    case n0: False
    have b: "0 < n" "n \<le> length xs" "T + n \<le> HC' + 2 ^ k" "length vs \<noteq> 2 ^ k"
      using n0 q(5) by (auto simp: n_def)
    obtain r2 s2 where m: "push_move r1 (tail r1) n source = Some (r2, s2)"
      "ring_at k H (T + n) HC' TC (r2\<lparr>tail := tail r1 + of_nat n\<rparr>) (vs @ take n xs)"
      "batch_rep s2 (drop n xs)" "same_ctl r1 (r2\<lparr>tail := tail r1 + of_nat n\<rparr>)"
      using push_move_spec [OF q(1) s b(1-3)] by blast
    have "push_from r mx source = Some (n, r2\<lparr>tail := tail r1 + of_nat n\<rparr>, s2)"
      using e m(1) n0 by (simp add: t)
    moreover have "n \<le> min (length xs) (unat mx)" "n \<le> 2 ^ k - length vs"
      using q(4) by (auto simp: n_def)
    moreover have "n = 0 \<longleftrightarrow> xs = [] \<or> mx = 0 \<or> length vs = 2 ^ k" using n0 b nz by simp
    ultimately show ?thesis using m(2,3) same_ctl_trans [OF q(6) m(4)] by blast
  qed
qed


lemma drain_move_spec:
  assumes r: "ring_at k H T HC TC r vs" and o: "batch_rep out xs"
    and n: "0 < n" "H + n \<le> TC"
  shows "\<exists>r' out'. drain_move r (head r) n out = Some (r', out')
     \<and> ring_at k (H + n) T HC TC (r'\<lparr>head := head r + of_nat n\<rparr>) (drop n vs)
     \<and> batch_rep out' (xs @ take n vs) \<and> same_ctl r (r'\<lparr>head := head r + of_nat n\<rparr>)"
proof -
  let ?c = "2 ^ k :: nat"
  have g: "k \<le> 63" "head r = of_nat H" "n \<le> length vs" "n \<le> ?c" "length (buf r) = ?c" "0 < ?c"
    "cells_at ?c H (buf r) vs"
    using r n by (auto simp: ring_at_def cells_at_def)
  have cell: "buf r ! ((H + d) mod ?c) = Some (vs ! d)" if "d < n" for d
    using g that by (auto simp: cells_at_def)
  show ?thesis
  proof (cases "n = 1")
    case True
    then obtain v ws where vs: "vs = v # ws" using g by (cases vs) auto
    have w: "slot_take r (head r) = Some (v, r\<lparr>buf := (buf r)[H mod ?c := None]\<rparr>)"
      using ring_at_slot [OF r, of H] cell [of 0] True by (simp add: slot_take_def g vs)
    have c: "cells_at ?c (H + 1) ((buf r)[H mod ?c := None]) (drop 1 vs)"
      using cells_at_pop [of ?c H "buf r" v ws] g vs by simp
    have b: "batch_rep (out\<lparr>bvalues := bvalues out @ [Some v]\<rparr>) (xs @ [v])"
      using batch_push_back_rep [OF o, of v] by (simp add: batch_push_back_def)
    show ?thesis using True w c b r n vs
      by (auto simp: drain_move_def ring_at_def same_ctl_def)
  next
    case False
    have ix: "unat (head r AND ring_mask r) = H mod ?c" "unat (cap r) = ?c"
      using r cursor_index [of k H] unat_of_nat_pow2 [of k] by (auto simp: ring_at_def)
    let ?dst = "bvalues out @ replicate n None" and ?len = "length (bvalues out)"
    have dl: "length ?dst = ?len + n" by simp
    obtain vals1 b1 vals b2 where m:
      "move_span (buf r) (H mod ?c) ?dst ?len (min n (?c - H mod ?c)) = Some (b1, vals1)"
      "(if min n (?c - H mod ?c) \<noteq> n then move_span b1 0 vals1 (?len + min n (?c - H mod ?c)) (n - min n (?c - H mod ?c))
        else Some (b1, vals1)) = Some (b2, vals)"
      "length b2 = ?c" "length vals = length ?dst"
      "\<forall>i<?len + n. vals ! i = (if ?len \<le> i then buf r ! ((H + (i - ?len)) mod ?c) else ?dst ! i)"
      "\<forall>d<?c. b2 ! ((H + d) mod ?c) = (if d < n then None else buf r ! ((H + d) mod ?c))"
      by (rule two_spans_out [OF g(6,5,4) dl refl, of H]) (rule that)
    have c: "cells_at ?c (H + n) b2 (drop n vs)"
      using m(6) by (intro cells_at_release [OF g(7,3) m(3)]) simp
    have "vals = bvalues out @ map Some (take n vs)"
    proof (rule nth_equalityI)
      show "length vals = length (bvalues out @ map Some (take n vs))" using m(4) g(3) by simp
      fix i assume "i < length vals"
      then show "vals ! i = (bvalues out @ map Some (take n vs)) ! i"
        using m(4,5) cell [of "i - ?len"] g(3) by (cases "i < ?len") (simp_all add: nth_append)
    qed
    then have b: "batch_rep (out\<lparr>bvalues := vals\<rparr>) (xs @ take n vs)"
      using o by (simp add: batch_rep_def)
    have e: "drain_move r (head r) n out = Some (r\<lparr>buf := b2\<rparr>, out\<lparr>bvalues := vals\<rparr>)"
      using False m(1,2) by (simp add: drain_move_def Let_def ix split del: if_split)
    show ?thesis unfolding e using b c r n by (auto simp: ring_at_def same_ctl_def)
  qed
qed

lemma drain_reserve:
  assumes r: "ring_at k H T HC TC r vs"
    and r1: "r1 = (if tail_cache r - head r = 0 then r\<lparr>tail_cache := tail r\<rparr> else r)"
  shows "\<exists>TC'. ring_at k H T HC TC' r1 vs \<and> unat (tail_cache r1 - head r) = TC' - H
     \<and> TC' - H \<le> length vs \<and> (TC' - H = 0 \<longleftrightarrow> vs = []) \<and> same_ctl r r1"
proof -
  define TC' where "TC' = (if TC = H then T else TC)"
  have g: "k \<le> 63" "H \<le> TC" "TC \<le> H + 2 ^ k" using ring_at_window [OF r] by auto
  have f: "tail_cache r - head r = 0 \<longleftrightarrow> TC = H"
    using r cursor_eq_window(3) [OF g] by (simp add: ring_at_def)
  have at: "ring_at k H T HC TC' r1 vs"
    unfolding TC'_def r1 f using r ring_at_refresh_tail [OF r]
    by (cases "TC = H") (simp_all only: refl if_True if_False)
  have g': "H \<le> TC'" "TC' \<le> H + 2 ^ k" using ring_at_window [OF at] by auto
  have "TC' - H < 2 ^ 64" using g'(2) pow2_less_64 [OF g(1)] by linarith
  then have "unat (tail_cache r1 - head r) = TC' - H"
    using at r unat_cursor_diff [OF g'(1)] by (simp add: ring_at_def)
  moreover have "TC' - H \<le> length vs" "TC' - H = 0 \<longleftrightarrow> vs = []"
    using at r by (auto simp: ring_at_def TC'_def)
  ultimately show ?thesis using at by (auto simp: r1 same_ctl_def)
qed

lemma drain_into_spec:
  assumes r: "ring_at k H T HC TC r vs" and o: "batch_rep out xs"
  shows "\<exists>n r' out' TC'. drain_into r mx out = Some (n, r', out')
     \<and> ring_at k (H + n) T HC TC' r' (drop n vs) \<and> batch_rep out' (xs @ take n vs) \<and> same_ctl r r'
     \<and> n \<le> min (length vs) (unat mx) \<and> (n = 0 \<longleftrightarrow> vs = [] \<or> mx = 0)"
proof -
  define r1 where "r1 = (if tail_cache r - head r = 0 then r\<lparr>tail_cache := tail r\<rparr> else r)"
  obtain TC' where q: "ring_at k H T HC TC' r1 vs" "unat (tail_cache r1 - head r) = TC' - H"
    "TC' - H \<le> length vs" "TC' - H = 0 \<longleftrightarrow> vs = []" "same_ctl r r1"
    using drain_reserve [OF r r1_def] by (elim exE conjE) (rule that)
  define n where "n = min (TC' - H) (unat mx)"
  have h: "head r1 = head r" by (simp add: r1_def)
  have e: "drain_into r mx out = (if n = 0 then Some (0, r1, out)
      else do { (r, out) \<leftarrow> drain_move r1 (head r1) n out; Some (n, r\<lparr>head := head r1 + of_nat n\<rparr>, out) })"
    unfolding drain_into_def Let_def r1_def [symmetric] n_def unat_min q(2) h ..
  have n0: "n = 0 \<longleftrightarrow> vs = [] \<or> mx = 0" "n \<le> min (length vs) (unat mx)"
    using q(3,4) by (auto simp: n_def min_def unat_eq_0)
  show ?thesis
  proof (cases "n = 0")
    case True
    then have "drain_into r mx out = Some (0, r1, out)" using e by simp
    moreover have "ring_at k (H + 0) T HC TC' r1 (drop 0 vs)" "batch_rep out (xs @ take 0 vs)" using q(1) o by auto
    ultimately show ?thesis using q(5) n0 True by blast
  next
    case False
    then have b: "0 < n" "H + n \<le> TC'" by (auto simp: n_def)
    obtain r2 o2 where m: "drain_move r1 (head r1) n out = Some (r2, o2)"
      "ring_at k (H + n) T HC TC' (r2\<lparr>head := head r1 + of_nat n\<rparr>) (drop n vs)"
      "batch_rep o2 (xs @ take n vs)" "same_ctl r1 (r2\<lparr>head := head r1 + of_nat n\<rparr>)"
      using drain_move_spec [OF q(1) o b] by blast
    have "drain_into r mx out = Some (n, r2\<lparr>head := head r1 + of_nat n\<rparr>, o2)"
      using e m(1) False by simp
    then show ?thesis using m(2,3) same_ctl_trans [OF q(5) m(4)] n0 by blast
  qed
qed


text \<open>The loop of \<open>drain_in_place\<close> hands the oldest values to user code, one slot at a time.\<close>

lemma drain_loop_spec:
  assumes "ring_at k H T HC TC r0 vs0" "buf r = b" "r = r0\<lparr>buf := b\<rparr>"
    "cells_at (2 ^ k) (H + j) b vs" "m \<le> length vs"
  shows "\<exists>b'. drain_loop m (of_nat H) j r f s =
      Some (fst (snd (feed f (take m vs) s)), j + fst (feed f (take m vs) s), r\<lparr>buf := b'\<rparr>, snd (snd (feed f (take m vs) s)))
     \<and> cells_at (2 ^ k) (H + (j + fst (feed f (take m vs) s))) b' (drop (fst (feed f (take m vs) s)) vs)"
  using assms
proof (induction m arbitrary: j r b vs s)
  case 0
  then show ?case by (intro exI [of _ b]) simp
next
  case (Suc m)
  then obtain v ws where vs: "vs = v # ws" "m \<le> length ws" by (cases vs) auto
  let ?b = "b[(H + j) mod 2 ^ k := None]"
  have pop: "b ! ((H + j) mod 2 ^ k) = Some v" "cells_at (2 ^ k) (H + (j + 1)) ?b ws"
    using cells_at_pop [of "2 ^ k" "H + j" b v ws] Suc.prems(4) vs by auto
  have "slot r (of_nat (H + j)) = Some ((H + j) mod 2 ^ k)"
    using Suc.prems by (intro slot_at) (auto simp: ring_at_def cells_at_def)
  then have tk: "slot_take r (of_nat H + of_nat j) = Some (v, r\<lparr>buf := ?b\<rparr>)"
    using pop Suc.prems(2) by (simp add: slot_take_def)
  show ?case
  proof (cases "fst (f v s)")
    case False
    then show ?thesis using tk pop(2) vs by (auto simp: feed_Cons case_prod_beta simp del: feed.simps(2))
  next
    case True
    have r': "r\<lparr>buf := ?b\<rparr> = r0\<lparr>buf := ?b\<rparr>" using Suc.prems(3) by simp
    obtain b' where "drain_loop m (of_nat H) (j + 1) (r\<lparr>buf := ?b\<rparr>) f (snd (f v s)) =
        Some (fst (snd (feed f (take m ws) (snd (f v s)))), j + 1 + fst (feed f (take m ws) (snd (f v s))),
          r\<lparr>buf := ?b, buf := b'\<rparr>, snd (snd (feed f (take m ws) (snd (f v s)))))"
      "cells_at (2 ^ k) (H + (j + 1 + fst (feed f (take m ws) (snd (f v s))))) b'
         (drop (fst (feed f (take m ws) (snd (f v s)))) ws)"
      using Suc.IH [OF Suc.prems(1) _ r' pop(2) vs(2)] by auto
    then show ?thesis using tk True vs
      by (intro exI [of _ b']) (auto simp: feed_Cons case_prod_beta simp del: feed.simps(2))
  qed
qed

lemma drain_commit:
  assumes r: "ring_at k H T HC TC r vs" and n: "H + n \<le> TC"
    and fd: "feed f (take n vs) s = (fin, ok, s')"
  shows "\<exists>r'. drain_loop n (head r) 0 r f s = Some (ok, fin, r', s')
     \<and> ring_at k (H + fin) T HC TC (r'\<lparr>head := head r + of_nat fin\<rparr>) (drop fin vs)
     \<and> same_ctl r (r'\<lparr>head := head r + of_nat fin\<rparr>)"
proof -
  have g: "head r = of_nat H" "cells_at (2 ^ k) (H + 0) (buf r) vs" "n \<le> length vs" "fin \<le> n"
    using r n feed_le [of f "take n vs" s] fd by (auto simp: ring_at_def)
  obtain b' where b': "drain_loop n (of_nat H) 0 r f s = Some (ok, fin, r\<lparr>buf := b'\<rparr>, s')"
    "cells_at (2 ^ k) (H + fin) b' (drop fin vs)"
    using drain_loop_spec [OF r refl _ g(2,3), of f s] fd by auto
  then show ?thesis using r n g by (auto simp: ring_at_def same_ctl_def)
qed

lemma drain_in_place_unfold:
  fixes r :: "'a Ring"
  defines "r1 \<equiv> (if tail_cache r - head r = 0 then r\<lparr>tail_cache := tail r\<rparr> else r)"
  shows "drain_in_place r mx f s =
     (if tail_cache r1 - head r = 0 then Some (Return 0, r1, s)
      else do { (ok, fin, r', s) \<leftarrow> drain_loop (unat (min (tail_cache r1 - head r) mx)) (head r) 0 r1 f s;
                Some (if ok then Return (unat (min (tail_cache r1 - head r) mx)) else Unwind,
                      r'\<lparr>head := head r1 + of_nat fin\<rparr>, s) })"
    and "drain_in_place_async r mx notify w f s =
     (if mx = 0 then Some (Return 0, r, w, s)
      else if tail_cache r1 - head r = 0 then Some (Return 0, r1, w, s)
      else do { (ok, fin, r', s) \<leftarrow> drain_loop (unat (min (tail_cache r1 - head r) mx)) (head r) 0 r1 f s;
                Some (if ok then Return (unat (min (tail_cache r1 - head r) mx)) else Unwind,
                      r'\<lparr>head := head r1 + of_nat fin\<rparr>, notify w, s) })"
proof -
  have h: "head r1 = head r" by (simp add: r1_def)
  show "drain_in_place r mx f s =
     (if tail_cache r1 - head r = 0 then Some (Return 0, r1, s)
      else do { (ok, fin, r', s) \<leftarrow> drain_loop (unat (min (tail_cache r1 - head r) mx)) (head r) 0 r1 f s;
                Some (if ok then Return (unat (min (tail_cache r1 - head r) mx)) else Unwind,
                      r'\<lparr>head := head r1 + of_nat fin\<rparr>, s) })"
    unfolding drain_in_place_def Let_def r1_def [symmetric] h ..
  show "drain_in_place_async r mx notify w f s =
     (if mx = 0 then Some (Return 0, r, w, s)
      else if tail_cache r1 - head r = 0 then Some (Return 0, r1, w, s)
      else do { (ok, fin, r', s) \<leftarrow> drain_loop (unat (min (tail_cache r1 - head r) mx)) (head r) 0 r1 f s;
                Some (if ok then Return (unat (min (tail_cache r1 - head r) mx)) else Unwind,
                      r'\<lparr>head := head r1 + of_nat fin\<rparr>, notify w, s) })"
    unfolding drain_in_place_async_def Let_def r1_def [symmetric] h ..
qed

lemma drain_in_place_spec:
  assumes r: "ring_at k H T HC TC r vs"
  shows "\<exists>n fin ok s' r' TC'. feed f (take n vs) s = (fin, ok, s')
     \<and> drain_in_place r mx f s = Some (if ok then Return n else Unwind, r', s')
     \<and> ring_at k (H + fin) T HC TC' r' (drop fin vs) \<and> same_ctl r r'
     \<and> n \<le> min (length vs) (unat mx) \<and> (n = 0 \<longleftrightarrow> vs = [] \<or> mx = 0)"
proof -
  define r1 where "r1 = (if tail_cache r - head r = 0 then r\<lparr>tail_cache := tail r\<rparr> else r)"
  obtain TC' where q: "ring_at k H T HC TC' r1 vs" "unat (tail_cache r1 - head r) = TC' - H"
    "TC' - H \<le> length vs" "TC' - H = 0 \<longleftrightarrow> vs = []" "same_ctl r r1"
    using drain_reserve [OF r r1_def] by (elim exE conjE) (rule that)
  define n where "n = min (TC' - H) (unat mx)"
  obtain fin ok s' where fd: "feed f (take n vs) s = (fin, ok, s')" by (cases "feed f (take n vs) s") auto
  have h: "head r1 = head r" by (simp add: r1_def)
  have n0: "n = 0 \<longleftrightarrow> vs = [] \<or> mx = 0" "n \<le> min (length vs) (unat mx)"
    using q(3,4) by (auto simp: n_def min_def unat_eq_0)
  have H: "H \<le> TC'" using q(1) by (simp add: ring_at_def)
  show ?thesis
  proof (cases "vs = []")
    case True
    then have "tail_cache r1 - head r = 0" using q(2,4) by (metis unat_eq_0)
    then have "drain_in_place r mx f s = Some (Return 0, r1, s)"
      unfolding drain_in_place_unfold(1) r1_def [symmetric] by (simp only: if_True refl)
    moreover have "ring_at k (H + 0) T HC TC' r1 (drop 0 vs)" using q(1) by simp
    ultimately show ?thesis using q(5) True
      by (intro exI [of _ 0] exI [of _ True] exI [of _ s] exI [of _ r1] exI [of _ TC']) simp
  next
    case False
    have nz: "tail_cache r1 - head r \<noteq> 0" using q(2,4) False by (metis unat_0)
    have b: "H + n \<le> TC'" using H by (simp add: n_def)
    obtain r2 where m: "drain_loop n (head r1) 0 r1 f s = Some (ok, fin, r2, s')"
      "ring_at k (H + fin) T HC TC' (r2\<lparr>head := head r1 + of_nat fin\<rparr>) (drop fin vs)"
      "same_ctl r1 (r2\<lparr>head := head r1 + of_nat fin\<rparr>)"
      using drain_commit [OF q(1) b fd] by blast
    have "unat (min (tail_cache r1 - head r) mx) = n" unfolding unat_min q(2) n_def ..
    then have "drain_in_place r mx f s =
        Some (if ok then Return n else Unwind, r2\<lparr>head := head r1 + of_nat fin\<rparr>, s')"
      unfolding drain_in_place_unfold(1) r1_def [symmetric] using nz m(1) h by (simp del: right_minus_eq)
    then show ?thesis using fd m(2) same_ctl_trans [OF q(5) m(3)] n0 by blast
  qed
qed

text \<open>
  The asynchronous variant runs the same drain; its guard notifies the producer exactly when the
  drain was entered.
\<close>

lemma drain_in_place_async_eq:
  assumes "ring_at k H T HC TC r vs"
  shows "drain_in_place_async r mx notify w f s =
    (if mx = 0 then Some (Return 0, r, w, s)
     else map_option (\<lambda>(c, r', s'). (c, r', (if vs = [] then w else notify w), s')) (drain_in_place r mx f s))"
proof -
  define r1 where "r1 = (if tail_cache r - head r = 0 then r\<lparr>tail_cache := tail r\<rparr> else r)"
  have "unat (tail_cache r1 - head r) = 0 \<longleftrightarrow> vs = []"
    using drain_reserve [OF assms r1_def] by (elim exE conjE) (simp only:)
  then have "tail_cache r1 - head r = 0 \<longleftrightarrow> vs = []" by (simp only: unat_eq_0)
  then show ?thesis
    unfolding drain_in_place_unfold r1_def [symmetric]
    by (cases "drain_loop (unat (min (tail_cache r1 - head r) mx)) (head r) 0 r1 f s")
      (simp_all del: right_minus_eq add: case_prod_beta)
qed

section \<open>Construction, recycling and teardown\<close>

lemma ring_new:
  assumes "ring capacity = Some r"
  shows "\<exists>k. ring_at k 0 0 0 0 r [] \<and> unat (cap r) = 2 ^ k \<and> 2 ^ k = next_pow2 (unat (max capacity 1))"
    and "\<not> producer_gone r" "\<not> consumer_gone r" "strong r = 2"
proof -
  obtain c where c: "checked_next_power_of_two (max capacity 1) = Some c"
    and r: "r = halves \<lparr>buf = replicate (unat c) None, ring_mask = c - 1, cap = c, head = 0, tail = 0,
       inbox_next = None, producer_gone = False, consumer_gone = False, strong = 1\<rparr>"
    using assms by (auto simp: ring_def build_def split: bind_splits)
  obtain k where k: "k \<le> 63" "unat c = 2 ^ k" using checked_next_power_of_two_SomeD(1) [OF c] by blast
  have ce: "c = of_nat (2 ^ k)" using k(2) by (metis unat_of_nat_pow2 k(1) word_unat_eq_iff)
  have "ring_at k 0 0 0 0 r []"
    using k ce by (simp add: r halves_def ring_at_def cells_at_def Inner.defs Ring.defs)
  moreover have "unat (cap r) = 2 ^ k" using k by (simp add: r halves_def Inner.defs Ring.defs)
  ultimately show "\<exists>k. ring_at k 0 0 0 0 r [] \<and> unat (cap r) = 2 ^ k \<and> 2 ^ k = next_pow2 (unat (max capacity 1))"
    using k checked_next_power_of_two_SomeD(3) [OF c] by auto
  show "\<not> producer_gone r" "\<not> consumer_gone r" "strong r = 2"
    by (simp_all add: r halves_def Inner.defs Ring.defs)
qed

lemma window_covers:
  fixes j c :: nat
  assumes "j < c"
  shows "\<exists>i<c. (H + i) mod c = j"
proof (intro exI conjI)
  have c: "0 < c" "H mod c < c" using assms by auto
  show "(j + c - H mod c) mod c < c" using c by simp
  have "(H + (j + c - H mod c) mod c) mod c = (H mod c + (j + c - H mod c)) mod c"
    by (metis mod_add_eq mod_mod_trivial)
  also have "H mod c + (j + c - H mod c) = j + c" using c by linarith
  finally show "(H + (j + c - H mod c) mod c) mod c = j" using assms by simp
qed

lemma ring_defined: "unat capacity \<le> 2 ^ 63 \<Longrightarrow> \<exists>r. ring capacity = Some r"
  by (auto simp: ring_def build_def checked_next_power_of_two_def max_def word_le_nat_alt)

lemma recycle_spec:
  assumes "ring_at k H T HC TC r []" "strong r = 1"
  shows "\<exists>r'. recycle r = (True, r') \<and> ring_at k 0 0 0 0 r' [] \<and> cap r' = cap r
     \<and> \<not> producer_gone r' \<and> consumer_gone r' = consumer_gone r \<and> strong r' = 2"
proof -
  have c: "length (buf r) = 2 ^ k" "\<forall>i<2 ^ k. buf r ! ((H + i) mod 2 ^ k) = None"
    using assms(1) by (auto simp: ring_at_def cells_at_def)
  have "buf r ! j = None" if "j < 2 ^ k" for j
    using window_covers [OF that, of H] c(2) by auto
  then show ?thesis using assms c(1) by (auto simp: recycle_def ring_at_def cells_at_def)
qed

lemma pop_all_spec:
  assumes "ring_at k H T HC TC r vs" "length vs < fuel"
  shows "\<exists>r' TC'. pop_all fuel r = Some (vs, r') \<and> ring_at k T T HC TC' r' [] \<and> same_ctl r r'"
  using assms
proof (induction vs arbitrary: H TC r fuel)
  case Nil
  then obtain f where f: "fuel = Suc f" by (cases fuel) auto
  have "H = T" using Nil by (simp add: ring_at_def)
  then show ?case using try_pop_none [OF Nil.prems(1)] by (auto simp: f same_ctl_def)
next
  case (Cons v vs)
  then obtain f where f: "fuel = Suc f" "length vs < f" by (cases fuel) auto
  obtain r1 TC1 where p: "try_pop r = Some (Some v, r1)" "ring_at k (Suc H) T HC TC1 r1 vs" "same_ctl r r1"
    using try_pop_some [OF Cons.prems(1)] by blast
  obtain r2 TC2 where "pop_all f r1 = Some (vs, r2)" "ring_at k T T HC TC2 r2 []" "same_ctl r1 r2"
    using Cons.IH [OF p(2) f(2)] by blast
  then show ?case using p same_ctl_trans by (auto simp: f)
qed

lemma drop_slots_spec:
  assumes "ring_at k H T HC TC r vs" "length vs \<le> fuel"
  shows "\<exists>r'. drop_slots fuel r (of_nat H) = Some (vs, r') \<and> cells_at (2 ^ k) T (buf r') []"
proof -
  have "\<exists>r'. drop_slots fuel r (of_nat H) = Some (vs, r') \<and> cells_at (2 ^ k) T (buf r') []"
    if "cells_at (2 ^ k) H (buf r) vs" "k \<le> 63" "ring_mask r = of_nat (2 ^ k) - 1" "tail r = of_nat T"
      "T = H + length vs" "length vs \<le> fuel" for r :: "'a Ring" and H vs fuel
    using that
  proof (induction vs arbitrary: H r fuel)
    case Nil
    then show ?case by (cases fuel) auto
  next
    case (Cons v vs)
    then obtain f where f: "fuel = Suc f" "length vs \<le> f" by (cases fuel) auto
    have ne: "(of_nat H :: usize) \<noteq> of_nat T"
      using Cons.prems cursor_eq_window [of k H T] by (auto simp: cells_at_def)
    let ?r = "r\<lparr>buf := (buf r)[H mod 2 ^ k := None]\<rparr>"
    have "slot r (of_nat H) = Some (H mod 2 ^ k)"
      using Cons.prems by (intro slot_at) (auto simp: cells_at_def)
    then have t: "slot_take r (of_nat H) = Some (v, ?r)"
      using cells_at_pop [OF Cons.prems(1)] by (simp add: slot_take_def)
    have "\<exists>r'. drop_slots f ?r (of_nat (Suc H)) = Some (vs, r') \<and> cells_at (2 ^ k) T (buf r') []"
      using cells_at_pop [OF Cons.prems(1)] Cons.prems f by (intro Cons.IH) auto
    then show ?case using t ne Cons.prems(4) by (auto simp: f add.commute)
  qed
  from this [of H r vs fuel] assms show ?thesis by (simp add: ring_at_def)
qed

section \<open>The ring as a bounded queue\<close>

lemma ring_at_cap: "ring_at k H T HC TC r vs \<Longrightarrow> unat (cap r) = 2 ^ k \<and> length vs \<le> 2 ^ k"
  using unat_of_nat_pow2 [of k] by (auto simp: ring_at_def cells_at_def)

lemma ring_repI: "ring_at k H T HC TC r vs \<Longrightarrow> ring_rep r vs"
  by (simp only: ring_rep_def) blast

lemma ring_repE:
  assumes "ring_rep r vs"
  obtains k H T HC TC where "ring_at k H T HC TC r vs"
  using assms by (auto simp only: ring_rep_def)

lemma ring_rep_new: "ring capacity = Some r \<Longrightarrow> ring_rep r []"
  using ring_new(1) ring_repI by blast

lemma ring_rep_bound: "ring_rep r vs \<Longrightarrow> length vs \<le> unat (cap r)"
  by (elim ring_repE) (simp add: ring_at_cap)

lemma ring_rep_empty_iff: "ring_rep r vs \<Longrightarrow> is_empty r \<longleftrightarrow> vs = []"
  by (elim ring_repE) (rule ring_at_is_empty)

lemma ring_rep_ctl [simp]:
  "ring_rep (r\<lparr>producer_gone := p\<rparr>) vs = ring_rep r vs"
  "ring_rep (r\<lparr>consumer_gone := p\<rparr>) vs = ring_rep r vs"
  "ring_rep (r\<lparr>strong := n\<rparr>) vs = ring_rep r vs"
  "ring_rep (r\<lparr>inbox_next := a\<rparr>) vs = ring_rep r vs"
  by (simp_all add: ring_rep_def ring_at_def)

lemma ring_rep_unique:
  assumes "ring_rep r vs" "ring_rep r ws"
  shows "vs = ws"
proof -
  obtain k H T HC TC where a: "ring_at k H T HC TC r vs" using assms(1) by (rule ring_repE)
  obtain k' H' T' HC' TC' where b: "ring_at k' H' T' HC' TC' r ws" using assms(2) by (rule ring_repE)
  have "(2::nat) ^ k = 2 ^ k'" using ring_at_cap [OF a] ring_at_cap [OF b] by simp
  then have k: "k' = k" by simp
  have lens: "length vs < 2 ^ 64" "length ws < 2 ^ 64"
    using ring_at_cap [OF a] ring_at_cap [OF b] pow2_less_64 [of k] pow2_less_64 [of k'] a b
    by (auto simp: ring_at_def)
  have "unat (tail r - head r) = length vs"
    using a lens unat_cursor_diff [of H "H + length vs"] by (simp add: ring_at_def)
  moreover have "unat (tail r - head r) = length ws"
    using b lens unat_cursor_diff [of H' "H' + length ws"] by (simp add: ring_at_def)
  ultimately have len: "length vs = length ws" by simp
  have "unat (head r AND ring_mask r) = H mod 2 ^ k" "unat (head r AND ring_mask r) = H' mod 2 ^ k"
    using a b k cursor_index [of k H] cursor_index [of k H'] by (auto simp: ring_at_def)
  then have ix: "(H + i) mod 2 ^ k = (H' + i) mod 2 ^ k" for i
    using mod_add_cong [of H "2 ^ k" H' i i] by simp
  have "Some (vs ! i) = Some (ws ! i)" if i: "i < length vs" for i
  proof -
    have l: "i < 2 ^ k" using i ring_at_cap [OF a] by linarith
    have "buf r ! ((H + i) mod 2 ^ k) = Some (vs ! i)"
      using a l i by (auto simp: ring_at_def cells_at_def)
    moreover have "buf r ! ((H' + i) mod 2 ^ k) = Some (ws ! i)"
      using b l i len k by (auto simp: ring_at_def cells_at_def)
    ultimately show ?thesis by (simp only: ix)
  qed
  then show ?thesis using len by (intro nth_equalityI) auto
qed

text \<open>
  \<open>Sender::try_push\<close> is the push of a bounded FIFO queue: it never touches a slot it does not
  own, appends the value when fewer than \<open>cap\<close> values are buffered whatever its cached head says,
  and otherwise hands the value back and changes nothing observable.
\<close>

lemma ring_rep_try_push:
  assumes "ring_rep r vs"
  shows "\<exists>r'. try_push r v = Some (if length vs < unat (cap r) then Ok () else Err v, r')
     \<and> ring_rep r' (if length vs < unat (cap r) then vs @ [v] else vs) \<and> same_ctl r r'"
proof -
  obtain k H T HC TC where a: "ring_at k H T HC TC r vs" using assms(1) by (rule ring_repE)
  note c = ring_at_cap [OF a]
  show ?thesis
  proof (cases "length vs < 2 ^ k")
    case True
    then show ?thesis using try_push_ok [OF a, of v] c by (auto intro: ring_repI)
  next
    case False
    then have "length vs = 2 ^ k" using c by simp
    note f = try_push_full [OF a this]
    show ?thesis unfolding f(1) using f(2) c False by (auto simp: same_ctl_def intro: ring_repI)
  qed
qed

text \<open>\<open>Receiver::try_pop\<close> removes the oldest value, and reports emptiness only when there is none.\<close>

lemma ring_rep_try_pop:
  assumes "ring_rep r vs"
  shows "\<exists>r'. try_pop r = Some (case vs of [] \<Rightarrow> None | v # _ \<Rightarrow> Some v, r')
     \<and> ring_rep r' (tl vs) \<and> same_ctl r r'"
proof -
  obtain k H T HC TC where a: "ring_at k H T HC TC r vs" using assms(1) by (rule ring_repE)
  show ?thesis
  proof (cases vs)
    case Nil
    then have e: "ring_at k H T HC TC r []" using a by simp
    show ?thesis unfolding Nil try_pop_none(1) [OF e] using try_pop_none(2) [OF e]
      by (auto simp: same_ctl_def intro: ring_repI)
  next
    case (Cons v ws)
    then show ?thesis using try_pop_some [of k H T HC TC r v ws] a by (auto intro: ring_repI)
  qed
qed

text \<open>
  \<open>Sender::push_from\<close> moves a FIFO prefix of the batch into the ring with its two-span copy,
  wrap-around included: what the ring gained is what the batch lost, in order, never more than
  \<open>max\<close> or than fits, and something is moved whenever something could be.
\<close>

lemma ring_rep_push_from:
  assumes "ring_rep r vs" "batch_rep source xs"
  shows "\<exists>n r' source'. push_from r mx source = Some (n, r', source')
     \<and> ring_rep r' (vs @ take n xs) \<and> batch_rep source' (drop n xs) \<and> same_ctl r r'
     \<and> n \<le> min (length xs) (unat mx) \<and> length vs + n \<le> unat (cap r)
     \<and> (n = 0 \<longleftrightarrow> xs = [] \<or> mx = 0 \<or> length vs = unat (cap r))"
proof -
  obtain k H T HC TC where a: "ring_at k H T HC TC r vs" using assms(1) by (rule ring_repE)
  obtain n r' source' HC' where "push_from r mx source = Some (n, r', source')"
     "ring_at k H (T + n) HC' TC r' (vs @ take n xs)" "batch_rep source' (drop n xs)" "same_ctl r r'"
     "n \<le> min (length xs) (unat mx)" "n \<le> 2 ^ k - length vs"
     "n = 0 \<longleftrightarrow> xs = [] \<or> mx = 0 \<or> length vs = 2 ^ k"
    using push_from_spec [OF a assms(2)] by blast
  moreover from this(2) have "ring_rep r' (vs @ take n xs)" by (rule ring_repI)
  moreover have "length vs + n \<le> unat (cap r)" using ring_at_cap [OF a] calculation(6) by linarith
  ultimately show ?thesis using ring_at_cap [OF a] by (intro exI [of _ n] exI [of _ r'] exI [of _ source']) simp
qed

text \<open>
  \<open>Receiver::drain_into\<close> appends a FIFO prefix of the ring to the batch with at most two moves,
  keeps what the batch already held, and takes something whenever something is there.
\<close>

lemma ring_rep_drain_into:
  assumes "ring_rep r vs" "batch_rep out xs"
  shows "\<exists>n r' out'. drain_into r mx out = Some (n, r', out')
     \<and> ring_rep r' (drop n vs) \<and> batch_rep out' (xs @ take n vs) \<and> same_ctl r r'
     \<and> n \<le> min (length vs) (unat mx) \<and> (n = 0 \<longleftrightarrow> vs = [] \<or> mx = 0)"
proof -
  obtain k H T HC TC where a: "ring_at k H T HC TC r vs" using assms(1) by (rule ring_repE)
  obtain n r' out' TC' where "drain_into r mx out = Some (n, r', out')"
     "ring_at k (H + n) T HC TC' r' (drop n vs)" "batch_rep out' (xs @ take n vs)" "same_ctl r r'"
     "n \<le> min (length vs) (unat mx)" "n = 0 \<longleftrightarrow> vs = [] \<or> mx = 0"
    using drain_into_spec [OF a assms(2)] by blast
  then show ?thesis using ring_repI by blast
qed

text \<open>
  \<open>Receiver::drain_in_place\<close> is panic-safe: user code sees a FIFO prefix of the buffered values,
  and whether it returns or unwinds the ring afterwards holds exactly the values it has not seen,
  so no slot is read twice and none is lost.
\<close>

lemma ring_rep_drain_in_place:
  assumes "ring_rep r vs"
  shows "\<exists>n fin ok s' r'. feed f (take n vs) s = (fin, ok, s')
     \<and> drain_in_place r mx f s = Some (if ok then Return n else Unwind, r', s')
     \<and> ring_rep r' (drop fin vs) \<and> same_ctl r r'
     \<and> n \<le> min (length vs) (unat mx) \<and> (n = 0 \<longleftrightarrow> vs = [] \<or> mx = 0)"
proof -
  obtain k H T HC TC where a: "ring_at k H T HC TC r vs" using assms(1) by (rule ring_repE)
  obtain n fin ok s' r' TC' where "feed f (take n vs) s = (fin, ok, s')"
     "drain_in_place r mx f s = Some (if ok then Return n else Unwind, r', s')"
     "ring_at k (H + fin) T HC TC' r' (drop fin vs)" "same_ctl r r'"
     "n \<le> min (length vs) (unat mx)" "n = 0 \<longleftrightarrow> vs = [] \<or> mx = 0"
    using drain_in_place_spec [OF a, of f s mx] by (elim exE conjE) (rule that)
  then show ?thesis using ring_repI by blast
qed

lemma ring_rep_drain_in_place_async:
  assumes "ring_rep r vs" "mx \<noteq> 0"
  shows "drain_in_place_async r mx notify w f s =
     map_option (\<lambda>(c, r', s'). (c, r', (if vs = [] then w else notify w), s')) (drain_in_place r mx f s)"
proof -
  obtain k H T HC TC where a: "ring_at k H T HC TC r vs" using assms(1) by (rule ring_repE)
  show ?thesis unfolding drain_in_place_async_eq [OF a] using assms(2) by (simp only: if_False)
qed

lemma ring_rep_drop_receiver:
  assumes "ring_rep r vs"
  shows "\<exists>r'. drop_receiver r = Some (vs, r') \<and> ring_rep r' [] \<and> consumer_gone r'
     \<and> producer_gone r' = producer_gone r \<and> strong r' = strong r - 1 \<and> cap r' = cap r"
proof -
  obtain k H T HC TC where a: "ring_at k H T HC TC r vs" using assms(1) by (rule ring_repE)
  then have b: "ring_at k H T HC TC (r\<lparr>consumer_gone := True\<rparr>) vs" by (simp add: ring_at_def)
  have l: "length vs < Suc (length (buf r))" using a by (simp add: ring_at_def cells_at_def)
  obtain r' TC' where p: "pop_all (Suc (length (buf r))) (r\<lparr>consumer_gone := True\<rparr>) = Some (vs, r')"
    "ring_at k T T HC TC' r' []" "same_ctl (r\<lparr>consumer_gone := True\<rparr>) r'"
    using pop_all_spec [OF b l] by blast
  then have "ring_rep (r'\<lparr>strong := strong r' - 1\<rparr>) []" using ring_repI by simp
  then show ?thesis using p by (auto simp: drop_receiver_def same_ctl_def simp del: pop_all.simps)
qed

lemma ring_rep_drop_inner:
  assumes "ring_rep r vs"
  shows "\<exists>r'. drop_inner r = Some (vs, r') \<and> (\<forall>c\<in>set (buf r'). c = None)"
proof -
  obtain k H T HC TC where a: "ring_at k H T HC TC r vs" using assms(1) by (rule ring_repE)
  then have h: "head r = of_nat H" and l: "length vs \<le> length (buf r)"
    by (auto simp: ring_at_def cells_at_def)
  obtain r' where r': "drop_slots (length (buf r)) r (of_nat H) = Some (vs, r')" "cells_at (2 ^ k) T (buf r') []"
    using drop_slots_spec [OF a l] by blast
  have "c = None" if m: "c \<in> set (buf r')" for c
  proof -
    have "length (buf r') = 2 ^ k" using r'(2) by (simp add: cells_at_def)
    then obtain j where j: "j < 2 ^ k" "c = buf r' ! j" using m by (metis in_set_conv_nth)
    obtain i where "i < 2 ^ k" "(T + i) mod 2 ^ k = j" using window_covers [OF j(1)] by blast
    then show ?thesis using r'(2) j by (auto simp: cells_at_def)
  qed
  then show ?thesis using r' h by (auto simp: drop_inner_def)
qed

text \<open>
  C8. Teardown destroys every buffered value exactly once: the receiver's \<open>Drop\<close> destroys what is
  buffered then, \<open>Inner::drop\<close> what a racing sender pushed after it, and nothing is left owned.
\<close>

theorem teardown_drops_each_once:
  assumes "ring_rep r vs" "strong r = 2" "batch_rep source ws"
  shows "\<exists>r1 n r2 source' r3. drop_receiver r = Some (vs, r1)
     \<and> push_from r1 mx source = Some (n, r2, source')
     \<and> strong (drop_sender r2) = 0 \<and> drop_inner (drop_sender r2) = Some (take n ws, r3)
     \<and> batch_rep source' (drop n ws) \<and> (\<forall>c\<in>set (buf r3). c = None)"
proof -
  obtain r1 where r1: "drop_receiver r = Some (vs, r1)" "ring_rep r1 []" "strong r1 = 1"
    using ring_rep_drop_receiver [OF assms(1)] assms(2) by auto
  obtain n r2 source' where r2: "push_from r1 mx source = Some (n, r2, source')"
     "ring_rep r2 ([] @ take n ws)" "batch_rep source' (drop n ws)" "same_ctl r1 r2"
    using ring_rep_push_from [OF r1(2) assms(3)] by blast
  then have "ring_rep (drop_sender r2) (take n ws)" "strong (drop_sender r2) = 0"
    using r1(3) by (simp_all add: drop_sender_def same_ctl_def)
  then show ?thesis using r1 r2 ring_rep_drop_inner by blast
qed

lemma teardown_drops_each_once_witness:
  "\<exists>r source r1 n r2 source' r3. ring_rep r ''ab'' \<and> strong r = 2 \<and> batch_rep source ''c''
     \<and> drop_receiver r = Some (''ab'', r1) \<and> push_from r1 1 source = Some (n, r2, source')
     \<and> strong (drop_sender r2) = 0 \<and> drop_inner (drop_sender r2) = Some (take n ''c'', r3)
     \<and> batch_rep source' (drop n ''c'') \<and> (\<forall>c\<in>set (buf r3). c = None)"
proof -
  obtain r0 :: "char Ring" where r0: "ring 2 = Some r0" using ring_defined [of 2] by auto
  have c: "unat (cap r0) = 2" "strong r0 = 2"
    using ring_new [OF r0] by (auto simp: next_pow2.simps [of 2])
  obtain r1 where r1: "ring_rep r1 ''a''" "same_ctl r0 r1"
    using ring_rep_try_push [OF ring_rep_new [OF r0], of "CHR ''a''"] c by auto
  obtain r2 where r2: "ring_rep r2 ''ab''" "same_ctl r1 r2"
    using ring_rep_try_push [OF r1(1), of "CHR ''b''"] r1(2) c by (auto simp: same_ctl_def)
  have "strong r2 = 2" using c r1 r2 by (simp add: same_ctl_def)
  moreover have b: "batch_rep (batch_push_back CHR ''c'' batch_new) ''c''"
    using batch_push_back_rep [OF batch_rep_new] by fastforce
  ultimately show ?thesis using teardown_drops_each_once [OF r2(1) _ b, of 1] r2(1) by blast
qed

text \<open>
  Recycling: \<open>recycle\<close> refuses while another reference to the ring exists, and on a finished
  ring held alone it restores an empty ring of the same capacity with a live producer.
\<close>

theorem recycle_pristine:
  assumes "ring_rep r vs" "is_finished r"
  shows "if strong r = 1
     then \<exists>r'. recycle r = (True, r') \<and> ring_rep r' [] \<and> cap r' = cap r \<and> \<not> is_finished r'
            \<and> consumer_gone r' = consumer_gone r \<and> strong r' = 2
     else recycle r = (False, r)"
proof -
  have "vs = []" using assms ring_rep_empty_iff by (auto simp: is_finished_def)
  then obtain k H T HC TC where a: "ring_at k H T HC TC r []" using assms(1) by (blast elim: ring_repE)
  show ?thesis
  proof (cases "strong r = 1")
    case True
    then show ?thesis using recycle_spec [OF a] ring_repI by (auto simp: is_finished_def)
  next
    case False
    then show ?thesis by (simp add: recycle_def)
  qed
qed

lemma recycle_pristine_witness:
  "\<exists>(r :: nat Ring) r'. ring_rep r [] \<and> is_finished r \<and> strong r = 1 \<and> recycle r = (True, r')
     \<and> ring_rep r' [] \<and> \<not> is_finished r'"
proof -
  obtain r0 :: "nat Ring" where r0: "ring 3 = Some r0" using ring_defined [of 3] by auto
  let ?r = "drop_sender r0"
  have "ring_rep ?r []" using ring_rep_new [OF r0] by (simp add: drop_sender_def)
  moreover from this have "is_finished ?r" "strong ?r = 1"
    using ring_rep_empty_iff [of ?r "[]"] ring_new(4) [OF r0] by (auto simp: is_finished_def drop_sender_def)
  ultimately show ?thesis using recycle_pristine [of ?r "[]"] by fastforce
qed

text \<open>
  Construction: \<open>ring\<close> panics exactly when the requested capacity has no power of two above it
  in a \<open>usize\<close>; otherwise the ring is empty, both endpoints are live, and its capacity is the least
  power of two that is at least the request (and at least one).
\<close>

theorem ring_capacity_rounds_up:
  "(ring capacity = (None :: 'a Ring option) \<longleftrightarrow> 2 ^ 63 < unat capacity)
   \<and> (case (ring capacity :: 'a Ring option) of None \<Rightarrow> True
      | Some r \<Rightarrow> ring_rep r [] \<and> strong r = 2 \<and> \<not> producer_gone r \<and> \<not> consumer_gone r
          \<and> (\<exists>k\<le>63. unat (cap r) = 2 ^ k) \<and> max 1 (unat capacity) \<le> unat (cap r)
          \<and> (unat (cap r) = 1 \<or> unat (cap r) < 2 * unat capacity))"
proof (cases "unat capacity \<le> 2 ^ 63")
  case True
  then obtain r :: "'a Ring" where r: "ring capacity = Some r" using ring_defined by blast
  obtain k where k: "ring_at k 0 0 0 0 r []" "unat (cap r) = 2 ^ k" "2 ^ k = next_pow2 (unat (max capacity 1))"
    using ring_new(1) [OF r] by blast
  have m: "unat (max capacity 1) = max 1 (unat capacity)" by (auto simp: max_def word_le_nat_alt)
  have "k \<le> 63" using k(1) by (simp add: ring_at_def)
  moreover have "max 1 (unat capacity) \<le> unat (cap r)" using k(2,3) next_pow2_ge m by metis
  moreover have "unat (cap r) = 1 \<or> unat (cap r) < 2 * unat capacity"
    using k(2,3) m next_pow2_less_double [of "unat capacity"]
    by (cases "unat capacity \<le> 1") (auto simp: max_def)
  ultimately show ?thesis using True r k(2) ring_rep_new [OF r] ring_new(2-4) [OF r] by auto
next
  case False
  then have "(ring capacity :: 'a Ring option) = None"
    by (auto simp: ring_def build_def checked_next_power_of_two_def max_def word_le_nat_alt)
  then show ?thesis using False by simp
qed

end
