(* ===== verification/Ring_Conc.thy ===== *)
theory Ring_Conc
  imports Ring
begin

text \<open>
  The ring's two endpoints running concurrently (\<open>src/src/backend/ring.rs\<close>), one atomic access or
  one slot access per step.

  Each endpoint has a program counter inside its current operation. \<open>try_push\<close> and \<open>push_from\<close> follow
  one protocol (check the cached head, perhaps reload it, write slots, publish the tail), with one
  value or a prefix of a batch; \<open>try_pop\<close>, \<open>drain_into\<close> and \<open>drain_in_place\<close> follow the mirror image,
  where user code may unwind after any slot it has been handed.

  An \<open>Acquire\<close> load of the peer's counter may be stale: it returns any value the counter has had
  since the one the endpoint saw last. The ghost fields count how often each counter and cache has
  been advanced and log what was written and moved out.
\<close>

section \<open>State and steps\<close>

datatype 'a ppc = PIdle | PCheck "'a list" | PLoad "'a list" | PWrite "'a list" nat | PFault

datatype cpc = CIdle | CCheck nat | CLoad nat | CRead nat nat | CFault

record 'a Conc =
  cring :: "'a Ring"
  ppc :: "'a ppc"
  cpc :: cpc
  cH :: nat              \<comment> \<open>releases of the head\<close>
  cT :: nat              \<comment> \<open>publications of the tail\<close>
  cHC :: nat             \<comment> \<open>the head value the producer knows\<close>
  cTC :: nat             \<comment> \<open>the tail value the consumer knows\<close>
  written :: "'a list"   \<comment> \<open>every value written to a slot, in order\<close>
  moved :: "'a list"     \<comment> \<open>every value moved out of a slot, in order\<close>

definition conc_init :: "'a Ring \<Rightarrow> 'a Conc" where
  "conc_init r = \<lparr>cring = r, ppc = PIdle, cpc = CIdle, cH = 0, cT = 0, cHC = 0, cTC = 0,
                  written = [], moved = []\<rparr>"

text \<open>How many values fit, as \<open>push_from\<close> computes it from the two counters.\<close>

definition free_slots :: "'a Ring \<Rightarrow> nat" where
  "free_slots r = unat (cap r - (tail r - head_cache r))"

inductive pstep :: "'a Conc \<Rightarrow> 'a Conc \<Rightarrow> bool" where
  p_start: "ppc s = PIdle \<Longrightarrow> xs \<noteq> [] \<Longrightarrow> pstep s (s\<lparr>ppc := PCheck xs\<rparr>)"
| p_check_ok: "ppc s = PCheck xs \<Longrightarrow> \<not> tail (cring s) - head_cache (cring s) \<ge> cap (cring s)
    \<Longrightarrow> pstep s (s\<lparr>ppc := PWrite (take (free_slots (cring s)) xs) 0\<rparr>)"
| p_check_full: "ppc s = PCheck xs \<Longrightarrow> tail (cring s) - head_cache (cring s) \<ge> cap (cring s)
    \<Longrightarrow> pstep s (s\<lparr>ppc := PLoad xs\<rparr>)"
| p_load_full: "ppc s = PLoad xs \<Longrightarrow> cHC s \<le> h \<Longrightarrow> h \<le> cH s \<Longrightarrow> r = (cring s)\<lparr>head_cache := of_nat h\<rparr>
    \<Longrightarrow> tail r - head_cache r \<ge> cap r \<Longrightarrow> pstep s (s\<lparr>cring := r, cHC := h, ppc := PIdle\<rparr>)"
| p_load_ok: "ppc s = PLoad xs \<Longrightarrow> cHC s \<le> h \<Longrightarrow> h \<le> cH s \<Longrightarrow> r = (cring s)\<lparr>head_cache := of_nat h\<rparr>
    \<Longrightarrow> \<not> tail r - head_cache r \<ge> cap r
    \<Longrightarrow> pstep s (s\<lparr>cring := r, cHC := h, ppc := PWrite (take (free_slots r) xs) 0\<rparr>)"
| p_write: "ppc s = PWrite (x # xs) i \<Longrightarrow> slot_write (cring s) (tail (cring s) + of_nat i) x = Some r
    \<Longrightarrow> slot (cring s) (tail (cring s) + of_nat i) = Some j \<Longrightarrow> buf (cring s) ! j = None
    \<Longrightarrow> pstep s (s\<lparr>cring := r, ppc := PWrite xs (i + 1), written := written s @ [x]\<rparr>)"
| p_fault: "ppc s = PWrite (x # xs) i
    \<Longrightarrow> (case slot (cring s) (tail (cring s) + of_nat i) of None \<Rightarrow> True | Some j \<Rightarrow> buf (cring s) ! j \<noteq> None)
    \<Longrightarrow> pstep s (s\<lparr>ppc := PFault\<rparr>)"
| p_publish: "ppc s = PWrite [] i
    \<Longrightarrow> pstep s (s\<lparr>cring := (cring s)\<lparr>tail := tail (cring s) + of_nat i\<rparr>, cT := cT s + i, ppc := PIdle\<rparr>)"

text \<open>
  \<open>c_release\<close> with fewer than the reserved values is the commit guard running while a panic of user
  code unwinds.
\<close>

inductive cstep :: "'a Conc \<Rightarrow> 'a Conc \<Rightarrow> bool" where
  c_start: "cpc s = CIdle \<Longrightarrow> 0 < n \<Longrightarrow> cstep s (s\<lparr>cpc := CCheck n\<rparr>)"
| c_check_ok: "cpc s = CCheck n \<Longrightarrow> tail_cache (cring s) - head (cring s) \<noteq> 0
    \<Longrightarrow> cstep s (s\<lparr>cpc := CRead (min (unat (tail_cache (cring s) - head (cring s))) n) 0\<rparr>)"
| c_check_empty: "cpc s = CCheck n \<Longrightarrow> tail_cache (cring s) - head (cring s) = 0
    \<Longrightarrow> cstep s (s\<lparr>cpc := CLoad n\<rparr>)"
| c_load_empty: "cpc s = CLoad n \<Longrightarrow> cTC s \<le> t \<Longrightarrow> t \<le> cT s \<Longrightarrow> r = (cring s)\<lparr>tail_cache := of_nat t\<rparr>
    \<Longrightarrow> tail_cache r - head r = 0 \<Longrightarrow> cstep s (s\<lparr>cring := r, cTC := t, cpc := CIdle\<rparr>)"
| c_load_ok: "cpc s = CLoad n \<Longrightarrow> cTC s \<le> t \<Longrightarrow> t \<le> cT s \<Longrightarrow> r = (cring s)\<lparr>tail_cache := of_nat t\<rparr>
    \<Longrightarrow> tail_cache r - head r \<noteq> 0
    \<Longrightarrow> cstep s (s\<lparr>cring := r, cTC := t, cpc := CRead (min (unat (tail_cache r - head r)) n) 0\<rparr>)"
| c_read: "cpc s = CRead m i \<Longrightarrow> i < m \<Longrightarrow> slot_take (cring s) (head (cring s) + of_nat i) = Some (v, r)
    \<Longrightarrow> cstep s (s\<lparr>cring := r, cpc := CRead m (i + 1), moved := moved s @ [v]\<rparr>)"
| c_fault: "cpc s = CRead m i \<Longrightarrow> i < m \<Longrightarrow> slot_take (cring s) (head (cring s) + of_nat i) = None
    \<Longrightarrow> cstep s (s\<lparr>cpc := CFault\<rparr>)"
| c_release: "cpc s = CRead m i \<Longrightarrow> 0 < i
    \<Longrightarrow> cstep s (s\<lparr>cring := (cring s)\<lparr>head := head (cring s) + of_nat i\<rparr>, cH := cH s + i, cpc := CIdle\<rparr>)"

inductive reachable :: "'a Ring \<Rightarrow> 'a Conc \<Rightarrow> bool" for r where
  reach_init: "reachable r (conc_init r)"
| reach_p: "reachable r s \<Longrightarrow> pstep s s' \<Longrightarrow> reachable r s'"
| reach_c: "reachable r s \<Longrightarrow> cstep s s' \<Longrightarrow> reachable r s'"

section \<open>The invariant\<close>

text \<open>How far the endpoints are inside their current operation.\<close>

fun p_off :: "'a ppc \<Rightarrow> nat" where
  "p_off (PWrite xs i) = i"
| "p_off _ = 0"

fun p_todo :: "'a ppc \<Rightarrow> nat" where
  "p_todo (PWrite xs i) = i + length xs"
| "p_todo _ = 0"

fun c_off :: "cpc \<Rightarrow> nat" where
  "c_off (CRead m i) = i"
| "c_off _ = 0"

fun c_todo :: "cpc \<Rightarrow> nat" where
  "c_todo (CRead m i) = m"
| "c_todo _ = 0"

fun c_live :: "cpc \<Rightarrow> bool" where
  "c_live (CCheck n) = (0 < n)"
| "c_live (CLoad n) = (0 < n)"
| "c_live (CRead m i) = (0 < m)"
| "c_live _ = True"

definition conc_inv :: "nat \<Rightarrow> 'a Conc \<Rightarrow> bool" where
  "conc_inv k s \<longleftrightarrow>
     k \<le> 63 \<and> cap (cring s) = of_nat (2 ^ k) \<and> ring_mask (cring s) = of_nat (2 ^ k) - 1
     \<and> head (cring s) = of_nat (cH s) \<and> tail (cring s) = of_nat (cT s)
     \<and> head_cache (cring s) = of_nat (cHC s) \<and> tail_cache (cring s) = of_nat (cTC s)
     \<and> cHC s \<le> cH s \<and> cH s \<le> cTC s \<and> cTC s \<le> cT s \<and> cT s + p_todo (ppc s) \<le> cHC s + 2 ^ k
     \<and> c_off (cpc s) \<le> c_todo (cpc s) \<and> cH s + c_todo (cpc s) \<le> cTC s
     \<and> p_off (ppc s) \<le> p_todo (ppc s)
     \<and> length (written s) = cT s + p_off (ppc s)
     \<and> moved s = take (cH s + c_off (cpc s)) (written s)
     \<and> cells_at (2 ^ k) (cH s + c_off (cpc s)) (buf (cring s)) (drop (cH s + c_off (cpc s)) (written s))
     \<and> c_live (cpc s) \<and> ppc s \<noteq> PFault \<and> cpc s \<noteq> CFault"

lemma conc_inv_free:
  assumes "k \<le> 63" "cap r = of_nat (2 ^ k)" "tail r = of_nat T" "head_cache r = of_nat HC" "HC \<le> T" "T \<le> HC + 2 ^ k"
  shows "free_slots r = HC + 2 ^ k - T" "cap r \<le> tail r - head_cache r \<longleftrightarrow> T = HC + 2 ^ k"
proof -
  show full: "cap r \<le> tail r - head_cache r \<longleftrightarrow> T = HC + 2 ^ k"
    using assms cap_le_iff [of k HC T] by simp
  have "T - HC < 2 ^ 64" using assms(6) pow2_less_64 [OF assms(1)] by linarith
  then have u: "unat (tail r - head_cache r) = T - HC"
    using assms(3,4) unat_cursor_diff [OF assms(5)] by simp
  have c: "unat (cap r) = 2 ^ k" using assms(2) unat_of_nat_pow2 [OF assms(1)] by simp
  then have "tail r - head_cache r \<le> cap r" using u assms(6) by (simp add: word_le_nat_alt)
  then show "free_slots r = HC + 2 ^ k - T" using u c assms(5,6) by (simp add: free_slots_def unat_sub)
qed

lemma conc_inv_avail:
  assumes "k \<le> 63" "tail_cache r = of_nat TC" "head r = of_nat H" "H \<le> TC" "TC \<le> H + 2 ^ k"
  shows "unat (tail_cache r - head r) = TC - H" "tail_cache r - head r = 0 \<longleftrightarrow> TC = H"
proof -
  have "TC - H < 2 ^ 64" using assms(5) pow2_less_64 [OF assms(1)] by linarith
  then show "unat (tail_cache r - head r) = TC - H"
    using assms(2,3) unat_cursor_diff [OF assms(4)] by simp
  show "tail_cache r - head r = 0 \<longleftrightarrow> TC = H" using assms cursor_eq_window(3) [of k H TC] by simp
qed

text \<open>The geometry of a state that satisfies the invariant, as the step lemmas use it.\<close>

lemma conc_inv_window:
  assumes "conc_inv k s"
  shows "k \<le> 63" "cHC s \<le> cT s" "cT s \<le> cHC s + 2 ^ k" "cH s \<le> cTC s" "cTC s \<le> cH s + 2 ^ k"
    "length (buf (cring s)) = 2 ^ k"
  using assms by (auto simp: conc_inv_def cells_at_def)

lemma conc_inv_slot: "conc_inv k s \<Longrightarrow> slot (cring s) (of_nat n) = Some (n mod 2 ^ k)"
  by (auto simp: conc_inv_def cells_at_def intro: slot_at)

lemma conc_inv_write:
  assumes "conc_inv k s" "ppc s = PWrite (x # xs) i"
  shows "slot (cring s) (tail (cring s) + of_nat i) = Some ((cT s + i) mod 2 ^ k)"
    "buf (cring s) ! ((cT s + i) mod 2 ^ k) = None"
    "cells_at (2 ^ k) (cH s + c_off (cpc s)) ((buf (cring s))[(cT s + i) mod 2 ^ k := Some x])
       (drop (cH s + c_off (cpc s)) (written s @ [x]))"
proof -
  let ?H = "cH s + c_off (cpc s)" and ?vs = "drop (cH s + c_off (cpc s)) (written s)"
  have c: "cells_at (2 ^ k) ?H (buf (cring s)) ?vs" and l: "length (written s) = cT s + i"
    and b: "?H \<le> cT s" "cT s + i < cH s + 2 ^ k" and t: "tail (cring s) = of_nat (cT s)"
    using assms by (auto simp: conc_inv_def)
  have lv: "?H + length ?vs = cT s + i" "length ?vs < 2 ^ k" using l b by auto
  show "slot (cring s) (tail (cring s) + of_nat i) = Some ((cT s + i) mod 2 ^ k)"
    using conc_inv_slot [OF assms(1), of "cT s + i"] t by simp
  have "buf (cring s) ! ((?H + length ?vs) mod 2 ^ k) = None"
    using c lv(2) by (simp only: cells_at_def) auto
  then show "buf (cring s) ! ((cT s + i) mod 2 ^ k) = None" by (simp only: lv(1))
  have "cells_at (2 ^ k) ?H ((buf (cring s))[(?H + length ?vs) mod 2 ^ k := Some x]) (?vs @ [x])"
    using c lv(2) by (rule cells_at_push)
  moreover have "?vs @ [x] = drop ?H (written s @ [x])" using l b by simp
  ultimately show "cells_at (2 ^ k) ?H ((buf (cring s))[(cT s + i) mod 2 ^ k := Some x]) (drop ?H (written s @ [x]))"
    by (simp only: lv(1))
qed

lemma conc_inv_read:
  assumes "conc_inv k s" "cpc s = CRead m i" "i < m"
  shows "\<exists>v. slot_take (cring s) (head (cring s) + of_nat i)
        = Some (v, (cring s)\<lparr>buf := (buf (cring s))[(cH s + i) mod 2 ^ k := None]\<rparr>)
     \<and> cells_at (2 ^ k) (cH s + (i + 1)) ((buf (cring s))[(cH s + i) mod 2 ^ k := None])
         (drop (cH s + (i + 1)) (written s))
     \<and> moved s @ [v] = take (cH s + (i + 1)) (written s)"
proof -
  have c: "cells_at (2 ^ k) (cH s + i) (buf (cring s)) (drop (cH s + i) (written s))"
    and l: "cH s + i < length (written s)" and h: "head (cring s) = of_nat (cH s)"
    and mv: "moved s = take (cH s + i) (written s)"
    using assms by (auto simp: conc_inv_def)
  have d: "drop (cH s + i) (written s) = written s ! (cH s + i) # drop (Suc (cH s + i)) (written s)"
    using l by (simp add: Cons_nth_drop_Suc)
  note p = cells_at_pop [OF c [unfolded d]]
  have "slot (cring s) (head (cring s) + of_nat i) = Some ((cH s + i) mod 2 ^ k)"
    using conc_inv_slot [OF assms(1), of "cH s + i"] h by simp
  then show ?thesis using p mv l by (simp add: slot_take_def take_Suc_conv_app_nth)
qed

lemma pstep_inv:
  assumes "pstep s s'" "conc_inv k s"
  shows "conc_inv k s'"
  using assms
proof (cases rule: pstep.cases)
  case (p_check_ok xs)
  then show ?thesis
    using assms(2) conc_inv_window [OF assms(2)] conc_inv_free [of k "cring s" "cT s" "cHC s"]
    by (auto simp: conc_inv_def)
next
  case (p_load_full xs h r)
  then show ?thesis using assms(2) by (auto simp: conc_inv_def)
next
  case (p_load_ok xs h r)
  then show ?thesis
    using assms(2) conc_inv_window [OF assms(2)] conc_inv_free [of k r "cT s" h]
    by (auto simp: conc_inv_def)
next
  case (p_write x xs i r j)
  then show ?thesis using assms(2) conc_inv_write [OF assms(2) p_write(2)]
    by (auto simp: conc_inv_def slot_write_def simp del: drop_append)
next
  case (p_fault x xs i)
  then show ?thesis using conc_inv_write [OF assms(2) p_fault(2)] by simp
qed (auto simp: conc_inv_def)

lemma cstep_inv:
  assumes "cstep s s'" "conc_inv k s"
  shows "conc_inv k s'"
  using assms
proof (cases rule: cstep.cases)
  case (c_check_ok n)
  then show ?thesis
    using assms(2) conc_inv_window [OF assms(2)] conc_inv_avail [of k "cring s" "cTC s" "cH s"]
    by (auto simp: conc_inv_def)
next
  case (c_load_ok n t r)
  then show ?thesis
    using assms(2) conc_inv_window [OF assms(2)] conc_inv_avail [of k r t "cH s"]
    by (auto simp: conc_inv_def)
next
  case (c_read m i v r)
  then show ?thesis using assms(2) conc_inv_read [OF assms(2) c_read(2,3)] by (auto simp: conc_inv_def)
next
  case (c_fault m i)
  then show ?thesis using conc_inv_read [OF assms(2) c_fault(2,3)] by auto
qed (auto simp: conc_inv_def)

lemma reachable_inv:
  assumes "ring capacity = Some r"
  shows "\<exists>k. unat (cap r) = 2 ^ k \<and> (\<forall>s. reachable r s \<longrightarrow> conc_inv k s)"
proof -
  obtain k where k: "ring_at k 0 0 0 0 r []" "unat (cap r) = 2 ^ k" using ring_new(1) [OF assms] by blast
  have "conc_inv k s" if "reachable r s" for s
    using that
  proof induction
    case reach_init
    then show ?case using k(1) by (auto simp: conc_inv_def conc_init_def ring_at_def)
  qed (blast intro: pstep_inv cstep_inv)+
  then show ?thesis using k(2) by blast
qed

text \<open>A run in which the producer has published one value, and one in which the consumer reads it.\<close>

lemma one_published:
  fixes r :: "char Ring"
  assumes "ring 1 = Some r"
  shows "\<exists>s. reachable r s \<and> written s = ''a'' \<and> cT s = 1 \<and> cpc s = CIdle \<and> cH s = 0 \<and> cTC s = 0"
proof -
  have c: "cap r = 1" "tail r = 0" "head_cache r = 0" "buf r = [None]" "ring_mask r = 0"
    using assms by (auto simp: ring_def build_def halves_def checked_next_power_of_two_def Inner.defs Ring.defs)
  let ?s0 = "conc_init r"
  let ?s1 = "?s0\<lparr>ppc := PCheck ''a''\<rparr>"
  let ?s2 = "?s1\<lparr>ppc := PWrite ''a'' 0\<rparr>"
  let ?s3 = "?s2\<lparr>cring := r\<lparr>buf := [Some CHR ''a'']\<rparr>, ppc := PWrite [] (0 + 1), written := ''a''\<rparr>"
  let ?s4 = "?s3\<lparr>cring := (cring ?s3)\<lparr>tail := tail (cring ?s3) + of_nat 1\<rparr>, cT := 1, ppc := PIdle\<rparr>"
  have "reachable r ?s1" using reach_p [OF reach_init] p_start [of ?s0 "''a''"] by (simp add: conc_init_def)
  moreover have "pstep ?s1 ?s2" using p_check_ok [of ?s1 "''a''"] by (simp add: conc_init_def c free_slots_def)
  ultimately have "reachable r ?s2" by (rule reach_p)
  moreover have "pstep ?s2 ?s3"
    using p_write [of ?s2 "CHR ''a''" "[]" 0 "r\<lparr>buf := [Some CHR ''a'']\<rparr>" 0]
    by (simp add: conc_init_def c slot_write_def slot_def)
  ultimately have "reachable r ?s3" by (rule reach_p)
  moreover have "pstep ?s3 ?s4" using p_publish [of ?s3 1] by (simp add: conc_init_def)
  ultimately have "reachable r ?s4" by (rule reach_p)
  then show ?thesis by (intro exI [of _ ?s4]) (simp add: conc_init_def)
qed

lemma one_reading:
  fixes r :: "char Ring"
  assumes "ring 1 = Some r"
  shows "\<exists>s. reachable r s \<and> cpc s = CRead 1 0 \<and> cH s = 0"
proof -
  obtain s where s: "reachable r s" "cT s = 1" "cpc s = CIdle" "cH s = 0" "cTC s = 0"
    using one_published [OF assms] by blast
  obtain k where "conc_inv k s" using reachable_inv [OF assms] s(1) by blast
  then have w: "head (cring s) = 0" "tail_cache (cring s) = 0" using s by (auto simp: conc_inv_def)
  have "reachable r (s\<lparr>cpc := CCheck 1\<rparr>)" using reach_c [OF s(1) c_start [OF s(3)]] by simp
  then have "reachable r (s\<lparr>cpc := CCheck 1, cpc := CLoad 1\<rparr>)"
    using w by (intro reach_c [OF _ c_check_empty]) auto
  then have "reachable r (s\<lparr>cpc := CLoad 1, cring := (cring s)\<lparr>tail_cache := of_nat 1\<rparr>, cTC := 1,
      cpc := CRead (min (unat (tail_cache ((cring s)\<lparr>tail_cache := of_nat 1\<rparr>) - head ((cring s)\<lparr>tail_cache := of_nat 1\<rparr>))) 1) 0\<rparr>)"
    using w s by (intro reach_c [OF _ c_load_ok [of _ 1 1]]) auto
  then show ?thesis using w s(4) by (intro exI conjI) (assumption, simp_all)
qed

section \<open>Properties of every interleaving\<close>

text \<open>
  C1. Under every interleaving of the two endpoints, with loads of the peer's counter as stale as
  coherence allows and user code free to panic, the ring loses, duplicates and reorders nothing:
  the values moved out so far are a prefix of the values published so far, the backlog never
  exceeds the capacity, and no step ever overwrites a live value or reads an empty slot.
\<close>

theorem conc_fifo:
  assumes "ring capacity = Some r" "reachable r s"
  shows "moved s = take (length (moved s)) (take (cT s) (written s))
     \<and> cT s \<le> length (written s) \<and> length (moved s) \<le> cT s
     \<and> cT s - length (moved s) \<le> unat (cap r) \<and> ppc s \<noteq> PFault \<and> cpc s \<noteq> CFault"
proof -
  obtain k where k: "unat (cap r) = 2 ^ k" "conc_inv k s" using reachable_inv [OF assms(1)] assms(2) by blast
  have m: "moved s = take (cH s + c_off (cpc s)) (written s)" "cH s + c_off (cpc s) \<le> cT s"
    "cT s \<le> length (written s)" "cT s \<le> cH s + 2 ^ k"
    using k(2) by (auto simp: conc_inv_def)
  then have l: "length (moved s) = cH s + c_off (cpc s)" by simp
  have "moved s = take (length (moved s)) (take (cT s) (written s))" using m(1,2) unfolding l by (simp add: min_absorb1)
  moreover have "ppc s \<noteq> PFault" "cpc s \<noteq> CFault" using k(2) by (auto simp: conc_inv_def)
  ultimately show ?thesis using m(2-4) k(1) unfolding l by simp
qed

lemma conc_fifo_witness:
  "\<exists>r s. ring 1 = Some r \<and> reachable r s \<and> written s = ''a'' \<and> cT s = 1
     \<and> moved s = take (length (moved s)) (take (cT s) (written s)) \<and> ppc s \<noteq> PFault"
proof -
  obtain r :: "char Ring" where r: "ring 1 = Some r" using ring_defined [of 1] by auto
  obtain s where "reachable r s" "written s = ''a''" "cT s = 1" using one_published [OF r] by blast
  then show ?thesis using conc_fifo [OF r] r by blast
qed



section \<open>Progress\<close>

text \<open>Every operation ends after a number of its own steps that does not depend on the peer.\<close>

fun p_left :: "'a ppc \<Rightarrow> nat" where
  "p_left PIdle = 0"
| "p_left (PCheck xs) = length xs + 3"
| "p_left (PLoad xs) = length xs + 2"
| "p_left (PWrite xs i) = length xs + 1"
| "p_left PFault = 0"

fun c_left :: "cpc \<Rightarrow> nat" where
  "c_left CIdle = 0"
| "c_left (CCheck n) = n + 3"
| "c_left (CLoad n) = n + 2"
| "c_left (CRead m i) = m - i + 1"
| "c_left CFault = 0"

text \<open>
  C23. Both endpoints are wait-free: in every reachable state an endpoint inside an operation has a
  next step, and each of its own steps brings the operation closer to its end, whatever the peer
  does in between.
\<close>

theorem conc_wait_free:
  assumes "ring capacity = Some r" "reachable r s"
  shows "(\<exists>s'. pstep s s') \<and> (\<exists>s'. cstep s s')
     \<and> (\<forall>s'. pstep s s' \<longrightarrow> ppc s \<noteq> PIdle \<longrightarrow> p_left (ppc s') < p_left (ppc s))
     \<and> (\<forall>s'. cstep s s' \<longrightarrow> cpc s \<noteq> CIdle \<longrightarrow> c_left (cpc s') < c_left (cpc s))
     \<and> (\<forall>s'. pstep s s' \<longrightarrow> cpc s' = cpc s) \<and> (\<forall>s'. cstep s s' \<longrightarrow> ppc s' = ppc s)"
proof -
  obtain k where k: "conc_inv k s" using reachable_inv [OF assms(1)] assms(2) by blast
  have "\<exists>s'. pstep s s'"
  proof (cases "ppc s")
    case PIdle
    then show ?thesis using p_start [of s "[undefined]"] by blast
  next
    case (PCheck xs)
    then show ?thesis using p_check_ok [of s xs] p_check_full [of s xs] by blast
  next
    case (PLoad xs)
    have "cHC s \<le> cH s" using k by (simp add: conc_inv_def)
    then show ?thesis using PLoad p_load_ok [of s xs "cH s"] p_load_full [of s xs "cH s"] by blast
  next
    case (PWrite xs i)
    then show ?thesis
    proof (cases xs)
      case Nil
      then show ?thesis using PWrite p_publish by blast
    next
      case (Cons y ys)
      then have p: "ppc s = PWrite (y # ys) i" using PWrite by simp
      note w = conc_inv_write [OF k p]
      then have "slot_write (cring s) (tail (cring s) + of_nat i) y
        = Some ((cring s)\<lparr>buf := (buf (cring s))[(cT s + i) mod 2 ^ k := Some y]\<rparr>)"
        by (simp add: slot_write_def)
      then show ?thesis using p_write [OF p _ w(1,2)] by blast
    qed
  next
    case PFault
    then show ?thesis using k by (simp add: conc_inv_def)
  qed
  moreover have "\<exists>s'. cstep s s'"
  proof (cases "cpc s")
    case CIdle
    then show ?thesis using c_start [of s 1] by auto
  next
    case (CCheck n)
    then show ?thesis using c_check_ok [of s n] c_check_empty [of s n] by blast
  next
    case (CLoad n)
    have "cTC s \<le> cT s" using k by (simp add: conc_inv_def)
    then show ?thesis using CLoad c_load_ok [of s n "cT s"] c_load_empty [of s n "cT s"] by blast
  next
    case (CRead m i)
    show ?thesis
    proof (cases "i < m")
      case True
      obtain v r' where "slot_take (cring s) (head (cring s) + of_nat i) = Some (v, r')"
        using conc_inv_read [OF k CRead True] by blast
      from c_read [OF CRead True this] show ?thesis by blast
    next
      case False
      then have "0 < i" using CRead k by (auto simp: conc_inv_def)
      from c_release [OF CRead this] show ?thesis by blast
    qed
  next
    case CFault
    then show ?thesis using k by (simp add: conc_inv_def)
  qed
  moreover have "p_left (ppc s') < p_left (ppc s)" if "pstep s s'" "ppc s \<noteq> PIdle" for s'
    using that by (cases rule: pstep.cases) auto
  moreover have "c_left (cpc s') < c_left (cpc s)" if "cstep s s'" "cpc s \<noteq> CIdle" for s'
    using that by (cases rule: cstep.cases) auto
  moreover have "cpc s' = cpc s" if "pstep s s'" for s' using that by (cases rule: pstep.cases) auto
  moreover have "ppc s' = ppc s" if "cstep s s'" for s' using that by (cases rule: cstep.cases) auto
  ultimately show ?thesis by blast
qed

lemma conc_wait_free_witness:
  "\<exists>r :: char Ring. \<exists>s s'. ring 1 = Some r \<and> reachable r s \<and> cpc s = CRead 1 0 \<and> cstep s s'
     \<and> c_left (cpc s') < c_left (cpc s)"
proof -
  obtain r :: "char Ring" where r: "ring 1 = Some r" using ring_defined [of 1] by auto
  obtain s where s: "reachable r s" "cpc s = CRead 1 0" using one_reading [OF r] by blast
  show ?thesis using conc_wait_free [OF r s(1)] r s by (metis cpc.distinct(5))
qed

end
