(* ===== verification/Seg.thy ===== *)
theory Seg
  imports Batch
begin

text \<open>
  The unbounded segmented SPSC backend (\<open>src/src/backend/seg.rs\<close>). Segments live in an explicit
  heap (a finite map from addresses), linked by \<open>next\<close>; following a dangling pointer, freeing one
  twice or reading an empty slot is \<open>None\<close>. Counters stay below the segment size, so they are
  plain numbers. \<open>Seg\<close> gathers the heap, \<open>Shared\<close> and the private fields of \<open>SegTx\<close> and \<open>SegRx\<close>.
\<close>

section \<open>State\<close>

record 'a Segment =
  sbuf :: "'a option list"
  published :: nat
  consumed :: nat
  snext :: "nat option"

record 'a Seg =
  heap :: "nat \<rightharpoonup> 'a Segment"
  fresh :: nat                \<comment> \<open>the allocator's next unused address\<close>
  seg_head :: nat
  seg_producer_gone :: bool
  seg_consumer_gone :: bool
  tx_seg :: nat
  tx_idx :: nat
  rx_seg :: nat
  rx_idx :: nat
  seg_size :: nat
  seg_strong :: nat

definition boxed :: "nat \<Rightarrow> 'a Segment" where
  "boxed sz = \<lparr>sbuf = replicate sz None, published = 0, consumed = 0, snext = None\<rparr>"

definition seg_channel :: "usize \<Rightarrow> 'a Seg" where
  "seg_channel capacity =
     (let sz = unat (max capacity 2)
      in \<lparr>heap = [0 \<mapsto> boxed sz], fresh = 1, seg_head = 0, seg_producer_gone = False,
          seg_consumer_gone = False, tx_seg = 0, tx_idx = 0, rx_seg = 0, rx_idx = 0,
          seg_size = sz, seg_strong = 2\<rparr>)"

section \<open>The sending half\<close>

text \<open>\<open>SegTx::try_push\<close>: link a fresh segment when the tail one is full, write, publish.\<close>

definition seg_link :: "'a Seg \<Rightarrow> 'a Seg option" where
  "seg_link q =
     do { old \<leftarrow> heap q (tx_seg q);
          let new = fresh q;
          Some (q\<lparr>heap := (heap q)(new \<mapsto> boxed (seg_size q), tx_seg q \<mapsto> old\<lparr>snext := Some new\<rparr>),
                  fresh := new + 1, tx_seg := new, tx_idx := 0\<rparr>) }"

definition seg_write :: "'a Seg \<Rightarrow> 'a \<Rightarrow> 'a Seg option" where
  "seg_write q v =
     do { s \<leftarrow> heap q (tx_seg q);
          if tx_idx q < length (sbuf s)
          then Some (q\<lparr>heap := (heap q)(tx_seg q \<mapsto> s\<lparr>sbuf := (sbuf s)[tx_idx q := Some v],
                                                    published := tx_idx q + 1\<rparr>),
                       tx_idx := tx_idx q + 1\<rparr>)
          else None }"

definition seg_push_unchecked :: "'a Seg \<Rightarrow> 'a \<Rightarrow> 'a Seg option" where
  "seg_push_unchecked q v =
     do { q \<leftarrow> (if tx_idx q = seg_size q then seg_link q else Some q); seg_write q v }"

definition seg_try_push :: "'a Seg \<Rightarrow> 'a \<Rightarrow> ((unit, 'a) Result \<times> 'a Seg) option" where
  "seg_try_push q v =
     (if seg_consumer_gone q then Some (Err v, q)
      else do { q \<leftarrow> seg_push_unchecked q v; Some (Ok (), q) })"

definition seg_is_consumer_gone :: "'a Seg \<Rightarrow> bool" where
  "seg_is_consumer_gone q = seg_consumer_gone q"

definition drop_seg_tx :: "'a Seg \<Rightarrow> 'a Seg" where
  "drop_seg_tx q = q\<lparr>seg_producer_gone := True, seg_strong := seg_strong q - 1\<rparr>"

section \<open>The receiving half\<close>

definition seg_advance :: "'a Seg \<Rightarrow> (bool \<times> 'a Seg) option" where
  "seg_advance q =
     do { s \<leftarrow> heap q (rx_seg q);
          case snext s of
            None \<Rightarrow> Some (False, q)
          | Some a \<Rightarrow> Some (True, q\<lparr>seg_head := a, heap := (heap q)(rx_seg q := None),
                                     rx_seg := a, rx_idx := 0\<rparr>) }"

definition seg_take :: "'a Seg \<Rightarrow> ('a \<times> 'a Seg) option" where
  "seg_take q =
     do { s \<leftarrow> heap q (rx_seg q);
          v \<leftarrow> (if rx_idx q < length (sbuf s) then sbuf s ! rx_idx q else None);
          Some (v, q\<lparr>heap := (heap q)(rx_seg q \<mapsto> s\<lparr>sbuf := (sbuf s)[rx_idx q := None]\<rparr>),
                     rx_idx := rx_idx q + 1\<rparr>) }"

text \<open>
  \<open>SegRx::try_pop\<close>: the loop continues only after moving onto another segment. The recursion is
  bounded by \<open>fuel\<close>; a fresh segment has at least two slots, so two rounds are always enough.
\<close>

fun seg_pop_loop :: "nat \<Rightarrow> 'a Seg \<Rightarrow> ('a option \<times> 'a Seg) option" where
  "seg_pop_loop 0 q = None"
| "seg_pop_loop (Suc fuel) q =
     (if rx_idx q = seg_size q
      then do { (moved, q) \<leftarrow> seg_advance q;
                if moved then seg_pop_loop fuel q else Some (None, q) }
      else do { s \<leftarrow> heap q (rx_seg q);
                if rx_idx q < published s
                then do { (v, q) \<leftarrow> seg_take q; Some (Some v, q) }
                else Some (None, q) })"

definition seg_try_pop :: "'a Seg \<Rightarrow> ('a option \<times> 'a Seg) option" where
  "seg_try_pop q = seg_pop_loop 2 q"

text \<open>The inner \<open>for\<close> loop of \<open>drain_in_place\<close>: the index is bumped before user code runs.\<close>

fun seg_feed :: "nat \<Rightarrow> 'a Seg \<Rightarrow> nat \<Rightarrow> ('a, 's) callback \<Rightarrow> 's \<Rightarrow> (bool \<times> nat \<times> 'a Seg \<times> 's) option" where
  "seg_feed 0 q fin f s = Some (True, fin, q, s)"
| "seg_feed (Suc n) q fin f s =
     do { (v, q) \<leftarrow> seg_take q;
          let (ok, s) = f v s;
          if ok then seg_feed n q (fin + 1) f s else Some (False, fin + 1, q, s) }"

text \<open>
  The outer loop, \<open>while done < max\<close>: every round that does not leave the loop hands over at least
  one value, so \<open>max\<close> rounds are enough.
\<close>

fun seg_drain_loop ::
  "nat \<Rightarrow> 'a Seg \<Rightarrow> nat \<Rightarrow> nat \<Rightarrow> ('a, 's) callback \<Rightarrow> 's \<Rightarrow> (nat control \<times> 'a Seg \<times> 's) option" where
  "seg_drain_loop 0 q mx fin f s = (if fin < mx then None else Some (Return fin, q, s))"
| "seg_drain_loop (Suc fuel) q mx fin f s =
     (if fin < mx
      then do { (stop, q) \<leftarrow> (if rx_idx q = seg_size q
                             then do { (moved, q) \<leftarrow> seg_advance q; Some (\<not> moved, q) }
                             else Some (False, q));
                if stop then Some (Return fin, q, s)
                else do { sg \<leftarrow> heap q (rx_seg q);
                          if rx_idx q \<ge> published sg then Some (Return fin, q, s)
                          else do { let n = min (published sg - rx_idx q) (mx - fin);
                                    (ok, fin, q, s) \<leftarrow> seg_feed n q fin f s;
                                    if ok then seg_drain_loop fuel q mx fin f s
                                    else Some (Unwind, q, s) } } }
      else Some (Return fin, q, s))"

definition seg_drain_in_place ::
  "'a Seg \<Rightarrow> usize \<Rightarrow> ('a, 's) callback \<Rightarrow> 's \<Rightarrow> (nat control \<times> 'a Seg \<times> 's) option" where
  "seg_drain_in_place q mx f s = seg_drain_loop (unat mx) q (unat mx) 0 f s"

definition seg_is_empty :: "'a Seg \<Rightarrow> bool option" where
  "seg_is_empty q =
     do { s \<leftarrow> heap q (rx_seg q);
          if rx_idx q < published s then Some False
          else if rx_idx q = seg_size q
          then (case snext s of None \<Rightarrow> Some True
                | Some a \<Rightarrow> do { n \<leftarrow> heap q a; Some (published n = 0) })
          else Some True }"

definition seg_is_finished :: "'a Seg \<Rightarrow> bool option" where
  "seg_is_finished q = (if seg_producer_gone q then seg_is_empty q else Some False)"

definition drop_seg_rx :: "'a Seg \<Rightarrow> 'a Seg option" where
  "drop_seg_rx q =
     do { s \<leftarrow> heap q (rx_seg q);
          Some (q\<lparr>heap := (heap q)(rx_seg q \<mapsto> s\<lparr>consumed := rx_idx q\<rparr>), seg_consumer_gone := True,
                  seg_strong := seg_strong q - 1\<rparr>) }"

section \<open>Teardown\<close>

text \<open>
  \<open>Drop for Shared\<close>: walk the chain from the head, destroy the span \<open>[consumed, published)\<close> of each
  segment, free the segment. The walk visits each live segment once; its bound is the number of
  addresses ever allocated.
\<close>

fun seg_drop_walk :: "nat \<Rightarrow> (nat \<rightharpoonup> 'a Segment) \<Rightarrow> nat option \<Rightarrow> ('a list \<times> (nat \<rightharpoonup> 'a Segment)) option" where
  "seg_drop_walk fuel h None = Some ([], h)"
| "seg_drop_walk 0 h (Some p) = None"
| "seg_drop_walk (Suc fuel) h (Some p) =
     do { s \<leftarrow> h p;
          if published s \<le> length (sbuf s)
          then do { vs \<leftarrow> those (drop (consumed s) (take (published s) (sbuf s)));
                    (ws, h) \<leftarrow> seg_drop_walk fuel (h(p := None)) (snext s);
                    Some (vs @ ws, h) }
          else None }"

definition drop_seg_shared :: "'a Seg \<Rightarrow> ('a list \<times> (nat \<rightharpoonup> 'a Segment)) option" where
  "drop_seg_shared q = seg_drop_walk (fresh q) (heap q) (Some (seg_head q))"

section \<open>The representation invariant\<close>

text \<open>
  The live segments form a chain from the receiver's segment to the sender's. All but the last are
  filled to the end, and the heap holds nothing else.
\<close>

fun seg_chain :: "(nat \<rightharpoonup> 'a Segment) \<Rightarrow> nat \<Rightarrow> nat \<Rightarrow> nat \<Rightarrow> nat \<Rightarrow> nat list \<Rightarrow> 'a list \<Rightarrow> bool" where
  "seg_chain h sz t ti lo [] vs \<longleftrightarrow> False"
| "seg_chain h sz t ti lo [a] vs \<longleftrightarrow>
     a = t \<and> lo + length vs = ti \<and> ti \<le> sz \<and> h a = Some
       \<lparr>sbuf = replicate lo None @ map Some vs @ replicate (sz - ti) None, published = ti, consumed = 0, snext = None\<rparr>"
| "seg_chain h sz t ti lo (a # b # as) vs \<longleftrightarrow>
     lo \<le> sz \<and> sz - lo \<le> length vs \<and> h a = Some
       \<lparr>sbuf = replicate lo None @ map Some (take (sz - lo) vs), published = sz, consumed = 0, snext = Some b\<rparr>
     \<and> seg_chain h sz t ti 0 (b # as) (drop (sz - lo) vs)"

definition seg_rep :: "'a Seg \<Rightarrow> 'a list \<Rightarrow> bool" where
  "seg_rep q vs \<longleftrightarrow>
     (\<exists>as. seg_chain (heap q) (seg_size q) (tx_seg q) (tx_idx q) (rx_idx q) as vs
        \<and> distinct as \<and> hd as = rx_seg q \<and> seg_head q = rx_seg q \<and> dom (heap q) = set as
        \<and> (\<forall>a\<in>set as. a < fresh q) \<and> 2 \<le> seg_size q \<and> (tl as \<noteq> [] \<longrightarrow> 0 < tx_idx q))"

lemma seg_chain_frame:
  "(\<And>a. a \<in> set as \<Longrightarrow> h' a = h a) \<Longrightarrow> seg_chain h' sz t ti lo as vs = seg_chain h sz t ti lo as vs"
  by (induction h sz t ti lo as vs rule: seg_chain.induct) auto

lemma seg_chain_last: "seg_chain h sz t ti lo as vs \<Longrightarrow> as \<noteq> [] \<and> last as = t \<and> ti \<le> sz"
  by (induction h sz t ti lo as vs rule: seg_chain.induct) auto

lemma seg_chain_push:
  "seg_chain h sz t ti lo as vs \<Longrightarrow> distinct as \<Longrightarrow> ti < sz \<Longrightarrow>
   \<exists>s. h t = Some s \<and> ti < length (sbuf s)
     \<and> seg_chain (h(t \<mapsto> s\<lparr>sbuf := (sbuf s)[ti := Some v], published := ti + 1\<rparr>)) sz t (ti + 1) lo as (vs @ [v])"
proof (induction h sz t ti lo as vs rule: seg_chain.induct)
  case (2 h sz t ti lo a vs)
  then have "replicate (sz - ti) None = None # replicate (sz - Suc ti) (None :: 'a option)"
    by (metis Suc_diff_Suc replicate_Suc)
  then show ?case using 2 by (auto simp: list_update_append nth_append)
next
  case (3 h sz t ti lo a b as vs)
  have ne: "t \<noteq> a" using 3 seg_chain_last [of h sz t ti 0 "b # as" "drop (sz - lo) vs"]
    by (metis distinct.simps(2) last_in_set seg_chain.simps(3))
  obtain s where s: "h t = Some s" "ti < length (sbuf s)"
    "seg_chain (h(t \<mapsto> s\<lparr>sbuf := (sbuf s)[ti := Some v], published := ti + 1\<rparr>)) sz t (ti + 1) 0 (b # as) (drop (sz - lo) vs @ [v])"
    using "3.IH" "3.prems" by (metis distinct.simps(2) seg_chain.simps(3))
  then show ?case using 3 ne by auto
qed simp

lemma seg_chain_link:
  "seg_chain h sz t ti lo as vs \<Longrightarrow> ti = sz \<Longrightarrow> distinct as \<Longrightarrow> n \<notin> set as \<Longrightarrow>
   \<exists>s. h t = Some s \<and> seg_chain (h(n \<mapsto> boxed sz, t \<mapsto> s\<lparr>snext := Some n\<rparr>)) sz n 0 lo (as @ [n]) vs"
proof (induction h sz t ti lo as vs rule: seg_chain.induct)
  case (2 h sz t ti lo a vs)
  then show ?case by (auto simp: boxed_def)
next
  case (3 h sz t ti lo a b as vs)
  have ne: "t \<noteq> a" using 3 seg_chain_last [of h sz t ti 0 "b # as" "drop (sz - lo) vs"]
    by (metis distinct.simps(2) last_in_set seg_chain.simps(3))
  obtain s where s: "h t = Some s"
    "seg_chain (h(n \<mapsto> boxed sz, t \<mapsto> s\<lparr>snext := Some n\<rparr>)) sz n 0 0 ((b # as) @ [n]) (drop (sz - lo) vs)"
    using "3.IH" "3.prems" by (metis distinct.simps(2) seg_chain.simps(3) list.set_intros(2))
  then show ?case using 3 ne by auto
qed simp

lemma seg_chain_head:
  assumes "seg_chain h sz t ti lo (a # as) vs" "lo < sz"
  shows "\<exists>s. h a = Some s \<and> lo \<le> published s \<and> published s - lo \<le> length vs \<and> (published s \<le> lo \<longleftrightarrow> vs = [])"
  using assms by (cases as) auto

lemma seg_chain_take:
  assumes "seg_chain h sz t ti lo (a # as) (v # vs)" "distinct (a # as)" "lo < sz"
  shows "\<exists>s. h a = Some s \<and> lo < length (sbuf s) \<and> sbuf s ! lo = Some v
     \<and> seg_chain (h(a \<mapsto> s\<lparr>sbuf := (sbuf s)[lo := None]\<rparr>)) sz t ti (Suc lo) (a # as) vs"
proof (cases as)
  case Nil
  then show ?thesis using assms
    by (auto simp: nth_append list_update_append replicate_app_Cons_same)
next
  case (Cons b bs)
  have "take (sz - lo) (v # vs) = v # take (sz - Suc lo) vs" "drop (sz - lo) (v # vs) = drop (sz - Suc lo) vs"
    using assms(3) by (auto simp: take_Cons' drop_Cons')
  moreover have "seg_chain (h(a \<mapsto> s)) sz t ti 0 (b # bs) xs = seg_chain h sz t ti 0 (b # bs) xs" for s xs
    using assms(2) Cons by (intro seg_chain_frame) auto
  ultimately show ?thesis using assms Cons
    by (auto simp: nth_append list_update_append replicate_app_Cons_same)
qed

lemma seg_chain_next:
  assumes "seg_chain h sz t ti sz (a # as) vs" "distinct (a # as)"
  shows "\<exists>s. h a = Some s \<and> published s = sz \<and> snext s = (case as of [] \<Rightarrow> None | b # _ \<Rightarrow> Some b)
     \<and> (as = [] \<longrightarrow> vs = []) \<and> (as \<noteq> [] \<longrightarrow> seg_chain (h(a := None)) sz t ti 0 as vs)"
proof (cases as)
  case Nil
  then show ?thesis using assms by auto
next
  case (Cons b bs)
  have "seg_chain (h(a := None)) sz t ti 0 (b # bs) xs = seg_chain h sz t ti 0 (b # bs) xs" for xs
    using assms(2) Cons by (intro seg_chain_frame) auto
  then show ?thesis using assms Cons by auto
qed

section \<open>The operations under the invariant\<close>

definition seg_ctl :: "'a Seg \<Rightarrow> 'a Seg \<Rightarrow> bool" where
  "seg_ctl q q' \<longleftrightarrow> seg_producer_gone q' = seg_producer_gone q \<and> seg_consumer_gone q' = seg_consumer_gone q
     \<and> seg_size q' = seg_size q \<and> seg_strong q' = seg_strong q"

lemma seg_ctl_refl [simp]: "seg_ctl q q"
  by (simp add: seg_ctl_def)

lemma seg_ctl_trans: "seg_ctl a b \<Longrightarrow> seg_ctl b c \<Longrightarrow> seg_ctl a c"
  by (simp add: seg_ctl_def)

lemma seg_repE:
  assumes "seg_rep q vs"
  obtains a as where "seg_chain (heap q) (seg_size q) (tx_seg q) (tx_idx q) (rx_idx q) (a # as) vs"
    "distinct (a # as)" "rx_seg q = a" "seg_head q = a" "dom (heap q) = set (a # as)"
    "\<forall>x\<in>set (a # as). x < fresh q" "2 \<le> seg_size q" "as \<noteq> [] \<longrightarrow> 0 < tx_idx q"
proof -
  obtain xs where x: "seg_chain (heap q) (seg_size q) (tx_seg q) (tx_idx q) (rx_idx q) xs vs"
        "distinct xs" "hd xs = rx_seg q" "seg_head q = rx_seg q" "dom (heap q) = set xs"
        "\<forall>a\<in>set xs. a < fresh q" "2 \<le> seg_size q" "tl xs \<noteq> [] \<longrightarrow> 0 < tx_idx q"
    using assms by (auto simp: seg_rep_def)
  have "xs \<noteq> []" using seg_chain_last [OF x(1)] by simp
  then obtain a as where e: "xs = a # as" by (cases xs) simp_all
  from x(8) have "as \<noteq> [] \<longrightarrow> 0 < tx_idx q" by (simp add: e)
  with that [OF x(1) [unfolded e] x(2) [unfolded e] _ _ x(5) [unfolded e] x(6) [unfolded e] x(7)] x(3,4)
  show thesis by (simp add: e)
qed

lemma seg_repI:
  assumes "seg_chain (heap q) (seg_size q) (tx_seg q) (tx_idx q) (rx_idx q) (a # as) vs"
    "distinct (a # as)" "rx_seg q = a" "seg_head q = a" "dom (heap q) = set (a # as)"
    "\<forall>x\<in>set (a # as). x < fresh q" "2 \<le> seg_size q" "as \<noteq> [] \<longrightarrow> 0 < tx_idx q"
  shows "seg_rep q vs"
  unfolding seg_rep_def using assms by (intro exI [of _ "a # as"]) simp

lemma seg_rep_new: "seg_rep (seg_channel capacity) []"
  by (auto simp: seg_channel_def Let_def boxed_def max_def word_le_nat_alt intro!: seg_repI [of _ 0 "[]"] split: if_splits)

lemma seg_write_rep:
  assumes "seg_chain (heap q) (seg_size q) (tx_seg q) (tx_idx q) (rx_idx q) (a # as) vs"
    "distinct (a # as)" "rx_seg q = a" "seg_head q = a" "dom (heap q) = set (a # as)"
    "\<forall>x\<in>set (a # as). x < fresh q" "2 \<le> seg_size q" "tx_idx q < seg_size q"
  shows "\<exists>q'. seg_write q v = Some q' \<and> seg_rep q' (vs @ [v]) \<and> seg_ctl q q'"
proof -
  obtain s where s: "heap q (tx_seg q) = Some s" "tx_idx q < length (sbuf s)"
    "seg_chain ((heap q)(tx_seg q \<mapsto> s\<lparr>sbuf := (sbuf s)[tx_idx q := Some v], published := tx_idx q + 1\<rparr>))
       (seg_size q) (tx_seg q) (tx_idx q + 1) (rx_idx q) (a # as) (vs @ [v])"
    using seg_chain_push [OF assms(1,2,8)] by blast
  have m: "tx_seg q \<in> set (a # as)" using seg_chain_last [OF assms(1)] by (metis last_in_set)
  let ?q = "q\<lparr>heap := (heap q)(tx_seg q \<mapsto> s\<lparr>sbuf := (sbuf s)[tx_idx q := Some v], published := tx_idx q + 1\<rparr>),
      tx_idx := tx_idx q + 1\<rparr>"
  have "seg_rep ?q (vs @ [v])"
    by (rule seg_repI [of _ a as]) (use assms s m in \<open>auto simp del: seg_chain.simps\<close>)
  then show ?thesis using s by (auto simp: seg_write_def seg_ctl_def)
qed

lemma seg_rep_push_unchecked:
  assumes "seg_rep q vs"
  shows "\<exists>q'. seg_push_unchecked q v = Some q' \<and> seg_rep q' (vs @ [v]) \<and> seg_ctl q q'"
proof -
  obtain a as where r: "seg_chain (heap q) (seg_size q) (tx_seg q) (tx_idx q) (rx_idx q) (a # as) vs"
    "distinct (a # as)" "rx_seg q = a" "seg_head q = a" "dom (heap q) = set (a # as)"
    "\<forall>x\<in>set (a # as). x < fresh q" "2 \<le> seg_size q" "as \<noteq> [] \<longrightarrow> 0 < tx_idx q"
    using assms by (rule seg_repE)
  show ?thesis
  proof (cases "tx_idx q = seg_size q")
    case True
    have n: "fresh q \<notin> set (a # as)" using r(6) by auto
    obtain s where s: "heap q (tx_seg q) = Some s"
      "seg_chain ((heap q)(fresh q \<mapsto> boxed (seg_size q), tx_seg q \<mapsto> s\<lparr>snext := Some (fresh q)\<rparr>))
        (seg_size q) (fresh q) 0 (rx_idx q) ((a # as) @ [fresh q]) vs"
      using seg_chain_link [OF r(1) True r(2) n] by blast
    have m: "tx_seg q \<in> set (a # as)" using seg_chain_last [OF r(1)] by (metis last_in_set)
    let ?q = "q\<lparr>heap := (heap q)(fresh q \<mapsto> boxed (seg_size q), tx_seg q \<mapsto> s\<lparr>snext := Some (fresh q)\<rparr>),
                  fresh := fresh q + 1, tx_seg := fresh q, tx_idx := 0\<rparr>"
    have l: "seg_link q = Some ?q" using s by (simp add: seg_link_def Let_def)
    have "\<exists>q'. seg_write ?q v = Some q' \<and> seg_rep q' (vs @ [v]) \<and> seg_ctl ?q q'"
      by (rule seg_write_rep [of _ a "as @ [fresh q]"])
        (use r s m n in \<open>auto simp: less_Suc_eq simp del: seg_chain.simps\<close>)
    then show ?thesis using True l by (auto simp: seg_push_unchecked_def seg_ctl_def)
  next
    case False
    then have "tx_idx q < seg_size q" using seg_chain_last [OF r(1)] by simp
    then show ?thesis using False seg_write_rep [OF r(1-7), of v] by (auto simp: seg_push_unchecked_def)
  qed
qed

lemma seg_rep_try_push:
  assumes "seg_rep q vs"
  shows "\<exists>q'. seg_try_push q v = Some (if seg_consumer_gone q then Err v else Ok (), q')
     \<and> seg_rep q' (if seg_consumer_gone q then vs else vs @ [v]) \<and> seg_ctl q q'"
  using assms seg_rep_push_unchecked [OF assms, of v] by (auto simp: seg_try_push_def)

lemma seg_rep_take:
  assumes "seg_rep q (v # vs)" "rx_idx q < seg_size q"
  shows "\<exists>q'. seg_take q = Some (v, q') \<and> seg_rep q' vs \<and> seg_ctl q q' \<and> rx_idx q' = Suc (rx_idx q)"
proof -
  obtain a as where r: "seg_chain (heap q) (seg_size q) (tx_seg q) (tx_idx q) (rx_idx q) (a # as) (v # vs)"
    "distinct (a # as)" "rx_seg q = a" "seg_head q = a" "dom (heap q) = set (a # as)"
    "\<forall>x\<in>set (a # as). x < fresh q" "2 \<le> seg_size q" "as \<noteq> [] \<longrightarrow> 0 < tx_idx q"
    using assms(1) by (rule seg_repE)
  obtain s where s: "heap q a = Some s" "rx_idx q < length (sbuf s)" "sbuf s ! rx_idx q = Some v"
    "seg_chain ((heap q)(a \<mapsto> s\<lparr>sbuf := (sbuf s)[rx_idx q := None]\<rparr>)) (seg_size q) (tx_seg q) (tx_idx q)
       (Suc (rx_idx q)) (a # as) vs"
    using seg_chain_take [OF r(1,2) assms(2)] by blast
  let ?q = "q\<lparr>heap := (heap q)(a \<mapsto> s\<lparr>sbuf := (sbuf s)[rx_idx q := None]\<rparr>), rx_idx := rx_idx q + 1\<rparr>"
  have "seg_rep ?q vs" by (rule seg_repI [of _ a as]) (use r s in \<open>auto simp del: seg_chain.simps\<close>)
  then show ?thesis using s r(3) by (auto simp: seg_take_def seg_ctl_def)
qed

lemma seg_rep_advance:
  assumes "seg_rep q vs" "rx_idx q = seg_size q"
  shows "\<exists>q'. seg_advance q = Some (vs \<noteq> [], q') \<and> seg_rep q' vs \<and> seg_ctl q q'
     \<and> (vs \<noteq> [] \<longrightarrow> rx_idx q' = 0) \<and> (vs = [] \<longrightarrow> q' = q)"
proof -
  obtain a as where r: "seg_chain (heap q) (seg_size q) (tx_seg q) (tx_idx q) (rx_idx q) (a # as) vs"
    "distinct (a # as)" "rx_seg q = a" "seg_head q = a" "dom (heap q) = set (a # as)"
    "\<forall>x\<in>set (a # as). x < fresh q" "2 \<le> seg_size q" "as \<noteq> [] \<longrightarrow> 0 < tx_idx q"
    using assms(1) by (rule seg_repE)
  obtain s where s: "heap q a = Some s" "snext s = (case as of [] \<Rightarrow> None | b # _ \<Rightarrow> Some b)"
    "as = [] \<longrightarrow> vs = []" "as \<noteq> [] \<longrightarrow> seg_chain ((heap q)(a := None)) (seg_size q) (tx_seg q) (tx_idx q) 0 as vs"
    using seg_chain_next [OF r(1) [unfolded assms(2)] r(2)] by blast
  show ?thesis
  proof (cases as)
    case Nil
    then show ?thesis using s r assms by (simp add: seg_advance_def)
  next
    case (Cons b bs)
    let ?q = "q\<lparr>seg_head := b, heap := (heap q)(a := None), rx_seg := b, rx_idx := 0\<rparr>"
    have c: "seg_chain ((heap q)(a := None)) (seg_size q) (tx_seg q) (tx_idx q) 0 (b # bs) vs" using s(4) Cons by simp
    have "vs \<noteq> []" using c r(7,8) Cons by (cases bs) auto
    moreover have "seg_rep ?q vs"
      by (rule seg_repI [of _ b bs]) (use r c Cons in \<open>auto simp del: seg_chain.simps\<close>)
    ultimately show ?thesis using s r(3) Cons by (auto simp: seg_advance_def seg_ctl_def)
  qed
qed

lemma seg_rep_head:
  assumes "seg_rep q vs" "rx_idx q \<noteq> seg_size q"
  shows "\<exists>s. heap q (rx_seg q) = Some s \<and> rx_idx q < seg_size q \<and> published s - rx_idx q \<le> length vs
     \<and> (published s \<le> rx_idx q \<longleftrightarrow> vs = []) \<and> published s \<le> seg_size q"
proof -
  obtain a as where r: "seg_chain (heap q) (seg_size q) (tx_seg q) (tx_idx q) (rx_idx q) (a # as) vs"
    "rx_seg q = a" using assms(1) by (rule seg_repE)
  then have "rx_idx q < seg_size q" using assms(2) by (cases as) auto
  moreover from this obtain s where "heap q a = Some s" "published s - rx_idx q \<le> length vs"
     "published s \<le> rx_idx q \<longleftrightarrow> vs = []"
    using seg_chain_head [OF r(1)] by blast
  moreover from this have "published s \<le> seg_size q" using r(1) by (cases as) auto
  ultimately show ?thesis using r(2) by simp
qed

lemma seg_pop_ready:
  assumes "seg_rep q vs" "rx_idx q \<noteq> seg_size q"
  shows "\<exists>q'. seg_pop_loop (Suc fuel) q = Some (case vs of [] \<Rightarrow> None | v # _ \<Rightarrow> Some v, q')
     \<and> seg_rep q' (tl vs) \<and> seg_ctl q q'"
proof -
  obtain s where s: "heap q (rx_seg q) = Some s" "rx_idx q < seg_size q" "published s \<le> rx_idx q \<longleftrightarrow> vs = []"
    using seg_rep_head [OF assms] by blast
  show ?thesis
  proof (cases vs)
    case Nil
    then show ?thesis using s assms by simp
  next
    case (Cons v ws)
    then show ?thesis using s assms seg_rep_take [of q v ws] by auto
  qed
qed

lemma seg_rep_size: "seg_rep q vs \<Longrightarrow> 2 \<le> seg_size q"
  by (auto simp: seg_rep_def)

lemma seg_rep_try_pop:
  assumes "seg_rep q vs"
  shows "\<exists>q'. seg_try_pop q = Some (case vs of [] \<Rightarrow> None | v # _ \<Rightarrow> Some v, q')
     \<and> seg_rep q' (tl vs) \<and> seg_ctl q q'"
proof (cases "rx_idx q = seg_size q")
  case True
  obtain q1 where q1: "seg_advance q = Some (vs \<noteq> [], q1)" "seg_rep q1 vs" "seg_ctl q q1"
    "vs \<noteq> [] \<longrightarrow> rx_idx q1 = 0" "vs = [] \<longrightarrow> q1 = q"
    using seg_rep_advance [OF assms True] by blast
  show ?thesis
  proof (cases "vs = []")
    case True
    then show ?thesis using q1 \<open>rx_idx q = seg_size q\<close> by (simp add: seg_try_pop_def numeral_2_eq_2)
  next
    case False
    then have "rx_idx q1 \<noteq> seg_size q1" using q1(4) seg_rep_size [OF q1(2)] by simp
    from seg_pop_ready [OF q1(2) this, of 0] obtain q2 where
      "seg_pop_loop (Suc 0) q1 = Some (case vs of [] \<Rightarrow> None | v # _ \<Rightarrow> Some v, q2)" "seg_rep q2 (tl vs)" "seg_ctl q1 q2"
      by blast
    then show ?thesis using q1(1,3) False True seg_ctl_trans
      by (auto simp: seg_try_pop_def numeral_2_eq_2 simp del: seg_pop_loop.simps(2)) (auto simp: seg_pop_loop.simps(2) [of "Suc 0" q])
  qed
next
  case False
  then show ?thesis using seg_pop_ready [OF assms False, of 1] by (simp add: seg_try_pop_def numeral_2_eq_2)
qed

lemma seg_rep_feed:
  assumes "seg_rep q vs" "rx_idx q + n \<le> seg_size q" "n \<le> length vs" "feed f (take n vs) s = (m, ok, s')"
  shows "\<exists>q'. seg_feed n q fin f s = Some (ok, fin + m, q', s') \<and> seg_rep q' (drop m vs) \<and> seg_ctl q q'"
  using assms
proof (induction n arbitrary: q vs s m fin)
  case 0
  then show ?case by simp
next
  case (Suc n)
  then obtain v ws where vs: "vs = v # ws" by (cases vs) auto
  obtain q1 where q1: "seg_take q = Some (v, q1)" "seg_rep q1 ws" "seg_ctl q q1" "rx_idx q1 = Suc (rx_idx q)"
    using seg_rep_take [of q v ws] Suc.prems vs by auto
  show ?case
  proof (cases "fst (f v s)")
    case False
    then show ?thesis using Suc.prems q1 vs
      by (auto simp: feed_Cons case_prod_beta simp del: feed.simps(2))
  next
    case True
    obtain m' where m: "m = Suc m'" "feed f (take n ws) (snd (f v s)) = (m', ok, s')"
      using Suc.prems(4) True vs by (auto simp: feed_Cons prod_eq_iff simp del: feed.simps(2))
    have b: "rx_idx q1 + n \<le> seg_size q1" "n \<le> length ws"
      using q1(3,4) Suc.prems(2,3) vs by (auto simp: seg_ctl_def)
    obtain q2 where "seg_feed n q1 (fin + 1) f (snd (f v s)) = Some (ok, fin + 1 + m', q2, s')"
      "seg_rep q2 (drop m' ws)" "seg_ctl q1 q2"
      using Suc.IH [OF q1(2) b m(2), of "fin + 1"] by blast
    then show ?thesis using q1(1) True vs m(1) seg_ctl_trans [OF q1(3)] by (auto simp: case_prod_beta)
  qed
qed

lemma seg_rep_onto_segment:
  assumes "seg_rep q vs"
  shows "\<exists>q'. (if rx_idx q = seg_size q then do { (moved, q) \<leftarrow> seg_advance q; Some (\<not> moved, q) } else Some (False, q))
       = Some (rx_idx q = seg_size q \<and> vs = [], q')
     \<and> seg_rep q' vs \<and> seg_ctl q q' \<and> (rx_idx q' = seg_size q' \<longrightarrow> vs = [])"
proof (cases "rx_idx q = seg_size q")
  case True
  obtain q' where q': "seg_advance q = Some (vs \<noteq> [], q')" "seg_rep q' vs" "seg_ctl q q'" "vs \<noteq> [] \<longrightarrow> rx_idx q' = 0"
    using seg_rep_advance [OF assms True] by blast
  then show ?thesis using True seg_rep_size [OF q'(2)] by auto
next
  case False
  then show ?thesis using assms by auto
qed

lemma seg_rep_drain_loop:
  assumes "seg_rep q vs" "mx - fin \<le> fuel" "fin \<le> mx"
    "feed f (take (mx - fin) vs) s = (m, ok, s')"
  shows "\<exists>q'. seg_drain_loop fuel q mx fin f s
       = Some (if ok then Return (fin + min (length vs) (mx - fin)) else Unwind, q', s')
     \<and> seg_rep q' (drop m vs) \<and> seg_ctl q q'"
  using assms
proof (induction fuel arbitrary: q vs fin s m)
  case 0
  then show ?case by simp
next
  case (Suc fuel)
  obtain q1 where q1: "(if rx_idx q = seg_size q then do { (moved, q) \<leftarrow> seg_advance q; Some (\<not> moved, q) } else Some (False, q))
       = Some (rx_idx q = seg_size q \<and> vs = [], q1)"
     "seg_rep q1 vs" "seg_ctl q q1" "rx_idx q1 = seg_size q1 \<longrightarrow> vs = []"
    using seg_rep_onto_segment [OF Suc.prems(1)] by blast
  show ?case
  proof (cases "vs = [] \<or> mx = fin")
    case True
    show ?thesis
    proof (cases "mx = fin")
      case True
      then show ?thesis using Suc.prems by auto
    next
      case False
      with True have vs: "vs = []" by simp
      obtain a as sg where h: "heap q1 (rx_seg q1) = Some sg" "rx_idx q1 \<ge> published sg"
        using q1(2) vs by (elim seg_repE) (case_tac as; auto)
      show ?thesis using q1 h False Suc.prems vs by auto
    qed
  next
    case False
    then have lt: "fin < mx" and ne: "vs \<noteq> []" using Suc.prems by auto
    obtain sg where sg: "heap q1 (rx_seg q1) = Some sg" "rx_idx q1 < seg_size q1" "published sg - rx_idx q1 \<le> length vs"
      "\<not> published sg \<le> rx_idx q1" "published sg \<le> seg_size q1"
      using seg_rep_head [OF q1(2)] q1(4) ne by auto
    define n where "n = min (published sg - rx_idx q1) (mx - fin)"
    have n: "0 < n" "n \<le> length vs" "rx_idx q1 + n \<le> seg_size q1" "n \<le> mx - fin" "fin + n \<le> mx"
      using sg lt by (auto simp: n_def)
    obtain m1 ok1 s1 where f1: "feed f (take n vs) s = (m1, ok1, s1)" by (cases "feed f (take n vs) s") auto
    obtain q2 where q2: "seg_feed n q1 fin f s = Some (ok1, fin + m1, q2, s1)" "seg_rep q2 (drop m1 vs)" "seg_ctl q1 q2"
      using seg_rep_feed [OF q1(2) n(3,2) f1, of fin] by blast
    have sp: "take (mx - fin) vs = take n vs @ take (mx - fin - n) (drop n vs)"
      using n by (metis take_add le_add_diff_inverse)
    have e: "seg_drain_loop (Suc fuel) q mx fin f s =
      (if ok1 then seg_drain_loop fuel q2 mx (fin + m1) f s1 else Some (Unwind, q2, s1))"
      using lt ne q1(1) sg q2(1) by (simp add: n_def Let_def)
    show ?thesis
    proof (cases ok1)
      case False
      then show ?thesis using e Suc.prems(4) sp feed_append [OF f1] q2 seg_ctl_trans [OF q1(3)] by auto
    next
      case True
      then have m1: "m1 = n" using feed_all [of f "take n vs" s] f1 n by simp
      obtain m2 where m2: "feed f (take (mx - (fin + m1)) (drop m1 vs)) s1 = (m2, ok, s')" "m = m1 + m2"
        using Suc.prems(4) sp feed_append [OF f1] True m1 by (auto simp: prod_eq_iff)
      have b: "mx - (fin + m1) \<le> fuel" "fin + m1 \<le> mx" using Suc.prems(2) n m1 by auto
      obtain q3 where "seg_drain_loop fuel q2 mx (fin + m1) f s1 =
          Some (if ok then Return (fin + m1 + min (length (drop m1 vs)) (mx - (fin + m1))) else Unwind, q3, s')"
        "seg_rep q3 (drop m2 (drop m1 vs))" "seg_ctl q2 q3"
        using Suc.IH [OF q2(2) b m2(1)] by blast
      moreover have "fin + m1 + min (length (drop m1 vs)) (mx - (fin + m1)) = fin + min (length vs) (mx - fin)"
        using n m1 by (auto simp: min_def)
      ultimately show ?thesis using e True m2(2) seg_ctl_trans [OF q1(3) seg_ctl_trans [OF q2(3)]]
        by (auto simp: add.commute)
    qed
  qed
qed

lemma seg_rep_drain_in_place:
  assumes "seg_rep q vs" "feed f (take (unat mx) vs) s = (m, ok, s')"
  shows "\<exists>q'. seg_drain_in_place q mx f s
       = Some (if ok then Return (min (length vs) (unat mx)) else Unwind, q', s')
     \<and> seg_rep q' (drop m vs) \<and> seg_ctl q q'"
  using seg_rep_drain_loop [OF assms(1), of "unat mx" 0 "unat mx" f s m ok s'] assms(2)
  by (simp add: seg_drain_in_place_def cong: if_cong)

lemma seg_rep_is_empty:
  assumes "seg_rep q vs"
  shows "seg_is_empty q = Some (vs = [])"
proof (cases "rx_idx q = seg_size q")
  case True
  obtain a as where r: "seg_chain (heap q) (seg_size q) (tx_seg q) (tx_idx q) (rx_idx q) (a # as) vs"
    "distinct (a # as)" "rx_seg q = a" "2 \<le> seg_size q" "as \<noteq> [] \<longrightarrow> 0 < tx_idx q"
    using assms by (rule seg_repE)
  show ?thesis
  proof (cases as)
    case Nil
    then have "seg_size q + length vs = tx_idx q" "tx_idx q \<le> seg_size q" using r(1) True by simp_all
    then have "length vs = 0" by linarith
    then show ?thesis using Nil r True by (auto simp: seg_is_empty_def)
  next
    case (Cons b bs)
    then show ?thesis using r True by (cases bs) (auto simp: seg_is_empty_def)
  qed
next
  case False
  then show ?thesis using seg_rep_head [OF assms False] by (auto simp: seg_is_empty_def)
qed

lemma seg_rep_is_finished:
  "seg_rep q vs \<Longrightarrow> seg_is_finished q = Some (seg_producer_gone q \<and> vs = [])"
  by (simp add: seg_is_finished_def seg_rep_is_empty)

section \<open>Teardown\<close>

lemma seg_drop_walk_chain:
  assumes "seg_chain h sz t ti lo (a # as) vs" "distinct (a # as)" "h a = Some s"
    "length (a # as) \<le> fuel"
  shows "seg_drop_walk fuel (h(a \<mapsto> s\<lparr>consumed := lo\<rparr>)) (Some a) = Some (vs, h |` (- set (a # as)))"
  using assms
proof (induction as arbitrary: h lo a vs s fuel)
  case Nil
  then obtain f where f: "fuel = Suc f" by (cases fuel) auto
  have h: "(h(a \<mapsto> x))(a := None) = h |` (- {a})" for x by (rule ext) (simp add: restrict_map_def)
  have "s = \<lparr>sbuf = replicate lo None @ map Some vs @ replicate (sz - ti) None, published = lo + length vs,
      consumed = 0, snext = None\<rparr>" "ti = lo + length vs" "ti \<le> sz"
    using Nil by auto
  then show ?case by (simp add: f h fun_upd_same del: fun_upd_upd fun_upd_apply)
next
  case (Cons b bs)
  then obtain f where f: "fuel = Suc f" "length (b # bs) \<le> f" by (cases fuel) auto
  have "seg_chain (h(a := None)) sz t ti 0 (b # bs) xs = seg_chain h sz t ti 0 (b # bs) xs" for xs
    using Cons.prems(2) by (intro seg_chain_frame) auto
  then have c: "seg_chain (h(a := None)) sz t ti 0 (b # bs) (drop (sz - lo) vs)"
    using Cons.prems(1) by simp
  then obtain s' where s': "(h(a := None)) b = Some s'" "consumed s' = 0" by (cases bs) auto
  have e: "s' = s'\<lparr>consumed := 0\<rparr>" using s'(2) by simp
  have "seg_drop_walk f ((h(a := None))(b \<mapsto> s'\<lparr>consumed := 0\<rparr>)) (Some b)
     = Some (drop (sz - lo) vs, (h(a := None)) |` (- set (b # bs)))"
    using Cons.prems(2) by (intro Cons.IH [OF c _ s'(1) f(2)]) simp
  moreover have "(h(a := None))(b \<mapsto> s'\<lparr>consumed := 0\<rparr>) = h(a := None)"
    using s'(1) e by (metis map_upd_triv)
  moreover have "(h(a := None)) |` (- set (b # bs)) = h |` (- set (a # b # bs))"
    by (rule ext) (auto simp: restrict_map_def)
  ultimately have w: "seg_drop_walk f (h(a := None)) (Some b) = Some (drop (sz - lo) vs, h |` (- set (a # b # bs)))"
    by simp
  have "min (length vs) (sz - lo) = sz - lo" "lo + (sz - lo) = sz" using Cons.prems(1) by auto
  then have "those (drop lo (take sz (replicate lo None @ map Some (take (sz - lo) vs)))) = Some (take (sz - lo) vs)"
    by (simp add: take_map)
  then show ?case using Cons.prems(1,3) w by (auto simp: f fun_upd_same simp del: fun_upd_apply)
qed

lemma seg_rep_teardown:
  assumes "seg_rep q vs"
  shows "\<exists>d. drop_seg_rx q = Some d \<and> drop_seg_shared d = Some (vs, Map.empty)"
proof -
  obtain a as where r: "seg_chain (heap q) (seg_size q) (tx_seg q) (tx_idx q) (rx_idx q) (a # as) vs"
    "distinct (a # as)" "rx_seg q = a" "seg_head q = a" "dom (heap q) = set (a # as)"
    "\<forall>x\<in>set (a # as). x < fresh q"
    using assms by (rule seg_repE)
  then obtain s where s: "heap q a = Some s" by (cases as) auto
  have "card (set (a # as)) \<le> card {..<fresh q}" using r(6) by (intro card_mono) auto
  then have l: "length (a # as) \<le> fresh q" using distinct_card [OF r(2)] by simp
  have "heap q |` (- set (a # as)) = Map.empty"
    unfolding r(5) [symmetric] by (rule ext) (auto simp: restrict_map_def)
  then show ?thesis using seg_drop_walk_chain [OF r(1,2) s l] s r(3,4)
    by (simp add: drop_seg_rx_def drop_seg_shared_def)
qed

lemma seg_link_commutes_drop:
  assumes "seg_link q = Some q'" "drop_seg_rx q = Some d" "rx_seg q \<noteq> fresh q" "tx_seg q \<noteq> fresh q"
  shows "\<exists>d'. seg_link d = Some d' \<and> drop_seg_rx q' = Some d'"
proof -
  obtain s r where h: "heap q (tx_seg q) = Some s" "heap q (rx_seg q) = Some r"
    using assms(1,2) by (auto simp: seg_link_def drop_seg_rx_def split: bind_splits)
  show ?thesis using assms h by (cases q; cases "rx_seg q = tx_seg q")
      (auto simp: seg_link_def drop_seg_rx_def Let_def fun_upd_def intro!: ext)
qed

lemma seg_write_commutes_drop:
  assumes "seg_write q v = Some q'" "drop_seg_rx q = Some d"
  shows "\<exists>d'. seg_write d v = Some d' \<and> drop_seg_rx q' = Some d'"
proof -
  obtain s r where h: "heap q (tx_seg q) = Some s" "heap q (rx_seg q) = Some r" "tx_idx q < length (sbuf s)"
    using assms(1,2) by (auto simp: seg_write_def drop_seg_rx_def split: bind_splits if_splits)
  show ?thesis using assms h by (cases q; cases "rx_seg q = tx_seg q")
      (auto simp: seg_write_def drop_seg_rx_def fun_upd_def intro!: ext)
qed

lemma seg_push_commutes_drop:
  assumes "seg_push_unchecked q v = Some q'" "drop_seg_rx q = Some d" "rx_seg q \<noteq> fresh q" "tx_seg q \<noteq> fresh q"
  shows "\<exists>d'. seg_push_unchecked d v = Some d' \<and> drop_seg_rx q' = Some d'"
proof -
  have i: "tx_idx d = tx_idx q" "seg_size d = seg_size q"
    using assms(2) by (auto simp: drop_seg_rx_def split: bind_splits)
  obtain q1 where q1: "(if tx_idx q = seg_size q then seg_link q else Some q) = Some q1" "seg_write q1 v = Some q'"
    using assms(1) by (auto simp: seg_push_unchecked_def split: bind_splits)
  obtain d1 where d1: "(if tx_idx d = seg_size d then seg_link d else Some d) = Some d1" "drop_seg_rx q1 = Some d1"
    using q1(1) assms(2-4) seg_link_commutes_drop [of q q1 d] i by (auto split: if_splits)
  show ?thesis using seg_write_commutes_drop [OF q1(2) d1(2)] d1(1) by (auto simp: seg_push_unchecked_def)
qed

text \<open>
  Teardown of the segmented backend destroys exactly the values that were published and never
  consumed, whether or not a send that had already passed its liveness check lands after the
  receiver left, and frees every segment.
\<close>

theorem seg_teardown_drops_unread:
  assumes "seg_rep q vs"
  shows "\<exists>d d'. drop_seg_rx q = Some d \<and> drop_seg_shared (drop_seg_tx d) = Some (vs, Map.empty)
     \<and> seg_push_unchecked d v = Some d' \<and> drop_seg_shared (drop_seg_tx d') = Some (vs @ [v], Map.empty)"
proof -
  have tx: "drop_seg_shared (drop_seg_tx d) = drop_seg_shared d" for d :: "'a Seg"
    by (simp add: drop_seg_shared_def drop_seg_tx_def)
  obtain d where d: "drop_seg_rx q = Some d" "drop_seg_shared d = Some (vs, Map.empty)"
    using seg_rep_teardown [OF assms] by blast
  obtain q' where q': "seg_push_unchecked q v = Some q'" "seg_rep q' (vs @ [v])"
    using seg_rep_push_unchecked [OF assms] by blast
  have "rx_seg q \<noteq> fresh q" "tx_seg q \<noteq> fresh q"
  proof -
    obtain a as where "seg_chain (heap q) (seg_size q) (tx_seg q) (tx_idx q) (rx_idx q) (a # as) vs"
      "rx_seg q = a" "\<forall>x\<in>set (a # as). x < fresh q" using assms by (rule seg_repE)
    moreover from this have "tx_seg q \<in> set (a # as)" using seg_chain_last by (metis last_in_set)
    ultimately show "rx_seg q \<noteq> fresh q" "tx_seg q \<noteq> fresh q" by auto
  qed
  then show ?thesis using seg_push_commutes_drop [OF q'(1) d(1)] seg_rep_teardown [OF q'(2)] d tx by force
qed

lemma seg_teardown_drops_unread_witness:
  "\<exists>q d d'. seg_rep q [1::nat, 2] \<and> drop_seg_rx q = Some d
     \<and> drop_seg_shared (drop_seg_tx d) = Some ([1, 2], Map.empty)
     \<and> seg_push_unchecked d 3 = Some d' \<and> drop_seg_shared (drop_seg_tx d') = Some ([1, 2, 3], Map.empty)"
proof -
  obtain q1 where "seg_rep q1 [1::nat]" using seg_rep_push_unchecked [OF seg_rep_new] by fastforce
  then obtain q2 where "seg_rep q2 [1::nat, 2]" using seg_rep_push_unchecked by fastforce
  then show ?thesis using seg_teardown_drops_unread [of q2 "[1, 2]" 3] by auto
qed

end
