(* ===== verification/Backend.thy ===== *)
theory Backend
  imports Ring Seg
begin

text \<open>
  The storage traits (\<open>src/src/backend/mod.rs\<close>). A \<open>Backend\<close> value is the dictionary of the trait
  methods that a topology generic over \<open>B: Backend\<close> calls; \<open>Tx::push_from\<close> and \<open>Rx::drain_into\<close> have the
  trait's default bodies here. The locale states what a backend promises to a topology, and is
  interpreted on the two backends of the crate.
\<close>

section \<open>The traits\<close>

record ('q, 'a, 's) Backend =
  BOUNDED_CAPACITY :: bool
  bk_channel :: "usize \<Rightarrow> 'q option"
  bk_try_push :: "'q \<Rightarrow> 'a \<Rightarrow> ((unit, 'a) Result \<times> 'q) option"
  bk_push_from :: "'q \<Rightarrow> usize \<Rightarrow> 'a Batch \<Rightarrow> (nat \<times> 'q \<times> 'a Batch) option"
  bk_is_consumer_gone :: "'q \<Rightarrow> bool"
  bk_try_pop :: "'q \<Rightarrow> ('a option \<times> 'q) option"
  bk_drain_in_place :: "'q \<Rightarrow> usize \<Rightarrow> ('a, 's) callback \<Rightarrow> 's \<Rightarrow> (nat control \<times> 'q \<times> 's) option"
  bk_drain_into :: "'q \<Rightarrow> usize \<Rightarrow> 'a Batch \<Rightarrow> (nat \<times> 'q \<times> 'a Batch) option"
  bk_is_empty :: "'q \<Rightarrow> bool option"
  bk_is_finished :: "'q \<Rightarrow> bool option"
  bk_drop_tx :: "'q \<Rightarrow> 'q option"
  bk_drop_rx :: "'q \<Rightarrow> 'q option"

text \<open>
  The default \<open>Tx::push_from\<close>: pop a value, try to push it, restore it when refused. Every round
  takes one value out of the batch, which bounds the rounds.
\<close>

fun push_from_loop ::
  "('q \<Rightarrow> 'a \<Rightarrow> ((unit, 'a) Result \<times> 'q) option) \<Rightarrow> nat \<Rightarrow> 'q \<Rightarrow> nat \<Rightarrow> nat \<Rightarrow> 'a Batch
     \<Rightarrow> (nat \<times> 'q \<times> 'a Batch) option" where
  "push_from_loop push 0 q mx accepted source = None"
| "push_from_loop push (Suc fuel) q mx accepted source =
     (if accepted < mx
      then do { (v, source) \<leftarrow> batch_pop_front source;
                case v of None \<Rightarrow> Some (accepted, q, source)
                | Some v \<Rightarrow>
                  do { (r, q) \<leftarrow> push q v;
                       case r of
                         Err v \<Rightarrow> do { source \<leftarrow> batch_restore_front v source; Some (accepted, q, source) }
                       | Ok _ \<Rightarrow> push_from_loop push fuel q mx (accepted + 1) source } }
      else Some (accepted, q, source))"

definition tx_push_from ::
  "('q \<Rightarrow> 'a \<Rightarrow> ((unit, 'a) Result \<times> 'q) option) \<Rightarrow> 'q \<Rightarrow> usize \<Rightarrow> 'a Batch \<Rightarrow> (nat \<times> 'q \<times> 'a Batch) option" where
  "tx_push_from push q mx source = push_from_loop push (Suc (batch_len source)) q (unat mx) 0 source"

text \<open>The default \<open>Rx::drain_into\<close>; growth of the batch does not fail, so its closure returns.\<close>

definition rx_drain_into ::
  "('q \<Rightarrow> usize \<Rightarrow> ('a, 'a Batch) callback \<Rightarrow> 'a Batch \<Rightarrow> (nat control \<times> 'q \<times> 'a Batch) option)
     \<Rightarrow> 'q \<Rightarrow> usize \<Rightarrow> 'a Batch \<Rightarrow> (nat \<times> 'q \<times> 'a Batch) option" where
  "rx_drain_into drain q mx out =
     do { (c, q, out) \<leftarrow> drain q mx (\<lambda>v b. (True, batch_push_back v b)) out;
          case c of Return n \<Rightarrow> Some (n, q, out) | Unwind \<Rightarrow> None }"

definition ring_backend :: "('a Ring, 'a, 's) Backend" where
  "ring_backend =
     \<lparr>BOUNDED_CAPACITY = True, bk_channel = ring, bk_try_push = try_push, bk_push_from = push_from,
      bk_is_consumer_gone = is_consumer_gone, bk_try_pop = try_pop, bk_drain_in_place = drain_in_place,
      bk_drain_into = drain_into, bk_is_empty = (\<lambda>r. Some (is_empty r)),
      bk_is_finished = (\<lambda>r. Some (is_finished r)), bk_drop_tx = (\<lambda>r. Some (drop_sender r)),
      bk_drop_rx = (\<lambda>r. map_option snd (drop_receiver r))\<rparr>"

definition seg_backend :: "('a Seg, 'a, 's) Backend" where
  "seg_backend =
     \<lparr>BOUNDED_CAPACITY = False, bk_channel = (\<lambda>c. Some (seg_channel c)), bk_try_push = seg_try_push,
      bk_push_from = tx_push_from seg_try_push, bk_is_consumer_gone = seg_is_consumer_gone,
      bk_try_pop = seg_try_pop, bk_drain_in_place = seg_drain_in_place,
      bk_drain_into = rx_drain_into seg_drain_in_place, bk_is_empty = seg_is_empty,
      bk_is_finished = seg_is_finished, bk_drop_tx = (\<lambda>q. Some (drop_seg_tx q)),
      bk_drop_rx = drop_seg_rx\<rparr>"

text \<open>A script of endpoint operations, with the values accepted and delivered so far.\<close>

datatype 'a bop = Push 'a | PushFrom usize "'a list" | Pop | DrainInto usize

fun backend_run :: "('q, 'a, 's) Backend \<Rightarrow> 'a bop list \<Rightarrow> 'q \<Rightarrow> ('a list \<times> 'a list \<times> 'q) option" where
  "backend_run B [] q = Some ([], [], q)"
| "backend_run B (Push v # ops) q =
     do { (r, q) \<leftarrow> bk_try_push B q v; (acc, del, q) \<leftarrow> backend_run B ops q;
          Some (case r of Ok _ \<Rightarrow> v # acc | Err _ \<Rightarrow> acc, del, q) }"
| "backend_run B (PushFrom mx vs # ops) q =
     do { (n, q, b) \<leftarrow> bk_push_from B q mx (foldr batch_push_back (rev vs) batch_new);
          (acc, del, q) \<leftarrow> backend_run B ops q; Some (take n vs @ acc, del, q) }"
| "backend_run B (Pop # ops) q =
     do { (r, q) \<leftarrow> bk_try_pop B q; (acc, del, q) \<leftarrow> backend_run B ops q;
          Some (acc, (case r of None \<Rightarrow> del | Some v \<Rightarrow> v # del), q) }"
| "backend_run B (DrainInto mx # ops) q =
     do { (n, q, b) \<leftarrow> bk_drain_into B q mx batch_new; vs \<leftarrow> batch_as_slice b;
          (acc, del, q) \<leftarrow> backend_run B ops q; Some (acc, vs @ del, q) }"

text \<open>The values a script offers, whether or not the transport takes them.\<close>

fun offered :: "'a bop list \<Rightarrow> 'a list" where
  "offered [] = []"
| "offered (Push v # ops) = v # offered ops"
| "offered (PushFrom mx vs # ops) = take (unat mx) vs @ offered ops"
| "offered (_ # ops) = offered ops"

section \<open>What a backend promises\<close>

text \<open>
  \<open>rep q vs\<close>: transport \<open>q\<close> holds the values \<open>vs\<close>, oldest first. \<open>ctl q\<close>: what data operations leave
  alone (capacity and liveness). \<open>accepts c vs\<close>: under \<open>c\<close> a transport that holds \<open>vs\<close> takes one more.
\<close>

locale spsc_push =
  fixes push :: "'q \<Rightarrow> 'a \<Rightarrow> ((unit, 'a) Result \<times> 'q) option"
    and rep :: "'q \<Rightarrow> 'a list \<Rightarrow> bool"
    and ctl :: "'q \<Rightarrow> 'c"
    and accepts :: "'c \<Rightarrow> 'a list \<Rightarrow> bool"
  assumes push_law: "rep q vs \<Longrightarrow>
      \<exists>q'. push q v = Some (if accepts (ctl q) vs then Ok () else Err v, q')
         \<and> rep q' (if accepts (ctl q) vs then vs @ [v] else vs) \<and> ctl q' = ctl q"
begin

lemma push_from_loop_prefix:
  assumes "rep q vs" "batch_rep source xs" "length xs < fuel"
  shows "\<exists>n q' source'. push_from_loop push fuel q mx acc source = Some (acc + n, q', source')
     \<and> rep q' (vs @ take n xs) \<and> batch_rep source' (drop n xs) \<and> ctl q' = ctl q \<and> n \<le> length xs \<and> n \<le> mx - acc
     \<and> (n < min (length xs) (mx - acc) \<longrightarrow> \<not> accepts (ctl q) (vs @ take n xs))
     \<and> (0 < n \<longrightarrow> accepts (ctl q) vs)"
  using assms
proof (induction fuel arbitrary: q vs source xs acc)
  case 0
  then show ?case by simp
next
  case (Suc fuel)
  show ?case
  proof (cases "acc < mx \<and> xs \<noteq> []")
    case False
    then show ?thesis using Suc.prems batch_pop_front_Nil [of source]
      by (intro exI [of _ 0] exI [of _ q] exI [of _ source]) auto
  next
    case True
    then obtain x ys where xs: "xs = x # ys" by (cases xs) auto
    obtain b where b: "batch_pop_front source = Some (Some x, b)" "batch_rep b ys" "0 < bread b"
      using batch_pop_front_Cons [of source x ys] Suc.prems(2) xs by auto
    obtain q1 where q1: "push q x = Some (if accepts (ctl q) vs then Ok () else Err x, q1)"
      "rep q1 (if accepts (ctl q) vs then vs @ [x] else vs)" "ctl q1 = ctl q"
      using push_law [OF Suc.prems(1)] by blast
    show ?thesis
    proof (cases "accepts (ctl q) vs")
      case ok: True
      then have q1': "rep q1 (vs @ [x])" using q1(2) by simp
      obtain n q2 b2 where r: "push_from_loop push fuel q1 mx (acc + 1) b = Some (acc + 1 + n, q2, b2)"
        "rep q2 ((vs @ [x]) @ take n ys)" "batch_rep b2 (drop n ys)" "ctl q2 = ctl q1" "n \<le> length ys" "n \<le> mx - (acc + 1)"
        "n < min (length ys) (mx - (acc + 1)) \<longrightarrow> \<not> accepts (ctl q1) ((vs @ [x]) @ take n ys)"
        using Suc.IH [OF q1' b(2), of "acc + 1"] Suc.prems(3) xs by auto
      then show ?thesis using True b q1 xs ok
        by (intro exI [of _ "Suc n"] exI [of _ q2] exI [of _ b2]) auto
    next
      case no: False
      obtain b2 where "batch_restore_front x b = Some b2" "batch_rep b2 (x # ys)"
        using batch_restore_front_rep [OF b(2,3)] by blast
      then show ?thesis using True b q1 xs no
        by (intro exI [of _ 0] exI [of _ q1] exI [of _ b2]) auto
    qed
  qed
qed

lemma tx_push_from_prefix:
  assumes "rep q vs" "batch_rep source xs"
  shows "\<exists>n q' source'. tx_push_from push q mx source = Some (n, q', source')
     \<and> rep q' (vs @ take n xs) \<and> batch_rep source' (drop n xs) \<and> ctl q' = ctl q \<and> n \<le> min (length xs) (unat mx)
     \<and> (n < min (length xs) (unat mx) \<longrightarrow> \<not> accepts (ctl q) (vs @ take n xs))
     \<and> (n = 0 \<longleftrightarrow> xs = [] \<or> mx = 0 \<or> \<not> accepts (ctl q) vs)"
proof -
  obtain n q' source' where r: "tx_push_from push q mx source = Some (n, q', source')" "rep q' (vs @ take n xs)"
     "batch_rep source' (drop n xs)" "ctl q' = ctl q" "n \<le> length xs" "n \<le> unat mx"
     "n < min (length xs) (unat mx) \<longrightarrow> \<not> accepts (ctl q) (vs @ take n xs)" "0 < n \<longrightarrow> accepts (ctl q) vs"
    using push_from_loop_prefix [OF assms, of "Suc (batch_len source)" "unat mx" 0] batch_len_rep [OF assms(2)]
    by (auto simp: tx_push_from_def simp del: push_from_loop.simps)
  moreover have "n = 0 \<longleftrightarrow> xs = [] \<or> mx = 0 \<or> \<not> accepts (ctl q) vs"
    using r(5-8) by (cases "n = 0") (auto simp: min_def unat_eq_0 split: if_splits)
  ultimately show ?thesis by auto
qed

end

locale spsc_ops = spsc_push "bk_try_push B" rep ctl accepts
  for B :: "('q, 'a, 's) Backend" and rep and ctl :: "'q \<Rightarrow> 'c" and accepts +
  fixes pgone cgone :: "'c \<Rightarrow> bool"
  assumes pop: "rep q vs \<Longrightarrow> \<exists>q'. bk_try_pop B q = Some (case vs of [] \<Rightarrow> None | v # _ \<Rightarrow> Some v, q')
       \<and> rep q' (tl vs) \<and> ctl q' = ctl q"
    and push_from: "rep q vs \<Longrightarrow> batch_rep source xs \<Longrightarrow>
       \<exists>n q' source'. bk_push_from B q mx source = Some (n, q', source') \<and> rep q' (vs @ take n xs)
         \<and> batch_rep source' (drop n xs) \<and> ctl q' = ctl q \<and> n \<le> min (length xs) (unat mx)
         \<and> (n = 0 \<longleftrightarrow> xs = [] \<or> mx = 0 \<or> \<not> accepts (ctl q) vs)"
    and drain: "rep q vs \<Longrightarrow> \<exists>n fin ok s' q'. feed f (take n vs) s = (fin, ok, s')
         \<and> bk_drain_in_place B q mx f s = Some (if ok then Return n else Unwind, q', s')
         \<and> rep q' (drop fin vs) \<and> ctl q' = ctl q \<and> n \<le> min (length vs) (unat mx) \<and> (n = 0 \<longleftrightarrow> vs = [] \<or> mx = 0)"
    and drain_into: "rep q vs \<Longrightarrow> batch_rep out xs \<Longrightarrow>
       \<exists>n q' out'. bk_drain_into B q mx out = Some (n, q', out') \<and> rep q' (drop n vs)
         \<and> batch_rep out' (xs @ take n vs) \<and> ctl q' = ctl q \<and> n \<le> min (length vs) (unat mx)
         \<and> (n = 0 \<longleftrightarrow> vs = [] \<or> mx = 0)"
    and empty: "rep q vs \<Longrightarrow> bk_is_empty B q = Some (vs = [])"
    and finished: "rep q vs \<Longrightarrow> bk_is_finished B q = Some (pgone (ctl q) \<and> vs = [])"
    and gone: "bk_is_consumer_gone B q = cgone (ctl q)"
begin

lemma batch_of_rep: "batch_rep (foldr batch_push_back (rev vs) batch_new) vs"
proof (induction vs rule: rev_induct)
  case (snoc v vs)
  then show ?case using batch_push_back_rep by fastforce
qed simp

lemma run_fifo:
  assumes "rep q vs"
  shows "\<exists>acc del q' ws. backend_run B ops q = Some (acc, del, q') \<and> rep q' ws \<and> vs @ acc = del @ ws"
  using assms
proof (induction ops arbitrary: q vs)
  case Nil
  then show ?case by auto
next
  case (Cons opn ops)
  show ?case
  proof (cases opn)
    case (Push v)
    obtain q1 where q1: "bk_try_push B q v = Some (if accepts (ctl q) vs then Ok () else Err v, q1)"
      "rep q1 (if accepts (ctl q) vs then vs @ [v] else vs)"
      using push_law [OF Cons.prems] by blast
    show ?thesis using Cons.IH [OF q1(2)] q1(1) Push by (auto split: if_splits)
  next
    case (PushFrom mx xs)
    obtain n q1 b where q1: "bk_push_from B q mx (foldr batch_push_back (rev xs) batch_new) = Some (n, q1, b)"
      "rep q1 (vs @ take n xs)"
      using push_from [OF Cons.prems batch_of_rep] by blast
    show ?thesis using Cons.IH [OF q1(2)] q1(1) PushFrom by auto
  next
    case Pop
    obtain q1 where q1: "bk_try_pop B q = Some (case vs of [] \<Rightarrow> None | v # _ \<Rightarrow> Some v, q1)" "rep q1 (tl vs)"
      using pop [OF Cons.prems] by blast
    show ?thesis using Cons.IH [OF q1(2)] q1(1) Pop by (cases vs) auto
  next
    case (DrainInto mx)
    obtain n q1 b where q1: "bk_drain_into B q mx batch_new = Some (n, q1, b)" "rep q1 (drop n vs)"
      "batch_rep b ([] @ take n vs)"
      using drain_into [OF Cons.prems batch_rep_new] by blast
    obtain acc del q' ws where r: "backend_run B ops q1 = Some (acc, del, q')" "rep q' ws" "drop n vs @ acc = del @ ws"
      using Cons.IH [OF q1(2)] by blast
    have "vs @ acc = (take n vs @ del) @ ws" using r(3) by (metis append.assoc append_take_drop_id)
    then show ?thesis using r(1,2) q1(1) batch_as_slice_rep [OF q1(3)] DrainInto by simp
  qed
qed

end

text \<open>A backend also makes new transports; they are empty and both ends live.\<close>

locale spsc_backend = spsc_ops B rep ctl accepts pgone cgone
  for B :: "('q, 'a, 's) Backend" and rep and ctl :: "'q \<Rightarrow> 'c" and accepts pgone cgone +
  assumes new: "bk_channel B c = Some q \<Longrightarrow> rep q [] \<and> \<not> pgone (ctl q) \<and> \<not> cgone (ctl q)"

section \<open>The two backends keep the promise\<close>

text \<open>The default \<open>drain_into\<close> on top of a lawful \<open>drain_in_place\<close>.\<close>

lemma feed_push_back:
  "batch_rep b xs \<Longrightarrow> \<exists>b'. feed (\<lambda>v b. (True, batch_push_back v b)) vs b = (length vs, True, b') \<and> batch_rep b' (xs @ vs)"
proof (induction vs arbitrary: b xs)
  case (Cons v vs)
  show ?case using Cons.IH [OF batch_push_back_rep [OF Cons.prems, of v]] by auto
qed simp

lemma rx_drain_into_prefix:
  assumes d: "\<exists>n fin ok s' q'. feed (\<lambda>v b. (True, batch_push_back v b)) (take n vs) out = (fin, ok, s')
       \<and> drain q mx (\<lambda>v b. (True, batch_push_back v b)) out = Some (if ok then Return n else Unwind, q', s')
       \<and> rep q' (drop fin vs) \<and> ctl q' = ctl q \<and> n \<le> min (length vs) (unat mx) \<and> (n = 0 \<longleftrightarrow> vs = [] \<or> mx = 0)"
    and b: "batch_rep out xs"
  shows "\<exists>n q' out'. rx_drain_into drain q mx out = Some (n, q', out') \<and> rep q' (drop n vs)
     \<and> batch_rep out' (xs @ take n vs) \<and> ctl q' = ctl q \<and> n \<le> min (length vs) (unat mx)
     \<and> (n = 0 \<longleftrightarrow> vs = [] \<or> mx = 0)"
proof -
  obtain n fin ok s' q' where f: "feed (\<lambda>v b. (True, batch_push_back v b)) (take n vs) out = (fin, ok, s')"
    "drain q mx (\<lambda>v b. (True, batch_push_back v b)) out = Some (if ok then Return n else Unwind, q', s')"
    "rep q' (drop fin vs)" "ctl q' = ctl q" "n \<le> min (length vs) (unat mx)" "n = 0 \<longleftrightarrow> vs = [] \<or> mx = 0"
    using d by (elim exE conjE) (rule that)
  obtain b' where "feed (\<lambda>v b. (True, batch_push_back v b)) (take n vs) out = (length (take n vs), True, b')"
    "batch_rep b' (xs @ take n vs)" using feed_push_back [OF b] by blast
  then have "fin = n" "ok" "s' = b'" "batch_rep s' (xs @ take n vs)" using f(1,5) by auto
  then show ?thesis using f by (intro exI [of _ n] exI [of _ q'] exI [of _ b']) (simp add: rx_drain_into_def)
qed

definition ring_ctl :: "'a Ring \<Rightarrow> usize \<times> bool \<times> bool" where
  "ring_ctl r = (cap r, producer_gone r, consumer_gone r)"

definition ring_accepts :: "usize \<times> bool \<times> bool \<Rightarrow> 'a list \<Rightarrow> bool" where
  "ring_accepts c vs \<longleftrightarrow> length vs < unat (fst c)"

definition seg_live :: "'a Seg \<Rightarrow> bool \<times> bool" where
  "seg_live q = (seg_producer_gone q, seg_consumer_gone q)"

definition seg_accepts :: "bool \<times> bool \<Rightarrow> 'a list \<Rightarrow> bool" where
  "seg_accepts c vs \<longleftrightarrow> \<not> snd c"

lemma same_ctl_ring: "same_ctl r r' \<Longrightarrow> ring_ctl r' = ring_ctl r"
  by (simp add: same_ctl_def ring_ctl_def)

lemma seg_ctl_live: "seg_ctl q q' \<Longrightarrow> seg_live q' = seg_live q"
  by (simp add: seg_ctl_def seg_live_def)

interpretation ring_push: spsc_push try_push ring_rep ring_ctl ring_accepts
proof unfold_locales
  fix q :: "'a Ring" and vs v
  assume "ring_rep q vs"
  from ring_rep_try_push [OF this, of v] show "\<exists>q'. try_push q v = Some (if ring_accepts (ring_ctl q) vs then Ok () else Err v, q')
     \<and> ring_rep q' (if ring_accepts (ring_ctl q) vs then vs @ [v] else vs) \<and> ring_ctl q' = ring_ctl q"
    using same_ctl_ring by (auto simp: ring_accepts_def ring_ctl_def same_ctl_def)
qed

interpretation seg_push: spsc_push seg_try_push seg_rep seg_live seg_accepts
proof unfold_locales
  fix q :: "'a Seg" and vs v
  assume "seg_rep q vs"
  from seg_rep_try_push [OF this, of v] show "\<exists>q'. seg_try_push q v = Some (if seg_accepts (seg_live q) vs then Ok () else Err v, q')
     \<and> seg_rep q' (if seg_accepts (seg_live q) vs then vs @ [v] else vs) \<and> seg_live q' = seg_live q"
    by (auto simp: seg_accepts_def seg_live_def seg_ctl_def)
qed

lemma ring_backend_simps [simp]:
  "BOUNDED_CAPACITY ring_backend" "bk_channel ring_backend = ring" "bk_try_push ring_backend = try_push"
  "bk_push_from ring_backend = push_from" "bk_is_consumer_gone ring_backend = is_consumer_gone"
  "bk_try_pop ring_backend = try_pop" "bk_drain_in_place ring_backend = drain_in_place"
  "bk_drain_into ring_backend = drain_into" "bk_is_empty ring_backend r = Some (is_empty r)"
  "bk_is_finished ring_backend r = Some (is_finished r)" "bk_drop_tx ring_backend r = Some (drop_sender r)"
  "bk_drop_rx ring_backend r = map_option snd (drop_receiver r)"
  by (simp_all add: ring_backend_def)

lemma seg_backend_simps [simp]:
  "\<not> BOUNDED_CAPACITY seg_backend" "bk_channel seg_backend c = Some (seg_channel c)"
  "bk_try_push seg_backend = seg_try_push" "bk_push_from seg_backend = tx_push_from seg_try_push"
  "bk_is_consumer_gone seg_backend = seg_is_consumer_gone" "bk_try_pop seg_backend = seg_try_pop"
  "bk_drain_in_place seg_backend = seg_drain_in_place"
  "bk_drain_into seg_backend = rx_drain_into seg_drain_in_place" "bk_is_empty seg_backend = seg_is_empty"
  "bk_is_finished seg_backend = seg_is_finished" "bk_drop_tx seg_backend q = Some (drop_seg_tx q)"
  "bk_drop_rx seg_backend = drop_seg_rx"
  by (simp_all add: seg_backend_def)

lemma ring_drain_law:
  assumes "ring_rep r vs"
  shows "\<exists>n fin ok s' r'. feed f (take n vs) s = (fin, ok, s')
     \<and> drain_in_place r mx f s = Some (if ok then Return n else Unwind, r', s')
     \<and> ring_rep r' (drop fin vs) \<and> ring_ctl r' = ring_ctl r
     \<and> n \<le> min (length vs) (unat mx) \<and> (n = 0 \<longleftrightarrow> vs = [] \<or> mx = 0)"
proof -
  obtain n fin ok s' r' where "feed f (take n vs) s = (fin, ok, s')"
     "drain_in_place r mx f s = Some (if ok then Return n else Unwind, r', s')"
     "ring_rep r' (drop fin vs)" "same_ctl r r'" "n \<le> min (length vs) (unat mx)" "n = 0 \<longleftrightarrow> vs = [] \<or> mx = 0"
    using ring_rep_drain_in_place [OF assms, of f s mx] by (elim exE conjE) (rule that)
  moreover from this(4) have "ring_ctl r' = ring_ctl r" by (rule same_ctl_ring)
  ultimately show ?thesis
    by (intro exI [of _ n] exI [of _ fin] exI [of _ ok] exI [of _ s'] exI [of _ r'] conjI)
qed

interpretation ring_bk: spsc_backend ring_backend ring_rep ring_ctl ring_accepts "\<lambda>c. fst (snd c)" "\<lambda>c. snd (snd c)"
proof (unfold_locales, unfold ring_backend_simps, goal_cases)
  case (1 q vs v)
  then show ?case by (rule ring_push.push_law)
next
  case (2 q vs)
  obtain q' where "try_pop q = Some (case vs of [] \<Rightarrow> None | v # _ \<Rightarrow> Some v, q')" "ring_rep q' (tl vs)" "same_ctl q q'"
    using ring_rep_try_pop [OF 2] by (elim exE conjE) (rule that)
  then show ?case by (simp add: same_ctl_ring)
next
  case (3 q vs source xs mx)
  obtain n q' source' where "push_from q mx source = Some (n, q', source')" "ring_rep q' (vs @ take n xs)"
    "batch_rep source' (drop n xs)" "same_ctl q q'" "n \<le> min (length xs) (unat mx)"
    "n = 0 \<longleftrightarrow> xs = [] \<or> mx = 0 \<or> length vs = unat (cap q)"
    using ring_rep_push_from [OF 3, of mx] by (elim exE conjE) (rule that)
  moreover have "length vs = unat (cap q) \<longleftrightarrow> \<not> ring_accepts (ring_ctl q) vs"
    using ring_rep_bound [OF 3(1)] by (auto simp: ring_accepts_def ring_ctl_def)
  ultimately show ?case by (intro exI [of _ n] exI [of _ q'] exI [of _ source']) (simp add: same_ctl_ring)
next
  case (4 q vs f s mx)
  then show ?case by (rule ring_drain_law)
next
  case (5 q vs out xs mx)
  obtain n q' out' where "drain_into q mx out = Some (n, q', out')" "ring_rep q' (drop n vs)"
    "batch_rep out' (xs @ take n vs)" "same_ctl q q'" "n \<le> min (length vs) (unat mx)" "n = 0 \<longleftrightarrow> vs = [] \<or> mx = 0"
    using ring_rep_drain_into [OF 5, of mx] by (elim exE conjE) (rule that)
  then show ?case by (intro exI [of _ n] exI [of _ q'] exI [of _ out']) (simp add: same_ctl_ring)
next
  case (6 q vs)
  then show ?case using ring_rep_empty_iff by auto
next
  case (7 q vs)
  then show ?case using ring_rep_empty_iff by (auto simp: is_finished_def ring_ctl_def)
next
  case (8 q)
  then show ?case by (simp add: ring_ctl_def is_consumer_gone_def)
next
  case (9 c q)
  then show ?case using ring_rep_new [OF 9] ring_new(2,3) [OF 9] by (simp add: ring_ctl_def)
qed

text \<open>Data operations keep a ring's capacity, so the rings of one capacity are a provider of their own.\<close>

definition ring_rep_cap :: "usize \<Rightarrow> 'a Ring \<Rightarrow> 'a list \<Rightarrow> bool" where
  "ring_rep_cap C r vs \<longleftrightarrow> ring_rep r vs \<and> cap r = C"

interpretation ring_cap: spsc_ops ring_backend "ring_rep_cap C" ring_ctl ring_accepts "\<lambda>c. fst (snd c)" "\<lambda>c. snd (snd c)"
  for C
proof (unfold_locales, goal_cases)
  case (1 q vs v)
  then show ?case using ring_bk.push_law [of q vs v] by (auto simp: ring_rep_cap_def ring_ctl_def)
next
  case (2 q vs)
  then show ?case using ring_bk.pop [of q vs] by (auto simp: ring_rep_cap_def ring_ctl_def)
next
  case (3 q vs source xs mx)
  have "ring_rep q vs" using 3(1) by (simp add: ring_rep_cap_def)
  then obtain n q' source' where "bk_push_from ring_backend q mx source = Some (n, q', source')" "ring_rep q' (vs @ take n xs)"
    "batch_rep source' (drop n xs)" "ring_ctl q' = ring_ctl q" "n \<le> min (length xs) (unat mx)" "n = 0 \<longleftrightarrow> xs = [] \<or> mx = 0 \<or> \<not> ring_accepts (ring_ctl q) vs"
    using ring_bk.push_from [OF \<open>ring_rep q vs\<close> 3(2), of mx] by (elim exE conjE) (rule that)
  then show ?case using 3(1) by (intro exI [of _ n] exI [of _ q'] exI [of _ source']) (auto simp: ring_rep_cap_def ring_ctl_def)
next
  case (4 q vs f s mx)
  have "ring_rep q vs" using 4 by (simp add: ring_rep_cap_def)
  then obtain n fin ok s' q' where "feed f (take n vs) s = (fin, ok, s')" "bk_drain_in_place ring_backend q mx f s = Some (if ok then Return n else Unwind, q', s')"
    "ring_rep q' (drop fin vs)" "ring_ctl q' = ring_ctl q" "n \<le> min (length vs) (unat mx)" "n = 0 \<longleftrightarrow> vs = [] \<or> mx = 0"
    using ring_bk.drain [OF \<open>ring_rep q vs\<close>, of f s mx] by (elim exE conjE) (rule that)
  then show ?case using 4 by (intro exI [of _ n] exI [of _ fin] exI [of _ ok] exI [of _ s'] exI [of _ q']) (simp add: ring_rep_cap_def ring_ctl_def)
next
  case (5 q vs out xs mx)
  have "ring_rep q vs" using 5(1) by (simp add: ring_rep_cap_def)
  then obtain n q' out' where "bk_drain_into ring_backend q mx out = Some (n, q', out')" "ring_rep q' (drop n vs)"
    "batch_rep out' (xs @ take n vs)" "ring_ctl q' = ring_ctl q" "n \<le> min (length vs) (unat mx)" "n = 0 \<longleftrightarrow> vs = [] \<or> mx = 0"
    using ring_bk.drain_into [OF \<open>ring_rep q vs\<close> 5(2), of mx] by (elim exE conjE) (rule that)
  then show ?case using 5 by (intro exI [of _ n] exI [of _ q'] exI [of _ out']) (auto simp: ring_rep_cap_def ring_ctl_def)
next
  case (6 q vs)
  then show ?case using ring_bk.empty [of q vs] by (simp add: ring_rep_cap_def)
next
  case (7 q vs)
  then show ?case using ring_bk.finished [of q vs] by (simp add: ring_rep_cap_def)
next
  case (8 q)
  then show ?case by (rule ring_bk.gone)
qed

lemma seg_drain_law:
  assumes "seg_rep q vs"
  shows "\<exists>n fin ok s' q'. feed f (take n vs) s = (fin, ok, s')
     \<and> seg_drain_in_place q mx f s = Some (if ok then Return n else Unwind, q', s')
     \<and> seg_rep q' (drop fin vs) \<and> seg_live q' = seg_live q
     \<and> n \<le> min (length vs) (unat mx) \<and> (n = 0 \<longleftrightarrow> vs = [] \<or> mx = 0)"
proof -
  define n where "n = min (length vs) (unat mx)"
  have t: "take n vs = take (unat mx) vs" by (simp add: n_def min_def)
  obtain fin ok s' where f: "feed f (take n vs) s = (fin, ok, s')" by (cases "feed f (take n vs) s") auto
  have n0: "n = 0 \<longleftrightarrow> vs = [] \<or> mx = 0" "n \<le> min (length vs) (unat mx)" by (auto simp: n_def min_def unat_eq_0)
  obtain q' where "seg_drain_in_place q mx f s = Some (if ok then Return n else Unwind, q', s')"
    "seg_rep q' (drop fin vs)" "seg_ctl q q'"
    using seg_rep_drain_in_place [OF assms f [unfolded t]] unfolding n_def [symmetric]
    by (elim exE conjE) (rule that)
  moreover from this(3) have "seg_live q' = seg_live q" by (rule seg_ctl_live)
  ultimately show ?thesis using f n0
    by (intro exI [of _ n] exI [of _ fin] exI [of _ ok] exI [of _ s'] exI [of _ q'] conjI)
qed

interpretation seg_bk: spsc_backend seg_backend seg_rep seg_live seg_accepts fst snd
proof (unfold_locales, unfold seg_backend_simps, goal_cases)
  case (1 q vs v)
  then show ?case by (rule seg_push.push_law)
next
  case (2 q vs)
  obtain q' where "seg_try_pop q = Some (case vs of [] \<Rightarrow> None | v # _ \<Rightarrow> Some v, q')" "seg_rep q' (tl vs)" "seg_ctl q q'"
    using seg_rep_try_pop [OF 2] by (elim exE conjE) (rule that)
  then show ?case by (simp add: seg_ctl_live)
next
  case (3 q vs source xs mx)
  obtain n q' source' where "tx_push_from seg_try_push q mx source = Some (n, q', source')"
     "seg_rep q' (vs @ take n xs)" "batch_rep source' (drop n xs)" "seg_live q' = seg_live q"
     "n \<le> min (length xs) (unat mx)" "n = 0 \<longleftrightarrow> xs = [] \<or> mx = 0 \<or> \<not> seg_accepts (seg_live q) vs"
    using seg_push.tx_push_from_prefix [OF 3, of mx] by (elim exE conjE) (rule that)
  then show ?case by (intro exI [of _ n] exI [of _ q'] exI [of _ source']) simp
next
  case (4 q vs f s mx)
  then show ?case by (rule seg_drain_law)
next
  case (5 q vs out xs mx)
  from rx_drain_into_prefix [of vs out seg_drain_in_place q mx seg_rep seg_live xs, OF seg_drain_law [OF 5(1)] 5(2)]
  show ?case .
next
  case (6 q vs)
  then show ?case using seg_rep_is_empty by auto
next
  case (7 q vs)
  then show ?case using seg_rep_is_finished by (auto simp: seg_live_def)
next
  case (8 q)
  then show ?case by (simp add: seg_live_def seg_is_consumer_gone_def)
next
  case (9 c q)
  then show ?case using seg_rep_new by (auto simp: seg_live_def seg_channel_def Let_def)
qed

lemma seg_run_offered:
  assumes "seg_rep q vs" "\<not> snd (seg_live q)"
    and "backend_run (seg_backend :: ('a Seg, 'a, 's) Backend) ops q = Some (acc, del, q')"
  shows "acc = offered ops"
  using assms
proof (induction ops arbitrary: q vs acc del)
  case Nil
  then show ?case by simp
next
  case (Cons opn ops)
  show ?case
  proof (cases opn)
    case (Push v)
    obtain q1 where q1: "seg_try_push q v = Some (Ok (), q1)" "seg_rep q1 (vs @ [v])" "seg_live q1 = seg_live q"
      using seg_push.push_law [OF Cons.prems(1), of v] Cons.prems(2) by (auto simp: seg_accepts_def)
    show ?thesis using Cons.IH [OF q1(2)] Cons.prems(2,3) q1(1,3) Push by (auto split: bind_splits)
  next
    case (PushFrom mx xs)
    obtain n q1 b where q1: "tx_push_from seg_try_push q mx (foldr batch_push_back (rev xs) batch_new) = Some (n, q1, b)"
      "seg_rep q1 (vs @ take n xs)" "seg_live q1 = seg_live q" "n \<le> min (length xs) (unat mx)"
      "n < min (length xs) (unat mx) \<longrightarrow> \<not> seg_accepts (seg_live q) (vs @ take n xs)"
      using seg_push.tx_push_from_prefix [OF Cons.prems(1) seg_bk.batch_of_rep, of mx xs] by (elim exE conjE) (rule that)
    then have "take n xs = take (unat mx) xs" using Cons.prems(2) by (auto simp: seg_accepts_def min_def split: if_splits)
    then show ?thesis using Cons.IH [OF q1(2)] Cons.prems(2,3) q1(1,3) PushFrom by (auto split: bind_splits)
  next
    case Pop
    obtain r q1 where q1: "seg_try_pop q = Some (r, q1)" "seg_rep q1 (tl vs)" "seg_live q1 = seg_live q"
      using seg_bk.pop [OF Cons.prems(1)] unfolding seg_backend_simps by (elim exE conjE) (rule that)
    show ?thesis using Cons.IH [OF q1(2)] Cons.prems(2,3) q1(1,3) Pop by (auto split: bind_splits)
  next
    case (DrainInto mx)
    obtain n q1 b where q1: "rx_drain_into seg_drain_in_place q mx batch_new = Some (n, q1, b)" "seg_rep q1 (drop n vs)"
      "seg_live q1 = seg_live q"
      using seg_bk.drain_into [OF Cons.prems(1) batch_rep_new, of mx] unfolding seg_backend_simps
      by (elim exE conjE) (rule that)
    show ?thesis using Cons.IH [OF q1(2)] Cons.prems(2,3) q1(1,3) DrainInto by (auto split: bind_splits)
  qed
qed

section \<open>Properties of the backends\<close>

text \<open>
  C12. Whatever sequence of single and bulk sends and receives runs on a ring, no operation touches
  a slot it does not own, and the values it accepted are, in order, the values it delivered
  followed by the values it still holds, of which there are never more than its capacity.
\<close>

theorem ring_channel_fifo:
  assumes "ring capacity = Some r"
  shows "\<exists>acc del r' ws. backend_run (ring_backend :: ('a Ring, 'a, 's) Backend) ops r = Some (acc, del, r')
     \<and> ring_rep r' ws \<and> acc = del @ ws \<and> length ws \<le> unat (cap r')"
proof -
  obtain acc del r' ws where "backend_run (ring_backend :: ('a Ring, 'a, 's) Backend) ops r = Some (acc, del, r')" "ring_rep r' ws" "[] @ acc = del @ ws"
    using ring_bk.run_fifo [OF ring_rep_new [OF assms], of ops] by blast
  moreover from this(2) have "length ws \<le> unat (cap r')" by (rule ring_rep_bound)
  ultimately show ?thesis unfolding append_Nil by blast
qed

lemma ring_channel_fifo_witness:
  "\<exists>r acc del r' ws. ring 1 = Some r
     \<and> backend_run (ring_backend :: (nat Ring, nat, unit) Backend) [Push 7, Push 8, Pop, PushFrom 3 [9, 10], DrainInto 5] r = Some (acc, del, r')
     \<and> ring_rep r' ws \<and> acc = del @ ws \<and> length ws \<le> unat (cap r')"
proof -
  obtain r :: "nat Ring" where "ring 1 = Some r" using ring_defined [of 1] by auto
  then show ?thesis using ring_channel_fifo by blast
qed

text \<open>
  C24. The segmented backend is FIFO in the same sense, and while its receiver lives it refuses
  nothing: a script accepts every value it offers (for a bulk send, the first \<open>max\<close> of them).
\<close>

theorem seg_channel_fifo:
  "\<exists>del q' ws. backend_run (seg_backend :: ('a Seg, 'a, 's) Backend) ops (seg_channel capacity) = Some (offered ops, del, q')
     \<and> seg_rep q' ws \<and> offered ops = del @ ws"
proof -
  have live: "\<not> snd (seg_live (seg_channel capacity :: 'a Seg))"
    by (simp add: seg_live_def seg_channel_def Let_def)
  obtain acc del q' ws where r: "backend_run (seg_backend :: ('a Seg, 'a, 's) Backend) ops (seg_channel capacity) = Some (acc, del, q')"
    "seg_rep q' ws" "[] @ acc = del @ ws"
    using seg_bk.run_fifo [OF seg_rep_new, of ops capacity] by blast
  have "acc = offered ops" using seg_run_offered [OF seg_rep_new live r(1)] .
  then show ?thesis using r unfolding append_Nil by blast
qed

text \<open>
  The ring's two-span \<open>push_from\<close> is equivalent to the trait's default loop of single pushes:
  when it accepts \<open>n\<close> values, the default bounded by \<open>n\<close> accepts the same \<open>n\<close> and leaves the ring and
  the batch with the same contents; and it accepts nothing only where the default accepts nothing.
\<close>

theorem push_from_matches_default:
  assumes "ring_rep r vs" "batch_rep source xs"
  shows "\<exists>n r1 s1 r2 s2. push_from r mx source = Some (n, r1, s1)
     \<and> tx_push_from try_push r (of_nat n) source = Some (n, r2, s2)
     \<and> ring_rep r1 (vs @ take n xs) \<and> ring_rep r2 (vs @ take n xs)
     \<and> batch_rep s1 (drop n xs) \<and> batch_rep s2 (drop n xs)
     \<and> (n = 0 \<longrightarrow> (\<exists>r3 s3. tx_push_from try_push r mx source = Some (0, r3, s3)))"
proof -
  obtain n r1 s1 where p: "push_from r mx source = Some (n, r1, s1)" "ring_rep r1 (vs @ take n xs)"
    "batch_rep s1 (drop n xs)" "same_ctl r r1" "n \<le> min (length xs) (unat mx)" "length vs + n \<le> unat (cap r)"
    "n = 0 \<longleftrightarrow> xs = [] \<or> mx = 0 \<or> length vs = unat (cap r)"
    using ring_rep_push_from [OF assms, of mx] by blast
  have "n < 2 ^ 64" using p(5) unsigned_less [where ?'a = nat, of mx] by simp
  then have u: "unat (of_nat n :: usize) = n" by (rule unat_of_nat_usize)
  obtain m r2 s2 where d: "tx_push_from try_push r (of_nat n) source = Some (m, r2, s2)"
    "ring_rep r2 (vs @ take m xs)" "batch_rep s2 (drop m xs)" "m \<le> min (length xs) n"
    "m < min (length xs) n \<longrightarrow> \<not> ring_accepts (ring_ctl r) (vs @ take m xs)"
    using ring_push.tx_push_from_prefix [OF assms, of "of_nat n"] unfolding u by (elim exE conjE) (rule that)
  have m: "m = n" using d(4,5) p(5,6) by (auto simp: ring_accepts_def ring_ctl_def min_def split: if_splits)
  have "\<exists>r3 s3. tx_push_from try_push r mx source = Some (0, r3, s3)" if "n = 0"
    using that p(7) ring_push.tx_push_from_prefix [OF assms, of mx]
    by (auto simp: ring_accepts_def ring_ctl_def)
  then show ?thesis using p(1-3) d(1-3) unfolding m by blast
qed

lemma push_from_matches_default_witness:
  "\<exists>(r :: nat Ring) source n r1 s1 r2 s2. ring_rep r [] \<and> batch_rep source [4, 5]
     \<and> push_from r 2 source = Some (n, r1, s1) \<and> tx_push_from try_push r (of_nat n) source = Some (n, r2, s2)
     \<and> ring_rep r1 ([] @ take n [4, 5]) \<and> ring_rep r2 ([] @ take n [4, 5])
     \<and> batch_rep s1 (drop n [4, 5]) \<and> batch_rep s2 (drop n [4, 5])"
proof -
  obtain r :: "nat Ring" where r: "ring 2 = Some r" using ring_defined [of 2] by auto
  have b: "batch_rep (foldr batch_push_back (rev [4::nat, 5]) batch_new) [4, 5]" by (rule ring_bk.batch_of_rep)
  show ?thesis using push_from_matches_default [OF ring_rep_new [OF r] b, of 2] ring_rep_new [OF r] b by blast
qed

text \<open>
  \<open>drain_in_place\<close> is panic-safe on both backends: user code is handed a FIFO prefix of the
  buffered values, and whether it returns or unwinds the transport afterwards holds exactly the
  values user code has not seen.
\<close>

theorem drain_in_place_panic_safe:
  assumes "ring_rep r vs" "seg_rep q ws"
  shows "(\<exists>n fin ok s' r'. feed f (take n vs) s = (fin, ok, s')
       \<and> drain_in_place r mx f s = Some (if ok then Return n else Unwind, r', s') \<and> ring_rep r' (drop fin vs)
       \<and> n \<le> min (length vs) (unat mx) \<and> (n = 0 \<longleftrightarrow> vs = [] \<or> mx = 0))
   \<and> (\<exists>n fin ok s' q'. feed f (take n ws) s = (fin, ok, s')
       \<and> seg_drain_in_place q mx f s = Some (if ok then Return n else Unwind, q', s') \<and> seg_rep q' (drop fin ws)
       \<and> n \<le> min (length ws) (unat mx) \<and> (n = 0 \<longleftrightarrow> ws = [] \<or> mx = 0))"
  using ring_bk.drain [OF assms(1), of f s mx] seg_bk.drain [OF assms(2), of f s mx]
  unfolding ring_backend_simps seg_backend_simps by (elim exE conjE, intro conjI; blast)

lemma drain_in_place_panic_safe_witness:
  "\<exists>r r'. ring_rep r ''ab'' \<and> drain_in_place r 9 (\<lambda>v s. (False, v # s)) [] = Some (Unwind, r', ''a'')
     \<and> ring_rep r' ''b''"
proof -
  obtain r0 :: "char Ring" where r0: "ring 2 = Some r0" using ring_defined [of 2] by auto
  have c: "unat (cap r0) = 2" using ring_new [OF r0] by (auto simp: next_pow2.simps [of 2])
  obtain r1 where r1: "ring_rep r1 ''a''" "same_ctl r0 r1"
    using ring_rep_try_push [OF ring_rep_new [OF r0], of "CHR ''a''"] c by auto
  obtain r where r: "ring_rep r ''ab''"
    using ring_rep_try_push [OF r1(1), of "CHR ''b''"] r1(2) c by (auto simp: same_ctl_def)
  obtain n fin ok s' r' where d: "feed (\<lambda>v s. (False, v # s)) (take n ''ab'') [] = (fin, ok, s')"
    "drain_in_place r 9 (\<lambda>v s. (False, v # s)) [] = Some (if ok then Return n else Unwind, r', s')"
    "ring_rep r' (drop fin ''ab'')" "n = 0 \<longleftrightarrow> ''ab'' = [] \<or> (9::usize) = 0"
    using drain_in_place_panic_safe [OF r seg_rep_new [of 2], of "\<lambda>v s. (False, v # s)" "[]" 9]
    by (elim conjE [of "\<exists>n. _ n"] exE conjE) (rule that)
  from d(4) obtain k where "n = Suc k" by (cases n) auto
  then show ?thesis using r d by auto
qed

end
