(* ===== verification/Round_Robin.thy ===== *)
theory Round_Robin
  imports Prelude
begin

text \<open>
  Division-free round-robin positions (\<open>src/src/round_robin.rs\<close>) and the consumer-local scan
  cursor with bounded preference (\<open>src/src/mpmc/brokerless/scan.rs\<close>).
\<close>

section \<open>Positions\<close>

text \<open>\<open>round_robin::index\<close>; the caller never passes an empty membership (\<open>debug_assert\<close>).\<close>

definition rr_index :: "usize \<Rightarrow> usize \<Rightarrow> usize" where
  "rr_index cursor len = (if cursor < len then cursor else 0)"

text \<open>\<open>round_robin::next\<close>: the selected position and the advanced cursor.\<close>

definition rr_next :: "usize \<Rightarrow> usize \<Rightarrow> usize \<times> usize" where
  "rr_next cursor len = (let i = rr_index cursor len in (i, i + 1))"

section \<open>The scan cursor\<close>

definition QUANTUM :: u8 where
  "QUANTUM = 16"

record Cursor =
  cur_next :: usize
  credits :: u8

definition cursor_new :: "usize \<Rightarrow> Cursor" where
  "cursor_new seed = \<lparr>cur_next = seed, credits = QUANTUM - 1\<rparr>"

definition cursor_next :: "Cursor \<Rightarrow> usize \<Rightarrow> usize \<times> Cursor" where
  "cursor_next c len = (let (i, n) = rr_next (cur_next c) len in (i, c\<lparr>cur_next := n\<rparr>))"

definition cursor_prefer :: "Cursor \<Rightarrow> Cursor" where
  "cursor_prefer c = c\<lparr>cur_next := cur_next c - (if credits c \<noteq> 0 then 1 else 0),
                       credits := (credits c - 1) AND (QUANTUM - 1)\<rparr>"

section \<open>Every scan visits every position\<close>

text \<open>The positions selected by \<open>n\<close> successive calls over a fixed membership.\<close>

fun rr_scan :: "nat \<Rightarrow> usize \<Rightarrow> usize \<Rightarrow> usize list \<times> usize" where
  "rr_scan 0 cursor len = ([], cursor)"
| "rr_scan (Suc n) cursor len =
     (let (i, c) = rr_next cursor len; (is, c') = rr_scan n c len in (i # is, c'))"

lemma rr_index_less: "0 < len \<Longrightarrow> rr_index cursor len < len"
  by (simp add: rr_index_def)

lemma unat_rr_index: "unat (rr_index cursor len) = (if unat cursor < unat len then unat cursor else 0)"
  by (simp add: rr_index_def word_less_nat_alt)

lemma unat_add_1_usize: "unat (a :: usize) < unat (b :: usize) \<Longrightarrow> unat (a + 1) = unat a + 1"
  by unat_arith

text \<open>The cursor after a selection addresses the cyclic successor of the selected position.\<close>

lemma rr_index_next:
  assumes "0 < len"
  shows "unat (rr_index (snd (rr_next cursor len)) len) = (unat (rr_index cursor len) + 1) mod unat len"
proof -
  let ?i = "rr_index cursor len"
  have i: "unat ?i < unat len" using rr_index_less [OF assms, of cursor] by (simp add: word_less_nat_alt)
  then have s: "unat (?i + 1) = unat ?i + 1" by (rule unat_add_1_usize)
  show ?thesis
    using i s by (auto simp: rr_next_def Let_def unat_rr_index mod_if)
qed

lemma rr_scan_positions:
  assumes "0 < len"
  shows "map unat (fst (rr_scan n cursor len)) =
           map (\<lambda>j. (unat (rr_index cursor len) + j) mod unat len) [0..<n]"
proof (induction n arbitrary: cursor)
  case 0
  then show ?case by simp
next
  case (Suc n)
  let ?i = "rr_index cursor len" and ?c = "snd (rr_next cursor len)"
  have i: "unat ?i < unat len" using rr_index_less [OF assms, of cursor] by (simp add: word_less_nat_alt)
  have "map unat (fst (rr_scan (Suc n) cursor len)) = unat ?i # map unat (fst (rr_scan n ?c len))"
    by (simp add: rr_next_def Let_def split: prod.splits)
  also have "map unat (fst (rr_scan n ?c len)) =
      map (\<lambda>j. (unat ?i + Suc j) mod unat len) [0..<n]"
    by (simp add: Suc.IH rr_index_next [OF assms] mod_add_left_eq)
  also have "unat ?i # \<dots> = map (\<lambda>j. (unat ?i + j) mod unat len) [0..<Suc n]"
    using i by (simp add: map_upt_Suc del: upt_Suc)
  finally show ?case .
qed

text \<open>
  Whatever the cursor, a scan of \<open>len\<close> selections over a membership of \<open>len\<close> slots visits
  every slot exactly once, starting at the position the cursor addresses, even for a cursor left
  beyond a membership that has shrunk.
\<close>

theorem rr_full_scan_visits_each_once:
  assumes "0 < len"
  shows "mset (map unat (fst (rr_scan (unat len) cursor len))) = mset [0..<unat len]
    \<and> hd (fst (rr_scan (unat len) cursor len)) = rr_index cursor len"
proof
  have len: "0 < unat len" using assms by (simp add: word_less_nat_alt)
  then show "mset (map unat (fst (rr_scan (unat len) cursor len))) = mset [0..<unat len]"
    unfolding rr_scan_positions [OF assms] by (rule mod_cycle_perm)
  from len show "hd (fst (rr_scan (unat len) cursor len)) = rr_index cursor len"
    by (cases "unat len") (auto simp: rr_next_def Let_def split: prod.splits)
qed

theorem rr_full_scan_visits_each_once_witness:
  "(0 :: usize) < 3 \<and>
   mset (map unat (fst (rr_scan (unat (3 :: usize)) 7 3))) = mset [0..<unat (3 :: usize)]"
  using rr_full_scan_visits_each_once [of 3 7] by simp

section \<open>Bounded preference\<close>

text \<open>One productive drain: select a ring, drain it, then record the preference.\<close>

definition cursor_serve :: "usize \<Rightarrow> Cursor \<Rightarrow> usize \<times> Cursor" where
  "cursor_serve len c = (let (i, c') = cursor_next c len in (i, cursor_prefer c'))"

fun cursor_serves :: "nat \<Rightarrow> usize \<Rightarrow> Cursor \<Rightarrow> usize list \<times> Cursor" where
  "cursor_serves 0 len c = ([], c)"
| "cursor_serves (Suc n) len c =
     (let (i, c') = cursor_serve len c; (is, c'') = cursor_serves n len c' in (i # is, c''))"

lemma serve_with_credit:
  assumes "credits c \<noteq> 0" "credits c < QUANTUM" "0 < len"
  shows "cursor_serve len c =
    (rr_index (cur_next c) len, \<lparr>cur_next = rr_index (cur_next c) len, credits = credits c - 1\<rparr>)"
proof -
  have "credits c - 1 < 16" using assms(1,2) unfolding QUANTUM_def by unat_arith
  then have "(credits c - 1) AND (QUANTUM - 1) = credits c - 1"
    using less_mask_eq [of "credits c - 1" 4] by (simp add: QUANTUM_def mask_eq_exp_minus_1)
  with assms(1) show ?thesis
    by (simp add: cursor_serve_def cursor_next_def cursor_prefer_def rr_next_def Let_def)
qed

lemma serve_without_credit:
  assumes "credits c = 0"
  shows "cursor_serve len c =
    (rr_index (cur_next c) len, \<lparr>cur_next = rr_index (cur_next c) len + 1, credits = QUANTUM - 1\<rparr>)"
  using assms by (simp add: cursor_serve_def cursor_next_def cursor_prefer_def rr_next_def Let_def QUANTUM_def)

lemma serves_spend_credit:
  assumes "0 < len" "unat (credits c) < 16"
  shows "cursor_serves (unat (credits c) + 1) len c =
    (replicate (unat (credits c) + 1) (rr_index (cur_next c) len),
     \<lparr>cur_next = rr_index (cur_next c) len + 1, credits = QUANTUM - 1\<rparr>)"
  using assms(2)
proof (induction "unat (credits c)" arbitrary: c)
  case 0
  then have "credits c = 0" by (simp add: unat_eq_0)
  then show ?case by (simp add: serve_without_credit)
next
  case (Suc n)
  let ?i = "rr_index (cur_next c) len"
  let ?c = "\<lparr>cur_next = ?i, credits = credits c - 1\<rparr>"
  have cr: "credits c \<noteq> 0" "credits c < QUANTUM"
    using Suc.hyps(2) Suc.prems by (auto simp: QUANTUM_def word_less_nat_alt)
  have n: "unat (credits c - 1) = n" using Suc.hyps(2) cr(1) by (simp add: unat_minus_one)
  have i: "rr_index ?i len = ?i" using rr_index_less [OF assms(1)] by (simp add: rr_index_def)
  have "cursor_serves (n + 1) len ?c =
      (replicate (n + 1) ?i, \<lparr>cur_next = ?i + 1, credits = QUANTUM - 1\<rparr>)"
    using Suc.hyps(1) [of ?c] n Suc.hyps(2) Suc.prems i by simp
  then show ?case
    using serve_with_credit [OF cr assms(1)] Suc.hyps(2) by simp
qed

text \<open>
  C25. A ring that always yields values is served for exactly \<open>QUANTUM\<close> drains by a fresh cursor
  and the cursor then moves to the cyclically next ring with its full credit restored, so a
  permanently hot ring cannot hide its peers.
\<close>

theorem hot_ring_bounded_service:
  assumes "0 < len"
  shows "let first = rr_index seed len; (served, c) = cursor_serves 16 len (cursor_new seed)
    in served = replicate 16 first \<and> credits c = QUANTUM - 1
       \<and> unat (rr_index (cur_next c) len) = (unat first + 1) mod unat len"
proof -
  have "cursor_serves 16 len (cursor_new seed) =
    (replicate 16 (rr_index seed len), \<lparr>cur_next = rr_index seed len + 1, credits = QUANTUM - 1\<rparr>)"
    using serves_spend_credit [OF assms, of "cursor_new seed"]
    by (simp add: cursor_new_def QUANTUM_def)
  moreover have "unat (rr_index (rr_index seed len + 1) len) = (unat (rr_index seed len) + 1) mod unat len"
    using rr_index_next [OF assms, of seed] by (simp add: rr_next_def Let_def)
  ultimately show ?thesis by simp
qed

theorem hot_ring_bounded_service_witness:
  "(0 :: usize) < 3 \<and> (let (served, c) = cursor_serves 16 3 (cursor_new 5)
    in served = replicate 16 0 \<and> unat (rr_index (cur_next c) 3) = 1)"
  using hot_ring_bounded_service [of 3 5]
  by (simp add: rr_index_def [of 5 3] Let_def case_prod_beta)

end
