(* ===== verification/Brokerless.thy ===== *)
theory Brokerless
  imports Backend Round_Robin
begin

text \<open>
  Brokerless competing-consumer MPMC (\<open>src/src/mpmc/brokerless/mod.rs\<close>): one SPSC transport per
  producer, each behind a claim flag. Operations act on the shared slots and on the calling
  consumer; a flag that is set on entry belongs to another consumer, whose transport the operation
  must leave alone. The topology is generic over the storage backend.

  The blocking calls spin until something changes. They are given the list of what the rest of the
  program does to the shared slots during each pause, and answer \<open>Spinning\<close> when the list ends
  before they return.
\<close>

section \<open>State\<close>

record 'q Slot =
  claimed :: bool
  rx :: 'q

record 'q BShared =
  slots :: "'q Slot list"
  live_producers :: usize
  live_consumers :: usize

record 'a BConsumer =
  cursor :: Cursor
  staging :: "'a Batch"
  cbatch :: usize

definition brokerless_open ::
  "('q, 'a, 's) Backend \<Rightarrow> usize \<Rightarrow> usize \<Rightarrow> ('q BShared \<times> 'a BConsumer) option" where
  "brokerless_open B n_producers capacity =
     do { qs \<leftarrow> those (replicate (unat n_producers) (bk_channel B capacity));
          Some (\<lparr>slots = map (\<lambda>q. \<lparr>claimed = False, rx = q\<rparr>) qs, live_producers = n_producers,
                 live_consumers = 1\<rparr>,
                \<lparr>cursor = cursor_new 0, staging = batch_new, cbatch = 64\<rparr>) }"

section \<open>Claims\<close>

text \<open>\<open>ReleaseClaim::try_acquire\<close> (the pause before the exchange changes nothing) and its \<open>Drop\<close>.\<close>

definition try_acquire :: "'q Slot \<Rightarrow> 'q Slot option" where
  "try_acquire s = (if claimed s then None else Some (s\<lparr>claimed := True\<rparr>))"

definition release_claim :: "'q Slot \<Rightarrow> 'q Slot" where
  "release_claim s = s\<lparr>claimed := False\<rparr>"

definition set_slot :: "nat \<Rightarrow> 'q Slot \<Rightarrow> 'q BShared \<Rightarrow> 'q BShared" where
  "set_slot i s sh = sh\<lparr>slots := (slots sh)[i := s]\<rparr>"

section \<open>Producers\<close>

text \<open>Producer \<open>i\<close> owns the sending half of slot \<open>i\<close>.\<close>

definition producer_try_send ::
  "('q, 'a, 's) Backend \<Rightarrow> 'q BShared \<Rightarrow> nat \<Rightarrow> 'a \<Rightarrow> ((unit, 'a) Result \<times> 'q BShared) option" where
  "producer_try_send B sh i v =
     (if i < length (slots sh)
      then do { (r, q) \<leftarrow> bk_try_push B (rx (slots sh ! i)) v;
                Some (r, set_slot i ((slots sh ! i)\<lparr>rx := q\<rparr>) sh) }
      else None)"

fun producer_send ::
  "('q, 'a, 's) Backend \<Rightarrow> ('q BShared \<Rightarrow> 'q BShared) list \<Rightarrow> 'q BShared \<Rightarrow> nat \<Rightarrow> 'a
     \<Rightarrow> (bool spin \<times> 'q BShared) option" where
  "producer_send B envs sh i v =
     do { (r, sh) \<leftarrow> producer_try_send B sh i v;
          case r of Ok _ \<Rightarrow> Some (Done True, sh)
          | Err v \<Rightarrow>
              if live_consumers sh = 0 then Some (Done False, sh)
              else (case envs of [] \<Rightarrow> Some (Spinning, sh)
                    | env # envs \<Rightarrow> producer_send B envs (env sh) i v) }"

definition producer_push_from ::
  "('q, 'a, 's) Backend \<Rightarrow> 'q BShared \<Rightarrow> nat \<Rightarrow> usize \<Rightarrow> 'a Batch \<Rightarrow> ('q BShared \<times> 'a Batch) option" where
  "producer_push_from B sh i mx source =
     (if i < length (slots sh)
      then do { (n, q, source) \<leftarrow> bk_push_from B (rx (slots sh ! i)) mx source;
                Some (set_slot i ((slots sh ! i)\<lparr>rx := q\<rparr>) sh, source) }
      else None)"

text \<open>\<open>send_batch\<close>: rounds that make progress are not pauses, so they carry their own bound.\<close>

fun producer_send_batch ::
  "('q, 'a, 's) Backend \<Rightarrow> nat \<Rightarrow> ('q BShared \<Rightarrow> 'q BShared) list \<Rightarrow> 'q BShared \<Rightarrow> nat \<Rightarrow> 'a Batch
     \<Rightarrow> (bool spin \<times> 'q BShared \<times> 'a Batch) option" where
  "producer_send_batch B 0 envs sh i source = None"
| "producer_send_batch B (Suc fuel) envs sh i source =
     (if batch_is_empty source then Some (Done True, sh, source)
      else do { let before = batch_len source;
                (sh, source) \<leftarrow> producer_push_from B sh i (- 1) source;
                if batch_len source < before then producer_send_batch B fuel envs sh i source
                else if live_consumers sh = 0 then Some (Done False, sh, source)
                else (case envs of [] \<Rightarrow> Some (Spinning, sh, source)
                      | env # envs \<Rightarrow> producer_send_batch B fuel envs (env sh) i source) })"

text \<open>Dropping a producer counts it out and then drops its sending half.\<close>

definition drop_producer :: "('q, 'a, 's) Backend \<Rightarrow> 'q BShared \<Rightarrow> nat \<Rightarrow> 'q BShared option" where
  "drop_producer B sh i =
     (if i < length (slots sh)
      then do { q \<leftarrow> bk_drop_tx B (rx (slots sh ! i));
                Some (set_slot i ((slots sh ! i)\<lparr>rx := q\<rparr>) (sh\<lparr>live_producers := live_producers sh - 1\<rparr>)) }
      else None)"

section \<open>Consumers\<close>

definition set_batch :: "usize \<Rightarrow> 'a BConsumer \<Rightarrow> 'a BConsumer" where
  "set_batch b c = c\<lparr>cbatch := max b 1\<rparr>"

text \<open>The loop of \<open>refill\<close>: advance, try to claim, drain one ring, release, stop when productive.\<close>

fun refill_loop ::
  "('q, 'a, 's) Backend \<Rightarrow> nat \<Rightarrow> 'q BShared \<Rightarrow> 'a BConsumer \<Rightarrow> ('q BShared \<times> 'a BConsumer) option" where
  "refill_loop B 0 sh c = Some (sh, c)"
| "refill_loop B (Suc m) sh c =
     (let (i, cur) = cursor_next (cursor c) (of_nat (length (slots sh)));
          c = c\<lparr>cursor := cur\<rparr>
      in if unat i < length (slots sh)
         then (case try_acquire (slots sh ! unat i) of
                 None \<Rightarrow> refill_loop B m sh c
               | Some s \<Rightarrow>
                   do { (n, q, st) \<leftarrow> bk_drain_into B (rx s) (cbatch c) (staging c);
                        let sh = set_slot (unat i) (release_claim (s\<lparr>rx := q\<rparr>)) sh;
                        let c = c\<lparr>staging := st\<rparr>;
                        if \<not> batch_is_empty st
                        then Some (sh, c\<lparr>cursor := cursor_prefer (cursor c)\<rparr>)
                        else refill_loop B m sh c })
         else None)"

text \<open>\<open>refill\<close> clears what is staged first; the values it destroys there are part of the result.\<close>

definition refill ::
  "('q, 'a, 's) Backend \<Rightarrow> 'q BShared \<Rightarrow> 'a BConsumer \<Rightarrow> ('a list \<times> 'q BShared \<times> 'a BConsumer) option" where
  "refill B sh c =
     do { (dropped, st) \<leftarrow> batch_clear (staging c);
          (sh, c) \<leftarrow> refill_loop B (length (slots sh)) sh (c\<lparr>staging := st\<rparr>);
          Some (dropped, sh, c) }"

definition try_recv ::
  "('q, 'a, 's) Backend \<Rightarrow> 'q BShared \<Rightarrow> 'a BConsumer \<Rightarrow> ('a option \<times> 'a list \<times> 'q BShared \<times> 'a BConsumer) option" where
  "try_recv B sh c =
     do { (v, st) \<leftarrow> batch_pop_front (staging c);
          case v of Some v \<Rightarrow> Some (Some v, [], sh, c\<lparr>staging := st\<rparr>)
          | None \<Rightarrow> do { (dropped, sh, c) \<leftarrow> refill B sh (c\<lparr>staging := st\<rparr>);
                         (v, st) \<leftarrow> batch_pop_front (staging c);
                         Some (v, dropped, sh, c\<lparr>staging := st\<rparr>) } }"

text \<open>
  \<open>try_recv_batch\<close>: the caller's batch is cleared and lent to the consumer for the refill; the
  refilled batch is swapped back. The first result lists the values destroyed by the clearing.
\<close>

definition try_recv_batch ::
  "('q, 'a, 's) Backend \<Rightarrow> 'q BShared \<Rightarrow> 'a BConsumer \<Rightarrow> 'a Batch
     \<Rightarrow> ('a list \<times> nat \<times> 'q BShared \<times> 'a BConsumer \<times> 'a Batch) option" where
  "try_recv_batch B sh c out =
     do { (dropped, out) \<leftarrow> batch_clear out;
          (dropped, sh, c, out) \<leftarrow>
            (if batch_is_empty (staging c)
             then do { let st = staging c;
                       (d, sh, c) \<leftarrow> refill B sh (c\<lparr>staging := out\<rparr>);
                       Some (dropped @ d, sh, c, st) }
             else Some (dropped, sh, c, out));
          let st = staging c;
          Some (dropped, batch_len st, sh, c\<lparr>staging := out\<rparr>, st) }"

definition is_disconnected :: "'q BShared \<Rightarrow> bool" where
  "is_disconnected sh \<longleftrightarrow> live_producers sh = 0"

fun recv ::
  "('q, 'a, 's) Backend \<Rightarrow> ('q BShared \<Rightarrow> 'q BShared) list \<Rightarrow> 'q BShared \<Rightarrow> 'a BConsumer
     \<Rightarrow> ('a option spin \<times> 'q BShared \<times> 'a BConsumer) option" where
  "recv B envs sh c =
     do { (v, _, sh, c) \<leftarrow> try_recv B sh c;
          case v of Some v \<Rightarrow> Some (Done (Some v), sh, c)
          | None \<Rightarrow>
              if live_producers sh = 0
              then do { (v, _, sh, c) \<leftarrow> try_recv B sh c; Some (Done v, sh, c) }
              else (case envs of [] \<Rightarrow> Some (Spinning, sh, c)
                    | env # envs \<Rightarrow> recv B envs (env sh) c) }"

fun recv_batch ::
  "('q, 'a, 's) Backend \<Rightarrow> ('q BShared \<Rightarrow> 'q BShared) list \<Rightarrow> 'q BShared \<Rightarrow> 'a BConsumer \<Rightarrow> 'a Batch
     \<Rightarrow> (nat spin \<times> 'q BShared \<times> 'a BConsumer \<times> 'a Batch) option" where
  "recv_batch B envs sh c out =
     do { (_, n, sh, c, out) \<leftarrow> try_recv_batch B sh c out;
          if n \<noteq> 0 then Some (Done n, sh, c, out)
          else if is_disconnected sh
          then do { (_, n, sh, c, out) \<leftarrow> try_recv_batch B sh c out; Some (Done n, sh, c, out) }
          else (case envs of [] \<Rightarrow> Some (Spinning, sh, c, out)
                | env # envs \<Rightarrow> recv_batch B envs (env sh) c out) }"

text \<open>\<open>drain\<close>: first the staged values, one by one, then the first productive ring, in place.\<close>

fun drain_staged ::
  "nat \<Rightarrow> nat \<Rightarrow> 'a Batch \<Rightarrow> ('a, 's) callback \<Rightarrow> 's \<Rightarrow> (bool \<times> nat \<times> 'a Batch \<times> 's) option" where
  "drain_staged 0 fin st f s = Some (True, fin, st, s)"
| "drain_staged (Suc left) fin st f s =
     do { (v, st) \<leftarrow> batch_pop_front st;
          case v of None \<Rightarrow> Some (True, fin, st, s)
          | Some v \<Rightarrow> (let (ok, s) = f v s
                       in if ok then drain_staged left (fin + 1) st f s else Some (False, fin, st, s)) }"

fun drain_scan ::
  "('q, 'a, 's) Backend \<Rightarrow> nat \<Rightarrow> nat \<Rightarrow> nat \<Rightarrow> 'q BShared \<Rightarrow> 'a BConsumer \<Rightarrow> ('a, 's) callback \<Rightarrow> 's
     \<Rightarrow> (nat control \<times> 'q BShared \<times> 'a BConsumer \<times> 's) option" where
  "drain_scan B 0 mx fin sh c f s = Some (Return fin, sh, c, s)"
| "drain_scan B (Suc m) mx fin sh c f s =
     (let (i, cur) = cursor_next (cursor c) (of_nat (length (slots sh)));
          c = c\<lparr>cursor := cur\<rparr>
      in if unat i < length (slots sh)
         then (case try_acquire (slots sh ! unat i) of
                 None \<Rightarrow> drain_scan B m mx fin sh c f s
               | Some sl \<Rightarrow>
                   do { (r, q, s) \<leftarrow> bk_drain_in_place B (rx sl) (of_nat (mx - fin)) f s;
                        let sh = set_slot (unat i) (release_claim (sl\<lparr>rx := q\<rparr>)) sh;
                        case r of Unwind \<Rightarrow> Some (Unwind, sh, c, s)
                        | Return got \<Rightarrow>
                            if got > 0
                            then Some (Return (fin + got), sh, c\<lparr>cursor := cursor_prefer (cursor c)\<rparr>, s)
                            else drain_scan B m mx (fin + got) sh c f s })
         else None)"

definition drain ::
  "('q, 'a, 's) Backend \<Rightarrow> 'q BShared \<Rightarrow> 'a BConsumer \<Rightarrow> usize \<Rightarrow> ('a, 's) callback \<Rightarrow> 's
     \<Rightarrow> (nat control \<times> 'q BShared \<times> 'a BConsumer \<times> 's) option" where
  "drain B sh c mx f s =
     do { (ok, fin, st, s) \<leftarrow> drain_staged (unat mx) 0 (staging c) f s;
          let c = c\<lparr>staging := st\<rparr>;
          if \<not> ok then Some (Unwind, sh, c, s)
          else if fin \<ge> unat mx then Some (Return fin, sh, c, s)
          else drain_scan B (length (slots sh)) (unat mx) fin sh c f s }"

fun for_each ::
  "('q, 'a, 's) Backend \<Rightarrow> nat \<Rightarrow> ('q BShared \<Rightarrow> 'q BShared) list \<Rightarrow> 'q BShared \<Rightarrow> 'a BConsumer \<Rightarrow> usize
     \<Rightarrow> ('a, 's) callback \<Rightarrow> 's \<Rightarrow> (unit spin control \<times> 'q BShared \<times> 'a BConsumer \<times> 's) option" where
  "for_each B 0 envs sh c b f s = None"
| "for_each B (Suc fuel) envs sh c b f s =
     do { (r, sh, c, s) \<leftarrow> drain B sh c (max b 1) f s;
          case r of Unwind \<Rightarrow> Some (Unwind, sh, c, s)
          | Return n \<Rightarrow>
              if n > 0 then for_each B fuel envs sh c b f s
              else if live_producers sh = 0
              then do { (r, sh, c, s) \<leftarrow> drain B sh c (max b 1) f s;
                        case r of Unwind \<Rightarrow> Some (Unwind, sh, c, s)
                        | Return n \<Rightarrow> if n = 0 then Some (Return (Done ()), sh, c, s)
                                      else for_each B fuel envs sh c b f s }
              else (case envs of [] \<Rightarrow> Some (Return Spinning, sh, c, s)
                    | env # envs \<Rightarrow> for_each B fuel envs (env sh) c b f s) }"

definition clone_consumer :: "'q BShared \<Rightarrow> 'a BConsumer \<Rightarrow> 'q BShared \<times> 'a BConsumer" where
  "clone_consumer sh c =
     (sh\<lparr>live_consumers := live_consumers sh + 1\<rparr>,
      \<lparr>cursor = cursor_new (live_consumers sh), staging = batch_new, cbatch = cbatch c\<rparr>)"

text \<open>Dropping a consumer counts it out and destroys what it still has staged.\<close>

definition drop_consumer :: "'q BShared \<Rightarrow> 'a BConsumer \<Rightarrow> ('a list \<times> 'q BShared) option" where
  "drop_consumer sh c =
     do { (dropped, _) \<leftarrow> batch_clear (staging c);
          Some (dropped, sh\<lparr>live_consumers := live_consumers sh - 1\<rparr>) }"

section \<open>What the slots hold\<close>

definition slots_rep :: "('q \<Rightarrow> 'a list \<Rightarrow> bool) \<Rightarrow> 'q BShared \<Rightarrow> 'a list list \<Rightarrow> bool" where
  "slots_rep rep sh vss \<longleftrightarrow> length vss = length (slots sh) \<and> length (slots sh) < 2 ^ 64
     \<and> (\<forall>i<length vss. rep (rx (slots sh ! i)) (vss ! i))"

definition same_flags :: "'q BShared \<Rightarrow> 'q BShared \<Rightarrow> bool" where
  "same_flags sh sh' \<longleftrightarrow> map claimed (slots sh') = map claimed (slots sh)
     \<and> live_producers sh' = live_producers sh \<and> live_consumers sh' = live_consumers sh"

lemma same_flags_refl [simp]: "same_flags sh sh"
  by (simp add: same_flags_def)

lemma same_flags_trans: "same_flags a b \<Longrightarrow> same_flags b c \<Longrightarrow> same_flags a c"
  by (simp add: same_flags_def)

lemma same_flags_nth: "same_flags sh sh' \<Longrightarrow> i < length (slots sh) \<Longrightarrow> claimed (slots sh' ! i) = claimed (slots sh ! i)"
  by (metis length_map nth_map same_flags_def)

lemma same_flags_length: "same_flags sh sh' \<Longrightarrow> length (slots sh') = length (slots sh)"
  by (metis length_map same_flags_def)

lemma set_slot_rep:
  assumes "slots_rep rep sh vss" "i < length (slots sh)" "rep (rx s) vs" "claimed s = claimed (slots sh ! i)"
  shows "slots_rep rep (set_slot i s sh) (vss[i := vs])" "same_flags sh (set_slot i s sh)"
    "length (slots (set_slot i s sh)) = length (slots sh)"
  using assms
  by (auto simp: slots_rep_def same_flags_def set_slot_def nth_list_update map_update list_update_same_conv)

lemma slots_rep_index:
  assumes "slots_rep rep sh vss" "slots sh \<noteq> []"
  shows "unat (fst (cursor_next c (of_nat (length (slots sh))))) < length (slots sh)"
proof -
  have l: "unat (of_nat (length (slots sh)) :: usize) = length (slots sh)"
    using assms(1) by (intro unat_of_nat_usize) (simp add: slots_rep_def)
  then have "(0 :: usize) < of_nat (length (slots sh))" using assms(2) by (simp add: word_less_nat_alt)
  from rr_index_less [OF this, of "cur_next c"] show ?thesis
    using l by (simp add: cursor_next_def rr_next_def Let_def word_less_nat_alt)
qed

text \<open>The positions a scan of \<open>m\<close> rounds looks at.\<close>

fun scan_positions :: "nat \<Rightarrow> usize \<Rightarrow> Cursor \<Rightarrow> nat list" where
  "scan_positions 0 len c = []"
| "scan_positions (Suc m) len c = unat (fst (cursor_next c len)) # scan_positions m len (snd (cursor_next c len))"

lemma scan_positions_rr: "scan_positions m len c = map unat (fst (rr_scan m (cur_next c) len))"
  by (induction m arbitrary: c) (auto simp: cursor_next_def rr_next_def Let_def split: prod.splits)

lemma full_scan_covers:
  assumes "0 < n" "n < 2 ^ 64"
  shows "set (scan_positions n (of_nat n) c) = {0..<n}"
proof -
  have u: "unat (of_nat n :: usize) = n" using assms(2) by (rule unat_of_nat_usize)
  then have z: "(0 :: usize) < of_nat n" using assms(1) by (simp add: word_less_nat_alt)
  have "mset (scan_positions n (of_nat n) c) = mset [0..<n]"
    unfolding scan_positions_rr rr_scan_positions [OF z] u by (rule mod_cycle_perm [OF assms(1)])
  then show ?thesis by (metis set_mset_mset set_upt)
qed

lemma scan_positions_less:
  assumes "0 < n" "n < 2 ^ 64" "i \<in> set (scan_positions m (of_nat n) c)"
  shows "i < n"
proof -
  have u: "unat (of_nat n :: usize) = n" using assms(2) by (rule unat_of_nat_usize)
  then have z: "(0 :: usize) < of_nat n" using assms(1) by (simp add: word_less_nat_alt)
  show ?thesis using assms(1,3) unfolding scan_positions_rr rr_scan_positions [OF z] u by auto
qed

text \<open>
  What one scan over \<open>P\<close> does to the contents \<open>vss\<close> under claim flags \<open>fl\<close>: it takes a FIFO prefix \<open>got\<close>
  of one unclaimed ring, or finds every unclaimed ring of \<open>P\<close> empty.
\<close>

definition scanned :: "bool list \<Rightarrow> nat \<Rightarrow> nat set \<Rightarrow> 'a list list \<Rightarrow> 'a list list \<Rightarrow> 'a list \<Rightarrow> bool" where
  "scanned fl lim P vss vss' got \<longleftrightarrow>
     (\<exists>i k. i < length vss \<and> \<not> fl ! i \<and> 0 < k \<and> k \<le> min (length (vss ! i)) lim
        \<and> vss' = vss[i := drop k (vss ! i)] \<and> got = take k (vss ! i))
     \<or> (vss' = vss \<and> got = [] \<and> (\<forall>i\<in>P. \<not> fl ! i \<longrightarrow> vss ! i = []))"

definition flags :: "'q BShared \<Rightarrow> bool list" where
  "flags sh = map claimed (slots sh)"

lemma same_flags_flags: "same_flags sh sh' \<Longrightarrow> flags sh' = flags sh"
  by (simp add: same_flags_def flags_def)

lemma scannedI:
  "i < length vss \<Longrightarrow> \<not> fl ! i \<Longrightarrow> 0 < k \<Longrightarrow> k \<le> min (length (vss ! i)) lim
     \<Longrightarrow> scanned fl lim P vss (vss[i := drop k (vss ! i)]) (take k (vss ! i))"
  unfolding scanned_def by blast

lemma scanned_insert:
  "scanned fl lim P vss vss' got \<Longrightarrow> fl ! i \<or> vss ! i = [] \<Longrightarrow> scanned fl lim (insert i P) vss vss' got"
  by (auto simp: scanned_def)

context spsc_ops
begin

lemma refill_loop_spec:
  assumes "slots_rep rep sh vss" "batch_rep (staging c) []" "cbatch c \<noteq> 0" "slots sh \<noteq> [] \<or> m = 0"
  shows "\<exists>sh' c' vss' got. refill_loop B m sh c = Some (sh', c') \<and> slots_rep rep sh' vss' \<and> same_flags sh sh'
     \<and> cbatch c' = cbatch c \<and> batch_rep (staging c') got
     \<and> scanned (flags sh) (unat (cbatch c)) (set (scan_positions m (of_nat (length (slots sh))) (cursor c))) vss vss' got"
  using assms
proof (induction m arbitrary: sh c)
  case 0
  then show ?case by (intro exI [of _ sh] exI [of _ c] exI [of _ vss]) (auto simp: scanned_def)
next
  case (Suc m)
  let ?len = "of_nat (length (slots sh)) :: usize"
  obtain j cur where nx: "cursor_next (cursor c) ?len = (j, cur)" by (cases "cursor_next (cursor c) ?len")
  let ?i = "unat j"
  have i: "?i < length (slots sh)" using slots_rep_index [OF Suc.prems(1), of "cursor c"] Suc.prems(4) nx by simp
  have lv: "length vss = length (slots sh)" using Suc.prems(1) by (simp add: slots_rep_def)
  have r: "rep (rx (slots sh ! ?i)) (vss ! ?i)" using Suc.prems(1) i by (simp add: slots_rep_def)
  have fl: "flags sh ! ?i = claimed (slots sh ! ?i)" using i by (simp add: flags_def)
  have ps: "set (scan_positions (Suc m) ?len (cursor c)) = insert ?i (set (scan_positions m ?len cur))"
    using nx by simp
  show ?case
  proof (cases "claimed (slots sh ! ?i)")
    case True
    obtain sh' c' vss' got where "refill_loop B m sh (c\<lparr>cursor := cur\<rparr>) = Some (sh', c')" "slots_rep rep sh' vss'"
      "same_flags sh sh'" "cbatch c' = cbatch c" "batch_rep (staging c') got"
      "scanned (flags sh) (unat (cbatch c)) (set (scan_positions m ?len cur)) vss vss' got"
      using Suc.IH [OF Suc.prems(1), of "c\<lparr>cursor := cur\<rparr>"] Suc.prems by auto
    then show ?thesis using i True nx fl unfolding ps
      by (intro exI [of _ sh'] exI [of _ c'] exI [of _ vss'] exI [of _ got])
        (auto simp: Let_def try_acquire_def intro!: scanned_insert)
  next
    case False
    obtain n q st where d: "bk_drain_into B (rx (slots sh ! ?i)) (cbatch c) (staging c) = Some (n, q, st)"
      "rep q (drop n (vss ! ?i))" "batch_rep st ([] @ take n (vss ! ?i))"
      "n \<le> min (length (vss ! ?i)) (unat (cbatch c))" "n = 0 \<longleftrightarrow> vss ! ?i = [] \<or> cbatch c = 0"
      using drain_into [OF r Suc.prems(2), of "cbatch c"] by (elim exE conjE) (rule that)
    let ?s = "release_claim ((slots sh ! ?i)\<lparr>claimed := True, rx := q\<rparr>)"
    let ?sh = "set_slot ?i ?s sh"
    have s: "slots_rep rep ?sh (vss[?i := drop n (vss ! ?i)])" "same_flags sh ?sh"
      "length (slots ?sh) = length (slots sh)"
      using set_slot_rep [OF Suc.prems(1) i, of ?s "drop n (vss ! ?i)"] d(2) False
      by (auto simp: release_claim_def)
    have e: "batch_is_empty st \<longleftrightarrow> vss ! ?i = []"
      using batch_is_empty_rep [OF d(3)] d(5) Suc.prems(3) by auto
    show ?thesis
    proof (cases "vss ! ?i = []")
      case True
      then have "vss[?i := drop n (vss ! ?i)] = vss" by (metis drop_Nil list_update_id)
      then have st: "batch_rep st []" "slots_rep rep ?sh vss" using d(3) s(1) True by auto
      let ?c = "c\<lparr>cursor := cur, staging := st\<rparr>"
      have ne: "slots ?sh \<noteq> [] \<or> m = 0" using s(3) i by (metis length_0_conv less_zeroE)
      obtain sh' c' vss' got where IH: "refill_loop B m ?sh ?c = Some (sh', c')" "slots_rep rep sh' vss'" "same_flags ?sh sh'"
        "cbatch c' = cbatch c" "batch_rep (staging c') got"
        "scanned (flags ?sh) (unat (cbatch c)) (set (scan_positions m (of_nat (length (slots ?sh))) cur)) vss vss' got"
        using Suc.IH [OF st(2) _ _ ne, of ?c] Suc.prems(3) st(1) by auto
      have "refill_loop B (Suc m) sh c = Some (sh', c')"
        using d(1) e True i False nx IH(1) by (simp add: Let_def try_acquire_def)
      moreover have "scanned (flags sh) (unat (cbatch c)) (set (scan_positions (Suc m) ?len (cursor c))) vss vss' got"
        using IH(6) scanned_insert True unfolding ps same_flags_flags [OF s(2)] s(3) by blast
      ultimately show ?thesis using IH(2,4,5) same_flags_trans [OF s(2) IH(3)] by blast
    next
      case ne: False
      let ?c = "c\<lparr>cursor := cursor_prefer cur, staging := st\<rparr>"
      have "refill_loop B (Suc m) sh c = Some (?sh, ?c)"
        using d(1) e i False nx ne by (simp add: Let_def try_acquire_def)
      moreover have "0 < n" using d(5) ne Suc.prems(3) by auto
      then have "scanned (flags sh) (unat (cbatch c)) P vss (vss[?i := drop n (vss ! ?i)]) (take n (vss ! ?i))" for P
        using d(4) i lv fl False by (intro scannedI) simp_all
      ultimately show ?thesis using s(1,2) d(3)
        by (intro exI [of _ ?sh] exI [of _ ?c] exI [of _ "vss[?i := drop n (vss ! ?i)]"] exI [of _ "take n (vss ! ?i)"]) simp
    qed
  qed
qed

lemma refill_spec:
  assumes "slots_rep rep sh vss" "batch_rep (staging c) st" "cbatch c \<noteq> 0"
  shows "\<exists>sh' c' vss' got. refill B sh c = Some (st, sh', c') \<and> slots_rep rep sh' vss' \<and> same_flags sh sh'
     \<and> cbatch c' = cbatch c \<and> batch_rep (staging c') got
     \<and> scanned (flags sh) (unat (cbatch c)) {0..<length (slots sh)} vss vss' got"
proof -
  let ?c = "c\<lparr>staging := (staging c)\<lparr>bvalues := [], bread := 0\<rparr>\<rparr>"
  obtain sh' c' vss' got where r: "refill_loop B (length (slots sh)) sh ?c = Some (sh', c')" "slots_rep rep sh' vss'"
    "same_flags sh sh'" "cbatch c' = cbatch c" "batch_rep (staging c') got"
    "scanned (flags sh) (unat (cbatch c)) (set (scan_positions (length (slots sh)) (of_nat (length (slots sh))) (cursor c))) vss vss' got"
    using refill_loop_spec [OF assms(1), of ?c "length (slots sh)"] assms(3) by auto
  have "set (scan_positions (length (slots sh)) (of_nat (length (slots sh))) (cursor c)) = {0..<length (slots sh)}"
  proof (cases "slots sh = []")
    case False
    then show ?thesis using assms(1) by (intro full_scan_covers) (auto simp: slots_rep_def)
  qed simp
  then show ?thesis using r batch_clear_rep [OF assms(2)] by (auto simp: refill_def)
qed


lemma try_recv_spec:
  assumes "slots_rep rep sh vss" "batch_rep (staging c) st" "cbatch c \<noteq> 0"
  shows "\<exists>v sh' c' vss' st'. try_recv B sh c = Some (v, [], sh', c') \<and> slots_rep rep sh' vss' \<and> same_flags sh sh'
     \<and> cbatch c' = cbatch c \<and> batch_rep (staging c') st'
     \<and> (if st \<noteq> [] then v = Some (hd st) \<and> st' = tl st \<and> vss' = vss
        else \<exists>got. scanned (flags sh) (unat (cbatch c)) {0..<length (slots sh)} vss vss' got
           \<and> v = (case got of [] \<Rightarrow> None | x # _ \<Rightarrow> Some x) \<and> st' = tl got)"
proof (cases st)
  case (Cons x xs)
  obtain b where "batch_pop_front (staging c) = Some (Some x, b)" "batch_rep b xs"
    using batch_pop_front_Cons [of "staging c" x xs] assms(2) Cons by blast
  then show ?thesis using assms Cons
    by (intro exI [of _ "Some x"] exI [of _ sh] exI [of _ "c\<lparr>staging := b\<rparr>"] exI [of _ vss] exI [of _ xs])
      (simp add: try_recv_def)
next
  case Nil
  have p: "batch_pop_front (staging c) = Some (None, staging c)" using batch_pop_front_Nil [of "staging c"] assms(2) Nil by simp
  obtain sh' c' vss' got where r: "refill B sh c = Some ([], sh', c')" "slots_rep rep sh' vss'" "same_flags sh sh'"
    "cbatch c' = cbatch c" "batch_rep (staging c') got"
    "scanned (flags sh) (unat (cbatch c)) {0..<length (slots sh)} vss vss' got"
    using refill_spec [OF assms] Nil by blast
  obtain b where b: "batch_pop_front (staging c') = Some (case got of [] \<Rightarrow> None | x # _ \<Rightarrow> Some x, b)" "batch_rep b (tl got)"
  proof (cases got)
    case Nil
    then show thesis using that batch_pop_front_Nil [of "staging c'"] r(5) by simp
  next
    case (Cons x xs)
    then show thesis using that batch_pop_front_Cons [of "staging c'" x xs] r(5) by auto
  qed
  have "try_recv B sh c = Some (case got of [] \<Rightarrow> None | x # _ \<Rightarrow> Some x, [], sh', c'\<lparr>staging := b\<rparr>)"
    using p r(1) b(1) by (simp add: try_recv_def)
  then show ?thesis using r(2,3,4,6) b(2) Nil
    by (intro exI [of _ "case got of [] \<Rightarrow> None | x # _ \<Rightarrow> Some x"] exI [of _ sh'] exI [of _ "c'\<lparr>staging := b\<rparr>"] exI [of _ vss']
        exI [of _ "tl got"]) auto
qed

lemma try_recv_batch_spec:
  assumes "slots_rep rep sh vss" "batch_rep (staging c) st" "cbatch c \<noteq> 0" "batch_rep out xs"
  shows "\<exists>sh' c' out' vss' got. try_recv_batch B sh c out = Some (xs, length got, sh', c', out')
     \<and> slots_rep rep sh' vss' \<and> same_flags sh sh' \<and> cbatch c' = cbatch c
     \<and> batch_rep (staging c') [] \<and> batch_rep out' got
     \<and> (if st \<noteq> [] then got = st \<and> vss' = vss
        else scanned (flags sh) (unat (cbatch c)) {0..<length (slots sh)} vss vss' got)"
proof -
  let ?out = "out\<lparr>bvalues := [], bread := 0\<rparr>"
  have cl: "batch_clear out = Some (xs, ?out)" "batch_rep ?out []" using batch_clear_rep [OF assms(4)] by simp_all
  show ?thesis
  proof (cases "st = []")
    case True
    then have e: "batch_is_empty (staging c)" using batch_is_empty_rep [OF assms(2)] by simp
    obtain sh' c' vss' got where r: "refill B sh (c\<lparr>staging := ?out\<rparr>) = Some ([], sh', c')" "slots_rep rep sh' vss'"
      "same_flags sh sh'" "cbatch c' = cbatch c" "batch_rep (staging c') got"
      "scanned (flags sh) (unat (cbatch c)) {0..<length (slots sh)} vss vss' got"
      using refill_spec [OF assms(1), of "c\<lparr>staging := ?out\<rparr>" "[]"] cl(2) assms(3) by auto
    have "try_recv_batch B sh c out = Some (xs, length got, sh', c'\<lparr>staging := staging c\<rparr>, staging c')"
      using cl(1) e r(1) batch_len_rep [OF r(5)] by (simp add: try_recv_batch_def Let_def)
    then show ?thesis using r True assms(2)
      by (intro exI [of _ sh'] exI [of _ "c'\<lparr>staging := staging c\<rparr>"] exI [of _ "staging c'"] exI [of _ vss'] exI [of _ got]) auto
  next
    case False
    then have e: "\<not> batch_is_empty (staging c)" using batch_is_empty_rep [OF assms(2)] by simp
    have "try_recv_batch B sh c out = Some (xs, length st, sh, c\<lparr>staging := ?out\<rparr>, staging c)"
      using cl(1) e batch_len_rep [OF assms(2)] by (simp add: try_recv_batch_def Let_def)
    then show ?thesis using False assms cl(2)
      by (intro exI [of _ sh] exI [of _ "c\<lparr>staging := ?out\<rparr>"] exI [of _ "staging c"] exI [of _ vss] exI [of _ st]) auto
  qed
qed

lemma producer_try_send_spec:
  assumes "slots_rep rep sh vss" "i < length (slots sh)"
  shows "\<exists>sh'. producer_try_send B sh i v =
       Some (if accepts (ctl (rx (slots sh ! i))) (vss ! i) then Ok () else Err v, sh')
     \<and> slots_rep rep sh' (if accepts (ctl (rx (slots sh ! i))) (vss ! i) then vss[i := vss ! i @ [v]] else vss)
     \<and> same_flags sh sh'"
proof -
  have r: "rep (rx (slots sh ! i)) (vss ! i)" using assms by (simp add: slots_rep_def)
  let ?a = "accepts (ctl (rx (slots sh ! i))) (vss ! i)"
  obtain q where q: "bk_try_push B (rx (slots sh ! i)) v = Some (if ?a then Ok () else Err v, q)"
    "rep q (if ?a then vss ! i @ [v] else vss ! i)"
    using push_law [OF r] by blast
  have "slots_rep rep (set_slot i ((slots sh ! i)\<lparr>rx := q\<rparr>) sh) (vss[i := if ?a then vss ! i @ [v] else vss ! i])"
    "same_flags sh (set_slot i ((slots sh ! i)\<lparr>rx := q\<rparr>) sh)"
    using set_slot_rep [OF assms, of "(slots sh ! i)\<lparr>rx := q\<rparr>"] q(2) by auto
  then show ?thesis using q(1) assms(2) by (auto simp: producer_try_send_def)
qed

end

text \<open>
  \<open>handed f seen s r n s'\<close>: user code \<open>f\<close> was handed the values \<open>seen\<close> one by one from state \<open>s\<close>, which left
  \<open>s'\<close>; a call that had counted \<open>n\<close> values before then returns the total, or unwinds.
\<close>

definition handed :: "('a, 's) callback \<Rightarrow> 'a list \<Rightarrow> 's \<Rightarrow> nat control \<Rightarrow> nat \<Rightarrow> 's \<Rightarrow> bool" where
  "handed f seen s r n s' \<longleftrightarrow> (\<exists>ok. feed f seen s = (length seen, ok, s')
     \<and> r = (if ok then Return (n + length seen) else Unwind))"

lemma drain_staged_spec:
  assumes "batch_rep st xs" "feed f (take left xs) s = (k, ok, s')"
  shows "\<exists>st'. drain_staged left fin st f s = Some (ok, fin + (if ok then k else k - 1), st', s') \<and> batch_rep st' (drop k xs)"
  using assms
proof (induction left arbitrary: st xs s k fin)
  case 0
  then show ?case by simp
next
  case (Suc left)
  show ?case
  proof (cases xs)
    case Nil
    then show ?thesis using Suc.prems batch_pop_front_Nil [of st] by auto
  next
    case (Cons v vs)
    obtain b where b: "batch_pop_front st = Some (Some v, b)" "batch_rep b vs"
      using batch_pop_front_Cons [of st v vs] Suc.prems(1) Cons by blast
    show ?thesis
    proof (cases "fst (f v s)")
      case True
      obtain k' where k: "k = Suc k'" "feed f (take left vs) (snd (f v s)) = (k', ok, s')"
        using Suc.prems(2) True Cons by (auto simp: feed_Cons prod_eq_iff simp del: feed.simps(2))
      have "\<not> ok \<Longrightarrow> 0 < k'" using k(2) feed_pos [of "take left vs" f "snd (f v s)"] by (cases "take left vs") auto
      then show ?thesis using Suc.IH [OF b(2) k(2), of "fin + 1"] b(1) True k(1) Cons
        by (auto simp: case_prod_beta)
    next
      case False
      then show ?thesis using Suc.prems(2) Cons b by (auto simp: feed_Cons case_prod_beta simp del: feed.simps(2))
    qed
  qed
qed

context spsc_ops
begin

lemma drain_handed:
  assumes "rep q vs"
  shows "\<exists>r q' s' k. bk_drain_in_place B q mx f s = Some (r, q', s') \<and> rep q' (drop k vs)
     \<and> k \<le> min (length vs) (unat mx) \<and> (k = 0 \<longleftrightarrow> vs = [] \<or> mx = 0) \<and> handed f (take k vs) s r 0 s'"
proof -
  obtain n k ok s' q' where d: "feed f (take n vs) s = (k, ok, s')"
    "bk_drain_in_place B q mx f s = Some (if ok then Return n else Unwind, q', s')" "rep q' (drop k vs)"
    "n \<le> min (length vs) (unat mx)" "n = 0 \<longleftrightarrow> vs = [] \<or> mx = 0"
    using drain [OF assms, of f s mx] by (elim exE conjE) (rule that)
  have kn: "k \<le> n" using feed_le [of f "take n vs" s] d(1,4) by simp
  have f: "feed f (take k vs) s = (k, ok, s')" using feed_seen [OF d(1)] kn by (simp add: min_def)
  have "ok \<Longrightarrow> k = n" using feed_all [of f "take n vs" s] d(1,4) by simp
  then have h: "handed f (take k vs) s (if ok then Return n else Unwind) 0 s'"
    using f kn d(4) unfolding handed_def by (intro exI [of _ ok]) simp
  have "k = 0 \<longleftrightarrow> n = 0" using feed_pos [of "take n vs" f s] d(1,4) kn by (cases "n = 0"; cases vs) auto
  then show ?thesis using d(2-5) kn h
    by (intro exI [of _ "if ok then Return n else Unwind"] exI [of _ q'] exI [of _ s'] exI [of _ k]) simp
qed

lemma drain_scan_spec:
  assumes "slots_rep rep sh vss" "fin < mx" "mx < 2 ^ 64" "slots sh \<noteq> [] \<or> m = 0"
  shows "\<exists>r sh' c' s' vss' seen. drain_scan B m mx fin sh c f s = Some (r, sh', c', s')
     \<and> slots_rep rep sh' vss' \<and> same_flags sh sh' \<and> staging c' = staging c \<and> cbatch c' = cbatch c
     \<and> scanned (flags sh) (mx - fin) (set (scan_positions m (of_nat (length (slots sh))) (cursor c))) vss vss' seen
     \<and> handed f seen s r fin s'"
  using assms
proof (induction m arbitrary: sh c)
  case 0
  then show ?case
    by (intro exI [of _ "Return fin"] exI [of _ sh] exI [of _ c] exI [of _ s] exI [of _ vss] exI [of _ "[]"])
      (auto simp: scanned_def handed_def)
next
  case (Suc m)
  let ?len = "of_nat (length (slots sh)) :: usize"
  obtain j cur where nx: "cursor_next (cursor c) ?len = (j, cur)" by (cases "cursor_next (cursor c) ?len")
  let ?i = "unat j"
  have i: "?i < length (slots sh)" using slots_rep_index [OF Suc.prems(1), of "cursor c"] Suc.prems(4) nx by simp
  have lv: "length vss = length (slots sh)" using Suc.prems(1) by (simp add: slots_rep_def)
  have r: "rep (rx (slots sh ! ?i)) (vss ! ?i)" using Suc.prems(1) i by (simp add: slots_rep_def)
  have fl: "flags sh ! ?i = claimed (slots sh ! ?i)" using i by (simp add: flags_def)
  have ps: "set (scan_positions (Suc m) ?len (cursor c)) = insert ?i (set (scan_positions m ?len cur))"
    using nx by simp
  show ?case
  proof (cases "claimed (slots sh ! ?i)")
    case True
    obtain r sh' c' s' vss' seen where "drain_scan B m mx fin sh (c\<lparr>cursor := cur\<rparr>) f s = Some (r, sh', c', s')"
      "slots_rep rep sh' vss'" "same_flags sh sh'" "staging c' = staging c" "cbatch c' = cbatch c"
      "scanned (flags sh) (mx - fin) (set (scan_positions m ?len cur)) vss vss' seen" "handed f seen s r fin s'"
      using Suc.IH [OF Suc.prems(1), of "c\<lparr>cursor := cur\<rparr>"] Suc.prems by auto
    then show ?thesis using i True nx fl unfolding ps
      by (intro exI [of _ r] exI [of _ sh'] exI [of _ c'] exI [of _ s'] exI [of _ vss'] exI [of _ seen])
        (auto simp: Let_def try_acquire_def intro!: scanned_insert)
  next
    case False
    have mxu: "unat (of_nat (mx - fin) :: usize) = mx - fin" using Suc.prems(3) by (intro unat_of_nat_usize) simp
    then have mxz: "(of_nat (mx - fin) :: usize) \<noteq> 0" using Suc.prems(2) by (metis unat_0 zero_less_diff less_irrefl)
    obtain r q s' k where d: "bk_drain_in_place B (rx (slots sh ! ?i)) (of_nat (mx - fin)) f s = Some (r, q, s')"
      "rep q (drop k (vss ! ?i))" "k \<le> min (length (vss ! ?i)) (mx - fin)" "k = 0 \<longleftrightarrow> vss ! ?i = []"
      "handed f (take k (vss ! ?i)) s r 0 s'"
      using drain_handed [OF r, of "of_nat (mx - fin)" f s] mxz unfolding mxu by (elim exE conjE) simp
    let ?s = "release_claim ((slots sh ! ?i)\<lparr>claimed := True, rx := q\<rparr>)"
    let ?sh = "set_slot ?i ?s sh"
    have s: "slots_rep rep ?sh (vss[?i := drop k (vss ! ?i)])" "same_flags sh ?sh" "length (slots ?sh) = length (slots sh)"
      using set_slot_rep [OF Suc.prems(1) i, of ?s "drop k (vss ! ?i)"] d(2) False
      by (auto simp: release_claim_def)
    obtain ok where ok: "feed f (take k (vss ! ?i)) s = (k, ok, s')" "r = (if ok then Return k else Unwind)"
      using d(3,5) by (auto simp: handed_def)
    show ?thesis
    proof (cases "vss ! ?i = []")
      case True
      then have k0: "k = 0" "ok" "s' = s" using d(4) ok by auto
      have "vss[?i := drop k (vss ! ?i)] = vss" by (simp add: k0)
      then have st: "slots_rep rep ?sh vss" using s(1) by simp
      have ne: "slots ?sh \<noteq> [] \<or> m = 0" using s(3) i by (metis length_0_conv less_zeroE)
      obtain r' sh' c' s'' vss' seen where IH: "drain_scan B m mx fin ?sh (c\<lparr>cursor := cur\<rparr>) f s = Some (r', sh', c', s'')"
        "slots_rep rep sh' vss'" "same_flags ?sh sh'" "staging c' = staging c" "cbatch c' = cbatch c"
        "scanned (flags ?sh) (mx - fin) (set (scan_positions m (of_nat (length (slots ?sh))) cur)) vss vss' seen"
        "handed f seen s r' fin s''"
        using Suc.IH [OF st Suc.prems(2,3) ne, of "c\<lparr>cursor := cur\<rparr>"] by auto
      have "drain_scan B (Suc m) mx fin sh c f s = Some (r', sh', c', s'')"
        using d(1) ok(2) k0 i False nx IH(1) by (simp add: Let_def try_acquire_def)
      moreover have "scanned (flags sh) (mx - fin) (set (scan_positions (Suc m) ?len (cursor c))) vss vss' seen"
        using IH(6) True unfolding ps same_flags_flags [OF s(2)] s(3) by (intro scanned_insert) auto
      ultimately show ?thesis using IH(2,4,5,7) same_flags_trans [OF s(2) IH(3)]
        by (intro exI [of _ r'] exI [of _ sh'] exI [of _ c'] exI [of _ s''] exI [of _ vss'] exI [of _ seen]) simp
    next
      case ne: False
      then have k: "0 < k" using d(4) by simp
      let ?c = "if ok then c\<lparr>cursor := cursor_prefer cur\<rparr> else c\<lparr>cursor := cur\<rparr>"
      let ?r = "if ok then Return (fin + k) else Unwind"
      have "drain_scan B (Suc m) mx fin sh c f s = Some (?r, ?sh, ?c, s')"
        using d(1) ok(2) k i False nx by (cases ok) (simp_all add: Let_def try_acquire_def)
      moreover have "scanned (flags sh) (mx - fin) P vss (vss[?i := drop k (vss ! ?i)]) (take k (vss ! ?i))" for P
        using d(3) i lv fl False k by (intro scannedI) simp_all
      moreover have "handed f (take k (vss ! ?i)) s ?r fin s'"
        using ok(1) d(3) unfolding handed_def by (intro exI [of _ ok]) simp
      ultimately show ?thesis using s(1,2)
        by (intro exI [of _ ?r] exI [of _ ?sh] exI [of _ ?c] exI [of _ s'] exI [of _ "vss[?i := drop k (vss ! ?i)]"]
            exI [of _ "take k (vss ! ?i)"]) simp
    qed
  qed
qed


lemma drain_spec:
  assumes "slots_rep rep sh vss" "batch_rep (staging c) st"
  shows "\<exists>r sh' c' s' vss' st' seen1 seen2. Brokerless.drain B sh c mx f s = Some (r, sh', c', s')
     \<and> slots_rep rep sh' vss' \<and> same_flags sh sh' \<and> batch_rep (staging c') st' \<and> st = seen1 @ st'
     \<and> handed f (seen1 @ seen2) s r 0 s' \<and> length (seen1 @ seen2) \<le> unat mx
     \<and> (if st' = [] \<and> length st < unat mx \<and> fst (snd (feed f st s))
        then scanned (flags sh) (unat mx - length st) {0..<length (slots sh)} vss vss' seen2
        else seen2 = [] \<and> vss' = vss)"
proof -
  obtain k ok s1 where fd: "feed f (take (unat mx) st) s = (k, ok, s1)" by (cases "feed f (take (unat mx) st) s")
  obtain b where b: "drain_staged (unat mx) 0 (staging c) f s = Some (ok, 0 + (if ok then k else k - 1), b, s1)"
    "batch_rep b (drop k st)"
    using drain_staged_spec [OF assms(2) fd, of 0] by blast
  have kl: "k \<le> length (take (unat mx) st)" using feed_le [of f "take (unat mx) st" s] fd by simp
  then have fk: "feed f (take k st) s = (k, ok, s1)" using feed_seen [OF fd] by (simp add: min_def split: if_splits)
  have full: "ok \<Longrightarrow> k = min (length st) (unat mx)" using feed_all [of f "take (unat mx) st" s] fd by (simp add: min.commute)
  show ?thesis
  proof (cases "ok \<and> k < unat mx")
    case True
    then have k: "k = length st" "length st < unat mx" using full by auto
    let ?c = "c\<lparr>staging := b\<rparr>"
    have ne: "slots sh \<noteq> [] \<or> length (slots sh) = 0" by simp
    have mx: "unat mx < 2 ^ 64" using unsigned_less [where ?'a = nat, of mx] by simp
    obtain r sh' c' s' vss' seen where d: "drain_scan B (length (slots sh)) (unat mx) k sh ?c f s1 = Some (r, sh', c', s')"
      "slots_rep rep sh' vss'" "same_flags sh sh'" "staging c' = b" "cbatch c' = cbatch c"
      "scanned (flags sh) (unat mx - k) (set (scan_positions (length (slots sh)) (of_nat (length (slots sh))) (cursor ?c))) vss vss' seen"
      "handed f seen s1 r k s'"
      using drain_scan_spec [OF assms(1) _ mx ne, of k ?c f s1] True by auto
    have cover: "set (scan_positions (length (slots sh)) (of_nat (length (slots sh))) (cursor ?c)) = {0..<length (slots sh)}"
    proof (cases "slots sh = []")
      case False
      then show ?thesis using assms(1) by (intro full_scan_covers) (auto simp: slots_rep_def)
    qed simp
    have "Brokerless.drain B sh c mx f s = Some (r, sh', c', s')"
      using b(1) True d(1) by (simp add: Brokerless.drain_def)
    moreover have "handed f (st @ seen) s r 0 s'"
    proof -
      obtain ok2 where o: "feed f seen s1 = (length seen, ok2, s')" "r = (if ok2 then Return (k + length seen) else Unwind)"
        using d(7) by (auto simp: handed_def)
      have "feed f st s = (k, True, s1)" using fk k True by simp
      then have "feed f (st @ seen) s = (length (st @ seen), ok2, s')"
        using o(1) k(1) by (simp only: feed_append if_True fst_conv snd_conv length_append)
      then show ?thesis using o(2) k(1) by (simp only: handed_def) auto
    qed
    moreover have "length (st @ seen) \<le> unat mx" using d(6) k by (auto simp: scanned_def)
    moreover have "fst (snd (feed f st s))" using fk k True by simp
    ultimately show ?thesis using d(2-4,6) b(2) k cover
      by - (rule exI [of _ r], rule exI [of _ sh'], rule exI [of _ c'], rule exI [of _ s'], rule exI [of _ vss'], rule exI [of _ "[]"], rule exI [of _ st], rule exI [of _ seen], simp)
  next
    case False
    let ?r = "if ok then Return k else Unwind"
    have e: "Brokerless.drain B sh c mx f s = Some (?r, sh, c\<lparr>staging := b\<rparr>, s1)"
      using b(1) False by (cases ok) (simp_all add: Brokerless.drain_def Let_def)
    have h: "handed f (take k st @ []) s ?r 0 s1" using fk kl by (auto simp: handed_def)
    have nf: "\<not> (drop k st = [] \<and> length st < unat mx \<and> fst (snd (feed f st s)))"
      using False fk kl by auto
    show ?thesis using e h nf b(2) assms(1) kl
      by - (rule exI [of _ ?r], rule exI [of _ sh], rule exI [of _ "c\<lparr>staging := b\<rparr>"], rule exI [of _ s1], rule exI [of _ vss], rule exI [of _ "drop k st"], rule exI [of _ "take k st"], rule exI [of _ "[]"], auto)
  qed
qed

end

section \<open>Properties of the operations\<close>

text \<open>
  \<open>Consumer::try_recv\<close> first serves what it has staged, oldest first. Otherwise it takes a FIFO
  prefix, at most a batch, of one ring that no other consumer holds, and it reports nothing only
  after it has found every such ring empty. Rings claimed by others, and all claim flags, are as
  before the call; no value is destroyed.
\<close>

theorem mpmc_try_recv:
  fixes sh :: "'a Ring BShared"
  assumes "slots_rep ring_rep sh vss" "batch_rep (staging c) st" "cbatch c \<noteq> 0"
  shows "\<exists>v sh' c' vss' st'. try_recv (ring_backend :: ('a Ring, 'a, 's) Backend) sh c = Some (v, [], sh', c')
     \<and> slots_rep ring_rep sh' vss' \<and> flags sh' = flags sh \<and> batch_rep (staging c') st'
     \<and> (if st \<noteq> [] then v = Some (hd st) \<and> st' = tl st \<and> vss' = vss
        else \<exists>got. scanned (flags sh) (unat (cbatch c)) {0..<length (slots sh)} vss vss' got
           \<and> v = (case got of [] \<Rightarrow> None | x # _ \<Rightarrow> Some x) \<and> st' = tl got)"
proof -
  obtain v sh' c' vss' st' where r: "try_recv (ring_backend :: ('a Ring, 'a, 's) Backend) sh c = Some (v, [], sh', c')"
    "slots_rep ring_rep sh' vss'" "same_flags sh sh'" "batch_rep (staging c') st'"
    "if st \<noteq> [] then v = Some (hd st) \<and> st' = tl st \<and> vss' = vss
        else \<exists>got. scanned (flags sh) (unat (cbatch c)) {0..<length (slots sh)} vss vss' got
           \<and> v = (case got of [] \<Rightarrow> None | x # _ \<Rightarrow> Some x) \<and> st' = tl got"
    using ring_bk.try_recv_spec [OF assms] by (elim exE conjE) (rule that)
  show ?thesis using r(1,2,4,5) same_flags_flags [OF r(3)] by blast
qed

lemma those_replicate_Some: "those (replicate n (Some x)) = Some (replicate n x)"
  by (induction n) auto

lemma brokerless_open_rep:
  fixes B :: "('q, 'a, 's) Backend"
  assumes "bk_channel B capacity = Some q" "rep q []"
  obtains sh where "brokerless_open B n capacity = Some (sh, \<lparr>cursor = cursor_new 0, staging = batch_new, cbatch = 64\<rparr>)"
    "slots_rep rep sh (replicate (unat n) [])" "flags sh = replicate (unat n) False"
    "live_producers sh = n" "live_consumers sh = 1"
proof -
  let ?sh = "\<lparr>slots = map (\<lambda>q. \<lparr>claimed = False, rx = q\<rparr>) (replicate (unat n) q), live_producers = n, live_consumers = 1\<rparr>"
  have n: "unat n < 2 ^ 64" using unsigned_less [where ?'a = nat, of n] by simp
  show thesis
  proof (rule that [of ?sh])
    show "brokerless_open B n capacity = Some (?sh, \<lparr>cursor = cursor_new 0, staging = batch_new, cbatch = 64\<rparr>)"
      using assms(1) by (simp add: brokerless_open_def those_replicate_Some)
    show "slots_rep rep ?sh (replicate (unat n) [])" using assms(2) n by (simp add: slots_rep_def)
  qed (simp_all add: flags_def map_replicate_const)
qed

lemma ring_rep_cap_pos: "ring_rep r vs \<Longrightarrow> 0 < unat (cap r)"
  by (elim ring_repE) (simp add: ring_at_cap)

text \<open>Two rings, one of which holds a value.\<close>

lemma two_rings: "\<exists>sh. slots_rep ring_rep sh [[], ''x''] \<and> flags sh = [False, False]"
proof -
  obtain q :: "char Ring" where q: "ring 4 = Some q" using ring_defined [of 4] by auto
  have qb: "bk_channel (ring_backend :: (char Ring, char, unit) Backend) 4 = Some q" using q by simp
  obtain sh0 :: "char Ring BShared" where sh0: "slots_rep ring_rep sh0 (replicate (unat (2::usize)) [])" "flags sh0 = replicate (unat (2::usize)) False"
    by (rule brokerless_open_rep [where rep = ring_rep and n = 2, OF qb ring_rep_new [OF q]]) (rule that)
  have rp: "replicate (unat (2::usize)) x = [x, x]" for x :: 'z
  proof -
    have "unat (2::usize) = Suc (Suc 0)" by simp
    then show ?thesis by (simp only: replicate.simps)
  qed
  note sh0 = sh0 [unfolded rp]
  have l: "length (slots sh0) = 2" using sh0(1) by (simp add: slots_rep_def)
  have r0: "ring_rep (rx (slots sh0 ! 1)) []" using sh0(1) by (auto simp: slots_rep_def)
  then have "ring_accepts (ring_ctl (rx (slots sh0 ! 1))) ([] :: char list)"
    using ring_rep_cap_pos [OF r0] by (simp add: ring_accepts_def ring_ctl_def)
  then obtain sh where sh: "slots_rep ring_rep sh [[], ''x'']" "same_flags sh0 sh"
    using ring_bk.producer_try_send_spec [OF sh0(1), of 1 "CHR ''x''"] l by auto
  then show ?thesis using same_flags_flags [OF sh(2)] sh0(2) by auto
qed

lemma scanned_two_rings:
  assumes "scanned [False, False] (Suc n) {0..<2} [[], [x]] vss' got"
  shows "got = [x]"
  using assms unfolding scanned_def
  by (auto simp: less_Suc_eq numeral_2_eq_2 take_Cons' dest: bspec [of _ _ "Suc 0"])

lemma mpmc_try_recv_witness:
  "\<exists>(sh :: char Ring BShared) c v sh' c'. slots_rep ring_rep sh [[], ''x''] \<and> batch_rep (staging c) [] \<and> cbatch c \<noteq> 0
     \<and> try_recv (ring_backend :: (char Ring, char, unit) Backend) sh c = Some (v, [], sh', c') \<and> v = Some CHR ''x''"
proof -
  obtain sh :: "char Ring BShared" where sh: "slots_rep ring_rep sh [[], ''x'']" "flags sh = [False, False]"
    using two_rings by blast
  let ?c = "\<lparr>cursor = cursor_new 0, staging = batch_new, cbatch = 64\<rparr> :: char BConsumer"
  have ls: "length (slots sh) = 2" using sh(1) by (simp add: slots_rep_def)
  obtain v sh' c' vss' got where t: "try_recv (ring_backend :: (char Ring, char, unit) Backend) sh ?c = Some (v, [], sh', c')"
    "scanned (flags sh) (unat (cbatch ?c)) {0..<length (slots sh)} [[], ''x''] vss' got" "v = (case got of [] \<Rightarrow> None | x # _ \<Rightarrow> Some x)"
    using mpmc_try_recv [where ?'s = unit, OF sh(1), of ?c "[]"] by auto
  then have g: "scanned [False, False] (Suc 63) {0..<2} [[], ''x''] vss' got" "v = (case got of [] \<Rightarrow> None | x # _ \<Rightarrow> Some x)"
    unfolding ls sh(2) by auto
  have "v = Some CHR ''x''" using scanned_two_rings [OF g(1)] g(2) by simp
  then show ?thesis using sh(1) t(1)
    by - (rule exI [of _ sh], rule exI [of _ ?c], rule exI [of _ v], rule exI [of _ sh'], rule exI [of _ c'], simp)
qed

text \<open>
  C18. \<open>Consumer::drain\<close> hands user code the staged values in order and then a FIFO prefix of one
  unclaimed ring, at most \<open>max\<close> in all. Whether user code returns or panics, exactly the values it was
  handed are gone from the consumer and the rings, and every claim flag is as before the call, so
  a panic never leaves a ring claimed.
\<close>

theorem mpmc_drain_unwind_safe:
  fixes sh :: "'a Ring BShared"
  assumes "slots_rep ring_rep sh vss" "batch_rep (staging c) st"
  shows "\<exists>r sh' c' s' vss' st' seen1 seen2. drain ring_backend sh c mx f s = Some (r, sh', c', s')
     \<and> slots_rep ring_rep sh' vss' \<and> flags sh' = flags sh \<and> batch_rep (staging c') st' \<and> st = seen1 @ st'
     \<and> handed f (seen1 @ seen2) s r 0 s' \<and> length (seen1 @ seen2) \<le> unat mx
     \<and> (if st' = [] \<and> length st < unat mx \<and> fst (snd (feed f st s))
        then scanned (flags sh) (unat mx - length st) {0..<length (slots sh)} vss vss' seen2
        else seen2 = [] \<and> vss' = vss)"
proof -
  obtain r sh' c' s' vss' st' seen1 seen2 where r: "drain ring_backend sh c mx f s = Some (r, sh', c', s')"
     "slots_rep ring_rep sh' vss'" "same_flags sh sh'" "batch_rep (staging c') st'" "st = seen1 @ st'"
     "handed f (seen1 @ seen2) s r 0 s'" "length (seen1 @ seen2) \<le> unat mx"
     "if st' = [] \<and> length st < unat mx \<and> fst (snd (feed f st s))
        then scanned (flags sh) (unat mx - length st) {0..<length (slots sh)} vss vss' seen2
        else seen2 = [] \<and> vss' = vss"
    using ring_bk.drain_spec [OF assms, of mx f s] by (elim exE conjE) (rule that)
  show ?thesis using r(1,2,4-8) same_flags_flags [OF r(3)] by blast
qed

lemma mpmc_drain_unwind_safe_witness:
  "\<exists>(sh :: char Ring BShared) c r sh' c' s' vss'. slots_rep ring_rep sh [[], ''x''] \<and> batch_rep (staging c) []
     \<and> drain ring_backend sh c 5 (\<lambda>v s. (False, v # s)) [] = Some (r, sh', c', s')
     \<and> slots_rep ring_rep sh' vss' \<and> flags sh' = [False, False] \<and> r = Unwind \<and> s' = ''x''"
proof -
  obtain sh :: "char Ring BShared" where sh: "slots_rep ring_rep sh [[], ''x'']" "flags sh = [False, False]"
    using two_rings by blast
  let ?c = "\<lparr>cursor = cursor_new 0, staging = batch_new, cbatch = 64\<rparr> :: char BConsumer"
  let ?f = "\<lambda>v s. (False, v # s)"
  have ls: "length (slots sh) = 2" using sh(1) by (simp add: slots_rep_def)
  have b: "batch_rep (staging ?c) []" by simp
  obtain r sh' c' s' vss' seen2 where d: "drain ring_backend sh ?c 5 ?f [] = Some (r, sh', c', s')"
    "slots_rep ring_rep sh' vss'" "flags sh' = flags sh" "handed ?f seen2 [] r 0 s'"
    "scanned (flags sh) (unat (5 :: usize) - 0) {0..<length (slots sh)} [[], ''x''] vss' seen2"
    using mpmc_drain_unwind_safe [OF sh(1) b, of 5 ?f "[]"] by auto
  then have "scanned [False, False] (Suc 4) {0..<2} [[], ''x''] vss' seen2" unfolding ls sh(2) by simp
  from scanned_two_rings [OF this] have "r = Unwind" "s' = ''x''" using d(4) by (auto simp: handed_def)
  then show ?thesis using sh b d(1-3)
    by - (rule exI [of _ sh], rule exI [of _ ?c], rule exI [of _ r], rule exI [of _ sh'], rule exI [of _ c'],
        rule exI [of _ s'], rule exI [of _ vss'], simp)
qed

text \<open>What the rest of the program may do during a pause: anything that keeps the slots well formed.\<close>

definition env_ok :: "('q BShared \<Rightarrow> 'a list list \<Rightarrow> bool) \<Rightarrow> ('q BShared \<Rightarrow> 'q BShared) \<Rightarrow> bool" where
  "env_ok R env \<longleftrightarrow> (\<forall>sh vss. R sh vss \<longrightarrow> (\<exists>vss'. R (env sh) vss' \<and> length vss' = length vss))"

lemma ring_send_round:
  fixes sh :: "'a Ring BShared"
  assumes "slots_rep ring_rep sh vss" "i < length vss"
    and "\<And>sh' vss'. producer_try_send (ring_backend :: ('a Ring, 'a, 's) Backend) sh i v = Some (Ok (), sh')
       \<Longrightarrow> slots_rep ring_rep sh' vss' \<Longrightarrow> length vss' = length vss \<Longrightarrow> vss' ! i \<noteq> [] \<Longrightarrow> last (vss' ! i) = v \<Longrightarrow> P"
    and "\<And>sh' vss'. producer_try_send (ring_backend :: ('a Ring, 'a, 's) Backend) sh i v = Some (Err v, sh')
       \<Longrightarrow> slots_rep ring_rep sh' vss' \<Longrightarrow> length vss' = length vss
       \<Longrightarrow> length (vss' ! i) = unat (cap (rx (slots sh' ! i))) \<Longrightarrow> P"
  shows P
proof -
  have i: "i < length (slots sh)" using assms(1,2) by (simp add: slots_rep_def)
  have r: "ring_rep (rx (slots sh ! i)) (vss ! i)" using assms(1,2) by (simp add: slots_rep_def)
  obtain q where q: "try_push (rx (slots sh ! i)) v = Some (if length (vss ! i) < unat (cap (rx (slots sh ! i))) then Ok () else Err v, q)"
    "ring_rep q (if length (vss ! i) < unat (cap (rx (slots sh ! i))) then vss ! i @ [v] else vss ! i)" "same_ctl (rx (slots sh ! i)) q"
    using ring_rep_try_push [OF r, of v] by blast
  let ?sh = "set_slot i ((slots sh ! i)\<lparr>rx := q\<rparr>) sh"
  have s: "slots_rep ring_rep ?sh (vss[i := if length (vss ! i) < unat (cap (rx (slots sh ! i))) then vss ! i @ [v] else vss ! i])"
    using set_slot_rep [OF assms(1) i, of "(slots sh ! i)\<lparr>rx := q\<rparr>"] q(2) by simp
  have e: "producer_try_send (ring_backend :: ('a Ring, 'a, 's) Backend) sh i v
      = Some (if length (vss ! i) < unat (cap (rx (slots sh ! i))) then Ok () else Err v, ?sh)"
    using q(1) i by (simp add: producer_try_send_def)
  show P
  proof (cases "length (vss ! i) < unat (cap (rx (slots sh ! i)))")
    case True
    show P by (rule assms(3) [of ?sh "vss[i := vss ! i @ [v]]"]) (use True e s assms(2) in auto)
  next
    case False
    have "rx (slots ?sh ! i) = q" using i by (simp add: set_slot_def)
    moreover have "length (vss ! i) = unat (cap q)" using False q(3) ring_rep_bound [OF r] by (simp add: same_ctl_def)
    ultimately show P by (intro assms(4) [of ?sh vss]) (use False e s in simp_all)
  qed
qed

text \<open>
  \<open>Producer::send\<close> never spins forever with nobody left to drain: it gives the value up only when
  its ring is full and no consumer is alive, and it reports success only when the value is the
  newest in its ring.
\<close>

theorem mpmc_send_outcome:
  fixes sh :: "'a Ring BShared"
  assumes "slots_rep ring_rep sh vss" "i < length vss" "\<And>env. env \<in> set envs \<Longrightarrow> env_ok (slots_rep ring_rep) env"
  shows "\<exists>r sh' vss'. producer_send (ring_backend :: ('a Ring, 'a, 's) Backend) envs sh i v = Some (r, sh')
     \<and> slots_rep ring_rep sh' vss' \<and> length vss' = length vss
     \<and> (r = Done True \<longrightarrow> vss' ! i \<noteq> [] \<and> last (vss' ! i) = v)
     \<and> (r = Done False \<longrightarrow> live_consumers sh' = 0 \<and> length (vss' ! i) = unat (cap (rx (slots sh' ! i))))
     \<and> (r = Spinning \<longrightarrow> live_consumers sh' \<noteq> 0)"
  using assms
proof (induction envs arbitrary: sh vss)
  case Nil
  show ?case
  proof (rule ring_send_round [OF Nil.prems(1,2), of v])
    fix sh' vss' assume "producer_try_send (ring_backend :: ('a Ring, 'a, 's) Backend) sh i v = Some (Err v, sh')"
      "slots_rep ring_rep sh' vss'" "length vss' = length vss" "length (vss' ! i) = unat (cap (rx (slots sh' ! i)))"
    then show ?case by (cases "live_consumers sh' = 0") (auto intro!: exI [of _ vss'])
  qed (auto intro!: exI)
next
  case (Cons env envs)
  show ?case
  proof (rule ring_send_round [OF Cons.prems(1,2), of v])
    fix sh' vss' assume f: "producer_try_send (ring_backend :: ('a Ring, 'a, 's) Backend) sh i v = Some (Err v, sh')"
      "slots_rep ring_rep sh' vss'" "length vss' = length vss" "length (vss' ! i) = unat (cap (rx (slots sh' ! i)))"
    show ?case
    proof (cases "live_consumers sh' = 0")
      case True
      then show ?thesis using f by (auto intro!: exI [of _ vss'])
    next
      case False
      have "env_ok (slots_rep ring_rep :: 'a Ring BShared \<Rightarrow> _) env" using Cons.prems(3) by simp
      then obtain vs2 where e: "slots_rep ring_rep (env sh') vs2" "length vs2 = length vss"
        using f(2,3) unfolding env_ok_def by metis
      have i2: "i < length vs2" using e(2) Cons.prems(2) by simp
      have "\<exists>r sh'' vss''. producer_send (ring_backend :: ('a Ring, 'a, 's) Backend) envs (env sh') i v = Some (r, sh'')
         \<and> slots_rep ring_rep sh'' vss'' \<and> length vss'' = length vs2
         \<and> (r = Done True \<longrightarrow> vss'' ! i \<noteq> [] \<and> last (vss'' ! i) = v)
         \<and> (r = Done False \<longrightarrow> live_consumers sh'' = 0 \<and> length (vss'' ! i) = unat (cap (rx (slots sh'' ! i))))
         \<and> (r = Spinning \<longrightarrow> live_consumers sh'' \<noteq> 0)"
        using Cons.prems(3) by (intro Cons.IH [OF e(1) i2]) simp
      then show ?thesis using f(1) False e(2) by (simp del: producer_send.simps add: producer_send.simps [of _ "env # envs"])
    qed
  qed (auto intro!: exI)
qed

lemma mpmc_send_outcome_witness:
  "\<exists>(sh :: char Ring BShared) r sh' vss'. slots_rep ring_rep sh [[], ''x'']
     \<and> producer_send (ring_backend :: (char Ring, char, unit) Backend) [] sh 0 CHR ''y'' = Some (r, sh')
     \<and> slots_rep ring_rep sh' vss' \<and> (r = Done True \<longrightarrow> last (vss' ! 0) = CHR ''y'')"
proof -
  obtain sh :: "char Ring BShared" where sh: "slots_rep ring_rep sh [[], ''x'']" using two_rings by blast
  show ?thesis using mpmc_send_outcome [where ?'s = unit, OF sh, of 0 "[]" "CHR ''y''"] sh by auto
qed

end
