(* ===== verification/Mpmc_Conc.thy ===== *)
theory Mpmc_Conc
  imports Brokerless
begin

text \<open>
  Competing consumers of the brokerless topology (\<open>src/src/mpmc/brokerless/mod.rs\<close>).

  Any number of consumers interleaved at the granularity of the claim protocol: a consumer wins a
  flag, drains the ring behind it, releases the flag. The log records which consumer moved which
  values out of which ring, in order.
\<close>

datatype claim_pc = Free | Holding nat | Drained nat

record ('q, 'a) Mpmc =
  msh :: "'q BShared"
  mpc :: "nat \<Rightarrow> claim_pc"
  mst :: "nat \<Rightarrow> 'a Batch"
  accepted :: "nat \<Rightarrow> 'a list"
  dlog :: "(nat \<times> nat \<times> 'a list) list"
  popped :: "nat \<Rightarrow> 'a list"

definition mpmc_init :: "'q BShared \<Rightarrow> ('q, 'a) Mpmc" where
  "mpmc_init sh = \<lparr>msh = sh, mpc = (\<lambda>_. Free), mst = (\<lambda>_. batch_new), accepted = (\<lambda>_. []), dlog = [], popped = (\<lambda>_. [])\<rparr>"

inductive mpmc_step :: "('q, 'a, 's) Backend \<Rightarrow> ('q, 'a) Mpmc \<Rightarrow> ('q, 'a) Mpmc \<Rightarrow> bool" for B where
  m_send: "i < length (slots (msh s)) \<Longrightarrow> producer_try_send B (msh s) i v = Some (r, sh')
    \<Longrightarrow> mpmc_step B s (s\<lparr>msh := sh', accepted := (accepted s)(i := accepted s i @ (case r of Ok _ \<Rightarrow> [v] | Err _ \<Rightarrow> []))\<rparr>)"
| m_claim: "mpc s c = Free \<Longrightarrow> i < length (slots (msh s)) \<Longrightarrow> try_acquire (slots (msh s) ! i) = Some sl
    \<Longrightarrow> mpmc_step B s (s\<lparr>msh := set_slot i sl (msh s), mpc := (mpc s)(c := Holding i)\<rparr>)"
| m_drain: "mpc s c = Holding i \<Longrightarrow> i < length (slots (msh s))
    \<Longrightarrow> bk_drain_into B (rx (slots (msh s) ! i)) mx (mst s c) = Some (n, q, st)
    \<Longrightarrow> batch_as_slice st = Some ws \<Longrightarrow> batch_as_slice (mst s c) = Some vs
    \<Longrightarrow> mpmc_step B s (s\<lparr>msh := set_slot i ((slots (msh s) ! i)\<lparr>rx := q\<rparr>) (msh s),
          mpc := (mpc s)(c := Drained i), mst := (mst s)(c := st), dlog := dlog s @ [(i, c, drop (length vs) ws)]\<rparr>)"
| m_release: "mpc s c = Drained i \<Longrightarrow> i < length (slots (msh s))
    \<Longrightarrow> mpmc_step B s (s\<lparr>msh := set_slot i (release_claim (slots (msh s) ! i)) (msh s), mpc := (mpc s)(c := Free)\<rparr>)"
| m_pop: "batch_pop_front (mst s c) = Some (Some v, st)
    \<Longrightarrow> mpmc_step B s (s\<lparr>mst := (mst s)(c := st), popped := (popped s)(c := popped s c @ [v])\<rparr>)"

inductive mpmc_reach :: "('q, 'a, 's) Backend \<Rightarrow> 'q BShared \<Rightarrow> ('q, 'a) Mpmc \<Rightarrow> bool" for B sh where
  mr_init: "mpmc_reach B sh (mpmc_init sh)"
| mr_step: "mpmc_reach B sh s \<Longrightarrow> mpmc_step B s s' \<Longrightarrow> mpmc_reach B sh s'"

definition taken_from :: "('q, 'a) Mpmc \<Rightarrow> nat \<Rightarrow> 'a list" where
  "taken_from s i = concat (map (\<lambda>(_, _, vs). vs) (filter (\<lambda>(j, _, _). j = i) (dlog s)))"

definition given_to :: "('q, 'a) Mpmc \<Rightarrow> nat \<Rightarrow> 'a list" where
  "given_to s c = concat (map (\<lambda>(_, _, vs). vs) (filter (\<lambda>(_, d, _). d = c) (dlog s)))"

definition at_ring :: "claim_pc \<Rightarrow> nat \<Rightarrow> bool" where
  "at_ring p i \<longleftrightarrow> p = Holding i \<or> p = Drained i"

definition mpmc_inv :: "('q \<Rightarrow> 'a list \<Rightarrow> bool) \<Rightarrow> ('q, 'a) Mpmc \<Rightarrow> bool" where
  "mpmc_inv rep s \<longleftrightarrow>
     (\<exists>vss sts. slots_rep rep (msh s) vss \<and> (\<forall>c. batch_rep (mst s c) (sts c))
        \<and> (\<forall>i<length vss. accepted s i = taken_from s i @ vss ! i)
        \<and> (\<forall>c. given_to s c = popped s c @ sts c))
     \<and> (\<forall>i c d. at_ring (mpc s c) i \<longrightarrow> at_ring (mpc s d) i \<longrightarrow> c = d)
     \<and> (\<forall>i c. at_ring (mpc s c) i \<longrightarrow> i < length (slots (msh s)) \<and> claimed (slots (msh s) ! i))"

lemma slots_rep_set:
  assumes "slots_rep rep sh vss" "i < length (slots sh)" "rep (rx s) vs"
  shows "slots_rep rep (set_slot i s sh) (vss[i := vs])"
  using assms by (auto simp: slots_rep_def set_slot_def nth_list_update)

lemma mpmc_invI:
  assumes "slots_rep rep (msh s) vss" "\<And>c. batch_rep (mst s c) (sts c)"
    "\<And>i. i < length vss \<Longrightarrow> accepted s i = taken_from s i @ vss ! i" "\<And>c. given_to s c = popped s c @ sts c"
    "\<And>i c d. at_ring (mpc s c) i \<Longrightarrow> at_ring (mpc s d) i \<Longrightarrow> c = d"
    "\<And>i c. at_ring (mpc s c) i \<Longrightarrow> i < length (slots (msh s)) \<and> claimed (slots (msh s) ! i)"
  shows "mpmc_inv rep s"
  unfolding mpmc_inv_def using assms by blast

lemma log_snoc:
  assumes "dlog s' = dlog s @ [(i, c, vs)]"
  shows "taken_from s' j = taken_from s j @ (if j = i then vs else [])"
    "given_to s' d = given_to s d @ (if d = c then vs else [])"
  using assms by (simp_all add: taken_from_def given_to_def)

lemma log_same: "dlog s' = dlog s \<Longrightarrow> taken_from s' = taken_from s" "dlog s' = dlog s \<Longrightarrow> given_to s' = given_to s"
  by (simp_all add: taken_from_def given_to_def fun_eq_iff)

context spsc_backend
begin

lemma mpmc_step_inv:
  assumes "mpmc_step B s s'" "mpmc_inv rep s"
  shows "mpmc_inv rep s'"
proof -
  obtain vss sts where v: "slots_rep rep (msh s) vss" "\<And>c. batch_rep (mst s c) (sts c)"
    "\<And>i. i < length vss \<Longrightarrow> accepted s i = taken_from s i @ vss ! i" "\<And>c. given_to s c = popped s c @ sts c"
    using assms(2) by (auto simp: mpmc_inv_def)
  have ex: "\<And>i c d. at_ring (mpc s c) i \<Longrightarrow> at_ring (mpc s d) i \<Longrightarrow> c = d"
    "\<And>i c. at_ring (mpc s c) i \<Longrightarrow> i < length (slots (msh s)) \<and> claimed (slots (msh s) ! i)"
    using assms(2) by (auto simp: mpmc_inv_def)
  have lv: "length vss = length (slots (msh s))" using v(1) by (simp add: slots_rep_def)
  have rp: "rep (rx (slots (msh s) ! i)) (vss ! i)" if "i < length (slots (msh s))" for i
    using v(1) that by (simp add: slots_rep_def)
  show ?thesis
    using assms(1)
  proof (cases rule: mpmc_step.cases)
    case (m_send i x r sh')
    let ?a = "accepts (ctl (rx (slots (msh s) ! i))) (vss ! i)"
    obtain sh2 where "producer_try_send B (msh s) i x = Some (if ?a then Ok () else Err x, sh2)"
      "slots_rep rep sh2 (if ?a then vss[i := vss ! i @ [x]] else vss)" "same_flags (msh s) sh2"
      using producer_try_send_spec [OF v(1) m_send(2)] by blast
    then have q: "r = (if ?a then Ok () else Err x)"
      "slots_rep rep sh' (if ?a then vss[i := vss ! i @ [x]] else vss)" "same_flags (msh s) sh'"
      using m_send(3) by auto
    show ?thesis
    proof (rule mpmc_invI [where vss = "if ?a then vss[i := vss ! i @ [x]] else vss" and sts = sts])
      show "accepted s' j = taken_from s' j @ (if ?a then vss[i := vss ! i @ [x]] else vss) ! j"
        if "j < length (if ?a then vss[i := vss ! i @ [x]] else vss)" for j
        using that v(3) [of j] m_send(1) q(1) log_same(1) [of s' s] by (auto simp: nth_list_update split: if_splits)
      show "\<And>i c. at_ring (mpc s' c) i \<Longrightarrow> i < length (slots (msh s')) \<and> claimed (slots (msh s') ! i)"
        using ex(2) m_send(1) same_flags_nth [OF q(3)] same_flags_length [OF q(3)] by simp
    qed (use v ex m_send(1) q(2) log_same(2) [of s' s] in auto)
  next
    case (m_claim c i sl)
    have sl: "sl = (slots (msh s) ! i)\<lparr>claimed := True\<rparr>" "\<not> claimed (slots (msh s) ! i)"
      using m_claim(4) by (auto simp: try_acquire_def split: if_splits)
    have n: "\<not> at_ring (mpc s d) i" for d using ex(2) [of d i] sl(2) by blast
    have "slots_rep rep (set_slot i sl (msh s)) (vss[i := vss ! i])"
      using rp [OF m_claim(3)] sl(1) by (intro slots_rep_set [OF v(1) m_claim(3)]) simp
    then have "slots_rep rep (msh s') vss" using m_claim(1) by simp
    then show ?thesis
      using v(2-4) m_claim(1) log_same [of s' s] ex n sl m_claim(3)
      by (intro mpmc_invI [where vss = vss and sts = sts])
        (auto simp: at_ring_def set_slot_def nth_list_update split: if_splits)
  next
    case (m_drain c i mx n q st ws vs)
    obtain n' q' st' where d: "bk_drain_into B (rx (slots (msh s) ! i)) mx (mst s c) = Some (n', q', st')"
      "rep q' (drop n' (vss ! i))" "batch_rep st' (sts c @ take n' (vss ! i))"
      using drain_into [OF rp [OF m_drain(3)] v(2) [of c], of mx] by blast
    have e: "n' = n" "q' = q" "st' = st" using d(1) m_drain(4) by auto
    have ws: "ws = sts c @ take n (vss ! i)" "vs = sts c"
      using batch_as_slice_rep [OF d(3)] batch_as_slice_rep [OF v(2)] m_drain(5,6) e by auto
    have lg: "dlog s' = dlog s @ [(i, c, take n (vss ! i))]" using m_drain(1) ws by simp
    have "slots_rep rep (msh s') (vss[i := drop n (vss ! i)])"
      using slots_rep_set [OF v(1) m_drain(3), of "(slots (msh s) ! i)\<lparr>rx := q\<rparr>" "drop n (vss ! i)"] d(2) e m_drain(1)
      by simp
    moreover have "accepted s' j = taken_from s' j @ vss[i := drop n (vss ! i)] ! j" if "j < length (vss[i := drop n (vss ! i)])" for j
      using v(3) [of j] that m_drain(1) log_snoc(1) [OF lg] by (auto simp: nth_list_update)
    moreover have "given_to s' d = popped s' d @ (sts(c := sts c @ take n (vss ! i))) d" for d
      using v(4) [of d] m_drain(1) log_snoc(2) [OF lg] by auto
    moreover have "batch_rep (mst s' d) ((sts(c := sts c @ take n (vss ! i))) d)" for d
      using v(2) [of d] d(3) e m_drain(1) by simp
    moreover have at: "at_ring (mpc s' d) j \<longleftrightarrow> at_ring (mpc s d) j" for d j
      using m_drain(1,2) by (auto simp: at_ring_def)
    moreover have "j < length (slots (msh s')) \<and> claimed (slots (msh s') ! j)" if "at_ring (mpc s' d) j" for d j
      using ex(2) [of d j] that m_drain(1,3) unfolding at by (auto simp: set_slot_def nth_list_update)
    ultimately show ?thesis using ex(1) by (intro mpmc_invI) (auto simp: at)
  next
    case (m_release c i)
    have "slots_rep rep (set_slot i (release_claim (slots (msh s) ! i)) (msh s)) (vss[i := vss ! i])"
      using rp [OF m_release(3)] by (intro slots_rep_set [OF v(1) m_release(3)]) (simp add: release_claim_def)
    then have sr: "slots_rep rep (msh s') vss" using m_release(1) by simp
    have n: "d = c" if "at_ring (mpc s d) i" for d using ex(1) [OF that, of c] m_release(2) by (simp add: at_ring_def)
    have at: "at_ring (mpc s d) j \<and> d \<noteq> c" if "at_ring (mpc s' d) j" for d j
      using that m_release(1) by (auto simp: at_ring_def split: if_splits)
    have cl: "j < length (slots (msh s')) \<and> claimed (slots (msh s') ! j)" if "at_ring (mpc s' d) j" for d j
    proof -
      have "j \<noteq> i" using at [OF that] n by blast
      then show ?thesis using ex(2) [of d j] at [OF that] m_release(1) by (simp add: set_slot_def)
    qed
    have same: "mst s' = mst s" "accepted s' = accepted s" "popped s' = popped s"
      "taken_from s' = taken_from s" "given_to s' = given_to s"
      using m_release(1) log_same [of s' s] by simp_all
    have "d = e" if "at_ring (mpc s' d) j" "at_ring (mpc s' e) j" for d e j
      using ex(1) at [OF that(1)] at [OF that(2)] by blast
    then show ?thesis
      by (rule mpmc_invI [where vss = vss and sts = sts, OF sr, rotated 3]) (use v(2-4) cl in \<open>auto simp: same\<close>)
  next
    case (m_pop c x st)
    obtain xs where xs: "sts c = x # xs"
      using m_pop(2) batch_pop_front_Nil [of "mst s c"] batch_pop_front_Cons v(2) [of c] by (cases "sts c") fastforce+
    then have b: "batch_rep st xs" using m_pop(2) batch_pop_front_Cons [of "mst s c" x xs] v(2) [of c] by auto
    show ?thesis
      using v ex m_pop(1) log_same [of s' s] b xs
      by (intro mpmc_invI [where vss = vss and sts = "sts(c := xs)"]) auto
  qed
qed

end


lemma mpmc_reach_inv:
  fixes sh :: "'a Ring BShared"
  assumes "mpmc_reach (ring_backend :: ('a Ring, 'a, 's) Backend) sh s" "slots_rep ring_rep sh (replicate n [])"
  shows "mpmc_inv ring_rep s"
  using assms(1)
proof induction
  case mr_init
  show ?case using assms(2)
    by (intro mpmc_invI [where vss = "replicate n []" and sts = "\<lambda>_. []"])
      (auto simp: mpmc_init_def taken_from_def given_to_def at_ring_def)
next
  case (mr_step s s')
  then show ?case using ring_bk.mpmc_step_inv by blast
qed

text \<open>
  C3. However producers and any number of competing consumers interleave, at most one consumer is
  at a ring at a time, and no value is lost, duplicated or reordered: what each ring accepted is, in
  order, what consumers moved out of it followed by what it holds, and what was moved to a consumer
  is, in order, what it has returned followed by what it has staged.
\<close>

theorem mpmc_claims_exclusive_fifo:
  fixes sh :: "'a Ring BShared"
  assumes "mpmc_reach (ring_backend :: ('a Ring, 'a, 's) Backend) sh s" "slots_rep ring_rep sh (replicate n [])"
  shows "(\<forall>i c d. at_ring (mpc s c) i \<longrightarrow> at_ring (mpc s d) i \<longrightarrow> c = d)
     \<and> (\<exists>vss sts. slots_rep ring_rep (msh s) vss \<and> (\<forall>c. batch_rep (mst s c) (sts c))
          \<and> (\<forall>i<length vss. accepted s i = taken_from s i @ vss ! i)
          \<and> (\<forall>c. given_to s c = popped s c @ sts c))"
  using mpmc_reach_inv [OF assms] unfolding mpmc_inv_def by blast

lemma mpmc_claims_exclusive_fifo_witness:
  "\<exists>(sh :: char Ring BShared) s c. mpmc_reach (ring_backend :: (char Ring, char, unit) Backend) sh s
     \<and> slots_rep ring_rep sh (replicate 1 []) \<and> at_ring (mpc s 7) 0 \<and> (at_ring (mpc s c) 0 \<longrightarrow> c = 7)"
proof -
  obtain q :: "char Ring" where q: "ring 4 = Some q" using ring_defined [of 4] by auto
  have qb: "bk_channel (ring_backend :: (char Ring, char, unit) Backend) 4 = Some q" using q by simp
  obtain sh :: "char Ring BShared" where sh: "slots_rep ring_rep sh (replicate (unat (1::usize)) [])"
    "flags sh = replicate (unat (1::usize)) False"
    by (rule brokerless_open_rep [where rep = ring_rep and n = 1, OF qb ring_rep_new [OF q]]) (rule that)
  have one: "unat (1::usize) = 1" by simp
  have sr: "slots_rep ring_rep sh (replicate 1 [])" using sh(1) unfolding one .
  have "flags sh = [False]" using sh(2) by simp
  then have l: "0 < length (slots sh)" "\<not> claimed (slots sh ! 0)" by (auto simp: flags_def)
  let ?s = "(mpmc_init sh)\<lparr>msh := set_slot 0 ((slots sh ! 0)\<lparr>claimed := True\<rparr>) sh, mpc := (\<lambda>_. Free)(7 := Holding 0)\<rparr>"
  have "mpmc_step (ring_backend :: (char Ring, char, unit) Backend) (mpmc_init sh) ?s"
    using m_claim [of "mpmc_init sh" 7 0 "(slots sh ! 0)\<lparr>claimed := True\<rparr>" ring_backend] l
    by (simp add: mpmc_init_def try_acquire_def)
  then have r: "mpmc_reach (ring_backend :: (char Ring, char, unit) Backend) sh ?s" by (rule mr_step [OF mr_init])
  have "at_ring (mpc ?s 7) 0" by (simp add: at_ring_def)
  then show ?thesis using r sr mpmc_claims_exclusive_fifo [OF r sr] by blast
qed

end
