(* ===== verification/Lanes.thy ===== *)
theory Lanes
  imports Brokerless
begin

text \<open>
  Fixed-membership MPMC as a grid of lanes (\<open>src/src/mpmc/lanes.rs\<close>): one SPSC transport for every pair of a
  producer and a consumer. The transports live in a store of numbered lanes, and the endpoints own lane numbers, so
  that the handing over of a dropped consumer's receiving halves through the \<open>abandoned\<close> list is visible. Blocking
  calls are given the list of what the rest of the program does to the shared part during each pause.
\<close>

section \<open>State\<close>

record 'q LShared =
  lgrid :: "'q list"
  l_producers :: usize
  l_consumers :: usize
  abandoned :: "nat list"

record LProducer =
  lp_lanes :: "nat list"
  lp_cursor :: usize

record 'a LConsumer =
  lc_lanes :: "nat list"
  lc_cursor :: usize
  lc_staging :: "'a Batch"
  lc_batch :: usize

text \<open>
  \<open>open\<close>: the two nested loops create the lanes producer by producer, so lane \<open>p * consumers + c\<close> joins producer \<open>p\<close>
  with consumer \<open>c\<close>. A remainder by an empty side is evaluated only when the other side has an endpoint, and panics.
\<close>

definition lanes_open ::
  "('q, 'a, 's) Backend \<Rightarrow> usize \<Rightarrow> usize \<Rightarrow> usize \<Rightarrow> ('q LShared \<times> LProducer list \<times> 'a LConsumer list) option" where
  "lanes_open B producers consumers lane_capacity =
     (let np = unat producers; nc = unat consumers
      in do { qs \<leftarrow> those (replicate (np * nc) (bk_channel B lane_capacity));
              if (np > 0 \<and> nc = 0) \<or> (nc > 0 \<and> np = 0) then None
              else Some (\<lparr>lgrid = qs, l_producers = producers, l_consumers = consumers, abandoned = []\<rparr>,
                         map (\<lambda>p. \<lparr>lp_lanes = map (\<lambda>c. p * nc + c) [0..<nc], lp_cursor = of_nat (p mod nc)\<rparr>) [0..<np],
                         map (\<lambda>c. \<lparr>lc_lanes = map (\<lambda>p. p * nc + c) [0..<np], lc_cursor = of_nat (c mod np),
                                   lc_staging = batch_new, lc_batch = 64\<rparr>) [0..<nc]) })"

definition lane_at :: "'q LShared \<Rightarrow> nat list \<Rightarrow> usize \<Rightarrow> (nat \<times> 'q) option" where
  "lane_at sh ls i =
     (if unat i < length ls \<and> ls ! unat i < length (lgrid sh) then Some (ls ! unat i, lgrid sh ! (ls ! unat i)) else None)"

definition set_lane :: "nat \<Rightarrow> 'q \<Rightarrow> 'q LShared \<Rightarrow> 'q LShared" where
  "set_lane l q sh = sh\<lparr>lgrid := (lgrid sh)[l := q]\<rparr>"

section \<open>Producers\<close>

definition next_lane :: "LProducer \<Rightarrow> usize \<times> LProducer" where
  "next_lane p = (let (i, cur) = rr_next (lp_cursor p) (of_nat (length (lp_lanes p))) in (i, p\<lparr>lp_cursor := cur\<rparr>))"

fun lp_try_send_loop ::
  "('q, 'a, 's) Backend \<Rightarrow> nat \<Rightarrow> 'q LShared \<Rightarrow> LProducer \<Rightarrow> 'a \<Rightarrow> ((unit, 'a) Result \<times> 'q LShared \<times> LProducer) option" where
  "lp_try_send_loop B 0 sh p v = Some (Err v, sh, p)"
| "lp_try_send_loop B (Suc m) sh p v =
     (let (i, p) = next_lane p
      in do { (l, q) \<leftarrow> lane_at sh (lp_lanes p) i;
              (r, q) \<leftarrow> bk_try_push B q v;
              let sh = set_lane l q sh;
              case r of Ok _ \<Rightarrow> Some (Ok (), sh, p) | Err v \<Rightarrow> lp_try_send_loop B m sh p v })"

definition lp_try_send ::
  "('q, 'a, 's) Backend \<Rightarrow> 'q LShared \<Rightarrow> LProducer \<Rightarrow> 'a \<Rightarrow> ((unit, 'a) Result \<times> 'q LShared \<times> LProducer) option" where
  "lp_try_send B sh p v = lp_try_send_loop B (length (lp_lanes p)) sh p v"

fun lp_send ::
  "('q, 'a, 's) Backend \<Rightarrow> ('q LShared \<Rightarrow> 'q LShared) list \<Rightarrow> 'q LShared \<Rightarrow> LProducer \<Rightarrow> 'a
     \<Rightarrow> (bool spin \<times> 'q LShared \<times> LProducer) option" where
  "lp_send B envs sh p v =
     do { (r, sh, p) \<leftarrow> lp_try_send B sh p v;
          case r of Ok _ \<Rightarrow> Some (Done True, sh, p)
          | Err v \<Rightarrow>
              if l_consumers sh = 0 then Some (Done False, sh, p)
              else (case envs of [] \<Rightarrow> Some (Spinning, sh, p)
                    | env # envs \<Rightarrow> lp_send B envs (env sh) p v) }"

text \<open>The inner loop of \<open>send_batch\<close>: lanes in turn until one accepts something.\<close>

fun lp_push_round ::
  "('q, 'a, 's) Backend \<Rightarrow> nat \<Rightarrow> nat \<Rightarrow> 'q LShared \<Rightarrow> LProducer \<Rightarrow> 'a Batch \<Rightarrow> ('q LShared \<times> LProducer \<times> 'a Batch) option" where
  "lp_push_round B 0 before sh p source = Some (sh, p, source)"
| "lp_push_round B (Suc m) before sh p source =
     (let (i, p) = next_lane p
      in do { (l, q) \<leftarrow> lane_at sh (lp_lanes p) i;
              (n, q, source) \<leftarrow> bk_push_from B q (- 1) source;
              let sh = set_lane l q sh;
              if batch_len source \<noteq> before then Some (sh, p, source)
              else lp_push_round B m before sh p source })"

text \<open>\<open>send_batch\<close>: rounds that make progress are not pauses; every one shrinks the batch, which bounds them.\<close>

fun lp_send_batch ::
  "('q, 'a, 's) Backend \<Rightarrow> nat \<Rightarrow> ('q LShared \<Rightarrow> 'q LShared) list \<Rightarrow> 'q LShared \<Rightarrow> LProducer \<Rightarrow> 'a Batch
     \<Rightarrow> (bool spin \<times> 'q LShared \<times> LProducer \<times> 'a Batch) option" where
  "lp_send_batch B 0 envs sh p source = None"
| "lp_send_batch B (Suc fuel) envs sh p source =
     (if batch_is_empty source then Some (Done True, sh, p, source)
      else do { let before = batch_len source;
                (sh, p, source) \<leftarrow> lp_push_round B (length (lp_lanes p)) before sh p source;
                if batch_len source \<noteq> before then lp_send_batch B fuel envs sh p source
                else if l_consumers sh = 0 then Some (Done False, sh, p, source)
                else (case envs of [] \<Rightarrow> Some (Spinning, sh, p, source)
                      | env # envs \<Rightarrow> lp_send_batch B fuel envs (env sh) p source) })"

text \<open>Dropping a producer counts it out and then drops its sending halves.\<close>

fun drop_lanes :: "('q \<Rightarrow> 'q option) \<Rightarrow> nat list \<Rightarrow> 'q LShared \<Rightarrow> 'q LShared option" where
  "drop_lanes f [] sh = Some sh"
| "drop_lanes f (l # ls) sh =
     (if l < length (lgrid sh) then do { q \<leftarrow> f (lgrid sh ! l); drop_lanes f ls (set_lane l q sh) } else None)"

definition drop_lproducer :: "('q, 'a, 's) Backend \<Rightarrow> 'q LShared \<Rightarrow> LProducer \<Rightarrow> 'q LShared option" where
  "drop_lproducer B sh p = drop_lanes (bk_drop_tx B) (lp_lanes p) (sh\<lparr>l_producers := l_producers sh - 1\<rparr>)"

section \<open>Consumers\<close>

definition lc_set_batch :: "usize \<Rightarrow> 'a LConsumer \<Rightarrow> 'a LConsumer" where
  "lc_set_batch b c = c\<lparr>lc_batch := max b 1\<rparr>"

text \<open>\<open>scan_into_staging\<close>, with the number of rounds left; the caller starts it with the number of lanes.\<close>

fun scan_into_staging ::
  "('q, 'a, 's) Backend \<Rightarrow> nat \<Rightarrow> 'q LShared \<Rightarrow> 'a LConsumer \<Rightarrow> (bool \<times> 'q LShared \<times> 'a LConsumer) option" where
  "scan_into_staging B 0 sh c = Some (False, sh, c)"
| "scan_into_staging B (Suc m) sh c =
     (let (i, cur) = rr_next (lc_cursor c) (of_nat (length (lc_lanes c)));
          c = c\<lparr>lc_cursor := cur\<rparr>
      in do { (l, q) \<leftarrow> lane_at sh (lc_lanes c) i;
              (n, q, st) \<leftarrow> bk_drain_into B q (lc_batch c) (lc_staging c);
              let sh = set_lane l q sh;
              let c = c\<lparr>lc_staging := st\<rparr>;
              if \<not> batch_is_empty st then Some (True, sh, c) else scan_into_staging B m sh c })"

definition adopt_abandoned :: "'q LShared \<Rightarrow> 'a LConsumer \<Rightarrow> bool \<times> 'q LShared \<times> 'a LConsumer" where
  "adopt_abandoned sh c =
     (if abandoned sh = [] then (False, sh, c)
      else (True, sh\<lparr>abandoned := []\<rparr>, c\<lparr>lc_lanes := lc_lanes c @ abandoned sh\<rparr>))"

text \<open>\<open>refill\<close> clears what is staged first; the values it destroys there are part of the result.\<close>

definition lc_refill ::
  "('q, 'a, 's) Backend \<Rightarrow> 'q LShared \<Rightarrow> 'a LConsumer \<Rightarrow> ('a list \<times> 'q LShared \<times> 'a LConsumer) option" where
  "lc_refill B sh c =
     do { (dropped, st) \<leftarrow> batch_clear (lc_staging c);
          (found, sh, c) \<leftarrow> scan_into_staging B (length (lc_lanes c)) sh (c\<lparr>lc_staging := st\<rparr>);
          if found then Some (dropped, sh, c)
          else let (adopted, sh, c) = adopt_abandoned sh c
               in if adopted
                  then do { (_, sh, c) \<leftarrow> scan_into_staging B (length (lc_lanes c)) sh c; Some (dropped, sh, c) }
                  else Some (dropped, sh, c) }"

definition lc_try_recv ::
  "('q, 'a, 's) Backend \<Rightarrow> 'q LShared \<Rightarrow> 'a LConsumer \<Rightarrow> ('a option \<times> 'a list \<times> 'q LShared \<times> 'a LConsumer) option" where
  "lc_try_recv B sh c =
     do { (v, st) \<leftarrow> batch_pop_front (lc_staging c);
          case v of Some v \<Rightarrow> Some (Some v, [], sh, c\<lparr>lc_staging := st\<rparr>)
          | None \<Rightarrow> do { (dropped, sh, c) \<leftarrow> lc_refill B sh (c\<lparr>lc_staging := st\<rparr>);
                         (v, st) \<leftarrow> batch_pop_front (lc_staging c);
                         Some (v, dropped, sh, c\<lparr>lc_staging := st\<rparr>) } }"

definition lc_try_recv_batch ::
  "('q, 'a, 's) Backend \<Rightarrow> 'q LShared \<Rightarrow> 'a LConsumer \<Rightarrow> 'a Batch
     \<Rightarrow> ('a list \<times> nat \<times> 'q LShared \<times> 'a LConsumer \<times> 'a Batch) option" where
  "lc_try_recv_batch B sh c out =
     do { (dropped, out) \<leftarrow> batch_clear out;
          (dropped, sh, c, out) \<leftarrow>
            (if batch_is_empty (lc_staging c)
             then do { let st = lc_staging c;
                       (d, sh, c) \<leftarrow> lc_refill B sh (c\<lparr>lc_staging := out\<rparr>);
                       Some (dropped @ d, sh, c, st) }
             else Some (dropped, sh, c, out));
          let st = lc_staging c;
          Some (dropped, batch_len st, sh, c\<lparr>lc_staging := out\<rparr>, st) }"

definition lc_is_disconnected :: "'q LShared \<Rightarrow> bool" where
  "lc_is_disconnected sh \<longleftrightarrow> l_producers sh = 0"

fun lc_recv_batch ::
  "('q, 'a, 's) Backend \<Rightarrow> ('q LShared \<Rightarrow> 'q LShared) list \<Rightarrow> 'q LShared \<Rightarrow> 'a LConsumer \<Rightarrow> 'a Batch
     \<Rightarrow> (nat spin \<times> 'q LShared \<times> 'a LConsumer \<times> 'a Batch) option" where
  "lc_recv_batch B envs sh c out =
     do { (_, n, sh, c, out) \<leftarrow> lc_try_recv_batch B sh c out;
          if n \<noteq> 0 then Some (Done n, sh, c, out)
          else if lc_is_disconnected sh
          then do { (_, n, sh, c, out) \<leftarrow> lc_try_recv_batch B sh c out; Some (Done n, sh, c, out) }
          else (case envs of [] \<Rightarrow> Some (Spinning, sh, c, out)
                | env # envs \<Rightarrow> lc_recv_batch B envs (env sh) c out) }"

fun lc_recv ::
  "('q, 'a, 's) Backend \<Rightarrow> ('q LShared \<Rightarrow> 'q LShared) list \<Rightarrow> 'q LShared \<Rightarrow> 'a LConsumer
     \<Rightarrow> ('a option spin \<times> 'q LShared \<times> 'a LConsumer) option" where
  "lc_recv B envs sh c =
     do { (v, _, sh, c) \<leftarrow> lc_try_recv B sh c;
          case v of Some v \<Rightarrow> Some (Done (Some v), sh, c)
          | None \<Rightarrow>
              if lc_is_disconnected sh
              then do { (v, _, sh, c) \<leftarrow> lc_try_recv B sh c; Some (Done v, sh, c) }
              else (case envs of [] \<Rightarrow> Some (Spinning, sh, c)
                    | env # envs \<Rightarrow> lc_recv B envs (env sh) c) }"

text \<open>\<open>scan_in_place\<close>, with the number of rounds left; the caller starts it with the number of lanes.\<close>

fun scan_in_place ::
  "('q, 'a, 's) Backend \<Rightarrow> nat \<Rightarrow> 'q LShared \<Rightarrow> 'a LConsumer \<Rightarrow> usize \<Rightarrow> ('a, 's) callback \<Rightarrow> 's
     \<Rightarrow> (nat control \<times> 'q LShared \<times> 'a LConsumer \<times> 's) option" where
  "scan_in_place B 0 sh c mx f s = Some (Return 0, sh, c, s)"
| "scan_in_place B (Suc m) sh c mx f s =
     (let (i, cur) = rr_next (lc_cursor c) (of_nat (length (lc_lanes c)));
          c = c\<lparr>lc_cursor := cur\<rparr>
      in do { (l, q) \<leftarrow> lane_at sh (lc_lanes c) i;
              (r, q, s) \<leftarrow> bk_drain_in_place B q mx f s;
              let sh = set_lane l q sh;
              case r of Unwind \<Rightarrow> Some (Unwind, sh, c, s)
              | Return got \<Rightarrow> if got \<noteq> 0 then Some (Return got, sh, c, s) else scan_in_place B m sh c mx f s })"

text \<open>\<open>drain\<close>: the loop over the staged values is that of the claim engine, \<open>drain_staged\<close>.\<close>

definition lc_drain ::
  "('q, 'a, 's) Backend \<Rightarrow> 'q LShared \<Rightarrow> 'a LConsumer \<Rightarrow> usize \<Rightarrow> ('a, 's) callback \<Rightarrow> 's
     \<Rightarrow> (nat control \<times> 'q LShared \<times> 'a LConsumer \<times> 's) option" where
  "lc_drain B sh c mx f s =
     do { (ok, fin, st, s) \<leftarrow> drain_staged (unat mx) 0 (lc_staging c) f s;
          let c = c\<lparr>lc_staging := st\<rparr>;
          if \<not> ok then Some (Unwind, sh, c, s)
          else if fin = unat mx then Some (Return fin, sh, c, s)
          else do { (r, sh, c, s) \<leftarrow> scan_in_place B (length (lc_lanes c)) sh c (mx - of_nat fin) f s;
                    case r of Unwind \<Rightarrow> Some (Unwind, sh, c, s)
                    | Return got \<Rightarrow>
                        if got \<noteq> 0 then Some (Return (fin + got), sh, c, s)
                        else let (adopted, sh, c) = adopt_abandoned sh c
                             in if adopted
                                then do { (r, sh, c, s) \<leftarrow> scan_in_place B (length (lc_lanes c)) sh c (mx - of_nat fin) f s;
                                          Some (case r of Unwind \<Rightarrow> Unwind | Return got \<Rightarrow> Return (fin + got), sh, c, s) }
                                else Some (Return fin, sh, c, s) } }"

fun lc_for_each ::
  "('q, 'a, 's) Backend \<Rightarrow> nat \<Rightarrow> ('q LShared \<Rightarrow> 'q LShared) list \<Rightarrow> 'q LShared \<Rightarrow> 'a LConsumer \<Rightarrow> usize
     \<Rightarrow> ('a, 's) callback \<Rightarrow> 's \<Rightarrow> (unit spin control \<times> 'q LShared \<times> 'a LConsumer \<times> 's) option" where
  "lc_for_each B 0 envs sh c b f s = None"
| "lc_for_each B (Suc fuel) envs sh c b f s =
     do { (r, sh, c, s) \<leftarrow> lc_drain B sh c (max b 1) f s;
          case r of Unwind \<Rightarrow> Some (Unwind, sh, c, s)
          | Return n \<Rightarrow>
              if n \<noteq> 0 then lc_for_each B fuel envs sh c b f s
              else let pause = (\<lambda>sh c s. case envs of [] \<Rightarrow> Some (Return Spinning, sh, c, s)
                                         | env # envs \<Rightarrow> lc_for_each B fuel envs (env sh) c b f s)
                   in if lc_is_disconnected sh
                      then do { (r, sh, c, s) \<leftarrow> lc_drain B sh c (max b 1) f s;
                                case r of Unwind \<Rightarrow> Some (Unwind, sh, c, s)
                                | Return n \<Rightarrow> if n = 0 then Some (Return (Done ()), sh, c, s) else pause sh c s }
                      else pause sh c s }"

text \<open>
  Dropping a consumer hands its receiving halves over, counts it out, and destroys what it still has staged. The
  abandoned receiving halves are dropped with the shared part.
\<close>

definition drop_lconsumer :: "'q LShared \<Rightarrow> 'a LConsumer \<Rightarrow> ('a list \<times> 'q LShared) option" where
  "drop_lconsumer sh c =
     do { (dropped, _) \<leftarrow> batch_clear (lc_staging c);
          Some (dropped, sh\<lparr>abandoned := abandoned sh @ lc_lanes c, l_consumers := l_consumers sh - 1\<rparr>) }"

definition drop_lshared :: "('q, 'a, 's) Backend \<Rightarrow> 'q LShared \<Rightarrow> 'q LShared option" where
  "drop_lshared B sh = map_option (\<lambda>sh'. sh'\<lparr>abandoned := []\<rparr>) (drop_lanes (bk_drop_rx B) (abandoned sh) sh)"

section \<open>What the lanes hold\<close>

definition grid_rep :: "('q \<Rightarrow> 'a list \<Rightarrow> bool) \<Rightarrow> 'q LShared \<Rightarrow> 'a list list \<Rightarrow> bool" where
  "grid_rep rep sh vss \<longleftrightarrow> length vss = length (lgrid sh) \<and> (\<forall>l<length vss. rep (lgrid sh ! l) (vss ! l))"

definition lanes_ok :: "'q LShared \<Rightarrow> nat list \<Rightarrow> bool" where
  "lanes_ok sh ls \<longleftrightarrow> length ls < 2 ^ 64 \<and> (\<forall>l\<in>set ls. l < length (lgrid sh))"

text \<open>What data operations on the lanes leave alone.\<close>

definition same_grid :: "('q \<Rightarrow> 'c) \<Rightarrow> 'q LShared \<Rightarrow> 'q LShared \<Rightarrow> bool" where
  "same_grid ctl sh sh' \<longleftrightarrow> map ctl (lgrid sh') = map ctl (lgrid sh) \<and> l_producers sh' = l_producers sh
     \<and> l_consumers sh' = l_consumers sh \<and> abandoned sh' = abandoned sh"

lemma same_grid_refl [simp]: "same_grid ctl sh sh"
  by (simp add: same_grid_def)

lemma same_grid_trans: "same_grid ctl a b \<Longrightarrow> same_grid ctl b c \<Longrightarrow> same_grid ctl a c"
  by (simp add: same_grid_def)

lemma same_grid_length: "same_grid ctl sh sh' \<Longrightarrow> length (lgrid sh') = length (lgrid sh)"
  unfolding same_grid_def by (elim conjE) (rule map_eq_imp_length_eq)

lemma same_grid_nth: "same_grid ctl sh sh' \<Longrightarrow> l < length (lgrid sh) \<Longrightarrow> ctl (lgrid sh' ! l) = ctl (lgrid sh ! l)"
  using same_grid_length [of ctl sh sh'] nth_map [of l "lgrid sh" ctl] nth_map [of l "lgrid sh'" ctl] by (simp add: same_grid_def)

lemma lanes_ok_same: "same_grid ctl sh sh' \<Longrightarrow> lanes_ok sh' ls \<longleftrightarrow> lanes_ok sh ls"
  by (simp add: lanes_ok_def same_grid_length)

lemma set_lane_rep:
  assumes "grid_rep rep sh vss" "l < length (lgrid sh)" "rep q vs" "ctl q = ctl (lgrid sh ! l)"
  shows "grid_rep rep (set_lane l q sh) (vss[l := vs])" "same_grid ctl sh (set_lane l q sh)"
  using assms by (auto simp: grid_rep_def same_grid_def set_lane_def nth_list_update map_update list_update_same_conv)

text \<open>The lanes that \<open>m\<close> rounds of a scan visit.\<close>

definition visited :: "nat \<Rightarrow> nat list \<Rightarrow> usize \<Rightarrow> nat set" where
  "visited m ls cur = (\<lambda>i. ls ! unat i) ` set (fst (rr_scan m cur (of_nat (length ls))))"

lemma visited_0 [simp]: "visited 0 ls cur = {}"
  by (simp add: visited_def)

lemma visited_Suc: "rr_next cur (of_nat (length ls)) = (i, cur') \<Longrightarrow> visited (Suc m) ls cur = insert (ls ! unat i) (visited m ls cur')"
  by (simp add: visited_def case_prod_beta)

lemma visited_all: "length ls < 2 ^ 64 \<Longrightarrow> visited (length ls) ls cur = set ls"
proof (cases "ls = []")
  case False
  assume l: "length ls < 2 ^ 64"
  have "set (map unat (fst (rr_scan (length ls) cur (of_nat (length ls))))) = {0..<length ls}"
    using full_scan_covers [of "length ls" "cursor_new cur"] False l unfolding scan_positions_rr by (simp add: cursor_new_def)
  then have "unat ` set (fst (rr_scan (length ls) cur (of_nat (length ls)))) = {0..<length ls}" by simp
  then have "visited (length ls) ls cur = (!) ls ` {0..<length ls}" unfolding visited_def by (metis image_image)
  then show ?thesis by (auto simp: set_conv_nth)
qed simp

lemma lane_at_next:
  assumes "lanes_ok sh ls" "ls \<noteq> []" "rr_next cur (of_nat (length ls)) = (i, cur')"
  shows "lane_at sh ls i = Some (ls ! unat i, lgrid sh ! (ls ! unat i))" "ls ! unat i \<in> set ls" "ls ! unat i < length (lgrid sh)"
proof -
  have l: "unat (of_nat (length ls) :: usize) = length ls" using assms(1) by (intro unat_of_nat_usize) (simp add: lanes_ok_def)
  then have "(0 :: usize) < of_nat (length ls)" using assms(2) by (simp add: word_less_nat_alt)
  from rr_index_less [OF this, of cur] have "unat i < length ls"
    using assms(3) l by (auto simp: rr_next_def Let_def word_less_nat_alt)
  then show "ls ! unat i \<in> set ls" "ls ! unat i < length (lgrid sh)" "lane_at sh ls i = Some (ls ! unat i, lgrid sh ! (ls ! unat i))"
    using assms(1) by (auto simp: lanes_ok_def lane_at_def)
qed

text \<open>
  What a scan of the lanes \<open>P\<close> out of \<open>S\<close> does to the contents \<open>vss\<close>: it takes a FIFO prefix \<open>got\<close> of one lane, or finds
  every lane of \<open>P\<close> empty.
\<close>

definition lane_scanned :: "nat \<Rightarrow> nat set \<Rightarrow> nat set \<Rightarrow> 'a list list \<Rightarrow> 'a list list \<Rightarrow> 'a list \<Rightarrow> bool" where
  "lane_scanned lim S P vss vss' got \<longleftrightarrow>
     (\<exists>l k. l \<in> S \<and> 0 < k \<and> k \<le> min (length (vss ! l)) lim \<and> vss' = vss[l := drop k (vss ! l)] \<and> got = take k (vss ! l))
     \<or> (vss' = vss \<and> got = [] \<and> (\<forall>l\<in>P. vss ! l = []))"

lemma lane_scannedI:
  "l \<in> S \<Longrightarrow> 0 < k \<Longrightarrow> k \<le> min (length (vss ! l)) lim
     \<Longrightarrow> lane_scanned lim S P vss (vss[l := drop k (vss ! l)]) (take k (vss ! l))"
  unfolding lane_scanned_def by blast

lemma lane_scanned_insert:
  "lane_scanned lim S P vss vss' got \<Longrightarrow> vss ! l = [] \<Longrightarrow> lane_scanned lim S (insert l P) vss vss' got"
  by (auto simp: lane_scanned_def)

lemma lane_scanned_mono: "lane_scanned lim S P vss vss' got \<Longrightarrow> got \<noteq> [] \<Longrightarrow> S \<subseteq> S' \<Longrightarrow> lane_scanned lim S' P' vss vss' got"
  unfolding lane_scanned_def by blast

lemma lane_scanned_Nil: "lane_scanned lim S P vss vss' [] \<Longrightarrow> vss' = vss \<and> (\<forall>l\<in>P. vss ! l = [])"
  by (auto simp: lane_scanned_def)

context spsc_backend
begin

lemma scan_into_staging_spec:
  assumes "grid_rep rep sh vss" "lanes_ok sh (lc_lanes c)" "batch_rep (lc_staging c) []" "lc_batch c \<noteq> 0" "lc_lanes c \<noteq> [] \<or> m = 0"
  shows "\<exists>sh' c' vss' got. scan_into_staging B m sh c = Some (got \<noteq> [], sh', c') \<and> grid_rep rep sh' vss' \<and> same_grid ctl sh sh'
     \<and> lc_lanes c' = lc_lanes c \<and> lc_batch c' = lc_batch c \<and> batch_rep (lc_staging c') got
     \<and> lane_scanned (unat (lc_batch c)) (set (lc_lanes c)) (visited m (lc_lanes c) (lc_cursor c)) vss vss' got"
  using assms
proof (induction m arbitrary: sh c)
  case 0
  then show ?case by (intro exI [of _ sh] exI [of _ c] exI [of _ vss] exI [of _ "[]"]) (auto simp: lane_scanned_def)
next
  case (Suc m)
  obtain i cur where nx: "rr_next (lc_cursor c) (of_nat (length (lc_lanes c))) = (i, cur)" by fastforce
  let ?l = "lc_lanes c ! unat i" and ?S = "set (lc_lanes c)"
  have at: "lane_at sh (lc_lanes c) i = Some (?l, lgrid sh ! ?l)" "?l \<in> ?S" "?l < length (lgrid sh)"
    using lane_at_next [OF Suc.prems(2) _ nx] Suc.prems(5) by auto
  have r: "rep (lgrid sh ! ?l) (vss ! ?l)" using Suc.prems(1) at(3) by (simp add: grid_rep_def)
  obtain n q st where d: "bk_drain_into B (lgrid sh ! ?l) (lc_batch c) (lc_staging c) = Some (n, q, st)" "rep q (drop n (vss ! ?l))"
    "batch_rep st ([] @ take n (vss ! ?l))" "ctl q = ctl (lgrid sh ! ?l)" "n \<le> min (length (vss ! ?l)) (unat (lc_batch c))"
    "n = 0 \<longleftrightarrow> vss ! ?l = [] \<or> lc_batch c = 0"
    using drain_into [OF r Suc.prems(3), of "lc_batch c"] by (elim exE conjE) (rule that)
  let ?sh = "set_lane ?l q sh"
  note s = set_lane_rep [where ctl = ctl, OF Suc.prems(1) at(3) d(2,4)]
  have e: "batch_is_empty st \<longleftrightarrow> vss ! ?l = []" using batch_is_empty_rep [OF d(3)] d(6) Suc.prems(4) by auto
  show ?case
  proof (cases "vss ! ?l = []")
    case True
    then have vss: "vss[?l := drop n (vss ! ?l)] = vss" by (metis drop_Nil list_update_id)
    let ?c = "c\<lparr>lc_cursor := cur, lc_staging := st\<rparr>"
    obtain sh' c' vss' got where IH: "scan_into_staging B m ?sh ?c = Some (got \<noteq> [], sh', c')" "grid_rep rep sh' vss'"
      "same_grid ctl ?sh sh'" "lc_lanes c' = lc_lanes c" "lc_batch c' = lc_batch c" "batch_rep (lc_staging c') got"
      "lane_scanned (unat (lc_batch c)) ?S (visited m (lc_lanes c) cur) vss vss' got"
      using Suc.IH [of ?sh ?c] s Suc.prems(2,4,5) d(3) True lanes_ok_same [OF s(2)] unfolding vss by auto
    have "scan_into_staging B (Suc m) sh c = Some (got \<noteq> [], sh', c')"
      using nx at(1) d(1) e True IH(1) by (simp add: Let_def)
    moreover have "lane_scanned (unat (lc_batch c)) ?S (visited (Suc m) (lc_lanes c) (lc_cursor c)) vss vss' got"
      unfolding visited_Suc [OF nx] using IH(7) True by (rule lane_scanned_insert)
    ultimately show ?thesis using IH(2,4-6) same_grid_trans [OF s(2) IH(3)] by blast
  next
    case False
    let ?c = "c\<lparr>lc_cursor := cur, lc_staging := st\<rparr>"
    have n: "0 < n" "take n (vss ! ?l) \<noteq> []" using d(6) False Suc.prems(4) by auto
    have "scan_into_staging B (Suc m) sh c = Some (take n (vss ! ?l) \<noteq> [], ?sh, ?c)"
      using nx at(1) d(1) e False n by (simp add: Let_def)
    moreover have "lane_scanned (unat (lc_batch c)) ?S P vss (vss[?l := drop n (vss ! ?l)]) (take n (vss ! ?l))" for P
      using d(5) at(2) n(1) by (intro lane_scannedI)
    ultimately show ?thesis using s d(3)
      by (intro exI [of _ ?sh] exI [of _ ?c] exI [of _ "vss[?l := drop n (vss ! ?l)]"] exI [of _ "take n (vss ! ?l)"]) simp
  qed
qed

text \<open>A whole scan, started with one round per lane.\<close>

lemma full_scan_spec:
  assumes "grid_rep rep sh vss" "lanes_ok sh (lc_lanes c)" "batch_rep (lc_staging c) []" "lc_batch c \<noteq> 0"
  shows "\<exists>sh' c' vss' got. scan_into_staging B (length (lc_lanes c)) sh c = Some (got \<noteq> [], sh', c') \<and> grid_rep rep sh' vss'
     \<and> same_grid ctl sh sh' \<and> lc_lanes c' = lc_lanes c \<and> lc_batch c' = lc_batch c \<and> batch_rep (lc_staging c') got
     \<and> lane_scanned (unat (lc_batch c)) (set (lc_lanes c)) (set (lc_lanes c)) vss vss' got"
  using scan_into_staging_spec [OF assms, of "length (lc_lanes c)"] visited_all [of "lc_lanes c" "lc_cursor c"] assms(2)
  by (simp add: lanes_ok_def)

text \<open>The lanes a consumer can reach are its own and the abandoned ones; operations keep their sequence.\<close>

lemma lc_refill_spec:
  assumes "grid_rep rep sh vss" "lanes_ok sh (lc_lanes c @ abandoned sh)" "batch_rep (lc_staging c) st" "lc_batch c \<noteq> 0"
  shows "\<exists>sh' c' vss' got. lc_refill B sh c = Some (st, sh', c') \<and> grid_rep rep sh' vss'
     \<and> same_grid ctl (sh\<lparr>abandoned := abandoned sh'\<rparr>) sh' \<and> lc_lanes c' @ abandoned sh' = lc_lanes c @ abandoned sh
     \<and> lc_batch c' = lc_batch c \<and> batch_rep (lc_staging c') got
     \<and> lane_scanned (unat (lc_batch c)) (set (lc_lanes c @ abandoned sh)) (set (lc_lanes c @ abandoned sh)) vss vss' got"
proof -
  let ?c = "c\<lparr>lc_staging := (lc_staging c)\<lparr>bvalues := [], bread := 0\<rparr>\<rparr>" and ?L = "lc_lanes c @ abandoned sh"
  have cl: "batch_clear (lc_staging c) = Some (st, lc_staging ?c)" using batch_clear_rep [OF assms(3)] by simp
  have ok: "lanes_ok sh (lc_lanes ?c)" using assms(2) by (auto simp: lanes_ok_def)
  obtain sh1 c1 vss1 got1 where r1: "scan_into_staging B (length (lc_lanes ?c)) sh ?c = Some (got1 \<noteq> [], sh1, c1)" "grid_rep rep sh1 vss1"
    "same_grid ctl sh sh1" "lc_lanes c1 = lc_lanes c" "lc_batch c1 = lc_batch c" "batch_rep (lc_staging c1) got1"
    "lane_scanned (unat (lc_batch c)) (set (lc_lanes c)) (set (lc_lanes c)) vss vss1 got1"
    using full_scan_spec [OF assms(1) ok] assms(4) by auto
  have ab: "abandoned sh1 = abandoned sh" using r1(3) by (simp add: same_grid_def)
  show ?thesis
  proof (cases "got1 \<noteq> []")
    case True
    then have "lane_scanned (unat (lc_batch c)) (set ?L) (set ?L) vss vss1 got1" using r1(7) by (auto intro: lane_scanned_mono)
    moreover have "lc_refill B sh c = Some (st, sh1, c1)" using cl r1(1) True by (simp add: lc_refill_def)
    moreover have "same_grid ctl (sh\<lparr>abandoned := abandoned sh1\<rparr>) sh1" using r1(3) by (simp add: same_grid_def)
    ultimately show ?thesis using r1 ab
      by - (rule exI [of _ sh1], rule exI [of _ c1], rule exI [of _ vss1], rule exI [of _ got1], simp)
  next
    case False
    then have e: "vss1 = vss" "\<forall>l\<in>set (lc_lanes c). vss ! l = []" using lane_scanned_Nil [of _ _ _ vss vss1] r1(7) by auto
    show ?thesis
    proof (cases "abandoned sh = []")
      case True
      then have "lc_refill B sh c = Some (st, sh1, c1)" using cl r1(1) False ab by (simp add: lc_refill_def adopt_abandoned_def)
      moreover have "same_grid ctl (sh\<lparr>abandoned := abandoned sh1\<rparr>) sh1" using r1(3) by (simp add: same_grid_def)
      moreover have "lane_scanned (unat (lc_batch c)) (set ?L) (set ?L) vss vss1 got1" using r1(7) True by simp
      ultimately show ?thesis using r1 ab
        by - (rule exI [of _ sh1], rule exI [of _ c1], rule exI [of _ vss1], rule exI [of _ got1], simp)
    next
      case ne: False
      let ?sh = "sh1\<lparr>abandoned := []\<rparr>" and ?c1 = "c1\<lparr>lc_lanes := ?L\<rparr>"
      have ok1: "lanes_ok ?sh (lc_lanes ?c1)" using assms(2) same_grid_length [OF r1(3)] by (simp add: lanes_ok_def)
      have rep1: "grid_rep rep ?sh vss" using r1(2) e(1) by (simp add: grid_rep_def)
      obtain sh2 c2 vss2 got2 where r2: "scan_into_staging B (length (lc_lanes ?c1)) ?sh ?c1 = Some (got2 \<noteq> [], sh2, c2)" "grid_rep rep sh2 vss2"
        "same_grid ctl ?sh sh2" "lc_lanes c2 = ?L" "lc_batch c2 = lc_batch c" "batch_rep (lc_staging c2) got2"
        "lane_scanned (unat (lc_batch c)) (set ?L) (set ?L) vss vss2 got2"
        using full_scan_spec [OF rep1 ok1] r1(5,6) False assms(4) by auto
      have "lc_refill B sh c = Some (st, sh2, c2)" using cl r1(1,4) False ab ne r2(1) by (simp add: lc_refill_def adopt_abandoned_def)
      moreover have "same_grid ctl (sh\<lparr>abandoned := abandoned sh2\<rparr>) sh2" "abandoned sh2 = []" using r2(3) r1(3) by (simp_all add: same_grid_def)
      ultimately show ?thesis using r2
        by - (rule exI [of _ sh2], rule exI [of _ c2], rule exI [of _ vss2], rule exI [of _ got2], simp)
    qed
  qed
qed

end

lemma batch_pop_front_rep:
  assumes "batch_rep b vs"
  shows "\<exists>b'. batch_pop_front b = Some (case vs of [] \<Rightarrow> None | v # _ \<Rightarrow> Some v, b') \<and> batch_rep b' (tl vs)"
proof (cases vs)
  case Nil
  then show ?thesis using batch_pop_front_Nil [of b] assms by simp
next
  case (Cons v ws)
  then show ?thesis using batch_pop_front_Cons [of b v ws] assms by auto
qed

lemma visited_subset: "length ls < 2 ^ 64 \<Longrightarrow> ls \<noteq> [] \<Longrightarrow> visited m ls cur \<subseteq> set ls"
  using scan_positions_less [of "length ls" _ m "cursor_new cur"]
  by (auto simp: visited_def scan_positions_rr cursor_new_def)

context spsc_backend
begin

lemma lc_try_recv_spec:
  assumes "grid_rep rep sh vss" "lanes_ok sh (lc_lanes c @ abandoned sh)" "batch_rep (lc_staging c) st" "lc_batch c \<noteq> 0"
  shows "\<exists>v sh' c' vss' st'. lc_try_recv B sh c = Some (v, [], sh', c') \<and> grid_rep rep sh' vss'
     \<and> same_grid ctl (sh\<lparr>abandoned := abandoned sh'\<rparr>) sh' \<and> lc_lanes c' @ abandoned sh' = lc_lanes c @ abandoned sh
     \<and> lc_batch c' = lc_batch c \<and> batch_rep (lc_staging c') st'
     \<and> (if st \<noteq> [] then v = Some (hd st) \<and> st' = tl st \<and> vss' = vss
        else \<exists>got. lane_scanned (unat (lc_batch c)) (set (lc_lanes c @ abandoned sh)) (set (lc_lanes c @ abandoned sh)) vss vss' got
           \<and> v = (case got of [] \<Rightarrow> None | x # _ \<Rightarrow> Some x) \<and> st' = tl got)"
proof (cases st)
  case (Cons x xs)
  obtain b where "batch_pop_front (lc_staging c) = Some (Some x, b)" "batch_rep b xs"
    using batch_pop_front_rep [OF assms(3)] Cons by auto
  then show ?thesis using assms Cons
    by - (rule exI [of _ "Some x"], rule exI [of _ sh], rule exI [of _ "c\<lparr>lc_staging := b\<rparr>"], rule exI [of _ vss],
        rule exI [of _ xs], simp add: lc_try_recv_def)
next
  case Nil
  have p: "batch_pop_front (lc_staging c) = Some (None, lc_staging c)" using batch_pop_front_Nil [of "lc_staging c"] assms(3) Nil by simp
  obtain sh' c' vss' got where r: "lc_refill B sh c = Some ([], sh', c')" "grid_rep rep sh' vss'"
    "same_grid ctl (sh\<lparr>abandoned := abandoned sh'\<rparr>) sh'" "lc_lanes c' @ abandoned sh' = lc_lanes c @ abandoned sh"
    "lc_batch c' = lc_batch c" "batch_rep (lc_staging c') got"
    "lane_scanned (unat (lc_batch c)) (set (lc_lanes c @ abandoned sh)) (set (lc_lanes c @ abandoned sh)) vss vss' got"
    using lc_refill_spec [OF assms] Nil by (elim exE conjE) (rule that, simp_all)
  let ?v = "case got of [] \<Rightarrow> None | x # _ \<Rightarrow> Some x"
  obtain b where b: "batch_pop_front (lc_staging c') = Some (?v, b)" "batch_rep b (tl got)"
    using batch_pop_front_rep [OF r(6)] by blast
  have "lc_try_recv B sh c = Some (?v, [], sh', c'\<lparr>lc_staging := b\<rparr>)" using p r(1) b(1) by (simp add: lc_try_recv_def)
  then show ?thesis using r(2-5,7) b(2) Nil
    by - (rule exI [of _ ?v], rule exI [of _ sh'], rule exI [of _ "c'\<lparr>lc_staging := b\<rparr>"], rule exI [of _ vss'],
        rule exI [of _ "tl got"], auto)
qed

lemma lp_try_send_loop_spec:
  assumes "grid_rep rep sh vss" "lanes_ok sh (lp_lanes p)" "lp_lanes p \<noteq> [] \<or> m = 0"
  shows "\<exists>r sh' p' vss'. lp_try_send_loop B m sh p v = Some (r, sh', p') \<and> grid_rep rep sh' vss' \<and> same_grid ctl sh sh'
     \<and> lp_lanes p' = lp_lanes p
     \<and> (r = Ok () \<and> (\<exists>l\<in>set (lp_lanes p). accepts (ctl (lgrid sh ! l)) (vss ! l) \<and> vss' = vss[l := vss ! l @ [v]])
        \<or> r = Err v \<and> vss' = vss \<and> (\<forall>l\<in>visited m (lp_lanes p) (lp_cursor p). \<not> accepts (ctl (lgrid sh ! l)) (vss ! l)))"
  using assms
proof (induction m arbitrary: sh p)
  case 0
  then show ?case by (intro exI [of _ "Err v"] exI [of _ sh] exI [of _ p] exI [of _ vss]) simp
next
  case (Suc m)
  obtain i cur where nx: "rr_next (lp_cursor p) (of_nat (length (lp_lanes p))) = (i, cur)" by fastforce
  let ?l = "lp_lanes p ! unat i" and ?p = "p\<lparr>lp_cursor := cur\<rparr>"
  have at: "lane_at sh (lp_lanes p) i = Some (?l, lgrid sh ! ?l)" "?l \<in> set (lp_lanes p)" "?l < length (lgrid sh)"
    using lane_at_next [OF Suc.prems(2) _ nx] Suc.prems(3) by auto
  have r: "rep (lgrid sh ! ?l) (vss ! ?l)" using Suc.prems(1) at(3) by (simp add: grid_rep_def)
  let ?a = "accepts (ctl (lgrid sh ! ?l)) (vss ! ?l)"
  obtain q where q: "bk_try_push B (lgrid sh ! ?l) v = Some (if ?a then Ok () else Err v, q)"
    "rep q (if ?a then vss ! ?l @ [v] else vss ! ?l)" "ctl q = ctl (lgrid sh ! ?l)"
    using push_law [OF r] by blast
  let ?sh = "set_lane ?l q sh"
  note s = set_lane_rep [where ctl = ctl, OF Suc.prems(1) at(3) q(2,3)]
  show ?case
  proof (cases ?a)
    case True
    then have "lp_try_send_loop B (Suc m) sh p v = Some (Ok (), ?sh, ?p)"
      using nx at(1) q(1) by (simp add: next_lane_def Let_def)
    then show ?thesis using s True at(2)
      by (intro exI [of _ "Ok ()"] exI [of _ ?sh] exI [of _ ?p] exI [of _ "vss[?l := vss ! ?l @ [v]]"]) auto
  next
    case False
    then have rep1: "grid_rep rep ?sh vss" using s(1) by simp
    have ok: "lanes_ok ?sh (lp_lanes ?p)" "lp_lanes ?p \<noteq> [] \<or> m = 0"
      using Suc.prems(2,3) lanes_ok_same [OF s(2)] by auto
    have sel: "lp_lanes ?p = lp_lanes p" "lp_cursor ?p = cur" by simp_all
    have same: "ctl (lgrid ?sh ! l) = ctl (lgrid sh ! l)" if "l \<in> set (lp_lanes p)" for l
      using same_grid_nth [OF s(2)] that Suc.prems(2) by (auto simp: lanes_ok_def)
    obtain r sh' p' vss' where IH: "lp_try_send_loop B m ?sh ?p v = Some (r, sh', p')" "grid_rep rep sh' vss'" "same_grid ctl ?sh sh'"
      "lp_lanes p' = lp_lanes p"
      "r = Ok () \<and> (\<exists>l\<in>set (lp_lanes p). accepts (ctl (lgrid ?sh ! l)) (vss ! l) \<and> vss' = vss[l := vss ! l @ [v]])
        \<or> r = Err v \<and> vss' = vss \<and> (\<forall>l\<in>visited m (lp_lanes p) cur. \<not> accepts (ctl (lgrid ?sh ! l)) (vss ! l))"
      using Suc.IH [OF rep1 ok] unfolding sel by (elim exE conjE) (rule that)
    have st: "lp_try_send_loop B (Suc m) sh p v = Some (r, sh', p')"
      using nx at(1) q(1) False IH(1) by (simp add: next_lane_def Let_def)
    have vis: "visited m (lp_lanes p) cur \<subseteq> set (lp_lanes p)"
      using visited_subset [of "lp_lanes p" m cur] Suc.prems(2,3) by (auto simp: lanes_ok_def)
    have "r = Ok () \<and> (\<exists>l\<in>set (lp_lanes p). accepts (ctl (lgrid sh ! l)) (vss ! l) \<and> vss' = vss[l := vss ! l @ [v]])
        \<or> r = Err v \<and> vss' = vss \<and> (\<forall>l\<in>visited (Suc m) (lp_lanes p) (lp_cursor p). \<not> accepts (ctl (lgrid sh ! l)) (vss ! l))"
      using IH(5)
    proof (rule disj_forward, goal_cases)
      case 1
      then show ?case using same by auto
    next
      case 2
      then show ?case using same vis False by (auto simp: visited_Suc [OF nx] subset_iff)
    qed
    then show ?thesis using st IH(2,4) same_grid_trans [OF s(2) IH(3)] by blast
  qed
qed

end

section \<open>The whole channel\<close>

text \<open>
  The endpoints that have not been dropped, and one public operation of one of them as a step. A step yields the
  values it accepted, the values it delivered and the values it destroyed. An operation of an endpoint that is gone
  does nothing.
\<close>

record ('q, 'a) LSys =
  l_shared :: "'q LShared"
  l_ps :: "LProducer option list"
  l_cs :: "'a LConsumer option list"

datatype 'a lop = LSend nat 'a | LRecv nat | LDropProducer nat | LDropConsumer nat

definition live :: "'x option list \<Rightarrow> nat \<Rightarrow> 'x option" where
  "live xs i = (if i < length xs then xs ! i else None)"

fun lane_step :: "('q, 'a, 's) Backend \<Rightarrow> 'a lop \<Rightarrow> ('q, 'a) LSys \<Rightarrow> ('a list \<times> 'a list \<times> 'a list \<times> ('q, 'a) LSys) option" where
  "lane_step B (LSend i v) sys =
     (case live (l_ps sys) i of None \<Rightarrow> Some ([], [], [], sys)
      | Some p \<Rightarrow> do { (r, sh, p) \<leftarrow> lp_try_send B (l_shared sys) p v;
                       Some (case r of Ok _ \<Rightarrow> [v] | Err _ \<Rightarrow> [], [], [], sys\<lparr>l_shared := sh, l_ps := (l_ps sys)[i := Some p]\<rparr>) })"
| "lane_step B (LRecv i) sys =
     (case live (l_cs sys) i of None \<Rightarrow> Some ([], [], [], sys)
      | Some c \<Rightarrow> do { (v, d, sh, c) \<leftarrow> lc_try_recv B (l_shared sys) c;
                       Some ([], case v of None \<Rightarrow> [] | Some v \<Rightarrow> [v], d,
                             sys\<lparr>l_shared := sh, l_cs := (l_cs sys)[i := Some c]\<rparr>) })"
| "lane_step B (LDropProducer i) sys =
     (case live (l_ps sys) i of None \<Rightarrow> Some ([], [], [], sys)
      | Some p \<Rightarrow> do { sh \<leftarrow> drop_lproducer B (l_shared sys) p;
                       Some ([], [], [], sys\<lparr>l_shared := sh, l_ps := (l_ps sys)[i := None]\<rparr>) })"
| "lane_step B (LDropConsumer i) sys =
     (case live (l_cs sys) i of None \<Rightarrow> Some ([], [], [], sys)
      | Some c \<Rightarrow> do { (d, sh) \<leftarrow> drop_lconsumer (l_shared sys) c;
                       Some ([], [], d, sys\<lparr>l_shared := sh, l_cs := (l_cs sys)[i := None]\<rparr>) })"

fun lane_run :: "('q, 'a, 's) Backend \<Rightarrow> 'a lop list \<Rightarrow> ('q, 'a) LSys \<Rightarrow> ('a list \<times> 'a list \<times> 'a list \<times> ('q, 'a) LSys) option" where
  "lane_run B [] sys = Some ([], [], [], sys)"
| "lane_run B (opn # ops) sys =
     do { (acc, del, des, sys) \<leftarrow> lane_step B opn sys;
          (acc', del', des', sys) \<leftarrow> lane_run B ops sys;
          Some (acc @ acc', del @ del', des @ des', sys) }"

text \<open>The lanes that some reader can still reach, and the values that live consumers have staged.\<close>

definition owned :: "'a LConsumer option list \<Rightarrow> nat list" where
  "owned cs = concat (map (case_option [] lc_lanes) cs)"

definition staged :: "'a LConsumer option list \<Rightarrow> 'a list" where
  "staged cs = concat (map (case_option [] (\<lambda>c. the (batch_as_slice (lc_staging c)))) cs)"

definition lane_inv :: "('q \<Rightarrow> 'a list \<Rightarrow> bool) \<Rightarrow> ('q, 'a) LSys \<Rightarrow> 'a list list \<Rightarrow> bool" where
  "lane_inv rep sys vss \<longleftrightarrow> grid_rep rep (l_shared sys) vss \<and> length vss < 2 ^ 64
     \<and> mset (owned (l_cs sys) @ abandoned (l_shared sys)) = mset [0..<length vss]
     \<and> (\<forall>p. Some p \<in> set (l_ps sys) \<longrightarrow> lanes_ok (l_shared sys) (lp_lanes p))
     \<and> (\<forall>c. Some c \<in> set (l_cs sys) \<longrightarrow> lc_batch c \<noteq> 0 \<and> (\<exists>st. batch_rep (lc_staging c) st))"

lemma mset_concat_update:
  "i < length xs \<Longrightarrow> mset (concat (map f (xs[i := y]))) + mset (f (xs ! i)) = mset (concat (map f xs)) + mset (f y)"
proof (induction xs arbitrary: i)
  case (Cons x xs)
  then show ?case by (cases i) (auto simp: add.left_commute add.commute)
qed simp

lemma mset_exchange:
  fixes X X' A A' B B' :: "'x multiset"
  assumes "X' + A = X + A'" "A' + B' = A + B"
  shows "X' + B' = X + B"
proof (rule multiset_eqI)
  fix x
  show "count (X' + B') x = count (X + B) x"
    using arg_cong [OF assms(1), of "\<lambda>M. count M x"] arg_cong [OF assms(2), of "\<lambda>M. count M x"] by simp
qed

lemma mset_concat_update_id:
  "i < length vss \<Longrightarrow> mset (concat (vss[i := ws])) + mset (vss ! i) = mset (concat vss) + mset ws"
  using mset_concat_update [of i vss "\<lambda>x. x" ws] by simp

lemma live_Some: "live xs i = Some x \<longleftrightarrow> i < length xs \<and> xs ! i = Some x"
  by (auto simp: live_def)

lemma all_live_update:
  "\<forall>y. Some y \<in> set xs \<longrightarrow> P y \<Longrightarrow> (\<And>y. z = Some y \<Longrightarrow> P y) \<Longrightarrow> \<forall>y. Some y \<in> set (xs[i := z]) \<longrightarrow> P y"
  by (metis insertE set_update_subset_insert subsetD)

lemma owned_update:
  "i < length cs \<Longrightarrow> cs ! i = Some c
     \<Longrightarrow> mset (owned (cs[i := z])) + mset (lc_lanes c) = mset (owned cs) + mset (case_option [] lc_lanes z)"
  using mset_concat_update [of i cs "case_option [] lc_lanes" z] by (simp add: owned_def)

lemma staged_update:
  "i < length cs \<Longrightarrow> cs ! i = Some c \<Longrightarrow> batch_rep (lc_staging c) st
     \<Longrightarrow> mset (staged (cs[i := z])) + mset st = mset (staged cs) + mset (case_option [] (\<lambda>c. the (batch_as_slice (lc_staging c))) z)"
  using mset_concat_update [of i cs "case_option [] (\<lambda>c. the (batch_as_slice (lc_staging c)))" z]
  by (simp add: staged_def batch_as_slice_rep)

text \<open>The lanes of one live consumer together with the abandoned ones.\<close>

lemma owned_lanes_ok:
  assumes "lane_inv rep sys vss" "live (l_cs sys) i = Some c"
  shows "lanes_ok (l_shared sys) (lc_lanes c @ abandoned (l_shared sys))"
proof -
  let ?o = "concat (map (case_option [] lc_lanes) ((l_cs sys)[i := None]))" and ?a = "abandoned (l_shared sys)"
  have i: "i < length (l_cs sys)" "l_cs sys ! i = Some c" using assms(2) by (auto simp: live_Some)
  have "mset (owned (l_cs sys)) = mset ?o + mset (lc_lanes c)" using owned_update [OF i, of None] by (simp add: owned_def)
  then have m: "mset (?o @ lc_lanes c @ ?a) = mset [0..<length vss]" using assms(1) by (simp add: lane_inv_def add.assoc)
  have l: "length (?o @ lc_lanes c @ ?a) = length vss" using m by (metis diff_zero length_upt size_mset)
  have s: "set (lc_lanes c @ ?a) \<subseteq> {0..<length vss}" using mset_eq_setD [OF m] by auto
  show ?thesis using l s assms(1) by (auto simp: lanes_ok_def lane_inv_def grid_rep_def)
qed

text \<open>What is left to show when one endpoint and the shared part have changed.\<close>

lemma lane_inv_cs:
  assumes "lane_inv rep sys vss" "grid_rep rep sh vss'" "length vss' = length vss"
    "mset (owned ((l_cs sys)[i := z]) @ abandoned sh) = mset (owned (l_cs sys) @ abandoned (l_shared sys))"
    "\<And>c. z = Some c \<Longrightarrow> lc_batch c \<noteq> 0 \<and> (\<exists>st. batch_rep (lc_staging c) st)"
  shows "lane_inv rep (sys\<lparr>l_shared := sh, l_cs := (l_cs sys)[i := z]\<rparr>) vss'"
proof -
  have "\<forall>c. Some c \<in> set ((l_cs sys)[i := z]) \<longrightarrow> lc_batch c \<noteq> 0 \<and> (\<exists>st. batch_rep (lc_staging c) st)"
    using assms(1,5) by (intro all_live_update) (auto simp: lane_inv_def)
  moreover have "lanes_ok sh ls = lanes_ok (l_shared sys) ls" for ls
    using assms(1-3) by (simp add: lanes_ok_def lane_inv_def grid_rep_def)
  ultimately show ?thesis using assms(1-4) unfolding lane_inv_def by simp
qed

lemma lane_inv_ps:
  assumes "lane_inv rep sys vss" "grid_rep rep sh vss'" "length vss' = length vss" "abandoned sh = abandoned (l_shared sys)"
    "\<And>p. z = Some p \<Longrightarrow> lanes_ok (l_shared sys) (lp_lanes p)"
  shows "lane_inv rep (sys\<lparr>l_shared := sh, l_ps := (l_ps sys)[i := z]\<rparr>) vss'"
proof -
  have "\<forall>p. Some p \<in> set ((l_ps sys)[i := z]) \<longrightarrow> lanes_ok (l_shared sys) (lp_lanes p)"
    using assms(1,5) by (intro all_live_update) (auto simp: lane_inv_def)
  moreover have "lanes_ok sh ls = lanes_ok (l_shared sys) ls" for ls
    using assms(1-3) by (simp add: lanes_ok_def lane_inv_def grid_rep_def)
  ultimately show ?thesis using assms(1-4) unfolding lane_inv_def by simp
qed

lemma lane_scanned_mset:
  assumes "lane_scanned lim S P vss vss' got" "\<forall>l\<in>S. l < length vss"
  shows "mset (concat vss) = mset got + mset (concat vss')"
  using assms(1) unfolding lane_scanned_def
proof (elim disjE exE conjE)
  fix l k assume l: "l \<in> S" "vss' = vss[l := drop k (vss ! l)]" "got = take k (vss ! l)"
  have "mset (concat vss') + mset (vss ! l) = mset (concat vss) + mset (drop k (vss ! l))"
    using mset_concat_update_id [of l vss "drop k (vss ! l)"] l assms(2) by simp
  moreover have "mset (vss ! l) = mset got + mset (drop k (vss ! l))" unfolding l(3) by (metis append_take_drop_id mset_append)
  ultimately show ?thesis by (simp add: add.commute add.left_commute)
qed simp

context spsc_backend
begin

lemma lp_try_send_spec:
  assumes "grid_rep rep sh vss" "lanes_ok sh (lp_lanes p)"
  shows "\<exists>r sh' p' vss'. lp_try_send B sh p v = Some (r, sh', p') \<and> grid_rep rep sh' vss' \<and> same_grid ctl sh sh'
     \<and> lp_lanes p' = lp_lanes p
     \<and> (r = Ok () \<and> (\<exists>l\<in>set (lp_lanes p). accepts (ctl (lgrid sh ! l)) (vss ! l) \<and> vss' = vss[l := vss ! l @ [v]])
        \<or> r = Err v \<and> vss' = vss \<and> (\<forall>l\<in>set (lp_lanes p). \<not> accepts (ctl (lgrid sh ! l)) (vss ! l)))"
proof -
  have v: "visited (length (lp_lanes p)) (lp_lanes p) (lp_cursor p) = set (lp_lanes p)"
    using assms(2) by (intro visited_all) (simp add: lanes_ok_def)
  show ?thesis using lp_try_send_loop_spec [OF assms, of "length (lp_lanes p)" v] unfolding v lp_try_send_def by simp
qed

end

text \<open>A backend whose sending half may be dropped while values are buffered.\<close>

locale lane_backend = spsc_backend B rep ctl accepts pgone cgone
  for B :: "('q, 'a, 's) Backend" and rep and ctl :: "'q \<Rightarrow> 'c" and accepts pgone cgone +
  assumes drop_tx: "rep q vs \<Longrightarrow> \<exists>q'. bk_drop_tx B q = Some q' \<and> rep q' vs"
begin

lemma drop_lanes_spec:
  assumes "grid_rep rep sh vss" "\<forall>l\<in>set ls. l < length (lgrid sh)"
  shows "\<exists>sh'. drop_lanes (bk_drop_tx B) ls sh = Some sh' \<and> grid_rep rep sh' vss \<and> abandoned sh' = abandoned sh
     \<and> length (lgrid sh') = length (lgrid sh)"
  using assms
proof (induction ls arbitrary: sh)
  case (Cons l ls)
  have l: "l < length (lgrid sh)" "rep (lgrid sh ! l) (vss ! l)" using Cons.prems by (auto simp: grid_rep_def)
  obtain q where q: "bk_drop_tx B (lgrid sh ! l) = Some q" "rep q (vss ! l)" using drop_tx [OF l(2)] by blast
  let ?sh = "set_lane l q sh"
  have s: "grid_rep rep ?sh vss" using set_lane_rep(1) [where ctl = "\<lambda>_. ()", OF Cons.prems(1) l(1) q(2)] by simp
  have "\<forall>l\<in>set ls. l < length (lgrid ?sh)" using Cons.prems(2) by (simp add: set_lane_def)
  from Cons.IH [OF s this] show ?case using l(1) q(1) by (auto simp: set_lane_def)
qed simp

text \<open>\<open>lane_moves\<close>: a defined step that keeps the invariant and neither loses nor invents a value.\<close>

definition lane_moves :: "'a lop \<Rightarrow> ('q, 'a) LSys \<Rightarrow> 'a list list \<Rightarrow> bool" where
  "lane_moves opn sys vss \<longleftrightarrow> (\<exists>acc del des sys' vss'. lane_step B opn sys = Some (acc, del, des, sys') \<and> lane_inv rep sys' vss'
     \<and> length vss' = length vss
     \<and> mset (concat vss) + mset (staged (l_cs sys)) + mset acc = mset del + mset des + mset (concat vss') + mset (staged (l_cs sys')))"

lemma lane_movesI:
  "lane_step B opn sys = Some (acc, del, des, sys') \<Longrightarrow> lane_inv rep sys' vss' \<Longrightarrow> length vss' = length vss
     \<Longrightarrow> mset (concat vss) + mset (staged (l_cs sys)) + mset acc = mset del + mset des + mset (concat vss') + mset (staged (l_cs sys'))
     \<Longrightarrow> lane_moves opn sys vss"
  unfolding lane_moves_def by blast

lemma lane_send_moves:
  assumes inv: "lane_inv rep sys vss" and p: "live (l_ps sys) i = Some p"
  shows "lane_moves (LSend i v) sys vss"
proof -
  have i: "i < length (l_ps sys)" "Some p \<in> set (l_ps sys)" using p by (auto simp: live_Some dest: nth_mem)
  have ok: "lanes_ok (l_shared sys) (lp_lanes p)" "grid_rep rep (l_shared sys) vss" using inv i(2) by (auto simp: lane_inv_def)
  obtain r sh p' vss' where s: "lp_try_send B (l_shared sys) p v = Some (r, sh, p')" "grid_rep rep sh vss'" "same_grid ctl (l_shared sys) sh"
    "lp_lanes p' = lp_lanes p" and
    w0: "r = Ok () \<and> (\<exists>l\<in>set (lp_lanes p). accepts (ctl (lgrid (l_shared sys) ! l)) (vss ! l) \<and> vss' = vss[l := vss ! l @ [v]])
      \<or> r = Err v \<and> vss' = vss \<and> (\<forall>l\<in>set (lp_lanes p). \<not> accepts (ctl (lgrid (l_shared sys) ! l)) (vss ! l))"
    using lp_try_send_spec [OF ok(2,1), of v] by (elim exE conjE) (rule that)
  then have w: "(\<exists>l\<in>set (lp_lanes p). r = Ok () \<and> vss' = vss[l := vss ! l @ [v]]) \<or> r = Err v \<and> vss' = vss" by blast
  have len: "length vss' = length vss" using w by auto
  let ?sys = "sys\<lparr>l_shared := sh, l_ps := (l_ps sys)[i := Some p']\<rparr>"
  have "lane_inv rep ?sys vss'"
    using s(3,4) ok(1) by (intro lane_inv_ps [OF inv s(2) len]) (auto simp: same_grid_def)
  moreover have "mset (concat vss) + mset (case r of Ok _ \<Rightarrow> [v] | Err _ \<Rightarrow> []) = mset (concat vss')"
    using w
  proof (elim disjE conjE bexE)
    fix l assume l: "r = Ok ()" "l \<in> set (lp_lanes p)" "vss' = vss[l := vss ! l @ [v]]"
    then have "l < length vss" using ok by (auto simp: lanes_ok_def grid_rep_def)
    from mset_concat_update_id [OF this, of "vss ! l @ [v]"] show ?thesis using l by simp
  qed simp
  ultimately show ?thesis using s(1) p len
    by (intro lane_movesI [where acc = "case r of Ok _ \<Rightarrow> [v] | Err _ \<Rightarrow> []" and sys' = ?sys and vss' = vss' and del = "[]" and des = "[]"])
      (auto simp: add.assoc add.commute)
qed

lemma lane_recv_moves:
  assumes inv: "lane_inv rep sys vss" and c: "live (l_cs sys) i = Some c"
  shows "lane_moves (LRecv i) sys vss"
proof -
  let ?sh = "l_shared sys"
  have i: "i < length (l_cs sys)" "l_cs sys ! i = Some c" "Some c \<in> set (l_cs sys)" using c by (auto simp: live_Some dest: nth_mem)
  obtain st where st: "batch_rep (lc_staging c) st" "lc_batch c \<noteq> 0" "grid_rep rep ?sh vss" using inv i(3) by (auto simp: lane_inv_def)
  obtain v sh c' vss' st' where s: "lc_try_recv B ?sh c = Some (v, [], sh, c')" "grid_rep rep sh vss'"
    "same_grid ctl (?sh\<lparr>abandoned := abandoned sh\<rparr>) sh" "lc_lanes c' @ abandoned sh = lc_lanes c @ abandoned ?sh"
    "lc_batch c' = lc_batch c" "batch_rep (lc_staging c') st'" and
    w: "if st \<noteq> [] then v = Some (hd st) \<and> st' = tl st \<and> vss' = vss
        else \<exists>got. lane_scanned (unat (lc_batch c)) (set (lc_lanes c @ abandoned ?sh)) (set (lc_lanes c @ abandoned ?sh)) vss vss' got
           \<and> v = (case got of [] \<Rightarrow> None | x # _ \<Rightarrow> Some x) \<and> st' = tl got"
    using lc_try_recv_spec [OF st(3) owned_lanes_ok [OF inv c] st(1,2)] by (elim exE conjE) (rule that)
  have move: "mset (concat vss) + mset st = mset (case v of None \<Rightarrow> [] | Some v \<Rightarrow> [v]) + mset (concat vss') + mset st'" (is ?move)
  proof (cases "st = []")
    case False
    then show ?thesis using w by (cases st) auto
  next
    case True
    then obtain got where g: "lane_scanned (unat (lc_batch c)) (set (lc_lanes c @ abandoned ?sh)) (set (lc_lanes c @ abandoned ?sh)) vss vss' got"
      "v = (case got of [] \<Rightarrow> None | x # _ \<Rightarrow> Some x)" "st' = tl got" using w by auto
    have "mset (case v of None \<Rightarrow> [] | Some v \<Rightarrow> [v]) + mset st' = mset got" using g(2,3) by (cases got) auto
    moreover have "mset (concat vss) = mset got + mset (concat vss')"
      using lane_scanned_mset [OF g(1)] owned_lanes_ok [OF inv c] st(3) by (simp add: lanes_ok_def grid_rep_def)
    ultimately show ?thesis using True by (simp add: ac_simps)
  qed
  have len: "length vss' = length vss" using s(2) st(3) same_grid_length [OF s(3)] by (simp add: grid_rep_def)
  let ?cs = "(l_cs sys)[i := Some c']" and ?sys = "sys\<lparr>l_shared := sh, l_cs := (l_cs sys)[i := Some c']\<rparr>"
  have part: "mset (owned ?cs @ abandoned sh) = mset (owned (l_cs sys) @ abandoned ?sh)"
  proof -
    have "mset (lc_lanes c') + mset (abandoned sh) = mset (lc_lanes c) + mset (abandoned ?sh)"
      using arg_cong [OF s(4), of mset] by simp
    then show ?thesis using mset_exchange [OF owned_update [OF i(1,2), of "Some c'"]] by (simp only: option.case mset_append)
  qed
  have "lane_inv rep ?sys vss'" by (rule lane_inv_cs [OF inv s(2) len part]) (use s(5,6) st(2) in auto)
  moreover have st2: "mset (staged ?cs) + mset st = mset (staged (l_cs sys)) + mset st'"
    using staged_update [OF i(1,2) st(1), of "Some c'"] batch_as_slice_rep [OF s(6)] by simp
  have "mset (concat vss) + mset (staged (l_cs sys)) = mset (case v of None \<Rightarrow> [] | Some v \<Rightarrow> [v]) + mset (concat vss') + mset (staged ?cs)"
  proof (rule multiset_eqI)
    fix x
    show "count (mset (concat vss) + mset (staged (l_cs sys))) x
      = count (mset (case v of None \<Rightarrow> [] | Some v \<Rightarrow> [v]) + mset (concat vss') + mset (staged ?cs)) x"
      using arg_cong [OF move, of "\<lambda>M. count M x"] arg_cong [OF st2, of "\<lambda>M. count M x"] by (simp only: count_union)
  qed
  ultimately show ?thesis using s(1) c len
    by (intro lane_movesI [where acc = "[]" and sys' = ?sys and vss' = vss' and del = "case v of None \<Rightarrow> [] | Some v \<Rightarrow> [v]" and des = "[]"])
      auto
qed

lemma lane_drop_producer_moves:
  assumes inv: "lane_inv rep sys vss" and p: "live (l_ps sys) i = Some p"
  shows "lane_moves (LDropProducer i) sys vss"
proof -
  let ?sh = "(l_shared sys)\<lparr>l_producers := l_producers (l_shared sys) - 1\<rparr>"
  have i: "Some p \<in> set (l_ps sys)" using p by (auto simp: live_Some dest: nth_mem)
  have "grid_rep rep ?sh vss" "\<forall>l\<in>set (lp_lanes p). l < length (lgrid ?sh)"
    using inv i by (auto simp: lane_inv_def grid_rep_def lanes_ok_def)
  then obtain sh where s: "drop_lproducer B (l_shared sys) p = Some sh" "grid_rep rep sh vss" "abandoned sh = abandoned ?sh"
    using drop_lanes_spec [of ?sh vss "lp_lanes p"] by (auto simp: drop_lproducer_def)
  have "lane_inv rep (sys\<lparr>l_shared := sh, l_ps := (l_ps sys)[i := None]\<rparr>) vss"
    using lane_inv_ps [OF inv s(2), of None i] s(3) by simp
  then show ?thesis using s(1) p by (intro lane_movesI) auto
qed

lemma lane_drop_consumer_moves:
  assumes inv: "lane_inv rep sys vss" and c: "live (l_cs sys) i = Some c"
  shows "lane_moves (LDropConsumer i) sys vss"
proof -
  let ?sh = "l_shared sys"
  have i: "i < length (l_cs sys)" "l_cs sys ! i = Some c" "Some c \<in> set (l_cs sys)" using c by (auto simp: live_Some dest: nth_mem)
  obtain st where st: "batch_rep (lc_staging c) st" using inv i(3) by (auto simp: lane_inv_def)
  let ?sh' = "?sh\<lparr>abandoned := abandoned ?sh @ lc_lanes c, l_consumers := l_consumers ?sh - 1\<rparr>"
  have d: "drop_lconsumer ?sh c = Some (st, ?sh')" using batch_clear_rep [OF st] by (simp add: drop_lconsumer_def)
  have g: "grid_rep rep ?sh' vss" using inv by (simp add: lane_inv_def grid_rep_def)
  have part: "mset (owned ((l_cs sys)[i := None]) @ abandoned ?sh') = mset (owned (l_cs sys) @ abandoned ?sh)"
    using owned_update [OF i(1,2), of None] by (simp add: ac_simps)
  have "lane_inv rep (sys\<lparr>l_shared := ?sh', l_cs := (l_cs sys)[i := None]\<rparr>) vss"
    by (rule lane_inv_cs [OF inv g _ part]) auto
  moreover have "mset (staged ((l_cs sys)[i := None])) + mset st = mset (staged (l_cs sys))"
    using staged_update [OF i(1,2) st, of None] by simp
  ultimately show ?thesis using d c by (intro lane_movesI) (auto simp: ac_simps)
qed

lemma lane_step_moves:
  assumes "lane_inv rep sys vss"
  shows "lane_moves opn sys vss"
proof -
  have idle: "lane_step B opn sys = Some ([], [], [], sys) \<Longrightarrow> lane_moves opn sys vss"
    using assms by (intro lane_movesI) auto
  show ?thesis
  proof (cases opn)
    case (LSend i v)
    then show ?thesis using idle lane_send_moves [OF assms] by (cases "live (l_ps sys) i") auto
  next
    case (LRecv i)
    then show ?thesis using idle lane_recv_moves [OF assms] by (cases "live (l_cs sys) i") auto
  next
    case (LDropProducer i)
    then show ?thesis using idle lane_drop_producer_moves [OF assms] by (cases "live (l_ps sys) i") auto
  next
    case (LDropConsumer i)
    then show ?thesis using idle lane_drop_consumer_moves [OF assms] by (cases "live (l_cs sys) i") auto
  qed
qed

lemma lane_run_spec:
  assumes "lane_inv rep sys vss"
  shows "\<exists>acc del des sys' vss'. lane_run B ops sys = Some (acc, del, des, sys') \<and> lane_inv rep sys' vss' \<and> length vss' = length vss
     \<and> mset (concat vss) + mset (staged (l_cs sys)) + mset acc = mset del + mset des + mset (concat vss') + mset (staged (l_cs sys'))"
  using assms
proof (induction ops arbitrary: sys vss)
  case Nil
  then show ?case by (intro exI [of _ "[]"] exI [of _ sys] exI [of _ vss]) simp
next
  case (Cons opn ops)
  obtain acc del des sys1 vss1 where s: "lane_step B opn sys = Some (acc, del, des, sys1)" "lane_inv rep sys1 vss1" "length vss1 = length vss"
    "mset (concat vss) + mset (staged (l_cs sys)) + mset acc = mset del + mset des + mset (concat vss1) + mset (staged (l_cs sys1))"
    using lane_step_moves [OF Cons.prems, of opn] unfolding lane_moves_def by (elim exE conjE) (rule that)
  obtain acc' del' des' sys' vss' where r: "lane_run B ops sys1 = Some (acc', del', des', sys')" "lane_inv rep sys' vss'" "length vss' = length vss1"
    "mset (concat vss1) + mset (staged (l_cs sys1)) + mset acc' = mset del' + mset des' + mset (concat vss') + mset (staged (l_cs sys'))"
    using Cons.IH [OF s(2)] by (elim exE conjE) (rule that)
  have "lane_run B (opn # ops) sys = Some (acc @ acc', del @ del', des @ des', sys')" using s(1) r(1) by simp
  moreover have "mset (concat vss) + mset (staged (l_cs sys)) + mset (acc @ acc') = mset (del @ del') + mset (des @ des') + mset (concat vss') + mset (staged (l_cs sys'))"
  proof (rule multiset_eqI)
    fix x
    show "count (mset (concat vss) + mset (staged (l_cs sys)) + mset (acc @ acc')) x
      = count (mset (del @ del') + mset (des @ des') + mset (concat vss') + mset (staged (l_cs sys'))) x"
      using arg_cong [OF s(4), of "\<lambda>M. count M x"] arg_cong [OF r(4), of "\<lambda>M. count M x"] by (simp only: mset_append count_union)
  qed
  ultimately show ?case using r(2,3) s(3) by - (rule exI [of _ "acc @ acc'"], rule exI [of _ "del @ del'"], rule exI [of _ "des @ des'"], rule exI [of _ sys'], rule exI [of _ vss'], simp)
qed

end

definition lanes_start :: "'q LShared \<Rightarrow> LProducer list \<Rightarrow> 'a LConsumer list \<Rightarrow> ('q, 'a) LSys" where
  "lanes_start sh ps cs = \<lparr>l_shared = sh, l_ps = map Some ps, l_cs = map Some cs\<rparr>"

lemma mset_concat_snoc: "mset (concat (map (\<lambda>c. f c @ [g c]) cs)) = mset (concat (map f cs)) + mset (map g cs)"
  by (induction cs) simp_all

lemma lane_numbers: "mset (concat (map (\<lambda>c. map (\<lambda>p. p * nc + c) [0..<np]) [0..<nc])) = mset [0..<np * nc]"
proof (induction np)
  case 0
  show ?case by (simp add: concat_eq_Nil_conv)
next
  case (Suc np)
  have "[0..<Suc np * nc] = [0..<np * nc] @ map (\<lambda>c. np * nc + c) [0..<nc]"
    using upt_add_eq_append [of 0 "np * nc" nc] map_add_upt [of "np * nc" nc] by (simp add: add.commute)
  then show ?case using Suc by (simp only: upt_Suc_append [OF le0] map_append list.map mset_concat_snoc mset_append)
qed

lemma those_replicate_SomeD: "those (replicate n x) = Some qs \<Longrightarrow> length qs = n \<and> (\<forall>q\<in>set qs. x = Some q)"
proof (induction n arbitrary: qs)
  case (Suc n)
  then show ?case by (cases x) auto
qed simp

lemma hd_option_None: "None = (case xs of [] \<Rightarrow> None | x # _ \<Rightarrow> Some x) \<longleftrightarrow> xs = []"
  by (cases xs) simp_all

context lane_backend
begin

lemma lanes_open_inv:
  assumes "lanes_open B producers consumers lane_capacity = Some (sh, ps, cs)" "unat producers * unat consumers < 2 ^ 64"
  shows "lane_inv rep (lanes_start sh ps cs) (replicate (unat producers * unat consumers) [])" "staged (map Some cs) = []"
proof -
  let ?np = "unat producers" and ?nc = "unat consumers"
  obtain qs where q: "those (replicate (?np * ?nc) (bk_channel B lane_capacity)) = Some qs" and
    d: "sh = \<lparr>lgrid = qs, l_producers = producers, l_consumers = consumers, abandoned = []\<rparr>"
      "ps = map (\<lambda>p. \<lparr>lp_lanes = map (\<lambda>c. p * ?nc + c) [0..<?nc], lp_cursor = of_nat (p mod ?nc)\<rparr>) [0..<?np]"
      "cs = map (\<lambda>c. \<lparr>lc_lanes = map (\<lambda>p. p * ?nc + c) [0..<?np], lc_cursor = of_nat (c mod ?np), lc_staging = batch_new, lc_batch = 64\<rparr>) [0..<?nc]"
    using assms(1) by (auto simp: lanes_open_def Let_def bind_eq_Some_conv split: if_splits)
  have l: "length qs = ?np * ?nc" and r: "\<forall>q\<in>set qs. rep q []" using those_replicate_SomeD [OF q] new by auto
  have "mset (owned (map Some cs)) = mset [0..<?np * ?nc]" using lane_numbers [where np = ?np and nc = ?nc] by (simp add: owned_def d comp_def)
  moreover have "l < ?np * ?nc" if "p < ?np" "l < ?nc + p * ?nc" for p l
  proof -
    have "l < Suc p * ?nc" using that(2) by simp
    also have "\<dots> \<le> ?np * ?nc" using that(1) by (intro mult_le_mono1) simp
    finally show ?thesis .
  qed
  moreover have "?nc < 2 ^ 64" using unsigned_less [where ?'a = nat, of consumers] by simp
  ultimately show "lane_inv rep (lanes_start sh ps cs) (replicate (?np * ?nc) [])" using assms(2) l r
    by (auto simp: lane_inv_def lanes_start_def grid_rep_def lanes_ok_def d exI [of _ "[]"])
  show "staged (map Some cs) = []" by (auto simp: staged_def d batch_as_slice_rep [OF batch_rep_new])
qed

lemma lanes_run_lossless:
  assumes "lanes_open B producers consumers lane_capacity = Some (sh, ps, cs)" "unat producers * unat consumers < 2 ^ 64"
  shows "\<exists>acc del des sys vss. lane_run B ops (lanes_start sh ps cs) = Some (acc, del, des, sys) \<and> lane_inv rep sys vss
     \<and> length vss = unat producers * unat consumers
     \<and> mset acc = mset del + mset des + mset (concat vss) + mset (staged (l_cs sys))"
  using lane_run_spec [OF lanes_open_inv(1) [OF assms], of ops] lanes_open_inv(2) [OF assms]
  by (auto simp: lanes_start_def concat_eq_Nil_conv)

lemma last_reader_empties:
  assumes inv: "lane_inv rep sys vss" and c: "live (l_cs sys) i = Some c" and only: "\<forall>j. j \<noteq> i \<longrightarrow> live (l_cs sys) j = None"
    and none: "lc_try_recv B (l_shared sys) c = Some (None, d, sh', c')"
  shows "concat vss = []" "staged (l_cs sys) = []"
proof -
  have i: "i < length (l_cs sys)" "l_cs sys ! i = Some c" "Some c \<in> set (l_cs sys)" using c by (auto simp: live_Some dest: nth_mem)
  obtain st where st: "batch_rep (lc_staging c) st" "lc_batch c \<noteq> 0" "grid_rep rep (l_shared sys) vss" using inv i(3) by (auto simp: lane_inv_def)
  have st0: "st = []" and e: "\<forall>l\<in>set (lc_lanes c @ abandoned (l_shared sys)). vss ! l = []"
    using lc_try_recv_spec [OF st(3) owned_lanes_ok [OF inv c] st(1,2)] none
    by (auto simp: lane_scanned_def hd_option_None split: if_splits)
  have cs: "l_cs sys = (replicate (length (l_cs sys)) None)[i := Some c]"
    using only i(1,2) by (intro nth_equalityI) (auto simp: nth_list_update live_def)
  have "mset (owned (l_cs sys)) = mset (lc_lanes c)"
    using mset_concat_update [of i "replicate (length (l_cs sys)) None" "case_option [] lc_lanes" "Some c"] i(1) unfolding owned_def
    by (subst cs) (simp add: concat_eq_Nil_conv)
  then have "set (lc_lanes c @ abandoned (l_shared sys)) = {0..<length vss}"
    using inv mset_eq_setD [of "lc_lanes c @ abandoned (l_shared sys)" "[0..<length vss]"] by (simp add: lane_inv_def)
  then have "vss ! l = []" if "l < length vss" for l using e that by simp
  then show "concat vss = []" by (auto simp: concat_eq_Nil_conv in_set_conv_nth)
  have "mset (staged (l_cs sys)) = {#}"
    using mset_concat_update [of i "replicate (length (l_cs sys)) None" "case_option [] (\<lambda>c. the (batch_as_slice (lc_staging c)))" "Some c"] i(1) st0 st(1)
    unfolding staged_def by (subst cs) (simp add: concat_eq_Nil_conv batch_as_slice_rep)
  then show "staged (l_cs sys) = []" by simp
qed

end

lemma ring_rep_drop_sender: "ring_rep r vs \<Longrightarrow> ring_rep (drop_sender r) vs"
  by (auto simp: ring_rep_def ring_at_def drop_sender_def)

interpretation ring_lanes: lane_backend ring_backend ring_rep ring_ctl ring_accepts "\<lambda>c. fst (snd c)" "\<lambda>c. snd (snd c)"
  by unfold_locales (simp add: ring_rep_drop_sender)

interpretation seg_lanes: lane_backend seg_backend seg_rep seg_live seg_accepts fst snd
  by unfold_locales (simp add: seg_rep_def drop_seg_tx_def)

context spsc_backend
begin

lemma lc_try_recv_empty:
  assumes "grid_rep rep sh vss" "lanes_ok sh (lc_lanes c @ abandoned sh)" "batch_rep (lc_staging c) []" "lc_batch c \<noteq> 0" "concat vss = []"
  shows "\<exists>sh' c'. lc_try_recv B sh c = Some (None, [], sh', c')"
proof -
  obtain v sh' c' vss' got where r: "lc_try_recv B sh c = Some (v, [], sh', c')" "v = (case got of [] \<Rightarrow> None | x # _ \<Rightarrow> Some x)"
    "lane_scanned (unat (lc_batch c)) (set (lc_lanes c @ abandoned sh)) (set (lc_lanes c @ abandoned sh)) vss vss' got"
    using lc_try_recv_spec [OF assms(1-4)] by auto
  have "mset got + mset (concat vss') = {#}"
    using lane_scanned_mset [OF r(3)] assms(1,2,5) by (simp add: lanes_ok_def grid_rep_def)
  then show ?thesis using r(1,2) by simp
qed

end

section \<open>Properties\<close>

text \<open>
  C32. Whatever sequence of sends, receives and drops the endpoints of a lane grid perform, every operation is defined;
  the lanes of the live consumers together with the abandoned ones are always each lane of the grid exactly once, so
  every lane has one reader; and every accepted value is in exactly one of these places: delivered, destroyed with a
  dropped consumer's staging, staged by a live consumer, or buffered in a lane.
\<close>

theorem lanes_lossless:
  assumes "lanes_open (ring_backend :: ('a Ring, 'a, 's) Backend) producers consumers lane_capacity = Some (sh, ps, cs)"
    "unat producers * unat consumers < 2 ^ 64"
  shows "\<exists>acc del des sys vss. lane_run (ring_backend :: ('a Ring, 'a, 's) Backend) ops (lanes_start sh ps cs) = Some (acc, del, des, sys)
     \<and> grid_rep ring_rep (l_shared sys) vss
     \<and> mset (owned (l_cs sys) @ abandoned (l_shared sys)) = mset [0..<unat producers * unat consumers]
     \<and> mset acc = mset del + mset des + mset (staged (l_cs sys)) + mset (concat vss)"
  using ring_lanes.lanes_run_lossless [OF assms, of ops] unfolding lane_inv_def
  by (elim exE conjE) (intro exI conjI, assumption+, simp_all add: ac_simps)

lemma lanes_open_ring:
  assumes "0 < producers" "0 < consumers" "ring lane_capacity = Some (r :: 'a Ring)"
  shows "\<exists>sh ps cs. lanes_open (ring_backend :: ('a Ring, 'a, 's) Backend) producers consumers lane_capacity = Some (sh, ps, cs)
    \<and> length ps = unat producers \<and> length cs = unat consumers"
  using assms by (auto simp: lanes_open_def Let_def unat_eq_0 those_replicate_Some)

lemma lanes_lossless_witness:
  "\<exists>sh ps cs acc del des sys vss. lanes_open (ring_backend :: (nat Ring, nat, unit) Backend) 2 3 4 = Some (sh, ps, cs)
     \<and> lane_run (ring_backend :: (nat Ring, nat, unit) Backend) [LSend 0 7, LSend 1 8, LRecv 2, LDropConsumer 0, LRecv 1] (lanes_start sh ps cs)
         = Some (acc, del, des, sys)
     \<and> grid_rep ring_rep (l_shared sys) vss \<and> mset acc = mset del + mset des + mset (staged (l_cs sys)) + mset (concat vss)"
proof -
  obtain sh ps cs where o: "lanes_open (ring_backend :: (nat Ring, nat, unit) Backend) 2 3 4 = Some (sh, ps, cs)"
    using lanes_open_ring [of 2 3 4] ring_defined [of 4] by (force simp: word_less_nat_alt)
  from lanes_lossless [OF o, of "[LSend 0 7, LSend 1 8, LRecv 2, LDropConsumer 0, LRecv 1]"] o show ?thesis by auto
qed

text \<open>
  C33. No value is stranded by dropped consumers: once a single consumer is left, whichever endpoints were dropped in
  whatever order before, and its receive reports nothing, then every value that was ever accepted has been delivered, or
  was destroyed with the staging of a dropped consumer.
\<close>

theorem lanes_last_reader:
  assumes "lanes_open (ring_backend :: ('a Ring, 'a, 's) Backend) producers consumers lane_capacity = Some (sh, ps, cs)"
    "unat producers * unat consumers < 2 ^ 64"
    "lane_run (ring_backend :: ('a Ring, 'a, 's) Backend) ops (lanes_start sh ps cs) = Some (acc, del, des, sys)"
    "live (l_cs sys) i = Some c" "\<forall>j. j \<noteq> i \<longrightarrow> live (l_cs sys) j = None"
    "lc_try_recv (ring_backend :: ('a Ring, 'a, 's) Backend) (l_shared sys) c = Some (None, d, sh', c')"
  shows "mset acc = mset del + mset des"
proof -
  obtain vss where v: "lane_inv ring_rep sys vss" "mset acc = mset del + mset des + mset (concat vss) + mset (staged (l_cs sys))"
    using ring_lanes.lanes_run_lossless [OF assms(1,2), of ops] assms(3) by auto
  show ?thesis using v(2) ring_lanes.last_reader_empties [OF v(1) assms(4-6)] by simp
qed

lemma lanes_last_reader_witness:
  "\<exists>sh ps cs acc del des sys c d sh' c'. lanes_open (ring_backend :: (nat Ring, nat, unit) Backend) 1 2 4 = Some (sh, ps, cs)
     \<and> lane_run (ring_backend :: (nat Ring, nat, unit) Backend) [LDropConsumer 0] (lanes_start sh ps cs) = Some (acc, del, des, sys)
     \<and> live (l_cs sys) 1 = Some c \<and> lc_try_recv (ring_backend :: (nat Ring, nat, unit) Backend) (l_shared sys) c = Some (None, d, sh', c')
     \<and> mset acc = mset del + mset des"
proof -
  obtain sh ps cs where o: "lanes_open (ring_backend :: (nat Ring, nat, unit) Backend) 1 2 4 = Some (sh, ps, cs)" and cs: "length cs = 2"
    using lanes_open_ring [of 1 2 4] ring_defined [of 4] by (force simp: word_less_nat_alt)
  have fit: "unat (1 :: usize) * unat (2 :: usize) < 2 ^ 64" by simp
  let ?B = "ring_backend :: (nat Ring, nat, unit) Backend"
  obtain acc del des sys vss where r: "lane_run ?B [LDropConsumer 0] (lanes_start sh ps cs) = Some (acc, del, des, sys)" and
    inv: "lane_inv ring_rep sys vss" and m: "mset acc = mset del + mset des + mset (concat vss) + mset (staged (l_cs sys))"
    using ring_lanes.lanes_run_lossless [where ?'b = unit, OF o fit, of "[LDropConsumer 0]"] by (elim exE conjE) (rule that)
  have s: "acc = []" "l_cs sys = [None, Some (cs ! 1)]"
    using r cs by (auto simp: lanes_start_def live_def bind_eq_Some_conv length_Suc_conv numeral_2_eq_2)
  then have e: "concat vss = []" "staged (l_cs sys) = []" using m by auto
  let ?c = "cs ! 1"
  have c: "live (l_cs sys) 1 = Some ?c" "\<forall>j. j \<noteq> 1 \<longrightarrow> live (l_cs sys) j = None" using s(2) by (auto simp: live_def nth_Cons split: nat.splits)
  obtain st where st: "batch_rep (lc_staging ?c) st" "lc_batch ?c \<noteq> 0" "grid_rep ring_rep (l_shared sys) vss" using inv s(2) by (auto simp: lane_inv_def)
  have "st = []" using e(2) s(2) batch_as_slice_rep [OF st(1)] by (simp add: staged_def)
  then obtain d sh' c' where n: "lc_try_recv ?B (l_shared sys) ?c = Some (None, d, sh', c')"
    using ring_bk.lc_try_recv_empty [where ?'b = unit, OF st(3) owned_lanes_ok [OF inv c(1)] _ st(2) e(1)] st(1) by blast
  show ?thesis using o r c(1) n lanes_last_reader [OF o fit r c n] by blast
qed

end
