(* ===== verification/Task_Waker.thy ===== *)
theory Task_Waker
  imports Prelude
begin

text \<open>
  Task notification of the asynchronous endpoints (\<open>src/src/task_waker.rs\<close>). The waker cell itself comes from
  the \<open>atomic-waker\<close> package; it is the parameter \<open>A\<close> of the definitions, and \<open>waker_cell\<close> states the documented
  behaviour that the handshake relies on. The field \<open>woken\<close> lists the tasks that have been woken, in order.
\<close>

section \<open>Task waiters\<close>

record ('k, 'w) AtomicWaker =
  aw_new :: 'k
  aw_register :: "'w \<Rightarrow> 'k \<Rightarrow> 'k"
  aw_wake :: "'k \<Rightarrow> 'w option \<times> 'k"
  aw_take :: "'k \<Rightarrow> 'w option \<times> 'k"

record ('k, 'w) TaskWaiter =
  waker :: 'k
  waiting :: bool
  needs_clear :: bool
  woken :: "'w list"

definition task_waiter_new :: "('k, 'w) AtomicWaker \<Rightarrow> ('k, 'w) TaskWaiter" where
  "task_waiter_new A = \<lparr>waker = aw_new A, waiting = False, needs_clear = False, woken = []\<rparr>"

definition task_register :: "('k, 'w) AtomicWaker \<Rightarrow> 'w \<Rightarrow> ('k, 'w) TaskWaiter \<Rightarrow> ('k, 'w) TaskWaiter" where
  "task_register A w t = t\<lparr>waker := aw_register A w (waker t)\<rparr>"

definition task_wake :: "('k, 'w) AtomicWaker \<Rightarrow> ('k, 'w) TaskWaiter \<Rightarrow> ('k, 'w) TaskWaiter" where
  "task_wake A t = (let (w, k) = aw_wake A (waker t) in t\<lparr>waker := k, woken := woken t @ (case w of None \<Rightarrow> [] | Some w \<Rightarrow> [w])\<rparr>)"

definition task_clear :: "('k, 'w) AtomicWaker \<Rightarrow> ('k, 'w) TaskWaiter \<Rightarrow> ('k, 'w) TaskWaiter" where
  "task_clear A t = t\<lparr>waker := snd (aw_take A (waker t))\<rparr>"

definition tw_arm :: "('k, 'w) AtomicWaker \<Rightarrow> 'w \<Rightarrow> ('k, 'w) TaskWaiter \<Rightarrow> ('k, 'w) TaskWaiter" where
  "tw_arm A w t = (task_register A w (t\<lparr>needs_clear := True\<rparr>))\<lparr>waiting := True\<rparr>"

definition tw_clear :: "('k, 'w) AtomicWaker \<Rightarrow> ('k, 'w) TaskWaiter \<Rightarrow> ('k, 'w) TaskWaiter" where
  "tw_clear A t = (if \<not> needs_clear t then t else task_clear A (t\<lparr>needs_clear := False, waiting := False\<rparr>))"

definition tw_notify :: "('k, 'w) AtomicWaker \<Rightarrow> ('k, 'w) TaskWaiter \<Rightarrow> ('k, 'w) TaskWaiter" where
  "tw_notify A t = (if waiting t then task_wake A (t\<lparr>waiting := False\<rparr>) else t)"

text \<open>What the package documents of a cell: a wake yields the waker registered last, once, and nothing after a take.\<close>

definition waker_cell :: "('k, 'w) AtomicWaker \<Rightarrow> bool" where
  "waker_cell A \<longleftrightarrow> (\<forall>w k. fst (aw_wake A (aw_register A w k)) = Some w)
     \<and> fst (aw_wake A (aw_new A)) = None
     \<and> (\<forall>k. fst (aw_wake A (snd (aw_wake A k))) = None) \<and> (\<forall>k. fst (aw_wake A (snd (aw_take A k))) = None)"

text \<open>A cell that behaves so.\<close>

definition option_cell :: "('w option, 'w) AtomicWaker" where
  "option_cell = \<lparr>aw_new = None, aw_register = (\<lambda>w _. Some w), aw_wake = (\<lambda>k. (k, None)), aw_take = (\<lambda>k. (k, None))\<rparr>"

lemma option_cell_lawful: "waker_cell option_cell"
  by (simp add: waker_cell_def option_cell_def)

section \<open>The handshake, step by step\<close>

text \<open>
  One registering endpoint and any number of publishers, one atomic access per step; the sequentially consistent
  fences on both sides make the interleaving semantics the right one for these accesses. The endpoint arms, then
  looks at every publication; a publisher publishes, then notifies. The swap of \<open>notify\<close> decides who wakes.
\<close>

datatype arm_pc = ANeeds | ARegister | AWaiting | ACheck nat | APending | AReady
datatype pub_pc = NPublish | NLoad | NSwap | NWake | NDone

record ('k, 'w) Handshake =
  hw :: "('k, 'w) TaskWaiter"
  published :: "bool list"
  apc :: arm_pc
  ppcs :: "pub_pc list"

definition handshake_start :: "('k, 'w) AtomicWaker \<Rightarrow> nat \<Rightarrow> ('k, 'w) Handshake" where
  "handshake_start A n = \<lparr>hw = task_waiter_new A, published = replicate n False, apc = ANeeds, ppcs = replicate n NPublish\<rparr>"

fun arm_step :: "('k, 'w) AtomicWaker \<Rightarrow> 'w \<Rightarrow> ('k, 'w) Handshake \<Rightarrow> ('k, 'w) Handshake option" where
  "arm_step A w h =
     (case apc h of
        ANeeds \<Rightarrow> Some (h\<lparr>hw := (hw h)\<lparr>needs_clear := True\<rparr>, apc := ARegister\<rparr>)
      | ARegister \<Rightarrow> Some (h\<lparr>hw := task_register A w (hw h), apc := AWaiting\<rparr>)
      | AWaiting \<Rightarrow> Some (h\<lparr>hw := (hw h)\<lparr>waiting := True\<rparr>, apc := ACheck 0\<rparr>)
      | ACheck i \<Rightarrow>
          Some (if i < length (published h)
                then (if published h ! i then h\<lparr>apc := AReady\<rparr> else h\<lparr>apc := ACheck (i + 1)\<rparr>)
                else h\<lparr>apc := APending\<rparr>)
      | _ \<Rightarrow> None)"

fun publish_step :: "('k, 'w) AtomicWaker \<Rightarrow> nat \<Rightarrow> ('k, 'w) Handshake \<Rightarrow> ('k, 'w) Handshake option" where
  "publish_step A i h =
     (if i < length (ppcs h)
      then (case ppcs h ! i of
              NPublish \<Rightarrow> Some (h\<lparr>published := (published h)[i := True], ppcs := (ppcs h)[i := NLoad]\<rparr>)
            | NLoad \<Rightarrow> Some (h\<lparr>ppcs := (ppcs h)[i := if waiting (hw h) then NSwap else NDone]\<rparr>)
            | NSwap \<Rightarrow> Some (h\<lparr>hw := (hw h)\<lparr>waiting := False\<rparr>, ppcs := (ppcs h)[i := if waiting (hw h) then NWake else NDone]\<rparr>)
            | NWake \<Rightarrow> Some (h\<lparr>hw := task_wake A (hw h), ppcs := (ppcs h)[i := NDone]\<rparr>)
            | NDone \<Rightarrow> None)
      else None)"

inductive handshake :: "('k, 'w) AtomicWaker \<Rightarrow> 'w \<Rightarrow> nat \<Rightarrow> ('k, 'w) Handshake \<Rightarrow> bool" for A w n where
  start: "handshake A w n (handshake_start A n)"
| arm: "handshake A w n h \<Longrightarrow> arm_step A w h = Some h' \<Longrightarrow> handshake A w n h'"
| publish: "handshake A w n h \<Longrightarrow> publish_step A i h = Some h' \<Longrightarrow> handshake A w n h'"

section \<open>No wake is lost\<close>

definition armed :: "arm_pc \<Rightarrow> bool" where
  "armed pc \<longleftrightarrow> pc \<notin> {ANeeds, ARegister, AWaiting}"

text \<open>How many publications the endpoint has found unpublished.\<close>

fun checked :: "nat \<Rightarrow> arm_pc \<Rightarrow> nat" where
  "checked n (ACheck i) = i"
| "checked n APending = n"
| "checked n _ = 0"

definition wakers :: "pub_pc list \<Rightarrow> nat" where
  "wakers pcs = count_list pcs NWake"

definition handshake_inv :: "('k, 'w) AtomicWaker \<Rightarrow> 'w \<Rightarrow> nat \<Rightarrow> ('k, 'w) Handshake \<Rightarrow> bool" where
  "handshake_inv A w n h \<longleftrightarrow> length (published h) = n \<and> length (ppcs h) = n
     \<and> (\<forall>i<n. published h ! i \<longleftrightarrow> ppcs h ! i \<noteq> NPublish)
     \<and> of_bool (waiting (hw h)) + wakers (ppcs h) + length (woken (hw h)) = (of_bool (armed (apc h)) :: nat)
     \<and> (\<not> armed (apc h) \<longrightarrow> NSwap \<notin> set (ppcs h))
     \<and> (woken (hw h) = [] \<and> apc h \<notin> {ANeeds, ARegister} \<longrightarrow> fst (aw_wake A (waker (hw h))) = Some w)
     \<and> set (woken (hw h)) \<subseteq> {w}
     \<and> checked n (apc h) \<le> n \<and> (\<forall>i<checked n (apc h). ppcs h ! i = NDone \<longrightarrow> \<not> waiting (hw h))"

lemma wakers_update:
  "i < length pcs \<Longrightarrow> wakers (pcs[i := pc]) + of_bool (pcs ! i = NWake) = wakers pcs + of_bool (pc = NWake)"
  unfolding wakers_def by (rule count_list_update)

lemma handshake_inv_start: "handshake_inv A w n (handshake_start A n)"
  by (simp add: handshake_inv_def handshake_start_def task_waiter_new_def wakers_def armed_def count_list_0_iff)

lemma handshake_inv_arm:
  assumes inv: "handshake_inv A w n h" and A: "waker_cell A" and step: "arm_step A w h = Some h'"
  shows "handshake_inv A w n h'"
proof (cases "apc h")
  case (ACheck i)
  show ?thesis
  proof (cases "i < length (published h) \<and> \<not> published h ! i")
    case True
    then have "h' = h\<lparr>apc := ACheck (i + 1)\<rparr>" using step ACheck by simp
    moreover have "ppcs h ! i = NPublish" using inv True by (auto simp: handshake_inv_def)
    ultimately show ?thesis using inv ACheck True
      by (auto simp: handshake_inv_def armed_def less_Suc_eq)
  next
    case False
    then have "h' = h\<lparr>apc := AReady\<rparr> \<or> h' = h\<lparr>apc := APending\<rparr> \<and> i = n"
      using step ACheck inv by (auto simp: handshake_inv_def split: if_splits)
    then show ?thesis using inv ACheck by (auto simp: handshake_inv_def armed_def)
  qed
next
  case ANeeds
  then have h': "h' = h\<lparr>hw := (hw h)\<lparr>needs_clear := True\<rparr>, apc := ARegister\<rparr>" using step by simp
  show ?thesis using inv ANeeds unfolding h' handshake_inv_def armed_def by simp
next
  case ARegister
  then have h': "h' = h\<lparr>hw := task_register A w (hw h), apc := AWaiting\<rparr>" using step by simp
  show ?thesis using inv ARegister A unfolding h' handshake_inv_def armed_def by (simp add: task_register_def waker_cell_def)
next
  case AWaiting
  then have h': "h' = h\<lparr>hw := (hw h)\<lparr>waiting := True\<rparr>, apc := ACheck 0\<rparr>" using step by simp
  show ?thesis using inv AWaiting unfolding h' handshake_inv_def armed_def by simp
qed (use step in simp_all)

lemma handshake_inv_publish:
  assumes inv: "handshake_inv A w n h" and step: "publish_step A i h = Some h'"
  shows "handshake_inv A w n h'"
proof -
  have i: "i < n" "i < length (ppcs h)" "length (ppcs h) = n" using inv step by (auto simp: handshake_inv_def split: if_splits)
  have sw: "NSwap \<in> set (ppcs h)" if "ppcs h ! i = NSwap" using that i(2) by (metis nth_mem)
  have aw: "armed (apc h) \<and> \<not> waiting (hw h) \<and> woken (hw h) = []" if "ppcs h ! i = NWake"
  proof -
    have "0 < wakers (ppcs h)" using that i(2) wakers_update [OF i(2), of NDone] by simp
    moreover have "of_bool (waiting (hw h)) + wakers (ppcs h) + length (woken (hw h)) = (of_bool (armed (apc h)) :: nat)"
      using inv by (simp add: handshake_inv_def)
    ultimately have "length (woken (hw h)) = 0 \<and> \<not> waiting (hw h) \<and> armed (apc h)"
      by (cases "armed (apc h)"; cases "waiting (hw h)") (simp_all del: length_0_conv)
    then show ?thesis by simp
  qed
  note inv' = inv [unfolded handshake_inv_def] and u = wakers_update [OF i(2)]
  have sets: "NSwap \<notin> set (ppcs h) \<Longrightarrow> pc \<noteq> NSwap \<Longrightarrow> NSwap \<notin> set ((ppcs h)[i := pc])" for pc
    using set_update_subset_insert [of "ppcs h" i pc] by auto
  show ?thesis
  proof (cases "ppcs h ! i")
    case NPublish
    then have h': "h' = h\<lparr>published := (published h)[i := True], ppcs := (ppcs h)[i := NLoad]\<rparr>" using step i by simp
    show ?thesis unfolding h' handshake_inv_def using inv' u [of NLoad] i sets [of NLoad] NPublish
      by (elim conjE) (intro conjI, simp_all add: nth_list_update)
  next
    case NLoad
    let ?pc = "if waiting (hw h) then NSwap else NDone"
    have h': "h' = h\<lparr>ppcs := (ppcs h)[i := ?pc]\<rparr>" using step i NLoad by simp
    have "\<not> armed (apc h) \<Longrightarrow> \<not> waiting (hw h)" using inv' by auto
    then show ?thesis unfolding h' handshake_inv_def using inv' u [of ?pc] i sets [of ?pc] NLoad
      by (cases "waiting (hw h)"; cases "armed (apc h)") (simp_all add: nth_list_update)
  next
    case NSwap
    let ?pc = "if waiting (hw h) then NWake else NDone"
    have h': "h' = h\<lparr>hw := (hw h)\<lparr>waiting := False\<rparr>, ppcs := (ppcs h)[i := ?pc]\<rparr>" using step i NSwap by simp
    show ?thesis unfolding h' handshake_inv_def using inv' u [of ?pc] i sets [of ?pc] NSwap sw
      by (cases "waiting (hw h)"; cases "armed (apc h)") (simp_all add: nth_list_update)
  next
    case NWake
    have wk: "fst (aw_wake A (waker (hw h))) = Some w" using inv' aw [OF NWake] by (auto simp: armed_def)
    have h': "h' = h\<lparr>hw := task_wake A (hw h), ppcs := (ppcs h)[i := NDone]\<rparr>" using step i NWake by simp
    show ?thesis unfolding h' handshake_inv_def using inv' u [of NDone] i sets [of NDone] aw [OF NWake] wk NWake
      by (elim conjE) (intro conjI, simp_all add: nth_list_update task_wake_def case_prod_beta)
  next
    case NDone
    then show ?thesis using step i by simp
  qed
qed

lemma handshake_invariant: "handshake A w n h \<Longrightarrow> waker_cell A \<Longrightarrow> handshake_inv A w n h"
proof (induction rule: handshake.induct)
  case start
  show ?case by (rule handshake_inv_start)
next
  case (arm h h')
  show ?case by (rule handshake_inv_arm [OF arm.IH [OF arm.prems] arm.prems arm.hyps(2)])
next
  case (publish h i h')
  show ?case by (rule handshake_inv_publish [OF publish.IH [OF publish.prems] publish.hyps(2)])
qed

text \<open>
  C15. The register-then-recheck handshake of an asynchronous endpoint loses no wake and wakes at most once. Under every
  interleaving with any number of publishers: when the endpoint's recheck has found nothing published, and the
  publishers have finished their notifications, the registered task has been woken exactly once.
\<close>

theorem task_handshake_wakes:
  assumes "handshake A w n h" "waker_cell A" "apc h = APending" "\<forall>i<n. ppcs h ! i = NDone" "0 < n"
  shows "woken (hw h) = [w]"
proof -
  have inv: "handshake_inv A w n h" using assms(1,2) by (rule handshake_invariant)
  have "\<not> waiting (hw h)" using inv assms(3-5) by (auto simp: handshake_inv_def)
  moreover have "wakers (ppcs h) = 0" using inv assms(4) by (auto simp: handshake_inv_def wakers_def count_list_0_iff in_set_conv_nth)
  ultimately have "length (woken (hw h)) = 1" "set (woken (hw h)) \<subseteq> {w}" using inv assms(3) by (auto simp: handshake_inv_def armed_def)
  then show ?thesis by (cases "woken (hw h)") auto
qed

text \<open>A schedule: \<open>None\<close> lets the endpoint step, \<open>Some i\<close> publisher \<open>i\<close>.\<close>

fun handshake_run :: "('k, 'w) AtomicWaker \<Rightarrow> 'w \<Rightarrow> nat option list \<Rightarrow> ('k, 'w) Handshake \<Rightarrow> ('k, 'w) Handshake option" where
  "handshake_run A w [] h = Some h"
| "handshake_run A w (None # acts) h = do { h \<leftarrow> arm_step A w h; handshake_run A w acts h }"
| "handshake_run A w (Some i # acts) h = do { h \<leftarrow> publish_step A i h; handshake_run A w acts h }"

lemma handshake_run_reachable: "handshake A w n h \<Longrightarrow> handshake_run A w acts h = Some h' \<Longrightarrow> handshake A w n h'"
proof (induction acts arbitrary: h)
  case (Cons act acts)
  then show ?case by (cases act) (auto simp: bind_eq_Some_conv simp del: arm_step.simps publish_step.simps intro: handshake.arm handshake.publish)
qed simp

lemma task_handshake_wakes_witness:
  "\<exists>h. handshake option_cell () 1 h \<and> apc h = APending \<and> ppcs h = [NDone] \<and> woken (hw h) = [()]"
proof -
  let ?acts = "[None, None, None, None, None, Some 0, Some 0, Some 0, Some 0]"
  obtain h where h: "handshake_run option_cell () ?acts (handshake_start option_cell 1) = Some h" "apc h = APending" "ppcs h = [NDone]"
    by (simp add: handshake_start_def task_waiter_new_def task_register_def option_cell_def task_wake_def)
  have r: "handshake option_cell () 1 h" by (rule handshake_run_reachable [OF handshake.start h(1)])
  show ?thesis using task_handshake_wakes [OF r option_cell_lawful h(2)] h r by auto
qed

end
