(* ===== verification/Mpsc.thy ===== *)
theory Mpsc
  imports Ring Task_Waker
begin

text \<open>
  Many producers, one receiver (\<open>src/src/mpsc/chan.rs\<close> and the tiers \<open>fixed.rs\<close>, \<open>pool.rs\<close>, \<open>dynamic.rs\<close>). Every producer
  sends into a ring of its own, a shard, and the receiver gathers over the shards. Rings live in a store and are named
  by their position in it: the producer, the receiver, the pool slots and the inboxes hold positions, which shows the
  moves of a shard between them. Values whose destructors the channel runs are collected in \<open>m_destroyed\<close>.

  The wake policy is the dictionary \<open>Kernel\<close>, the membership policy the dictionary \<open>ShardState\<close>.
\<close>

section \<open>Kernels\<close>

text \<open>
  The trait \<open>Kernel\<close>: \<open>'n\<close> is the receiver's notifier, \<open>'sp\<close> the per-shard capacity notifier, \<open>'w\<close> the tasks. A kernel
  without \<open>k_drain_notify\<close> drains with \<open>drain_in_place\<close>, one with it by \<open>drain_in_place_async\<close>. The last three
  operations are those of \<open>BlockingKernel\<close> on the shared eventcount; parking itself is a pause.
\<close>

record ('n, 'sp, 'w) Kernel =
  k_notifier :: 'n
  k_space :: 'sp
  k_drain_notify :: "('sp \<Rightarrow> 'sp) option"
  k_notify_producer :: "'sp \<Rightarrow> 'sp"
  k_register_producer :: "'w \<Rightarrow> 'sp \<Rightarrow> 'sp"
  k_clear_producer :: "'sp \<Rightarrow> 'sp"
  k_wake :: "'n \<Rightarrow> 'n"
  k_producer_dropped :: "'n \<Rightarrow> 'n"
  k_clear_receiver :: "'n \<Rightarrow> 'n"
  k_arm :: "'n \<Rightarrow> 'n"
  k_disarm :: "'n \<Rightarrow> 'n"

definition kernel_drain ::
  "('n, 'sp, 'w) Kernel \<Rightarrow> 'a Ring \<Rightarrow> 'sp \<Rightarrow> usize \<Rightarrow> ('a, 's) callback \<Rightarrow> 's \<Rightarrow> (nat control \<times> 'a Ring \<times> 'sp \<times> 's) option" where
  "kernel_drain K r sp mx f s =
     (case k_drain_notify K of
        None \<Rightarrow> do { (c, r, s) \<leftarrow> drain_in_place r mx f s; Some (c, r, sp, s) }
      | Some notify \<Rightarrow> drain_in_place_async r mx notify sp f s)"

text \<open>The blocking kernels, over the arming flag of their eventcount, and the task kernel.\<close>

definition blocking_kernel :: "(bool, unit, 'w) Kernel" where
  "blocking_kernel =
     \<lparr>k_notifier = False, k_space = (), k_drain_notify = None, k_notify_producer = (\<lambda>s. s), k_register_producer = (\<lambda>_ s. s),
      k_clear_producer = (\<lambda>s. s), k_wake = (\<lambda>_. False), k_producer_dropped = (\<lambda>n. n), k_clear_receiver = (\<lambda>n. n),
      k_arm = (\<lambda>_. True), k_disarm = (\<lambda>_. False)\<rparr>"

definition task_kernel :: "('k, 'w) AtomicWaker \<Rightarrow> (('k, 'w) TaskWaiter, ('k, 'w) TaskWaiter, 'w) Kernel" where
  "task_kernel A =
     \<lparr>k_notifier = task_waiter_new A, k_space = task_waiter_new A, k_drain_notify = Some (tw_notify A),
      k_notify_producer = tw_notify A, k_register_producer = tw_arm A, k_clear_producer = tw_clear A,
      k_wake = tw_notify A, k_producer_dropped = tw_notify A, k_clear_receiver = tw_clear A, k_arm = (\<lambda>n. n), k_disarm = (\<lambda>n. n)\<rparr>"

section \<open>Shared state and shards\<close>

record ('a, 'n, 'sp, 'st) Mpsc =
  m_rings :: "'a Ring list"
  m_spaces :: "'sp list"
  m_live :: usize
  m_notifier :: 'n
  m_state :: 'st
  m_destroyed :: "'a list"

definition build_shared :: "('n, 'sp, 'w) Kernel \<Rightarrow> 'st \<Rightarrow> ('a, 'n, 'sp, 'st) Mpsc" where
  "build_shared K st = \<lparr>m_rings = [], m_spaces = [], m_live = 0, m_notifier = k_notifier K, m_state = st, m_destroyed = []\<rparr>"

definition shared_inc :: "('a, 'n, 'sp, 'st) Mpsc \<Rightarrow> ('a, 'n, 'sp, 'st) Mpsc" where
  "shared_inc m = m\<lparr>m_live := m_live m + 1\<rparr>"

definition shared_release :: "('n, 'sp, 'w) Kernel \<Rightarrow> ('a, 'n, 'sp, 'st) Mpsc \<Rightarrow> ('a, 'n, 'sp, 'st) Mpsc" where
  "shared_release K m =
     (let last = (m_live m = 1); m = m\<lparr>m_live := m_live m - 1\<rparr> in if last then m\<lparr>m_notifier := k_wake K (m_notifier m)\<rparr> else m)"

definition set_ring :: "nat \<Rightarrow> 'a Ring \<Rightarrow> ('a, 'n, 'sp, 'st) Mpsc \<Rightarrow> ('a, 'n, 'sp, 'st) Mpsc" where
  "set_ring i r m = m\<lparr>m_rings := (m_rings m)[i := r]\<rparr>"

definition set_space :: "nat \<Rightarrow> 'sp \<Rightarrow> ('a, 'n, 'sp, 'st) Mpsc \<Rightarrow> ('a, 'n, 'sp, 'st) Mpsc" where
  "set_space i s m = m\<lparr>m_spaces := (m_spaces m)[i := s]\<rparr>"

definition ring_of :: "('a, 'n, 'sp, 'st) Mpsc \<Rightarrow> nat \<Rightarrow> ('a Ring \<times> 'sp) option" where
  "ring_of m i = (if i < length (m_rings m) \<and> i < length (m_spaces m) then Some (m_rings m ! i, m_spaces m ! i) else None)"

text \<open>\<open>spawn_ring\<close> allocates a ring; its position names the sending half and the shard.\<close>

definition spawn_ring :: "('n, 'sp, 'w) Kernel \<Rightarrow> usize \<Rightarrow> ('a, 'n, 'sp, 'st) Mpsc \<Rightarrow> (nat \<times> ('a, 'n, 'sp, 'st) Mpsc) option" where
  "spawn_ring K capacity m =
     do { r \<leftarrow> ring capacity;
          Some (length (m_rings m), m\<lparr>m_rings := m_rings m @ [r], m_spaces := m_spaces m @ [k_space K]\<rparr>) }"

text \<open>The last release of a ring's allocation runs \<open>Inner::drop\<close>.\<close>

definition release_ring :: "nat \<Rightarrow> 'a Ring \<Rightarrow> ('a, 'n, 'sp, 'st) Mpsc \<Rightarrow> ('a, 'n, 'sp, 'st) Mpsc option" where
  "release_ring i r m =
     (if strong r = 0
      then do { (vs, r) \<leftarrow> drop_inner r; Some (set_ring i r (m\<lparr>m_destroyed := m_destroyed m @ vs\<rparr>)) }
      else Some (set_ring i r m))"

definition shard_is_empty :: "('a, 'n, 'sp, 'st) Mpsc \<Rightarrow> nat \<Rightarrow> bool option" where
  "shard_is_empty m i = do { (r, _) \<leftarrow> ring_of m i; Some (is_empty r) }"

definition shard_is_finished :: "('a, 'n, 'sp, 'st) Mpsc \<Rightarrow> nat \<Rightarrow> bool option" where
  "shard_is_finished m i = do { (r, _) \<leftarrow> ring_of m i; Some (is_finished r) }"

definition shard_recycle :: "('n, 'sp, 'w) Kernel \<Rightarrow> ('a, 'n, 'sp, 'st) Mpsc \<Rightarrow> nat \<Rightarrow> (bool \<times> ('a, 'n, 'sp, 'st) Mpsc) option" where
  "shard_recycle K m i =
     do { (r, sp) \<leftarrow> ring_of m i;
          let (ok, r) = recycle r;
          Some (if ok then (True, set_space i (k_clear_producer K sp) (set_ring i r m)) else (False, m)) }"

text \<open>\<open>Drop for Shard\<close>, then the drops of its fields: the receiving half of the ring.\<close>

definition drop_shard :: "('n, 'sp, 'w) Kernel \<Rightarrow> ('a, 'n, 'sp, 'st) Mpsc \<Rightarrow> nat \<Rightarrow> ('a, 'n, 'sp, 'st) Mpsc option" where
  "drop_shard K m i =
     do { (r, sp) \<leftarrow> ring_of m i;
          let m = set_space i (k_notify_producer K sp) m;
          (vs, r) \<leftarrow> drop_receiver (close r);
          release_ring i r (m\<lparr>m_destroyed := m_destroyed m @ vs\<rparr>) }"

section \<open>Producers\<close>

datatype 'a TrySendError = Full 'a | Disconnected 'a

text \<open>A producer is the position of its ring.\<close>

definition notify_consumer :: "('n, 'sp, 'w) Kernel \<Rightarrow> ('a, 'n, 'sp, 'st) Mpsc \<Rightarrow> ('a, 'n, 'sp, 'st) Mpsc" where
  "notify_consumer K m = m\<lparr>m_notifier := k_wake K (m_notifier m)\<rparr>"

definition mp_try_send_quiet ::
  "('a, 'n, 'sp, 'st) Mpsc \<Rightarrow> nat \<Rightarrow> 'a \<Rightarrow> ((unit, 'a TrySendError) Result \<times> ('a, 'n, 'sp, 'st) Mpsc) option" where
  "mp_try_send_quiet m p v =
     do { (r, _) \<leftarrow> ring_of m p;
          if is_consumer_gone r then Some (Err (Disconnected v), m)
          else do { (x, r) \<leftarrow> try_push r v;
                    Some (case x of Ok _ \<Rightarrow> Ok () | Err v \<Rightarrow> Err (Full v), set_ring p r m) } }"

definition mp_try_send ::
  "('n, 'sp, 'w) Kernel \<Rightarrow> ('a, 'n, 'sp, 'st) Mpsc \<Rightarrow> nat \<Rightarrow> 'a \<Rightarrow> ((unit, 'a TrySendError) Result \<times> ('a, 'n, 'sp, 'st) Mpsc) option" where
  "mp_try_send K m p v =
     do { (x, m) \<leftarrow> mp_try_send_quiet m p v;
          case x of Err e \<Rightarrow> Some (Err e, m) | Ok _ \<Rightarrow> Some (Ok (), notify_consumer K m) }"

text \<open>\<open>send\<close>: the list holds what the rest of the program does during each pause.\<close>

fun mp_send ::
  "('n, 'sp, 'w) Kernel \<Rightarrow> (('a, 'n, 'sp, 'st) Mpsc \<Rightarrow> ('a, 'n, 'sp, 'st) Mpsc) list \<Rightarrow> ('a, 'n, 'sp, 'st) Mpsc \<Rightarrow> nat \<Rightarrow> 'a
     \<Rightarrow> ((unit, 'a) Result spin \<times> ('a, 'n, 'sp, 'st) Mpsc) option" where
  "mp_send K envs m p v =
     do { (x, m) \<leftarrow> mp_try_send K m p v;
          case x of Ok _ \<Rightarrow> Some (Done (Ok ()), m)
          | Err (Disconnected v) \<Rightarrow> Some (Done (Err v), m)
          | Err (Full v) \<Rightarrow> (case envs of [] \<Rightarrow> Some (Spinning, m) | env # envs \<Rightarrow> mp_send K envs (env m) p v) }"

text \<open>\<open>send_batch\<close>: an item waits for its own slot; the consumer is notified once, after the last item.\<close>

fun mp_push_wait ::
  "(('a, 'n, 'sp, 'st) Mpsc \<Rightarrow> ('a, 'n, 'sp, 'st) Mpsc) list \<Rightarrow> ('a, 'n, 'sp, 'st) Mpsc \<Rightarrow> nat \<Rightarrow> 'a
     \<Rightarrow> ((unit, 'a) Result spin \<times> ('a, 'n, 'sp, 'st) Mpsc \<times> (('a, 'n, 'sp, 'st) Mpsc \<Rightarrow> ('a, 'n, 'sp, 'st) Mpsc) list) option" where
  "mp_push_wait envs m p v =
     do { (r, _) \<leftarrow> ring_of m p;
          if is_consumer_gone r then Some (Done (Err v), m, envs)
          else do { (x, r) \<leftarrow> try_push r v;
                    let m = set_ring p r m;
                    case x of Ok _ \<Rightarrow> Some (Done (Ok ()), m, envs)
                    | Err v \<Rightarrow> (case envs of [] \<Rightarrow> Some (Spinning, m, []) | env # envs \<Rightarrow> mp_push_wait envs (env m) p v) } }"

fun mp_send_batch ::
  "('n, 'sp, 'w) Kernel \<Rightarrow> (('a, 'n, 'sp, 'st) Mpsc \<Rightarrow> ('a, 'n, 'sp, 'st) Mpsc) list \<Rightarrow> ('a, 'n, 'sp, 'st) Mpsc \<Rightarrow> nat \<Rightarrow> 'a list
     \<Rightarrow> ((unit, 'a) Result spin \<times> ('a, 'n, 'sp, 'st) Mpsc) option" where
  "mp_send_batch K envs m p [] = Some (Done (Ok ()), notify_consumer K m)"
| "mp_send_batch K envs m p (v # vs) =
     do { (x, m, envs) \<leftarrow> mp_push_wait envs m p v;
          case x of Spinning \<Rightarrow> Some (Spinning, m)
          | Done (Err v) \<Rightarrow> Some (Done (Err v), m)
          | Done (Ok _) \<Rightarrow> mp_send_batch K envs m p vs }"

text \<open>
  Dropping a producer: its \<open>Drop\<close> clears the task slot, then the sending half goes, then the lease notifies the
  receiver and counts the producer out.
\<close>

definition mp_drop_producer :: "('n, 'sp, 'w) Kernel \<Rightarrow> ('a, 'n, 'sp, 'st) Mpsc \<Rightarrow> nat \<Rightarrow> ('a, 'n, 'sp, 'st) Mpsc option" where
  "mp_drop_producer K m p =
     do { (r, sp) \<leftarrow> ring_of m p;
          m \<leftarrow> release_ring p (drop_sender r) (set_space p (k_clear_producer K sp) m);
          Some (shared_release K (m\<lparr>m_notifier := k_producer_dropped K (m_notifier m)\<rparr>)) }"

section \<open>Membership policies\<close>

definition swap_remove :: "nat \<Rightarrow> 'x list \<Rightarrow> 'x list" where
  "swap_remove i xs = butlast (xs[i := last xs])"

text \<open>The trait \<open>ShardState\<close>: \<open>refresh\<close> adds shards, \<open>dispose\<close> deals with a finished one and tells whether it was removed.\<close>

record ('a, 'n, 'sp, 'st) ShardState =
  ss_refresh :: "('a, 'n, 'sp, 'st) Mpsc \<Rightarrow> nat list \<Rightarrow> (('a, 'n, 'sp, 'st) Mpsc \<times> nat list) option"
  ss_dispose :: "('a, 'n, 'sp, 'st) Mpsc \<Rightarrow> nat list \<Rightarrow> nat \<Rightarrow> (bool \<times> ('a, 'n, 'sp, 'st) Mpsc \<times> nat list) option"

definition fixed_state :: "('n, 'sp, 'w) Kernel \<Rightarrow> ('a, 'n, 'sp, unit) ShardState" where
  "fixed_state K =
     \<lparr>ss_refresh = (\<lambda>m shards. Some (m, shards)),
      ss_dispose = (\<lambda>m shards i.
        if i < length shards then do { m \<leftarrow> drop_shard K m (shards ! i); Some (True, m, swap_remove i shards) } else None)\<rparr>"

text \<open>The pool: the bitmap of free slots and the sending halves parked in them. Slot \<open>i\<close> belongs to shard \<open>i\<close>.\<close>

record PoolSlots =
  pool_free :: u64
  pool_slots :: "nat option list"

definition pool_slots_new :: "nat list \<Rightarrow> PoolSlots" where
  "pool_slots_new senders =
     \<lparr>pool_free = (if length senders \<ge> 64 then - 1 else push_bit (length senders) 1 - 1), pool_slots = map Some senders\<rparr>"

definition first_bit :: "u64 \<Rightarrow> nat" where
  "first_bit b = length (takeWhile (\<lambda>i. \<not> bit b i) [0..<64])"

text \<open>\<open>claim\<close>: \<open>None\<close> outside is the panic of \<open>expect\<close> and of the index.\<close>

definition pool_claim :: "PoolSlots \<Rightarrow> (nat option \<times> PoolSlots) option" where
  "pool_claim s =
     (let cur = pool_free s
      in if cur = 0 then Some (None, s)
         else let b = first_bit cur; s = s\<lparr>pool_free := cur AND NOT (push_bit b 1)\<rparr>
              in if b < length (pool_slots s)
                 then (case pool_slots s ! b of None \<Rightarrow> None
                       | Some tx \<Rightarrow> Some (Some tx, s\<lparr>pool_slots := (pool_slots s)[b := None]\<rparr>))
                 else None)"

definition recycle_slot :: "nat \<Rightarrow> nat \<Rightarrow> PoolSlots \<Rightarrow> PoolSlots option" where
  "recycle_slot i tx s =
     (if i < length (pool_slots s)
      then Some (s\<lparr>pool_slots := (pool_slots s)[i := Some tx], pool_free := pool_free s OR push_bit i 1\<rparr>) else None)"

definition pool_state :: "('n, 'sp, 'w) Kernel \<Rightarrow> ('a, 'n, 'sp, PoolSlots) ShardState" where
  "pool_state K =
     \<lparr>ss_refresh = (\<lambda>m shards. Some (m, shards)),
      ss_dispose = (\<lambda>m shards i.
        if i < length shards
        then do { (ok, m) \<leftarrow> shard_recycle K m (shards ! i);
                  if ok then do { s \<leftarrow> recycle_slot i (shards ! i) (m_state m); Some (False, m\<lparr>m_state := s\<rparr>, shards) }
                  else Some (False, m, shards) }
        else None)\<rparr>"

text \<open>
  Dynamic membership: an inbox of deposited shards and a reclamation policy. The locked inbox is drained when its
  generation has moved; the lock-free one is a stack threaded through the rings' own link fields.
\<close>

datatype Inbox =
  LockedInbox usize usize "nat list"   \<comment> \<open>generation, seen, queue\<close>
| LockFreeInbox "nat option"           \<comment> \<open>the head of the stack\<close>

datatype Reclaim = DropRings | PooledRings usize "nat list"   \<comment> \<open>bound and parked shards\<close>

type_synonym ('a, 'n, 'sp) Dynamic = "('a, 'n, 'sp, Inbox \<times> Reclaim) Mpsc"

text \<open>\<open>InboxStack::push\<close>: link the ring to the head, then make it the head; \<open>drain_with\<close> walks the detached chain.\<close>

definition stack_push :: "nat \<Rightarrow> nat option \<Rightarrow> ('a, 'n, 'sp, 'st) Mpsc \<Rightarrow> (nat option \<times> ('a, 'n, 'sp, 'st) Mpsc) option" where
  "stack_push i node m =
     do { (r, _) \<leftarrow> ring_of m i; Some (Some i, set_ring i (r\<lparr>inbox_next := node\<rparr>) m) }"

fun stack_drain :: "nat \<Rightarrow> nat option \<Rightarrow> ('a, 'n, 'sp, 'st) Mpsc \<Rightarrow> (nat list \<times> ('a, 'n, 'sp, 'st) Mpsc) option" where
  "stack_drain fuel None m = Some ([], m)"
| "stack_drain 0 (Some i) m = None"
| "stack_drain (Suc fuel) (Some i) m =
     do { (r, _) \<leftarrow> ring_of m i;
          (is, m) \<leftarrow> stack_drain fuel (inbox_next r) (set_ring i (r\<lparr>tail_cache := head r\<rparr>) m);
          Some (i # is, m) }"

text \<open>\<open>Drop for InboxStack\<close>: rings that were deposited and never drained are torn down with their values.\<close>

fun stack_drop :: "nat \<Rightarrow> nat option \<Rightarrow> ('a, 'n, 'sp, 'st) Mpsc \<Rightarrow> ('a, 'n, 'sp, 'st) Mpsc option" where
  "stack_drop fuel None m = Some m"
| "stack_drop 0 (Some i) m = None"
| "stack_drop (Suc fuel) (Some i) m =
     do { (r, _) \<leftarrow> ring_of m i;
          (vs, r') \<leftarrow> drop_receiver (r\<lparr>tail_cache := head r\<rparr>);
          m \<leftarrow> release_ring i r' (m\<lparr>m_destroyed := m_destroyed m @ vs\<rparr>);
          stack_drop fuel (inbox_next r) m }"

definition inbox_deposit :: "nat \<Rightarrow> ('a, 'n, 'sp) Dynamic \<Rightarrow> ('a, 'n, 'sp) Dynamic option" where
  "inbox_deposit i m =
     (case m_state m of
        (LockedInbox gen seen queue, rc) \<Rightarrow> Some (m\<lparr>m_state := (LockedInbox (gen + 1) seen (queue @ [i]), rc)\<rparr>)
      | (LockFreeInbox node, rc) \<Rightarrow> do { (node, m) \<leftarrow> stack_push i node m; Some (m\<lparr>m_state := (LockFreeInbox node, rc)\<rparr>) })"

definition inbox_drain_into :: "('a, 'n, 'sp) Dynamic \<Rightarrow> nat list \<Rightarrow> (('a, 'n, 'sp) Dynamic \<times> nat list) option" where
  "inbox_drain_into m out =
     (case m_state m of
        (LockedInbox gen seen queue, rc) \<Rightarrow>
          Some (if gen \<noteq> seen then (m\<lparr>m_state := (LockedInbox gen gen [], rc)\<rparr>, out @ queue) else (m, out))
      | (LockFreeInbox node, rc) \<Rightarrow>
          do { (is, m) \<leftarrow> stack_drain (length (m_rings m)) node m; Some (m\<lparr>m_state := (LockFreeInbox None, rc)\<rparr>, out @ is) })"

text \<open>\<open>FreeList::reclaim\<close> parks a finished shard or drops it; \<open>take_reset\<close> resets a parked one that nobody shares.\<close>

definition reclaim_put :: "('n, 'sp, 'w) Kernel \<Rightarrow> nat \<Rightarrow> ('a, 'n, 'sp) Dynamic \<Rightarrow> ('a, 'n, 'sp) Dynamic option" where
  "reclaim_put K i m =
     (case m_state m of
        (ib, DropRings) \<Rightarrow> drop_shard K m i
      | (ib, PooledRings bound parked) \<Rightarrow>
          if length parked < unat bound then Some (m\<lparr>m_state := (ib, PooledRings bound (parked @ [i]))\<rparr>) else drop_shard K m i)"

fun take_reset_loop :: "('n, 'sp, 'w) Kernel \<Rightarrow> nat list \<Rightarrow> ('a, 'n, 'sp) Dynamic \<Rightarrow> (nat option \<times> nat list \<times> ('a, 'n, 'sp) Dynamic) option" where
  "take_reset_loop K [] m = Some (None, [], m)"
| "take_reset_loop K (i # parked) m =
     do { (ok, m) \<leftarrow> shard_recycle K m i;
          if ok then Some (Some i, parked, m)
          else do { m \<leftarrow> drop_shard K m i; take_reset_loop K parked m } }"

definition reclaim_take :: "('n, 'sp, 'w) Kernel \<Rightarrow> ('a, 'n, 'sp) Dynamic \<Rightarrow> (nat option \<times> ('a, 'n, 'sp) Dynamic) option" where
  "reclaim_take K m =
     (case m_state m of
        (ib, DropRings) \<Rightarrow> Some (None, m)
      | (ib, PooledRings bound parked) \<Rightarrow>
          do { (t, left, m) \<leftarrow> take_reset_loop K (rev parked) m; Some (t, m\<lparr>m_state := (ib, PooledRings bound (rev left))\<rparr>) })"

definition dynamic_state :: "('n, 'sp, 'w) Kernel \<Rightarrow> ('a, 'n, 'sp, Inbox \<times> Reclaim) ShardState" where
  "dynamic_state K =
     \<lparr>ss_refresh = inbox_drain_into,
      ss_dispose = (\<lambda>m shards i.
        if i < length shards then do { m \<leftarrow> reclaim_put K (shards ! i) m; Some (True, m, swap_remove i shards) } else None)\<rparr>"

section \<open>The receiver\<close>

record 'a MReceiver =
  r_shards :: "nat list"
  r_cursor :: usize
  r_batch :: usize
  r_staging :: "'a list"

definition DEFAULT_BATCH :: usize where
  "DEFAULT_BATCH = 64"

definition make_receiver :: "nat list \<Rightarrow> 'a MReceiver" where
  "make_receiver shards = \<lparr>r_shards = shards, r_cursor = 0, r_batch = DEFAULT_BATCH, r_staging = []\<rparr>"

definition mp_set_batch :: "usize \<Rightarrow> 'a MReceiver \<Rightarrow> 'a MReceiver" where
  "mp_set_batch n rx = rx\<lparr>r_batch := max n 1\<rparr>"

definition staging_pop :: "'a MReceiver \<Rightarrow> 'a option \<times> 'a MReceiver" where
  "staging_pop rx = (case r_staging rx of [] \<Rightarrow> (None, rx) | v # vs \<Rightarrow> (Some v, rx\<lparr>r_staging := vs\<rparr>))"

definition disconnected :: "('a, 'n, 'sp, 'st) Mpsc \<Rightarrow> bool" where
  "disconnected m \<longleftrightarrow> m_live m = 0"

definition refresh_membership ::
  "('a, 'n, 'sp, 'st) ShardState \<Rightarrow> ('a, 'n, 'sp, 'st) Mpsc \<Rightarrow> 'a MReceiver \<Rightarrow> (('a, 'n, 'sp, 'st) Mpsc \<times> 'a MReceiver) option" where
  "refresh_membership S m rx = do { (m, shards) \<leftarrow> ss_refresh S m (r_shards rx); Some (m, rx\<lparr>r_shards := shards\<rparr>) }"

definition dispose_finished ::
  "('a, 'n, 'sp, 'st) ShardState \<Rightarrow> ('a, 'n, 'sp, 'st) Mpsc \<Rightarrow> 'a MReceiver \<Rightarrow> nat \<Rightarrow> (bool \<times> ('a, 'n, 'sp, 'st) Mpsc \<times> 'a MReceiver) option" where
  "dispose_finished S m rx i = do { (b, m, shards) \<leftarrow> ss_dispose S m (r_shards rx) i; Some (b, m, rx\<lparr>r_shards := shards\<rparr>) }"

definition advance :: "'a MReceiver \<Rightarrow> 'a MReceiver" where
  "advance rx = rx\<lparr>r_cursor := r_cursor rx + 1\<rparr>"

text \<open>The shard at the cursor: its index among the shards and the drain of its ring by the kernel.\<close>

definition drain_shard ::
  "('n, 'sp, 'w) Kernel \<Rightarrow> ('a, 'n, 'sp, 'st) Mpsc \<Rightarrow> 'a MReceiver \<Rightarrow> usize \<Rightarrow> ('a, 's) callback \<Rightarrow> 's
     \<Rightarrow> (nat \<times> nat control \<times> ('a, 'n, 'sp, 'st) Mpsc \<times> 's) option" where
  "drain_shard K m rx mx f s =
     (if r_shards rx = [] then None
      else let i = unat (r_cursor rx mod of_nat (length (r_shards rx)))
           in if i < length (r_shards rx)
              then do { let j = r_shards rx ! i;
                        (r, sp) \<leftarrow> ring_of m j;
                        (c, r, sp, s) \<leftarrow> kernel_drain K r sp mx f s;
                        Some (i, c, set_space j sp (set_ring j r m), s) }
              else None)"

text \<open>What a pass does with a shard that yielded nothing: dispose of it when it is finished, else move on.\<close>

definition pass_over ::
  "('a, 'n, 'sp, 'st) ShardState \<Rightarrow> ('a, 'n, 'sp, 'st) Mpsc \<Rightarrow> 'a MReceiver \<Rightarrow> nat \<Rightarrow> (('a, 'n, 'sp, 'st) Mpsc \<times> 'a MReceiver) option" where
  "pass_over S m rx i =
     do { fin \<leftarrow> shard_is_finished m (r_shards rx ! i);
          if fin then do { (removed, m, rx) \<leftarrow> dispose_finished S m rx i; Some (m, if removed then rx else advance rx) }
          else Some (m, advance rx) }"

text \<open>The loop of \<open>try_recv\<close>: at most one round per shard of the beginning.\<close>

fun mp_recv_loop ::
  "('n, 'sp, 'w) Kernel \<Rightarrow> ('a, 'n, 'sp, 'st) ShardState \<Rightarrow> nat \<Rightarrow> ('a, 'n, 'sp, 'st) Mpsc \<Rightarrow> 'a MReceiver
     \<Rightarrow> ('a option \<times> ('a, 'n, 'sp, 'st) Mpsc \<times> 'a MReceiver) option" where
  "mp_recv_loop K S 0 m rx = (let (v, rx) = staging_pop rx in Some (v, m, rx))"
| "mp_recv_loop K S (Suc n) m rx =
     do { (i, c, m, st) \<leftarrow> drain_shard K m rx (r_batch rx) collect (r_staging rx);
          let rx = rx\<lparr>r_staging := st\<rparr>;
          case c of Unwind \<Rightarrow> None
          | Return got \<Rightarrow>
              if got > 0 then (let (v, rx) = staging_pop (advance rx) in Some (v, m, rx))
              else do { (m, rx) \<leftarrow> pass_over S m rx i;
                        if r_shards rx = [] then (let (v, rx) = staging_pop rx in Some (v, m, rx))
                        else mp_recv_loop K S n m rx } }"

definition mp_try_recv ::
  "('n, 'sp, 'w) Kernel \<Rightarrow> ('a, 'n, 'sp, 'st) ShardState \<Rightarrow> ('a, 'n, 'sp, 'st) Mpsc \<Rightarrow> 'a MReceiver
     \<Rightarrow> ('a option \<times> ('a, 'n, 'sp, 'st) Mpsc \<times> 'a MReceiver) option" where
  "mp_try_recv K S m rx =
     (let (v, rx) = staging_pop rx
      in case v of Some v \<Rightarrow> Some (Some v, m, rx)
         | None \<Rightarrow> do { (m, rx) \<leftarrow> refresh_membership S m rx;
                        if r_shards rx = [] then Some (None, m, rx)
                        else mp_recv_loop K S (length (r_shards rx)) m rx })"

text \<open>\<open>try_recv_many\<close>: staged values first, then one pass that drains into the caller's buffer.\<close>

fun mp_many_loop ::
  "('n, 'sp, 'w) Kernel \<Rightarrow> ('a, 'n, 'sp, 'st) ShardState \<Rightarrow> nat \<Rightarrow> nat \<Rightarrow> nat \<Rightarrow> ('a, 'n, 'sp, 'st) Mpsc \<Rightarrow> 'a MReceiver \<Rightarrow> 'a list
     \<Rightarrow> (nat \<times> ('a, 'n, 'sp, 'st) Mpsc \<times> 'a MReceiver \<times> 'a list) option" where
  "mp_many_loop K S 0 mx pushed m rx out = Some (pushed, m, rx, out)"
| "mp_many_loop K S (Suc steps) mx pushed m rx out =
     (if pushed < mx \<and> r_shards rx \<noteq> []
      then do { (i, c, m, out) \<leftarrow> drain_shard K m rx (of_nat (mx - pushed)) collect out;
                case c of Unwind \<Rightarrow> None
                | Return got \<Rightarrow>
                    do { (m, rx) \<leftarrow> (if got = 0 then pass_over S m rx i else Some (m, advance rx));
                         mp_many_loop K S steps mx (pushed + got) m rx out } }
      else Some (pushed, m, rx, out))"

definition mp_try_recv_many ::
  "('n, 'sp, 'w) Kernel \<Rightarrow> ('a, 'n, 'sp, 'st) ShardState \<Rightarrow> ('a, 'n, 'sp, 'st) Mpsc \<Rightarrow> 'a MReceiver \<Rightarrow> 'a list \<Rightarrow> usize
     \<Rightarrow> (nat \<times> ('a, 'n, 'sp, 'st) Mpsc \<times> 'a MReceiver \<times> 'a list) option" where
  "mp_try_recv_many K S m rx out mx =
     (if mx = 0 then Some (0, m, rx, out)
      else let staged = take (unat mx) (r_staging rx);
               rx = rx\<lparr>r_staging := drop (unat mx) (r_staging rx)\<rparr>;
               out = out @ staged
           in if length staged = unat mx then Some (length staged, m, rx, out)
              else do { (m, rx) \<leftarrow> refresh_membership S m rx;
                        mp_many_loop K S (length (r_shards rx)) (unat mx) (length staged) m rx out })"

text \<open>\<open>drain_once\<close>: one pass that hands every value to user code in place.\<close>

fun mp_drain_loop ::
  "('n, 'sp, 'w) Kernel \<Rightarrow> ('a, 'n, 'sp, 'st) ShardState \<Rightarrow> nat \<Rightarrow> nat \<Rightarrow> ('a, 'n, 'sp, 'st) Mpsc \<Rightarrow> 'a MReceiver \<Rightarrow> ('a, 's) callback \<Rightarrow> 's
     \<Rightarrow> (nat control \<times> ('a, 'n, 'sp, 'st) Mpsc \<times> 'a MReceiver \<times> 's) option" where
  "mp_drain_loop K S 0 tot m rx f s = Some (Return tot, m, rx, s)"
| "mp_drain_loop K S (Suc steps) tot m rx f s =
     (if r_shards rx \<noteq> []
      then do { (i, c, m, s) \<leftarrow> drain_shard K m rx (r_batch rx) f s;
                case c of Unwind \<Rightarrow> Some (Unwind, m, rx, s)
                | Return got \<Rightarrow>
                    do { (m, rx) \<leftarrow> (if got > 0 then Some (m, advance rx) else pass_over S m rx i);
                         mp_drain_loop K S steps (tot + got) m rx f s } }
      else Some (Return tot, m, rx, s))"

definition mp_drain_once ::
  "('n, 'sp, 'w) Kernel \<Rightarrow> ('a, 'n, 'sp, 'st) ShardState \<Rightarrow> ('a, 'n, 'sp, 'st) Mpsc \<Rightarrow> 'a MReceiver \<Rightarrow> ('a, 's) callback \<Rightarrow> 's
     \<Rightarrow> (nat control \<times> ('a, 'n, 'sp, 'st) Mpsc \<times> 'a MReceiver \<times> 's) option" where
  "mp_drain_once K S m rx f s =
     do { (m, rx) \<leftarrow> refresh_membership S m rx;
          if r_shards rx = [] then Some (Return 0, m, rx, s)
          else mp_drain_loop K S (length (r_shards rx)) 0 m rx f s }"

text \<open>
  \<open>recv\<close>. The list holds, for each round, what the rest of the program does before the disconnection test, between
  arming and the last look at the shards, and while the receiver is parked.
\<close>

type_synonym ('a, 'n, 'sp, 'st) round =
  "(('a, 'n, 'sp, 'st) Mpsc \<Rightarrow> ('a, 'n, 'sp, 'st) Mpsc) \<times> (('a, 'n, 'sp, 'st) Mpsc \<Rightarrow> ('a, 'n, 'sp, 'st) Mpsc)
     \<times> (('a, 'n, 'sp, 'st) Mpsc \<Rightarrow> ('a, 'n, 'sp, 'st) Mpsc)"

fun all_shards_empty :: "('a, 'n, 'sp, 'st) Mpsc \<Rightarrow> nat list \<Rightarrow> bool option" where
  "all_shards_empty m [] = Some True"
| "all_shards_empty m (i # is) = do { e \<leftarrow> shard_is_empty m i; if e then all_shards_empty m is else Some False }"

definition park_round ::
  "('n, 'sp, 'w) Kernel \<Rightarrow> (('a, 'n, 'sp, 'st) Mpsc \<Rightarrow> ('a, 'n, 'sp, 'st) Mpsc) \<Rightarrow> (('a, 'n, 'sp, 'st) Mpsc \<Rightarrow> ('a, 'n, 'sp, 'st) Mpsc)
     \<Rightarrow> ('a, 'n, 'sp, 'st) Mpsc \<Rightarrow> 'a MReceiver \<Rightarrow> ('a, 'n, 'sp, 'st) Mpsc option" where
  "park_round K env_arm env_park m rx =
     do { let m = env_arm (m\<lparr>m_notifier := k_arm K (m_notifier m)\<rparr>);
          e \<leftarrow> all_shards_empty m (r_shards rx);
          let m = (if e \<and> \<not> disconnected m then env_park m else m);
          Some (m\<lparr>m_notifier := k_disarm K (m_notifier m)\<rparr>) }"

fun mp_recv ::
  "('n, 'sp, 'w) Kernel \<Rightarrow> ('a, 'n, 'sp, 'st) ShardState \<Rightarrow> ('a, 'n, 'sp, 'st) round list \<Rightarrow> ('a, 'n, 'sp, 'st) Mpsc \<Rightarrow> 'a MReceiver
     \<Rightarrow> ('a option spin \<times> ('a, 'n, 'sp, 'st) Mpsc \<times> 'a MReceiver) option" where
  "mp_recv K S [] m rx = Some (Spinning, m, rx)"
| "mp_recv K S ((env_test, env_arm, env_park) # rounds) m rx =
     do { (v, m, rx) \<leftarrow> mp_try_recv K S m rx;
          case v of Some v \<Rightarrow> Some (Done (Some v), m, rx)
          | None \<Rightarrow>
              let m = env_test m
              in if disconnected m
                 then do { (m, rx) \<leftarrow> refresh_membership S m rx;
                           (v, m, rx) \<leftarrow> mp_try_recv K S m rx;
                           Some (Done v, m, rx) }
                 else do { m \<leftarrow> park_round K env_arm env_park m rx; mp_recv K S rounds m rx } }"

text \<open>\<open>drain\<close>: productive passes repeat without a pause; a round is consumed by every pass.\<close>

fun mp_drain ::
  "('n, 'sp, 'w) Kernel \<Rightarrow> ('a, 'n, 'sp, 'st) ShardState \<Rightarrow> ('a, 'n, 'sp, 'st) round list \<Rightarrow> ('a, 'n, 'sp, 'st) Mpsc \<Rightarrow> 'a MReceiver
     \<Rightarrow> ('a, 's) callback \<Rightarrow> 's \<Rightarrow> (unit spin control \<times> ('a, 'n, 'sp, 'st) Mpsc \<times> 'a MReceiver \<times> 's) option" where
  "mp_drain K S [] m rx f s = Some (Return Spinning, m, rx, s)"
| "mp_drain K S ((env_test, env_arm, env_park) # rounds) m rx f s =
     do { (c, m, rx, s) \<leftarrow> mp_drain_once K S m rx f s;
          case c of Unwind \<Rightarrow> Some (Unwind, m, rx, s)
          | Return n \<Rightarrow>
              if n > 0 then mp_drain K S rounds m rx f s
              else let m = env_test m
                   in if disconnected m
                      then do { (m, rx) \<leftarrow> refresh_membership S m rx;
                                (c, m, rx, s) \<leftarrow> mp_drain_once K S m rx f s;
                                case c of Unwind \<Rightarrow> Some (Unwind, m, rx, s)
                                | Return n \<Rightarrow> if n > 0 then mp_drain K S rounds m rx f s else Some (Return (Done ()), m, rx, s) }
                      else do { m \<leftarrow> park_round K env_arm env_park m rx; mp_drain K S rounds m rx f s } }"

section \<open>Asynchronous receiving\<close>

datatype 'r Poll = Ready 'r | Pending

text \<open>
  \<open>poll_recv\<close> and \<open>poll_recv_many\<close> of the task kernel over the waker cell \<open>A\<close>. \<open>env_reg\<close> is what the rest of the program
  does between the first look at the shards and the registration of the task \<open>w\<close>, \<open>env_look\<close> what it does between the
  registration and the second look.
\<close>

definition mp_poll_recv ::
  "('k, 'w) AtomicWaker \<Rightarrow> ('a, ('k, 'w) TaskWaiter, ('k, 'w) TaskWaiter, 'st) ShardState
     \<Rightarrow> (('a, ('k, 'w) TaskWaiter, ('k, 'w) TaskWaiter, 'st) Mpsc \<Rightarrow> ('a, ('k, 'w) TaskWaiter, ('k, 'w) TaskWaiter, 'st) Mpsc)
     \<Rightarrow> (('a, ('k, 'w) TaskWaiter, ('k, 'w) TaskWaiter, 'st) Mpsc \<Rightarrow> ('a, ('k, 'w) TaskWaiter, ('k, 'w) TaskWaiter, 'st) Mpsc)
     \<Rightarrow> 'w \<Rightarrow> ('a, ('k, 'w) TaskWaiter, ('k, 'w) TaskWaiter, 'st) Mpsc \<Rightarrow> 'a MReceiver
     \<Rightarrow> ('a option Poll \<times> ('a, ('k, 'w) TaskWaiter, ('k, 'w) TaskWaiter, 'st) Mpsc \<times> 'a MReceiver) option" where
  "mp_poll_recv A S env_reg env_look w m rx =
     do { (v, m, rx) \<leftarrow> mp_try_recv (task_kernel A) S m rx;
          case v of Some v \<Rightarrow> Some (Ready (Some v), m, rx)
          | None \<Rightarrow>
              if disconnected m
              then do { (m, rx) \<leftarrow> refresh_membership S m rx;
                        (v, m, rx) \<leftarrow> mp_try_recv (task_kernel A) S m rx;
                        Some (Ready v, m, rx) }
              else do { let m = env_reg m;
                        let m = env_look (m\<lparr>m_notifier := tw_arm A w (m_notifier m)\<rparr>);
                        (v, m, rx) \<leftarrow> mp_try_recv (task_kernel A) S m rx;
                        case v of Some v \<Rightarrow> Some (Ready (Some v), m\<lparr>m_notifier := tw_clear A (m_notifier m)\<rparr>, rx)
                        | None \<Rightarrow>
                            if disconnected m
                            then do { (m, rx) \<leftarrow> refresh_membership S m rx;
                                      (v, m, rx) \<leftarrow> mp_try_recv (task_kernel A) S m rx;
                                      Some (Ready v, m\<lparr>m_notifier := tw_clear A (m_notifier m)\<rparr>, rx) }
                            else Some (Pending, m, rx) } }"

definition mp_poll_recv_many ::
  "('k, 'w) AtomicWaker \<Rightarrow> ('a, ('k, 'w) TaskWaiter, ('k, 'w) TaskWaiter, 'st) ShardState
     \<Rightarrow> (('a, ('k, 'w) TaskWaiter, ('k, 'w) TaskWaiter, 'st) Mpsc \<Rightarrow> ('a, ('k, 'w) TaskWaiter, ('k, 'w) TaskWaiter, 'st) Mpsc)
     \<Rightarrow> (('a, ('k, 'w) TaskWaiter, ('k, 'w) TaskWaiter, 'st) Mpsc \<Rightarrow> ('a, ('k, 'w) TaskWaiter, ('k, 'w) TaskWaiter, 'st) Mpsc)
     \<Rightarrow> 'w \<Rightarrow> ('a, ('k, 'w) TaskWaiter, ('k, 'w) TaskWaiter, 'st) Mpsc \<Rightarrow> 'a MReceiver \<Rightarrow> 'a list \<Rightarrow> usize
     \<Rightarrow> (nat Poll \<times> ('a, ('k, 'w) TaskWaiter, ('k, 'w) TaskWaiter, 'st) Mpsc \<times> 'a MReceiver \<times> 'a list) option" where
  "mp_poll_recv_many A S env_reg env_look w m rx out mx =
     (if mx = 0 then Some (Ready 0, m, rx, out)
      else do { (n, m, rx, out) \<leftarrow> mp_try_recv_many (task_kernel A) S m rx out mx;
                if n > 0 then Some (Ready n, m, rx, out)
                else if disconnected m
                then do { (m, rx) \<leftarrow> refresh_membership S m rx;
                          (n, m, rx, out) \<leftarrow> mp_try_recv_many (task_kernel A) S m rx out mx;
                          Some (Ready n, m, rx, out) }
                else do { let m = env_reg m;
                          let m = env_look (m\<lparr>m_notifier := tw_arm A w (m_notifier m)\<rparr>);
                          (n, m, rx, out) \<leftarrow> mp_try_recv_many (task_kernel A) S m rx out mx;
                          if n > 0 then Some (Ready n, m\<lparr>m_notifier := tw_clear A (m_notifier m)\<rparr>, rx, out)
                          else if disconnected m
                          then do { (m, rx) \<leftarrow> refresh_membership S m rx;
                                    (n, m, rx, out) \<leftarrow> mp_try_recv_many (task_kernel A) S m rx out mx;
                                    Some (Ready n, m\<lparr>m_notifier := tw_clear A (m_notifier m)\<rparr>, rx, out) }
                          else Some (Pending, m, rx, out) } })"

text \<open>Dropping a receive future clears the registration.\<close>

definition drop_recv_future :: "('k, 'w) AtomicWaker \<Rightarrow> ('a, ('k, 'w) TaskWaiter, 'sp, 'st) Mpsc \<Rightarrow> ('a, ('k, 'w) TaskWaiter, 'sp, 'st) Mpsc" where
  "drop_recv_future A m = m\<lparr>m_notifier := tw_clear A (m_notifier m)\<rparr>"

text \<open>Dropping the receiver: its \<open>Drop\<close>, then its shards and its staged values.\<close>

fun drop_shards :: "('n, 'sp, 'w) Kernel \<Rightarrow> nat list \<Rightarrow> ('a, 'n, 'sp, 'st) Mpsc \<Rightarrow> ('a, 'n, 'sp, 'st) Mpsc option" where
  "drop_shards K [] m = Some m"
| "drop_shards K (i # is) m = do { m \<leftarrow> drop_shard K m i; drop_shards K is m }"

definition mp_drop_receiver :: "('n, 'sp, 'w) Kernel \<Rightarrow> ('a, 'n, 'sp, 'st) Mpsc \<Rightarrow> 'a MReceiver \<Rightarrow> ('a, 'n, 'sp, 'st) Mpsc option" where
  "mp_drop_receiver K m rx =
     do { m \<leftarrow> drop_shards K (r_shards rx) (m\<lparr>m_notifier := k_clear_receiver K (m_notifier m)\<rparr>);
          Some (m\<lparr>m_destroyed := m_destroyed m @ r_staging rx\<rparr>) }"

section \<open>Asynchronous sending\<close>

text \<open>\<open>SendFuture::poll\<close>; \<open>env_reg\<close> and \<open>env_look\<close> as above. \<open>None\<close> is the panic of polling after completion.\<close>

definition send_poll ::
  "('k, 'w) AtomicWaker
     \<Rightarrow> (('a, ('k, 'w) TaskWaiter, ('k, 'w) TaskWaiter, 'st) Mpsc \<Rightarrow> ('a, ('k, 'w) TaskWaiter, ('k, 'w) TaskWaiter, 'st) Mpsc)
     \<Rightarrow> (('a, ('k, 'w) TaskWaiter, ('k, 'w) TaskWaiter, 'st) Mpsc \<Rightarrow> ('a, ('k, 'w) TaskWaiter, ('k, 'w) TaskWaiter, 'st) Mpsc)
     \<Rightarrow> 'w \<Rightarrow> ('a, ('k, 'w) TaskWaiter, ('k, 'w) TaskWaiter, 'st) Mpsc \<Rightarrow> nat \<Rightarrow> 'a option
     \<Rightarrow> ((unit, 'a) Result Poll \<times> ('a, ('k, 'w) TaskWaiter, ('k, 'w) TaskWaiter, 'st) Mpsc \<times> 'a option) option" where
  "send_poll A env_reg env_look w m p item =
     do { v \<leftarrow> item;
          (x, m) \<leftarrow> mp_try_send (task_kernel A) m p v;
          case x of Ok _ \<Rightarrow> Some (Ready (Ok ()), m, None)
          | Err (Disconnected v) \<Rightarrow> Some (Ready (Err v), m, None)
          | Err (Full v) \<Rightarrow>
              do { let m = env_reg m;
                   (_, sp) \<leftarrow> ring_of m p;
                   let m = env_look (set_space p (tw_arm A w sp) m);
                   (x, m) \<leftarrow> mp_try_send (task_kernel A) m p v;
                   (_, sp) \<leftarrow> ring_of m p;
                   Some (case x of Ok _ \<Rightarrow> (Ready (Ok ()), set_space p (tw_clear A sp) m, None)
                         | Err (Disconnected v) \<Rightarrow> (Ready (Err v), set_space p (tw_clear A sp) m, None)
                         | Err (Full v) \<Rightarrow> (Pending, m, Some v)) } }"

text \<open>Dropping a send future clears the registration and drops the item it still owns.\<close>

definition drop_send_future ::
  "('k, 'w) AtomicWaker \<Rightarrow> ('a, 'n, ('k, 'w) TaskWaiter, 'st) Mpsc \<Rightarrow> nat \<Rightarrow> 'a option \<Rightarrow> ('a, 'n, ('k, 'w) TaskWaiter, 'st) Mpsc option" where
  "drop_send_future A m p item =
     do { (_, sp) \<leftarrow> ring_of m p;
          Some ((set_space p (tw_clear A sp) m)\<lparr>m_destroyed := m_destroyed m @ (case item of None \<Rightarrow> [] | Some v \<Rightarrow> [v])\<rparr>) }"

text \<open>
  \<open>SendBatchFuture\<close>. The user's iterator is the list of what its calls of \<open>next\<close> still yield; \<open>IterPanic\<close> is a call that
  unwinds. \<open>sb_dirty\<close> records that values were published which the receiver has not been told of.
\<close>

datatype 'a Iter = IterItem 'a | IterPanic

record 'a SendBatch =
  sb_items :: "'a Iter list"
  sb_pending :: "'a option"
  sb_dirty :: bool

definition send_batch_async :: "'a Iter list \<Rightarrow> 'a SendBatch" where
  "send_batch_async items = \<lparr>sb_items = items, sb_pending = None, sb_dirty = False\<rparr>"

definition ASYNC_SEND_BUDGET :: nat where
  "ASYNC_SEND_BUDGET = 64"

text \<open>What ends a poll, and whether the task rescheduled itself.\<close>

datatype 'a batch_poll = BatchReady "(unit, 'a) Result" | BatchPending bool | BatchUnwind

text \<open>Tell the receiver, and forget that it had to be told.\<close>

definition batch_notify ::
  "('k, 'w) AtomicWaker \<Rightarrow> ('a, ('k, 'w) TaskWaiter, ('k, 'w) TaskWaiter, 'st) Mpsc \<Rightarrow> 'a SendBatch
     \<Rightarrow> ('a, ('k, 'w) TaskWaiter, ('k, 'w) TaskWaiter, 'st) Mpsc \<times> 'a SendBatch" where
  "batch_notify A m b = (notify_consumer (task_kernel A) m, b\<lparr>sb_dirty := False\<rparr>)"

definition clear_space ::
  "('k, 'w) AtomicWaker \<Rightarrow> nat \<Rightarrow> ('a, 'n, ('k, 'w) TaskWaiter, 'st) Mpsc \<Rightarrow> ('a, 'n, ('k, 'w) TaskWaiter, 'st) Mpsc" where
  "clear_space A p m = (if p < length (m_spaces m) then set_space p (tw_clear A (m_spaces m ! p)) m else m)"

text \<open>
  One item of a batch, with \<open>budget\<close> left after it. The list \<open>envs\<close> holds what the rest of the program does before and after
  each registration; a registration beyond its end meets a program that does nothing. \<open>pub\<close> is the local \<open>published\<close>, and
  \<open>go\<close> continues the loop.
\<close>

type_synonym ('k, 'w, 'a, 'st) Tasked = "('a, ('k, 'w) TaskWaiter, ('k, 'w) TaskWaiter, 'st) Mpsc"

type_synonym ('k, 'w, 'a, 'st) reg_env =
  "(('k, 'w, 'a, 'st) Tasked \<Rightarrow> ('k, 'w, 'a, 'st) Tasked) \<times> (('k, 'w, 'a, 'st) Tasked \<Rightarrow> ('k, 'w, 'a, 'st) Tasked)"

definition batch_tell ::
  "('k, 'w) AtomicWaker \<Rightarrow> bool \<Rightarrow> ('k, 'w, 'a, 'st) Tasked \<Rightarrow> 'a SendBatch \<Rightarrow> ('k, 'w, 'a, 'st) Tasked \<times> 'a SendBatch" where
  "batch_tell A pub m b = (if pub then batch_notify A m b else (m, b))"

definition send_batch_item ::
  "('k, 'w) AtomicWaker \<Rightarrow> nat \<Rightarrow> ('k, 'w, 'a, 'st) reg_env list \<Rightarrow> bool \<Rightarrow> 'w \<Rightarrow> ('k, 'w, 'a, 'st) Tasked \<Rightarrow> nat \<Rightarrow> 'a \<Rightarrow> 'a SendBatch
     \<Rightarrow> (('k, 'w, 'a, 'st) reg_env list \<Rightarrow> ('k, 'w, 'a, 'st) Tasked \<Rightarrow> 'a SendBatch \<Rightarrow> ('a batch_poll \<times> ('k, 'w, 'a, 'st) Tasked \<times> 'a SendBatch) option)
     \<Rightarrow> ('a batch_poll \<times> ('k, 'w, 'a, 'st) Tasked \<times> 'a SendBatch) option" where
  "send_batch_item A budget envs pub w m p v b go =
     do { (x, m) \<leftarrow> mp_try_send_quiet m p v;
          case x of
            Ok _ \<Rightarrow>
              let b = b\<lparr>sb_dirty := True\<rparr>
              in if budget = 0
                 then (case sb_items b of
                         [] \<Rightarrow> (let (m, b) = batch_notify A m b in Some (BatchReady (Ok ()), clear_space A p m, b))
                       | IterPanic # is \<Rightarrow> Some (BatchUnwind, m, b\<lparr>sb_items := is\<rparr>)
                       | IterItem v # is \<Rightarrow>
                           let (m, b) = batch_notify A m (b\<lparr>sb_items := is, sb_pending := Some v\<rparr>)
                           in Some (BatchPending True, clear_space A p m, b))
                 else go envs m b
          | Err (Disconnected v) \<Rightarrow> (let (m, b) = batch_tell A pub m b in Some (BatchReady (Err v), clear_space A p m, b))
          | Err (Full v) \<Rightarrow>
              do { let (m, b) = batch_tell A pub m (b\<lparr>sb_pending := Some v\<rparr>);
                   let (env_reg, env_look) = (case envs of [] \<Rightarrow> (\<lambda>m. m, \<lambda>m. m) | e # _ \<Rightarrow> e);
                   let m = env_reg m;
                   (_, sp) \<leftarrow> ring_of m p;
                   let m = env_look (set_space p (tw_arm A w sp) m);
                   let b = b\<lparr>sb_pending := None\<rparr>;
                   (x, m) \<leftarrow> mp_try_send_quiet m p v;
                   case x of
                     Ok _ \<Rightarrow>
                       let m = clear_space A p m; b = b\<lparr>sb_dirty := True\<rparr>
                       in if budget = 0
                          then (let (m, b) = batch_notify A m b in Some (BatchPending True, m, b))
                          else go (tl envs) m b
                   | Err (Disconnected v) \<Rightarrow> Some (BatchReady (Err v), clear_space A p m, b)
                   | Err (Full v) \<Rightarrow> Some (BatchPending False, m, b\<lparr>sb_pending := Some v\<rparr>) } }"

text \<open>The loop of \<open>poll\<close>, by the budget that is left.\<close>

fun send_batch_loop_async ::
  "('k, 'w) AtomicWaker \<Rightarrow> nat \<Rightarrow> ('k, 'w, 'a, 'st) reg_env list \<Rightarrow> bool \<Rightarrow> 'w \<Rightarrow> ('k, 'w, 'a, 'st) Tasked \<Rightarrow> nat \<Rightarrow> 'a SendBatch
     \<Rightarrow> ('a batch_poll \<times> ('k, 'w, 'a, 'st) Tasked \<times> 'a SendBatch) option" where
  "send_batch_loop_async A 0 envs pub w m p b = None"
| "send_batch_loop_async A (Suc budget) envs pub w m p b =
     (let go = (\<lambda>envs m b. send_batch_loop_async A budget envs True w m p b)
      in case sb_pending b of
           Some v \<Rightarrow> send_batch_item A budget envs pub w m p v (b\<lparr>sb_pending := None\<rparr>) go
         | None \<Rightarrow>
             (case sb_items b of
                [] \<Rightarrow> (let (m, b) = batch_tell A pub m b in Some (BatchReady (Ok ()), clear_space A p m, b))
              | IterPanic # is \<Rightarrow> Some (BatchUnwind, m, b\<lparr>sb_items := is\<rparr>)
              | IterItem v # is \<Rightarrow> send_batch_item A budget envs pub w m p v (b\<lparr>sb_items := is\<rparr>) go))"

definition send_batch_poll ::
  "('k, 'w) AtomicWaker \<Rightarrow> ('k, 'w, 'a, 'st) reg_env list \<Rightarrow> 'w \<Rightarrow> ('k, 'w, 'a, 'st) Tasked \<Rightarrow> nat \<Rightarrow> 'a SendBatch
     \<Rightarrow> ('a batch_poll \<times> ('k, 'w, 'a, 'st) Tasked \<times> 'a SendBatch) option" where
  "send_batch_poll A envs w m p b = send_batch_loop_async A ASYNC_SEND_BUDGET envs False w m p b"

text \<open>Dropping the future tells the receiver of what it was not told of; the item that is still pending is dropped.\<close>

definition drop_send_batch ::
  "('k, 'w) AtomicWaker \<Rightarrow> ('a, ('k, 'w) TaskWaiter, ('k, 'w) TaskWaiter, 'st) Mpsc \<Rightarrow> nat \<Rightarrow> 'a SendBatch
     \<Rightarrow> ('a, ('k, 'w) TaskWaiter, ('k, 'w) TaskWaiter, 'st) Mpsc" where
  "drop_send_batch A m p b =
     (let m = clear_space A p (if sb_dirty b then notify_consumer (task_kernel A) m else m)
      in m\<lparr>m_destroyed := m_destroyed m @ (case sb_pending b of None \<Rightarrow> [] | Some v \<Rightarrow> [v])\<rparr>)"

section \<open>Opening the tiers\<close>

text \<open>\<open>fixed::open\<close>: the producers are the rings, in order.\<close>

fun fixed_spawn :: "('n, 'sp, 'w) Kernel \<Rightarrow> nat \<Rightarrow> usize \<Rightarrow> ('a, 'n, 'sp, 'st) Mpsc \<Rightarrow> (nat list \<times> ('a, 'n, 'sp, 'st) Mpsc) option" where
  "fixed_spawn K 0 capacity m = Some ([], m)"
| "fixed_spawn K (Suc n) capacity m =
     do { (i, m) \<leftarrow> spawn_ring K capacity m; (is, m) \<leftarrow> fixed_spawn K n capacity (shared_inc m); Some (i # is, m) }"

definition fixed_open :: "('n, 'sp, 'w) Kernel \<Rightarrow> usize \<Rightarrow> usize \<Rightarrow> (nat list \<times> ('a, 'n, 'sp, unit) Mpsc \<times> 'a MReceiver) option" where
  "fixed_open K producers capacity =
     do { (is, m) \<leftarrow> fixed_spawn K (unat producers) capacity (build_shared K ()); Some (is, m, make_receiver is) }"

fun pool_spawn :: "('n, 'sp, 'w) Kernel \<Rightarrow> nat \<Rightarrow> usize \<Rightarrow> ('a, 'n, 'sp, 'st) Mpsc \<Rightarrow> (nat list \<times> ('a, 'n, 'sp, 'st) Mpsc) option" where
  "pool_spawn K 0 capacity m = Some ([], m)"
| "pool_spawn K (Suc n) capacity m =
     do { (i, m) \<leftarrow> spawn_ring K capacity m; (is, m) \<leftarrow> pool_spawn K n capacity m; Some (i # is, m) }"

text \<open>\<open>pool::open\<close> asserts the number of slots; the handle counts as one live sender.\<close>

definition pool_open :: "('n, 'sp, 'w) Kernel \<Rightarrow> usize \<Rightarrow> usize \<Rightarrow> (('a, 'n, 'sp, PoolSlots) Mpsc \<times> 'a MReceiver) option" where
  "pool_open K n_max capacity =
     (if 1 \<le> n_max \<and> n_max \<le> 64
      then do { (is, m) \<leftarrow> pool_spawn K (unat n_max) capacity (build_shared K (pool_slots_new []));
                Some (shared_inc (m\<lparr>m_state := pool_slots_new is\<rparr>), make_receiver is) }
      else None)"

definition pool_handle_claim :: "('a, 'n, 'sp, PoolSlots) Mpsc \<Rightarrow> (nat option \<times> ('a, 'n, 'sp, PoolSlots) Mpsc) option" where
  "pool_handle_claim m =
     do { (t, s) \<leftarrow> pool_claim (m_state m);
          let m = m\<lparr>m_state := s\<rparr>;
          Some (t, case t of None \<Rightarrow> m | Some _ \<Rightarrow> shared_inc m) }"

definition pool_handle_clone :: "('a, 'n, 'sp, 'st) Mpsc \<Rightarrow> ('a, 'n, 'sp, 'st) Mpsc" where
  "pool_handle_clone m = shared_inc m"

definition pool_handle_drop :: "('n, 'sp, 'w) Kernel \<Rightarrow> ('a, 'n, 'sp, 'st) Mpsc \<Rightarrow> ('a, 'n, 'sp, 'st) Mpsc" where
  "pool_handle_drop K m = shared_release K m"

text \<open>\<open>dynamic::open_inner\<close>; the four openers choose the inbox and the reclamation.\<close>

definition dynamic_open :: "('n, 'sp, 'w) Kernel \<Rightarrow> Inbox \<Rightarrow> Reclaim \<Rightarrow> ('a, 'n, 'sp) Dynamic \<times> 'a MReceiver" where
  "dynamic_open K inbox rc = (shared_inc (build_shared K (inbox, rc)), make_receiver [])"

definition new_locked_inbox :: Inbox where
  "new_locked_inbox = LockedInbox 0 0 []"

definition new_lock_free_inbox :: Inbox where
  "new_lock_free_inbox = LockFreeInbox None"

definition new_ring_pool :: "usize \<Rightarrow> Reclaim" where
  "new_ring_pool bound = PooledRings (max bound 1) []"

definition register :: "('n, 'sp, 'w) Kernel \<Rightarrow> usize \<Rightarrow> ('a, 'n, 'sp) Dynamic \<Rightarrow> (nat \<times> ('a, 'n, 'sp) Dynamic) option" where
  "register K capacity m =
     do { (t, m) \<leftarrow> reclaim_take K m;
          (i, m) \<leftarrow> (case t of Some i \<Rightarrow> Some (i, m) | None \<Rightarrow> spawn_ring K capacity m);
          m \<leftarrow> inbox_deposit i (shared_inc m);
          Some (i, m) }"

definition registrar_clone :: "('a, 'n, 'sp, 'st) Mpsc \<Rightarrow> ('a, 'n, 'sp, 'st) Mpsc" where
  "registrar_clone m = shared_inc m"

definition registrar_drop :: "('n, 'sp, 'w) Kernel \<Rightarrow> ('a, 'n, 'sp, 'st) Mpsc \<Rightarrow> ('a, 'n, 'sp, 'st) Mpsc" where
  "registrar_drop K m = shared_release K m"

end
