(* ===== verification/Mpsc_Fifo.thy ===== *)
theory Mpsc_Fifo
  imports Mpsc
begin

text \<open>
  Correctness of the MPSC receiver: what one pass over the shards delivers under any kernel and any membership policy
  that keeps the contract \<open>membership\<close>.
\<close>

section \<open>Rings in the store\<close>

definition rings_rep :: "('a, 'n, 'sp, 'st) Mpsc \<Rightarrow> 'a list list \<Rightarrow> bool" where
  "rings_rep m vss \<longleftrightarrow> length vss = length (m_rings m) \<and> length (m_spaces m) = length (m_rings m)
     \<and> (\<forall>i<length vss. ring_rep (m_rings m ! i) (vss ! i))"

lemma rings_rep_nth: "rings_rep m vss \<Longrightarrow> i < length vss \<Longrightarrow> ring_rep (m_rings m ! i) (vss ! i)"
  by (simp add: rings_rep_def)

lemma ring_of_rep: "rings_rep m vss \<Longrightarrow> i < length vss \<Longrightarrow> ring_of m i = Some (m_rings m ! i, m_spaces m ! i)"
  by (simp add: ring_of_def rings_rep_def)

text \<open>Neither the notifier nor the live count matters to the rings.\<close>

lemma rings_rep_frame [simp]:
  "rings_rep (m\<lparr>m_notifier := n\<rparr>) vss = rings_rep m vss" "rings_rep (m\<lparr>m_live := l\<rparr>) vss = rings_rep m vss"
  by (simp_all add: rings_rep_def)

text \<open>The fields that receiving does not touch: the live count and the receiver's notifier.\<close>

definition outside :: "('a, 'n, 'sp, 'st) Mpsc \<Rightarrow> usize \<times> 'n" where
  outside_eq [simp]: "outside m = (m_live m, m_notifier m)"

text \<open>The liveness flags and the reference count of a ring: which halves of it are still held.\<close>

definition halves_of :: "('a, 'n, 'sp, 'st) Mpsc \<Rightarrow> nat \<Rightarrow> bool \<times> bool \<times> nat" where
  "halves_of m k = (producer_gone (m_rings m ! k), consumer_gone (m_rings m ! k), strong (m_rings m ! k))"

abbreviation orphan :: "('a, 'n, 'sp, 'st) Mpsc \<Rightarrow> nat \<Rightarrow> bool" where
  "orphan m k \<equiv> producer_gone (m_rings m ! k)"

lemma halves_of_orphan: "halves_of m k = halves_of m' k \<Longrightarrow> orphan m k = orphan m' k"
  by (simp add: halves_of_def)

text \<open>What operations on the rings of \<open>J\<close> leave alone: the membership state, the links, the receiving halves, and all there is
  to know of an empty ring outside \<open>J\<close>.\<close>

definition kept :: "nat set \<Rightarrow> ('a, 'n, 'sp, 'st) Mpsc \<Rightarrow> ('a, 'n, 'sp, 'st) Mpsc \<Rightarrow> bool" where
  "kept J m m' \<longleftrightarrow> m_state m' = m_state m \<and> length (m_rings m') = length (m_rings m)
     \<and> (\<forall>k<length (m_rings m). inbox_next (m_rings m' ! k) = inbox_next (m_rings m ! k)
         \<and> consumer_gone (m_rings m' ! k) = consumer_gone (m_rings m ! k)
         \<and> (k \<notin> J \<longrightarrow> halves_of m' k = halves_of m k \<and> (ring_rep (m_rings m ! k) [] \<longrightarrow> ring_rep (m_rings m' ! k) [])))"

text \<open>Storing a ring and its capacity notifier back after a data operation.\<close>

lemma put_ring:
  fixes sp :: 'sp and m :: "('a, 'n, 'sp, 'st) Mpsc"
  assumes "rings_rep m vss" "i < length vss" "ring_rep r vs" "same_ctl (m_rings m ! i) r" "vss ! i = [] \<Longrightarrow> vs = [] \<or> i \<in> J"
  defines "m' \<equiv> set_space i sp (set_ring i r m)"
  shows "rings_rep m' (vss[i := vs])" "kept J m m'" "outside m' = outside m" "halves_of m' k = halves_of m k"
proof -
  have e: "vss ! i = []" if "ring_rep (m_rings m ! i) []" using ring_rep_unique [OF rings_rep_nth [OF assms(1,2)] that] .
  have i: "i < length (m_rings m)" using assms(1,2) by (simp add: rings_rep_def)
  have nth: "m_rings m' ! k = (if k = i then r else m_rings m ! k)" for k using i by (simp add: m'_def set_ring_def set_space_def)
  show "outside m' = outside m" by (simp add: m'_def set_ring_def set_space_def)
  show "rings_rep m' (vss[i := vs])"
    using assms(1-3) by (simp add: rings_rep_def nth nth_list_update) (simp add: m'_def set_ring_def set_space_def)
  show h: "halves_of m' k = halves_of m k" for k using assms(4) by (simp add: halves_of_def nth same_ctl_def)
  have "m_state m' = m_state m" "length (m_rings m') = length (m_rings m)" by (simp_all add: m'_def set_ring_def set_space_def)
  moreover have "inbox_next (m_rings m' ! k) = inbox_next (m_rings m ! k) \<and> consumer_gone (m_rings m' ! k) = consumer_gone (m_rings m ! k)" for k
    using assms(4) by (simp add: nth same_ctl_def)
  moreover have "ring_rep (m_rings m' ! k) []" if "k \<notin> J" "ring_rep (m_rings m ! k) []" for k using that assms(3,5) e by (auto simp: nth)
  ultimately show "kept J m m'" using h by (simp add: kept_def)
qed

section \<open>Draining a shard\<close>

lemma kernel_drain_spec:
  assumes "ring_rep r vs" "mx \<noteq> 0"
  shows "\<exists>fin ok s' r' sp'. feed f (take fin vs) s = (fin, ok, s')
     \<and> kernel_drain K r sp mx f s = Some (if ok then Return fin else Unwind, r', sp', s')
     \<and> ring_rep r' (drop fin vs) \<and> same_ctl r r' \<and> fin \<le> min (length vs) (unat mx) \<and> (fin = 0 \<longleftrightarrow> vs = [])"
proof -
  obtain n fin ok s' r' where d: "feed f (take n vs) s = (fin, ok, s')"
     "drain_in_place r mx f s = Some (if ok then Return n else Unwind, r', s')"
     "ring_rep r' (drop fin vs)" "same_ctl r r'" "n \<le> min (length vs) (unat mx)" "n = 0 \<longleftrightarrow> vs = [] \<or> mx = 0"
    using ring_rep_drain_in_place [OF assms(1), of f s mx] by (elim exE conjE) (rule that)
  have fin: "fin \<le> n" using feed_le [of f "take n vs" s] d(1,5) by simp
  have "ok \<Longrightarrow> fin = n" using feed_all [of f "take n vs" s] d(1,5) by simp
  moreover have "fin = 0 \<longleftrightarrow> vs = []" using feed_pos [of "take n vs" f s] d(1,6) assms(2) fin by auto
  moreover have "feed f (take fin vs) s = (fin, ok, s')" using feed_seen [OF d(1)] fin by (simp add: min_def)
  moreover have "\<exists>sp'. kernel_drain K r sp mx f s = Some (if ok then Return n else Unwind, r', sp', s')"
    using d(2) ring_rep_drain_in_place_async [OF assms, of _ sp f s] by (simp add: kernel_drain_def split: option.split)
  then obtain sp' where "kernel_drain K r sp mx f s = Some (if ok then Return n else Unwind, r', sp', s')" ..
  ultimately show ?thesis using d fin
    by - (rule exI [of _ fin], rule exI [of _ ok], rule exI [of _ s'], rule exI [of _ r'], rule exI [of _ sp'], auto)
qed

definition at_cursor :: "'a MReceiver \<Rightarrow> nat" where
  "at_cursor rx = unat (r_cursor rx mod of_nat (length (r_shards rx)))"

lemma at_cursor_eq: "length (r_shards rx) < 2 ^ 64 \<Longrightarrow> at_cursor rx = unat (r_cursor rx) mod length (r_shards rx)"
  by (simp add: at_cursor_def unat_mod unat_of_nat_usize)

lemma at_cursor_less: "length (r_shards rx) < 2 ^ 64 \<Longrightarrow> r_shards rx \<noteq> [] \<Longrightarrow> at_cursor rx < length (r_shards rx)"
  by (simp add: at_cursor_eq)

lemma swap_remove_split: "swap_remove (length as) (as @ x # bs) = (if bs = [] then as else as @ last bs # butlast bs)"
  by (cases bs rule: rev_cases) (simp_all add: swap_remove_def list_update_append butlast_append)

lemma swap_remove_props:
  assumes "i < length xs" "distinct xs"
  shows "set (swap_remove i xs) = set xs - {xs ! i}" "distinct (swap_remove i xs)" "length (swap_remove i xs) = length xs - 1"
proof -
  obtain as bs where xs: "xs = as @ xs ! i # bs" "length as = i"
    using id_take_nth_drop [OF assms(1)] assms(1) by (metis length_take min.absorb4)
  have s: "swap_remove i xs = (if bs = [] then as else as @ last bs # butlast bs)"
    using swap_remove_split [of as "xs ! i" bs] xs by simp
  show "length (swap_remove i xs) = length xs - 1" by (simp add: swap_remove_def)
  have d: "distinct (as @ xs ! i # bs)" "set xs = set as \<union> insert (xs ! i) (set bs)" using assms(2) xs(1) by (metis, metis set_append list.set(2))
  show "set (swap_remove i xs) = set xs - {xs ! i}" "distinct (swap_remove i xs)"
    using s d by (cases bs rule: rev_cases; auto)+
qed

section \<open>Membership policies\<close>

text \<open>
  What the receiver relies on: \<open>minv\<close> holds of the shared state and the shards; \<open>waiting_in\<close> are the shards that wait in an
  inbox, \<open>free_in\<close> the shards whose sending half nobody has claimed. \<open>refresh\<close> appends exactly the waiting shards, \<open>dispose\<close>
  of a finished shard removes it, or keeps it when \<open>removes\<close> is false; neither touches the contents of any ring.
\<close>

locale membership =
  fixes S :: "('a, 'n, 'sp, 'st) ShardState"
    and minv :: "('a, 'n, 'sp, 'st) Mpsc \<Rightarrow> nat list \<Rightarrow> bool"
    and waiting_in free_in :: "('a, 'n, 'sp, 'st) Mpsc \<Rightarrow> nat set"
    and removes :: bool
  assumes data: "minv m shards \<Longrightarrow> kept (set shards \<union> waiting_in m - free_in m) m m'
      \<Longrightarrow> minv m' shards \<and> waiting_in m' = waiting_in m \<and> free_in m' = free_in m"
    and ok: "minv m shards \<Longrightarrow> length shards < 2 ^ 64 \<and> distinct shards \<and> set shards \<inter> waiting_in m = {}
      \<and> set shards \<union> waiting_in m \<subseteq> {..<length (m_rings m)}"
    and free_empty: "minv m shards \<Longrightarrow> k \<in> free_in m \<Longrightarrow> k < length (m_rings m) \<and> ring_rep (m_rings m ! k) []"
    and refresh: "rings_rep m vss \<Longrightarrow> minv m shards \<Longrightarrow>
      \<exists>m' new. ss_refresh S m shards = Some (m', shards @ new) \<and> rings_rep m' vss \<and> minv m' (shards @ new)
        \<and> set new = waiting_in m \<and> waiting_in m' = {} \<and> free_in m' = free_in m \<and> outside m' = outside m
        \<and> (\<forall>k<length vss. halves_of m' k = halves_of m k)"
    and dispose: "rings_rep m vss \<Longrightarrow> minv m shards \<Longrightarrow> i < length shards \<Longrightarrow> vss ! (shards ! i) = [] \<Longrightarrow> orphan m (shards ! i) \<Longrightarrow>
      \<exists>m'. ss_dispose S m shards i = Some (removes, m', if removes then swap_remove i shards else shards) \<and> rings_rep m' vss
        \<and> minv m' (if removes then swap_remove i shards else shards) \<and> outside m' = outside m
        \<and> waiting_in m' = waiting_in m \<and> free_in m' \<subseteq> insert (shards ! i) (free_in m)
        \<and> (\<forall>k<length vss. k \<noteq> shards ! i \<longrightarrow> halves_of m' k = halves_of m k)"
begin

text \<open>
  What receiving does: the values \<open>dl\<close>, each with its ring, leave the rings in FIFO order; only empty shards whose producer
  is gone are given up, and only such a ring is reset.
\<close>

definition received ::
  "('a, 'n, 'sp, 'st) Mpsc \<Rightarrow> nat list \<Rightarrow> 'a list list \<Rightarrow> ('a, 'n, 'sp, 'st) Mpsc \<Rightarrow> nat list \<Rightarrow> 'a list list \<Rightarrow> (nat \<times> 'a) list \<Rightarrow> bool" where
  "received m shards vss m' shards' vss' dl \<longleftrightarrow>
     rings_rep m' vss' \<and> minv m' shards' \<and> outside m' = outside m \<and> length vss' = length vss
     \<and> (\<forall>j<length vss. from_producer j dl @ vss' ! j = vss ! j) \<and> (\<forall>x\<in>set dl. fst x < length vss)
     \<and> set shards' \<union> waiting_in m' \<subseteq> set shards \<union> waiting_in m
     \<and> (\<forall>j\<in>set shards \<union> waiting_in m - (set shards' \<union> waiting_in m'). vss' ! j = [] \<and> orphan m j)
     \<and> (\<forall>k<length vss. halves_of m' k = halves_of m k \<or> orphan m k \<and> (removes \<longrightarrow> k \<notin> set shards' \<union> waiting_in m'))
     \<and> free_in m' \<subseteq> free_in m \<union> {k. k < length vss \<and> orphan m k}"

lemma receivedI:
  assumes "rings_rep m' vss'" "minv m' shards'" "outside m' = outside m" "length vss' = length vss"
    "\<And>j. j < length vss \<Longrightarrow> from_producer j dl @ vss' ! j = vss ! j" "\<forall>x\<in>set dl. fst x < length vss"
    "set shards' \<union> waiting_in m' \<subseteq> set shards \<union> waiting_in m"
    "\<And>j. j \<in> set shards \<union> waiting_in m - (set shards' \<union> waiting_in m') \<Longrightarrow> vss' ! j = [] \<and> orphan m j"
    "\<And>k. k < length vss \<Longrightarrow> halves_of m' k = halves_of m k \<or> orphan m k \<and> (removes \<longrightarrow> k \<notin> set shards' \<union> waiting_in m')"
    "free_in m' \<subseteq> free_in m \<union> {k. k < length vss \<and> orphan m k}"
  shows "received m shards vss m' shards' vss' dl"
  using assms unfolding received_def by blast

lemma received_refl: "rings_rep m vss \<Longrightarrow> minv m shards \<Longrightarrow> received m shards vss m shards vss []"
  by (simp add: received_def)

lemma received_trans:
  assumes a: "received m shards vss m1 sh1 vss1 dl1" and b: "received m1 sh1 vss1 m2 sh2 vss2 dl2" and inv: "rings_rep m vss" "minv m shards"
  shows "received m shards vss m2 sh2 vss2 (dl1 @ dl2)"
proof -
  note a' = a [unfolded received_def] and b' = b [unfolded received_def]
  have len: "length vss1 = length vss" "length vss2 = length vss" using a' b' by auto
  have fifo: "from_producer j (dl1 @ dl2) @ vss2 ! j = vss ! j" if "j < length vss" for j
    using a' b' that len by (simp add: from_producer_append)
  have empty: "vss1 ! j = [] \<Longrightarrow> vss2 ! j = []" if "j < length vss" for j
    using b' that len by (metis append_is_Nil_conv)
  have orph: "orphan m1 k \<Longrightarrow> orphan m k" if "k < length vss" for k using a' that halves_of_orphan by blast
  have sub: "set sh2 \<union> waiting_in m2 \<subseteq> set sh1 \<union> waiting_in m1" "set sh1 \<union> waiting_in m1 \<subseteq> set shards \<union> waiting_in m" using a' b' by auto
  have lt: "j < length vss" if "j \<in> set shards \<union> waiting_in m" for j using ok [OF inv(2)] that inv(1) by (auto simp: rings_rep_def)
  have gone: "vss2 ! j = [] \<and> orphan m j" if j: "j \<in> set shards \<union> waiting_in m - (set sh2 \<union> waiting_in m2)" for j
  proof (cases "j \<in> set sh1 \<union> waiting_in m1")
    case True
    then show ?thesis using b' j orph [of j] lt [of j] by blast
  next
    case False
    then show ?thesis using a' j empty [of j] lt [of j] by blast
  qed
  have halves: "halves_of m2 k = halves_of m k \<or> orphan m k \<and> (removes \<longrightarrow> k \<notin> set sh2 \<union> waiting_in m2)" if "k < length vss" for k
  proof -
    have "halves_of m1 k = halves_of m k \<or> orphan m k \<and> (removes \<longrightarrow> k \<notin> set sh1 \<union> waiting_in m1)" using a' that by blast
    moreover have "halves_of m2 k = halves_of m1 k \<or> orphan m1 k \<and> (removes \<longrightarrow> k \<notin> set sh2 \<union> waiting_in m2)" using b' that len by simp
    ultimately show ?thesis using orph [OF that] sub(1) by auto
  qed
  have free: "free_in m2 \<subseteq> free_in m \<union> {k. k < length vss \<and> orphan m k}" using a' b' orph len by auto
  have "\<forall>x\<in>set (dl1 @ dl2). fst x < length vss" using a' b' len by auto
  moreover have "set sh2 \<union> waiting_in m2 \<subseteq> set shards \<union> waiting_in m" using sub by (rule order_trans)
  moreover have "rings_rep m2 vss2" "minv m2 sh2" "outside m2 = outside m" using a' b' by auto
  ultimately show ?thesis using len(2) fifo gone halves free by (intro receivedI) blast+
qed

text \<open>One shard is drained: the values come from the shard at the cursor.\<close>

lemma drain_shard_spec:
  assumes inv: "rings_rep m vss" "minv m (r_shards rx)" and ne: "r_shards rx \<noteq> []" "mx \<noteq> 0"
  defines "j \<equiv> r_shards rx ! at_cursor rx"
  shows "\<exists>ok s' m' vss' dl. drain_shard K m rx mx f s = Some (at_cursor rx, if ok then Return (length dl) else Unwind, m', s')
     \<and> feed f (map snd dl) s = (length dl, ok, s') \<and> received m (r_shards rx) vss m' (r_shards rx) vss' dl
     \<and> length dl \<le> unat mx \<and> (dl = [] \<longleftrightarrow> vss ! j = []) \<and> (dl = [] \<longrightarrow> vss' = vss) \<and> (\<forall>k. halves_of m' k = halves_of m k)
     \<and> waiting_in m' = waiting_in m"
proof -
  let ?J = "set (r_shards rx) \<union> waiting_in m - free_in m"
  note l = ok [OF inv(2)]
  have i: "at_cursor rx < length (r_shards rx)" using l ne(1) at_cursor_less by blast
  then have js: "j \<in> set (r_shards rx)" by (simp add: j_def)
  then have j: "j < length vss" using l inv(1) by (auto simp: rings_rep_def)
  obtain fin ok s' r' sp' where d: "feed f (take fin (vss ! j)) s = (fin, ok, s')"
     "kernel_drain K (m_rings m ! j) (m_spaces m ! j) mx f s = Some (if ok then Return fin else Unwind, r', sp', s')"
     "ring_rep r' (drop fin (vss ! j))" "same_ctl (m_rings m ! j) r'" "fin \<le> min (length (vss ! j)) (unat mx)" "fin = 0 \<longleftrightarrow> vss ! j = []"
    using kernel_drain_spec [OF rings_rep_nth [OF inv(1) j] ne(2), where K = K and sp = "m_spaces m ! j" and f = f and s = s]
    by (elim exE conjE) (rule that)
  let ?m = "set_space j sp' (set_ring j r' m)" and ?dl = "map (Pair j) (take fin (vss ! j))" and ?vss = "vss[j := drop fin (vss ! j)]"
  have "vss ! j = [] \<Longrightarrow> drop fin (vss ! j) = [] \<or> j \<in> ?J" by simp
  note p = put_ring [OF inv(1) j d(3,4) this, of sp']
  note da = data [OF inv(2) p(2)]
  have "received m (r_shards rx) vss ?m (r_shards rx) ?vss ?dl"
    using p(1,3,4) da j by (intro receivedI) (auto simp: from_producer_Pair)
  moreover have "drain_shard K m rx mx f s = Some (at_cursor rx, if ok then Return fin else Unwind, ?m, s')"
    using i d(2) ring_of_rep [OF inv(1) j] ne(1) by (simp add: drain_shard_def Let_def at_cursor_def [symmetric] j_def [symmetric])
  moreover have "length ?dl = fin" "map snd ?dl = take fin (vss ! j)" using d(5) by (simp_all add: comp_def)
  moreover have "?dl = [] \<longleftrightarrow> vss ! j = []" using d(6) by auto
  moreover have "?dl = [] \<longrightarrow> ?vss = vss" using d(6) by (metis calculation(5) drop_Nil list_update_id)
  ultimately show ?thesis using d(1,5) p(4) da
    by - (rule exI [of _ ok], rule exI [of _ s'], rule exI [of _ ?m], rule exI [of _ ?vss], rule exI [of _ ?dl], simp)
qed

text \<open>A shard that yielded nothing is passed over.\<close>

lemma pass_over_spec:
  assumes inv: "rings_rep m vss" "minv m (r_shards rx)" and i: "i < length (r_shards rx)" "vss ! (r_shards rx ! i) = []"
  shows "\<exists>m' rx'. pass_over S m rx i = Some (m', rx') \<and> received m (r_shards rx) vss m' (r_shards rx') vss []
     \<and> r_staging rx' = r_staging rx \<and> r_batch rx' = r_batch rx \<and> waiting_in m' = waiting_in m
     \<and> (if orphan m (r_shards rx ! i) \<and> removes
        then r_shards rx' = swap_remove i (r_shards rx) \<and> r_cursor rx' = r_cursor rx
        else r_shards rx' = r_shards rx \<and> r_cursor rx' = r_cursor rx + 1)"
proof -
  let ?j = "r_shards rx ! i" and ?sh = "if removes then swap_remove i (r_shards rx) else r_shards rx"
  note l = ok [OF inv(2)]
  have js: "?j \<in> set (r_shards rx)" using i(1) by simp
  then have j: "?j < length vss" "?j \<notin> waiting_in m" using l inv(1) by (auto simp: rings_rep_def)
  have "ring_rep (m_rings m ! ?j) []" using rings_rep_nth [OF inv(1) j(1)] i(2) by simp
  then have fin: "shard_is_finished m ?j = Some (orphan m ?j)"
    using ring_of_rep [OF inv(1) j(1)] ring_rep_empty_iff by (fastforce simp: shard_is_finished_def is_finished_def)
  show ?thesis
  proof (cases "orphan m ?j")
    case True
    obtain m' where d: "ss_dispose S m (r_shards rx) i = Some (removes, m', ?sh)" "rings_rep m' vss" "minv m' ?sh" "outside m' = outside m"
      "waiting_in m' = waiting_in m" "free_in m' \<subseteq> insert ?j (free_in m)" "\<forall>k<length vss. k \<noteq> ?j \<longrightarrow> halves_of m' k = halves_of m k"
      using dispose [OF inv i True] by blast
    have sr: "set ?sh = (if removes then set (r_shards rx) - {?j} else set (r_shards rx))" using swap_remove_props [OF i(1)] l by simp
    have "received m (r_shards rx) vss m' ?sh vss []"
    proof (rule receivedI)
      fix k assume k: "k < length vss"
      show "halves_of m' k = halves_of m k \<or> orphan m k \<and> (removes \<longrightarrow> k \<notin> set ?sh \<union> waiting_in m')"
        using d(5,7) k sr True j(2) by (cases "k = ?j") auto
    qed (use d sr i(2) True j in \<open>auto split: if_splits\<close>)
    then show ?thesis using fin True d(1,5)
      by - (rule exI [of _ m'], rule exI [of _ "if removes then rx\<lparr>r_shards := ?sh\<rparr> else advance (rx\<lparr>r_shards := ?sh\<rparr>)"],
        cases removes, simp_all add: pass_over_def dispose_finished_def advance_def)
  next
    case False
    then show ?thesis using fin received_refl [OF inv] by (auto simp: pass_over_def advance_def)
  qed
qed

text \<open>A round of the loop of \<open>try_recv\<close> delivers, or it passes over a shard.\<close>

lemma recv_round:
  assumes inv: "rings_rep m vss" "minv m (r_shards rx)" and rx: "r_staging rx = []" "r_batch rx \<noteq> 0" "r_shards rx \<noteq> []"
  obtains (got) dl m' vss' where "vss ! (r_shards rx ! at_cursor rx) \<noteq> []" "dl \<noteq> []" "received m (r_shards rx) vss m' (r_shards rx) vss' dl" "waiting_in m' = waiting_in m"
      "\<And>n. mp_recv_loop K S (Suc n) m rx = Some (Some (snd (dl ! 0)), m', rx\<lparr>r_staging := tl (map snd dl), r_cursor := r_cursor rx + 1\<rparr>)"
  | (pass) m' rx' where "vss ! (r_shards rx ! at_cursor rx) = []" "received m (r_shards rx) vss m' (r_shards rx') vss []" "waiting_in m' = waiting_in m"
      "r_staging rx' = []" "r_batch rx' = r_batch rx"
      "\<And>n. mp_recv_loop K S (Suc n) m rx = (if r_shards rx' = [] then Some (None, m', rx') else mp_recv_loop K S n m' rx')"
      "if orphan m (r_shards rx ! at_cursor rx) \<and> removes
       then r_shards rx' = swap_remove (at_cursor rx) (r_shards rx) \<and> r_cursor rx' = r_cursor rx
       else r_shards rx' = r_shards rx \<and> r_cursor rx' = r_cursor rx + 1"
proof -
  let ?j = "r_shards rx ! at_cursor rx"
  obtain okk s' m1 vss1 dl where d: "drain_shard K m rx (r_batch rx) collect [] = Some (at_cursor rx, if okk then Return (length dl) else Unwind, m1, s')"
     "feed collect (map snd dl) [] = (length dl, okk, s')" "received m (r_shards rx) vss m1 (r_shards rx) vss1 dl"
     "length dl \<le> unat (r_batch rx)" "dl = [] \<longleftrightarrow> vss ! ?j = []" "dl = [] \<longrightarrow> vss1 = vss" "\<forall>k. halves_of m1 k = halves_of m k" "waiting_in m1 = waiting_in m"
    using drain_shard_spec [OF inv rx(3,2), where K = K and f = collect and s = "[]"] by (elim exE conjE) (rule that)
  have s': "okk" "s' = map snd dl" using d(2) by auto
  show thesis
  proof (cases "dl = []")
    case False
    have "mp_recv_loop K S (Suc n) m rx = Some (Some (snd (dl ! 0)), m1, rx\<lparr>r_staging := tl (map snd dl), r_cursor := r_cursor rx + 1\<rparr>)" for n
      using d(1) s' False rx(1) by (cases dl) (simp_all add: Let_def staging_pop_def advance_def)
    then show thesis using got False d(3,5,8) by blast
  next
    case True
    let ?rx = "rx\<lparr>r_staging := []\<rparr>"
    have e: "vss1 = vss" "vss ! ?j = []" "at_cursor ?rx = at_cursor rx" using d(5,6) True by (auto simp: at_cursor_def)
    have inv1: "rings_rep m1 vss" "minv m1 (r_shards rx)" using d(3) e(1) by (auto simp: received_def)
    have i: "at_cursor rx < length (r_shards rx)" using ok [OF inv(2)] rx(3) at_cursor_less by blast
    have sel: "r_shards ?rx = r_shards rx" "r_batch ?rx = r_batch rx" "r_cursor ?rx = r_cursor rx" "r_staging ?rx = []" by simp_all
    obtain m2 rx2 where p: "pass_over S m1 ?rx (at_cursor rx) = Some (m2, rx2)" "received m1 (r_shards rx) vss m2 (r_shards rx2) vss []"
      "r_staging rx2 = []" "r_batch rx2 = r_batch rx" "waiting_in m2 = waiting_in m1"
      "if orphan m1 ?j \<and> removes then r_shards rx2 = swap_remove (at_cursor rx) (r_shards rx) \<and> r_cursor rx2 = r_cursor rx
       else r_shards rx2 = r_shards rx \<and> r_cursor rx2 = r_cursor rx + 1"
      using pass_over_spec [where rx = ?rx, unfolded sel, OF inv1 i e(2)] by (elim exE conjE) (rule that)
    have "mp_recv_loop K S (Suc n) m rx = (if r_shards rx2 = [] then Some (None, m2, rx2) else mp_recv_loop K S n m2 rx2)" for n
      using d(1) s' True rx(1) p(1,3) by (simp add: Let_def staging_pop_def)
    moreover have "received m (r_shards rx) vss m2 (r_shards rx2) vss []" using received_trans [OF d(3)] p(2) inv e(1) True by fastforce
    moreover have "orphan m1 ?j = orphan m ?j" using d(7) halves_of_orphan by blast
    ultimately show thesis using pass [of m2 rx2] e(2) p(3-6) d(8) by simp
  qed
qed

lemma mp_recv_loop_spec:
  assumes "rings_rep m vss" "minv m (r_shards rx)" "r_staging rx = []" "r_batch rx \<noteq> 0" "r_shards rx \<noteq> [] \<or> n = 0"
  shows "\<exists>m' rx' vss' dl. mp_recv_loop K S n m rx = Some (case dl of [] \<Rightarrow> None | x # _ \<Rightarrow> Some (snd x), m', rx')
     \<and> received m (r_shards rx) vss m' (r_shards rx') vss' dl \<and> waiting_in m' = waiting_in m
     \<and> r_batch rx' = r_batch rx \<and> r_staging rx' = tl (map snd dl)"
  using assms
proof (induction n arbitrary: m rx)
  case 0
  then show ?case using received_refl [OF 0(1,2)]
    by - (rule exI [of _ m], rule exI [of _ rx], rule exI [of _ vss], rule exI [of _ "[]"], simp add: staging_pop_def)
next
  case (Suc n)
  have ne: "r_shards rx \<noteq> []" using Suc.prems(5) by simp
  from Suc.prems(1-4) ne show ?case
  proof (cases rule: recv_round [where K = K])
    case (got dl m' vss')
    then show ?thesis by (cases dl)
      (simp, rule exI [of _ m'], rule exI [of _ "rx\<lparr>r_staging := tl (map snd dl), r_cursor := r_cursor rx + 1\<rparr>"],
        rule exI [of _ vss'], rule exI [of _ dl], simp)
  next
    case (pass m2 rx2)
    show ?thesis
    proof (cases "r_shards rx2 = []")
      case True
      then show ?thesis using pass
        by - (rule exI [of _ m2], rule exI [of _ rx2], rule exI [of _ vss], rule exI [of _ "[]"], simp)
    next
      case False
      have inv2: "rings_rep m2 vss" "minv m2 (r_shards rx2)" "r_batch rx2 \<noteq> 0" using pass(2,5) Suc.prems(4) by (auto simp: received_def)
      obtain m' rx' vss' dl where IH: "mp_recv_loop K S n m2 rx2 = Some (case dl of [] \<Rightarrow> None | x # _ \<Rightarrow> Some (snd x), m', rx')"
        "received m2 (r_shards rx2) vss m' (r_shards rx') vss' dl" "waiting_in m' = waiting_in m2"
        "r_batch rx' = r_batch rx2" "r_staging rx' = tl (map snd dl)"
        using Suc.IH [OF inv2(1,2) pass(4) inv2(3) disjI1 [OF False]] by (elim exE conjE) (rule that)
      have "received m (r_shards rx) vss m' (r_shards rx') vss' dl" using received_trans [OF pass(2) IH(2) Suc.prems(1,2)] by simp
      then show ?thesis using IH pass(3,5,6) False
        by - (rule exI [of _ m'], rule exI [of _ rx'], rule exI [of _ vss'], rule exI [of _ dl], simp)
    qed
  qed
qed

end

context membership
begin

text \<open>
  When a pass reports nothing, nothing was there: under a policy that removes shards, when all producers are gone; under
  one that keeps them, as long as the cursor does not wrap.
\<close>

lemma mp_recv_loop_none_removed:
  assumes "rings_rep m vss" "minv m (r_shards rx)" "r_staging rx = []" "r_batch rx \<noteq> 0" "r_shards rx \<noteq> [] \<or> n = 0" removes
    "\<forall>j\<in>set (r_shards rx). orphan m j" "length (r_shards rx) \<le> n" "mp_recv_loop K S n m rx = Some (None, m', rx')"
  shows "\<forall>j\<in>set (r_shards rx). vss ! j = []"
  using assms
proof (induction n arbitrary: m rx)
  case (Suc n)
  have ne: "r_shards rx \<noteq> []" using Suc.prems(5) by simp
  let ?sh = "r_shards rx"
  from Suc.prems(1-4) ne show ?case
  proof (cases rule: recv_round [where K = K])
    case (got dl m' vss')
    then show ?thesis using Suc.prems(9) by simp
  next
    case (pass m2 rx2)
    note l = ok [OF Suc.prems(2)]
    have i: "at_cursor rx < length ?sh" using l ne at_cursor_less by blast
    have o: "orphan m (?sh ! at_cursor rx)" using Suc.prems(7) i by simp
    have s2: "set (r_shards rx2) = set ?sh - {?sh ! at_cursor rx}" "length (r_shards rx2) = length ?sh - 1"
      using pass(7) o Suc.prems(6) swap_remove_props [OF i] l by auto
    have "\<forall>j\<in>set (r_shards rx2). vss ! j = []"
    proof (cases "r_shards rx2 = []")
      case False
      have inv2: "rings_rep m2 vss" "minv m2 (r_shards rx2)" "r_batch rx2 \<noteq> 0" using pass(2,5) Suc.prems(4) by (auto simp: received_def)
      have "orphan m2 j" if "j \<in> set (r_shards rx2)" for j
      proof -
        have j: "j < length vss" "j \<in> set ?sh" using that s2(1) l Suc.prems(1) by (auto simp: rings_rep_def)
        have "halves_of m2 j = halves_of m j" using pass(2) [unfolded received_def] that j(1) Suc.prems(6) by blast
        then show ?thesis using halves_of_orphan Suc.prems(7) j(2) by blast
      qed
      then show ?thesis using Suc.IH [OF inv2(1,2) pass(4) inv2(3) disjI1 [OF False] Suc.prems(6)] s2(2) Suc.prems(8,9) pass(6) False by simp
    qed simp
    then show ?thesis using s2(1) pass(1) by blast
  qed
qed simp

lemma mp_recv_loop_none_kept:
  assumes "rings_rep m vss" "minv m (r_shards rx)" "r_staging rx = []" "r_batch rx \<noteq> 0" "r_shards rx \<noteq> [] \<or> n = 0" "\<not> removes"
    "unat (r_cursor rx) + n < 2 ^ 64" "mp_recv_loop K S n m rx = Some (None, m', rx')" "k < n"
  shows "vss ! (r_shards rx ! ((unat (r_cursor rx) + k) mod length (r_shards rx))) = []"
  using assms
proof (induction n arbitrary: m rx k)
  case (Suc n)
  have ne: "r_shards rx \<noteq> []" using Suc.prems(5) by simp
  let ?sh = "r_shards rx"
  from Suc.prems(1-4) ne show ?case
  proof (cases rule: recv_round [where K = K])
    case (got dl m' vss')
    then show ?thesis using Suc.prems(8) by simp
  next
    case (pass m2 rx2)
    have s2: "r_shards rx2 = ?sh" "r_cursor rx2 = r_cursor rx + 1" using pass(7) Suc.prems(6) by auto
    have u: "unat (r_cursor rx2) = Suc (unat (r_cursor rx))" using Suc.prems(7) s2(2) by (simp add: unat_word_ariths)
    have at: "at_cursor rx = unat (r_cursor rx) mod length ?sh" using ok [OF Suc.prems(2)] by (simp add: at_cursor_eq)
    have inv2: "rings_rep m2 vss" "minv m2 (r_shards rx2)" "r_batch rx2 \<noteq> 0" using pass(2,5) Suc.prems(4) by (auto simp: received_def)
    show ?thesis
    proof (cases k)
      case 0
      then show ?thesis using pass(1) at by simp
    next
      case (Suc k')
      have "mp_recv_loop K S n m2 rx2 = Some (None, m', rx')" using Suc.prems(8) pass(6) s2(1) ne by simp
      then have "vss ! (r_shards rx2 ! ((unat (r_cursor rx2) + k') mod length (r_shards rx2))) = []"
        using Suc.IH [OF inv2(1,2) pass(4) inv2(3), of k'] s2(1) ne Suc.prems(6,7,9) u Suc by simp
      then show ?thesis using u s2(1) Suc by simp
    qed
  qed
qed simp

text \<open>\<open>refresh_membership\<close> takes in the shards that wait.\<close>

lemma refresh_spec:
  assumes inv: "rings_rep m vss" "minv m (r_shards rx)"
  shows "\<exists>m' new. refresh_membership S m rx = Some (m', rx\<lparr>r_shards := r_shards rx @ new\<rparr>) \<and> set new = waiting_in m \<and> waiting_in m' = {}
     \<and> received m (r_shards rx) vss m' (r_shards rx @ new) vss [] \<and> (\<forall>k<length vss. halves_of m' k = halves_of m k)"
proof -
  obtain m' new where r: "ss_refresh S m (r_shards rx) = Some (m', r_shards rx @ new)" "rings_rep m' vss" "minv m' (r_shards rx @ new)"
    "set new = waiting_in m" "waiting_in m' = {}" "free_in m' = free_in m" "outside m' = outside m" "\<forall>k<length vss. halves_of m' k = halves_of m k"
    using refresh [OF inv] by blast
  have "received m (r_shards rx) vss m' (r_shards rx @ new) vss []" using r by (intro receivedI) auto
  then show ?thesis using r by (auto simp: refresh_membership_def)
qed

lemma mp_try_recv_spec:
  assumes inv: "rings_rep m vss" "minv m (r_shards rx)" and b: "r_batch rx \<noteq> 0"
  shows "\<exists>m' rx' vss' dl. mp_try_recv K S m rx = Some (case r_staging rx @ map snd dl of [] \<Rightarrow> None | v # _ \<Rightarrow> Some v, m', rx')
     \<and> received m (r_shards rx) vss m' (r_shards rx') vss' dl \<and> r_batch rx' = r_batch rx \<and> r_staging rx' = tl (r_staging rx @ map snd dl)"
proof (cases "r_staging rx")
  case (Cons v vs)
  then have "mp_try_recv K S m rx = Some (Some v, m, rx\<lparr>r_staging := vs\<rparr>)" by (simp add: mp_try_recv_def staging_pop_def)
  then show ?thesis using received_refl [OF inv] Cons
    by - (rule exI [of _ m], rule exI [of _ "rx\<lparr>r_staging := vs\<rparr>"], rule exI [of _ vss], rule exI [of _ "[]"], simp)
next
  case Nil
  obtain m1 new where f: "refresh_membership S m rx = Some (m1, rx\<lparr>r_shards := r_shards rx @ new\<rparr>)" "waiting_in m1 = {}"
    "received m (r_shards rx) vss m1 (r_shards rx @ new) vss []" using refresh_spec [OF inv] by blast
  let ?rx = "rx\<lparr>r_shards := r_shards rx @ new\<rparr>" and ?sh = "r_shards rx @ new"
  have inv1: "rings_rep m1 vss" "minv m1 ?sh" using f(3) by (auto simp: received_def)
  have go: "mp_try_recv K S m rx = (if ?sh = [] then Some (None, m1, ?rx) else mp_recv_loop K S (length ?sh) m1 ?rx)"
    using Nil f(1) by (simp add: mp_try_recv_def staging_pop_def)
  show ?thesis
  proof (cases "?sh = []")
    case True
    then show ?thesis using go f(3) Nil
      by - (rule exI [of _ m1], rule exI [of _ ?rx], rule exI [of _ vss], rule exI [of _ "[]"], simp)
  next
    case False
    have sel: "r_shards ?rx = ?sh" "r_batch ?rx = r_batch rx" "r_staging ?rx = []" using Nil by simp_all
    obtain m' rx' vss' dl where l: "mp_recv_loop K S (length ?sh) m1 ?rx = Some (case dl of [] \<Rightarrow> None | x # _ \<Rightarrow> Some (snd x), m', rx')"
      "received m1 ?sh vss m' (r_shards rx') vss' dl" "waiting_in m' = waiting_in m1" "r_batch rx' = r_batch rx" "r_staging rx' = tl (map snd dl)"
      using mp_recv_loop_spec [where rx = ?rx and n = "length ?sh" and K = K, unfolded sel, OF inv1 refl b disjI1 [OF False]]
      by (elim exE conjE) (rule that)
    have "mp_try_recv K S m rx = Some (case dl of [] \<Rightarrow> None | x # _ \<Rightarrow> Some (snd x), m', rx')" using go l(1) unfolding if_not_P [OF False] by (rule trans)
    then show ?thesis using received_trans [OF f(3) l(2) inv] l(4,5) Nil
      by - (rule exI [of _ m'], rule exI [of _ rx'], rule exI [of _ vss'], rule exI [of _ dl], cases dl, simp_all)
  qed
qed

lemma mp_try_recv_none:
  assumes inv: "rings_rep m vss" "minv m (r_shards rx)" and b: "r_batch rx \<noteq> 0" and none: "mp_try_recv K S m rx = Some (None, m', rx')"
    and pol: "if removes then \<forall>j\<in>set (r_shards rx) \<union> waiting_in m. orphan m j
       else unat (r_cursor rx) + card (set (r_shards rx) \<union> waiting_in m) < 2 ^ 64"
  shows "\<forall>j\<in>set (r_shards rx) \<union> waiting_in m. vss ! j = []"
proof -
  have st: "r_staging rx = []" using none by (cases "r_staging rx") (auto simp: mp_try_recv_def staging_pop_def)
  obtain m1 new where f: "refresh_membership S m rx = Some (m1, rx\<lparr>r_shards := r_shards rx @ new\<rparr>)" "set new = waiting_in m"
    "received m (r_shards rx) vss m1 (r_shards rx @ new) vss []" "\<forall>k<length vss. halves_of m1 k = halves_of m k" using refresh_spec [OF inv] by blast
  let ?rx = "rx\<lparr>r_shards := r_shards rx @ new\<rparr>" and ?sh = "r_shards rx @ new"
  have inv1: "rings_rep m1 vss" "minv m1 (r_shards ?rx)" using f(3) by (auto simp: received_def)
  have J: "set (r_shards rx) \<union> waiting_in m = set ?sh" using f(2) by simp
  note l = ok [OF inv1(2)]
  have go: "mp_recv_loop K S (length ?sh) m1 ?rx = Some (None, m', rx')" if "?sh \<noteq> []"
    using none st f(1) that by (simp add: mp_try_recv_def staging_pop_def split: if_splits)
  have rx: "r_staging ?rx = []" "r_batch ?rx \<noteq> 0" using st b by simp_all
  have "vss ! j = []" if j: "j \<in> set ?sh" for j
  proof (cases removes)
    case True
    have "\<forall>j\<in>set ?sh. orphan m1 j"
    proof
      fix k assume k: "k \<in> set ?sh"
      then have "k < length vss" using l inv1(1) by (auto simp: rings_rep_def)
      then show "orphan m1 k" using f(4) pol True k halves_of_orphan unfolding J by (metis (full_types))
    qed
    then show ?thesis using mp_recv_loop_none_removed [OF inv1 rx _ True _ _ go] j by fastforce
  next
    case False
    obtain i where i: "i < length ?sh" "j = ?sh ! i" using j by (metis in_set_conv_nth)
    obtain k where k: "k < length ?sh" "(unat (r_cursor rx) + k) mod length ?sh = i" using window_covers [OF i(1)] by blast
    have "card (set ?sh) = length ?sh" using l distinct_card [of ?sh] by simp
    then have "unat (r_cursor rx) + length ?sh < 2 ^ 64" using pol False unfolding J by simp
    then show ?thesis using mp_recv_loop_none_kept [OF inv1 rx _ False _ go, of k] k i by fastforce
  qed
  then show ?thesis unfolding J by blast
qed

end

context membership
begin

text \<open>The shard at the cursor, in the loops that go on after a productive shard.\<close>

definition next_round :: "('a, 'n, 'sp, 'st) Mpsc \<Rightarrow> 'a MReceiver \<Rightarrow> nat \<Rightarrow> nat \<Rightarrow> (('a, 'n, 'sp, 'st) Mpsc \<times> 'a MReceiver) option" where
  "next_round m rx i n = (if n = 0 then pass_over S m rx i else Some (m, advance rx))"

lemma gather_round:
  assumes inv: "rings_rep m vss" "minv m (r_shards rx)" and ne: "r_shards rx \<noteq> []" "mx \<noteq> 0"
  shows "\<exists>okk s' m1 m' rx' vss1 dl. drain_shard K m rx mx f s = Some (at_cursor rx, if okk then Return (length dl) else Unwind, m1, s')
     \<and> feed f (map snd dl) s = (length dl, okk, s') \<and> length dl \<le> unat mx
     \<and> received m (r_shards rx) vss m1 (r_shards rx) vss1 dl
     \<and> next_round m1 rx (at_cursor rx) (length dl) = Some (m', rx')
     \<and> received m (r_shards rx) vss m' (r_shards rx') vss1 dl \<and> r_batch rx' = r_batch rx \<and> r_staging rx' = r_staging rx"
proof -
  obtain okk s' m1 vss1 dl where d: "drain_shard K m rx mx f s = Some (at_cursor rx, if okk then Return (length dl) else Unwind, m1, s')"
     "feed f (map snd dl) s = (length dl, okk, s')" "received m (r_shards rx) vss m1 (r_shards rx) vss1 dl"
     "length dl \<le> unat mx" "dl = [] \<longleftrightarrow> vss ! (r_shards rx ! at_cursor rx) = []" "dl = [] \<longrightarrow> vss1 = vss"
    using drain_shard_spec [OF inv ne, where K = K and f = f and s = s] by (elim exE conjE) (rule that)
  have inv1: "rings_rep m1 vss1" "minv m1 (r_shards rx)" using d(3) by (auto simp: received_def)
  have i: "at_cursor rx < length (r_shards rx)" using ok [OF inv(2)] ne(1) at_cursor_less by blast
  have "\<exists>m' rx'. next_round m1 rx (at_cursor rx) (length dl) = Some (m', rx') \<and> received m1 (r_shards rx) vss1 m' (r_shards rx') vss1 []
    \<and> r_batch rx' = r_batch rx \<and> r_staging rx' = r_staging rx"
  proof (cases "dl = []")
    case True
    then show ?thesis using pass_over_spec [OF inv1 i] d(5,6) unfolding next_round_def by auto
  next
    case False
    then show ?thesis using received_refl [OF inv1] by (simp add: next_round_def advance_def)
  qed
  then obtain m' rx' where n: "next_round m1 rx (at_cursor rx) (length dl) = Some (m', rx')" "received m1 (r_shards rx) vss1 m' (r_shards rx') vss1 []"
    "r_batch rx' = r_batch rx" "r_staging rx' = r_staging rx" by blast
  have "received m (r_shards rx) vss m' (r_shards rx') vss1 dl" using received_trans [OF d(3) n(2) inv] by simp
  then show ?thesis using d(1-4) n
    by - (rule exI [of _ okk], rule exI [of _ s'], rule exI [of _ m1], rule exI [of _ m'], rule exI [of _ rx'], rule exI [of _ vss1], rule exI [of _ dl], simp)
qed

lemma mp_many_loop_spec:
  assumes "rings_rep m vss" "minv m (r_shards rx)" "pushed \<le> mx" "mx < 2 ^ 64"
  shows "\<exists>m' rx' vss' dl. mp_many_loop K S n mx pushed m rx out = Some (pushed + length dl, m', rx', out @ map snd dl)
     \<and> received m (r_shards rx) vss m' (r_shards rx') vss' dl \<and> pushed + length dl \<le> mx \<and> r_batch rx' = r_batch rx \<and> r_staging rx' = r_staging rx"
  using assms
proof (induction n arbitrary: m rx vss pushed out)
  case 0
  then show ?case using received_refl [OF 0(1,2)] by auto
next
  case (Suc n)
  show ?case
  proof (cases "pushed < mx \<and> r_shards rx \<noteq> []")
    case True
    have mx: "unat (of_nat (mx - pushed) :: usize) = mx - pushed" using Suc.prems(4) by (intro unat_of_nat_usize) simp
    then have nz: "(of_nat (mx - pushed) :: usize) \<noteq> 0" using True by (metis unat_0 diff_is_0_eq not_le)
    obtain okk s' m1 m2 rx2 vss2 dl where d: "drain_shard K m rx (of_nat (mx - pushed)) collect out = Some (at_cursor rx, if okk then Return (length dl) else Unwind, m1, s')"
      "feed collect (map snd dl) out = (length dl, okk, s')" "length dl \<le> mx - pushed"
      "next_round m1 rx (at_cursor rx) (length dl) = Some (m2, rx2)"
      "received m (r_shards rx) vss m2 (r_shards rx2) vss2 dl" "r_batch rx2 = r_batch rx" "r_staging rx2 = r_staging rx"
      using gather_round [OF Suc.prems(1,2) conjunct2 [OF True] nz, where K = K and f = collect and s = out, unfolded mx] by (elim exE conjE) (rule that)
    have s': "okk" "s' = out @ map snd dl" using d(2) by auto
    have inv2: "rings_rep m2 vss2" "minv m2 (r_shards rx2)" "pushed + length dl \<le> mx" using d(3,5) True by (auto simp: received_def)
    obtain m' rx' vss' dl' where IH: "mp_many_loop K S n mx (pushed + length dl) m2 rx2 (out @ map snd dl) = Some (pushed + length dl + length dl', m', rx', (out @ map snd dl) @ map snd dl')"
      "received m2 (r_shards rx2) vss2 m' (r_shards rx') vss' dl'" "pushed + length dl + length dl' \<le> mx" "r_batch rx' = r_batch rx2" "r_staging rx' = r_staging rx2"
      using Suc.IH [OF inv2 Suc.prems(4), of "out @ map snd dl"] by (elim exE conjE) (rule that)
    have "mp_many_loop K S (Suc n) mx pushed m rx out = Some (pushed + length (dl @ dl'), m', rx', out @ map snd (dl @ dl'))"
      using d(1,4) s' True IH(1) by (simp add: next_round_def)
    then show ?thesis using received_trans [OF d(5) IH(2) Suc.prems(1,2)] IH(3-5) d(6,7)
      by - (rule exI [of _ m'], rule exI [of _ rx'], rule exI [of _ vss'], rule exI [of _ "dl @ dl'"], simp)
  next
    case False
    then have "mp_many_loop K S (Suc n) mx pushed m rx out = Some (pushed, m, rx, out)" by auto
    then show ?thesis using received_refl [OF Suc.prems(1,2)] Suc.prems(3)
      by - (rule exI [of _ m], rule exI [of _ rx], rule exI [of _ vss], rule exI [of _ "[]"], simp)
  qed
qed

text \<open>
  \<open>drain_once\<close> hands the values to user code one by one; when user code unwinds, the values it was not called with are
  still in their rings.
\<close>

lemma mp_drain_loop_spec:
  assumes "rings_rep m vss" "minv m (r_shards rx)" "r_batch rx \<noteq> 0"
  shows "\<exists>okk m' rx' vss' dl s'. mp_drain_loop K S n tot m rx f s = Some (if okk then Return (tot + length dl) else Unwind, m', rx', s')
     \<and> feed f (map snd dl) s = (length dl, okk, s')
     \<and> received m (r_shards rx) vss m' (r_shards rx') vss' dl \<and> r_batch rx' = r_batch rx \<and> r_staging rx' = r_staging rx"
  using assms
proof (induction n arbitrary: m rx vss tot s)
  case 0
  then show ?case using received_refl [OF 0(1,2)]
    by - (rule exI [of _ True], rule exI [of _ m], rule exI [of _ rx], rule exI [of _ vss], rule exI [of _ "[]"], rule exI [of _ s], simp)
next
  case (Suc n)
  show ?case
  proof (cases "r_shards rx = []")
    case False
    obtain okk s' m1 m2 rx2 vss2 dl where d: "drain_shard K m rx (r_batch rx) f s = Some (at_cursor rx, if okk then Return (length dl) else Unwind, m1, s')"
      "feed f (map snd dl) s = (length dl, okk, s')" "received m (r_shards rx) vss m1 (r_shards rx) vss2 dl"
      "next_round m1 rx (at_cursor rx) (length dl) = Some (m2, rx2)"
      "received m (r_shards rx) vss m2 (r_shards rx2) vss2 dl" "r_batch rx2 = r_batch rx" "r_staging rx2 = r_staging rx"
      using gather_round [OF Suc.prems(1,2) False Suc.prems(3), where K = K and f = f and s = s] by (elim exE conjE) (rule that)
    show ?thesis
    proof (cases okk)
      case True
      have inv2: "rings_rep m2 vss2" "minv m2 (r_shards rx2)" "r_batch rx2 \<noteq> 0" using d(5,6) Suc.prems(3) by (auto simp: received_def)
      obtain okk' m' rx' vss' dl' s2 where IH: "mp_drain_loop K S n (tot + length dl) m2 rx2 f s' = Some (if okk' then Return (tot + length dl + length dl') else Unwind, m', rx', s2)"
        "feed f (map snd dl') s' = (length dl', okk', s2)" "received m2 (r_shards rx2) vss2 m' (r_shards rx') vss' dl'" "r_batch rx' = r_batch rx2" "r_staging rx' = r_staging rx2"
        using Suc.IH [OF inv2, of "tot + length dl" s'] by (elim exE conjE) (rule that)
      have "mp_drain_loop K S (Suc n) tot m rx f s = Some (if okk' then Return (tot + length (dl @ dl')) else Unwind, m', rx', s2)"
        using d(1,4) True False IH(1) by (cases "dl = []") (simp_all add: next_round_def add.assoc)
      moreover have "feed f (map snd (dl @ dl')) s = (length (dl @ dl'), okk', s2)" using feed_append [OF d(2), of "map snd dl'"] True IH(2) by simp
      ultimately show ?thesis using received_trans [OF d(5) IH(3) Suc.prems(1,2)] IH(4,5) d(6,7)
        by - (rule exI [of _ okk'], rule exI [of _ m'], rule exI [of _ rx'], rule exI [of _ vss'], rule exI [of _ "dl @ dl'"], rule exI [of _ s2], simp)
    next
      case okf: False
      then show ?thesis using d(1-3) False
        by - (rule exI [of _ okk], rule exI [of _ m1], rule exI [of _ rx], rule exI [of _ vss2], rule exI [of _ dl], rule exI [of _ s'], simp)
    qed
  next
    case True
    then show ?thesis using received_refl [OF Suc.prems(1,2)]
      by - (rule exI [of _ True], rule exI [of _ m], rule exI [of _ rx], rule exI [of _ vss], rule exI [of _ "[]"], rule exI [of _ s], simp)
  qed
qed

lemma mp_try_recv_many_spec:
  assumes inv: "rings_rep m vss" "minv m (r_shards rx)"
  shows "\<exists>m' rx' vss' dl got. mp_try_recv_many K S m rx out mx = Some (length got, m', rx', out @ got)
     \<and> received m (r_shards rx) vss m' (r_shards rx') vss' dl \<and> r_batch rx' = r_batch rx \<and> got @ r_staging rx' = r_staging rx @ map snd dl \<and> length got \<le> unat mx"
proof -
  let ?st = "take (unat mx) (r_staging rx)" and ?rx = "rx\<lparr>r_staging := drop (unat mx) (r_staging rx)\<rparr>"
  show ?thesis
  proof (cases "mx = 0 \<or> length ?st = unat mx")
    case True
    then have "mp_try_recv_many K S m rx out mx = Some (length ?st, m, ?rx, out @ ?st)" by (auto simp: mp_try_recv_many_def)
    then show ?thesis using received_refl [OF inv]
      by - (rule exI [of _ m], rule exI [of _ ?rx], rule exI [of _ vss], rule exI [of _ "[]"], rule exI [of _ ?st], simp)
  next
    case False
    have st: "?st = r_staging rx" "r_staging ?rx = []" "length ?st \<le> unat mx" using False by (auto simp: min_def split: if_splits)
    have inv': "minv m (r_shards ?rx)" using inv(2) by simp
    obtain m1 new where f: "refresh_membership S m ?rx = Some (m1, ?rx\<lparr>r_shards := r_shards rx @ new\<rparr>)"
      "received m (r_shards rx) vss m1 (r_shards rx @ new) vss []" using refresh_spec [OF inv(1) inv'] by auto
    let ?rx1 = "?rx\<lparr>r_shards := r_shards rx @ new\<rparr>"
    have sel: "r_shards ?rx1 = r_shards rx @ new" "r_batch ?rx1 = r_batch rx" "r_staging ?rx1 = []" using st(2) by simp_all
    have mxl: "unat mx < 2 ^ 64" using unsigned_less [where ?'a = nat, of mx] by simp
    have inv1: "rings_rep m1 vss" "minv m1 (r_shards rx @ new)" using f(2) by (auto simp: received_def)
    obtain m' rx' vss' dl where l: "mp_many_loop K S (length (r_shards rx @ new)) (unat mx) (length ?st) m1 ?rx1 (out @ ?st)
        = Some (length ?st + length dl, m', rx', (out @ ?st) @ map snd dl)"
      "received m1 (r_shards rx @ new) vss m' (r_shards rx') vss' dl" "length ?st + length dl \<le> unat mx" "r_batch rx' = r_batch rx" "r_staging rx' = []"
      using mp_many_loop_spec [where rx = ?rx1 and K = K and n = "length (r_shards rx @ new)" and out = "out @ ?st", unfolded sel, OF inv1 st(3) mxl]
      by (elim exE conjE) (rule that)
    have "mp_try_recv_many K S m rx out mx = Some (length (r_staging rx @ map snd dl), m', rx', out @ (r_staging rx @ map snd dl))"
      using False f(1) l(1) st(1) by (simp add: mp_try_recv_many_def Let_def)
    then show ?thesis using received_trans [OF f(2) l(2) inv] l(3-5) st(1)
      by - (rule exI [of _ m'], rule exI [of _ rx'], rule exI [of _ vss'], rule exI [of _ dl], rule exI [of _ "r_staging rx @ map snd dl"], simp)
  qed
qed

end

end
