(* ===== verification/Mpsc_Tiers.thy ===== *)
theory Mpsc_Tiers
  imports Mpsc_Fifo
begin

text \<open>
  The membership policies of the three MPSC tiers keep the contract of the receiver, and their ways of handing out a
  producer (none after opening, claiming a pool slot, registering) keep the contract \<open>tier\<close>.
\<close>

unbundle bit_operations_syntax

section \<open>Handing out producers\<close>

text \<open>
  \<open>claim\<close> may add one ring. A producer it hands out owns a fresh sending half of an empty ring which no other producer owns:
  the ring was free, or it was no shard.
\<close>

locale tier = membership S minv waiting_in free_in removes
  for S :: "('a, 'n, 'sp, 'st) ShardState" and minv waiting_in free_in removes +
  fixes claim :: "('a, 'n, 'sp, 'st) Mpsc \<Rightarrow> (nat option \<times> ('a, 'n, 'sp, 'st) Mpsc) option"
  assumes claim: "rings_rep m vss \<Longrightarrow> minv m shards \<Longrightarrow> Suc (length vss) < 2 ^ 64 \<Longrightarrow>
    \<exists>t m' n. claim m = Some (t, m') \<and> n \<le> 1 \<and> rings_rep m' (vss @ replicate n []) \<and> minv m' shards
      \<and> set shards \<union> waiting_in m' = set shards \<union> waiting_in m \<union> set_option t \<and> free_in m' = free_in m - set_option t
      \<and> m_live m' = m_live m + (if t = None then 0 else 1)
      \<and> (\<forall>p\<in>set_option t. (p \<in> free_in m \<or> p \<notin> set shards \<union> waiting_in m) \<and> (p < length vss \<longrightarrow> vss ! p = []) \<and> halves_of m' p = (False, False, 2))
      \<and> (\<forall>k\<in>set shards \<union> waiting_in m - set_option t. halves_of m' k = halves_of m k)"
begin

end

section \<open>Fixed producers\<close>

definition shards_in :: "('a, 'n, 'sp, 'st) Mpsc \<Rightarrow> nat list \<Rightarrow> bool" where
  "shards_in m shards \<longleftrightarrow> length shards < 2 ^ 64 \<and> distinct shards \<and> set shards \<subseteq> {..<length (m_rings m)}"

lemma shards_in_swap_remove: "shards_in m shards \<Longrightarrow> i < length shards \<Longrightarrow> shards_in m (swap_remove i shards)"
  using swap_remove_props [of i shards] by (auto simp: shards_in_def)

lemma ring_rep_release: "ring_rep r [] \<Longrightarrow> drop_inner r = Some ([], r)"
  using ring_rep_empty_iff [of r "[]"] by (cases "length (buf r)") (simp_all add: drop_inner_def is_empty_def)

text \<open>Dropping a shard destroys the values in its ring and no others.\<close>

lemma drop_shard_spec:
  assumes "rings_rep m vss" "i < length vss"
  shows "\<exists>m'. drop_shard K m i = Some m' \<and> rings_rep m' (vss[i := []]) \<and> m_destroyed m' = m_destroyed m @ vss ! i
     \<and> outside m' = outside m \<and> m_state m' = m_state m
     \<and> (\<forall>k. k \<noteq> i \<longrightarrow> m_rings m' ! k = m_rings m ! k)"
proof -
  have "ring_rep (close (m_rings m ! i)) (vss ! i)" using rings_rep_nth [OF assms] by (simp add: close_def)
  then obtain r where r: "drop_receiver (close (m_rings m ! i)) = Some (vss ! i, r)" "ring_rep r []"
    using ring_rep_drop_receiver by blast
  show ?thesis using assms r ring_of_rep [OF assms] ring_rep_release [OF r(2)]
    by (auto simp: drop_shard_def release_ring_def Let_def rings_rep_def set_ring_def set_space_def nth_list_update)
qed

lemma drop_empty_shard:
  assumes "rings_rep m vss" "i < length vss" "vss ! i = []"
  shows "\<exists>m'. drop_shard K m i = Some m' \<and> rings_rep m' vss \<and> outside m' = outside m \<and> m_state m' = m_state m
     \<and> (\<forall>k. k \<noteq> i \<longrightarrow> m_rings m' ! k = m_rings m ! k)"
  using drop_shard_spec [OF assms(1,2), of K] assms(3) list_update_id [of vss i] by auto

interpretation fixed: tier "fixed_state K" shards_in "\<lambda>_. {}" "\<lambda>_. {}" True "\<lambda>m. Some (None, m)"
proof (unfold_locales, goal_cases)
  case (1 m shards m')
  then show ?case by (simp add: shards_in_def kept_def)
next
  case (4 m vss shards)
  then show ?case by (simp add: fixed_state_def)
next
  case (5 m vss shards i)
  have j: "shards ! i < length vss" using 5(1-3) nth_mem [OF 5(3)] by (auto simp: shards_in_def rings_rep_def simp del: nth_mem)
  obtain m' where d: "drop_shard K m (shards ! i) = Some m'" "rings_rep m' vss" "outside m' = outside m"
    "\<forall>k. k \<noteq> shards ! i \<longrightarrow> m_rings m' ! k = m_rings m ! k"
    using drop_empty_shard [OF 5(1) j 5(4), of K] by blast
  have "shards_in m' (swap_remove i shards)"
    using shards_in_swap_remove [OF 5(2,3)] d(2) 5(1) by (simp add: shards_in_def rings_rep_def)
  then show ?case using d 5(3) by (simp add: fixed_state_def halves_of_def)
next
  case (6 m vss shards)
  then show ?case by (intro exI [of _ None] exI [of _ m] exI [of _ 0]) simp
qed (auto simp: shards_in_def)

section \<open>The producer pool\<close>

lemma first_bit:
  assumes "b \<noteq> 0"
  shows "bit b (first_bit b)" "first_bit b < 64"
proof -
  have "\<exists>i<64. bit b i"
  proof (rule ccontr)
    assume "\<not> (\<exists>i<64. bit b i)"
    then have "b = 0" by (intro bit_word_eqI) simp
    then show False using assms by simp
  qed
  then have e: "\<exists>i\<in>set [0..<64]. \<not> \<not> bit b i" by auto
  have l: "length (takeWhile (\<lambda>i. \<not> bit b i) [0..<64]) < length [0..<64]"
  proof (rule ccontr)
    assume "\<not> ?thesis"
    then have "takeWhile (\<lambda>i. \<not> bit b i) [0..<64] = [0..<64]" by (metis takeWhile_eq_take take_all not_less)
    then show False using e by (metis takeWhile_eq_all_conv)
  qed
  then show "first_bit b < 64" by (simp add: first_bit_def)
  show "bit b (first_bit b)" using nth_length_takeWhile [OF l] l by (simp add: first_bit_def)
qed

definition pool_free_in :: "('a, 'n, 'sp, PoolSlots) Mpsc \<Rightarrow> nat set" where
  "pool_free_in m = {i. bit (pool_free (m_state m)) i}"

text \<open>A free bit has a sender in its slot, and a ring that is empty and whose halves are both there.\<close>

definition pool_inv :: "('a, 'n, 'sp, PoolSlots) Mpsc \<Rightarrow> nat list \<Rightarrow> bool" where
  "pool_inv m shards \<longleftrightarrow> shards = [0..<length (m_rings m)] \<and> length (m_rings m) \<le> 64 \<and> length (pool_slots (m_state m)) = length (m_rings m)
     \<and> (\<forall>i\<in>pool_free_in m. i < length (m_rings m) \<and> pool_slots (m_state m) ! i = Some i
          \<and> ring_rep (m_rings m ! i) [] \<and> halves_of m i = (False, False, 2))
     \<and> (\<forall>i<length (m_rings m). \<not> consumer_gone (m_rings m ! i))"

lemma pool_inv_kept:
  assumes "pool_inv m shards" "kept (set shards - pool_free_in m) m m'"
  shows "pool_inv m' shards" "pool_free_in m' = pool_free_in m"
  using assms by (auto simp: pool_inv_def kept_def pool_free_in_def)

lemma recycle_empty:
  assumes "ring_rep r []"
  shows "\<exists>r'. recycle r = (strong r = 1, r') \<and> (if strong r = 1
     then ring_rep r' [] \<and> \<not> producer_gone r' \<and> consumer_gone r' = consumer_gone r \<and> strong r' = 2 else r' = r)"
proof (cases "strong r = 1")
  case True
  obtain k H T HC TC where "ring_at k H T HC TC r []" using assms by (auto simp: ring_rep_def)
  then obtain r' where "recycle r = (True, r')" "ring_at k 0 0 0 0 r' []" "\<not> producer_gone r'" "consumer_gone r' = consumer_gone r" "strong r' = 2"
    using recycle_spec True by blast
  then show ?thesis using True by (auto intro: ring_repI)
qed (simp add: recycle_def)

text \<open>\<open>Shard::recycle\<close> of an empty ring: reset when the shard holds the last reference, untouched otherwise.\<close>

lemma shard_recycle_spec:
  assumes "rings_rep m vss" "i < length vss" "vss ! i = []"
  shows "\<exists>m'. shard_recycle K m i = Some (strong (m_rings m ! i) = 1, m') \<and> rings_rep m' vss
     \<and> outside m' = outside m \<and> m_state m' = m_state m \<and> (\<forall>k. k \<noteq> i \<longrightarrow> m_rings m' ! k = m_rings m ! k)
     \<and> (strong (m_rings m ! i) = 1 \<longrightarrow> halves_of m' i = (False, consumer_gone (m_rings m ! i), 2))
     \<and> (strong (m_rings m ! i) \<noteq> 1 \<longrightarrow> m' = m)"
proof -
  obtain r' where r: "recycle (m_rings m ! i) = (strong (m_rings m ! i) = 1, r')" "if strong (m_rings m ! i) = 1
     then ring_rep r' [] \<and> \<not> producer_gone r' \<and> consumer_gone r' = consumer_gone (m_rings m ! i) \<and> strong r' = 2 else r' = m_rings m ! i"
    using recycle_empty [of "m_rings m ! i"] rings_rep_nth [OF assms(1,2)] assms(3) by auto
  let ?m = "if strong (m_rings m ! i) = 1 then set_space i (k_clear_producer K (m_spaces m ! i)) (set_ring i r' m) else m"
  have "shard_recycle K m i = Some (strong (m_rings m ! i) = 1, ?m)"
    using ring_of_rep [OF assms(1,2)] r(1) by (simp add: shard_recycle_def)
  moreover have "rings_rep ?m vss" using assms r(2) by (auto simp: rings_rep_def set_ring_def set_space_def nth_list_update)
  moreover have "strong (m_rings m ! i) = 1 \<longrightarrow> halves_of ?m i = (False, consumer_gone (m_rings m ! i), 2)"
    using assms(1,2) r(2) by (simp add: halves_of_def rings_rep_def set_ring_def set_space_def)
  ultimately show ?thesis by (intro exI [of _ ?m]) (simp add: set_ring_def set_space_def)
qed

lemma pool_dispose:
  assumes inv: "rings_rep m vss" "pool_inv m shards" and i: "i < length shards" "vss ! (shards ! i) = []" "orphan m (shards ! i)"
  shows "\<exists>m'. ss_dispose (pool_state K) m shards i = Some (False, m', shards) \<and> rings_rep m' vss \<and> pool_inv m' shards \<and> outside m' = outside m
     \<and> pool_free_in m' \<subseteq> insert (shards ! i) (pool_free_in m) \<and> (\<forall>k<length vss. k \<noteq> shards ! i \<longrightarrow> halves_of m' k = halves_of m k)"
proof -
  have p: "shards = [0..<length (m_rings m)]" "length (m_rings m) \<le> 64" "length (pool_slots (m_state m)) = length (m_rings m)" "length vss = length (m_rings m)"
    using inv by (auto simp: pool_inv_def rings_rep_def)
  then have ii: "shards ! i = i" "i < length vss" "i < 64" using i(1) by auto
  note o = i(2,3) [unfolded ii(1)]
  obtain m1 where r: "shard_recycle K m i = Some (strong (m_rings m ! i) = 1, m1)" "rings_rep m1 vss"
     "outside m1 = outside m" "m_state m1 = m_state m" "\<forall>k. k \<noteq> i \<longrightarrow> m_rings m1 ! k = m_rings m ! k"
     "strong (m_rings m ! i) = 1 \<longrightarrow> halves_of m1 i = (False, consumer_gone (m_rings m ! i), 2)" "strong (m_rings m ! i) \<noteq> 1 \<longrightarrow> m1 = m"
    using shard_recycle_spec [OF inv(1) ii(2) o(1), of K] by (elim exE conjE) (rule that)
  show ?thesis
  proof (cases "strong (m_rings m ! i) = 1")
    case True
    let ?s = "m_state m\<lparr>pool_slots := (pool_slots (m_state m))[i := Some i], pool_free := pool_free (m_state m) OR push_bit i 1\<rparr>"
    let ?m = "m1\<lparr>m_state := ?s\<rparr>"
    have free: "pool_free_in ?m = insert i (pool_free_in m)" using ii(3) by (auto simp: pool_free_in_def bit_or_iff bit_exp_iff)
    have len: "length (m_rings m1) = length vss" using r(2) by (simp add: rings_rep_def)
    have e: "ring_rep (m_rings m1 ! i) []" using rings_rep_nth [OF r(2) ii(2)] o(1) by simp
    have cg: "\<not> consumer_gone (m_rings m ! i)" using inv(2) ii(2) p(4) by (simp add: pool_inv_def)
    have h: "halves_of ?m k = (if k = i then (False, False, 2) else halves_of m k)" for k using r(5,6) True cg by (simp add: halves_of_def)
    have cg1: "\<not> consumer_gone (m_rings m1 ! k)" if "k < length (m_rings m)" for k
      using that h [of k] cg r(5) inv(2) by (cases "k = i") (auto simp: pool_inv_def halves_of_def)
    have "pool_inv ?m shards"
      unfolding pool_inv_def free using inv(2) p len e r(5) cg1 h ii by (auto simp: pool_inv_def nth_list_update)
    moreover have "ss_dispose (pool_state K) m shards i = Some (False, ?m, shards)"
      using r(1,4) True i(1) p ii by (simp add: pool_state_def recycle_slot_def)
    moreover have "rings_rep ?m vss" using r(2) by (simp add: rings_rep_def)
    ultimately show ?thesis using r(3) free h ii(1) by auto
  next
    case False
    then show ?thesis using r inv i(1) ii by (auto simp: pool_state_def)
  qed
qed

lemma pool_claim_spec:
  assumes inv: "rings_rep m vss" "pool_inv m shards"
  shows "\<exists>t m'. pool_handle_claim m = Some (t, m') \<and> rings_rep m' vss \<and> pool_inv m' shards \<and> set_option t \<subseteq> pool_free_in m
     \<and> pool_free_in m' = pool_free_in m - set_option t \<and> m_live m' = m_live m + (if t = None then 0 else 1) \<and> m_rings m' = m_rings m"
proof (cases "pool_free (m_state m) = 0")
  case True
  then show ?thesis using inv by (auto simp: pool_handle_claim_def pool_claim_def Let_def)
next
  case False
  let ?b = "first_bit (pool_free (m_state m))"
  let ?s = "m_state m\<lparr>pool_free := pool_free (m_state m) AND NOT (push_bit ?b 1), pool_slots := (pool_slots (m_state m))[?b := None]\<rparr>"
  let ?m = "shared_inc (m\<lparr>m_state := ?s\<rparr>)"
  note fb = first_bit [OF False]
  have b: "?b \<in> pool_free_in m" using fb by (simp add: pool_free_in_def)
  then have slot: "?b < length (pool_slots (m_state m))" "pool_slots (m_state m) ! ?b = Some ?b" using inv(2) by (auto simp: pool_inv_def)
  have "pool_claim (m_state m) = Some (Some ?b, ?s)" using False slot by (simp add: pool_claim_def Let_def)
  then have c: "pool_handle_claim m = Some (Some ?b, ?m)" by (simp add: pool_handle_claim_def)
  have free: "pool_free_in ?m = pool_free_in m - {?b}"
    using fb(2) by (auto simp: pool_free_in_def shared_inc_def bit_and_iff bit_not_iff bit_exp_iff dest: bit_imp_le_length)
  have "pool_inv ?m shards" unfolding pool_inv_def free using inv(2) by (auto simp: pool_inv_def shared_inc_def halves_of_def)
  moreover have "rings_rep ?m vss" using inv(1) by (simp add: rings_rep_def shared_inc_def)
  ultimately show ?thesis using c free b by (auto simp: shared_inc_def)
qed

interpretation pool: tier "pool_state K" pool_inv "\<lambda>_. {}" pool_free_in False pool_handle_claim
proof (unfold_locales, goal_cases)
  case (1 m shards m')
  then show ?case using pool_inv_kept [of m shards m'] by simp
next
  case (4 m vss shards)
  then show ?case by (simp add: pool_state_def)
next
  case (5 m vss shards i)
  then show ?case using pool_dispose [OF 5, of K] by simp
next
  case (6 m vss shards)
  obtain t m' where c: "pool_handle_claim m = Some (t, m')" "rings_rep m' vss" "pool_inv m' shards" "set_option t \<subseteq> pool_free_in m"
     "pool_free_in m' = pool_free_in m - set_option t" "m_live m' = m_live m + (if t = None then 0 else 1)" "m_rings m' = m_rings m"
    using pool_claim_spec [OF 6(1,2)] by (elim exE conjE) (rule that)
  have f: "i \<in> pool_free_in m \<Longrightarrow> i < length vss \<and> vss ! i = [] \<and> halves_of m i = (False, False, 2)" for i
    using 6(1,2) ring_rep_unique by (fastforce simp: pool_inv_def rings_rep_def)
  have sub: "pool_free_in m \<subseteq> set shards" using 6(2) by (auto simp: pool_inv_def)
  have "halves_of m' k = halves_of m k" for k using c(7) by (simp add: halves_of_def)
  then show ?case using c f sub
    by - (rule exI [of _ t], rule exI [of _ m'], rule exI [of _ 0], auto)
qed (auto simp: pool_inv_def)

section \<open>Dynamic registration\<close>

text \<open>The nodes of a chain through the link fields, and the walk along it.\<close>

primrec linked :: "'a Ring list \<Rightarrow> nat option \<Rightarrow> nat list \<Rightarrow> bool" where
  "linked rs node [] \<longleftrightarrow> node = None"
| "linked rs node (i # is) \<longleftrightarrow> node = Some i \<and> linked rs (inbox_next (rs ! i)) is"

fun walk :: "nat \<Rightarrow> 'a Ring list \<Rightarrow> nat option \<Rightarrow> nat list" where
  "walk (Suc n) rs (Some i) = i # walk n rs (inbox_next (rs ! i))"
| "walk _ _ _ = []"

lemma walk_linked: "linked rs node is \<Longrightarrow> length is \<le> n \<Longrightarrow> walk n rs node = is"
proof (induction "is" arbitrary: node n)
  case (Cons i "is")
  then show ?case by (cases n) auto
qed simp

lemma linked_cong: "linked rs node is \<Longrightarrow> \<forall>i\<in>set is. inbox_next (rs' ! i) = inbox_next (rs ! i) \<Longrightarrow> linked rs' node is"
  by (induction "is" arbitrary: node) auto

lemma length_below: "distinct xs \<Longrightarrow> set xs \<subseteq> {..<n} \<Longrightarrow> length xs \<le> n"
  using card_mono [of "{..<n}" "set xs"] distinct_card [of xs] by simp

definition inbox_list :: "('a, 'n, 'sp) Dynamic \<Rightarrow> nat list" where
  "inbox_list m = (case fst (m_state m) of LockedInbox gen seen queue \<Rightarrow> queue | LockFreeInbox node \<Rightarrow> walk (length (m_rings m)) (m_rings m) node)"

definition parked_in :: "('a, 'n, 'sp) Dynamic \<Rightarrow> nat list" where
  "parked_in m = (case snd (m_state m) of DropRings \<Rightarrow> [] | PooledRings bound parked \<Rightarrow> parked)"

text \<open>The generation counts the deposits the receiver has not seen; the stack is a chain.\<close>

definition inbox_ok :: "('a, 'n, 'sp) Dynamic \<Rightarrow> bool" where
  "inbox_ok m \<longleftrightarrow> (case fst (m_state m) of LockedInbox gen seen queue \<Rightarrow> gen = seen + of_nat (length queue)
     | LockFreeInbox node \<Rightarrow> linked (m_rings m) node (inbox_list m))"

text \<open>A shard is with the receiver, in the inbox or parked, and in one of them only; parked rings are empty.\<close>

definition dynamic_inv :: "('a, 'n, 'sp) Dynamic \<Rightarrow> nat list \<Rightarrow> bool" where
  "dynamic_inv m shards \<longleftrightarrow> length (m_rings m) < 2 ^ 64 \<and> inbox_ok m \<and> distinct (shards @ inbox_list m @ parked_in m)
     \<and> (\<forall>k\<in>set (shards @ inbox_list m @ parked_in m). k < length (m_rings m) \<and> \<not> consumer_gone (m_rings m ! k))
     \<and> (\<forall>k\<in>set (parked_in m). ring_rep (m_rings m ! k) [])"

definition dynamic_waiting :: "('a, 'n, 'sp) Dynamic \<Rightarrow> nat set" where
  "dynamic_waiting m = set (inbox_list m)"

lemma dynamic_inv_lengths:
  assumes "dynamic_inv m shards"
  shows "length shards < 2 ^ 64" "length (inbox_list m) \<le> length (m_rings m)" "length (inbox_list m) < 2 ^ 64"
proof -
  have d: "distinct shards" "distinct (inbox_list m)" "set shards \<subseteq> {..<length (m_rings m)}" "set (inbox_list m) \<subseteq> {..<length (m_rings m)}"
    "length (m_rings m) < 2 ^ 64" using assms by (auto simp: dynamic_inv_def)
  show "length (inbox_list m) \<le> length (m_rings m)" using length_below [OF d(2,4)] .
  then show "length shards < 2 ^ 64" "length (inbox_list m) < 2 ^ 64" using length_below [OF d(1,3)] d(5) by simp_all
qed

text \<open>The inbox only depends on its own state and on the links of the rings in it.\<close>

lemma inbox_kept:
  assumes "inbox_ok m" "length (inbox_list m) \<le> length (m_rings m')" "fst (m_state m') = fst (m_state m)"
    "\<forall>k\<in>set (inbox_list m). inbox_next (m_rings m' ! k) = inbox_next (m_rings m ! k)"
  shows "inbox_ok m'" "inbox_list m' = inbox_list m"
proof -
  have "inbox_ok m' \<and> inbox_list m' = inbox_list m"
  proof (cases "fst (m_state m)")
    case (LockedInbox gen seen queue)
    then show ?thesis using assms(1,3) by (simp add: inbox_ok_def inbox_list_def)
  next
    case (LockFreeInbox node)
    have "linked (m_rings m') node (inbox_list m)" using assms(1,4) LockFreeInbox linked_cong by (fastforce simp: inbox_ok_def)
    moreover from this have "inbox_list m' = inbox_list m" using walk_linked assms(2,3) LockFreeInbox by (fastforce simp: inbox_list_def [of m'])
    ultimately show ?thesis using assms(3) LockFreeInbox by (simp add: inbox_ok_def)
  qed
  then show "inbox_ok m'" "inbox_list m' = inbox_list m" by auto
qed

lemma ring_rep_tail_cache: "ring_rep r vs \<Longrightarrow> ring_rep (r\<lparr>tail_cache := head r\<rparr>) vs"
proof -
  assume "ring_rep r vs"
  then obtain k H T HC TC where "ring_at k H T HC TC r vs" by (rule ring_repE)
  then have "ring_at k H T HC H (r\<lparr>tail_cache := head r\<rparr>) vs" by (auto simp: ring_at_def)
  then show ?thesis by (rule ring_repI)
qed

lemma stack_drain_spec:
  assumes "linked (m_rings m) node is" "distinct is" "set is \<subseteq> {..<length vss}" "length is \<le> n" "rings_rep m vss"
  shows "\<exists>m'. stack_drain n node m = Some (is, m') \<and> rings_rep m' vss \<and> outside m' = outside m \<and> m_state m' = m_state m
     \<and> (\<forall>k. halves_of m' k = halves_of m k) \<and> (\<forall>k. k \<notin> set is \<longrightarrow> m_rings m' ! k = m_rings m ! k)"
  using assms
proof (induction "is" arbitrary: n node m)
  case (Cons i "is")
  obtain n' where n: "n = Suc n'" using Cons.prems(4) by (cases n) auto
  let ?r = "m_rings m ! i"
  let ?r' = "?r\<lparr>tail_cache := head ?r\<rparr>"
  let ?m = "set_ring i ?r' m"
  have i: "i < length vss" "node = Some i" using Cons.prems(1,3) by auto
  then have il: "i < length (m_rings m)" using Cons.prems(5) by (simp add: rings_rep_def)
  have nth: "m_rings ?m ! k = (if k = i then ?r' else m_rings m ! k)" for k using il by (simp add: set_ring_def)
  have "ring_rep ?r' (vss ! i)" by (rule ring_rep_tail_cache [OF rings_rep_nth [OF Cons.prems(5) i(1)]])
  then have rep: "rings_rep ?m vss" using Cons.prems(5) by (simp add: rings_rep_def nth) (simp add: set_ring_def)
  have "linked (m_rings ?m) (inbox_next ?r) is" using Cons.prems(1,2) by - (rule linked_cong [of "m_rings m"], auto simp: nth)
  then obtain m' where d: "stack_drain n' (inbox_next ?r) ?m = Some (is, m')" "rings_rep m' vss" "outside m' = outside ?m" "m_state m' = m_state ?m"
     "\<forall>k. halves_of m' k = halves_of ?m k" "\<forall>k. k \<notin> set is \<longrightarrow> m_rings m' ! k = m_rings ?m ! k"
    using Cons.IH [of ?m "inbox_next ?r" n'] rep Cons.prems(2-4) n by auto
  have "halves_of ?m k = halves_of m k" for k by (simp add: halves_of_def nth)
  moreover have "stack_drain n node m = Some (i # is, m')" using d(1) n i ring_of_rep [OF Cons.prems(5) i(1)] by simp
  moreover have "outside ?m = outside m" "m_state ?m = m_state m" by (simp_all add: set_ring_def)
  moreover have "\<forall>k. k \<notin> set (i # is) \<longrightarrow> m_rings m' ! k = m_rings m ! k" using d(6) nth by simp
  ultimately show ?case using d(2-5) by - (rule exI [of _ m'], simp)
qed auto

text \<open>An inbox dropped with rings in it destroys the values of exactly those rings, each once.\<close>

lemma stack_drop_spec:
  assumes "linked (m_rings m) node is" "distinct is" "set is \<subseteq> {..<length vss}" "length is \<le> n" "rings_rep m vss"
  shows "\<exists>m'. stack_drop n node m = Some m' \<and> m_destroyed m' = m_destroyed m @ concat (map ((!) vss) is)"
  using assms
proof (induction "is" arbitrary: n node m vss)
  case (Cons i "is")
  obtain n' where n: "n = Suc n'" using Cons.prems(4) by (cases n) auto
  let ?r = "m_rings m ! i"
  have i: "i < length vss" "node = Some i" using Cons.prems(1,3) by auto
  then have il: "i < length (m_rings m)" using Cons.prems(5) by (simp add: rings_rep_def)
  obtain r' where r: "drop_receiver (?r\<lparr>tail_cache := head ?r\<rparr>) = Some (vss ! i, r')" "ring_rep r' []"
    using ring_rep_drop_receiver [OF ring_rep_tail_cache [OF rings_rep_nth [OF Cons.prems(5) i(1)]]] by blast
  let ?m = "set_ring i r' (m\<lparr>m_destroyed := m_destroyed m @ vss ! i\<rparr>)"
  have rel: "release_ring i r' (m\<lparr>m_destroyed := m_destroyed m @ vss ! i\<rparr>) = Some ?m"
    using ring_rep_release [OF r(2)] by (simp add: release_ring_def)
  have nth: "m_rings ?m ! k = (if k = i then r' else m_rings m ! k)" for k using il by (simp add: set_ring_def)
  have rep: "rings_rep ?m (vss[i := []])" using Cons.prems(5) r(2) i(1) by (simp add: rings_rep_def nth nth_list_update) (simp add: set_ring_def)
  have "linked (m_rings ?m) (inbox_next ?r) is" using Cons.prems(1,2) by - (rule linked_cong [of "m_rings m"], auto simp: nth)
  then obtain m' where d: "stack_drop n' (inbox_next ?r) ?m = Some m'" "m_destroyed m' = m_destroyed ?m @ concat (map ((!) (vss[i := []])) is)"
    using Cons.IH [of ?m "inbox_next ?r" "vss[i := []]" n'] rep Cons.prems(2-4) n by auto
  have same: "map ((!) (vss[i := []])) is = map ((!) vss) is"
  proof (rule map_cong [OF refl])
    fix x assume "x \<in> set is"
    then have "i \<noteq> x" using Cons.prems(2) by auto
    then show "vss[i := []] ! x = vss ! x" by simp
  qed
  have "m_destroyed m' = m_destroyed m @ concat (map ((!) vss) (i # is))" using d(2) unfolding same by (simp add: set_ring_def)
  moreover have "stack_drop n node m = Some m'" using d(1) n i ring_of_rep [OF Cons.prems(5) i(1)] r(1) rel by simp
  ultimately show ?case by blast
qed auto

lemma dynamic_refresh:
  assumes inv: "rings_rep m vss" "dynamic_inv m shards"
  shows "\<exists>m'. inbox_drain_into m shards = Some (m', shards @ inbox_list m) \<and> rings_rep m' vss \<and> dynamic_inv m' (shards @ inbox_list m)
     \<and> inbox_list m' = [] \<and> outside m' = outside m \<and> (\<forall>k. halves_of m' k = halves_of m k)"
proof -
  note ln = dynamic_inv_lengths [OF inv(2)]
  obtain ib rc where st: "m_state m = (ib, rc)" by (cases "m_state m")
  have len: "length vss = length (m_rings m)" using inv(1) by (simp add: rings_rep_def)
  show ?thesis
  proof (cases ib)
    case (LockedInbox gen seen queue)
    have q: "inbox_list m = queue" "gen = seen + of_nat (length queue)" using inv(2) st LockedInbox by (auto simp: dynamic_inv_def inbox_ok_def inbox_list_def)
    have new: "gen = seen \<longleftrightarrow> queue = []"
    proof -
      have "unat (of_nat (length queue) :: usize) = length queue" using ln(3) q(1) by (intro unat_of_nat_usize) simp
      moreover have "(of_nat (length queue) :: usize) = 0 \<longleftrightarrow> unat (of_nat (length queue) :: usize) = 0" by (rule unsigned_eq_0_iff [symmetric])
      ultimately have "(of_nat (length queue) :: usize) = 0 \<longleftrightarrow> length queue = 0" by simp
      then show ?thesis using q(2) by auto
    qed
    let ?m = "m\<lparr>m_state := (LockedInbox gen gen [], rc)\<rparr>"
    have "dynamic_inv ?m (shards @ queue)" using inv(2) q(1) st by (auto simp: dynamic_inv_def inbox_ok_def inbox_list_def parked_in_def)
    moreover have "rings_rep ?m vss" using inv(1) by (simp add: rings_rep_def)
    ultimately show ?thesis using st LockedInbox q(1) new inv by (cases "gen = seen") (auto simp: inbox_drain_into_def inbox_list_def halves_of_def)
  next
    case (LockFreeInbox node)
    have l: "linked (m_rings m) node (inbox_list m)" "distinct (inbox_list m)" "set (inbox_list m) \<subseteq> {..<length vss}"
      using inv(2) st LockFreeInbox len by (auto simp: dynamic_inv_def inbox_ok_def)
    obtain m1 where d: "stack_drain (length (m_rings m)) node m = Some (inbox_list m, m1)" "rings_rep m1 vss" "outside m1 = outside m" "m_state m1 = m_state m"
      "\<forall>k. halves_of m1 k = halves_of m k" "\<forall>k. k \<notin> set (inbox_list m) \<longrightarrow> m_rings m1 ! k = m_rings m ! k"
      using stack_drain_spec [OF l ln(2) inv(1)] by blast
    let ?m = "m1\<lparr>m_state := (LockFreeInbox None, rc)\<rparr>"
    have cg: "consumer_gone (m_rings m1 ! k) = consumer_gone (m_rings m ! k)" for k using d(5) by (simp add: halves_of_def)
    have "length (m_rings m1) = length (m_rings m)" using d(2) len by (simp add: rings_rep_def)
    moreover have "\<forall>k\<in>set (parked_in m). ring_rep (m_rings m1 ! k) []" using inv(2) d(6) by (auto simp: dynamic_inv_def)
    ultimately have "dynamic_inv ?m (shards @ inbox_list m)"
      using inv(2) st cg by (auto simp: dynamic_inv_def inbox_ok_def inbox_list_def [of ?m] parked_in_def)
    moreover have "rings_rep ?m vss" using d(2) by (simp add: rings_rep_def)
    moreover have "inbox_drain_into m shards = Some (?m, shards @ inbox_list m)" using st LockFreeInbox d(1) by (simp add: inbox_drain_into_def)
    ultimately show ?thesis using d(3,5) by (auto simp: inbox_list_def [of ?m] halves_of_def)
  qed
qed

text \<open>Giving up a finished shard: parked while there is room, dropped otherwise.\<close>

lemma dynamic_dispose:
  assumes inv: "rings_rep m vss" "dynamic_inv m shards" and i: "i < length shards" "vss ! (shards ! i) = []"
  shows "\<exists>m'. ss_dispose (dynamic_state K) m shards i = Some (True, m', swap_remove i shards) \<and> rings_rep m' vss
     \<and> dynamic_inv m' (swap_remove i shards) \<and> outside m' = outside m \<and> inbox_list m' = inbox_list m
     \<and> (\<forall>k. k \<noteq> shards ! i \<longrightarrow> m_rings m' ! k = m_rings m ! k)"
proof -
  let ?j = "shards ! i" and ?sh = "swap_remove i shards"
  have d: "distinct shards" "?j \<in> set shards" "?j < length vss" "?j \<notin> set (inbox_list m)" "?j \<notin> set (parked_in m)" "inbox_ok m"
    using inv i(1) nth_mem [OF i(1)] by (auto simp: dynamic_inv_def rings_rep_def simp del: nth_mem)
  note sr = swap_remove_props [OF i(1) d(1)]
  have e: "ring_rep (m_rings m ! ?j) []" using rings_rep_nth [OF inv(1) d(3)] i(2) by simp
  obtain ib rc where st: "m_state m = (ib, rc)" by (cases "m_state m")
  have go: "ss_dispose (dynamic_state K) m shards i = Some (True, m', ?sh)" if "reclaim_put K ?j m = Some m'" for m'
    using that i(1) by (simp add: dynamic_state_def)
  show ?thesis
  proof (cases "\<exists>bound ps. rc = PooledRings bound ps \<and> length ps < unat bound")
    case True
    then obtain bound ps where rc: "rc = PooledRings bound ps" "length ps < unat bound" by blast
    let ?m = "m\<lparr>m_state := (ib, PooledRings bound (ps @ [?j]))\<rparr>"
    have "reclaim_put K ?j m = Some ?m" using st rc by (simp add: reclaim_put_def)
    moreover have ib: "inbox_ok ?m" "inbox_list ?m = inbox_list m" using d(6) st by (auto simp: inbox_ok_def inbox_list_def split: Inbox.split)
    moreover have "parked_in ?m = parked_in m @ [?j]" using st rc by (simp add: parked_in_def)
    then have "dynamic_inv ?m ?sh" using inv(2) ib sr d e by (auto simp: dynamic_inv_def)
    moreover have "rings_rep ?m vss" using inv(1) by (simp add: rings_rep_def)
    ultimately show ?thesis using go by (intro exI [of _ ?m]) simp
  next
    case False
    then have put: "reclaim_put K ?j m = drop_shard K m ?j" using st by (cases rc) (auto simp: reclaim_put_def)
    obtain m' where m': "drop_shard K m ?j = Some m'" "rings_rep m' vss" "outside m' = outside m" "m_state m' = m_state m"
      "\<forall>k. k \<noteq> ?j \<longrightarrow> m_rings m' ! k = m_rings m ! k" using drop_empty_shard [OF inv(1) d(3) i(2), of K] by blast
    have len: "length (m_rings m') = length (m_rings m)" using m'(2) inv(1) by (simp add: rings_rep_def)
    have "\<forall>k\<in>set (inbox_list m). inbox_next (m_rings m' ! k) = inbox_next (m_rings m ! k)" using m'(5) d(4) by metis
    note ib = inbox_kept [OF d(6) _ _ this, unfolded len m'(4), OF dynamic_inv_lengths(2) [OF inv(2)] refl]
    have pk: "parked_in m' = parked_in m" using m'(4) by (simp add: parked_in_def)
    have same: "m_rings m' ! k = m_rings m ! k" if "k \<in> set (?sh @ inbox_list m @ parked_in m)" for k
    proof -
      have "k \<noteq> ?j" using that sr(1) d(4,5) by auto
      then show ?thesis using m'(5) by blast
    qed
    have sub: "set (?sh @ inbox_list m @ parked_in m) \<subseteq> set (shards @ inbox_list m @ parked_in m)" using sr(1) by auto
    have "dynamic_inv m' ?sh"
      unfolding dynamic_inv_def ib pk len
    proof (intro conjI ballI)
      show "distinct (?sh @ inbox_list m @ parked_in m)" using inv(2) sr(1,2) by (auto simp: dynamic_inv_def)
    qed (use inv(2) ib same sub in \<open>auto simp: dynamic_inv_def\<close>)
    then show ?thesis using go put m' ib(2) by auto
  qed
qed

text \<open>\<open>take_reset\<close> resets the youngest parked ring that nobody shares and drops those that are shared.\<close>

lemma take_reset_loop_spec:
  assumes "rings_rep m vss" "distinct ps" "\<forall>k\<in>set ps. k < length vss \<and> vss ! k = [] \<and> \<not> consumer_gone (m_rings m ! k)"
  shows "\<exists>t left m'. take_reset_loop K ps m = Some (t, left, m') \<and> rings_rep m' vss \<and> outside m' = outside m \<and> m_state m' = m_state m
     \<and> distinct left \<and> set left \<subseteq> set ps \<and> (\<forall>k. k \<notin> set ps - set left \<longrightarrow> m_rings m' ! k = m_rings m ! k)
     \<and> (\<forall>i\<in>set_option t. i \<in> set ps - set left \<and> halves_of m' i = (False, False, 2))"
  using assms
proof (induction ps arbitrary: m)
  case Nil
  then show ?case by (intro exI [of _ None] exI [of _ "[]"] exI [of _ m]) simp
next
  case (Cons i ps)
  have i: "i < length vss" "vss ! i = []" "\<not> consumer_gone (m_rings m ! i)" using Cons.prems(3) by auto
  obtain m1 where r: "shard_recycle K m i = Some (strong (m_rings m ! i) = 1, m1)" "rings_rep m1 vss"
     "outside m1 = outside m" "m_state m1 = m_state m" "\<forall>k. k \<noteq> i \<longrightarrow> m_rings m1 ! k = m_rings m ! k"
     "strong (m_rings m ! i) = 1 \<longrightarrow> halves_of m1 i = (False, consumer_gone (m_rings m ! i), 2)" "strong (m_rings m ! i) \<noteq> 1 \<longrightarrow> m1 = m"
    using shard_recycle_spec [OF Cons.prems(1) i(1,2), of K] by (elim exE conjE) (rule that)
  show ?case
  proof (cases "strong (m_rings m ! i) = 1")
    case True
    have "take_reset_loop K (i # ps) m = Some (Some i, ps, m1)" using r(1) True by simp
    then show ?thesis using r True i(3) Cons.prems(2)
      by - (rule exI [of _ "Some i"], rule exI [of _ ps], rule exI [of _ m1], auto)
  next
    case False
    obtain m2 where d: "drop_shard K m1 i = Some m2" "rings_rep m2 vss" "outside m2 = outside m1" "m_state m2 = m_state m1"
      "\<forall>k. k \<noteq> i \<longrightarrow> m_rings m2 ! k = m_rings m1 ! k" using drop_empty_shard [OF r(2) i(1,2), of K] by blast
    have s2: "\<forall>k. k \<noteq> i \<longrightarrow> m_rings m2 ! k = m_rings m ! k" using d(5) r(5) by simp
    have "\<forall>k\<in>set ps. k < length vss \<and> vss ! k = [] \<and> \<not> consumer_gone (m_rings m2 ! k)" using Cons.prems(2,3) s2 by auto
    then obtain t left m' where IH: "take_reset_loop K ps m2 = Some (t, left, m')" "rings_rep m' vss" "outside m' = outside m2" "m_state m' = m_state m2"
      "distinct left" "set left \<subseteq> set ps" "\<forall>k. k \<notin> set ps - set left \<longrightarrow> m_rings m' ! k = m_rings m2 ! k"
      "\<forall>i\<in>set_option t. i \<in> set ps - set left \<and> halves_of m' i = (False, False, 2)"
      using Cons.IH [OF d(2)] Cons.prems(2) by auto
    have "take_reset_loop K (i # ps) m = Some (t, left, m')" using r(1) False d(1) IH(1) by simp
    moreover have "\<forall>k. k \<notin> set (i # ps) - set left \<longrightarrow> m_rings m' ! k = m_rings m ! k"
      using IH(6,7) s2 Cons.prems(2) by auto
    ultimately show ?thesis using IH d(3,4) r(3,4) Cons.prems(2)
      by - (rule exI [of _ t], rule exI [of _ left], rule exI [of _ m'], auto)
  qed
qed

lemma reclaim_take_spec:
  assumes inv: "rings_rep m vss" "dynamic_inv m shards"
  shows "\<exists>t m'. reclaim_take K m = Some (t, m') \<and> rings_rep m' vss \<and> dynamic_inv m' shards \<and> inbox_list m' = inbox_list m \<and> outside m' = outside m
     \<and> (\<forall>k\<in>set shards \<union> set (inbox_list m). m_rings m' ! k = m_rings m ! k)
     \<and> (\<forall>i\<in>set_option t. i < length vss \<and> vss ! i = [] \<and> halves_of m' i = (False, False, 2) \<and> i \<notin> set (shards @ inbox_list m' @ parked_in m'))"
proof -
  obtain ib rc where st: "m_state m = (ib, rc)" by (cases "m_state m")
  show ?thesis
  proof (cases rc)
    case DropRings
    then show ?thesis using st inv by (intro exI [of _ None] exI [of _ m]) (simp add: reclaim_take_def)
  next
    case (PooledRings bound ps)
    have pk: "parked_in m = ps" using st PooledRings by (simp add: parked_in_def)
    have len: "length vss = length (m_rings m)" using inv(1) by (simp add: rings_rep_def)
    have ps: "distinct (rev ps)" "\<forall>k\<in>set (rev ps). k < length vss \<and> vss ! k = [] \<and> \<not> consumer_gone (m_rings m ! k)"
    proof -
      show "distinct (rev ps)" using inv(2) by (simp add: dynamic_inv_def pk)
      have "k < length vss \<and> vss ! k = [] \<and> \<not> consumer_gone (m_rings m ! k)" if "k \<in> set ps" for k
      proof -
        have k: "k < length vss" "\<not> consumer_gone (m_rings m ! k)" "ring_rep (m_rings m ! k) []" using that inv(2) len by (simp_all add: dynamic_inv_def pk)
        then show ?thesis using ring_rep_unique [OF rings_rep_nth [OF inv(1) k(1)] k(3)] by simp
      qed
      then show "\<forall>k\<in>set (rev ps). k < length vss \<and> vss ! k = [] \<and> \<not> consumer_gone (m_rings m ! k)" by simp
    qed
    obtain t left m1 where l: "take_reset_loop K (rev ps) m = Some (t, left, m1)" "rings_rep m1 vss" "outside m1 = outside m" "m_state m1 = m_state m"
      "distinct left" "set left \<subseteq> set (rev ps)" "\<forall>k. k \<notin> set (rev ps) - set left \<longrightarrow> m_rings m1 ! k = m_rings m ! k"
      "\<forall>i\<in>set_option t. i \<in> set (rev ps) - set left \<and> halves_of m1 i = (False, False, 2)"
      using take_reset_loop_spec [OF inv(1) ps, of K] by (elim exE conjE) (rule that)
    let ?m = "m1\<lparr>m_state := (ib, PooledRings bound (rev left))\<rparr>"
    have same: "m_rings m1 ! k = m_rings m ! k" if "k \<in> set shards \<union> set (inbox_list m) \<union> set left" for k
    proof -
      have "k \<notin> set (rev ps) - set left" using that inv(2) pk by (auto simp: dynamic_inv_def)
      then show ?thesis using l(7) by blast
    qed
    have len: "length (m_rings ?m) = length (m_rings m)" using l(2) inv(1) by (simp add: rings_rep_def)
    have "\<forall>k\<in>set (inbox_list m). inbox_next (m_rings ?m ! k) = inbox_next (m_rings m ! k)" "inbox_ok m" using same inv(2) by (auto simp: dynamic_inv_def)
    note ib = inbox_kept [OF this(2) _ _ this(1), unfolded len, OF dynamic_inv_lengths(2) [OF inv(2)]]
    have ib: "inbox_ok ?m" "inbox_list ?m = inbox_list m" using ib st by simp_all
    have pk': "parked_in ?m = rev left" by (simp add: parked_in_def)
    have "dynamic_inv ?m shards" unfolding dynamic_inv_def ib(2) pk' len
      using inv(2) ib(1) same l(5,6) by (auto simp: dynamic_inv_def pk)
    moreover have "reclaim_take K m = Some (t, ?m)" using st PooledRings l(1) by (simp add: reclaim_take_def)
    moreover have "rings_rep ?m vss" using l(2) by (simp add: rings_rep_def)
    moreover have "i < length vss \<and> vss ! i = [] \<and> halves_of ?m i = (False, False, 2) \<and> i \<notin> set (shards @ inbox_list ?m @ parked_in ?m)" if "i \<in> set_option t" for i
    proof -
      have i: "i \<in> set ps" "i \<notin> set left" "halves_of m1 i = (False, False, 2)" using l(8) that by auto
      then have "i \<notin> set shards \<union> set (inbox_list m)" using inv(2) pk by (auto simp: dynamic_inv_def)
      then show ?thesis using i ps(2) unfolding ib(2) pk' by (auto simp: halves_of_def)
    qed
    moreover have "\<forall>k\<in>set shards \<union> set (inbox_list m). m_rings ?m ! k = m_rings m ! k" "outside ?m = outside m" using same l(3) by auto
    ultimately show ?thesis using ib(2) by blast
  qed
qed

lemma spawn_ring_spec:
  fixes m :: "('a, 'n, 'sp, 'st) Mpsc"
  assumes "rings_rep m vss" "unat capacity \<le> 2 ^ 63"
  shows "\<exists>m'. spawn_ring K capacity m = Some (length vss, m') \<and> rings_rep m' (vss @ [[]]) \<and> outside m' = outside m \<and> m_state m' = m_state m
     \<and> (\<forall>k<length vss. m_rings m' ! k = m_rings m ! k) \<and> halves_of m' (length vss) = (False, False, 2)"
proof -
  obtain r :: "'a Ring" where r: "ring capacity = Some r" using ring_defined [OF assms(2)] by blast
  have len: "length vss = length (m_rings m)" using assms(1) by (simp add: rings_rep_def)
  let ?m = "m\<lparr>m_rings := m_rings m @ [r], m_spaces := m_spaces m @ [k_space K]\<rparr>"
  have "rings_rep ?m (vss @ [[]])" using assms(1) ring_rep_new [OF r] len by (auto simp: rings_rep_def nth_append less_Suc_eq)
  then show ?thesis using r len ring_new(2-4) [OF r] by (auto simp: spawn_ring_def halves_of_def nth_append)
qed

lemma deposit_spec:
  assumes inv: "rings_rep m vss" "dynamic_inv m shards" and i: "i < length vss" "\<not> consumer_gone (m_rings m ! i)" "i \<notin> set (shards @ inbox_list m @ parked_in m)"
  shows "\<exists>m'. inbox_deposit i m = Some m' \<and> rings_rep m' vss \<and> dynamic_inv m' shards \<and> set (inbox_list m') = insert i (set (inbox_list m))
     \<and> outside m' = outside m \<and> (\<forall>k. halves_of m' k = halves_of m k)"
proof -
  obtain ib rc where st: "m_state m = (ib, rc)" by (cases "m_state m")
  have len: "length vss = length (m_rings m)" using inv(1) by (simp add: rings_rep_def)
  show ?thesis
  proof (cases ib)
    case (LockedInbox gen seen queue)
    let ?m = "m\<lparr>m_state := (LockedInbox (gen + 1) seen (queue @ [i]), rc)\<rparr>"
    have q: "inbox_list m = queue" "inbox_list ?m = queue @ [i]" "parked_in ?m = parked_in m" using st LockedInbox by (simp_all add: inbox_list_def parked_in_def)
    have "inbox_ok ?m" using inv(2) st LockedInbox by (simp add: dynamic_inv_def inbox_ok_def)
    then have "dynamic_inv ?m shards" using inv(2) i len by (auto simp: dynamic_inv_def q)
    moreover have "inbox_deposit i m = Some ?m" "rings_rep ?m vss" using st LockedInbox inv(1) by (simp_all add: inbox_deposit_def rings_rep_def)
    moreover have "halves_of ?m k = halves_of m k" for k by (simp add: halves_of_def)
    ultimately show ?thesis using q by (intro exI [of _ ?m]) simp
  next
    case (LockFreeInbox node)
    let ?r = "(m_rings m ! i)\<lparr>inbox_next := node\<rparr>"
    let ?m = "(set_ring i ?r m)\<lparr>m_state := (LockFreeInbox (Some i), rc)\<rparr>"
    have nth: "m_rings (set_ring i ?r m) ! k = (if k = i then ?r else m_rings m ! k)" for k using i(1) len by (simp add: set_ring_def)
    have lm: "length (m_rings ?m) = length (m_rings m)" by (simp add: set_ring_def)
    have "linked (m_rings m) node (inbox_list m)" using inv(2) st LockFreeInbox by (simp add: dynamic_inv_def inbox_ok_def)
    then have "linked (m_rings ?m) node (inbox_list m)" using i(3) by - (rule linked_cong [of "m_rings m"], auto simp: nth)
    then have lk: "linked (m_rings ?m) (Some i) (i # inbox_list m)" by (simp add: nth)
    have "distinct (i # inbox_list m)" "set (i # inbox_list m) \<subseteq> {..<length (m_rings m)}" using inv(2) i len by (auto simp: dynamic_inv_def)
    then have "length (i # inbox_list m) \<le> length (m_rings m)" by (rule length_below)
    then have q: "inbox_list ?m = i # inbox_list m" using walk_linked [OF lk] lm by (simp add: inbox_list_def [of ?m])
    have pk: "parked_in ?m = parked_in m" using st by (simp add: parked_in_def)
    have h: "halves_of ?m k = halves_of m k" for k by (simp add: halves_of_def nth)
    have cg: "consumer_gone (m_rings ?m ! k) = consumer_gone (m_rings m ! k)" "ring_rep (m_rings ?m ! k) [] = ring_rep (m_rings m ! k) []" for k by (simp_all add: nth)
    have "inbox_ok ?m" using lk q by (simp add: inbox_ok_def)
    then have "dynamic_inv ?m shards" unfolding dynamic_inv_def q pk lm cg using inv(2) i len by (auto simp: dynamic_inv_def)
    moreover have "inbox_deposit i m = Some ?m" using st LockFreeInbox ring_of_rep [OF inv(1) i(1)] by (simp add: inbox_deposit_def stack_push_def)
    moreover have "rings_rep ?m vss" using inv(1) by (simp add: rings_rep_def nth) (simp add: set_ring_def)
    moreover have "outside ?m = outside m" by (simp add: set_ring_def)
    ultimately show ?thesis using q h by (intro exI [of _ ?m]) simp
  qed
qed

lemma dynamic_inv_kept:
  assumes inv: "dynamic_inv m shards" and k: "kept (set shards \<union> dynamic_waiting m) m m'"
  shows "dynamic_inv m' shards" "dynamic_waiting m' = dynamic_waiting m"
proof -
  have len: "length (m_rings m') = length (m_rings m)" and st: "m_state m' = m_state m" using k by (auto simp: kept_def)
  have mem: "\<forall>x\<in>set (shards @ inbox_list m @ parked_in m). x < length (m_rings m) \<and> \<not> consumer_gone (m_rings m ! x)"
    using inv by (simp add: dynamic_inv_def)
  have "\<forall>x\<in>set (inbox_list m). inbox_next (m_rings m' ! x) = inbox_next (m_rings m ! x)" "inbox_ok m"
    using k mem inv by (auto simp: kept_def dynamic_inv_def)
  note ib = inbox_kept [OF this(2) _ _ this(1), unfolded len st, OF dynamic_inv_lengths(2) [OF inv] refl]
  have pk: "parked_in m' = parked_in m" using st by (simp add: parked_in_def)
  have "ring_rep (m_rings m' ! x) []" if x: "x \<in> set (parked_in m)" for x
  proof -
    have "x \<notin> set shards \<union> dynamic_waiting m" "ring_rep (m_rings m ! x) []" "x < length (m_rings m)"
      using x inv mem by (auto simp: dynamic_inv_def dynamic_waiting_def)
    then show ?thesis using k by (simp add: kept_def)
  qed
  moreover have "\<forall>x\<in>set (shards @ inbox_list m @ parked_in m). x < length (m_rings m) \<and> \<not> consumer_gone (m_rings m' ! x)"
    using k mem by (simp add: kept_def)
  ultimately show "dynamic_inv m' shards" unfolding dynamic_inv_def ib(2) pk len using inv ib(1) by (simp add: dynamic_inv_def)
  show "dynamic_waiting m' = dynamic_waiting m" using ib(2) by (simp add: dynamic_waiting_def)
qed

lemma dynamic_inv_grow:
  assumes inv: "dynamic_inv m shards" and m': "m_state m' = m_state m" "length (m_rings m) \<le> length (m_rings m')" "length (m_rings m') < 2 ^ 64"
    "\<forall>k<length (m_rings m). m_rings m' ! k = m_rings m ! k"
  shows "dynamic_inv m' shards" "inbox_list m' = inbox_list m" "parked_in m' = parked_in m"
proof -
  have mem: "\<forall>x\<in>set (shards @ inbox_list m @ parked_in m). x < length (m_rings m) \<and> \<not> consumer_gone (m_rings m ! x)" "inbox_ok m"
    using inv by (simp_all add: dynamic_inv_def)
  have "length (inbox_list m) \<le> length (m_rings m')" using dynamic_inv_lengths(2) [OF inv] m'(2) by simp
  note ib = inbox_kept [OF mem(2) this arg_cong [OF m'(1)]]
  have ib: "inbox_ok m'" "inbox_list m' = inbox_list m" using ib m'(4) mem(1) by simp_all
  show pk: "parked_in m' = parked_in m" using m'(1) by (simp add: parked_in_def)
  show "inbox_list m' = inbox_list m" by (rule ib)
  have "\<forall>x\<in>set (shards @ inbox_list m @ parked_in m). x < length (m_rings m') \<and> m_rings m' ! x = m_rings m ! x"
    using mem(1) m'(2,4) order_less_le_trans by blast
  then show "dynamic_inv m' shards" unfolding dynamic_inv_def ib(2) pk using inv ib(1) m'(3) by (simp add: dynamic_inv_def)
qed

lemma register_spec:
  assumes inv: "rings_rep m vss" "dynamic_inv m shards" and c: "unat capacity \<le> 2 ^ 63" "Suc (length vss) < 2 ^ 64"
  shows "\<exists>p m' n. register K capacity m = Some (p, m') \<and> n \<le> 1 \<and> rings_rep m' (vss @ replicate n []) \<and> dynamic_inv m' shards
     \<and> dynamic_waiting m' = insert p (dynamic_waiting m) \<and> m_live m' = m_live m + 1 \<and> p \<notin> set shards \<union> dynamic_waiting m
     \<and> (p < length vss \<longrightarrow> vss ! p = []) \<and> halves_of m' p = (False, False, 2) \<and> (\<forall>k\<in>set shards \<union> dynamic_waiting m. halves_of m' k = halves_of m k)"
proof -
  obtain t m1 where t: "reclaim_take K m = Some (t, m1)" "rings_rep m1 vss" "dynamic_inv m1 shards" "inbox_list m1 = inbox_list m" "outside m1 = outside m"
    "\<forall>k\<in>set shards \<union> set (inbox_list m). m_rings m1 ! k = m_rings m ! k"
    "\<forall>i\<in>set_option t. i < length vss \<and> vss ! i = [] \<and> halves_of m1 i = (False, False, 2) \<and> i \<notin> set (shards @ inbox_list m1 @ parked_in m1)"
    using reclaim_take_spec [OF inv, of K] by (elim exE conjE) (rule that)
  have len: "length vss = length (m_rings m1)" using t(2) by (simp add: rings_rep_def)
  have "\<exists>p m2 n. (case t of Some i \<Rightarrow> Some (i, m1) | None \<Rightarrow> spawn_ring K capacity m1) = Some (p, m2) \<and> n \<le> 1 \<and> rings_rep m2 (vss @ replicate n [])
    \<and> dynamic_inv m2 shards \<and> inbox_list m2 = inbox_list m \<and> outside m2 = outside m \<and> p < length vss + n \<and> (p < length vss \<longrightarrow> vss ! p = [])
    \<and> halves_of m2 p = (False, False, 2) \<and> p \<notin> set (shards @ inbox_list m2 @ parked_in m2) \<and> (\<forall>k\<in>set shards \<union> set (inbox_list m). m_rings m2 ! k = m_rings m ! k)"
  proof (cases t)
    case (Some i)
    then show ?thesis using t by (intro exI [of _ i] exI [of _ m1] exI [of _ 0]) simp
  next
    case None
    obtain m2 where s: "spawn_ring K capacity m1 = Some (length vss, m2)" "rings_rep m2 (vss @ [[]])" "outside m2 = outside m1" "m_state m2 = m_state m1"
      "\<forall>k<length vss. m_rings m2 ! k = m_rings m1 ! k" "halves_of m2 (length vss) = (False, False, 2)" using spawn_ring_spec [OF t(2) c(1), of K] by blast
    have l2: "length (m_rings m2) = Suc (length vss)" using s(2) by (simp add: rings_rep_def)
    have g: "dynamic_inv m2 shards" "inbox_list m2 = inbox_list m1" "parked_in m2 = parked_in m1"
      using dynamic_inv_grow [OF t(3) s(4)] s(5) l2 len c(2) by simp_all
    have mem: "\<forall>k\<in>set (shards @ inbox_list m1 @ parked_in m1). k < length vss" using t(3) len by (simp add: dynamic_inv_def)
    then have "length vss \<notin> set (shards @ inbox_list m1 @ parked_in m1)" by blast
    moreover have "\<forall>k\<in>set shards \<union> set (inbox_list m). m_rings m2 ! k = m_rings m ! k" using mem s(5) t(4,6) by auto
    ultimately show ?thesis using s g t(4,5) None by (intro exI [of _ "length vss"] exI [of _ m2] exI [of _ 1]) simp
  qed
  then obtain p m2 n where p: "(case t of Some i \<Rightarrow> Some (i, m1) | None \<Rightarrow> spawn_ring K capacity m1) = Some (p, m2)" "n \<le> 1" "rings_rep m2 (vss @ replicate n [])"
    "dynamic_inv m2 shards" "inbox_list m2 = inbox_list m" "outside m2 = outside m" "p < length vss + n" "p < length vss \<longrightarrow> vss ! p = []"
    "halves_of m2 p = (False, False, 2)" "p \<notin> set (shards @ inbox_list m2 @ parked_in m2)" "\<forall>k\<in>set shards \<union> set (inbox_list m). m_rings m2 ! k = m_rings m ! k"
    by (elim exE conjE) (rule that)
  let ?m = "shared_inc m2"
  have sel: "m_rings ?m = m_rings m2" "m_state ?m = m_state m2" "m_spaces ?m = m_spaces m2" "m_live ?m = m_live m2 + 1" by (simp_all add: shared_inc_def)
  have ib: "inbox_list ?m = inbox_list m2" "parked_in ?m = parked_in m2" unfolding inbox_list_def parked_in_def sel by (rule refl)+
  have "rings_rep ?m (vss @ replicate n [])" "dynamic_inv ?m shards"
    using p(3,4) unfolding rings_rep_def dynamic_inv_def inbox_ok_def ib sel by blast+
  moreover have "p < length (vss @ replicate n [])" "\<not> consumer_gone (m_rings ?m ! p)" using p(7,9) by (simp_all add: halves_of_def sel)
  ultimately obtain m' where d: "inbox_deposit p ?m = Some m'" "rings_rep m' (vss @ replicate n [])" "dynamic_inv m' shards"
    "set (inbox_list m') = insert p (set (inbox_list ?m))" "outside m' = outside ?m" "\<forall>k. halves_of m' k = halves_of ?m k"
    using deposit_spec [of ?m "vss @ replicate n []" shards p] p(10) unfolding ib by blast
  have "register K capacity m = Some (p, m')" using t(1) p(1) d(1) by (cases t) (simp_all add: register_def)
  moreover have "\<forall>k. halves_of m' k = halves_of m2 k" using d(6) by (simp add: halves_of_def sel)
  moreover have "\<forall>k\<in>set shards \<union> set (inbox_list m). halves_of m2 k = halves_of m k" using p(11) by (simp add: halves_of_def)
  ultimately show ?thesis using p(2,5,6,8,9,10) d(2-5)
    by - (rule exI [of _ p], rule exI [of _ m'], rule exI [of _ n], simp add: dynamic_waiting_def ib sel)
qed

text \<open>Registering, as the operation that hands out a producer.\<close>

definition register_claim :: "('n, 'sp, 'w) Kernel \<Rightarrow> usize \<Rightarrow> ('a, 'n, 'sp) Dynamic \<Rightarrow> (nat option \<times> ('a, 'n, 'sp) Dynamic) option" where
  "register_claim K capacity m = map_option (\<lambda>(p, m). (Some p, m)) (register K capacity m)"

interpretation dynamic: membership "dynamic_state K" dynamic_inv dynamic_waiting "\<lambda>_. {}" True
proof (unfold_locales, goal_cases)
  case (1 m shards m')
  then show ?case using dynamic_inv_kept [of m shards m'] by simp
next
  case (2 m shards)
  then show ?case using dynamic_inv_lengths(1) [OF 2] by (auto simp: dynamic_inv_def dynamic_waiting_def)
next
  case (4 m vss shards)
  then show ?case using dynamic_refresh [OF 4] by (auto simp: dynamic_state_def dynamic_waiting_def)
next
  case (5 m vss shards i)
  then show ?case using dynamic_dispose [OF 5(1-4), of K] by (auto simp: dynamic_waiting_def halves_of_def)
qed simp

lemma dynamic_tier:
  assumes "unat capacity \<le> 2 ^ 63"
  shows "tier (dynamic_state K) dynamic_inv dynamic_waiting (\<lambda>_. {}) True (register_claim K' capacity)"
proof (unfold_locales, goal_cases)
  case (1 m vss shards)
  obtain p m' n where r: "register K' capacity m = Some (p, m')" "n \<le> 1" "rings_rep m' (vss @ replicate n [])" "dynamic_inv m' shards"
    "dynamic_waiting m' = insert p (dynamic_waiting m)" "m_live m' = m_live m + 1" "p \<notin> set shards \<union> dynamic_waiting m"
    "p < length vss \<longrightarrow> vss ! p = []" "halves_of m' p = (False, False, 2)" "\<forall>k\<in>set shards \<union> dynamic_waiting m. halves_of m' k = halves_of m k"
    using register_spec [OF 1(1,2) assms 1(3), of K'] by (elim exE conjE) (rule that)
  then show ?case by - (rule exI [of _ "Some p"], rule exI [of _ m'], rule exI [of _ n], simp add: register_claim_def)
qed

end
