(* ===== verification/Mpsc_System.thy ===== *)
theory Mpsc_System
  imports Mpsc_Tiers
begin

text \<open>
  Whole runs of an MPSC channel. The system interleaves the operations of the live producers, of the handles that hand
  out producers and of the receiver, in any order; it records what was accepted, what was delivered, and who is alive.
\<close>

section \<open>Runs\<close>

datatype 'a mpsc_act =
  MSend nat 'a
| MDrop nat
| MClaim
| MCloneHandle
| MDropHandle
| MRecv
| MRecvMany usize
| MSetBatch usize

record ('a, 'n, 'sp, 'st) MSys =
  y_m :: "('a, 'n, 'sp, 'st) Mpsc"
  y_rx :: "'a MReceiver"
  y_own :: "nat list"
  y_handles :: nat
  y_acc :: "(nat \<times> 'a) list"
  y_del :: "'a list"

text \<open>
  An operation of a producer or handle that does not exist changes nothing: ownership keeps a program from calling it.
  \<open>None\<close> is a panic or undefined behaviour of the code.
\<close>

fun mpsc_op ::
  "('n, 'sp, 'w) Kernel \<Rightarrow> ('a, 'n, 'sp, 'st) ShardState \<Rightarrow> (('a, 'n, 'sp, 'st) Mpsc \<Rightarrow> (nat option \<times> ('a, 'n, 'sp, 'st) Mpsc) option)
     \<Rightarrow> 'a mpsc_act \<Rightarrow> ('a, 'n, 'sp, 'st) MSys \<Rightarrow> ('a, 'n, 'sp, 'st) MSys option" where
  "mpsc_op K S claim (MSend p v) y =
     (if p \<in> set (y_own y)
      then do { (x, m) \<leftarrow> mp_try_send K (y_m y) p v;
                Some (y\<lparr>y_m := m, y_acc := y_acc y @ (case x of Ok _ \<Rightarrow> [(p, v)] | Err _ \<Rightarrow> [])\<rparr>) }
      else Some y)"
| "mpsc_op K S claim (MDrop p) y =
     (if p \<in> set (y_own y)
      then do { m \<leftarrow> mp_drop_producer K (y_m y) p; Some (y\<lparr>y_m := m, y_own := remove1 p (y_own y)\<rparr>) }
      else Some y)"
| "mpsc_op K S claim MClaim y =
     (if 0 < y_handles y
      then do { (t, m) \<leftarrow> claim (y_m y); Some (y\<lparr>y_m := m, y_own := y_own y @ (case t of None \<Rightarrow> [] | Some p \<Rightarrow> [p])\<rparr>) }
      else Some y)"
| "mpsc_op K S claim MCloneHandle y =
     Some (if 0 < y_handles y then y\<lparr>y_m := shared_inc (y_m y), y_handles := y_handles y + 1\<rparr> else y)"
| "mpsc_op K S claim MDropHandle y =
     Some (if 0 < y_handles y then y\<lparr>y_m := shared_release K (y_m y), y_handles := y_handles y - 1\<rparr> else y)"
| "mpsc_op K S claim MRecv y =
     do { (v, m, rx) \<leftarrow> mp_try_recv K S (y_m y) (y_rx y);
          Some (y\<lparr>y_m := m, y_rx := rx, y_del := y_del y @ (case v of None \<Rightarrow> [] | Some v \<Rightarrow> [v])\<rparr>) }"
| "mpsc_op K S claim (MRecvMany mx) y =
     do { (n, m, rx, out) \<leftarrow> mp_try_recv_many K S (y_m y) (y_rx y) [] mx;
          Some (y\<lparr>y_m := m, y_rx := rx, y_del := y_del y @ out\<rparr>) }"
| "mpsc_op K S claim (MSetBatch n) y = Some (y\<lparr>y_rx := mp_set_batch n (y_rx y)\<rparr>)"

fun mpsc_run ::
  "('n, 'sp, 'w) Kernel \<Rightarrow> ('a, 'n, 'sp, 'st) ShardState \<Rightarrow> (('a, 'n, 'sp, 'st) Mpsc \<Rightarrow> (nat option \<times> ('a, 'n, 'sp, 'st) Mpsc) option)
     \<Rightarrow> 'a mpsc_act list \<Rightarrow> ('a, 'n, 'sp, 'st) MSys \<Rightarrow> ('a, 'n, 'sp, 'st) MSys option" where
  "mpsc_run K S claim [] y = Some y"
| "mpsc_run K S claim (act # acts) y = do { y \<leftarrow> mpsc_op K S claim act y; mpsc_run K S claim acts y }"

definition mpsc_start :: "nat list \<Rightarrow> nat \<Rightarrow> ('a, 'n, 'sp, 'st) Mpsc \<Rightarrow> 'a MReceiver \<Rightarrow> ('a, 'n, 'sp, 'st) MSys" where
  "mpsc_start own handles m rx = \<lparr>y_m = m, y_rx = rx, y_own = own, y_handles = handles, y_acc = [], y_del = []\<rparr>"

text \<open>
  What was accepted and what was delivered, by rings: \<open>dl\<close> tells where each delivered or staged value came from. From
  every ring the receiver has taken a prefix of what the ring accepted, in order; or, at the end, all of it.
\<close>

definition mpsc_fifo :: "('a, 'n, 'sp, 'st) MSys \<Rightarrow> (nat \<times> 'a) list \<Rightarrow> bool" where
  "mpsc_fifo y dl \<longleftrightarrow> map snd dl = y_del y @ r_staging (y_rx y) \<and> (\<forall>p. \<exists>rest. from_producer p (y_acc y) = from_producer p dl @ rest)"

definition mpsc_complete :: "('a, 'n, 'sp, 'st) MSys \<Rightarrow> (nat \<times> 'a) list \<Rightarrow> bool" where
  "mpsc_complete y dl \<longleftrightarrow> map snd dl = y_del y \<and> (\<forall>p. from_producer p dl = from_producer p (y_acc y))"

section \<open>The invariant of runs\<close>

lemma kept_frame [simp]:
  "kept J m (m'\<lparr>m_notifier := n\<rparr>) = kept J m m'" "kept J m (m'\<lparr>m_live := l\<rparr>) = kept J m m'"
  by (simp_all add: kept_def halves_of_def)

lemma halves_of_frame [simp]:
  "halves_of (m\<lparr>m_notifier := n\<rparr>) k = halves_of m k" "halves_of (m\<lparr>m_live := l\<rparr>) k = halves_of m k"
  by (simp_all add: halves_of_def)

lemma kept_refl [simp]: "kept J m m"
  by (simp add: kept_def)

lemma shared_release_eq: "\<exists>n. shared_release K m = m\<lparr>m_live := m_live m - 1, m_notifier := n\<rparr>"
  by (cases m; cases "m_live m = 1") (auto simp: shared_release_def Let_def)

text \<open>A producer that owns both halves of its ring: sending appends or finds the ring full, dropping leaves an orphan.\<close>

lemma mp_try_send_spec:
  assumes "rings_rep m vss" "p < length vss" "halves_of m p = (False, False, 2)" "p \<in> J"
  shows "\<exists>m'. mp_try_send K m p v = Some (if length (vss ! p) < unat (cap (m_rings m ! p)) then Ok () else Err (Full v), m')
     \<and> rings_rep m' (if length (vss ! p) < unat (cap (m_rings m ! p)) then vss[p := vss ! p @ [v]] else vss)
     \<and> kept J m m' \<and> m_live m' = m_live m \<and> (\<forall>k. halves_of m' k = halves_of m k)"
proof -
  let ?room = "length (vss ! p) < unat (cap (m_rings m ! p))" and ?vs = "vss ! p @ [v]"
  obtain r where r: "try_push (m_rings m ! p) v = Some (if ?room then Ok () else Err v, r)"
    "ring_rep r (if ?room then ?vs else vss ! p)" "same_ctl (m_rings m ! p) r"
    using ring_rep_try_push [OF rings_rep_nth [OF assms(1,2)], of v] by blast
  have sp: "set_space p (m_spaces m ! p) (set_ring p r m) = set_ring p r m" by (simp add: set_space_def set_ring_def)
  have "vss ! p = [] \<Longrightarrow> (if ?room then ?vs else vss ! p) = [] \<or> p \<in> J" using assms(4) by simp
  note put = put_ring [OF assms(1,2) r(2,3) this, of "m_spaces m ! p", unfolded sp]
  have up: "vss[p := if ?room then ?vs else vss ! p] = (if ?room then vss[p := ?vs] else vss)" by simp
  have q: "mp_try_send_quiet m p v = Some (if ?room then Ok () else Err (Full v), set_ring p r m)"
    using assms(3) r(1) ring_of_rep [OF assms(1,2)] by (simp add: mp_try_send_quiet_def is_consumer_gone_def halves_of_def)
  let ?m = "if ?room then notify_consumer K (set_ring p r m) else set_ring p r m"
  have "mp_try_send K m p v = Some (if ?room then Ok () else Err (Full v), ?m)" using q by (simp add: mp_try_send_def)
  then show ?thesis using put unfolding up by (intro exI [of _ ?m], cases ?room) (simp_all add: notify_consumer_def)
qed

lemma mp_drop_producer_spec:
  assumes "rings_rep m vss" "p < length vss" "halves_of m p = (False, False, 2)" "p \<in> J"
  shows "\<exists>m'. mp_drop_producer K m p = Some m' \<and> rings_rep m' vss \<and> kept J m m' \<and> m_live m' = m_live m - 1
     \<and> orphan m' p \<and> (\<forall>k. k \<noteq> p \<longrightarrow> halves_of m' k = halves_of m k)"
proof -
  let ?r = "drop_sender (m_rings m ! p)"
  let ?m1 = "set_ring p ?r (set_space p (k_clear_producer K (m_spaces m ! p)) m)"
  have p: "p < length (m_rings m)" using assms(1,2) by (simp add: rings_rep_def)
  have nth: "m_rings ?m1 ! k = (if k = p then ?r else m_rings m ! k)" for k using p by (simp add: set_ring_def set_space_def)
  have ds: "ring_rep ?r vs = ring_rep (m_rings m ! p) vs" "inbox_next ?r = inbox_next (m_rings m ! p)" "consumer_gone ?r = consumer_gone (m_rings m ! p)"
    "producer_gone ?r" for vs by (simp_all add: drop_sender_def)
  have rep: "rings_rep ?m1 vss" using assms(1) by (simp add: rings_rep_def nth ds) (simp add: set_ring_def set_space_def)
  have kp: "kept J m ?m1" using assms(4) unfolding kept_def by (simp add: nth ds halves_of_def) (simp add: set_ring_def set_space_def)
  have "release_ring p ?r (set_space p (k_clear_producer K (m_spaces m ! p)) m) = Some ?m1"
    using assms(3) by (simp add: release_ring_def drop_sender_def halves_of_def)
  then have d: "mp_drop_producer K m p = Some (shared_release K (?m1\<lparr>m_notifier := k_producer_dropped K (m_notifier ?m1)\<rparr>))"
    using ring_of_rep [OF assms(1,2)] by (simp add: mp_drop_producer_def)
  obtain n where n: "shared_release K (?m1\<lparr>m_notifier := k_producer_dropped K (m_notifier ?m1)\<rparr>) = ?m1\<lparr>m_live := m_live ?m1 - 1, m_notifier := n\<rparr>"
    using shared_release_eq [of K "?m1\<lparr>m_notifier := k_producer_dropped K (m_notifier ?m1)\<rparr>"] by auto
  have "halves_of ?m1 k = halves_of m k" if "k \<noteq> p" for k using that by (simp add: halves_of_def nth)
  moreover have "orphan ?m1 p" "m_live ?m1 = m_live m" by (simp_all add: nth ds) (simp add: set_ring_def set_space_def)
  ultimately show ?thesis using d n rep kp by simp
qed

context tier
begin

text \<open>
  \<open>vss\<close> are the contents of the rings, \<open>dl\<close> the delivered and staged values with their rings. Every live producer owns both
  halves of a shard; every ring that is not empty is a shard; where the policy removes shards, a shard without a live
  producer is an orphan.
\<close>

definition sys_inv :: "('a, 'n, 'sp, 'st) MSys \<Rightarrow> 'a list list \<Rightarrow> (nat \<times> 'a) list \<Rightarrow> bool" where
  "sys_inv y vss dl \<longleftrightarrow> rings_rep (y_m y) vss \<and> minv (y_m y) (r_shards (y_rx y)) \<and> r_batch (y_rx y) \<noteq> 0
     \<and> distinct (y_own y) \<and> set (y_own y) \<inter> free_in (y_m y) = {} \<and> m_live (y_m y) = of_nat (length (y_own y) + y_handles y)
     \<and> map snd dl = y_del y @ r_staging (y_rx y)
     \<and> (\<forall>p<length vss. from_producer p dl @ vss ! p = from_producer p (y_acc y))
     \<and> (\<forall>x\<in>set dl \<union> set (y_acc y). fst x < length vss)
     \<and> (\<forall>p<length vss. vss ! p \<noteq> [] \<longrightarrow> p \<in> set (r_shards (y_rx y)) \<union> waiting_in (y_m y))
     \<and> (\<forall>p\<in>set (y_own y). p \<in> set (r_shards (y_rx y)) \<union> waiting_in (y_m y) \<and> halves_of (y_m y) p = (False, False, 2))
     \<and> (removes \<longrightarrow> (\<forall>p\<in>set (r_shards (y_rx y)) \<union> waiting_in (y_m y) - set (y_own y). orphan (y_m y) p))"

lemma sys_invI:
  assumes "rings_rep (y_m y) vss" "minv (y_m y) (r_shards (y_rx y))" "r_batch (y_rx y) \<noteq> 0"
    "distinct (y_own y)" "set (y_own y) \<inter> free_in (y_m y) = {}" "m_live (y_m y) = of_nat (length (y_own y) + y_handles y)"
    "map snd dl = y_del y @ r_staging (y_rx y)"
    "\<And>p. p < length vss \<Longrightarrow> from_producer p dl @ vss ! p = from_producer p (y_acc y)" "\<And>x. x \<in> set dl \<union> set (y_acc y) \<Longrightarrow> fst x < length vss"
    "\<And>p. p < length vss \<Longrightarrow> vss ! p \<noteq> [] \<Longrightarrow> p \<in> set (r_shards (y_rx y)) \<union> waiting_in (y_m y)"
    "\<And>p. p \<in> set (y_own y) \<Longrightarrow> p \<in> set (r_shards (y_rx y)) \<union> waiting_in (y_m y) \<and> halves_of (y_m y) p = (False, False, 2)"
    "\<And>p. removes \<Longrightarrow> p \<in> set (r_shards (y_rx y)) \<union> waiting_in (y_m y) - set (y_own y) \<Longrightarrow> orphan (y_m y) p"
  shows "sys_inv y vss dl"
  using assms unfolding sys_inv_def by blast

lemma sys_inv_orphan:
  "sys_inv y vss dl \<Longrightarrow> removes \<Longrightarrow> p \<in> set (r_shards (y_rx y)) \<union> waiting_in (y_m y) \<Longrightarrow> p \<notin> set (y_own y) \<Longrightarrow> orphan (y_m y) p"
  unfolding sys_inv_def by blast

lemma own_less: "sys_inv y vss dl \<Longrightarrow> p \<in> set (r_shards (y_rx y)) \<union> waiting_in (y_m y) \<Longrightarrow> p < length vss"
  using ok by (fastforce simp: sys_inv_def rings_rep_def)

text \<open>Receiving, in the form \<open>try_recv\<close> and \<open>try_recv_many\<close> share.\<close>

lemma sys_inv_received:
  assumes inv: "sys_inv y vss dl" and r: "received (y_m y) (r_shards (y_rx y)) vss m' (r_shards rx') vss' dl'" "r_batch rx' = r_batch (y_rx y)"
    and got: "got @ r_staging rx' = r_staging (y_rx y) @ map snd dl'"
  shows "sys_inv (y\<lparr>y_m := m', y_rx := rx', y_del := y_del y @ got\<rparr>) vss' (dl @ dl')"
proof -
  let ?m = "y_m y" and ?sh = "r_shards (y_rx y)"
  let ?A = "set ?sh \<union> waiting_in ?m" and ?A' = "set (r_shards rx') \<union> waiting_in m'"
  have iown: "p \<in> ?A \<and> halves_of ?m p = (False, False, 2)" "\<not> orphan ?m p" if "p \<in> set (y_own y)" for p
    using inv that by (auto simp: sys_inv_def halves_of_def)
  have iorph: "removes \<longrightarrow> (\<forall>p\<in>?A - set (y_own y). orphan ?m p)" using inv by (simp add: sys_inv_def)
  have ifree: "set (y_own y) \<inter> free_in ?m = {}" using inv by (simp add: sys_inv_def)
  have ine: "\<And>p. p < length vss \<Longrightarrow> vss ! p \<noteq> [] \<Longrightarrow> p \<in> ?A" using inv by (simp add: sys_inv_def)
  have ififo: "\<And>p. p < length vss \<Longrightarrow> from_producer p dl @ vss ! p = from_producer p (y_acc y)" using inv by (simp add: sys_inv_def)
  have len: "length vss' = length vss" and sub: "?A' \<subseteq> ?A" and gone: "\<forall>j\<in>?A - ?A'. vss' ! j = [] \<and> orphan ?m j"
    and hv: "\<forall>k<length vss. halves_of m' k = halves_of ?m k \<or> orphan ?m k \<and> (removes \<longrightarrow> k \<notin> ?A')"
    and fr: "free_in m' \<subseteq> free_in ?m \<union> {k. k < length vss \<and> orphan ?m k}"
    and rfifo: "\<forall>j<length vss. from_producer j dl' @ vss' ! j = vss ! j"
    using r(1) unfolding received_def by blast+
  have own: "p \<in> ?A' \<and> halves_of m' p = (False, False, 2)" if p: "p \<in> set (y_own y)" for p
    using iown [OF p] own_less [OF inv] gone hv by (metis DiffI)
  have free: "set (y_own y) \<inter> free_in m' = {}" using ifree fr iown(2) by blast
  have orph: "orphan m' p" if a: "removes" "p \<in> ?A' - set (y_own y)" for p
  proof -
    have p: "p \<in> ?A" "orphan ?m p" using a sub iorph by blast+
    then have "halves_of m' p = halves_of ?m p" using hv a own_less [OF inv p(1)] by blast
    then show ?thesis using p(2) halves_of_orphan by blast
  qed
  have ne: "p \<in> ?A'" if a: "p < length vss'" "vss' ! p \<noteq> []" for p
    using rfifo ine gone a len by (metis DiffI append_is_Nil_conv)
  have fifo: "from_producer p (dl @ dl') @ vss' ! p = from_producer p (y_acc y)" if "p < length vss'" for p
    using ififo rfifo that len by (simp add: from_producer_append)
  have "map snd (dl @ dl') = (y_del y @ got) @ r_staging rx'" using inv got by (simp add: sys_inv_def)
  moreover have "\<And>x. x \<in> set (dl @ dl') \<union> set (y_acc y) \<Longrightarrow> fst x < length vss'" using inv r(1) len by (auto simp: sys_inv_def received_def)
  moreover have "rings_rep m' vss'" "minv m' (r_shards rx')" "m_live m' = m_live ?m" using r(1) by (simp_all add: received_def)
  moreover have "distinct (y_own y)" "r_batch (y_rx y) \<noteq> 0" "m_live ?m = of_nat (length (y_own y) + y_handles y)" using inv by (simp_all add: sys_inv_def)
  ultimately show ?thesis using own free orph ne fifo r(2) by (intro sys_invI) simp_all
qed

text \<open>The other operations leave the shards where they are.\<close>

lemma sys_inv_send:
  assumes inv: "sys_inv y vss dl" and p: "p \<in> set (y_own y)"
  shows "\<exists>y' vss'. mpsc_op K S claim (MSend p v) y = Some y' \<and> sys_inv y' vss' dl \<and> length vss' = length vss \<and> y_own y' = y_own y \<and> y_handles y' = y_handles y"
proof -
  let ?m = "y_m y"
  have own: "p \<in> set (r_shards (y_rx y)) \<union> waiting_in ?m" "halves_of ?m p = (False, False, 2)" "p \<notin> free_in ?m" using inv p by (auto simp: sys_inv_def)
  have pl: "p < length vss" using own_less [OF inv own(1)] .
  have rep: "rings_rep ?m vss" "minv ?m (r_shards (y_rx y))" using inv by (simp_all add: sys_inv_def)
  have pj: "p \<in> set (r_shards (y_rx y)) \<union> waiting_in ?m - free_in ?m" using own by blast
  define vss' where "vss' = (if length (vss ! p) < unat (cap (m_rings ?m ! p)) then vss[p := vss ! p @ [v]] else vss)"
  define acc where "acc = y_acc y @ (if length (vss ! p) < unat (cap (m_rings ?m ! p)) then [(p, v)] else [])"
  obtain m' where s: "mp_try_send K ?m p v = Some (if length (vss ! p) < unat (cap (m_rings ?m ! p)) then Ok () else Err (Full v), m')"
    "rings_rep m' vss'" "kept (set (r_shards (y_rx y)) \<union> waiting_in ?m - free_in ?m) ?m m'" "m_live m' = m_live ?m" "\<forall>k. halves_of m' k = halves_of ?m k"
    using mp_try_send_spec [OF rep(1) pl own(2) pj, of K v] unfolding vss'_def by blast
  note da = data [OF rep(2) s(3)]
  let ?y = "y\<lparr>y_m := m', y_acc := acc\<rparr>"
  have go: "mpsc_op K S claim (MSend p v) y = Some ?y" using p s(1) by (simp add: acc_def)
  have len: "length vss' = length vss" by (simp add: vss'_def)
  have fifo: "from_producer q dl @ vss' ! q = from_producer q acc" if "q < length vss'" for q
  proof -
    have "from_producer q dl @ vss ! q = from_producer q (y_acc y)" using inv that len by (simp add: sys_inv_def)
    then show ?thesis using that len by (cases "q = p") (auto simp: vss'_def acc_def from_producer_append from_producer_def nth_list_update)
  qed
  have orph: "orphan m' k" if "removes" "k \<in> set (r_shards (y_rx y)) \<union> waiting_in ?m - set (y_own y)" for k
    using s(5) halves_of_orphan sys_inv_orphan [OF inv that(1)] that(2) by blast
  have ne: "q \<in> set (r_shards (y_rx y)) \<union> waiting_in m'" if "q < length vss'" "vss' ! q \<noteq> []" for q
    using inv that len own(1) da by (cases "q = p") (auto simp: sys_inv_def vss'_def split: if_splits)
  have accs: "\<And>x. x \<in> set dl \<union> set acc \<Longrightarrow> fst x < length vss'" using inv pl len by (auto simp: sys_inv_def acc_def split: if_splits)
  have "sys_inv ?y vss' dl"
    using inv s(2,4,5) da fifo ne accs orph by (intro sys_invI) (simp_all add: sys_inv_def)
  then show ?thesis using go len by (intro exI [of _ ?y] exI [of _ vss']) simp
qed

lemma sys_inv_drop:
  assumes inv: "sys_inv y vss dl" and p: "p \<in> set (y_own y)"
  shows "\<exists>y'. mpsc_op K S claim (MDrop p) y = Some y' \<and> sys_inv y' vss dl \<and> length (y_own y') < length (y_own y) \<and> y_handles y' = y_handles y"
proof -
  let ?m = "y_m y"
  have own: "p \<in> set (r_shards (y_rx y)) \<union> waiting_in ?m" "halves_of ?m p = (False, False, 2)" "p \<notin> free_in ?m" using inv p by (auto simp: sys_inv_def)
  have rep: "rings_rep ?m vss" "minv ?m (r_shards (y_rx y))" "distinct (y_own y)" using inv by (simp_all add: sys_inv_def)
  have pj: "p \<in> set (r_shards (y_rx y)) \<union> waiting_in ?m - free_in ?m" using own by blast
  obtain m' where d: "mp_drop_producer K ?m p = Some m'" "rings_rep m' vss" "kept (set (r_shards (y_rx y)) \<union> waiting_in ?m - free_in ?m) ?m m'"
    "m_live m' = m_live ?m - 1" "orphan m' p" "\<forall>k. k \<noteq> p \<longrightarrow> halves_of m' k = halves_of ?m k"
    using mp_drop_producer_spec [OF rep(1) own_less [OF inv own(1)] own(2) pj, of K] by blast
  note da = data [OF rep(2) d(3)]
  let ?y = "y\<lparr>y_m := m', y_own := remove1 p (y_own y)\<rparr>"
  have rm: "set (remove1 p (y_own y)) = set (y_own y) - {p}" "Suc (length (remove1 p (y_own y))) = length (y_own y)" "distinct (remove1 p (y_own y))"
    using rep(3) p length_pos_if_in_set [OF p] by (auto simp: length_remove1)
  have "m_live ?m = of_nat (length (y_own y) + y_handles y)" using inv by (simp add: sys_inv_def)
  then have live: "m_live m' = of_nat (length (remove1 p (y_own y)) + y_handles y)" using d(4) unfolding rm(2) [symmetric] by simp
  have hv: "halves_of m' q = (False, False, 2)" if "q \<in> set (y_own y) - {p}" for q using d(6) inv that by (auto simp: sys_inv_def)
  have orph: "orphan m' q" if "removes" "q \<in> set (r_shards (y_rx y)) \<union> waiting_in ?m - (set (y_own y) - {p})" for q
  proof (cases "q = p")
    case False
    then have "orphan ?m q" using sys_inv_orphan [OF inv that(1)] that(2) by blast
    then show ?thesis using d(6) False halves_of_orphan by blast
  qed (simp add: d(5))
  have fr: "set (remove1 p (y_own y)) \<inter> free_in m' = {}" using inv da rm(1) by (auto simp: sys_inv_def)
  have "sys_inv ?y vss dl"
    using inv d(2) da live hv orph rm(1,3) fr by (intro sys_invI) (simp_all add: sys_inv_def)
  then show ?thesis using d(1) p rm(2) by (intro exI [of _ ?y]) simp
qed

lemma sys_inv_claim:
  assumes inv: "sys_inv y vss dl" and l: "Suc (length vss) < 2 ^ 64" "0 < y_handles y"
  shows "\<exists>y' vss'. mpsc_op K S claim MClaim y = Some y' \<and> sys_inv y' vss' dl \<and> length vss' \<le> Suc (length vss)
     \<and> length (y_own y') \<le> Suc (length (y_own y)) \<and> y_handles y' = y_handles y"
proof -
  let ?m = "y_m y" and ?A = "set (r_shards (y_rx y)) \<union> waiting_in (y_m y)"
  have rep: "rings_rep ?m vss" "minv ?m (r_shards (y_rx y))" using inv by (simp_all add: sys_inv_def)
  obtain t m' n where c: "claim ?m = Some (t, m')" "n \<le> 1" "rings_rep m' (vss @ replicate n [])" "minv m' (r_shards (y_rx y))"
    "set (r_shards (y_rx y)) \<union> waiting_in m' = ?A \<union> set_option t" "free_in m' = free_in ?m - set_option t"
    "m_live m' = m_live ?m + (if t = None then 0 else 1)"
    "\<forall>p\<in>set_option t. (p \<in> free_in ?m \<or> p \<notin> ?A) \<and> (p < length vss \<longrightarrow> vss ! p = []) \<and> halves_of m' p = (False, False, 2)"
    "\<forall>k\<in>?A - set_option t. halves_of m' k = halves_of ?m k"
    using claim [OF rep l(1)] by (elim exE conjE) (rule that)
  define own where "own = y_own y @ (case t of None \<Rightarrow> [] | Some p \<Rightarrow> [p])"
  let ?y = "y\<lparr>y_m := m', y_own := own\<rparr>" and ?vss = "vss @ replicate n []"
  have iown: "set (y_own y) \<subseteq> ?A" "set (y_own y) \<inter> free_in ?m = {}" "distinct (y_own y)" using inv by (auto simp: sys_inv_def)
  have so: "set own = set (y_own y) \<union> set_option t" "distinct own" "length own = length (y_own y) + (if t = None then 0 else 1)"
    using c(8) iown by (auto simp: own_def split: option.splits)
  have live: "m_live m' = of_nat (length own + y_handles y)" using inv c(7) so(3) by (simp add: sys_inv_def add.commute add.left_commute)
  have fifo: "from_producer p dl @ ?vss ! p = from_producer p (y_acc y)" if "p < length ?vss" for p
  proof (cases "p < length vss")
    case False
    have "\<forall>x\<in>set dl \<union> set (y_acc y). fst x \<noteq> p" using inv False by (auto simp: sys_inv_def)
    then show ?thesis using False that by (simp add: from_producer_def nth_append filter_False)
  qed (use inv in \<open>simp add: sys_inv_def nth_append\<close>)
  have ne: "p \<in> ?A \<union> set_option t" if "p < length ?vss" "?vss ! p \<noteq> []" for p
    using inv that by (auto simp: sys_inv_def nth_append split: if_splits)
  have hv: "p \<in> ?A \<union> set_option t \<and> halves_of m' p = (False, False, 2)" if "p \<in> set own" for p
  proof (cases "p \<in> set_option t")
    case False
    then have "p \<in> set (y_own y)" using that so(1) by blast
    then show ?thesis using inv c(9) False by (auto simp: sys_inv_def)
  qed (use c(8) in simp)
  have orph: "orphan m' p" if "removes" "p \<in> ?A \<union> set_option t - set own" for p
  proof -
    have p: "p \<in> ?A - set_option t" "p \<notin> set (y_own y)" using that so(1) by auto
    have "orphan ?m p" using sys_inv_orphan [OF inv that(1)] p by blast
    then show ?thesis using c(9) p(1) halves_of_orphan by blast
  qed
  have fr: "set own \<inter> free_in m' = {}" using c(6) so(1) iown(2) by auto
  have "\<forall>x\<in>set dl \<union> set (y_acc y). fst x < length vss" using inv by (simp add: sys_inv_def)
  then have accs: "\<And>x. x \<in> set dl \<union> set (y_acc y) \<Longrightarrow> fst x < length ?vss" by (simp add: trans_less_add1)
  have "sys_inv ?y ?vss dl"
    using inv c(3,4) live fifo ne hv orph fr accs so(2) c(5) by (intro sys_invI) (simp_all add: sys_inv_def)
  moreover have "mpsc_op K S claim MClaim y = Some ?y" using l(2) c(1) by (simp add: own_def)
  ultimately show ?thesis using c(2) so(3) by (intro exI [of _ ?y] exI [of _ ?vss]) simp
qed

lemma sys_inv_handles:
  assumes inv: "sys_inv y vss dl" and m': "m' = (y_m y)\<lparr>m_live := of_nat (length (y_own y) + h), m_notifier := n\<rparr>"
  shows "sys_inv (y\<lparr>y_m := m', y_handles := h\<rparr>) vss dl"
proof -
  have rep: "minv (y_m y) (r_shards (y_rx y))" using inv by (simp add: sys_inv_def)
  have "kept (set (r_shards (y_rx y)) \<union> waiting_in (y_m y) - free_in (y_m y)) (y_m y) m'" by (simp add: m')
  note da = data [OF rep this]
  have o: "orphan m' k = orphan (y_m y) k" "halves_of m' k = halves_of (y_m y) k" for k by (simp_all add: m')
  show ?thesis using inv da m' sys_inv_orphan [OF inv] o by (intro sys_invI) (simp_all add: sys_inv_def)
qed

lemma sys_inv_clone:
  assumes "sys_inv y vss dl"
  shows "sys_inv (y\<lparr>y_m := shared_inc (y_m y), y_handles := y_handles y + 1\<rparr>) vss dl"
proof -
  have "shared_inc (y_m y) = (y_m y)\<lparr>m_live := of_nat (length (y_own y) + (y_handles y + 1)), m_notifier := m_notifier (y_m y)\<rparr>"
    using assms by (cases "y_m y") (simp add: shared_inc_def sys_inv_def)
  then show ?thesis by (rule sys_inv_handles [OF assms])
qed

lemma sys_inv_unclone:
  assumes "sys_inv y vss dl" "0 < y_handles y"
  shows "sys_inv (y\<lparr>y_m := shared_release K (y_m y), y_handles := y_handles y - 1\<rparr>) vss dl"
proof -
  obtain n where "shared_release K (y_m y) = (y_m y)\<lparr>m_live := m_live (y_m y) - 1, m_notifier := n\<rparr>" using shared_release_eq [of K "y_m y"] by blast
  moreover have "m_live (y_m y) - 1 = of_nat (length (y_own y) + (y_handles y - 1))"
    using assms by (cases "y_handles y") (simp_all add: sys_inv_def)
  ultimately have "shared_release K (y_m y) = (y_m y)\<lparr>m_live := of_nat (length (y_own y) + (y_handles y - 1)), m_notifier := n\<rparr>" by simp
  then show ?thesis by (rule sys_inv_handles [OF assms(1)])
qed

lemma sys_inv_recv:
  assumes inv: "sys_inv y vss dl"
  shows "\<exists>y' vss' dl'. mpsc_op K S claim MRecv y = Some y' \<and> sys_inv y' vss' dl' \<and> length vss' = length vss \<and> y_own y' = y_own y \<and> y_handles y' = y_handles y"
proof -
  have rep: "rings_rep (y_m y) vss" "minv (y_m y) (r_shards (y_rx y))" "r_batch (y_rx y) \<noteq> 0" using inv by (simp_all add: sys_inv_def)
  obtain m' rx' vss' dl' where r: "mp_try_recv K S (y_m y) (y_rx y) = Some (case r_staging (y_rx y) @ map snd dl' of [] \<Rightarrow> None | v # _ \<Rightarrow> Some v, m', rx')"
    "received (y_m y) (r_shards (y_rx y)) vss m' (r_shards rx') vss' dl'" "r_batch rx' = r_batch (y_rx y)" "r_staging rx' = tl (r_staging (y_rx y) @ map snd dl')"
    using mp_try_recv_spec [OF rep, of K] by (elim exE conjE) (rule that)
  let ?got = "case r_staging (y_rx y) @ map snd dl' of [] \<Rightarrow> [] | v # _ \<Rightarrow> [v]"
  let ?y = "y\<lparr>y_m := m', y_rx := rx', y_del := y_del y @ ?got\<rparr>"
  have "?got @ r_staging rx' = r_staging (y_rx y) @ map snd dl'" using r(4) by (simp split: list.split)
  note i = sys_inv_received [OF inv r(2,3) this]
  have "mpsc_op K S claim MRecv y = Some ?y" using r(1) by (simp split: list.split)
  moreover have "length vss' = length vss" using r(2) by (simp add: received_def)
  ultimately show ?thesis using i by (intro exI [of _ ?y] exI [of _ vss'] exI [of _ "dl @ dl'"]) simp
qed

lemma sys_inv_recv_many:
  assumes inv: "sys_inv y vss dl"
  shows "\<exists>y' vss' dl'. mpsc_op K S claim (MRecvMany mx) y = Some y' \<and> sys_inv y' vss' dl' \<and> length vss' = length vss \<and> y_own y' = y_own y \<and> y_handles y' = y_handles y"
proof -
  have rep: "rings_rep (y_m y) vss" "minv (y_m y) (r_shards (y_rx y))" using inv by (simp_all add: sys_inv_def)
  obtain m' rx' vss' dl' got where r: "mp_try_recv_many K S (y_m y) (y_rx y) [] mx = Some (length got, m', rx', [] @ got)"
    "received (y_m y) (r_shards (y_rx y)) vss m' (r_shards rx') vss' dl'" "r_batch rx' = r_batch (y_rx y)" "got @ r_staging rx' = r_staging (y_rx y) @ map snd dl'"
    using mp_try_recv_many_spec [OF rep, of K "[]" mx] by (elim exE conjE) (rule that)
  let ?y = "y\<lparr>y_m := m', y_rx := rx', y_del := y_del y @ got\<rparr>"
  have "mpsc_op K S claim (MRecvMany mx) y = Some ?y" using r(1) by simp
  moreover have "length vss' = length vss" using r(2) by (simp add: received_def)
  ultimately show ?thesis using sys_inv_received [OF inv r(2-4)] by (intro exI [of _ ?y] exI [of _ vss'] exI [of _ "dl @ dl'"]) simp
qed

lemma sys_inv_set_batch: "sys_inv y vss dl \<Longrightarrow> sys_inv (y\<lparr>y_rx := mp_set_batch n (y_rx y)\<rparr>) vss dl"
proof -
  assume inv: "sys_inv y vss dl"
  have "max n 1 \<noteq> (0 :: usize)" by (metis max.cobounded2 word_le_0_iff zero_neq_one)
  then show ?thesis using inv sys_inv_orphan [OF inv] by (intro sys_invI) (simp_all add: sys_inv_def mp_set_batch_def)
qed

lemma sys_inv_step:
  assumes inv: "sys_inv y vss dl" and l: "Suc (length vss) < 2 ^ 64"
  shows "\<exists>y' vss' dl'. mpsc_op K S claim act y = Some y' \<and> sys_inv y' vss' dl' \<and> length vss' \<le> Suc (length vss)
     \<and> length (y_own y') + y_handles y' \<le> Suc (length (y_own y) + y_handles y)"
    (is "?step")
proof -
  have goal: ?step if "mpsc_op K S claim act y = Some y'" "sys_inv y' vss' dl'" "length vss' \<le> Suc (length vss)"
    "length (y_own y') + y_handles y' \<le> Suc (length (y_own y) + y_handles y)" for y' vss' dl' using that by blast
  have nop: ?step if "mpsc_op K S claim act y = Some y" by (rule goal [OF that inv]) simp_all
  show ?step
  proof (cases act)
    case (MSend p v)
    show ?thesis
    proof (cases "p \<in> set (y_own y)")
      case True
      then show ?thesis using sys_inv_send [OF inv, of p K v] goal unfolding MSend by (metis le_SucI order_refl)
    qed (use nop MSend in simp)
  next
    case (MDrop p)
    show ?thesis
    proof (cases "p \<in> set (y_own y)")
      case True
      then obtain y' where "mpsc_op K S claim (MDrop p) y = Some y'" "sys_inv y' vss dl" "length (y_own y') < length (y_own y)" "y_handles y' = y_handles y"
        using sys_inv_drop [OF inv, of p K] by blast
      then show ?thesis unfolding MDrop by (intro exI [of _ y'] exI [of _ vss] exI [of _ dl]) simp
    qed (use nop MDrop in simp)
  next
    case MClaim
    show ?thesis
    proof (cases "0 < y_handles y")
      case True
      then show ?thesis using sys_inv_claim [OF inv l, of K] unfolding MClaim by (metis add_Suc add_le_mono1)
    qed (use nop MClaim in simp)
  next
    case MCloneHandle
    then show ?thesis using sys_inv_clone [OF inv] nop goal by (cases "0 < y_handles y") fastforce+
  next
    case MDropHandle
    then show ?thesis using sys_inv_unclone [OF inv, of K] nop goal by (cases "0 < y_handles y") fastforce+
  next
    case MRecv
    then show ?thesis using sys_inv_recv [OF inv, of K] by (metis le_SucI order_refl)
  next
    case (MRecvMany mx)
    then show ?thesis using sys_inv_recv_many [OF inv, of K mx] by (metis le_SucI order_refl)
  next
    case (MSetBatch n)
    then show ?thesis using sys_inv_set_batch [OF inv, of n] goal by fastforce
  qed
qed

lemma sys_inv_run:
  assumes "sys_inv y vss dl" "length vss + length acts < 2 ^ 64" "length (y_own y) + y_handles y + length acts < 2 ^ 64"
  shows "\<exists>y' vss' dl'. mpsc_run K S claim acts y = Some y' \<and> sys_inv y' vss' dl' \<and> length (y_own y') + y_handles y' < 2 ^ 64"
  using assms
proof (induction acts arbitrary: y vss dl)
  case Nil
  then show ?case by auto
next
  case (Cons act acts)
  have "Suc (length vss) < 2 ^ 64" using Cons.prems(2) by simp
  then obtain y1 vss1 dl1 where s: "mpsc_op K S claim act y = Some y1" "sys_inv y1 vss1 dl1" "length vss1 \<le> Suc (length vss)"
    "length (y_own y1) + y_handles y1 \<le> Suc (length (y_own y) + y_handles y)" using sys_inv_step [OF Cons.prems(1)] by blast
  then show ?case using Cons.IH [OF s(2)] Cons.prems(2,3) by simp
qed

text \<open>What the invariant says of the logs, and what it says when the receiver finds nothing after the last sender has gone.\<close>

lemma sys_outcome:
  assumes inv: "sys_inv y vss dl" and l: "length (y_own y) + y_handles y < 2 ^ 64"
  shows "mpsc_fifo y dl" "disconnected (y_m y) \<longleftrightarrow> y_own y = [] \<and> y_handles y = 0"
    and "disconnected (y_m y) \<Longrightarrow> mp_try_recv K S (y_m y) (y_rx y) = Some (None, m', rx')
      \<Longrightarrow> removes \<or> unat (r_cursor (y_rx y)) + card (set (r_shards (y_rx y)) \<union> waiting_in (y_m y)) < 2 ^ 64 \<Longrightarrow> mpsc_complete y dl"
proof -
  have log: "map snd dl = y_del y @ r_staging (y_rx y)" using inv by (simp add: sys_inv_def)
  have far: "from_producer p dl = [] \<and> from_producer p (y_acc y) = []" if "\<not> p < length vss" for p
  proof -
    have "\<forall>x\<in>set dl \<union> set (y_acc y). fst x \<noteq> p" using inv that by (auto simp: sys_inv_def)
    then show ?thesis by (simp add: from_producer_def filter_False)
  qed
  have near: "from_producer p (y_acc y) = from_producer p dl @ vss ! p" if "p < length vss" for p using inv that by (simp add: sys_inv_def)
  have "\<exists>rest. from_producer p (y_acc y) = from_producer p dl @ rest" for p
    using far [of p] near [of p] by (cases "p < length vss") auto
  then show "mpsc_fifo y dl" using log by (simp add: mpsc_fifo_def)
  have "unat (m_live (y_m y)) = length (y_own y) + y_handles y" using inv unat_of_nat_usize [OF l] by (simp add: sys_inv_def)
  moreover have "m_live (y_m y) = 0 \<longleftrightarrow> unat (m_live (y_m y)) = 0" by (rule unsigned_eq_0_iff [symmetric])
  ultimately show dis: "disconnected (y_m y) \<longleftrightarrow> y_own y = [] \<and> y_handles y = 0" by (simp add: disconnected_def)
  assume d: "disconnected (y_m y)" and n: "mp_try_recv K S (y_m y) (y_rx y) = Some (None, m', rx')"
    and c: "removes \<or> unat (r_cursor (y_rx y)) + card (set (r_shards (y_rx y)) \<union> waiting_in (y_m y)) < 2 ^ 64"
  let ?A = "set (r_shards (y_rx y)) \<union> waiting_in (y_m y)"
  have rep: "rings_rep (y_m y) vss" "minv (y_m y) (r_shards (y_rx y))" "r_batch (y_rx y) \<noteq> 0" using inv by (simp_all add: sys_inv_def)
  have "if removes then \<forall>j\<in>?A. orphan (y_m y) j else unat (r_cursor (y_rx y)) + card ?A < 2 ^ 64"
    using c sys_inv_orphan [OF inv] dis d by (cases removes) simp_all
  then have "\<forall>j\<in>?A. vss ! j = []" by (rule mp_try_recv_none [OF rep n])
  then have "vss ! p = []" if "p < length vss" for p using inv that by (auto simp: sys_inv_def)
  then have "from_producer p dl = from_producer p (y_acc y)" for p using far [of p] near [of p] by (cases "p < length vss") auto
  moreover have "r_staging (y_rx y) = []" using n by (cases "r_staging (y_rx y)") (auto simp: mp_try_recv_def staging_pop_def)
  ultimately show "mpsc_complete y dl" using log by (simp add: mpsc_complete_def)
qed

lemma mpsc_run_outcome:
  assumes "sys_inv (mpsc_start own h m rx) vss []" "length vss + length acts < 2 ^ 64" "length own + h + length acts < 2 ^ 64"
  shows "\<exists>y dl. mpsc_run K S claim acts (mpsc_start own h m rx) = Some y \<and> mpsc_fifo y dl
     \<and> (disconnected (y_m y) \<longleftrightarrow> y_own y = [] \<and> y_handles y = 0) \<and> minv (y_m y) (r_shards (y_rx y))
     \<and> (\<forall>m' rx'. disconnected (y_m y) \<and> mp_try_recv K S (y_m y) (y_rx y) = Some (None, m', rx')
          \<and> (removes \<or> unat (r_cursor (y_rx y)) + card (set (r_shards (y_rx y)) \<union> waiting_in (y_m y)) < 2 ^ 64) \<longrightarrow> mpsc_complete y dl)"
proof -
  have "length (y_own (mpsc_start own h m rx)) + y_handles (mpsc_start own h m rx) + length acts < 2 ^ 64" using assms(3) by (simp add: mpsc_start_def)
  then obtain y vss' dl where r: "mpsc_run K S claim acts (mpsc_start own h m rx) = Some y" "sys_inv y vss' dl" "length (y_own y) + y_handles y < 2 ^ 64"
    using sys_inv_run [OF assms(1,2), of K] by blast
  moreover have "minv (y_m y) (r_shards (y_rx y))" using r(2) by (simp add: sys_inv_def)
  ultimately show ?thesis using sys_outcome [OF r(2,3)] by (intro exI [of _ y] exI [of _ dl] conjI allI impI) (assumption | blast)+
qed

end

section \<open>The tiers\<close>

lemma fixed_spawn_spec:
  assumes "rings_rep m vss" "unat capacity \<le> 2 ^ 63"
  shows "\<exists>m'. fixed_spawn K n capacity m = Some ([length vss..<length vss + n], m') \<and> rings_rep m' (vss @ replicate n []) \<and> m_live m' = m_live m + of_nat n
     \<and> m_state m' = m_state m \<and> (\<forall>k<length vss. m_rings m' ! k = m_rings m ! k) \<and> (\<forall>k<n. halves_of m' (length vss + k) = (False, False, 2))"
  using assms(1)
proof (induction n arbitrary: m vss)
  case (Suc n)
  obtain m1 where s: "spawn_ring K capacity m = Some (length vss, m1)" "rings_rep m1 (vss @ [[]])" "outside m1 = outside m" "m_state m1 = m_state m"
    "\<forall>k<length vss. m_rings m1 ! k = m_rings m ! k" "halves_of m1 (length vss) = (False, False, 2)" using spawn_ring_spec [OF Suc.prems assms(2), of K] by blast
  have "rings_rep (shared_inc m1) (vss @ [[]])" using s(2) by (simp add: shared_inc_def)
  then obtain m' where IH: "fixed_spawn K n capacity (shared_inc m1) = Some ([Suc (length vss)..<Suc (length vss) + n], m')" "rings_rep m' ((vss @ [[]]) @ replicate n [])"
    "m_live m' = m_live (shared_inc m1) + of_nat n" "m_state m' = m_state (shared_inc m1)" "\<forall>k<Suc (length vss). m_rings m' ! k = m_rings (shared_inc m1) ! k"
    "\<forall>k<n. halves_of m' (Suc (length vss) + k) = (False, False, 2)" using Suc.IH [of "shared_inc m1" "vss @ [[]]"] by auto
  have "halves_of m' (length vss + k) = (False, False, 2)" if "k < Suc n" for k
    using that IH(5,6) s(6) by (cases k) (auto simp: halves_of_def shared_inc_def)
  moreover have "fixed_spawn K (Suc n) capacity m = Some ([length vss..<length vss + Suc n], m')" using s(1) IH(1) by (simp add: upt_conv_Cons)
  ultimately show ?case using IH(2-5) s(3-5) by (auto simp: shared_inc_def)
qed auto

lemma pool_spawn_spec:
  assumes "rings_rep m vss" "unat capacity \<le> 2 ^ 63"
  shows "\<exists>m'. pool_spawn K n capacity m = Some ([length vss..<length vss + n], m') \<and> rings_rep m' (vss @ replicate n []) \<and> m_live m' = m_live m
     \<and> m_state m' = m_state m \<and> (\<forall>k<length vss. m_rings m' ! k = m_rings m ! k) \<and> (\<forall>k<n. halves_of m' (length vss + k) = (False, False, 2))"
  using assms(1)
proof (induction n arbitrary: m vss)
  case (Suc n)
  obtain m1 where s: "spawn_ring K capacity m = Some (length vss, m1)" "rings_rep m1 (vss @ [[]])" "outside m1 = outside m" "m_state m1 = m_state m"
    "\<forall>k<length vss. m_rings m1 ! k = m_rings m ! k" "halves_of m1 (length vss) = (False, False, 2)" using spawn_ring_spec [OF Suc.prems assms(2), of K] by blast
  obtain m' where IH: "pool_spawn K n capacity m1 = Some ([Suc (length vss)..<Suc (length vss) + n], m')" "rings_rep m' ((vss @ [[]]) @ replicate n [])"
    "m_live m' = m_live m1" "m_state m' = m_state m1" "\<forall>k<Suc (length vss). m_rings m' ! k = m_rings m1 ! k"
    "\<forall>k<n. halves_of m' (Suc (length vss) + k) = (False, False, 2)" using Suc.IH [OF s(2)] by auto
  have "halves_of m' (length vss + k) = (False, False, 2)" if "k < Suc n" for k
    using that IH(5,6) s(6) by (cases k) (auto simp: halves_of_def)
  moreover have "pool_spawn K (Suc n) capacity m = Some ([length vss..<length vss + Suc n], m')" using s(1) IH(1) by (simp add: upt_conv_Cons)
  ultimately show ?case using IH(2-5) s(3-5) by auto
qed auto

lemma rings_rep_empty: "rings_rep (build_shared K st) []"
  by (simp add: rings_rep_def build_shared_def)

lemma make_receiver_sel [simp]: "r_shards (make_receiver is) = is" "r_staging (make_receiver is) = []" "r_batch (make_receiver is) \<noteq> 0"
  by (simp_all add: make_receiver_def DEFAULT_BATCH_def)


lemma pool_slots_new_bits: "length is \<le> 64 \<Longrightarrow> bit (pool_free (pool_slots_new is)) i \<longleftrightarrow> i < length is"
proof -
  assume l: "length is \<le> 64"
  have "pool_free (pool_slots_new is) = mask (length is)"
  proof (cases "length is = 64")
    case True
    have "mask 64 = (- 1 :: u64)" by (rule bit_word_eqI) (simp add: bit_mask_iff)
    then show ?thesis using True by (simp add: pool_slots_new_def)
  next
    case False
    then show ?thesis using l by (simp add: pool_slots_new_def mask_eq_exp_minus_1)
  qed
  then show ?thesis using l by (auto simp: bit_mask_iff)
qed

lemma pool_open_inv:
  fixes K :: "('n, 'sp, 'w) Kernel"
  assumes "unat capacity \<le> 2 ^ 63" "1 \<le> n_max" "n_max \<le> 64"
  shows "\<exists>m :: ('a, 'n, 'sp, PoolSlots) Mpsc. pool_open K n_max capacity = Some (m, make_receiver [0..<unat n_max])
     \<and> rings_rep m (replicate (unat n_max) []) \<and> pool_inv m [0..<unat n_max] \<and> m_live m = 1"
proof -
  let ?n = "unat n_max" and ?st = "pool_slots_new []"
  have n: "?n \<le> 64" using assms(3) by (simp add: word_le_nat_alt)
  obtain m0 :: "('a, 'n, 'sp, PoolSlots) Mpsc" where s: "pool_spawn K ?n capacity (build_shared K ?st) = Some ([0..<?n], m0)" "rings_rep m0 (replicate ?n [])"
    "m_live m0 = m_live (build_shared K ?st :: ('a, 'n, 'sp, PoolSlots) Mpsc)" "\<forall>k<?n. halves_of m0 k = (False, False, 2)"
    using pool_spawn_spec [OF rings_rep_empty assms(1), of K ?n K ?st] by auto
  let ?m = "shared_inc (m0\<lparr>m_state := pool_slots_new [0..<?n]\<rparr>)"
  have op: "pool_open K n_max capacity = Some (?m, make_receiver [0..<?n])" using s(1) assms(2,3) by (simp add: pool_open_def)
  have len: "length (m_rings m0) = ?n" using s(2) by (simp add: rings_rep_def)
  have sel: "m_rings ?m = m_rings m0" "m_state ?m = pool_slots_new [0..<?n]" "m_spaces ?m = m_spaces m0" "m_live ?m = 1"
    using s(3) by (simp_all add: shared_inc_def build_shared_def)
  have free: "pool_free_in ?m = {..<?n}" using pool_slots_new_bits [of "[0..<?n]"] n by (auto simp: pool_free_in_def sel)
  have hv: "halves_of ?m k = halves_of m0 k" for k by (simp add: halves_of_def sel)
  have "\<not> consumer_gone (m_rings m0 ! k)" if "k < ?n" for k using s(4) that by (simp add: halves_of_def)
  then have "pool_inv ?m [0..<?n]"
    unfolding pool_inv_def free using s(2,4) n len hv by (simp add: sel rings_rep_def) (simp add: pool_slots_new_def)
  moreover have "rings_rep ?m (replicate ?n [])" using s(2) unfolding rings_rep_def sel .
  ultimately show ?thesis using op sel(4) by blast
qed



text \<open>Runs that the theorems apply to: two producers, or two registrations, with a value each and a receiver that takes them.\<close>

abbreviation sync_kernel :: "(bool, unit, unit) Kernel" where
  "sync_kernel \<equiv> blocking_kernel"




end
