(* ===== verification/Mpsc_Async.thy ===== *)
theory Mpsc_Async
  imports Mpsc_System
begin

text \<open>
  The asynchronous receiver and the asynchronous batch sender: when a poll may report \<open>Pending\<close>, and which wakes follow.
\<close>

section \<open>A pass that misses a shard\<close>

declare mp_recv_loop.simps(2) [simp del]

lemma fixed_quiet_round:
  assumes "rings_rep m vss" "shards_in m (r_shards rx)" "r_staging rx = []" "r_batch rx \<noteq> 0" "r_shards rx \<noteq> []" "vss ! (r_shards rx ! at_cursor rx) = []"
  shows "\<exists>m' rx'. (\<forall>n. mp_recv_loop K (fixed_state K) (Suc n) m rx = (if r_shards rx' = [] then Some (None, m', rx') else mp_recv_loop K (fixed_state K) n m' rx'))
     \<and> rings_rep m' vss \<and> shards_in m' (r_shards rx') \<and> r_staging rx' = [] \<and> r_batch rx' = r_batch rx \<and> outside m' = outside m
     \<and> (if orphan m (r_shards rx ! at_cursor rx) then r_shards rx' = swap_remove (at_cursor rx) (r_shards rx) \<and> r_cursor rx' = r_cursor rx
        else r_shards rx' = r_shards rx \<and> r_cursor rx' = r_cursor rx + 1)
     \<and> (\<forall>k\<in>set (r_shards rx'). k < length vss \<longrightarrow> halves_of m' k = halves_of m k)"
  using assms(1-5)
proof (cases rule: fixed.recv_round [where K = K and Ka = K])
  case (got dl m' vss')
  then show ?thesis using assms(6) by simp
next
  case (pass m' rx')
  have "\<forall>k\<in>set (r_shards rx'). k < length vss \<longrightarrow> halves_of m' k = halves_of m k" using pass(2) by (auto simp: fixed.received_def)
  moreover have "rings_rep m' vss" "shards_in m' (r_shards rx')" "outside m' = outside m" using pass(2) by (simp_all add: fixed.received_def)
  moreover have "if orphan m (r_shards rx ! at_cursor rx) then r_shards rx' = swap_remove (at_cursor rx) (r_shards rx) \<and> r_cursor rx' = r_cursor rx
      else r_shards rx' = r_shards rx \<and> r_cursor rx' = r_cursor rx + 1" using pass(7) unfolding simp_thms .
  ultimately show ?thesis using pass(4-6) by blast
qed

definition quiet :: "('a, 'n, 'sp, unit) Mpsc \<Rightarrow> 'a MReceiver \<Rightarrow> 'a list list \<Rightarrow> nat list \<Rightarrow> usize \<Rightarrow> bool" where
  "quiet m rx vss sh c \<longleftrightarrow> rings_rep m vss \<and> shards_in m sh \<and> r_shards rx = sh \<and> r_staging rx = [] \<and> r_batch rx \<noteq> 0 \<and> r_cursor rx = c"

lemma quiet_step:
  assumes "quiet m rx vss sh c" "sh \<noteq> []" "unat c mod length sh = i" "vss ! (sh ! i) = []"
    "if orphan m (sh ! i) then sh' = swap_remove i sh \<and> c' = c else sh' = sh \<and> c' = c + 1" "sh' \<noteq> []"
  shows "\<exists>m' rx'. (\<forall>n. mp_recv_loop K (fixed_state K) (Suc n) m rx = mp_recv_loop K (fixed_state K) n m' rx')
     \<and> quiet m' rx' vss sh' c' \<and> outside m' = outside m \<and> (\<forall>k\<in>set sh'. halves_of m' k = halves_of m k)"
proof -
  have q: "rings_rep m vss" "shards_in m (r_shards rx)" "r_staging rx = []" "r_batch rx \<noteq> 0" "r_shards rx \<noteq> []" "r_shards rx = sh" "r_cursor rx = c"
    using assms(1,2) by (auto simp: quiet_def)
  have at: "at_cursor rx = i" using at_cursor_eq [of rx] q(2,6,7) assms(3) by (simp add: shards_in_def)
  obtain m' rx' where r: "\<forall>n. mp_recv_loop K (fixed_state K) (Suc n) m rx = (if r_shards rx' = [] then Some (None, m', rx') else mp_recv_loop K (fixed_state K) n m' rx')"
     "rings_rep m' vss" "shards_in m' (r_shards rx')" "r_staging rx' = []" "r_batch rx' = r_batch rx" "outside m' = outside m"
     "if orphan m (sh ! i) then r_shards rx' = swap_remove i sh \<and> r_cursor rx' = c else r_shards rx' = sh \<and> r_cursor rx' = c + 1"
     "\<forall>k\<in>set (r_shards rx'). k < length vss \<longrightarrow> halves_of m' k = halves_of m k"
    using fixed_quiet_round [OF q(1-5), of K] unfolding at q(6,7) using assms(4) by blast
  have sh': "r_shards rx' = sh'" "r_cursor rx' = c'" using r(7) assms(5) by (auto split: if_splits)
  have "\<forall>k\<in>set sh'. k < length vss" using r(2,3) sh'(1) by (auto simp: shards_in_def rings_rep_def)
  then show ?thesis using r sh' assms(6) q(4) by (intro exI [of _ m'] exI [of _ rx']) (simp add: quiet_def)
qed

text \<open>
  Three shards and the cursor at 1: when all are empty, a pass visits each of them and leaves the cursor at 4. When the
  last one has then been left by its producer, the next pass visits the second shard, removes the third and visits the
  second again, whatever the first one holds.
\<close>

lemma quiet_pass:
  assumes "quiet m rx [[], [], []] [0, 1, 2] 1" "\<forall>k<3. \<not> orphan m k"
  shows "\<exists>m' rx'. mp_recv_loop K (fixed_state K) 3 m rx = Some (None, m', rx') \<and> quiet m' rx' [[], [], []] [0, 1, 2] 4
     \<and> outside m' = outside m \<and> (\<forall>k<3. halves_of m' k = halves_of m k)"
proof -
  have o: "\<not> orphan m 0" "\<not> orphan m 1" "\<not> orphan m 2" using assms(2) by simp_all
  obtain m1 rx1 where s1: "\<forall>n. mp_recv_loop K (fixed_state K) (Suc n) m rx = mp_recv_loop K (fixed_state K) n m1 rx1"
    "quiet m1 rx1 [[], [], []] [0, 1, 2] 2" "outside m1 = outside m" "\<forall>k\<in>{0, 1, 2}. halves_of m1 k = halves_of m k"
    using quiet_step [OF assms(1), of 1 "[0, 1, 2]" 2 K] o by auto
  obtain m2 rx2 where s2: "\<forall>n. mp_recv_loop K (fixed_state K) (Suc n) m1 rx1 = mp_recv_loop K (fixed_state K) n m2 rx2"
    "quiet m2 rx2 [[], [], []] [0, 1, 2] 3" "outside m2 = outside m1" "\<forall>k\<in>{0, 1, 2}. halves_of m2 k = halves_of m1 k"
    using quiet_step [OF s1(2), of 2 "[0, 1, 2]" 3 K] o s1(4) halves_of_orphan [of m1 _ m] by auto
  obtain m3 rx3 where s3: "\<forall>n. mp_recv_loop K (fixed_state K) (Suc n) m2 rx2 = mp_recv_loop K (fixed_state K) n m3 rx3"
    "quiet m3 rx3 [[], [], []] [0, 1, 2] 4" "outside m3 = outside m2" "\<forall>k\<in>{0, 1, 2}. halves_of m3 k = halves_of m2 k"
    using quiet_step [OF s2(2), of 0 "[0, 1, 2]" 4 K] o s1(4) s2(4) halves_of_orphan [of m2 _ m] by auto
  have "mp_recv_loop K (fixed_state K) 3 m rx = mp_recv_loop K (fixed_state K) 0 m3 rx3" using s1(1) s2(1) s3(1) by (metis numeral_3_eq_3)
  moreover have "staging_pop rx3 = (None, rx3)" using s3(2) by (simp add: quiet_def staging_pop_def)
  ultimately have "mp_recv_loop K (fixed_state K) 3 m rx = Some (None, m3, rx3)" by simp
  moreover have "\<forall>k<3. halves_of m3 k = halves_of m k" using s1(4) s2(4) s3(4) by (simp add: numeral_3_eq_3 less_Suc_eq numeral_2_eq_2)
  ultimately show ?thesis using s3(2,3) s2(3) s1(3) by auto
qed

lemma missing_pass:
  assumes "quiet m rx [[v], [], []] [0, 1, 2] 4" "\<not> orphan m 1" "orphan m 2"
  shows "\<exists>m' rx'. mp_recv_loop K (fixed_state K) 3 m rx = Some (None, m', rx') \<and> rings_rep m' [[v], [], []] \<and> outside m' = outside m"
proof -
  obtain m1 rx1 where s1: "\<forall>n. mp_recv_loop K (fixed_state K) (Suc n) m rx = mp_recv_loop K (fixed_state K) n m1 rx1"
    "quiet m1 rx1 [[v], [], []] [0, 1, 2] 5" "outside m1 = outside m" "\<forall>k\<in>{0, 1, 2}. halves_of m1 k = halves_of m k"
    using quiet_step [OF assms(1), of 1 "[0, 1, 2]" 5 K] assms(2) by auto
  have sr: "swap_remove 2 [0, 1, 2] = [0, 1 :: nat]" by (simp add: swap_remove_def)
  have o: "orphan m1 2" "\<not> orphan m1 1" using s1(4) assms(2,3) halves_of_orphan [of m1 _ m] by auto
  obtain m2 rx2 where s2: "\<forall>n. mp_recv_loop K (fixed_state K) (Suc n) m1 rx1 = mp_recv_loop K (fixed_state K) n m2 rx2"
    "quiet m2 rx2 [[v], [], []] [0, 1] 5" "outside m2 = outside m1" "\<forall>k\<in>{0, 1}. halves_of m2 k = halves_of m1 k"
    using quiet_step [OF s1(2), of 2 "[0, 1]" 5 K] o sr by auto
  have "\<not> orphan m2 1" "unat (5 :: usize) mod length [0, 1 :: nat] = 1" using s2(4) o(2) halves_of_orphan [of m2 1 m1] by (auto simp: numeral_2_eq_2 [symmetric])
  then obtain m3 rx3 where s3: "\<forall>n. mp_recv_loop K (fixed_state K) (Suc n) m2 rx2 = mp_recv_loop K (fixed_state K) n m3 rx3"
    "quiet m3 rx3 [[v], [], []] [0, 1] 6" "outside m3 = outside m2" using quiet_step [OF s2(2), of 1 "[0, 1]" 6 K] by auto
  have "mp_recv_loop K (fixed_state K) 3 m rx = mp_recv_loop K (fixed_state K) 0 m3 rx3" using s1(1) s2(1) s3(1) by (metis numeral_3_eq_3)
  moreover have "staging_pop rx3 = (None, rx3)" using s3(2) by (simp add: quiet_def staging_pop_def)
  ultimately have "mp_recv_loop K (fixed_state K) 3 m rx = Some (None, m3, rx3)" by simp
  moreover have "rings_rep m3 [[v], [], []]" using s3(2) by (simp add: quiet_def)
  ultimately show ?thesis using s3(3) s2(3) s1(3) by auto
qed

lemma quiet_try_recv:
  assumes "quiet m rx vss [0, 1, 2] c"
  shows "mp_try_recv K (fixed_state K) m rx = mp_recv_loop K (fixed_state K) 3 m rx"
  using assms by (simp add: mp_try_recv_def staging_pop_def refresh_membership_def fixed_state_def quiet_def numeral_3_eq_3)

lemma shards_in_kept: "shards_in m shards \<Longrightarrow> length (m_rings m') = length (m_rings m) \<Longrightarrow> shards_in m' shards"
  by (simp add: shards_in_def)

lemma ring_rep_cap: "ring_rep r vs \<Longrightarrow> 0 < unat (cap r)"
proof -
  assume "ring_rep r vs"
  then obtain k H T HC TC where "ring_at k H T HC TC r vs" by (rule ring_repE)
  then show ?thesis using ring_at_cap by force
qed

text \<open>A producer sends and another one leaves.\<close>

definition send_and_leave :: "('n, 'sp, 'w) Kernel \<Rightarrow> 'a \<Rightarrow> ('a, 'n, 'sp, 'st) Mpsc \<Rightarrow> ('a, 'n, 'sp, 'st) Mpsc" where
  "send_and_leave K v m =
     (case do { (_, m) \<leftarrow> mp_try_send K m 0 v; mp_drop_producer K m 2 } of None \<Rightarrow> m | Some m \<Rightarrow> m)"

lemma send_and_leave_spec:
  assumes "rings_rep m [[], [], []]" "halves_of m 0 = (False, False, 2)" "halves_of m 2 = (False, False, 2)"
  shows "rings_rep (send_and_leave K v m) [[v], [], []]" "m_live (send_and_leave K v m) = m_live m - 1"
    "length (m_rings (send_and_leave K v m)) = length (m_rings m)"
    "orphan (send_and_leave K v m) 2" "halves_of (send_and_leave K v m) 1 = halves_of m 1"
proof -
  have r0: "ring_rep (m_rings m ! 0) []" using rings_rep_nth [OF assms(1), of 0] by simp
  obtain m1 where s: "mp_try_send K m 0 v = Some (Ok (), m1)" "rings_rep m1 [[v], [], []]" "kept UNIV m m1" "m_live m1 = m_live m" "\<forall>k. halves_of m1 k = halves_of m k"
    using mp_try_send_spec [OF assms(1) _ assms(2), of UNIV K v] ring_rep_cap [OF r0] by auto
  have h2: "halves_of m1 2 = (False, False, 2)" using s(5) assms(3) by simp
  obtain m2 where d: "mp_drop_producer K m1 2 = Some m2" "rings_rep m2 [[v], [], []]" "kept UNIV m1 m2" "m_live m2 = m_live m1 - 1" "orphan m2 2"
    "\<forall>k. k \<noteq> 2 \<longrightarrow> halves_of m2 k = halves_of m1 k" using mp_drop_producer_spec [OF s(2) _ h2, of UNIV K] by auto
  have e: "send_and_leave K v m = m2" using s(1) d(1) by (simp add: send_and_leave_def)
  show "rings_rep (send_and_leave K v m) [[v], [], []]" "m_live (send_and_leave K v m) = m_live m - 1" "length (m_rings (send_and_leave K v m)) = length (m_rings m)"
    "orphan (send_and_leave K v m) 2" "halves_of (send_and_leave K v m) 1 = halves_of m 1"
    unfolding e using s d by (simp_all add: kept_def)
qed

text \<open>The channel after its first value: three producers, an empty channel, the cursor at 1.\<close>

lemma fixed_first_value:
  fixes K :: "('n, 'sp, 'w) Kernel" and u :: 'a
  shows "\<exists>m0 m1 m rx. fixed_open K 3 4 = Some ([0, 1, 2], m0, make_receiver [0, 1, 2]) \<and> mp_try_send K m0 0 u = Some (Ok (), m1)
     \<and> mp_try_recv K (fixed_state K) m1 (make_receiver [0, 1, 2]) = Some (Some u, m, rx)
     \<and> quiet m rx [[], [], []] [0, 1, 2] 1 \<and> m_live m = 3 \<and> (\<forall>k<3. halves_of m k = (False, False, 2))"
proof -
  obtain m0 :: "('a, 'n, 'sp, unit) Mpsc" where s: "fixed_spawn K 3 4 (build_shared K ()) = Some ([0..<3], m0)" "rings_rep m0 (replicate 3 [])"
    "m_live m0 = m_live (build_shared K () :: ('a, 'n, 'sp, unit) Mpsc) + of_nat 3" "\<forall>k<3. halves_of m0 k = (False, False, 2)"
    using fixed_spawn_spec [OF rings_rep_empty, of 4 K 3 K "()"] by auto
  have three: "[0..<3] = [0, 1, 2 :: nat]" "replicate 3 ([] :: 'a list) = [[], [], []]" by (simp_all add: upt_rec numeral_3_eq_3)
  have op: "fixed_open K 3 4 = Some ([0, 1, 2], m0, make_receiver [0, 1, 2])" using s(1) three(1) by (simp add: fixed_open_def)
  have rep0: "rings_rep m0 [[], [], []]" using s(2) three(2) by simp
  have r0: "ring_rep (m_rings m0 ! 0) []" using rings_rep_nth [OF rep0, of 0] by simp
  obtain m1 where t: "mp_try_send K m0 0 u = Some (Ok (), m1)" "rings_rep m1 [[u], [], []]" "kept UNIV m0 m1" "m_live m1 = m_live m0" "\<forall>k. halves_of m1 k = halves_of m0 k"
    using mp_try_send_spec [OF rep0 _ _ UNIV_I, of 0 K u] s(4) ring_rep_cap [OF r0] by auto
  let ?rx = "make_receiver [0, 1, 2] :: 'a MReceiver"
  have len: "length (m_rings m1) = 3" using t(2) by (simp add: rings_rep_def)
  have sh: "shards_in m1 (r_shards ?rx)" using len by (simp add: shards_in_def)
  have at: "at_cursor ?rx = 0" by (simp add: at_cursor_def make_receiver_def)
  have rx: "r_staging ?rx = []" "r_batch ?rx \<noteq> 0" "r_shards ?rx \<noteq> []" by simp_all
  from t(2) sh rx show ?thesis
  proof (cases rule: fixed.recv_round [where K = K and Ka = K])
    case (got dl m vss')
    have f: "rings_rep m vss'" "shards_in m [0, 1, 2]" "outside m = outside m1" "length vss' = 3" "\<forall>x\<in>set dl. fst x < 3"
      "\<forall>j<3. from_producer j dl @ vss' ! j = [[u], [], []] ! j" "\<forall>k<3. halves_of m k = halves_of m1 k \<or> orphan m1 k"
      using got(3) unfolding fixed.received_def make_receiver_sel by (simp_all add: numeral_3_eq_3) blast
    have fifo: "from_producer j dl @ vss' ! j = [[u], [], []] ! j" if "j < 3" for j using f(6) that by blast
    obtain x xs where dl: "dl = x # xs" using got(2) by (cases dl) auto
    have no: "from_producer 1 dl = []" "from_producer 2 dl = []" using fifo [of 1] fifo [of 2] by (simp_all add: numeral_2_eq_2)
    have z: "\<forall>y\<in>set dl. fst y = 0" using no f(5) by (auto simp: from_producer_def filter_empty_conv numeral_3_eq_3 less_Suc_eq numeral_2_eq_2)
    then have "from_producer 0 dl = map snd dl" by (simp add: from_producer_def)
    then have "map snd dl @ vss' ! 0 = [u]" using fifo [of 0] by simp
    then have one: "map snd dl = [u]" "vss' ! 0 = []" using dl by auto
    have "vss' ! j = []" if "j < 3" for j
    proof (cases "j = 0")
      case False
      then have "j = 1 \<or> j = 2" using that by linarith
      then show ?thesis using fifo [OF that] by auto
    qed (simp add: one(2))
    then have "vss' = replicate 3 []" using f(4) by (intro nth_equalityI) simp_all
    then have vss': "vss' = [[], [], []]" using three(2) by simp
    let ?rx' = "?rx\<lparr>r_staging := [], r_cursor := 1\<rparr>"
    have "mp_recv_loop K (fixed_state K) 3 m1 ?rx = Some (Some u, m, ?rx')"
      using got(5) [of 2] one(1) dl by (simp add: numeral_3_eq_3 numeral_2_eq_2 make_receiver_def)
    then have "mp_try_recv K (fixed_state K) m1 ?rx = Some (Some u, m, ?rx')"
      by (simp add: mp_try_recv_def staging_pop_def refresh_membership_def fixed_state_def numeral_3_eq_3)
    moreover have "quiet m ?rx' [[], [], []] [0, 1, 2] 1" using f(1,2) vss' by (simp add: quiet_def)
    moreover have "halves_of m k = (False, False, 2)" if "k < 3" for k
    proof -
      have "halves_of m1 k = (False, False, 2)" using t(5) s(4) that by simp
      then show ?thesis using f(7) that by (auto simp: halves_of_def)
    qed
    moreover have "m_live m = 3" using f(3) t(4) s(3) by (simp add: build_shared_def)
    ultimately show ?thesis using op t(1) by blast
  next
    case (pass m rx)
    then show ?thesis using at by simp
  qed
qed

text \<open>
  C17. The register-then-recheck of \<open>poll_recv\<close> can miss a value that was sent before the registration. With three producers:
  between the first pass and the registration the first producer sends and the third one leaves. The second pass removes
  the third shard, which changes what the cursor means, and so visits the second shard twice and the first one never. The
  poll returns \<open>Pending\<close> with a value buffered, and the task's flag is still up: no notification is under way.
\<close>

theorem fixed_poll_misses_value:
  fixes A :: "('k, 'w) AtomicWaker" and u :: 'a
  shows "\<exists>m0 m1 m rx m' rx'. fixed_open (task_kernel A) 3 4 = Some ([0, 1, 2], m0, make_receiver [0, 1, 2]) \<and> mp_try_send (task_kernel A) m0 0 u = Some (Ok (), m1)
     \<and> mp_try_recv (task_kernel A) (fixed_state (task_kernel A)) m1 (make_receiver [0, 1, 2]) = Some (Some u, m, rx)
     \<and> mp_poll_recv A (fixed_state (task_kernel A)) (send_and_leave (task_kernel A) v) (\<lambda>m. m) w m rx = Some (Pending, m', rx')
     \<and> shard_is_empty m' 0 = Some False \<and> waiting (m_notifier m') \<and> \<not> disconnected m'"
proof -
  let ?K = "task_kernel A"
  obtain m0 m1 m rx where o: "fixed_open ?K 3 4 = Some ([0, 1, 2], m0, make_receiver [0, 1, 2])" "mp_try_send ?K m0 0 u = Some (Ok (), m1)"
    "mp_try_recv ?K (fixed_state ?K) m1 (make_receiver [0, 1, 2]) = Some (Some u, m, rx)" "quiet m rx [[], [], []] [0, 1, 2] 1" "m_live m = 3"
    "\<forall>k<3. halves_of m k = (False, False, 2)" using fixed_first_value [of ?K u] by blast
  have "\<forall>k<3. \<not> orphan m k" using o(6) by (simp add: halves_of_def)
  then obtain m2 rx2 where p: "mp_recv_loop ?K (fixed_state ?K) 3 m rx = Some (None, m2, rx2)" "quiet m2 rx2 [[], [], []] [0, 1, 2] 4" "outside m2 = outside m"
    "\<forall>k<3. halves_of m2 k = halves_of m k" using quiet_pass [OF o(4), of ?K] by blast
  let ?m3 = "send_and_leave ?K v m2"
  let ?m4 = "?m3\<lparr>m_notifier := tw_arm A w (m_notifier ?m3)\<rparr>"
  have rep2: "rings_rep m2 [[], [], []]" "halves_of m2 0 = (False, False, 2)" "halves_of m2 2 = (False, False, 2)" using p(2,4) o(6) by (simp_all add: quiet_def)
  note sl = send_and_leave_spec [OF rep2, of ?K v]
  have "quiet ?m4 rx2 [[v], [], []] [0, 1, 2] 4" using p(2) sl(1,3) by (simp add: quiet_def shards_in_def)
  moreover have "orphan ?m4 2" "\<not> orphan ?m4 1" using sl(4,5) p(4) o(6) by (simp_all add: halves_of_def)
  ultimately obtain m' rx' where q: "mp_recv_loop ?K (fixed_state ?K) 3 ?m4 rx2 = Some (None, m', rx')" "rings_rep m' [[v], [], []]" "outside m' = outside ?m4"
    using missing_pass [of ?m4 rx2 v ?K] by blast
  have live: "\<not> disconnected m2" "\<not> disconnected m'" using p(3) q(3) o(5) sl(2) by (simp_all add: disconnected_def)
  have "mp_poll_recv A (fixed_state ?K) (send_and_leave ?K v) (\<lambda>m. m) w m rx = Some (Pending, m', rx')"
    using p(1) q(1) live quiet_try_recv [OF o(4), of ?K] quiet_try_recv [OF \<open>quiet ?m4 rx2 [[v], [], []] [0, 1, 2] 4\<close>, of ?K]
    by (simp add: mp_poll_recv_def Let_def)
  moreover have "shard_is_empty m' 0 = Some False"
    using ring_of_rep [OF q(2), of 0] ring_rep_empty_iff [OF rings_rep_nth [OF q(2), of 0]] by (simp add: shard_is_empty_def)
  moreover have "waiting (m_notifier m')" using q(3) by (simp add: tw_arm_def)
  ultimately show ?thesis using o(1-3) live(2) by blast
qed

section \<open>A policy that keeps its shards misses nothing\<close>

context membership
begin

lemma mp_recv_loop_cursor:
  assumes "rings_rep m vss" "minv m (r_shards rx)" "r_staging rx = []" "r_batch rx \<noteq> 0" "r_shards rx \<noteq> [] \<or> n = 0" "\<not> removes"
    "mp_recv_loop K S n m rx = Some (None, m', rx')"
  shows "r_shards rx' = r_shards rx \<and> r_cursor rx' = r_cursor rx + of_nat n \<and> r_staging rx' = [] \<and> r_batch rx' = r_batch rx
     \<and> rings_rep m' vss \<and> minv m' (r_shards rx)"
  using assms
proof (induction n arbitrary: m rx)
  case 0
  then show ?case by (auto simp: staging_pop_def)
next
  case (Suc n)
  have ne: "r_shards rx \<noteq> []" using Suc.prems(5) by simp
  from Suc.prems(1-4) ne show ?case
  proof (cases rule: recv_round [where K = K])
    case (got dl m' vss')
    then show ?thesis using Suc.prems(7) by simp
  next
    case (pass m2 rx2)
    have s2: "r_shards rx2 = r_shards rx" "r_cursor rx2 = r_cursor rx + 1" using pass(7) Suc.prems(6) by auto
    have inv2: "rings_rep m2 vss" "minv m2 (r_shards rx2)" "r_batch rx2 \<noteq> 0" using pass(2,5) Suc.prems(4) by (auto simp: received_def)
    have "mp_recv_loop K S n m2 rx2 = Some (None, m', rx')" using Suc.prems(7) pass(6) s2(1) ne by simp
    then show ?thesis using Suc.IH [OF inv2(1,2) pass(4) inv2(3) _ Suc.prems(6)] s2 ne pass(5) by (simp add: add.commute add.left_commute)
  qed
qed

text \<open>When \<open>try_recv\<close> of a keeping policy reports nothing, no shard holds anything, before or after.\<close>

lemma mp_try_recv_keeps:
  assumes inv: "rings_rep m vss" "minv m (r_shards rx)" "r_batch rx \<noteq> 0" and k: "\<not> removes" "waiting_in m = {}" "unat (r_cursor rx) + length (r_shards rx) < 2 ^ 64"
    and none: "mp_try_recv K S m rx = Some (None, m', rx')"
  shows "rings_rep m' vss \<and> minv m' (r_shards rx') \<and> (\<forall>j\<in>set (r_shards rx). vss ! j = []) \<and> r_shards rx' = r_shards rx \<and> r_batch rx' = r_batch rx
     \<and> unat (r_cursor rx') \<le> unat (r_cursor rx) + length (r_shards rx)"
proof -
  have st: "r_staging rx = []" using none by (cases "r_staging rx") (auto simp: mp_try_recv_def staging_pop_def)
  obtain m1 new where f: "refresh_membership S m rx = Some (m1, rx\<lparr>r_shards := r_shards rx @ new\<rparr>)" "set new = waiting_in m"
    "received m (r_shards rx) vss m1 (r_shards rx @ new) vss []" using refresh_spec [OF inv(1,2)] by blast
  have new: "new = []" "rx\<lparr>r_shards := r_shards rx @ new\<rparr> = rx" using f(2) k(2) by simp_all
  have inv1: "rings_rep m1 vss" "minv m1 (r_shards rx)" using f(3) new(1) by (auto simp: received_def)
  have em: "\<forall>j\<in>set (r_shards rx). vss ! j = []"
    using mp_try_recv_none [OF inv none] k card_length [of "r_shards rx"] by simp
  show ?thesis
  proof (cases "r_shards rx = []")
    case True
    then show ?thesis using none st f(1) new inv inv1 em by (auto simp: mp_try_recv_def staging_pop_def)
  next
    case False
    then have "mp_recv_loop K S (length (r_shards rx)) m1 rx = Some (None, m', rx')"
      using none st f(1) new by (simp add: mp_try_recv_def staging_pop_def)
    note c = mp_recv_loop_cursor [OF inv1 st inv(3) disjI1 [OF False] k(1) this]
    have "unat (of_nat (length (r_shards rx)) :: usize) = length (r_shards rx)" using ok [OF inv(2)] by (intro unat_of_nat_usize) simp
    then have "unat (r_cursor rx') = unat (r_cursor rx) + length (r_shards rx)" using c k(3) by (simp add: unat_word_ariths)
    then show ?thesis using c em by simp
  qed
qed

end

text \<open>
  C16. The producer pool never removes a shard, and there the recheck is complete: when \<open>poll_recv\<close> returns \<open>Pending\<close>, then at
  the second look, after the registration, every ring was empty and a sender was left, whatever the rest of the program
  did around the registration. A later publication meets an armed notifier.
\<close>

theorem pool_poll_pending:
  assumes "rings_rep m vss" "pool_inv m (r_shards rx)" "r_batch rx \<noteq> 0" "unat (r_cursor rx) + 128 < 2 ^ 64"
    and env: "\<And>m1 vss1. rings_rep m1 vss1 \<Longrightarrow> pool_inv m1 (r_shards rx)
      \<Longrightarrow> \<exists>vss2. rings_rep (env_reg m1) vss2 \<and> pool_inv (env_reg m1) (r_shards rx)"
      "\<And>m1 vss1. rings_rep m1 vss1 \<Longrightarrow> pool_inv m1 (r_shards rx)
      \<Longrightarrow> \<exists>vss2. rings_rep (env_look m1) vss2 \<and> pool_inv (env_look m1) (r_shards rx)"
    and poll: "mp_poll_recv A (pool_state (task_kernel A)) env_reg env_look w m rx = Some (Pending, m', rx')"
  shows "\<exists>vss'. rings_rep m' vss' \<and> (\<forall>vs\<in>set vss'. vs = []) \<and> \<not> disconnected m'"
proof -
  let ?K = "task_kernel A"
  obtain m1 rx1 where p1: "mp_try_recv ?K (pool_state ?K) m rx = Some (None, m1, rx1)" "\<not> disconnected m1"
    "(let m2 = env_look ((env_reg m1)\<lparr>m_notifier := tw_arm A w (m_notifier (env_reg m1))\<rparr>)
      in mp_try_recv ?K (pool_state ?K) m2 rx1) = Some (None, m', rx')" "\<not> disconnected m'"
    using poll by (auto simp: mp_poll_recv_def Let_def bind_eq_Some_conv split: option.splits if_splits prod.splits)
  have len: "length (r_shards rx) \<le> 64" using assms(2) by (auto simp: pool_inv_def)
  then have c: "unat (r_cursor rx) + length (r_shards rx) < 2 ^ 64" using assms(4) by simp
  have k1: "rings_rep m1 vss \<and> pool_inv m1 (r_shards rx1) \<and> r_shards rx1 = r_shards rx \<and> r_batch rx1 = r_batch rx
     \<and> unat (r_cursor rx1) \<le> unat (r_cursor rx) + length (r_shards rx)"
    using pool.mp_try_recv_keeps [OF assms(1-3) _ refl c p1(1)] by auto
  obtain vss2 where e2: "rings_rep (env_reg m1) vss2" "pool_inv (env_reg m1) (r_shards rx)" using env(1) k1 by metis
  let ?m = "(env_reg m1)\<lparr>m_notifier := tw_arm A w (m_notifier (env_reg m1))\<rparr>"
  have "rings_rep ?m vss2" "pool_inv ?m (r_shards rx)" using e2 by (simp_all add: pool_inv_def pool_free_in_def)
  then obtain vss3 where e3: "rings_rep (env_look ?m) vss3" "pool_inv (env_look ?m) (r_shards rx1)" using env(2) k1 by metis
  have c1: "unat (r_cursor rx1) + length (r_shards rx1) < 2 ^ 64" "r_batch rx1 \<noteq> 0" using k1 len assms(3,4) by simp_all
  have q: "mp_try_recv ?K (pool_state ?K) (env_look ?m) rx1 = Some (None, m', rx')" using p1(3) by (simp add: Let_def)
  have "rings_rep m' vss3 \<and> (\<forall>j\<in>set (r_shards rx1). vss3 ! j = [])"
    using pool.mp_try_recv_keeps [OF e3 c1(2) _ refl c1(1) q] by simp
  moreover have "set (r_shards rx1) = {..<length vss3}" using e3 by (auto simp: pool_inv_def rings_rep_def)
  ultimately show ?thesis using p1(4) by (intro exI [of _ vss3]) (auto simp: in_set_conv_nth)
qed

text \<open>On a channel without values \<open>try_recv\<close> finds none.\<close>

lemma pool_try_recv_empty:
  assumes "rings_rep m (replicate n [])" "pool_inv m (r_shards rx)" "r_batch rx \<noteq> 0" "r_staging rx = []"
  shows "\<exists>m' rx'. mp_try_recv K (pool_state K) m rx = Some (None, m', rx') \<and> rings_rep m' (replicate n []) \<and> pool_inv m' (r_shards rx')
     \<and> r_batch rx' \<noteq> 0 \<and> r_staging rx' = [] \<and> m_live m' = m_live m"
proof -
  obtain m' rx' vss' dl where r: "mp_try_recv K (pool_state K) m rx = Some (case r_staging rx @ map snd dl of [] \<Rightarrow> None | v # _ \<Rightarrow> Some v, m', rx')"
    "pool.received m (r_shards rx) (replicate n []) m' (r_shards rx') vss' dl" "r_batch rx' = r_batch rx" "r_staging rx' = tl (r_staging rx @ map snd dl)"
    using pool.mp_try_recv_spec [OF assms(1-3), of K K] by (elim exE conjE) (rule that)
  have f: "length vss' = n" "\<forall>j<n. from_producer j dl @ vss' ! j = []" "\<forall>x\<in>set dl. fst x < n" "rings_rep m' vss'" "pool_inv m' (r_shards rx')" "m_live m' = m_live m"
    using r(2) by (simp_all add: pool.received_def)
  have "dl = []"
  proof (rule ccontr)
    assume "dl \<noteq> []"
    then obtain x where x: "x \<in> set dl" by (cases dl) auto
    then have "snd x \<in> set (from_producer (fst x) dl)" by (auto simp: from_producer_def)
    then show False using f(2,3) x by fastforce
  qed
  moreover have "vss' = replicate n []" using f(1,2) by (intro nth_equalityI) auto
  ultimately show ?thesis using r(1,3,4) f(4-6) assms(3,4) by simp
qed

lemma pool_poll_pending_witness:
  "\<exists>m rx m' rx' vss'. pool_open (task_kernel option_cell) 1 4 = Some (m, rx)
     \<and> mp_poll_recv option_cell (pool_state (task_kernel option_cell)) (\<lambda>m. m) (\<lambda>m. m) () (m :: (bool, _, _, _) Mpsc) rx = Some (Pending, m', rx')
     \<and> rings_rep m' vss' \<and> (\<forall>vs\<in>set vss'. vs = [])"
proof -
  let ?K = "task_kernel (option_cell :: (unit option, unit) AtomicWaker)" and ?n = "unat (1 :: usize)"
  let ?rx = "make_receiver [0..<?n] :: bool MReceiver"
  obtain m :: "(bool, (unit option, unit) TaskWaiter, (unit option, unit) TaskWaiter, PoolSlots) Mpsc" where
    o: "pool_open ?K 1 4 = Some (m, ?rx)" "rings_rep m (replicate ?n [])" "pool_inv m [0..<?n]" "m_live m = 1"
    using pool_open_inv [of 4 1 ?K] by auto
  have rx: "pool_inv m (r_shards ?rx)" "r_batch ?rx \<noteq> 0" "r_staging ?rx = []" "unat (r_cursor ?rx) + 128 < 2 ^ 64" using o(3) by (simp_all add: make_receiver_def DEFAULT_BATCH_def)
  obtain m1 rx1 where p1: "mp_try_recv ?K (pool_state ?K) m ?rx = Some (None, m1, rx1)" "rings_rep m1 (replicate ?n [])" "pool_inv m1 (r_shards rx1)"
    "r_batch rx1 \<noteq> 0" "r_staging rx1 = []" "m_live m1 = m_live m" using pool_try_recv_empty [OF o(2) rx(1-3), of ?K] by blast
  let ?m = "m1\<lparr>m_notifier := tw_arm option_cell () (m_notifier m1)\<rparr>"
  have "rings_rep ?m (replicate ?n [])" "pool_inv ?m (r_shards rx1)" using p1(2,3) by (simp_all add: pool_inv_def pool_free_in_def)
  then obtain m2 rx2 where p2: "mp_try_recv ?K (pool_state ?K) ?m rx1 = Some (None, m2, rx2)" "m_live m2 = m_live ?m"
    using pool_try_recv_empty [OF _ _ p1(4,5), of ?m ?n ?K] by blast
  have poll: "mp_poll_recv option_cell (pool_state ?K) (\<lambda>m. m) (\<lambda>m. m) () m ?rx = Some (Pending, m2, rx2)"
    using p1(1,6) p2 o(4) by (simp add: mp_poll_recv_def disconnected_def Let_def)
  show ?thesis using pool_poll_pending [OF o(2) rx(1,2,4) _ _ poll] o(1) poll by blast
qed

end
