(* ===== verification/Mpsc_Batch.thy ===== *)
theory Mpsc_Batch
  imports Mpsc_Fifo
begin

text \<open>
  The asynchronous batch sender: which items of the user's iterator a poll publishes, what it keeps, and that the receiver
  is told of everything that was published, also when the iterator unwinds or the future is dropped.
\<close>

section \<open>Items, outcomes and notifications\<close>

definition items_of :: "'a SendBatch \<Rightarrow> 'a Iter list" where
  "items_of b = (case sb_pending b of None \<Rightarrow> [] | Some v \<Rightarrow> [IterItem v]) @ sb_items b"

text \<open>What is left of the items after a poll, by its result: an error hands the item back, a panic has consumed a call.\<close>

fun batch_left :: "'a batch_poll \<Rightarrow> 'a Iter list \<Rightarrow> 'a Iter list" where
  "batch_left (BatchReady (Ok _)) is = is"
| "batch_left (BatchReady (Err v)) is = IterItem v # is"
| "batch_left (BatchPending _) is = is"
| "batch_left BatchUnwind is = IterPanic # is"

text \<open>What the rest of the program may do to the ring of the producer \<open>p\<close>: take values from its front.\<close>

definition consumes :: "nat \<Rightarrow> (('a, 'n, 'sp, 'st) Mpsc \<Rightarrow> ('a, 'n, 'sp, 'st) Mpsc) \<Rightarrow> bool" where
  "consumes p env \<longleftrightarrow> (\<forall>m vss. rings_rep m vss \<and> p < length vss \<longrightarrow>
     (\<exists>vss' d. rings_rep (env m) vss' \<and> p < length vss' \<and> vss ! p = d @ vss' ! p))"

text \<open>
  Published values the receiver may not know of are recorded in \<open>sb_dirty\<close>; without interference, when nothing is
  recorded and something was published, the receiver's notifier is not left armed.
\<close>

definition told :: "('k, 'w, 'a, 'st) reg_env list \<Rightarrow> bool \<Rightarrow> ('k, 'w, 'a, 'st) Tasked \<Rightarrow> 'a SendBatch \<Rightarrow> bool" where
  "told envs pub m b \<longleftrightarrow> (sb_dirty b \<longrightarrow> pub) \<and> (envs = [] \<and> pub \<longrightarrow> sb_dirty b \<or> \<not> waiting (m_notifier m))"

definition batch_polled ::
  "nat \<Rightarrow> 'a list list \<Rightarrow> 'a Iter list \<Rightarrow> bool \<Rightarrow> ('k, 'w, 'a, 'st) reg_env list \<Rightarrow> nat
     \<Rightarrow> ('a batch_poll \<times> ('k, 'w, 'a, 'st) Tasked \<times> 'a SendBatch) option \<Rightarrow> bool" where
  "batch_polled p vss items pub envs budget res \<longleftrightarrow> (\<exists>x m' b' vss' vs d. res = Some (x, m', b')
     \<and> rings_rep m' vss' \<and> p < length vss' \<and> vss ! p @ vs = d @ vss' ! p
     \<and> items = map IterItem vs @ batch_left x (items_of b') \<and> (x = BatchReady (Ok ()) \<longrightarrow> items_of b' = []) \<and> length vs \<le> budget
     \<and> (x \<noteq> BatchUnwind \<longrightarrow> \<not> sb_dirty b') \<and> told envs (pub \<or> vs \<noteq> []) m' b')"

lemma tw_notify_waiting [simp]: "\<not> waiting (tw_notify A t)"
  by (simp add: tw_notify_def task_wake_def case_prod_beta)

lemma notify_consumer_frame [simp]:
  "rings_rep (notify_consumer K m) vss = rings_rep m vss" "\<not> waiting (m_notifier (notify_consumer (task_kernel A) m))"
  by (simp_all add: notify_consumer_def task_kernel_def)

lemma set_space_frame [simp]: "rings_rep (set_space p sp m) vss = rings_rep m vss" "m_notifier (set_space p sp m) = m_notifier m"
  by (simp_all add: rings_rep_def set_space_def)

lemma clear_space_frame [simp]: "rings_rep (clear_space A p m) vss = rings_rep m vss" "m_notifier (clear_space A p m) = m_notifier m"
  by (simp_all add: clear_space_def)

lemma batch_tell_frame:
  assumes "batch_tell A pub m b = (m', b')" "rings_rep m vss" "told envs pub m b"
  shows "rings_rep m' vss" "told envs pub m' b'" "\<not> sb_dirty b'" "items_of b' = items_of b" "sb_items b' = sb_items b" "sb_pending b' = sb_pending b"
  using assms by (auto simp: batch_tell_def batch_notify_def told_def items_of_def split: if_splits)

lemma mp_try_send_quiet_cases:
  assumes "rings_rep m vss" "p < length vss"
  obtains (sent) m' where "mp_try_send_quiet m p v = Some (Ok (), m')" "rings_rep m' (vss[p := vss ! p @ [v]])" "m_notifier m' = m_notifier m"
  | (full) m' where "mp_try_send_quiet m p v = Some (Err (Full v), m')" "rings_rep m' vss" "m_notifier m' = m_notifier m"
  | (gone) "mp_try_send_quiet m p v = Some (Err (Disconnected v), m)"
proof (cases "consumer_gone (m_rings m ! p)")
  case True
  then show thesis using gone ring_of_rep [OF assms] by (simp add: mp_try_send_quiet_def is_consumer_gone_def)
next
  case False
  let ?room = "length (vss ! p) < unat (cap (m_rings m ! p))"
  obtain r where r: "try_push (m_rings m ! p) v = Some (if ?room then Ok () else Err v, r)"
    "ring_rep r (if ?room then vss ! p @ [v] else vss ! p)" "same_ctl (m_rings m ! p) r"
    using ring_rep_try_push [OF rings_rep_nth [OF assms], of v] by blast
  have sp: "set_space p (m_spaces m ! p) (set_ring p r m) = set_ring p r m" by (simp add: set_space_def set_ring_def)
  note put = put_ring [OF assms r(2,3), of UNIV "m_spaces m ! p", unfolded sp, simplified]
  have q: "mp_try_send_quiet m p v = Some (if ?room then Ok () else Err (Full v), set_ring p r m)"
    using False r(1) ring_of_rep [OF assms] by (simp add: mp_try_send_quiet_def is_consumer_gone_def)
  show thesis
  proof (cases ?room)
    case True
    then show thesis using sent [of "set_ring p r m"] q put by simp
  next
    case False
    then show thesis using full [of "set_ring p r m"] q put by simp
  qed
qed

section \<open>One item, then the loop\<close>

lemma batch_polledI:
  assumes "res = Some (x, m', b')" "rings_rep m' vss'" "p < length vss'" "vss ! p @ vs = d @ vss' ! p"
    "items = map IterItem vs @ batch_left x (items_of b')" "x = BatchReady (Ok ()) \<Longrightarrow> items_of b' = []" "length vs \<le> budget"
    "x \<noteq> BatchUnwind \<Longrightarrow> \<not> sb_dirty b'" "told envs (pub \<or> vs \<noteq> []) m' b'"
  shows "batch_polled p vss items pub envs budget res"
  unfolding batch_polled_def using assms by blast

lemma batch_polled_push:
  assumes r: "batch_polled p vss1 items True envs' budget res" and d: "vss ! p @ [v] = d @ vss1 ! p" and e: "envs = [] \<Longrightarrow> envs' = []"
  shows "batch_polled p vss (IterItem v # items) pub envs (Suc budget) res"
proof -
  obtain x m' b' vss' vs d' where r': "res = Some (x, m', b')" "rings_rep m' vss'" "p < length vss'" "vss1 ! p @ vs = d' @ vss' ! p"
    "items = map IterItem vs @ batch_left x (items_of b')" "x = BatchReady (Ok ()) \<longrightarrow> items_of b' = []" "length vs \<le> budget"
    "x \<noteq> BatchUnwind \<longrightarrow> \<not> sb_dirty b'" "told envs' (True \<or> vs \<noteq> []) m' b'"
    using r unfolding batch_polled_def by (elim exE conjE) (rule that)
  have "vss ! p @ (v # vs) = (d @ d') @ vss' ! p" using d r'(4) by (metis append.assoc append_Cons append_Nil)
  moreover have "told envs (pub \<or> v # vs \<noteq> []) m' b'" using r'(9) e by (auto simp: told_def)
  ultimately show ?thesis using r' by (intro batch_polledI [where vs = "v # vs" and d = "d @ d'" and vss' = vss' and b' = b']) auto
qed

lemma send_batch_item_spec:
  assumes inv: "rings_rep m vss" "p < length vss" "told envs pub m b" "sb_pending b = None"
    and envs: "\<forall>e\<in>set envs. consumes p (fst e) \<and> consumes p (snd e)"
    and go: "\<And>envs' m1 vss1 b1. budget \<noteq> 0 \<Longrightarrow> set envs' \<subseteq> set envs \<Longrightarrow> rings_rep m1 vss1 \<Longrightarrow> p < length vss1 \<Longrightarrow> told envs' True m1 b1
      \<Longrightarrow> batch_polled p vss1 (items_of b1) True envs' budget (go envs' m1 b1)"
  shows "batch_polled p vss (IterItem v # items_of b) pub envs (Suc budget) (send_batch_item A budget envs pub w m p v b go)"
    (is "batch_polled p vss ?items pub envs _ ?res")
  using inv(1,2)
proof (cases rule: mp_try_send_quiet_cases [where v = v])
  case (sent m1)
  let ?b = "b\<lparr>sb_dirty := True\<rparr>" and ?vss = "vss[p := vss ! p @ [v]]"
  have ib: "items_of ?b = items_of b" "items_of b = sb_items b" using inv(4) by (simp_all add: items_of_def)
  have p: "p < length ?vss" "?vss ! p = vss ! p @ [v]" using inv(2) by simp_all
  show ?thesis
  proof (cases "budget = 0")
    case False
    have "told envs True m1 ?b" by (simp add: told_def)
    note g = go [OF False order_refl sent(2) p(1) this]
    have "?res = go envs m1 ?b" using sent(1) False by (simp add: send_batch_item_def)
    then show ?thesis using batch_polled_push [OF g, of vss v "[]" envs pub] p(2) ib(1) by simp
  next
    case True
    show ?thesis
    proof (cases "sb_items b")
      case Nil
      have e: "?res = Some (BatchReady (Ok ()), clear_space A p (notify_consumer (task_kernel A) m1), b\<lparr>sb_dirty := False\<rparr>)"
        using sent(1) True Nil by (simp add: send_batch_item_def batch_notify_def)
      show ?thesis using sent(2) p ib Nil inv(4)
        by (intro batch_polledI [OF e, where vs = "[v]" and d = "[]" and vss' = ?vss]) (auto simp: told_def items_of_def)
    next
      case (Cons i "is")
      show ?thesis
      proof (cases i)
        case (IterItem v')
        have e: "?res = Some (BatchPending True, clear_space A p (notify_consumer (task_kernel A) m1), b\<lparr>sb_items := is, sb_pending := Some v', sb_dirty := False\<rparr>)"
          using sent(1) True Cons IterItem by (simp add: send_batch_item_def batch_notify_def)
        show ?thesis using sent(2) p ib Cons IterItem
          by (intro batch_polledI [OF e, where vs = "[v]" and d = "[]" and vss' = ?vss]) (auto simp: told_def items_of_def)
      next
        case IterPanic
        have e: "?res = Some (BatchUnwind, m1, ?b\<lparr>sb_items := is\<rparr>)" using sent(1) True Cons IterPanic by (simp add: send_batch_item_def)
        show ?thesis using sent(2) p ib Cons IterPanic inv(4)
          by (intro batch_polledI [OF e, where vs = "[v]" and d = "[]" and vss' = ?vss]) (auto simp: told_def items_of_def)
      qed
    qed
  qed
next
  case gone
  obtain m1 b1 where t: "batch_tell A pub m b = (m1, b1)" by (cases "batch_tell A pub m b")
  note f = batch_tell_frame [OF t inv(1,3)]
  have e: "?res = Some (BatchReady (Err v), clear_space A p m1, b1)" using gone t by (simp add: send_batch_item_def)
  show ?thesis using f(1-4) inv(2)
    by (intro batch_polledI [OF e, where vs = "[]" and d = "[]" and vss' = vss]) (auto simp: told_def)
next
  case (full m1)
  let ?b0 = "b\<lparr>sb_pending := Some v\<rparr>"
  obtain m2 b2 where t: "batch_tell A pub m1 ?b0 = (m2, b2)" by (cases "batch_tell A pub m1 ?b0")
  have "told envs pub m1 ?b0" using inv(3) full(3) by (simp add: told_def)
  note f = batch_tell_frame [OF t full(2) this]
  define env_reg where "env_reg = fst (case envs of [] \<Rightarrow> (\<lambda>m. m, \<lambda>m. m) | e # _ \<Rightarrow> e)"
  define env_look where "env_look = snd (case envs of [] \<Rightarrow> (\<lambda>m. m, \<lambda>m. m) | e # _ \<Rightarrow> e)"
  have ec: "consumes p env_reg" "consumes p env_look" using envs by (auto simp: env_reg_def env_look_def consumes_def split: list.split)
  obtain vss3 d3 where r3: "rings_rep (env_reg m2) vss3" "p < length vss3" "vss ! p = d3 @ vss3 ! p" using ec(1) f(1) inv(2) unfolding consumes_def by blast
  let ?m3 = "set_space p (tw_arm A w (m_spaces (env_reg m2) ! p)) (env_reg m2)"
  have "rings_rep ?m3 vss3" using r3(1) by simp
  then obtain vss4 d4 where r4: "rings_rep (env_look ?m3) vss4" "p < length vss4" "vss3 ! p = d4 @ vss4 ! p" using ec(2) r3(2) unfolding consumes_def by blast
  let ?b = "b2\<lparr>sb_pending := None\<rparr>" and ?m4 = "env_look ?m3"
  have ib: "items_of ?b = items_of b" "sb_dirty ?b = sb_dirty b2" using f(4,5) inv(4) by (simp_all add: items_of_def)
  have pre: "?res = (case mp_try_send_quiet ?m4 p v of None \<Rightarrow> None | Some (x, m) \<Rightarrow>
      (case x of Ok _ \<Rightarrow> if budget = 0 then Some (BatchPending True, notify_consumer (task_kernel A) (clear_space A p m), ?b\<lparr>sb_dirty := False\<rparr>)
                 else go (tl envs) (clear_space A p m) (?b\<lparr>sb_dirty := True\<rparr>)
       | Err (Disconnected v) \<Rightarrow> Some (BatchReady (Err v), clear_space A p m, ?b)
       | Err (Full v) \<Rightarrow> Some (BatchPending False, m, ?b\<lparr>sb_pending := Some v\<rparr>)))"
    using full(1) t ring_of_rep [OF r3(1,2)]
    by (simp add: send_batch_item_def env_reg_def env_look_def batch_notify_def case_prod_beta Let_def split: option.split TrySendError.split Result.split)
  have d: "vss ! p @ [v] = (d3 @ d4) @ vss4 ! p @ [v]" using r3(3) r4(3) by simp
  have quiet: "told envs pub m' b'" if "m_notifier m' = m_notifier ?m4" "\<not> sb_dirty b'" for m' b'
    using that f(2,3) by (auto simp: told_def env_reg_def env_look_def)
  from r4(1,2) show ?thesis
  proof (cases rule: mp_try_send_quiet_cases [where v = v])
    case (sent m5)
    let ?vss = "vss4[p := vss4 ! p @ [v]]"
    show ?thesis
    proof (cases "budget = 0")
      case True
      then have e: "?res = Some (BatchPending True, notify_consumer (task_kernel A) (clear_space A p m5), ?b\<lparr>sb_dirty := False\<rparr>)" using pre sent(1) by simp
      show ?thesis using sent(2) r4(2) ib d
        by (intro batch_polledI [OF e, where vs = "[v]" and d = "d3 @ d4" and vss' = ?vss]) (auto simp: told_def items_of_def)
    next
      case False
      have sub: "set (tl envs) \<subseteq> set envs" by (cases envs) auto
      have "told (tl envs) True (clear_space A p m5) (?b\<lparr>sb_dirty := True\<rparr>)" by (simp add: told_def)
      note g = go [OF False sub _ _ this, of ?vss]
      have "batch_polled p ?vss (items_of (?b\<lparr>sb_dirty := True\<rparr>)) True (tl envs) budget (go (tl envs) (clear_space A p m5) (?b\<lparr>sb_dirty := True\<rparr>))"
        using g sent(2) r4(2) by simp
      moreover have "items_of (?b\<lparr>sb_dirty := True\<rparr>) = items_of b" using ib(1) by (simp add: items_of_def)
      ultimately show ?thesis using batch_polled_push [of p ?vss "items_of b" "tl envs" budget _ vss v "d3 @ d4" envs pub] pre sent(1) False d r4(2) by simp
    qed
  next
    case gone
    then have e: "?res = Some (BatchReady (Err v), clear_space A p ?m4, ?b)" using pre by simp
    show ?thesis using r4 r3(3) ib f(3) quiet [of "clear_space A p ?m4" ?b]
      by (intro batch_polledI [OF e, where vs = "[]" and d = "d3 @ d4" and vss' = vss4]) auto
  next
    case (full m5)
    then have e: "?res = Some (BatchPending False, m5, ?b\<lparr>sb_pending := Some v\<rparr>)" using pre by simp
    show ?thesis using full r4(2,3) r3(3) ib f(3) quiet [of m5 "?b\<lparr>sb_pending := Some v\<rparr>"] inv(4) f(5)
      by (intro batch_polledI [OF e, where vs = "[]" and d = "d3 @ d4" and vss' = vss4]) (auto simp: items_of_def)
  qed
qed

lemma send_batch_loop_async_spec:
  assumes "rings_rep m vss" "p < length vss" "told envs pub m b" "\<forall>e\<in>set envs. consumes p (fst e) \<and> consumes p (snd e)" "budget \<noteq> 0"
  shows "batch_polled p vss (items_of b) pub envs budget (send_batch_loop_async A budget envs pub w m p b)"
  using assms
proof (induction budget arbitrary: m vss b pub envs)
  case (Suc budget)
  let ?go = "\<lambda>envs m b. send_batch_loop_async A budget envs True w m p b" and ?res = "send_batch_loop_async A (Suc budget) envs pub w m p b"
  have go: "batch_polled p vss1 (items_of b1) True envs' budget (?go envs' m1 b1)"
    if "budget \<noteq> 0" "set envs' \<subseteq> set envs" "rings_rep m1 vss1" "p < length vss1" "told envs' True m1 b1" for envs' m1 vss1 b1
    using Suc.IH [OF that(3-5) _ that(1)] that(2) Suc.prems(4) by blast
  have item: "batch_polled p vss (IterItem v # items_of b0) pub envs (Suc budget) (send_batch_item A budget envs pub w m p v b0 ?go)"
    if "sb_pending b0 = None" "sb_dirty b0 = sb_dirty b" for v b0
    using that Suc.prems(3) by (intro send_batch_item_spec [OF Suc.prems(1,2) _ that(1) Suc.prems(4)] go) (simp_all add: told_def)
  show ?case
  proof (cases "sb_pending b")
    case (Some v)
    then show ?thesis using item [of "b\<lparr>sb_pending := None\<rparr>" v] by (simp add: items_of_def)
  next
    case None
    show ?thesis
    proof (cases "sb_items b")
      case Nil
      obtain m1 b1 where t: "batch_tell A pub m b = (m1, b1)" by (cases "batch_tell A pub m b")
      note f = batch_tell_frame [OF t Suc.prems(1,3)]
      have e: "?res = Some (BatchReady (Ok ()), clear_space A p m1, b1)" using None Nil t by simp
      show ?thesis using f(1-4) Suc.prems(2) None Nil
        by (intro batch_polledI [OF e, where vs = "[]" and d = "[]" and vss' = vss]) (auto simp: told_def items_of_def)
    next
      case (Cons i "is")
      show ?thesis
      proof (cases i)
        case (IterItem v)
        then show ?thesis using item [of "b\<lparr>sb_items := is\<rparr>" v] None Cons by (simp add: items_of_def)
      next
        case IterPanic
        have e: "?res = Some (BatchUnwind, m, b\<lparr>sb_items := is\<rparr>)" using None Cons IterPanic by simp
        show ?thesis using Suc.prems(1-3) None Cons IterPanic
          by (intro batch_polledI [OF e, where vs = "[]" and d = "[]" and vss' = vss]) (auto simp: told_def items_of_def)
      qed
    qed
  qed
qed simp



end
