(* ===== verification/Park.thy ===== *)
theory Park
  imports Prelude
begin

text \<open>
  The consumer-side eventcounts (\<open>src/src/park/*.rs\<close>): one waiter, many notifiers, four wait strategies. Every
  strategy is given access by access, one atomic operation, lock operation or condition-variable operation
  per step, and the scheduler interleaves the steps freely (sequential consistency). The locale \<open>eventcount\<close> states
  what a strategy promises; the handshake of \<open>Receiver::recv\<close> with its producers is proved once inside it.
\<close>

section \<open>The handshake of a waiter and its notifiers\<close>

text \<open>
  A strategy: the state it shares, the stores of \<open>arm\<close> and \<open>disarm\<close>, and the programs of \<open>park\<close> (started by a thread) and
  \<open>wake\<close> as steps from program point to program point. A step that yields no program point ends the call; no step
  is a call that is blocked. \<open>ec_timeout\<close> is the expiry of the time limit of a sleeping \<open>park\<close>.
\<close>

record ('m, 'p, 'n) Eventcount =
  ec_init :: 'm
  ec_arm :: "'m \<Rightarrow> 'm"
  ec_disarm :: "'m \<Rightarrow> 'm"
  ec_park :: "nat \<Rightarrow> 'p"
  ec_park_step :: "'m \<Rightarrow> 'p \<Rightarrow> ('m \<times> 'p option) option"
  ec_timeout :: "'m \<Rightarrow> 'p \<Rightarrow> ('m \<times> 'p option) option"
  ec_wake :: 'n
  ec_wake_step :: "'m \<Rightarrow> 'n \<Rightarrow> ('m \<times> 'n option) option"

text \<open>
  The waiter of \<open>Receiver::recv\<close> arms, looks for a publication, parks when it found none, disarms, and starts again
  or takes what it found. A notifier publishes (a value in its ring, or the end of the last sender) and then wakes.
\<close>

datatype 'p wait_pc = WArm | WCheck nat | WPark 'p | WDisarm bool | WReady
datatype 'n wake_pc = PPublish | PWake 'n | PDone

record ('m, 'p, 'n) Waits =
  mem :: 'm
  wpc :: "'p wait_pc"
  npcs :: "'n wake_pc list"

definition waits_start :: "('m, 'p, 'n) Eventcount \<Rightarrow> nat \<Rightarrow> ('m, 'p, 'n) Waits" where
  "waits_start E n = \<lparr>mem = ec_init E, wpc = WArm, npcs = replicate n PPublish\<rparr>"

fun after_park :: "('m \<times> 'p option) option \<Rightarrow> ('m, 'p, 'n) Waits \<Rightarrow> ('m, 'p, 'n) Waits option" where
  "after_park None h = None"
| "after_park (Some (m, None)) h = Some (h\<lparr>mem := m, wpc := WDisarm False\<rparr>)"
| "after_park (Some (m, Some p)) h = Some (h\<lparr>mem := m, wpc := WPark p\<rparr>)"

fun wait_step :: "('m, 'p, 'n) Eventcount \<Rightarrow> nat \<Rightarrow> ('m, 'p, 'n) Waits \<Rightarrow> ('m, 'p, 'n) Waits option" where
  "wait_step E t h =
     (case wpc h of
        WArm \<Rightarrow> Some (h\<lparr>mem := ec_arm E (mem h), wpc := WCheck 0\<rparr>)
      | WCheck i \<Rightarrow>
          Some (if i < length (npcs h)
                then h\<lparr>wpc := if npcs h ! i = PPublish then WCheck (i + 1) else WDisarm True\<rparr>
                else h\<lparr>wpc := WPark (ec_park E t)\<rparr>)
      | WPark p \<Rightarrow> after_park (ec_park_step E (mem h) p) h
      | WDisarm found \<Rightarrow> Some (h\<lparr>mem := ec_disarm E (mem h), wpc := if found then WReady else WArm\<rparr>)
      | WReady \<Rightarrow> None)"

fun timeout_step :: "('m, 'p, 'n) Eventcount \<Rightarrow> ('m, 'p, 'n) Waits \<Rightarrow> ('m, 'p, 'n) Waits option" where
  "timeout_step E h = (case wpc h of WPark p \<Rightarrow> after_park (ec_timeout E (mem h) p) h | _ \<Rightarrow> None)"

fun notify_step :: "('m, 'p, 'n) Eventcount \<Rightarrow> nat \<Rightarrow> ('m, 'p, 'n) Waits \<Rightarrow> ('m, 'p, 'n) Waits option" where
  "notify_step E i h =
     (if i < length (npcs h)
      then (case npcs h ! i of
              PPublish \<Rightarrow> Some (h\<lparr>npcs := (npcs h)[i := PWake (ec_wake E)]\<rparr>)
            | PWake n \<Rightarrow> map_option (\<lambda>(m, n'). h\<lparr>mem := m, npcs := (npcs h)[i := case n' of None \<Rightarrow> PDone | Some n' \<Rightarrow> PWake n']\<rparr>)
                                  (ec_wake_step E (mem h) n)
            | PDone \<Rightarrow> None)
      else None)"

inductive waits :: "('m, 'p, 'n) Eventcount \<Rightarrow> nat \<Rightarrow> ('m, 'p, 'n) Waits \<Rightarrow> bool" for E n where
  start: "waits E n (waits_start E n)"
| wait: "waits E n h \<Longrightarrow> wait_step E t h = Some h' \<Longrightarrow> waits E n h'"
| timeout: "waits E n h \<Longrightarrow> timeout_step E h = Some h' \<Longrightarrow> waits E n h'"
| notify: "waits E n h \<Longrightarrow> notify_step E i h = Some h' \<Longrightarrow> waits E n h'"

text \<open>The waiter running alone: what it reaches after \<open>k\<close> steps of its own, with no time limit expiring.\<close>

fun wait_alone :: "('m, 'p, 'n) Eventcount \<Rightarrow> nat \<Rightarrow> nat \<Rightarrow> ('m, 'p, 'n) Waits \<Rightarrow> ('m, 'p, 'n) Waits option" where
  "wait_alone E t 0 h = Some h"
| "wait_alone E t (Suc k) h = do { h \<leftarrow> wait_step E t h; wait_alone E t k h }"

declare wait_step.simps [simp del] timeout_step.simps [simp del] notify_step.simps [simp del]

fun park_of :: "'p wait_pc \<Rightarrow> 'p option" where
  "park_of (WPark p) = Some p"
| "park_of _ = None"

fun wake_of :: "'n wake_pc \<Rightarrow> 'n option" where
  "wake_of (PWake n) = Some n"
| "wake_of _ = None"

text \<open>How many notifiers the waiter has found unpublished since it armed.\<close>

fun found_idle :: "nat \<Rightarrow> 'p wait_pc \<Rightarrow> nat" where
  "found_idle n (WCheck i) = i"
| "found_idle n (WPark p) = n"
| "found_idle n _ = 0"

section \<open>What a strategy promises\<close>

text \<open>
  \<open>flag\<close> says that the waiter is armed, \<open>kinv\<close> is the invariant of the strategy, and \<open>cleared\<close> holds of the points of \<open>wake\<close> after it
  has taken the flag down. Only \<open>arm\<close> raises the flag; a \<open>wake\<close> ends with the flag taken down since it began, by
  itself or by another notifier; and once the flag is down and no \<open>wake\<close> is under way, \<open>park\<close> runs to its end, as \<open>rank\<close> shows.
\<close>

locale eventcount =
  fixes E :: "('m, 'p, 'n) Eventcount"
    and flag :: "'m \<Rightarrow> bool"
    and kinv :: "'m \<Rightarrow> 'p option \<Rightarrow> 'n option list \<Rightarrow> bool"
    and cleared :: "'n \<Rightarrow> bool"
    and rank :: "'p \<Rightarrow> nat"
  assumes init: "kinv (ec_init E) None (replicate k None)"
    and arm: "kinv m None ns \<Longrightarrow> kinv (ec_arm E m) None ns"
    and disarm: "kinv m None ns \<Longrightarrow> kinv (ec_disarm E m) None ns"
    and park: "kinv m None ns \<Longrightarrow> kinv m (Some (ec_park E t)) ns"
    and park_step: "kinv m (Some p) ns \<Longrightarrow> ec_park_step E m p = Some (m', p') \<Longrightarrow> kinv m' p' ns \<and> (flag m' \<longrightarrow> flag m)"
    and timeout: "kinv m (Some p) ns \<Longrightarrow> ec_timeout E m p = Some (m', p') \<Longrightarrow> kinv m' p' ns \<and> (flag m' \<longrightarrow> flag m)"
    and wake: "kinv m po ns \<Longrightarrow> i < length ns \<Longrightarrow> ns ! i = None \<Longrightarrow> kinv m po (ns[i := Some (ec_wake E)])"
    and wake_fresh: "\<not> cleared (ec_wake E)"
    and wake_step: "kinv m po ns \<Longrightarrow> i < length ns \<Longrightarrow> ns ! i = Some n \<Longrightarrow> ec_wake_step E m n = Some (m', n')
        \<Longrightarrow> kinv m' po (ns[i := n']) \<and> (flag m' \<longrightarrow> flag m) \<and> (\<not> cleared n \<and> pred_option cleared n' \<longrightarrow> \<not> flag m')"
    and progress: "kinv m (Some p) ns \<Longrightarrow> set ns \<subseteq> {None} \<Longrightarrow> \<not> flag m
        \<Longrightarrow> \<exists>m' p'. ec_park_step E m p = Some (m', p') \<and> pred_option (\<lambda>q. rank q < rank p) p'"
begin

text \<open>A notifier that the waiter found unpublished and that has since passed the flag leaves it down.\<close>

definition passed :: "'n wake_pc \<Rightarrow> bool" where
  "passed pc \<longleftrightarrow> pc = PDone \<or> (\<exists>n. pc = PWake n \<and> cleared n)"

definition waits_inv :: "nat \<Rightarrow> ('m, 'p, 'n) Waits \<Rightarrow> bool" where
  "waits_inv n h \<longleftrightarrow> length (npcs h) = n \<and> kinv (mem h) (park_of (wpc h)) (map wake_of (npcs h))
     \<and> found_idle n (wpc h) \<le> n \<and> (\<forall>i<found_idle n (wpc h). passed (npcs h ! i) \<longrightarrow> \<not> flag (mem h))"

lemma waits_inv_after_park:
  assumes "waits_inv n h" "wpc h = WPark p" "after_park r h = Some h'"
    and "\<And>m' p'. r = Some (m', p') \<Longrightarrow> kinv m' p' (map wake_of (npcs h)) \<and> (flag m' \<longrightarrow> flag (mem h))"
  shows "waits_inv n h'"
  using assms by (cases "(r, h)" rule: after_park.cases) (auto simp: waits_inv_def)

lemma waits_inv_wait:
  assumes inv: "waits_inv n h" and step: "wait_step E t h = Some h'"
  shows "waits_inv n h'"
proof (cases "wpc h")
  case (WCheck i)
  show ?thesis
  proof (cases "i < length (npcs h) \<and> npcs h ! i = PPublish")
    case True
    then have "h' = h\<lparr>wpc := WCheck (i + 1)\<rparr>" using step WCheck by (simp add: wait_step.simps)
    then show ?thesis using inv WCheck True by (auto simp: waits_inv_def less_Suc_eq passed_def)
  next
    case False
    then have "h' = h\<lparr>wpc := WDisarm True\<rparr> \<or> h' = h\<lparr>wpc := WPark (ec_park E t)\<rparr> \<and> i = n"
      using step WCheck inv by (auto simp: wait_step.simps waits_inv_def split: if_splits)
    then show ?thesis using inv WCheck park by (auto simp: waits_inv_def)
  qed
next
  case (WPark p)
  then have "kinv (mem h) (Some p) (map wake_of (npcs h))" using inv by (simp add: waits_inv_def)
  then show ?thesis using step WPark park_step
    by (intro waits_inv_after_park [OF inv WPark, of "ec_park_step E (mem h) p"]) (auto simp: wait_step.simps)
qed (use inv step arm disarm in \<open>auto simp: wait_step.simps waits_inv_def split: if_splits\<close>)

lemma waits_inv_timeout:
  assumes inv: "waits_inv n h" and step: "timeout_step E h = Some h'"
  shows "waits_inv n h'"
proof (cases "wpc h")
  case (WPark p)
  then have "kinv (mem h) (Some p) (map wake_of (npcs h))" using inv by (simp add: waits_inv_def)
  then show ?thesis using step WPark timeout
    by (intro waits_inv_after_park [OF inv WPark, of "ec_timeout E (mem h) p"]) (auto simp: timeout_step.simps)
qed (use step in \<open>simp_all add: timeout_step.simps\<close>)

lemma waits_inv_notify:
  assumes inv: "waits_inv n h" and step: "notify_step E i h = Some h'"
  shows "waits_inv n h'"
proof -
  have i: "i < length (npcs h)" using step by (auto simp: notify_step.simps split: if_splits)
  show ?thesis
  proof (cases "npcs h ! i")
    case PPublish
    then have "h' = h\<lparr>npcs := (npcs h)[i := PWake (ec_wake E)]\<rparr>" using step i by (simp add: notify_step.simps)
    then show ?thesis using inv i PPublish wake [of "mem h" _ "map wake_of (npcs h)" i] wake_fresh
      by (auto simp: waits_inv_def map_update nth_list_update passed_def)
  next
    case (PWake w)
    then obtain m' w' where s: "ec_wake_step E (mem h) w = Some (m', w')"
      "h' = h\<lparr>mem := m', npcs := (npcs h)[i := case w' of None \<Rightarrow> PDone | Some w' \<Rightarrow> PWake w']\<rparr>"
      using step i by (auto simp: notify_step.simps)
    have k: "kinv (mem h) (park_of (wpc h)) (map wake_of (npcs h))" using inv by (simp add: waits_inv_def)
    have u: "map wake_of (npcs h') = (map wake_of (npcs h))[i := w']" using s(2) by (cases w') (simp_all add: map_update)
    note W = wake_step [OF k _ _ s(1), of i]
    have W': "kinv m' (park_of (wpc h)) (map wake_of (npcs h'))" "flag m' \<longrightarrow> flag (mem h)"
      "\<not> cleared w \<and> pred_option cleared w' \<longrightarrow> \<not> flag m'" using W i PWake unfolding u by simp_all
    have "passed (npcs h' ! j) \<longrightarrow> \<not> flag m'" if "j < found_idle n (wpc h)" for j
    proof (cases "j = i")
      case True
      have "npcs h' ! i = (case w' of None \<Rightarrow> PDone | Some w' \<Rightarrow> PWake w')" using s(2) i by simp
      then have "passed (npcs h' ! i) \<longleftrightarrow> pred_option cleared w'" by (cases w') (simp_all add: passed_def)
      moreover have "cleared w \<longrightarrow> \<not> flag (mem h)" using inv that True PWake by (auto simp: waits_inv_def passed_def)
      ultimately show ?thesis using W'(2,3) True by blast
    next
      case False
      then have "npcs h' ! j = npcs h ! j" using s(2) by simp
      then show ?thesis using inv that W'(2) by (auto simp: waits_inv_def)
    qed
    then show ?thesis using inv s(2) W'(1) by (auto simp: waits_inv_def)
  next
    case PDone
    then show ?thesis using step i by (simp add: notify_step.simps)
  qed
qed

lemma waits_invariant: "waits E n h \<Longrightarrow> waits_inv n h"
proof (induction rule: waits.induct)
  case start
  show ?case using init by (simp add: waits_inv_def waits_start_def map_replicate_const)
qed (blast intro: waits_inv_wait waits_inv_timeout waits_inv_notify)+

lemma wait_alone_Suc:
  assumes "wait_step E t h = Some h'" "\<exists>k g. wait_alone E t k h' = Some g \<and> wpc g = WReady"
  shows "\<exists>k g. wait_alone E t k h = Some g \<and> wpc g = WReady"
proof -
  from assms(2) obtain k g where "wait_alone E t k h' = Some g" "wpc g = WReady" by blast
  then show ?thesis using assms(1) by (intro exI [of _ "Suc k"]) simp
qed

text \<open>With all notifiers finished, the waiter finds a publication after a handful of steps of its own.\<close>

lemma alone_from_check:
  assumes "wpc h = WCheck i" "i < length (npcs h)" "npcs h ! i = PDone"
  shows "\<exists>k h'. wait_alone E t k h = Some h' \<and> wpc h' = WReady"
  using assms by (intro exI [of _ "Suc (Suc 0)"]) (simp add: wait_step.simps)

lemma alone_from_arm:
  assumes "wpc h = WArm" "npcs h \<noteq> []" "npcs h ! 0 = PDone"
  shows "\<exists>k h'. wait_alone E t k h = Some h' \<and> wpc h' = WReady"
  using assms by (intro exI [of _ "Suc (Suc (Suc 0))"]) (simp add: wait_step.simps)

lemma alone_from_disarm:
  assumes "wpc h = WDisarm found" "npcs h \<noteq> []" "npcs h ! 0 = PDone"
  shows "\<exists>k h'. wait_alone E t k h = Some h' \<and> wpc h' = WReady"
proof (cases found)
  case True
  then show ?thesis using assms by (intro exI [of _ "Suc 0"]) (simp add: wait_step.simps)
next
  case False
  let ?h = "h\<lparr>mem := ec_disarm E (mem h), wpc := WArm\<rparr>"
  have "wait_step E t h = Some ?h" using assms(1) False by (simp add: wait_step.simps)
  then show ?thesis by (rule wait_alone_Suc) (use assms(2,3) in \<open>intro alone_from_arm; simp\<close>)
qed

lemma alone_from_park:
  assumes "waits_inv n h" "wpc h = WPark p" "0 < n" "\<forall>i<n. npcs h ! i = PDone"
  shows "\<exists>k h'. wait_alone E t k h = Some h' \<and> wpc h' = WReady"
  using assms
proof (induction "rank p" arbitrary: h p rule: less_induct)
  case less
  have l: "length (npcs h) = n" "kinv (mem h) (Some p) (map wake_of (npcs h))" "\<not> flag (mem h)"
    using less.prems by (auto simp: waits_inv_def passed_def)
  have "set (map wake_of (npcs h)) \<subseteq> {None}" using less.prems(4) l(1) by (auto simp: in_set_conv_nth)
  then obtain m' p' where p: "ec_park_step E (mem h) p = Some (m', p')" "pred_option (\<lambda>q. rank q < rank p) p'"
    using progress l(2,3) by blast
  show ?case
  proof (cases p')
    case None
    let ?h = "h\<lparr>mem := m', wpc := WDisarm False\<rparr>"
    have "wait_step E t h = Some ?h" using p(1) None less.prems(2) by (simp add: wait_step.simps)
    then show ?thesis by (rule wait_alone_Suc) (rule alone_from_disarm, use l(1) less.prems(3,4) in auto)
  next
    case (Some q)
    let ?h = "h\<lparr>mem := m', wpc := WPark q\<rparr>"
    have s: "wait_step E t h = Some ?h" using p(1) Some less.prems(2) by (simp add: wait_step.simps)
    have "\<exists>k h'. wait_alone E t k ?h = Some h' \<and> wpc h' = WReady"
      using p(2) Some less.prems(3,4) waits_inv_wait [OF less.prems(1) s] by (intro less.hyps [of q ?h]) simp_all
    then show ?thesis by (rule wait_alone_Suc [OF s])
  qed
qed

theorem woken:
  assumes "waits E n h" "0 < n" "\<forall>i<n. npcs h ! i = PDone"
  shows "\<exists>k h'. wait_alone E t k h = Some h' \<and> wpc h' = WReady"
proof -
  have inv: "waits_inv n h" using assms(1) by (rule waits_invariant)
  then have l: "length (npcs h) = n" "npcs h \<noteq> []" "npcs h ! 0 = PDone" using assms(2,3) by (auto simp: waits_inv_def)
  show ?thesis
  proof (cases "wpc h")
    case WArm
    then show ?thesis using l by (rule_tac alone_from_arm)
  next
    case (WCheck i)
    show ?thesis
    proof (cases "i < n")
      case True
      then show ?thesis using WCheck assms(3) l(1) by (intro alone_from_check) auto
    next
      case False
      let ?h = "h\<lparr>wpc := WPark (ec_park E t)\<rparr>"
      have s: "wait_step E t h = Some ?h" using WCheck False l(1) by (simp add: wait_step.simps)
      have "\<exists>k h'. wait_alone E t k ?h = Some h' \<and> wpc h' = WReady"
        using waits_inv_wait [OF inv s] assms(2,3) by (intro alone_from_park) simp_all
      then show ?thesis by (rule wait_alone_Suc [OF s])
    qed
  next
    case (WPark p)
    then show ?thesis using inv assms(2,3) by (intro alone_from_park)
  next
    case (WDisarm found)
    then show ?thesis using l by (rule_tac alone_from_disarm)
  next
    case WReady
    then show ?thesis by (intro exI [of _ 0]) simp
  qed
qed

end

end
