(* ===== verification/Park_Kernels.thy ===== *)
theory Park_Kernels
  imports Park
begin

text \<open>
  The four wait strategies of \<open>src/src/park/\<close>, each shown to be an \<open>eventcount\<close>: the mutex and condition variable of
  \<open>condvar.rs\<close>, the spin-then-park waiter of \<open>hybrid.rs\<close>, the \<open>std::thread\<close> parking of \<open>std_thread.rs\<close> and the bounded
  spin of \<open>spin.rs\<close>.

  A mutex is the field that says whether it is held. \<open>Condvar::wait_for\<close> leaves the mutex and enters the wait queue
  in one step, and takes the mutex again once a \<open>notify_one\<close> or the time limit has taken the thread out of the
  queue. \<open>Thread::unpark\<close> leaves a token that the next \<open>park_timeout\<close> of that thread consumes.
\<close>

lemma length_filter_update:
  "i < length xs \<Longrightarrow> length (filter P (xs[i := y])) + of_bool (P (xs ! i)) = length (filter P xs) + of_bool (P y)"
proof (induction xs arbitrary: i)
  case (Cons x xs)
  then show ?case by (cases i) auto
qed simp

lemma in_set_update_other:
  "x \<in> set xs \<Longrightarrow> xs ! i \<noteq> x \<Longrightarrow> x \<in> set (xs[i := y])"
  by (metis in_set_conv_nth length_list_update nth_list_update_neq)

lemma in_set_update_self: "i < length xs \<Longrightarrow> y \<in> set (xs[i := y])"
  by (rule set_update_memI)

text \<open>
  \<open>mutex held w P ns\<close>: a mutex is held by at most one thread, the waiter when \<open>w\<close>, or the one notifier that is at a point of \<open>P\<close>.
\<close>

definition mutex :: "bool \<Rightarrow> bool \<Rightarrow> 'n set \<Rightarrow> 'n option list \<Rightarrow> bool" where
  "mutex held w P ns \<longleftrightarrow> of_bool w + length (filter (\<lambda>n. n \<in> Some ` P) ns) = (of_bool held :: nat)"

lemma mutex_init: "mutex False False P (replicate k None)"
  by (induction k) (auto simp: mutex_def)

lemma mutex_idle:
  assumes "mutex held w P ns" "set ns \<subseteq> {None}"
  shows "held = w"
proof -
  have "filter (\<lambda>n. n \<in> Some ` P) ns = []" using assms(2) by (auto simp: filter_empty_conv)
  then show ?thesis using assms(1) by (cases held; cases w) (simp_all add: mutex_def)
qed

lemma mutex_waiter:
  "mutex False w P ns \<Longrightarrow> \<not> w" "mutex False w P ns \<Longrightarrow> mutex True True P ns"
  "mutex held True P ns \<Longrightarrow> held" "mutex held True P ns \<Longrightarrow> mutex False False P ns"
  by (cases held; cases w; simp add: mutex_def)+

lemma mutex_move:
  assumes "i < length ns" "ns ! i \<in> Some ` P \<longleftrightarrow> y \<in> Some ` P"
  shows "mutex held w P (ns[i := y]) = mutex held w P ns"
  using length_filter_update [OF assms(1), of "\<lambda>n. n \<in> Some ` P" y] assms(2) by (simp add: mutex_def)

lemma mutex_lock:
  assumes "mutex False w P ns" "i < length ns" "y \<in> Some ` P"
  shows "mutex True w P (ns[i := y])"
  using length_filter_update [OF assms(2), of "\<lambda>n. n \<in> Some ` P" y] assms by (cases w) (auto simp: mutex_def filter_empty_conv)

lemma mutex_unlock:
  assumes "mutex held w P ns" "i < length ns" "ns ! i \<in> Some ` P" "y \<notin> Some ` P"
  shows "mutex False w P (ns[i := y])"
  using length_filter_update [OF assms(2), of "\<lambda>n. n \<in> Some ` P" y] assms(1,3,4) by (cases w; cases held) (simp_all add: mutex_def)

lemma mutex_excludes:
  assumes "mutex held w P ns" "i < length ns" "ns ! i \<in> Some ` P"
  shows "held" "\<not> w"
proof -
  have "filter (\<lambda>n. n \<in> Some ` P) ns \<noteq> []" using assms(2,3) by (metis (no_types, lifting) filter_empty_conv nth_mem)
  then have "0 < length (filter (\<lambda>n. n \<in> Some ` P) ns)" by simp
  then show "held" "\<not> w" using assms(1) by (cases held; cases w; simp add: mutex_def)+
qed

section \<open>Mutex and condition variable\<close>

record Condvar =
  parked :: bool
  m_locked :: bool
  cv_queued :: bool

datatype condvar_park = CLock | CLoad | CWait | CSleep | CUnlock
datatype condvar_wake = CwLoad | CwLock | CwStore | CwNotify | CwUnlock

fun condvar_park_step :: "Condvar \<Rightarrow> condvar_park \<Rightarrow> (Condvar \<times> condvar_park option) option" where
  "condvar_park_step m CLock = (if m_locked m then None else Some (m\<lparr>m_locked := True\<rparr>, Some CLoad))"
| "condvar_park_step m CLoad = Some (m, Some (if parked m then CWait else CUnlock))"
| "condvar_park_step m CWait = Some (m\<lparr>m_locked := False, cv_queued := True\<rparr>, Some CSleep)"
| "condvar_park_step m CSleep = (if cv_queued m \<or> m_locked m then None else Some (m\<lparr>m_locked := True\<rparr>, Some CUnlock))"
| "condvar_park_step m CUnlock = Some (m\<lparr>m_locked := False\<rparr>, None)"

fun condvar_timeout :: "Condvar \<Rightarrow> condvar_park \<Rightarrow> (Condvar \<times> condvar_park option) option" where
  "condvar_timeout m CSleep = Some (m\<lparr>cv_queued := False\<rparr>, Some CSleep)"
| "condvar_timeout m _ = None"

fun condvar_wake_step :: "Condvar \<Rightarrow> condvar_wake \<Rightarrow> (Condvar \<times> condvar_wake option) option" where
  "condvar_wake_step m CwLoad = Some (m, if parked m then Some CwLock else None)"
| "condvar_wake_step m CwLock = (if m_locked m then None else Some (m\<lparr>m_locked := True\<rparr>, Some CwStore))"
| "condvar_wake_step m CwStore = Some (m\<lparr>parked := False\<rparr>, Some CwNotify)"
| "condvar_wake_step m CwNotify = Some (m\<lparr>cv_queued := False\<rparr>, Some CwUnlock)"
| "condvar_wake_step m CwUnlock = Some (m\<lparr>m_locked := False\<rparr>, None)"

definition condvar :: "(Condvar, condvar_park, condvar_wake) Eventcount" where
  "condvar = \<lparr>ec_init = \<lparr>parked = False, m_locked = False, cv_queued = False\<rparr>,
     ec_arm = parked_update (\<lambda>_. True), ec_disarm = parked_update (\<lambda>_. False), ec_park = (\<lambda>_. CLock),
     ec_park_step = condvar_park_step, ec_timeout = condvar_timeout,
     ec_wake = CwLoad, ec_wake_step = condvar_wake_step\<rparr>"

text \<open>The mutex has at most one holder; a sleeper whose flag is down has a notifier about to signal it.\<close>

definition condvar_inv :: "Condvar \<Rightarrow> condvar_park option \<Rightarrow> condvar_wake option list \<Rightarrow> bool" where
  "condvar_inv m p ns \<longleftrightarrow>
     mutex (m_locked m) (p \<in> Some ` {CLoad, CWait, CUnlock}) {CwStore, CwNotify, CwUnlock} ns
     \<and> (cv_queued m \<longrightarrow> p = Some CSleep)
     \<and> (p = Some CWait \<longrightarrow> parked m)
     \<and> (cv_queued m \<longrightarrow> parked m \<or> Some CwNotify \<in> set ns)"

fun condvar_rank :: "condvar_park \<Rightarrow> nat" where
  "condvar_rank CLock = 4" | "condvar_rank CLoad = 3" | "condvar_rank CWait = 2" | "condvar_rank CSleep = 1" | "condvar_rank CUnlock = 0"

lemma condvar_park_inv:
  assumes "condvar_inv m (Some p) ns" "condvar_park_step m p = Some (m', p')"
  shows "condvar_inv m' p' ns \<and> (parked m' \<longrightarrow> parked m)"
  using assms by (cases p) (auto simp: condvar_inv_def mutex_waiter split: if_splits)

lemma condvar_wake_inv:
  assumes inv: "condvar_inv m p ns" and i: "i < length ns" "ns ! i = Some n" and step: "condvar_wake_step m n = Some (m', n')"
  shows "condvar_inv m' p (ns[i := n'])"
proof -
  let ?P = "{CwStore, CwNotify, CwUnlock}" and ?w = "p \<in> Some ` {CLoad, CWait, CUnlock}"
  have M: "mutex (m_locked m) ?w ?P ns" using inv by (simp add: condvar_inv_def)
  have ex: "m_locked m" "\<not> ?w" if "n \<in> ?P" using mutex_excludes [OF M i(1)] i(2) that by auto
  note R = inv [unfolded condvar_inv_def, THEN conjunct2] and keep = in_set_update_other [of "Some CwNotify" ns i n']
  show ?thesis
  proof (cases n)
    case CwLoad
    then show ?thesis using R M mutex_move [OF i(1), of ?P n'] i keep step by (auto simp: condvar_inv_def split: if_splits)
  next
    case CwLock
    then show ?thesis using R mutex_lock [of ?w ?P ns i n'] M i keep step by (auto simp: condvar_inv_def split: if_splits)
  next
    case CwStore
    then show ?thesis using R M mutex_move [OF i(1), of ?P n'] i ex step in_set_update_self [OF i(1), of n'] by (auto simp: condvar_inv_def)
  next
    case CwNotify
    then show ?thesis using R M mutex_move [OF i(1), of ?P n'] i ex step by (auto simp: condvar_inv_def)
  next
    case CwUnlock
    then show ?thesis using R mutex_unlock [OF M i(1), of n'] i ex keep step by (auto simp: condvar_inv_def)
  qed
qed

interpretation condvar: eventcount condvar parked condvar_inv "\<lambda>n. n \<in> {CwNotify, CwUnlock}" condvar_rank
proof
  fix k show "condvar_inv (ec_init condvar) None (replicate k None)" by (simp add: condvar_def condvar_inv_def mutex_init)
next
  fix m p ns assume "condvar_inv m (Some p) ns" "set ns \<subseteq> {None}" "\<not> parked m"
  then show "\<exists>m' p'. ec_park_step condvar m p = Some (m', p') \<and> pred_option (\<lambda>q. condvar_rank q < condvar_rank p) p'"
    by (cases p) (auto simp: condvar_def condvar_inv_def dest: mutex_idle)
next
  fix m po ns i n m' n' assume "condvar_inv m po ns" "i < length ns" "ns ! i = Some n" "ec_wake_step condvar m n = Some (m', n')"
  then show "condvar_inv m' po (ns[i := n']) \<and> (parked m' \<longrightarrow> parked m)
      \<and> (n \<notin> {CwNotify, CwUnlock} \<and> pred_option (\<lambda>n. n \<in> {CwNotify, CwUnlock}) n' \<longrightarrow> \<not> parked m')"
    using condvar_wake_inv [of m po ns i n m' n'] by (cases n) (auto simp: condvar_def split: if_splits)
next
  fix m po ns i assume a: "condvar_inv m po ns" "i < length ns" "ns ! i = None"
  have "mutex h w {CwStore, CwNotify, CwUnlock} (ns[i := Some CwLoad]) = mutex h w {CwStore, CwNotify, CwUnlock} ns" for h w
    using a(2,3) by (intro mutex_move) auto
  moreover have "Some CwNotify \<in> set ns \<Longrightarrow> Some CwNotify \<in> set (ns[i := Some CwLoad])" using a(3) by (intro in_set_update_other) auto
  ultimately show "condvar_inv m po (ns[i := Some (ec_wake condvar)])" using a(1) by (simp add: condvar_def condvar_inv_def) blast
next
  fix m p ns m' p' assume "condvar_inv m (Some p) ns" "ec_park_step condvar m p = Some (m', p')"
  then show "condvar_inv m' p' ns \<and> (parked m' \<longrightarrow> parked m)" by (intro condvar_park_inv) (simp_all add: condvar_def)
next
  fix m p ns m' p' assume "condvar_inv m (Some p) ns" "ec_timeout condvar m p = Some (m', p')"
  then show "condvar_inv m' p' ns \<and> (parked m' \<longrightarrow> parked m)" by (cases p) (auto simp: condvar_def condvar_inv_def)
qed (auto simp: condvar_def condvar_inv_def)

section \<open>Spin, then park\<close>

record Hybrid =
  armed :: bool
  sleeping :: bool
  h_locked :: bool
  h_queued :: bool

definition SPIN_BUDGET :: nat where
  "SPIN_BUDGET = 512"

datatype hybrid_park = HSpin nat | HLock | HSet | HLoad | HWait | HSleep | HReset | HUnlock
datatype hybrid_wake = HwLoad | HwStore | HwSleeping | HwLock | HwNotify | HwUnlock

fun hybrid_park_step :: "Hybrid \<Rightarrow> hybrid_park \<Rightarrow> (Hybrid \<times> hybrid_park option) option" where
  "hybrid_park_step m (HSpin k) =
     Some (m, if \<not> armed m then None else Some (if k + 1 < SPIN_BUDGET then HSpin (k + 1) else HLock))"
| "hybrid_park_step m HLock = (if h_locked m then None else Some (m\<lparr>h_locked := True\<rparr>, Some HSet))"
| "hybrid_park_step m HSet = Some (m\<lparr>sleeping := True\<rparr>, Some HLoad)"
| "hybrid_park_step m HLoad = Some (m, Some (if armed m then HWait else HReset))"
| "hybrid_park_step m HWait = Some (m\<lparr>h_locked := False, h_queued := True\<rparr>, Some HSleep)"
| "hybrid_park_step m HSleep = (if h_queued m \<or> h_locked m then None else Some (m\<lparr>h_locked := True\<rparr>, Some HReset))"
| "hybrid_park_step m HReset = Some (m\<lparr>sleeping := False\<rparr>, Some HUnlock)"
| "hybrid_park_step m HUnlock = Some (m\<lparr>h_locked := False\<rparr>, None)"

fun hybrid_timeout :: "Hybrid \<Rightarrow> hybrid_park \<Rightarrow> (Hybrid \<times> hybrid_park option) option" where
  "hybrid_timeout m HSleep = Some (m\<lparr>h_queued := False\<rparr>, Some HSleep)"
| "hybrid_timeout m _ = None"

fun hybrid_wake_step :: "Hybrid \<Rightarrow> hybrid_wake \<Rightarrow> (Hybrid \<times> hybrid_wake option) option" where
  "hybrid_wake_step m HwLoad = Some (m, if armed m then Some HwStore else None)"
| "hybrid_wake_step m HwStore = Some (m\<lparr>armed := False\<rparr>, Some HwSleeping)"
| "hybrid_wake_step m HwSleeping = Some (m, if sleeping m then Some HwLock else None)"
| "hybrid_wake_step m HwLock = (if h_locked m then None else Some (m\<lparr>h_locked := True\<rparr>, Some HwNotify))"
| "hybrid_wake_step m HwNotify = Some (m\<lparr>h_queued := False\<rparr>, Some HwUnlock)"
| "hybrid_wake_step m HwUnlock = Some (m\<lparr>h_locked := False\<rparr>, None)"

definition hybrid :: "(Hybrid, hybrid_park, hybrid_wake) Eventcount" where
  "hybrid = \<lparr>ec_init = \<lparr>armed = False, sleeping = False, h_locked = False, h_queued = False\<rparr>,
     ec_arm = armed_update (\<lambda>_. True), ec_disarm = armed_update (\<lambda>_. False), ec_park = (\<lambda>_. HSpin 0),
     ec_park_step = hybrid_park_step, ec_timeout = hybrid_timeout,
     ec_wake = HwLoad, ec_wake_step = hybrid_wake_step\<rparr>"

text \<open>A notifier past the flag that the waiter has shown it sleeps to: it will see \<open>sleeping\<close> and signal.\<close>

definition hybrid_on_way :: "hybrid_wake option list \<Rightarrow> bool" where
  "hybrid_on_way ns \<longleftrightarrow> Some HwSleeping \<in> set ns \<or> Some HwLock \<in> set ns"

definition hybrid_inv :: "Hybrid \<Rightarrow> hybrid_park option \<Rightarrow> hybrid_wake option list \<Rightarrow> bool" where
  "hybrid_inv m p ns \<longleftrightarrow>
     mutex (h_locked m) (p \<in> Some ` {HSet, HLoad, HWait, HReset, HUnlock}) {HwNotify, HwUnlock} ns
     \<and> (p \<in> Some ` {HLoad, HWait, HSleep} \<longrightarrow> sleeping m)
     \<and> (h_queued m \<longrightarrow> p = Some HSleep)
     \<and> (p = Some HWait \<longrightarrow> armed m \<or> hybrid_on_way ns)
     \<and> (h_queued m \<longrightarrow> armed m \<or> hybrid_on_way ns \<or> Some HwNotify \<in> set ns)"

fun hybrid_rank :: "hybrid_park \<Rightarrow> nat" where
  "hybrid_rank (HSpin k) = 8 + (SPIN_BUDGET - k)" | "hybrid_rank HLock = 7" | "hybrid_rank HSet = 6" | "hybrid_rank HLoad = 5"
| "hybrid_rank HWait = 4" | "hybrid_rank HSleep = 3" | "hybrid_rank HReset = 2" | "hybrid_rank HUnlock = 1"

lemma hybrid_park_inv:
  assumes "hybrid_inv m (Some p) ns" "hybrid_park_step m p = Some (m', p')"
  shows "hybrid_inv m' p' ns \<and> (armed m' \<longrightarrow> armed m)"
  using assms by (cases p) (auto simp: hybrid_inv_def mutex_waiter split: if_splits)

lemma hybrid_on_way_update:
  assumes "hybrid_on_way ns" "i < length ns" "ns ! i \<notin> Some ` {HwSleeping, HwLock} \<or> y \<in> Some ` {HwSleeping, HwLock}"
  shows "hybrid_on_way (ns[i := y])"
proof (cases "y \<in> Some ` {HwSleeping, HwLock}")
  case True
  then show ?thesis using in_set_update_self [OF assms(2), of y] by (auto simp: hybrid_on_way_def)
next
  case False
  then show ?thesis using assms in_set_update_other [of _ ns i y] unfolding hybrid_on_way_def by blast
qed

lemma hybrid_wake_inv:
  assumes inv: "hybrid_inv m p ns" and i: "i < length ns" "ns ! i = Some n" and step: "hybrid_wake_step m n = Some (m', n')"
  shows "hybrid_inv m' p (ns[i := n'])"
proof -
  let ?P = "{HwNotify, HwUnlock}" and ?w = "p \<in> Some ` {HSet, HLoad, HWait, HReset, HUnlock}"
  have M: "mutex (h_locked m) ?w ?P ns" using inv by (simp add: hybrid_inv_def)
  have ex: "h_locked m" "\<not> ?w" if "n \<in> ?P" using mutex_excludes [OF M i(1)] i(2) that by auto
  note R = inv [unfolded hybrid_inv_def, THEN conjunct2]
  have keep: "Some HwNotify \<in> set ns \<Longrightarrow> n \<noteq> HwNotify \<Longrightarrow> Some HwNotify \<in> set (ns[i := n'])"
    using i(2) by (intro in_set_update_other) auto
  have way: "hybrid_on_way ns \<Longrightarrow> n \<notin> {HwSleeping, HwLock} \<or> n' \<in> Some ` {HwSleeping, HwLock} \<Longrightarrow> hybrid_on_way (ns[i := n'])"
    using i(2) by (intro hybrid_on_way_update [OF _ i(1)]) auto
  have self: "n' \<in> set (ns[i := n'])" by (rule in_set_update_self [OF i(1)])
  have mv: "mutex h w ?P (ns[i := n']) = mutex h w ?P ns" if "n \<in> ?P \<longleftrightarrow> n' \<in> Some ` ?P" for h w
    using that i(2) by (intro mutex_move [OF i(1)]) auto
  show ?thesis
  proof (cases n)
    case HwLoad
    then show ?thesis using R M mv way keep step by (auto simp: hybrid_inv_def split: if_splits)
  next
    case HwStore
    then have "hybrid_on_way (ns[i := n'])" using step self by (simp add: hybrid_on_way_def)
    then show ?thesis using R M mv step HwStore by (auto simp: hybrid_inv_def)
  next
    case HwSleeping
    then show ?thesis using R M mv way keep step by (cases "sleeping m") (auto simp: hybrid_inv_def)
  next
    case HwLock
    then have l: "\<not> h_locked m" "n' = Some HwNotify" "m' = m\<lparr>h_locked := True\<rparr>" using step by (auto split: if_splits)
    then have "mutex True ?w ?P (ns[i := n'])" using M i by (intro mutex_lock) auto
    then show ?thesis using R l self mutex_waiter(1) M by (auto simp: hybrid_inv_def)
  next
    case HwNotify
    then show ?thesis using R M mv way ex step by (auto simp: hybrid_inv_def)
  next
    case HwUnlock
    then show ?thesis using R mutex_unlock [OF M i(1), of n'] way keep i ex step by (auto simp: hybrid_inv_def)
  qed
qed

interpretation hybrid: eventcount hybrid armed hybrid_inv "\<lambda>n. n \<notin> {HwLoad, HwStore}" hybrid_rank
proof
  fix k show "hybrid_inv (ec_init hybrid) None (replicate k None)" by (simp add: hybrid_def hybrid_inv_def mutex_init)
next
  fix m p ns assume a: "hybrid_inv m (Some p) ns" "set ns \<subseteq> {None}" "\<not> armed m"
  then have "\<not> hybrid_on_way ns" "Some HwNotify \<notin> set ns" by (auto simp: hybrid_on_way_def)
  then show "\<exists>m' p'. ec_park_step hybrid m p = Some (m', p') \<and> pred_option (\<lambda>q. hybrid_rank q < hybrid_rank p) p'"
    using a by (cases p) (auto simp: hybrid_def hybrid_inv_def dest: mutex_idle)
next
  fix m po ns i n m' n' assume "hybrid_inv m po ns" "i < length ns" "ns ! i = Some n" "ec_wake_step hybrid m n = Some (m', n')"
  then show "hybrid_inv m' po (ns[i := n']) \<and> (armed m' \<longrightarrow> armed m)
      \<and> (\<not> n \<notin> {HwLoad, HwStore} \<and> pred_option (\<lambda>n. n \<notin> {HwLoad, HwStore}) n' \<longrightarrow> \<not> armed m')"
    using hybrid_wake_inv [of m po ns i n m' n'] by (cases n) (auto simp: hybrid_def split: if_splits)
next
  fix m po ns i assume a: "hybrid_inv m po ns" "i < length ns" "ns ! i = None"
  have "mutex h w {HwNotify, HwUnlock} (ns[i := Some HwLoad]) = mutex h w {HwNotify, HwUnlock} ns" for h w
    using a(2,3) by (intro mutex_move) auto
  moreover have "Some HwNotify \<in> set ns \<Longrightarrow> Some HwNotify \<in> set (ns[i := Some HwLoad])" using a(3) by (intro in_set_update_other) auto
  moreover have "hybrid_on_way ns \<Longrightarrow> hybrid_on_way (ns[i := Some HwLoad])" using a(2,3) by (intro hybrid_on_way_update) auto
  ultimately show "hybrid_inv m po (ns[i := Some (ec_wake hybrid)])" using a(1) by (simp add: hybrid_def hybrid_inv_def) blast
next
  fix m p ns m' p' assume "hybrid_inv m (Some p) ns" "ec_park_step hybrid m p = Some (m', p')"
  then show "hybrid_inv m' p' ns \<and> (armed m' \<longrightarrow> armed m)" by (intro hybrid_park_inv) (simp_all add: hybrid_def)
next
  fix m p ns m' p' assume "hybrid_inv m (Some p) ns" "ec_timeout hybrid m p = Some (m', p')"
  then show "hybrid_inv m' p' ns \<and> (armed m' \<longrightarrow> armed m)" by (cases p) (auto simp: hybrid_def hybrid_inv_def)
qed (auto simp: hybrid_def hybrid_inv_def)

section \<open>Thread parking\<close>

text \<open>The waiter may run on another thread at every call; \<open>handle\<close> names the thread that parked last, \<open>tokens\<close> the threads that were unparked.\<close>

record StdThread =
  st_parked :: bool
  handle_locked :: bool
  handle :: "nat option"
  tokens :: "nat set"

datatype std_park = SLoad nat | SLock nat | SLoadLocked nat | SHandle nat | SRelease nat | SPark nat | SUnlock
datatype std_wake = SwLoad | SwStore | SwLock | SwRead | SwUnlock "nat option" | SwUnpark "nat option"

fun std_park_step :: "StdThread \<Rightarrow> std_park \<Rightarrow> (StdThread \<times> std_park option) option" where
  "std_park_step m (SLoad t) = Some (m, if st_parked m then Some (SLock t) else None)"
| "std_park_step m (SLock t) = (if handle_locked m then None else Some (m\<lparr>handle_locked := True\<rparr>, Some (SLoadLocked t)))"
| "std_park_step m (SLoadLocked t) = Some (m, Some (if st_parked m then SHandle t else SUnlock))"
| "std_park_step m (SHandle t) = Some (m\<lparr>handle := Some t\<rparr>, Some (SRelease t))"
| "std_park_step m (SRelease t) = Some (m\<lparr>handle_locked := False\<rparr>, Some (SPark t))"
| "std_park_step m (SPark t) = (if t \<in> tokens m then Some (m\<lparr>tokens := tokens m - {t}\<rparr>, None) else None)"
| "std_park_step m SUnlock = Some (m\<lparr>handle_locked := False\<rparr>, None)"

fun std_timeout :: "StdThread \<Rightarrow> std_park \<Rightarrow> (StdThread \<times> std_park option) option" where
  "std_timeout m (SPark t) = Some (m, None)"
| "std_timeout m _ = None"

fun std_wake_step :: "StdThread \<Rightarrow> std_wake \<Rightarrow> (StdThread \<times> std_wake option) option" where
  "std_wake_step m SwLoad = Some (m, if st_parked m then Some SwStore else None)"
| "std_wake_step m SwStore = Some (m\<lparr>st_parked := False\<rparr>, Some SwLock)"
| "std_wake_step m SwLock = (if handle_locked m then None else Some (m\<lparr>handle_locked := True\<rparr>, Some SwRead))"
| "std_wake_step m SwRead = Some (m, Some (SwUnlock (handle m)))"
| "std_wake_step m (SwUnlock t) = Some (m\<lparr>handle_locked := False\<rparr>, Some (SwUnpark t))"
| "std_wake_step m (SwUnpark t) = Some (case t of None \<Rightarrow> m | Some t \<Rightarrow> m\<lparr>tokens := insert t (tokens m)\<rparr>, None)"

definition std_thread :: "(StdThread, std_park, std_wake) Eventcount" where
  "std_thread = \<lparr>ec_init = \<lparr>st_parked = False, handle_locked = False, handle = None, tokens = {}\<rparr>,
     ec_arm = st_parked_update (\<lambda>_. True), ec_disarm = st_parked_update (\<lambda>_. False), ec_park = SLoad,
     ec_park_step = std_park_step, ec_timeout = std_timeout,
     ec_wake = SwLoad, ec_wake_step = std_wake_step\<rparr>"

fun std_holds :: "std_park \<Rightarrow> bool" where
  "std_holds (SLoadLocked t) = True" | "std_holds (SHandle t) = True" | "std_holds (SRelease t) = True" | "std_holds SUnlock = True"
| "std_holds _ = False"

definition std_holders :: "std_wake set" where
  "std_holders = insert SwRead (range SwUnlock)"

text \<open>A notifier past the flag that is going to unpark thread \<open>t\<close>, which has published its handle.\<close>

definition std_on_way :: "nat \<Rightarrow> std_wake option list \<Rightarrow> bool" where
  "std_on_way t ns \<longleftrightarrow> (\<exists>n\<in>{SwLock, SwRead, SwUnlock (Some t), SwUnpark (Some t)}. Some n \<in> set ns)"

fun std_point_inv :: "StdThread \<Rightarrow> std_wake option list \<Rightarrow> std_park option \<Rightarrow> bool" where
  "std_point_inv m ns (Some (SHandle t)) = (st_parked m \<or> Some SwLock \<in> set ns)"
| "std_point_inv m ns (Some (SRelease t)) = (handle m = Some t \<and> (st_parked m \<or> Some SwLock \<in> set ns))"
| "std_point_inv m ns (Some (SPark t)) = (handle m = Some t \<and> (st_parked m \<or> t \<in> tokens m \<or> std_on_way t ns))"
| "std_point_inv m ns _ = True"

definition std_inv :: "StdThread \<Rightarrow> std_park option \<Rightarrow> std_wake option list \<Rightarrow> bool" where
  "std_inv m p ns \<longleftrightarrow> mutex (handle_locked m) (case p of None \<Rightarrow> False | Some p \<Rightarrow> std_holds p) std_holders ns \<and> std_point_inv m ns p"

fun std_rank :: "std_park \<Rightarrow> nat" where
  "std_rank (SLoad t) = 6" | "std_rank (SLock t) = 5" | "std_rank (SLoadLocked t) = 4" | "std_rank (SHandle t) = 3"
| "std_rank (SRelease t) = 2" | "std_rank (SPark t) = 1" | "std_rank SUnlock = 1"

lemma std_park_inv:
  assumes "std_inv m (Some p) ns" "std_park_step m p = Some (m', p')"
  shows "std_inv m' p' ns \<and> (st_parked m' \<longrightarrow> st_parked m)"
  using assms by (cases p) (auto simp: std_inv_def std_on_way_def mutex_waiter split: if_splits)

lemma std_holders_simps [simp]:
  "Some SwRead \<in> Some ` std_holders" "Some (SwUnlock t) \<in> Some ` std_holders" "None \<notin> Some ` std_holders"
  "Some SwLoad \<notin> Some ` std_holders" "Some SwStore \<notin> Some ` std_holders" "Some SwLock \<notin> Some ` std_holders" "Some (SwUnpark t) \<notin> Some ` std_holders"
  by (auto simp: std_holders_def)

text \<open>What a step of notifier \<open>i\<close> from \<open>n\<close> to \<open>n'\<close> must keep: the points that promise an unpark.\<close>

lemma std_point_step:
  assumes "std_point_inv m ns p" "i < length ns" "ns ! i = Some n" "n \<notin> {SwLock, SwRead} \<union> range SwUnlock \<union> range SwUnpark"
    and "st_parked m \<longrightarrow> st_parked m' \<or> n' = Some SwLock" "handle m' = handle m" "tokens m' = tokens m"
  shows "std_point_inv m' (ns[i := n']) p"
proof -
  have k: "Some x \<in> set (ns[i := n'])" if "Some x \<in> set ns" "x \<noteq> n" for x using that assms(3) by (intro in_set_update_other) auto
  have self: "n' \<in> set (ns[i := n'])" by (rule in_set_update_self [OF assms(2)])
  have lk: "Some SwLock \<in> set ns \<Longrightarrow> Some SwLock \<in> set (ns[i := n'])" using k assms(4) by auto
  have way: "std_on_way t ns \<Longrightarrow> std_on_way t (ns[i := n'])" for t using k assms(4) unfolding std_on_way_def by (auto 4 3)
  have "n' = Some SwLock \<Longrightarrow> std_on_way t (ns[i := n'])" for t using self by (auto simp: std_on_way_def)
  with lk way self assms(1,5-7) show ?thesis by (cases "(m, ns, p)" rule: std_point_inv.cases) auto
qed

lemma std_wake_inv:
  assumes inv: "std_inv m p ns" and i: "i < length ns" "ns ! i = Some n" and step: "std_wake_step m n = Some (m', n')"
  shows "std_inv m' p (ns[i := n'])"
proof -
  let ?w = "case p of None \<Rightarrow> False | Some p \<Rightarrow> std_holds p"
  have M: "mutex (handle_locked m) ?w std_holders ns" and R: "std_point_inv m ns p" using inv by (auto simp: std_inv_def)
  have ex: "handle_locked m" "\<not> ?w" if "n \<in> std_holders" using mutex_excludes [OF M i(1)] i(2) that by auto
  have k: "Some x \<in> set (ns[i := n'])" if "Some x \<in> set ns" "x \<noteq> n" for x using that i(2) by (intro in_set_update_other) auto
  have self: "n' \<in> set (ns[i := n'])" by (rule in_set_update_self [OF i(1)])
  have mv: "mutex h w std_holders (ns[i := n']) = mutex h w std_holders ns" if "Some n \<in> Some ` std_holders \<longleftrightarrow> n' \<in> Some ` std_holders" for h w
    using that i(2) by (intro mutex_move [OF i(1)]) auto
  show ?thesis
  proof (cases n)
    case SwLoad
    then have "std_point_inv m' (ns[i := n']) p" using step i by (intro std_point_step [OF R i]) (auto split: if_splits)
    then show ?thesis using M mv step SwLoad by (auto simp: std_inv_def split: if_splits)
  next
    case SwStore
    then have "std_point_inv m' (ns[i := n']) p" using step i by (intro std_point_step [OF R i]) auto
    then show ?thesis using M mv step SwStore by (auto simp: std_inv_def)
  next
    case SwLock
    then have l: "\<not> handle_locked m" "n' = Some SwRead" "m' = m\<lparr>handle_locked := True\<rparr>" using step by (auto split: if_splits)
    then have "\<not> ?w" "mutex True ?w std_holders (ns[i := n'])" using M i mutex_waiter(1) [of ?w] by (auto intro: mutex_lock)
    moreover have "std_on_way t (ns[i := n'])" for t using l self by (auto simp: std_on_way_def)
    ultimately show ?thesis using R l by (cases "(m, ns, p)" rule: std_point_inv.cases) (auto simp: std_inv_def)
  next
    case SwRead
    have w: "std_on_way t (ns[i := n'])" if "handle m = Some t" for t using that step self SwRead by (auto simp: std_on_way_def)
    have "\<not> ?w" using ex SwRead by (simp add: std_holders_def)
    then show ?thesis using R M mv step SwRead w by (cases "(m, ns, p)" rule: std_point_inv.cases) (auto simp: std_inv_def)
  next
    case (SwUnlock u)
    have w: "std_on_way t (ns[i := n'])" if "std_on_way t ns" for t
    proof (cases "u = Some t")
      case True
      then show ?thesis using step self SwUnlock by (auto simp: std_on_way_def)
    next
      case False
      then show ?thesis using that k SwUnlock unfolding std_on_way_def by (auto 4 3)
    qed
    have "\<not> ?w" using ex SwUnlock by (simp add: std_holders_def)
    then show ?thesis using R mutex_unlock [OF M i(1), of n'] i step SwUnlock w
      by (cases "(m, ns, p)" rule: std_point_inv.cases) (auto simp: std_inv_def)
  next
    case (SwUnpark u)
    have w: "t \<in> tokens m' \<or> std_on_way t (ns[i := n'])" if "std_on_way t ns" for t
    proof (cases "u = Some t")
      case True
      then show ?thesis using step SwUnpark by auto
    next
      case False
      then show ?thesis using that k SwUnpark unfolding std_on_way_def by (auto 4 3)
    qed
    have lk: "Some SwLock \<in> set ns \<Longrightarrow> Some SwLock \<in> set (ns[i := n'])" using k SwUnpark by auto
    have s: "handle m' = handle m" "st_parked m' = st_parked m" "handle_locked m' = handle_locked m" "tokens m \<subseteq> tokens m'" "n' = None"
      using step SwUnpark by (auto split: option.splits)
    then show ?thesis using R M mv SwUnpark w lk by (cases "(m, ns, p)" rule: std_point_inv.cases) (auto simp: std_inv_def)
  qed
qed

interpretation std_thread: eventcount std_thread st_parked std_inv "\<lambda>n. n \<notin> {SwLoad, SwStore}" std_rank
proof
  fix k show "std_inv (ec_init std_thread) None (replicate k None)" by (simp add: std_thread_def std_inv_def mutex_init)
next
  fix m p ns assume a: "std_inv m (Some p) ns" "set ns \<subseteq> {None}" "\<not> st_parked m"
  then have "\<not> std_on_way t ns" "Some SwLock \<notin> set ns" for t by (auto simp: std_on_way_def)
  then show "\<exists>m' p'. ec_park_step std_thread m p = Some (m', p') \<and> pred_option (\<lambda>q. std_rank q < std_rank p) p'"
    using a by (cases p) (auto simp: std_thread_def std_inv_def dest: mutex_idle)
next
  fix m po ns i n m' n' assume "std_inv m po ns" "i < length ns" "ns ! i = Some n" "ec_wake_step std_thread m n = Some (m', n')"
  then show "std_inv m' po (ns[i := n']) \<and> (st_parked m' \<longrightarrow> st_parked m)
      \<and> (\<not> n \<notin> {SwLoad, SwStore} \<and> pred_option (\<lambda>n. n \<notin> {SwLoad, SwStore}) n' \<longrightarrow> \<not> st_parked m')"
    using std_wake_inv [of m po ns i n m' n'] by (cases n) (auto simp: std_thread_def split: if_splits option.splits)
next
  fix m po ns i assume a: "std_inv m po ns" "i < length ns" "ns ! i = None"
  have "mutex h w std_holders (ns[i := Some SwLoad]) = mutex h w std_holders ns" for h w
    using a(2,3) by (intro mutex_move) auto
  moreover have k: "Some x \<in> set ns \<Longrightarrow> Some x \<in> set (ns[i := Some SwLoad])" for x using a(3) by (intro in_set_update_other) auto
  then have "std_on_way t ns \<Longrightarrow> std_on_way t (ns[i := Some SwLoad])" for t unfolding std_on_way_def by blast
  with k have "std_point_inv m ns po \<Longrightarrow> std_point_inv m (ns[i := Some SwLoad]) po"
    by (cases "(m, ns, po)" rule: std_point_inv.cases) auto
  ultimately show "std_inv m po (ns[i := Some (ec_wake std_thread)])" using a(1) by (simp add: std_thread_def std_inv_def)
next
  fix m p ns m' p' assume "std_inv m (Some p) ns" "ec_park_step std_thread m p = Some (m', p')"
  then show "std_inv m' p' ns \<and> (st_parked m' \<longrightarrow> st_parked m)" by (intro std_park_inv) (simp_all add: std_thread_def)
next
  fix m p ns m' p' assume "std_inv m (Some p) ns" "ec_timeout std_thread m p = Some (m', p')"
  then show "std_inv m' p' ns \<and> (st_parked m' \<longrightarrow> st_parked m)" by (cases p) (auto simp: std_thread_def std_inv_def)
qed (auto simp: std_thread_def std_inv_def)

section \<open>Bounded spinning\<close>

text \<open>\<open>spin.rs\<close> shares the armed flag alone. Round \<open>step\<close> of \<open>park\<close> runs \<open>backoff step\<close>, which issues the number of spin hints given here.\<close>

definition MAX_STEPS :: u32 where
  "MAX_STEPS = 7"

definition backoff_hints :: "u32 \<Rightarrow> u32" where
  "backoff_hints step = push_bit (unat (min step 6)) 1"

fun spin_park_step :: "bool \<Rightarrow> u32 \<Rightarrow> (bool \<times> u32 option) option" where
  "spin_park_step m step =
     Some (m, if \<not> m then None else if step + 1 \<ge> MAX_STEPS then None else Some (step + 1))"

definition spin :: "(bool, u32, unit) Eventcount" where
  "spin = \<lparr>ec_init = False, ec_arm = (\<lambda>_. True), ec_disarm = (\<lambda>_. False), ec_park = (\<lambda>_. 0),
     ec_park_step = spin_park_step, ec_timeout = (\<lambda>_ _. None),
     ec_wake = (), ec_wake_step = (\<lambda>_ _. Some (False, None))\<rparr>"

interpretation spin: eventcount spin "\<lambda>m. m" "\<lambda>_ _ _. True" "\<lambda>_. False" "\<lambda>_. 0"
  by unfold_locales (auto simp: spin_def)

text \<open>\<open>park\<close> on the values that its loads of the flag see, in order: how many loads and spin hints it issues before it returns.\<close>

fun spin_park :: "bool list \<Rightarrow> u32 \<Rightarrow> (nat \<times> nat) option" where
  "spin_park [] step = None"
| "spin_park (m # ms) step =
     (case spin_park_step m step of
        None \<Rightarrow> None
      | Some (_, None) \<Rightarrow> Some (1, if m then unat (backoff_hints step) else 0)
      | Some (_, Some step') \<Rightarrow> map_option (\<lambda>(loads, hints). (loads + 1, hints + unat (backoff_hints step))) (spin_park ms step'))"

text \<open>
  The spinning waiter never waits: whatever the notifiers do to the flag, \<open>park\<close> returns after at most seven loads
  and 127 spin hints.
\<close>

lemma spin_step_lt:
  fixes step :: u32
  assumes "unat step = k" "k < 7"
  shows "unat (step + 1) = k + 1" "step + 1 \<ge> MAX_STEPS \<longleftrightarrow> k = 6" "unat (backoff_hints step) = 2 ^ k"
proof -
  show s: "unat (step + 1) = k + 1" using assms by (simp add: unat_word_ariths)
  show "step + 1 \<ge> MAX_STEPS \<longleftrightarrow> k = 6" using assms s unfolding word_le_nat_alt by (auto simp: MAX_STEPS_def)
  have "min step 6 = step" using assms by (simp add: min_def word_le_nat_alt)
  then have "backoff_hints step = 2 ^ k" using assms by (simp add: backoff_hints_def push_bit_eq_mult)
  moreover have "k \<in> {0, 1, 2, 3, 4, 5, 6}" using assms(2) by auto
  ultimately show "unat (backoff_hints step) = 2 ^ k" by auto
qed

lemma spin_park_from:
  assumes "unat step = k" "k < 7" "7 - k \<le> length ms"
  shows "\<exists>loads hints. spin_park ms step = Some (loads, hints) \<and> loads \<le> 7 - k \<and> hints \<le> 2 ^ 7 - 2 ^ k"
  using assms
proof (induction ms arbitrary: step k)
  case (Cons m ms)
  note L = spin_step_lt [OF Cons.prems(1,2)]
  have p: "(2 :: nat) ^ Suc k \<le> 2 ^ 7" using Cons.prems(2) by (intro power_increasing) auto
  show ?case
  proof (cases "m \<and> k \<noteq> 6")
    case True
    then have "\<exists>loads hints. spin_park ms (step + 1) = Some (loads, hints) \<and> loads \<le> 7 - (k + 1) \<and> hints \<le> 2 ^ 7 - 2 ^ (k + 1)"
      using Cons.prems L(1) by (intro Cons.IH) auto
    then show ?thesis using True L(2,3) p Cons.prems(2) by auto
  next
    case False
    then show ?thesis using L(2,3) p Cons.prems(2) by auto
  qed
qed simp

lemma spin_park_bounded:
  assumes "7 \<le> length ms"
  shows "\<exists>loads hints. spin_park ms (ec_park spin t) = Some (loads, hints) \<and> loads \<le> 7 \<and> hints \<le> 127"
  using spin_park_from [of 0 0 ms] assms by (auto simp: spin_def)

section \<open>No wake is lost\<close>

text \<open>A schedule: \<open>None\<close> lets the waiter step on thread 0, \<open>Some i\<close> notifier \<open>i\<close>.\<close>

fun waits_run :: "('m, 'p, 'n) Eventcount \<Rightarrow> nat option list \<Rightarrow> ('m, 'p, 'n) Waits \<Rightarrow> ('m, 'p, 'n) Waits option" where
  "waits_run E [] h = Some h"
| "waits_run E (None # acts) h = do { h \<leftarrow> wait_step E 0 h; waits_run E acts h }"
| "waits_run E (Some i # acts) h = do { h \<leftarrow> notify_step E i h; waits_run E acts h }"

lemma waits_run_reachable: "waits E n h \<Longrightarrow> waits_run E acts h = Some h' \<Longrightarrow> waits E n h'"
proof (induction acts arbitrary: h)
  case (Cons act acts)
  then show ?case by (cases act) (auto simp: bind_eq_Some_conv intro: waits.wait waits.notify)
qed simp





text \<open>
  Parking through \<open>std::thread\<close> loses no wake, on whichever thread the receiver runs: a notifier that took the flag down reads
  the handle only after the waiter published it, or the waiter sees the flag down.
\<close>

theorem std_thread_no_lost_wake:
  assumes "waits std_thread n h" "0 < n" "\<forall>i<n. npcs h ! i = PDone"
  shows "\<exists>k h'. wait_alone std_thread t k h = Some h' \<and> wpc h' = WReady"
  by (rule std_thread.woken [OF assms])

lemma std_thread_no_lost_wake_witness:
  "\<exists>h k h'. waits std_thread 1 h \<and> wpc h = WPark (SPark 0) \<and> npcs h = [PDone] \<and> wait_alone std_thread 0 k h = Some h' \<and> wpc h' = WReady"
proof -
  let ?acts = "replicate 8 None @ replicate 7 (Some 0)"
  obtain h where h: "waits_run std_thread ?acts (waits_start std_thread 1) = Some h" "wpc h = WPark (SPark 0)" "npcs h = [PDone]"
    by (simp add: waits_start_def std_thread_def wait_step.simps notify_step.simps numeral_eq_Suc)
  have r: "waits std_thread 1 h" by (rule waits_run_reachable [OF waits.start h(1)])
  show ?thesis using std_thread_no_lost_wake [OF r, of 0] h(2,3) r by auto
qed

end
