(* ===== verification/Select.thy ===== *)
theory Select
  imports Mpsc_System Brokerless
begin

text \<open>
  Waiting on several receivers (\<open>src/src/select/mod.rs\<close>): the \<open>Backoff\<close> between empty rounds, and the loop of the \<open>select!\<close> macro over
  the sources of its arms. The rest of the program may act between the poll of a source and the question whether
  it is over; what it does there is part of the input.
\<close>

section \<open>Backoff\<close>

record Backoff =
  bstep :: u32

definition backoff_new :: Backoff where
  "backoff_new = \<lparr>bstep = 0\<rparr>"

definition backoff_reset :: "Backoff \<Rightarrow> Backoff" where
  "backoff_reset b = b\<lparr>bstep := 0\<rparr>"

text \<open>What a call waits for: spin hints, a yield, or a sleep of so many microseconds.\<close>

datatype snoozed = Spun "32 word" | Yielded | Slept u64

definition saturating_add32 :: "u32 \<Rightarrow> u32 \<Rightarrow> u32" where
  "saturating_add32 a b = (if unat a + unat b < 2 ^ 32 then a + b else - 1)"

definition snooze :: "Backoff \<Rightarrow> snoozed \<times> Backoff" where
  "snooze b =
     (if bstep b \<le> 5 then Spun (push_bit (unat (bstep b)) 1)
      else if bstep b \<le> 15 then Yielded
      else Slept (min (push_bit (unat (min (bstep b - 16) 4)) 10) 100),
      b\<lparr>bstep := saturating_add32 (bstep b) 1\<rparr>)"

text \<open>A call never waits longer than 32 spin hints, a yield, or a sleep of 10 to 100 microseconds; and the step never wraps.\<close>

lemma snooze_bounded:
  "case fst (snooze b) of Spun n \<Rightarrow> 1 \<le> unat n \<and> unat n \<le> 32 | Yielded \<Rightarrow> True | Slept us \<Rightarrow> 10 \<le> unat us \<and> unat us \<le> 100"
proof -
  have five: "x \<in> {0, 1, 2, 3, 4, 5}" if "x \<le> 5" for x :: u32
  proof -
    have "unat x \<le> 5" using that by (simp add: word_le_nat_alt)
    then have "unat x \<in> {0, 1, 2, 3, 4, 5}" by auto
    moreover have "x = of_nat (unat x)" by simp
    ultimately show ?thesis by (auto simp del: of_nat_unat)
  qed
  have four: "x \<in> {0, 1, 2, 3, 4}" if "x \<le> 4" for x :: u32
    using five [OF order.trans [OF that]] that by auto
  show ?thesis using five [of "bstep b"] four [of "min (bstep b - 16) 4"] by (auto simp: snooze_def)
qed

lemma snooze_advances: "bstep b \<le> bstep (snd (snooze b))"
proof -
  have "unat (bstep b) + unat (1 :: u32) < 2 ^ 32 \<Longrightarrow> unat (bstep b + 1) = unat (bstep b) + 1"
    by (simp add: unat_word_ariths)
  then have "unat (bstep b) + unat (1 :: u32) < 2 ^ 32 \<Longrightarrow> bstep b \<le> bstep b + 1" by (simp add: word_le_nat_alt)
  then show ?thesis by (simp add: snooze_def saturating_add32_def)
qed

section \<open>The macro\<close>

record ('s, 'a) Source =
  try_select :: "'s \<Rightarrow> ('a option \<times> 's) option"
  selection_over :: "'s \<Rightarrow> bool"

datatype 'a selected = Taken nat 'a | Complete

text \<open>
  One round over the arms from arm \<open>i\<close> on: each source is polled, and one that has nothing is asked whether it is over. The
  states of the sources are a list; \<open>envs\<close> says what the rest of the program does to them after each poll.
\<close>

fun select_arms ::
  "('s, 'a) Source list \<Rightarrow> ('s list \<Rightarrow> 's list) list \<Rightarrow> nat \<Rightarrow> bool \<Rightarrow> 's list \<Rightarrow> ((nat \<times> 'a) option \<times> bool \<times> 's list) option" where
  "select_arms [] envs i exhausted ss = Some (None, exhausted, ss)"
| "select_arms (src # srcs) envs i exhausted ss =
     do { (v, s) \<leftarrow> try_select src (ss ! i);
          let ss = ss[i := s];
          case v of Some v \<Rightarrow> Some (Some (i, v), exhausted, ss)
          | None \<Rightarrow> let (ss, envs) = (case envs of [] \<Rightarrow> (ss, []) | env # envs \<Rightarrow> (env ss, envs))
                    in select_arms srcs envs (i + 1) (exhausted \<and> selection_over src (ss ! i)) ss }"

fun select ::
  "('s, 'a) Source list \<Rightarrow> (('s list \<Rightarrow> 's list) list \<times> ('s list \<Rightarrow> 's list)) list \<Rightarrow> Backoff \<Rightarrow> 's list
     \<Rightarrow> ('a selected spin \<times> Backoff \<times> 's list) option" where
  "select srcs [] backoff ss = Some (Spinning, backoff, ss)"
| "select srcs ((envs, pause) # rounds) backoff ss =
     do { (v, exhausted, ss) \<leftarrow> select_arms srcs envs 0 True ss;
          case v of Some (i, v) \<Rightarrow> Some (Done (Taken i v), backoff, ss)
          | None \<Rightarrow> if exhausted then Some (Done Complete, backoff, ss)
                    else select srcs rounds (snd (snooze backoff)) (pause ss) }"

section \<open>What a source promises\<close>

text \<open>
  A poll never panics, does not change whether the source is over, and a source that is over when it is polled and yields
  nothing is \<open>drained\<close>.
\<close>

locale selectable =
  fixes src :: "('s, 'a) Source" and inv drained :: "'s \<Rightarrow> bool"
  assumes poll: "inv s \<Longrightarrow> \<exists>v s'. try_select src s = Some (v, s') \<and> inv s' \<and> (selection_over src s' \<longleftrightarrow> selection_over src s)
      \<and> (v = None \<and> selection_over src s \<longrightarrow> drained s')"
begin

text \<open>With nobody else acting during the round, the arms are tried in order and \<open>complete\<close> runs only when all is drained.\<close>

lemma select_arms_quiet:
  assumes "\<forall>k<length ss. inv (ss ! k)" "i + n \<le> length ss"
  shows "\<exists>r ex ss'. select_arms (replicate n src) [] i exhausted ss = Some (r, ex, ss') \<and> length ss' = length ss \<and> (\<forall>k<length ss. inv (ss' ! k))
     \<and> (\<forall>k. k < i \<or> i + n \<le> k \<longrightarrow> ss' ! k = ss ! k)
     \<and> (r = None \<and> ex \<longrightarrow> exhausted \<and> (\<forall>k. i \<le> k \<and> k < i + n \<longrightarrow> selection_over src (ss' ! k) \<and> drained (ss' ! k)))
     \<and> (\<forall>j v. r = Some (j, v) \<longrightarrow> i \<le> j \<and> j < i + n \<and> (\<forall>k. i \<le> k \<and> k < j \<longrightarrow> fst (the (try_select src (ss ! k))) = None))"
  using assms
proof (induction n arbitrary: i exhausted ss)
  case 0
  then show ?case by (auto intro!: exI)
next
  case (Suc n)
  have i: "i < length ss" "inv (ss ! i)" using Suc.prems by auto
  obtain v s' where p: "try_select src (ss ! i) = Some (v, s')" "inv s'" "selection_over src s' \<longleftrightarrow> selection_over src (ss ! i)"
    "v = None \<and> selection_over src (ss ! i) \<longrightarrow> drained s'" using poll [OF i(2)] by blast
  let ?ss = "ss[i := s']"
  have inv': "\<forall>k<length ?ss. inv (?ss ! k)" using Suc.prems(1) p(2) i(1) by (simp add: nth_list_update)
  show ?case
  proof (cases v)
    case (Some x)
    then have "select_arms (replicate (Suc n) src) [] i exhausted ss = Some (Some (i, x), exhausted, ?ss)" using p(1) by simp
    then show ?thesis using inv' by (intro exI [of _ "Some (i, x)"] exI [of _ exhausted] exI [of _ ?ss]) auto
  next
    case None
    let ?e = "exhausted \<and> selection_over src s'"
    obtain r ex ss' where IH: "select_arms (replicate n src) [] (i + 1) ?e ?ss = Some (r, ex, ss')" "length ss' = length ?ss" "\<forall>k<length ?ss. inv (ss' ! k)"
      "\<forall>k. k < i + 1 \<or> i + 1 + n \<le> k \<longrightarrow> ss' ! k = ?ss ! k"
      "r = None \<and> ex \<longrightarrow> ?e \<and> (\<forall>k. i + 1 \<le> k \<and> k < i + 1 + n \<longrightarrow> selection_over src (ss' ! k) \<and> drained (ss' ! k))"
      "\<forall>j v. r = Some (j, v) \<longrightarrow> i + 1 \<le> j \<and> j < i + 1 + n \<and> (\<forall>k. i + 1 \<le> k \<and> k < j \<longrightarrow> fst (the (try_select src (?ss ! k))) = None)"
      using Suc.IH [OF inv', of "i + 1" ?e] Suc.prems(2) by (auto simp del: nth_list_update_eq)
    have go: "select_arms (replicate (Suc n) src) [] i exhausted ss = Some (r, ex, ss')" using p(1) None IH(1) i(1) by simp
    have at: "ss' ! i = s'" using IH(4) i(1) by simp
    have dr: "selection_over src (ss' ! k) \<and> drained (ss' ! k)" if "r = None \<and> ex" "i \<le> k" "k < i + Suc n" for k
    proof (cases "k = i")
      case True
      then show ?thesis using IH(5) that(1) at p(3,4) None by auto
    next
      case False
      then show ?thesis using IH(5) that by auto
    qed
    have bi: "fst (the (try_select src (ss ! k))) = None" if "r = Some (j, x)" "i \<le> k" "k < j" for j x k
    proof (cases "k = i")
      case True
      then show ?thesis using p(1) None by simp
    next
      case False
      then show ?thesis using IH(6) that by (auto simp: nth_list_update)
    qed
    have rest: "\<forall>k. k < i \<or> i + Suc n \<le> k \<longrightarrow> ss' ! k = ss ! k" using IH(4) by (auto simp: nth_list_update)
    have "\<forall>j v. r = Some (j, v) \<longrightarrow> i \<le> j \<and> j < i + Suc n" using IH(6) by auto
    then show ?thesis using go IH(2,3,5) rest dr bi
      by (intro exI [of _ r] exI [of _ ex] exI [of _ ss']) auto
  qed
qed

end

section \<open>The receivers as sources\<close>

text \<open>The MPSC receiver with the shared state of its channel, and the brokerless MPMC consumer with the shared slots.\<close>

definition mpsc_source :: "('n, 'sp, 'w) Kernel \<Rightarrow> ('a, 'n, 'sp, 'st) ShardState \<Rightarrow> (('a, 'n, 'sp, 'st) Mpsc \<times> 'a MReceiver, 'a) Source" where
  "mpsc_source K S = \<lparr>try_select = (\<lambda>(m, rv). mp_try_recv K S m rv), selection_over = (\<lambda>(m, rv). disconnected m)\<rparr>"

definition brokerless_source :: "('q, 'a, 's) Backend \<Rightarrow> ('q BShared \<times> 'a BConsumer, 'a) Source" where
  "brokerless_source B =
     \<lparr>try_select = (\<lambda>(sh, c). do { (v, _, sh, c) \<leftarrow> try_recv B sh c; Some (v, sh, c) }), selection_over = (\<lambda>(sh, c). is_disconnected sh)\<rparr>"

definition fixed_source_inv :: "('a, 'n, 'sp, unit) Mpsc \<times> 'a MReceiver \<Rightarrow> bool" where
  "fixed_source_inv = (\<lambda>(m, rv). \<exists>vss. rings_rep m vss \<and> shards_in m (r_shards rv) \<and> r_batch rv \<noteq> 0
     \<and> (disconnected m \<longrightarrow> (\<forall>j\<in>set (r_shards rv). orphan m j)))"

definition fixed_source_drained :: "('a, 'n, 'sp, unit) Mpsc \<times> 'a MReceiver \<Rightarrow> bool" where
  "fixed_source_drained = (\<lambda>(m, rv). r_staging rv = [] \<and> (\<forall>j\<in>set (r_shards rv). ring_rep (m_rings m ! j) []))"

lemma fixed_source_poll:
  fixes m :: "('a, 'n, 'sp, unit) Mpsc"
  assumes "fixed_source_inv (m, rv)"
  shows "\<exists>v m' rv'. mp_try_recv K (fixed_state K) m rv = Some (v, m', rv') \<and> fixed_source_inv (m', rv') \<and> (disconnected m' \<longleftrightarrow> disconnected m)
     \<and> (v = None \<and> disconnected m \<longrightarrow> fixed_source_drained (m', rv'))"
proof -
  obtain vss where i: "rings_rep m vss" "shards_in m (r_shards rv)" "r_batch rv \<noteq> 0" "disconnected m \<longrightarrow> (\<forall>j\<in>set (r_shards rv). orphan m j)"
    using assms by (auto simp: fixed_source_inv_def)
  obtain m' rv' vss' dl where t: "mp_try_recv K (fixed_state K) m rv = Some (case r_staging rv @ map snd dl of [] \<Rightarrow> None | v # _ \<Rightarrow> Some v, m', rv')"
    "fixed.received m (r_shards rv) vss m' (r_shards rv') vss' dl" "r_batch rv' = r_batch rv" "r_staging rv' = tl (r_staging rv @ map snd dl)"
    using fixed.mp_try_recv_spec [OF i(1-3), where K = K and Ka = K] by (elim exE conjE) (rule that)
  have rep: "rings_rep m' vss'" "shards_in m' (r_shards rv')" "disconnected m' \<longleftrightarrow> disconnected m" "set (r_shards rv') \<subseteq> set (r_shards rv)" "length vss' = length vss"
    "\<forall>k<length vss. halves_of m' k = halves_of m k \<or> orphan m k \<and> k \<notin> set (r_shards rv')" "\<forall>j<length vss. from_producer j dl @ vss' ! j = vss ! j"
    using t(2) by (auto simp: fixed.received_def disconnected_def)
  have lt: "j < length vss'" if "j \<in> set (r_shards rv')" for j using rep(1,2) that by (auto simp: shards_in_def rings_rep_def)
  have "orphan m' j" if "disconnected m" "j \<in> set (r_shards rv')" for j
  proof -
    have "halves_of m' j = halves_of m j" using rep(5,6) lt [OF that(2)] that(2) by metis
    then show ?thesis using halves_of_orphan that i(4) rep(4) by blast
  qed
  then have "fixed_source_inv (m', rv')"
    using rep(1-3) i(3) t(3) unfolding fixed_source_inv_def by (auto intro!: exI [of _ vss'])
  moreover have "fixed_source_drained (m', rv')" if n: "r_staging rv @ map snd dl = []" and d: "disconnected m"
  proof -
    have none: "mp_try_recv K (fixed_state K) m rv = Some (None, m', rv')" using t(1) n by simp
    have "\<forall>j\<in>set (r_shards rv). vss ! j = []" using fixed.mp_try_recv_none [OF i(1-3) none] i(4) d by simp
    then have "vss' ! j = []" if "j \<in> set (r_shards rv')" for j using that rep(4,5,7) lt by (metis append_is_Nil_conv subsetD)
    then show ?thesis using rings_rep_nth [OF rep(1)] lt t(4) n by (fastforce simp: fixed_source_drained_def)
  qed
  ultimately show ?thesis using t(1) rep(3) by (cases "r_staging rv @ map snd dl") auto
qed

interpretation fixed_select: selectable "mpsc_source K (fixed_state K)" fixed_source_inv fixed_source_drained
  for K :: "('n, 'sp, 'w) Kernel"
proof
  fix s :: "('a, 'n, 'sp, unit) Mpsc \<times> 'a MReceiver"
  assume a: "fixed_source_inv s"
  obtain m rv where s: "s = (m, rv)" by (cases s)
  show "\<exists>v s'. try_select (mpsc_source K (fixed_state K)) s = Some (v, s') \<and> fixed_source_inv s'
      \<and> (selection_over (mpsc_source K (fixed_state K)) s' \<longleftrightarrow> selection_over (mpsc_source K (fixed_state K)) s)
      \<and> (v = None \<and> selection_over (mpsc_source K (fixed_state K)) s \<longrightarrow> fixed_source_drained s')"
    using fixed_source_poll [of m rv K] a unfolding s by (fastforce simp: mpsc_source_def)
qed

text \<open>What a brokerless consumer can reach: its own staging and the rings that no peer holds.\<close>

definition mpmc_source_inv :: "'a Ring BShared \<times> 'a BConsumer \<Rightarrow> bool" where
  "mpmc_source_inv = (\<lambda>(sh, c). \<exists>vss st. slots_rep ring_rep sh vss \<and> batch_rep (staging c) st \<and> cbatch c \<noteq> 0)"

definition mpmc_source_drained :: "'a Ring BShared \<times> 'a BConsumer \<Rightarrow> bool" where
  "mpmc_source_drained = (\<lambda>(sh, c). batch_rep (staging c) [] \<and> (\<forall>s\<in>set (slots sh). \<not> claimed s \<longrightarrow> ring_rep (rx s) []))"

lemma mpmc_source_poll:
  fixes sh :: "'a Ring BShared"
  assumes "mpmc_source_inv (sh, c)"
  shows "\<exists>v sh' c'. try_recv (ring_backend :: ('a Ring, 'a, 's) Backend) sh c = Some (v, [], sh', c') \<and> mpmc_source_inv (sh', c')
     \<and> (is_disconnected sh' \<longleftrightarrow> is_disconnected sh) \<and> (v = None \<longrightarrow> mpmc_source_drained (sh', c'))"
proof -
  obtain vss st where i: "slots_rep ring_rep sh vss" "batch_rep (staging c) st" "cbatch c \<noteq> 0" using assms by (auto simp: mpmc_source_inv_def)
  obtain v sh' c' vss' st' where t: "try_recv (ring_backend :: ('a Ring, 'a, 's) Backend) sh c = Some (v, [], sh', c')" "slots_rep ring_rep sh' vss'"
    "same_flags sh sh'" "cbatch c' = cbatch c" "batch_rep (staging c') st'"
    "if st \<noteq> [] then v = Some (hd st) \<and> st' = tl st \<and> vss' = vss
     else \<exists>got. scanned (flags sh) (unat (cbatch c)) {0..<length (slots sh)} vss vss' got \<and> v = (case got of [] \<Rightarrow> None | x # _ \<Rightarrow> Some x) \<and> st' = tl got"
    using ring_bk.try_recv_spec [OF i] by (elim exE conjE) (rule that)
  have "mpmc_source_drained (sh', c')" if "v = None"
  proof -
    obtain got where g: "scanned (flags sh) (unat (cbatch c)) {0..<length (slots sh)} vss vss' got" "got = []" "st' = []"
    proof (cases "st = []")
      case True
      then obtain got where "scanned (flags sh) (unat (cbatch c)) {0..<length (slots sh)} vss vss' got" "v = (case got of [] \<Rightarrow> None | x # _ \<Rightarrow> Some x)" "st' = tl got"
        using t(6) by auto
      then show thesis using \<open>v = None\<close> by (intro that [of got]) (auto split: list.splits)
    next
      case False
      then show thesis using t(6) \<open>v = None\<close> by simp
    qed
    then have e: "vss' = vss" "\<forall>k<length (slots sh). \<not> flags sh ! k \<longrightarrow> vss ! k = []" by (auto simp: scanned_def)
    have "ring_rep (rx s) []" if s: "s \<in> set (slots sh')" "\<not> claimed s" for s
    proof -
      obtain k where k: "k < length (slots sh')" "s = slots sh' ! k" using s(1) by (metis in_set_conv_nth)
      then have "\<not> flags sh ! k" using s(2) same_flags_nth [OF t(3)] same_flags_length [OF t(3)] by (simp add: flags_def)
      then have "vss ! k = []" using e(2) k(1) same_flags_length [OF t(3)] by simp
      then show ?thesis using t(2) e(1) k by (auto simp: slots_rep_def)
    qed
    then show ?thesis using t(5) g(3) by (simp add: mpmc_source_drained_def)
  qed
  moreover have "mpmc_source_inv (sh', c')" using t(2,4,5) i(3) by (auto simp: mpmc_source_inv_def)
  moreover have "is_disconnected sh' \<longleftrightarrow> is_disconnected sh" using t(3) by (simp add: is_disconnected_def same_flags_def)
  ultimately show ?thesis using t(1) by blast
qed

interpretation mpmc_select: selectable "brokerless_source (ring_backend :: ('a Ring, 'a, 's) Backend)" mpmc_source_inv mpmc_source_drained
proof
  fix s :: "'a Ring BShared \<times> 'a BConsumer"
  assume a: "mpmc_source_inv s"
  obtain sh c where s: "s = (sh, c)" by (cases s)
  let ?src = "brokerless_source (ring_backend :: ('a Ring, 'a, 's) Backend)"
  show "\<exists>v s'. try_select ?src s = Some (v, s') \<and> mpmc_source_inv s' \<and> (selection_over ?src s' \<longleftrightarrow> selection_over ?src s)
      \<and> (v = None \<and> selection_over ?src s \<longrightarrow> mpmc_source_drained s')"
    using mpmc_source_poll [of sh c, where ?'s = 's] a unfolding s by (fastforce simp: brokerless_source_def)
qed

section \<open>When the macro completes\<close>


text \<open>A producer that sends its last value and leaves.\<close>

definition send_and_quit :: "('n, 'sp, 'w) Kernel \<Rightarrow> 'a \<Rightarrow> ('a, 'n, 'sp, 'st) Mpsc \<Rightarrow> ('a, 'n, 'sp, 'st) Mpsc" where
  "send_and_quit K v m = (case do { (_, m) \<leftarrow> mp_try_send K m 0 v; mp_drop_producer K m 0 } of None \<Rightarrow> m | Some m \<Rightarrow> m)"

lemma send_and_quit_spec:
  assumes "rings_rep m [[]]" "halves_of m 0 = (False, False, 2)"
  shows "rings_rep (send_and_quit K v m) [[v]]" "m_live (send_and_quit K v m) = m_live m - 1"
proof -
  have r0: "ring_rep (m_rings m ! 0) []" using rings_rep_nth [OF assms(1), of 0] by simp
  obtain m1 where s: "mp_try_send K m 0 v = Some (Ok (), m1)" "rings_rep m1 [[v]]" "m_live m1 = m_live m" "halves_of m1 0 = halves_of m 0"
    using mp_try_send_spec [OF assms(1) _ assms(2), of UNIV K v] ring_rep_cap_pos [OF r0] by auto
  have h1: "halves_of m1 0 = (False, False, 2)" using s(4) assms(2) by simp
  obtain m2 where d: "mp_drop_producer K m1 0 = Some m2" "rings_rep m2 [[v]]" "m_live m2 = m_live m1 - 1"
    using mp_drop_producer_spec [OF s(2) _ h1, of UNIV K] by auto
  show "rings_rep (send_and_quit K v m) [[v]]" "m_live (send_and_quit K v m) = m_live m - 1"
    using s(1,3) d by (simp_all add: send_and_quit_def)
qed

text \<open>
  C37. \<open>select!\<close> can run its \<open>complete\<close> arm while a value is still in the channel: when the last producer sends a value and leaves
  between the poll of the receiver and the question whether it is over, the source counts as exhausted although it was
  never polled after the disconnection. \<open>Receiver::recv\<close> polls again in that case, the macro does not.
\<close>

theorem select_completes_early:
  fixes K :: "('n, 'sp, 'w) Kernel" and v :: 'a
  shows "\<exists>m0 m rv. fixed_open K 1 4 = Some ([0], m0, make_receiver [0])
     \<and> select [mpsc_source K (fixed_state K)] [([\<lambda>ss. map (\<lambda>(m, rv). (send_and_quit K v m, rv)) ss], \<lambda>ss. ss)] backoff_new [(m0, make_receiver [0])]
         = Some (Done Complete, backoff_new, [(m, rv)])
     \<and> r_shards rv = [0] \<and> ring_rep (m_rings m ! 0) [v]"
proof -
  have four: "unat (4 :: usize) \<le> 2 ^ 63" by simp
  obtain m0 :: "('a, 'n, 'sp, unit) Mpsc" where s: "fixed_spawn K 1 4 (build_shared K ()) = Some ([0], m0)" "rings_rep m0 [[]]" "m_live m0 = 1" "halves_of m0 0 = (False, False, 2)"
    using fixed_spawn_spec [OF rings_rep_empty four, of K 1 K "()"] by (auto simp: build_shared_def)
  let ?rv = "make_receiver [0] :: 'a MReceiver"
  have op: "fixed_open K 1 4 = Some ([0], m0, ?rv)" using s(1) by (simp add: fixed_open_def)
  have "length (m_rings m0) = 1" using s(2) by (simp add: rings_rep_def)
  then have i: "shards_in m0 (r_shards ?rv)" by (simp add: shards_in_def)
  obtain m rv vss' dl where t: "mp_try_recv K (fixed_state K) m0 ?rv = Some (case r_staging ?rv @ map snd dl of [] \<Rightarrow> None | v # _ \<Rightarrow> Some v, m, rv)"
    "fixed.received m0 (r_shards ?rv) [[]] m (r_shards rv) vss' dl"
    using fixed.mp_try_recv_spec [OF s(2) i make_receiver_sel(3), where K = K and Ka = K] by (elim exE conjE) (rule that)
  note r = t(2) [unfolded fixed.received_def]
  have o: "\<not> orphan m0 0" using s(4) by (simp add: halves_of_def)
  have "from_producer 0 dl @ vss' ! 0 = []" "\<forall>x\<in>set dl. fst x = 0" "length vss' = 1" using r by auto
  then have dl: "dl = []" "vss' = [[]]" by (auto simp: from_producer_def filter_empty_conv length_Suc_conv)
  have m: "rings_rep m [[]]" "m_live m = 1" "halves_of m 0 = (False, False, 2)" "set (r_shards rv) = {0}" "distinct (r_shards rv)"
    using r dl s(3,4) o by (auto simp: shards_in_def)
  then have sh: "r_shards rv = [0]" by (metis distinct_card card_1_singleton_iff length_0_conv One_nat_def length_Suc_conv list.set_intros(1) singletonD)
  note q = send_and_quit_spec [OF m(1,3), of K v]
  have none: "mp_try_recv K (fixed_state K) m0 ?rv = Some (None, m, rv)" using t(1) dl(1) by simp
  have "select [mpsc_source K (fixed_state K)] [([\<lambda>ss. map (\<lambda>(m, rv). (send_and_quit K v m, rv)) ss], \<lambda>ss. ss)] backoff_new [(m0, ?rv)]
      = Some (Done Complete, backoff_new, [(send_and_quit K v m, rv)])"
    using none q(2) m(2) by (simp add: mpsc_source_def disconnected_def Let_def)
  then show ?thesis using op sh rings_rep_nth [OF q(1), of 0] by auto
qed


end
