(* ===== verification/Mpmc_Dynamic.thy ===== *)
theory Mpmc_Dynamic
  imports Lanes
begin

text \<open>
  Competing consumers with producers that register at run time (\<open>src/src/mpmc/brokerless/dynamic.rs\<close>). The slots are those of
  the fixed topology; what is new is the membership, which is generic in the code and here: the trait \<open>Rings\<close> is a record of
  its functions, its two implementations are the locked vector with private snapshots and the bounded array of atomic
  cells. A slot pointer is the index of the slot among all slots that were ever allocated.

  \<open>push\<close> makes two accesses that others can observe one without the other: it is split into \<open>rg_begin\<close> (the locked append, or
  the reservation of an index) and \<open>rg_publish\<close> (the count, or the pointer).
\<close>

section \<open>Membership\<close>

record ('m, 'c) Rings =
  rg_cursor :: "usize \<Rightarrow> 'c"
  rg_prefer :: "'c \<Rightarrow> 'c"
  rg_begin :: "nat \<Rightarrow> 'm \<Rightarrow> (nat \<times> 'm) option"
  rg_publish :: "nat \<Rightarrow> nat \<Rightarrow> 'm \<Rightarrow> 'm option"
  rg_count :: "'m \<Rightarrow> usize"
  rg_next :: "'m \<Rightarrow> 'c \<Rightarrow> (nat option option \<times> 'c) option"

record LockedRings =
  lr_slots :: "nat list"
  lr_count :: usize

record LockedCursor =
  lc_scan :: Cursor
  lc_snap :: "nat list"

definition locked_next :: "LockedRings \<Rightarrow> LockedCursor \<Rightarrow> (nat option option \<times> LockedCursor) option" where
  "locked_next m cur =
     (let n = lr_count m
      in if n = 0 then Some (None, cur)
         else let snap = (if length (lc_snap cur) < unat n then lr_slots m else lc_snap cur);
                  (i, scan) = cursor_next (lc_scan cur) (of_nat (length snap))
              in if unat i < length snap then Some (Some (Some (snap ! unat i)), \<lparr>lc_scan = scan, lc_snap = snap\<rparr>) else None)"

definition locked_rings :: "(LockedRings, LockedCursor) Rings" where
  "locked_rings =
     \<lparr>rg_cursor = (\<lambda>seed. \<lparr>lc_scan = cursor_new seed, lc_snap = []\<rparr>),
      rg_prefer = (\<lambda>cur. cur\<lparr>lc_scan := cursor_prefer (lc_scan cur)\<rparr>),
      rg_begin = (\<lambda>i m. Some (0, m\<lparr>lr_slots := lr_slots m @ [i]\<rparr>)),
      rg_publish = (\<lambda>_ _ m. Some (m\<lparr>lr_count := lr_count m + 1\<rparr>)),
      rg_count = lr_count,
      rg_next = locked_next\<rparr>"

record ArrayRings =
  ar_cells :: "nat option list"
  ar_len :: usize

definition array_begin :: "nat \<Rightarrow> ArrayRings \<Rightarrow> (nat \<times> ArrayRings) option" where
  "array_begin i m = (if unat (ar_len m) < length (ar_cells m) then Some (unat (ar_len m), m\<lparr>ar_len := ar_len m + 1\<rparr>) else None)"

definition array_publish :: "nat \<Rightarrow> nat \<Rightarrow> ArrayRings \<Rightarrow> ArrayRings option" where
  "array_publish at i m = (if at < length (ar_cells m) then Some (m\<lparr>ar_cells := (ar_cells m)[at := Some i]\<rparr>) else None)"

definition array_next :: "ArrayRings \<Rightarrow> Cursor \<Rightarrow> (nat option option \<times> Cursor) option" where
  "array_next m cur =
     (let n = ar_len m
      in if n = 0 then Some (None, cur)
         else let (i, cur) = cursor_next cur n
              in if unat i < length (ar_cells m) then Some (Some (ar_cells m ! unat i), cur) else None)"

definition array_rings :: "(ArrayRings, Cursor) Rings" where
  "array_rings =
     \<lparr>rg_cursor = cursor_new, rg_prefer = cursor_prefer, rg_begin = array_begin, rg_publish = array_publish, rg_count = ar_len,
      rg_next = array_next\<rparr>"

section \<open>Endpoints\<close>

text \<open>\<open>live_producers\<close> of the slots' record is the field \<open>live\<close>: registrars and producers.\<close>

record ('q, 'm) DShared =
  dsh :: "'q BShared"
  dmem :: 'm

record ('a, 'c) DConsumer =
  dcur :: 'c
  dstaging :: "'a Batch"
  dbatch :: usize

definition channel_with_rings :: "('m, 'c) Rings \<Rightarrow> 'm \<Rightarrow> usize \<Rightarrow> usize \<times> ('q, 'm) DShared \<times> ('a, 'c) DConsumer" where
  "channel_with_rings R m capacity =
     (max capacity 1, \<lparr>dsh = \<lparr>slots = [], live_producers = 1, live_consumers = 1\<rparr>, dmem = m\<rparr>,
      \<lparr>dcur = rg_cursor R 0, dstaging = batch_new, dbatch = 64\<rparr>)"

definition open_locked :: "usize \<Rightarrow> usize \<times> ('q, LockedRings) DShared \<times> ('a, LockedCursor) DConsumer" where
  "open_locked capacity = channel_with_rings locked_rings \<lparr>lr_slots = [], lr_count = 0\<rparr> capacity"

definition open_array :: "usize \<Rightarrow> usize \<Rightarrow> usize \<times> ('q, ArrayRings) DShared \<times> ('a, Cursor) DConsumer" where
  "open_array capacity max_producers =
     channel_with_rings array_rings \<lparr>ar_cells = replicate (unat (max max_producers 1)) None, ar_len = 0\<rparr> capacity"

text \<open>\<open>register\<close>, in the two steps that others may see: the ring is allocated and its membership begun; then it is published and counted.\<close>

definition register_begin ::
  "('q, 'a, 's) Backend \<Rightarrow> ('m, 'c) Rings \<Rightarrow> usize \<Rightarrow> ('q, 'm) DShared \<Rightarrow> ((nat \<times> nat) \<times> ('q, 'm) DShared) option" where
  "register_begin B R capacity d =
     do { q \<leftarrow> bk_channel B capacity;
          let i = length (slots (dsh d));
          (at, m) \<leftarrow> rg_begin R i (dmem d);
          Some ((at, i), \<lparr>dsh = (dsh d)\<lparr>slots := slots (dsh d) @ [\<lparr>claimed = False, rx = q\<rparr>]\<rparr>, dmem = m\<rparr>) }"

definition register_end :: "('m, 'c) Rings \<Rightarrow> nat \<times> nat \<Rightarrow> ('q, 'm) DShared \<Rightarrow> ('q, 'm) DShared option" where
  "register_end R r d =
     do { m \<leftarrow> rg_publish R (fst r) (snd r) (dmem d);
          Some (d\<lparr>dmem := m, dsh := (dsh d)\<lparr>live_producers := live_producers (dsh d) + 1\<rparr>\<rparr>) }"

definition dyn_register ::
  "('q, 'a, 's) Backend \<Rightarrow> ('m, 'c) Rings \<Rightarrow> usize \<Rightarrow> ('q, 'm) DShared \<Rightarrow> (nat \<times> ('q, 'm) DShared) option" where
  "dyn_register B R capacity d = do { (r, d) \<leftarrow> register_begin B R capacity d; d \<leftarrow> register_end R r d; Some (snd r, d) }"

definition dyn_registrar_clone :: "('q, 'm) DShared \<Rightarrow> ('q, 'm) DShared" where
  "dyn_registrar_clone d = d\<lparr>dsh := (dsh d)\<lparr>live_producers := live_producers (dsh d) + 1\<rparr>\<rparr>"

definition dyn_registrar_drop :: "('q, 'm) DShared \<Rightarrow> ('q, 'm) DShared" where
  "dyn_registrar_drop d = d\<lparr>dsh := (dsh d)\<lparr>live_producers := live_producers (dsh d) - 1\<rparr>\<rparr>"

text \<open>The sending half has the fields and the code of the fixed topology's: it sees its ring and the count of live consumers.\<close>

definition dyn_try_send :: "('q, 'a, 's) Backend \<Rightarrow> ('q, 'm) DShared \<Rightarrow> nat \<Rightarrow> 'a \<Rightarrow> ((unit, 'a) Result \<times> ('q, 'm) DShared) option" where
  "dyn_try_send B d i v = do { (r, sh) \<leftarrow> producer_try_send B (dsh d) i v; Some (r, d\<lparr>dsh := sh\<rparr>) }"

definition dyn_send ::
  "('q, 'a, 's) Backend \<Rightarrow> ('q BShared \<Rightarrow> 'q BShared) list \<Rightarrow> ('q, 'm) DShared \<Rightarrow> nat \<Rightarrow> 'a \<Rightarrow> (bool spin \<times> ('q, 'm) DShared) option" where
  "dyn_send B envs d i v = do { (r, sh) \<leftarrow> producer_send B envs (dsh d) i v; Some (r, d\<lparr>dsh := sh\<rparr>) }"

definition dyn_send_batch ::
  "('q, 'a, 's) Backend \<Rightarrow> nat \<Rightarrow> ('q BShared \<Rightarrow> 'q BShared) list \<Rightarrow> ('q, 'm) DShared \<Rightarrow> nat \<Rightarrow> 'a Batch
     \<Rightarrow> (bool spin \<times> ('q, 'm) DShared \<times> 'a Batch) option" where
  "dyn_send_batch B fuel envs d i source =
     do { (r, sh, source) \<leftarrow> producer_send_batch B fuel envs (dsh d) i source; Some (r, d\<lparr>dsh := sh\<rparr>, source) }"

definition dyn_drop_producer :: "('q, 'a, 's) Backend \<Rightarrow> ('q, 'm) DShared \<Rightarrow> nat \<Rightarrow> ('q, 'm) DShared option" where
  "dyn_drop_producer B d i = do { sh \<leftarrow> drop_producer B (dsh d) i; Some (d\<lparr>dsh := sh\<rparr>) }"

section \<open>Consumers\<close>

definition dyn_set_batch :: "usize \<Rightarrow> ('a, 'c) DConsumer \<Rightarrow> ('a, 'c) DConsumer" where
  "dyn_set_batch b c = c\<lparr>dbatch := max b 1\<rparr>"

fun dyn_refill_loop ::
  "('q, 'a, 's) Backend \<Rightarrow> ('m, 'c) Rings \<Rightarrow> nat \<Rightarrow> ('q, 'm) DShared \<Rightarrow> ('a, 'c) DConsumer \<Rightarrow> (('q, 'm) DShared \<times> ('a, 'c) DConsumer) option" where
  "dyn_refill_loop B R 0 d c = Some (d, c)"
| "dyn_refill_loop B R (Suc n) d c =
     do { (p, cur) \<leftarrow> rg_next R (dmem d) (dcur c);
          let c = c\<lparr>dcur := cur\<rparr>;
          case p of None \<Rightarrow> Some (d, c)
          | Some None \<Rightarrow> dyn_refill_loop B R n d c
          | Some (Some i) \<Rightarrow>
              if i < length (slots (dsh d))
              then (case try_acquire (slots (dsh d) ! i) of
                      None \<Rightarrow> dyn_refill_loop B R n d c
                    | Some s \<Rightarrow>
                        do { (k, q, st) \<leftarrow> bk_drain_into B (rx s) (dbatch c) (dstaging c);
                             let d = d\<lparr>dsh := set_slot i (release_claim (s\<lparr>rx := q\<rparr>)) (dsh d)\<rparr>;
                             let c = c\<lparr>dstaging := st\<rparr>;
                             if \<not> batch_is_empty st then Some (d, c\<lparr>dcur := rg_prefer R (dcur c)\<rparr>)
                             else dyn_refill_loop B R n d c })
              else None }"

definition dyn_refill ::
  "('q, 'a, 's) Backend \<Rightarrow> ('m, 'c) Rings \<Rightarrow> ('q, 'm) DShared \<Rightarrow> ('a, 'c) DConsumer \<Rightarrow> ('a list \<times> ('q, 'm) DShared \<times> ('a, 'c) DConsumer) option" where
  "dyn_refill B R d c =
     do { (dropped, st) \<leftarrow> batch_clear (dstaging c);
          (d, c) \<leftarrow> dyn_refill_loop B R (unat (rg_count R (dmem d))) d (c\<lparr>dstaging := st\<rparr>);
          Some (dropped, d, c) }"

definition dyn_try_recv ::
  "('q, 'a, 's) Backend \<Rightarrow> ('m, 'c) Rings \<Rightarrow> ('q, 'm) DShared \<Rightarrow> ('a, 'c) DConsumer
     \<Rightarrow> ('a option \<times> 'a list \<times> ('q, 'm) DShared \<times> ('a, 'c) DConsumer) option" where
  "dyn_try_recv B R d c =
     do { (v, st) \<leftarrow> batch_pop_front (dstaging c);
          case v of Some v \<Rightarrow> Some (Some v, [], d, c\<lparr>dstaging := st\<rparr>)
          | None \<Rightarrow> do { (dropped, d, c) \<leftarrow> dyn_refill B R d (c\<lparr>dstaging := st\<rparr>);
                         (v, st) \<leftarrow> batch_pop_front (dstaging c);
                         Some (v, dropped, d, c\<lparr>dstaging := st\<rparr>) } }"

definition dyn_try_recv_batch ::
  "('q, 'a, 's) Backend \<Rightarrow> ('m, 'c) Rings \<Rightarrow> ('q, 'm) DShared \<Rightarrow> ('a, 'c) DConsumer \<Rightarrow> 'a Batch
     \<Rightarrow> ('a list \<times> nat \<times> ('q, 'm) DShared \<times> ('a, 'c) DConsumer \<times> 'a Batch) option" where
  "dyn_try_recv_batch B R d c out =
     do { (dropped, out) \<leftarrow> batch_clear out;
          (dropped, d, c, out) \<leftarrow>
            (if batch_is_empty (dstaging c)
             then do { let st = dstaging c;
                       (dr, d, c) \<leftarrow> dyn_refill B R d (c\<lparr>dstaging := out\<rparr>);
                       Some (dropped @ dr, d, c, st) }
             else Some (dropped, d, c, out));
          let st = dstaging c;
          Some (dropped, batch_len st, d, c\<lparr>dstaging := out\<rparr>, st) }"

definition dyn_is_disconnected :: "('q, 'm) DShared \<Rightarrow> bool" where
  "dyn_is_disconnected d \<longleftrightarrow> live_producers (dsh d) = 0"

fun dyn_recv ::
  "('q, 'a, 's) Backend \<Rightarrow> ('m, 'c) Rings \<Rightarrow> (('q, 'm) DShared \<Rightarrow> ('q, 'm) DShared) list \<Rightarrow> ('q, 'm) DShared \<Rightarrow> ('a, 'c) DConsumer
     \<Rightarrow> ('a option spin \<times> ('q, 'm) DShared \<times> ('a, 'c) DConsumer) option" where
  "dyn_recv B R envs d c =
     do { (v, _, d, c) \<leftarrow> dyn_try_recv B R d c;
          case v of Some v \<Rightarrow> Some (Done (Some v), d, c)
          | None \<Rightarrow>
              if live_producers (dsh d) = 0
              then do { (v, _, d, c) \<leftarrow> dyn_try_recv B R d c; Some (Done v, d, c) }
              else (case envs of [] \<Rightarrow> Some (Spinning, d, c) | env # envs \<Rightarrow> dyn_recv B R envs (env d) c) }"

fun dyn_recv_batch ::
  "('q, 'a, 's) Backend \<Rightarrow> ('m, 'c) Rings \<Rightarrow> (('q, 'm) DShared \<Rightarrow> ('q, 'm) DShared) list \<Rightarrow> ('q, 'm) DShared \<Rightarrow> ('a, 'c) DConsumer \<Rightarrow> 'a Batch
     \<Rightarrow> (nat spin \<times> ('q, 'm) DShared \<times> ('a, 'c) DConsumer \<times> 'a Batch) option" where
  "dyn_recv_batch B R envs d c out =
     do { (_, n, d, c, out) \<leftarrow> dyn_try_recv_batch B R d c out;
          if n \<noteq> 0 then Some (Done n, d, c, out)
          else if dyn_is_disconnected d
          then do { (_, n, d, c, out) \<leftarrow> dyn_try_recv_batch B R d c out; Some (Done n, d, c, out) }
          else (case envs of [] \<Rightarrow> Some (Spinning, d, c, out) | env # envs \<Rightarrow> dyn_recv_batch B R envs (env d) c out) }"

fun dyn_drain_scan ::
  "('q, 'a, 's) Backend \<Rightarrow> ('m, 'c) Rings \<Rightarrow> nat \<Rightarrow> nat \<Rightarrow> nat \<Rightarrow> ('q, 'm) DShared \<Rightarrow> ('a, 'c) DConsumer \<Rightarrow> ('a, 's) callback \<Rightarrow> 's
     \<Rightarrow> (nat control \<times> ('q, 'm) DShared \<times> ('a, 'c) DConsumer \<times> 's) option" where
  "dyn_drain_scan B R 0 mx fin d c f s = Some (Return fin, d, c, s)"
| "dyn_drain_scan B R (Suc n) mx fin d c f s =
     do { (p, cur) \<leftarrow> rg_next R (dmem d) (dcur c);
          let c = c\<lparr>dcur := cur\<rparr>;
          case p of None \<Rightarrow> Some (Return fin, d, c, s)
          | Some None \<Rightarrow> dyn_drain_scan B R n mx fin d c f s
          | Some (Some i) \<Rightarrow>
              if i < length (slots (dsh d))
              then (case try_acquire (slots (dsh d) ! i) of
                      None \<Rightarrow> dyn_drain_scan B R n mx fin d c f s
                    | Some sl \<Rightarrow>
                        do { (r, q, s) \<leftarrow> bk_drain_in_place B (rx sl) (of_nat (mx - fin)) f s;
                             let d = d\<lparr>dsh := set_slot i (release_claim (sl\<lparr>rx := q\<rparr>)) (dsh d)\<rparr>;
                             case r of Unwind \<Rightarrow> Some (Unwind, d, c, s)
                             | Return got \<Rightarrow>
                                 if got > 0 then Some (Return (fin + got), d, c\<lparr>dcur := rg_prefer R (dcur c)\<rparr>, s)
                                 else dyn_drain_scan B R n mx (fin + got) d c f s })
              else None }"

definition dyn_drain ::
  "('q, 'a, 's) Backend \<Rightarrow> ('m, 'c) Rings \<Rightarrow> ('q, 'm) DShared \<Rightarrow> ('a, 'c) DConsumer \<Rightarrow> usize \<Rightarrow> ('a, 's) callback \<Rightarrow> 's
     \<Rightarrow> (nat control \<times> ('q, 'm) DShared \<times> ('a, 'c) DConsumer \<times> 's) option" where
  "dyn_drain B R d c mx f s =
     do { (ok, fin, st, s) \<leftarrow> drain_staged (unat mx) 0 (dstaging c) f s;
          let c = c\<lparr>dstaging := st\<rparr>;
          if \<not> ok then Some (Unwind, d, c, s)
          else if fin \<ge> unat mx then Some (Return fin, d, c, s)
          else dyn_drain_scan B R (unat (rg_count R (dmem d))) (unat mx) fin d c f s }"

fun dyn_for_each ::
  "('q, 'a, 's) Backend \<Rightarrow> ('m, 'c) Rings \<Rightarrow> nat \<Rightarrow> (('q, 'm) DShared \<Rightarrow> ('q, 'm) DShared) list \<Rightarrow> ('q, 'm) DShared \<Rightarrow> ('a, 'c) DConsumer \<Rightarrow> usize
     \<Rightarrow> ('a, 's) callback \<Rightarrow> 's \<Rightarrow> (unit spin control \<times> ('q, 'm) DShared \<times> ('a, 'c) DConsumer \<times> 's) option" where
  "dyn_for_each B R 0 envs d c b f s = None"
| "dyn_for_each B R (Suc fuel) envs d c b f s =
     do { (r, d, c, s) \<leftarrow> dyn_drain B R d c (max b 1) f s;
          case r of Unwind \<Rightarrow> Some (Unwind, d, c, s)
          | Return n \<Rightarrow>
              if n > 0 then dyn_for_each B R fuel envs d c b f s
              else if live_producers (dsh d) = 0
              then do { (r, d, c, s) \<leftarrow> dyn_drain B R d c (max b 1) f s;
                        case r of Unwind \<Rightarrow> Some (Unwind, d, c, s)
                        | Return n \<Rightarrow> if n = 0 then Some (Return (Done ()), d, c, s)
                                      else dyn_for_each B R fuel envs d c b f s }
              else (case envs of [] \<Rightarrow> Some (Return Spinning, d, c, s)
                    | env # envs \<Rightarrow> dyn_for_each B R fuel envs (env d) c b f s) }"

definition dyn_clone_consumer ::
  "('m, 'c) Rings \<Rightarrow> ('q, 'm) DShared \<Rightarrow> ('a, 'c) DConsumer \<Rightarrow> ('q, 'm) DShared \<times> ('a, 'c) DConsumer" where
  "dyn_clone_consumer R d c =
     (d\<lparr>dsh := (dsh d)\<lparr>live_consumers := live_consumers (dsh d) + 1\<rparr>\<rparr>,
      \<lparr>dcur = rg_cursor R (live_consumers (dsh d)), dstaging = batch_new, dbatch = dbatch c\<rparr>)"

definition dyn_drop_consumer :: "('q, 'm) DShared \<Rightarrow> ('a, 'c) DConsumer \<Rightarrow> ('a list \<times> ('q, 'm) DShared) option" where
  "dyn_drop_consumer d c =
     do { (dropped, _) \<leftarrow> batch_clear (dstaging c);
          Some (dropped, d\<lparr>dsh := (dsh d)\<lparr>live_consumers := live_consumers (dsh d) - 1\<rparr>\<rparr>) }"

section \<open>What a membership promises\<close>

text \<open>The cells that \<open>n\<close> successive calls of \<open>next\<close> return.\<close>

fun visits :: "('m, 'c) Rings \<Rightarrow> 'm \<Rightarrow> nat \<Rightarrow> 'c \<Rightarrow> nat option list" where
  "visits R m 0 c = []"
| "visits R m (Suc n) c = (case rg_next R m c of Some (Some p, c') \<Rightarrow> p # visits R m n c' | _ \<Rightarrow> [])"

text \<open>
  \<open>minv m pd\<close>: the membership is well formed while the registrations \<open>pd\<close> are under way; \<open>pointers\<close> are the slots it can hand out;
  \<open>cinv\<close> holds of every consumer's cursor, whatever was registered since. With no registration under way, as many calls of \<open>next\<close>
  as \<open>count\<close> says visit every slot.
\<close>

locale growing =
  fixes R :: "('m, 'c) Rings"
    and minv :: "'m \<Rightarrow> (nat \<times> nat) list \<Rightarrow> bool"
    and pointers :: "'m \<Rightarrow> nat set"
    and cinv :: "'m \<Rightarrow> 'c \<Rightarrow> bool"
  assumes next_law: "minv m pd \<Longrightarrow> cinv m c \<Longrightarrow> \<exists>p c'. rg_next R m c = Some (p, c') \<and> cinv m c' \<and> (\<forall>i. p = Some (Some i) \<longrightarrow> i \<in> pointers m)"
    and cursor_law: "cinv m (rg_cursor R seed)"
    and prefer_law: "cinv m c \<Longrightarrow> cinv m (rg_prefer R c)"
    and cover: "minv m [] \<Longrightarrow> cinv m c \<Longrightarrow> pointers m \<subseteq> {i. Some i \<in> set (visits R m (unat (rg_count R m)) c)}"
    and begin_law: "minv m pd \<Longrightarrow> i \<notin> pointers m \<union> snd ` set pd \<Longrightarrow> card (pointers m \<union> snd ` set pd) + 1 < 2 ^ 64 \<Longrightarrow> rg_begin R i m = Some (at, m')
      \<Longrightarrow> minv m' ((at, i) # pd) \<and> pointers m \<subseteq> pointers m' \<and> pointers m' \<subseteq> insert i (pointers m) \<and> (\<forall>c. cinv m c \<longrightarrow> cinv m' c)"
    and publish_law: "minv m pd \<Longrightarrow> (at, i) \<in> set pd \<Longrightarrow> \<exists>m'. rg_publish R at i m = Some m' \<and> minv m' (remove1 (at, i) pd)
        \<and> pointers m' = insert i (pointers m) \<and> (\<forall>c. cinv m c \<longrightarrow> cinv m' c)"
begin

end

subsection \<open>The locked vector\<close>

definition locked_inv :: "LockedRings \<Rightarrow> (nat \<times> nat) list \<Rightarrow> bool" where
  "locked_inv m pd \<longleftrightarrow> distinct (lr_slots m) \<and> length (lr_slots m) < 2 ^ 64 \<and> length (lr_slots m) = unat (lr_count m) + length pd
     \<and> snd ` set pd \<subseteq> set (lr_slots m)"

definition snapshot_of :: "LockedRings \<Rightarrow> LockedCursor \<Rightarrow> bool" where
  "snapshot_of m c \<longleftrightarrow> lc_snap c = take (length (lc_snap c)) (lr_slots m)"

text \<open>A non-empty snapshot always has a next slot.\<close>

lemma cursor_next_less:
  assumes "xs \<noteq> []" "length xs < 2 ^ 64"
  shows "unat (fst (cursor_next c (of_nat (length xs)))) < length xs"
proof -
  have l: "unat (of_nat (length xs) :: usize) = length xs" using assms(2) by (rule unat_of_nat_usize)
  then have "(0 :: usize) < of_nat (length xs)" using assms(1) by (simp add: word_less_nat_alt)
  from rr_index_less [OF this, of "cur_next c"] show ?thesis
    using l by (simp add: cursor_next_def rr_next_def Let_def word_less_nat_alt)
qed

lemma locked_next_Some:
  assumes "locked_inv m pd" "snapshot_of m c" "lr_count m \<noteq> 0"
  defines "snap \<equiv> if length (lc_snap c) < unat (lr_count m) then lr_slots m else lc_snap c"
  shows "locked_next m c = Some (Some (Some (snap ! unat (fst (cursor_next (lc_scan c) (of_nat (length snap)))))),
      \<lparr>lc_scan = snd (cursor_next (lc_scan c) (of_nat (length snap))), lc_snap = snap\<rparr>)"
    and "unat (fst (cursor_next (lc_scan c) (of_nat (length snap)))) < length snap" "snap = take (length snap) (lr_slots m)"
proof -
  have z: "0 < unat (lr_count m)" using assms(3) by (simp add: unat_gt_0)
  show t: "snap = take (length snap) (lr_slots m)" using assms(2) by (simp add: snap_def snapshot_of_def)
  have "snap \<noteq> []" using z assms(1) by (auto simp: snap_def locked_inv_def)
  moreover have "length snap \<le> length (lr_slots m)" using t by (metis length_take min.cobounded1)
  then have "length snap < 2 ^ 64" using assms(1) by (simp add: locked_inv_def)
  ultimately show lt: "unat (fst (cursor_next (lc_scan c) (of_nat (length snap)))) < length snap" by (rule cursor_next_less)
  show "locked_next m c = Some (Some (Some (snap ! unat (fst (cursor_next (lc_scan c) (of_nat (length snap)))))),
      \<lparr>lc_scan = snd (cursor_next (lc_scan c) (of_nat (length snap))), lc_snap = snap\<rparr>)"
    using lt assms(3) by (simp add: locked_next_def Let_def case_prod_beta flip: snap_def)
qed

lemma locked_visits:
  assumes "locked_inv m []" "snapshot_of m c" "lr_count m \<noteq> 0"
  shows "visits locked_rings m n c = map (\<lambda>k. Some (lr_slots m ! k)) (scan_positions n (of_nat (length (lr_slots m))) (lc_scan c))"
  using assms(2)
proof (induction n arbitrary: c)
  case (Suc n)
  let ?snap = "if length (lc_snap c) < unat (lr_count m) then lr_slots m else lc_snap c"
  note N = locked_next_Some [OF assms(1) Suc.prems assms(3)]
  have "length ?snap = length (lr_slots m)"
    using assms(1) Suc.prems by (auto simp: locked_inv_def snapshot_of_def dest: arg_cong [of _ _ length])
  then have s: "?snap = lr_slots m" using N(3) by (metis take_all order_refl)
  let ?c = "\<lparr>lc_scan = snd (cursor_next (lc_scan c) (of_nat (length (lr_slots m)))), lc_snap = lr_slots m\<rparr>"
  have "visits locked_rings m n ?c = map (\<lambda>k. Some (lr_slots m ! k)) (scan_positions n (of_nat (length (lr_slots m))) (lc_scan ?c))"
    by (rule Suc.IH) (simp add: snapshot_of_def)
  then show ?case using N(1) unfolding s by (simp add: locked_rings_def)
qed simp

interpretation locked: growing locked_rings locked_inv "\<lambda>m. set (lr_slots m)" snapshot_of
proof
  fix m pd c assume a: "locked_inv m pd" "snapshot_of m c"
  show "\<exists>p c'. rg_next locked_rings m c = Some (p, c') \<and> snapshot_of m c' \<and> (\<forall>i. p = Some (Some i) \<longrightarrow> i \<in> set (lr_slots m))"
  proof (cases "lr_count m = 0")
    case True
    then show ?thesis using a(2) by (simp add: locked_rings_def locked_next_def)
  next
    case False
    note N = locked_next_Some [OF a False]
    let ?snap = "if length (lc_snap c) < unat (lr_count m) then lr_slots m else lc_snap c"
    have "set ?snap \<subseteq> set (lr_slots m)" using set_take_subset [of "length ?snap" "lr_slots m"] unfolding N(3) [symmetric] .
    then have "?snap ! unat (fst (cursor_next (lc_scan c) (of_nat (length ?snap)))) \<in> set (lr_slots m)" using N(2) nth_mem by blast
    moreover have "snapshot_of m \<lparr>lc_scan = sc, lc_snap = ?snap\<rparr>" for sc using N(3) unfolding snapshot_of_def by simp
    ultimately show ?thesis using N(1) unfolding locked_rings_def by (intro exI conjI) (simp, assumption, simp)
  qed
next
  fix m c assume a: "locked_inv m []" "snapshot_of m c"
  show "set (lr_slots m) \<subseteq> {i. Some i \<in> set (visits locked_rings m (unat (rg_count locked_rings m)) c)}"
  proof (cases "lr_count m = 0")
    case True
    then show ?thesis using a(1) by (simp add: locked_inv_def)
  next
    case False
    have n: "unat (rg_count locked_rings m) = length (lr_slots m)" "0 < length (lr_slots m)" "length (lr_slots m) < 2 ^ 64"
      using a(1) False by (auto simp: locked_inv_def locked_rings_def unat_gt_0)
    show ?thesis unfolding n(1) locked_visits [OF a False] set_map full_scan_covers [OF n(2,3)] by (auto simp: in_set_conv_nth)
  qed
next
  fix m pd i at m' assume a: "locked_inv m pd" "i \<notin> set (lr_slots m) \<union> snd ` set pd" "card (set (lr_slots m) \<union> snd ` set pd) + 1 < 2 ^ 64"
    "rg_begin locked_rings i m = Some (at, m')"
  have "set (lr_slots m) \<union> snd ` set pd = set (lr_slots m)" using a(1) by (auto simp: locked_inv_def)
  then have "length (lr_slots m) + 1 < 2 ^ 64" using a(1,3) distinct_card [of "lr_slots m"] by (simp add: locked_inv_def)
  then show "locked_inv m' ((at, i) # pd) \<and> set (lr_slots m) \<subseteq> set (lr_slots m') \<and> set (lr_slots m') \<subseteq> insert i (set (lr_slots m))
      \<and> (\<forall>c. snapshot_of m c \<longrightarrow> snapshot_of m' c)"
    using a(1,2,4) by (auto simp: locked_rings_def locked_inv_def snapshot_of_def dest: arg_cong [of _ _ length])
next
  fix m pd at i assume a: "locked_inv m pd" "(at, i) \<in> set pd"
  let ?m = "m\<lparr>lr_count := lr_count m + 1\<rparr>"
  have "pd \<noteq> []" using a(2) by auto
  then have l: "1 \<le> length pd" by (cases pd) auto
  moreover have "unat (lr_count m) + length pd < 2 ^ 64" using a(1) by (simp add: locked_inv_def)
  ultimately have "unat (lr_count m) + 1 < 2 ^ 64" by linarith
  then have "unat (lr_count m + 1) = unat (lr_count m) + 1" by (simp add: unat_word_ariths)
  moreover have "snd ` set (remove1 (at, i) pd) \<subseteq> snd ` set pd" by (intro image_mono set_remove1_subset)
  ultimately have "locked_inv ?m (remove1 (at, i) pd)"
    using a l by (auto simp: locked_inv_def length_remove1)
  moreover have "i \<in> set (lr_slots m)" using a by (force simp: locked_inv_def)
  ultimately show "\<exists>m'. rg_publish locked_rings at i m = Some m' \<and> locked_inv m' (remove1 (at, i) pd) \<and> set (lr_slots m') = insert i (set (lr_slots m))
      \<and> (\<forall>c. snapshot_of m c \<longrightarrow> snapshot_of m' c)"
    by (auto simp: locked_rings_def snapshot_of_def)
qed (auto simp: locked_rings_def snapshot_of_def)

subsection \<open>The bounded array\<close>

definition array_inv :: "ArrayRings \<Rightarrow> (nat \<times> nat) list \<Rightarrow> bool" where
  "array_inv m pd \<longleftrightarrow> unat (ar_len m) \<le> length (ar_cells m) \<and> length (ar_cells m) < 2 ^ 64 \<and> distinct (map fst pd)
     \<and> (\<forall>k<length (ar_cells m). k \<in> fst ` set pd \<or> unat (ar_len m) \<le> k \<longleftrightarrow> ar_cells m ! k = None) \<and> fst ` set pd \<subseteq> {..<unat (ar_len m)}"

definition array_pointers :: "ArrayRings \<Rightarrow> nat set" where
  "array_pointers m = {i. Some i \<in> set (ar_cells m)}"

lemma array_next_Some:
  assumes "array_inv m pd" "ar_len m \<noteq> 0"
  shows "array_next m c = Some (Some (ar_cells m ! unat (fst (cursor_next c (ar_len m)))), snd (cursor_next c (ar_len m)))"
    "unat (fst (cursor_next c (ar_len m))) < length (ar_cells m)"
proof -
  have "(0 :: usize) < ar_len m" using assms(2) by (simp add: word_neq_0_conv)
  from rr_index_less [OF this, of "cur_next c"] have "unat (fst (cursor_next c (ar_len m))) < unat (ar_len m)"
    by (simp add: cursor_next_def rr_next_def Let_def word_less_nat_alt)
  then show lt: "unat (fst (cursor_next c (ar_len m))) < length (ar_cells m)" using assms(1) by (simp add: array_inv_def)
  then show "array_next m c = Some (Some (ar_cells m ! unat (fst (cursor_next c (ar_len m)))), snd (cursor_next c (ar_len m)))"
    using assms(2) by (simp add: array_next_def Let_def case_prod_beta)
qed

lemma array_visits:
  assumes "array_inv m pd" "ar_len m \<noteq> 0"
  shows "visits array_rings m n c = map ((!) (ar_cells m)) (scan_positions n (ar_len m) c)"
proof (induction n arbitrary: c)
  case (Suc n)
  then show ?case using array_next_Some(1) [OF assms, of c] by (simp add: array_rings_def)
qed simp

lemma array_cell:
  "array_inv m pd \<Longrightarrow> k < length (ar_cells m) \<Longrightarrow> ar_cells m ! k = None \<longleftrightarrow> k \<in> fst ` set pd \<or> unat (ar_len m) \<le> k"
  unfolding array_inv_def by (elim conjE allE [of _ k] impE) auto

lemma remove1_fst:
  assumes "distinct (map fst pd)" "(at, i) \<in> set pd"
  shows "fst ` set (remove1 (at, i) pd) = fst ` set pd - {at}" "distinct (map fst (remove1 (at, i) pd))"
proof -
  have d: "distinct pd" "inj_on fst (set pd)" using assms(1) by (simp_all add: distinct_map)
  have s: "set (remove1 (at, i) pd) = set pd - {(at, i)}" using d(1) by (rule set_remove1_eq)
  show "fst ` set (remove1 (at, i) pd) = fst ` set pd - {at}"
    unfolding s using inj_on_image_set_diff [OF d(2), of "set pd" "{(at, i)}"] assms(2) by simp
  show "distinct (map fst (remove1 (at, i) pd))" using d by (simp add: distinct_map s inj_on_diff)
qed

lemma array_begin_law:
  assumes a: "array_inv m pd" "rg_begin array_rings i m = Some (at, m')"
  shows "array_inv m' ((at, i) # pd) \<and> array_pointers m \<subseteq> array_pointers m' \<and> array_pointers m' \<subseteq> insert i (array_pointers m)"
proof -
  have m': "unat (ar_len m) < length (ar_cells m)" "at = unat (ar_len m)" "m' = m\<lparr>ar_len := ar_len m + 1\<rparr>"
    using a(2) by (auto simp: array_rings_def array_begin_def split: if_splits)
  have "unat (ar_len m) + 1 < 2 ^ 64" using m'(1) a(1) by (simp add: array_inv_def)
  then have l: "unat (ar_len m + 1) = Suc (unat (ar_len m))" by (simp add: unat_word_ariths)
  have "at \<notin> fst ` set pd" using a(1) m'(2) by (auto simp: array_inv_def)
  moreover have "fst ` set pd \<subseteq> {..<unat (ar_len m')}" using a(1) m'(3) l unfolding array_inv_def by force
  moreover have "k \<in> fst ` set ((at, i) # pd) \<or> unat (ar_len m') \<le> k \<longleftrightarrow> ar_cells m' ! k = None" if k: "k < length (ar_cells m)" for k
  proof (cases "k = at")
    case True
    have "ar_cells m ! k = None" using a(1) k m'(2) True unfolding array_inv_def by (metis order_refl)
    then show ?thesis using True m'(3) by simp
  next
    case False
    then have "k \<in> fst ` set pd \<or> unat (ar_len m) \<le> k \<longleftrightarrow> ar_cells m ! k = None" "unat (ar_len m) \<le> k \<longleftrightarrow> Suc (unat (ar_len m)) \<le> k"
      using a(1) k m'(2) unfolding array_inv_def by auto
    then show ?thesis using False m'(3) l by simp
  qed
  ultimately have "array_inv m' ((at, i) # pd)" using a(1) m' l unfolding array_inv_def by simp
  then show "array_inv m' ((at, i) # pd) \<and> array_pointers m \<subseteq> array_pointers m' \<and> array_pointers m' \<subseteq> insert i (array_pointers m)"
    using m'(3) by (auto simp: array_pointers_def)
qed

lemma array_publish_law:
  assumes a: "array_inv m pd" "(at, i) \<in> set pd"
  shows "\<exists>m'. rg_publish array_rings at i m = Some m' \<and> array_inv m' (remove1 (at, i) pd) \<and> array_pointers m' = insert i (array_pointers m)"
proof -
  have "at \<in> fst ` set pd" using a(2) by (rule image_eqI [rotated]) simp
  moreover from this have at1: "at < unat (ar_len m)" "at < length (ar_cells m)" using a(1) unfolding array_inv_def by auto
  ultimately have at: "at < unat (ar_len m)" "at < length (ar_cells m)" "ar_cells m ! at = None" using array_cell [OF a(1) at1(2)] by simp_all
  let ?m = "m\<lparr>ar_cells := (ar_cells m)[at := Some i]\<rparr>"
  note f = remove1_fst [of pd, OF _ a(2)]
  have d: "distinct (map fst pd)" using a(1) by (simp add: array_inv_def)
  have "(k \<in> fst ` set (remove1 (at, i) pd) \<or> unat (ar_len m) \<le> k) = ((ar_cells m)[at := Some i] ! k = None)" if "k < length (ar_cells m)" for k
    using at array_cell [OF a(1) that] f(1) [OF d] by (cases "k = at") auto
  moreover have "fst ` set (remove1 (at, i) pd) \<subseteq> {..<unat (ar_len m)}" using a(1) f(1) [OF d] unfolding array_inv_def by auto
  ultimately have "array_inv ?m (remove1 (at, i) pd)" using a(1) f(2) [OF d] unfolding array_inv_def by simp
  moreover have "array_pointers ?m = insert i (array_pointers m)"
  proof -
    have "Some j \<in> set ((ar_cells m)[at := Some i]) \<longleftrightarrow> j = i \<or> Some j \<in> set (ar_cells m)" for j
    proof (cases "j = i")
      case True
      then show ?thesis using set_update_memI [OF at(2), of "Some i"] by simp
    next
      case False
      have "Some j \<in> set ((ar_cells m)[at := Some i])" if m: "Some j \<in> set (ar_cells m)"
      proof -
        obtain k where k: "k < length (ar_cells m)" "ar_cells m ! k = Some j" using m by (auto simp: in_set_conv_nth)
        then have "(ar_cells m)[at := Some i] ! k = Some j" using at(3) by (cases "k = at") auto
        then show ?thesis using k(1) by (metis length_list_update nth_mem)
      qed
      then show ?thesis using False set_update_subset_insert [of "ar_cells m" at "Some i"] by blast
    qed
    then show ?thesis by (auto simp: array_pointers_def)
  qed
  ultimately show "\<exists>m'. rg_publish array_rings at i m = Some m' \<and> array_inv m' (remove1 (at, i) pd) \<and> array_pointers m' = insert i (array_pointers m)"
    using at(2) by (simp add: array_rings_def array_publish_def)
qed

interpretation array: growing array_rings array_inv array_pointers "\<lambda>_ _. True"
proof
  fix m pd c assume a: "array_inv m pd"
  show "\<exists>p c'. rg_next array_rings m c = Some (p, c') \<and> True \<and> (\<forall>i. p = Some (Some i) \<longrightarrow> i \<in> array_pointers m)"
  proof (cases "ar_len m = 0")
    case True
    then show ?thesis by (simp add: array_rings_def array_next_def)
  next
    case False
    have "ar_cells m ! unat (fst (cursor_next c (ar_len m))) = Some i \<Longrightarrow> i \<in> array_pointers m" for i
      using array_next_Some(2) [OF a False, of c] unfolding array_pointers_def by (metis mem_Collect_eq nth_mem)
    then show ?thesis using array_next_Some(1) [OF a False, of c] by (simp add: array_rings_def)
  qed
next
  fix m c assume a: "array_inv m []"
  show "array_pointers m \<subseteq> {i. Some i \<in> set (visits array_rings m (unat (rg_count array_rings m)) c)}"
  proof (cases "ar_len m = 0")
    case True
    then have "ar_cells m ! k = None" if "k < length (ar_cells m)" for k using a that by (auto simp: array_inv_def)
    then show ?thesis by (force simp: array_pointers_def in_set_conv_nth)
  next
    case False
    have n: "0 < unat (ar_len m)" "unat (ar_len m) < 2 ^ 64" using False a by (auto simp: array_inv_def unat_gt_0)
    have cov: "set (scan_positions (unat (ar_len m)) (ar_len m) c) = {0..<unat (ar_len m)}" using full_scan_covers [OF n, of c] by simp
    show ?thesis
    proof
      fix i assume "i \<in> array_pointers m"
      then obtain k where k: "k < length (ar_cells m)" "ar_cells m ! k = Some i" by (auto simp: array_pointers_def in_set_conv_nth)
      then have "k < unat (ar_len m)" using a by (force simp: array_inv_def)
      then have "Some i \<in> (!) (ar_cells m) ` {0..<unat (ar_len m)}" using k(2) by force
      then show "i \<in> {i. Some i \<in> set (visits array_rings m (unat (rg_count array_rings m)) c)}"
        unfolding array_visits [OF a False] using cov by (simp add: array_rings_def)
    qed
  qed
qed (simp_all add: array_begin_law array_publish_law)

section \<open>What a scan of a growing membership does\<close>

context spsc_backend
begin

text \<open>Claiming a free slot, draining it into an empty batch and releasing it.\<close>

lemma claim_refill:
  assumes "slots_rep rep sh vss" "i < length (slots sh)" "\<not> claimed (slots sh ! i)" "batch_rep st []" "b \<noteq> 0"
  shows "\<exists>k q st'. bk_drain_into B (rx (slots sh ! i)) b st = Some (k, q, st')
     \<and> slots_rep rep (set_slot i (release_claim ((slots sh ! i)\<lparr>claimed := True, rx := q\<rparr>)) sh) (vss[i := drop k (vss ! i)])
     \<and> same_flags sh (set_slot i (release_claim ((slots sh ! i)\<lparr>claimed := True, rx := q\<rparr>)) sh)
     \<and> batch_rep st' (take k (vss ! i)) \<and> (batch_is_empty st' \<longleftrightarrow> vss ! i = []) \<and> k \<le> min (length (vss ! i)) (unat b)
     \<and> (0 < k \<longleftrightarrow> vss ! i \<noteq> [])"
proof -
  have r: "rep (rx (slots sh ! i)) (vss ! i)" using assms(1,2) by (simp add: slots_rep_def)
  obtain n q st' where d: "bk_drain_into B (rx (slots sh ! i)) b st = Some (n, q, st')"
    "rep q (drop n (vss ! i))" "batch_rep st' ([] @ take n (vss ! i))"
    "n \<le> min (length (vss ! i)) (unat b)" "n = 0 \<longleftrightarrow> vss ! i = [] \<or> b = 0"
    using drain_into [OF r assms(4), of b] by (elim exE conjE) (rule that)
  let ?s = "release_claim ((slots sh ! i)\<lparr>claimed := True, rx := q\<rparr>)"
  have "slots_rep rep (set_slot i ?s sh) (vss[i := drop n (vss ! i)])" "same_flags sh (set_slot i ?s sh)"
    using set_slot_rep [OF assms(1,2), of ?s "drop n (vss ! i)"] d(2) assms(3) by (simp_all add: release_claim_def)
  moreover have "batch_is_empty st' \<longleftrightarrow> vss ! i = []" using batch_is_empty_rep [OF d(3)] d(5) assms(5) by auto
  ultimately show ?thesis using d assms(5) by (intro exI [of _ n] exI [of _ q] exI [of _ st']) (simp flip: neq0_conv)
qed

end

locale dynamic_mpmc = lane_backend B rep ctl accepts pgone cgone + growing R minv pointers cinv
  for B :: "('q, 'a, 's) Backend" and rep and ctl :: "'q \<Rightarrow> 'k" and accepts and pgone and cgone
    and R :: "('m, 'c) Rings" and minv and pointers and cinv
begin

definition dyn_ok :: "('q, 'm) DShared \<Rightarrow> (nat \<times> nat) list \<Rightarrow> 'a list list \<Rightarrow> bool" where
  "dyn_ok d pd vss \<longleftrightarrow> slots_rep rep (dsh d) vss \<and> minv (dmem d) pd \<and> pointers (dmem d) \<subseteq> {..<length (slots (dsh d))}"

lemma dyn_okD: "dyn_ok d pd vss \<Longrightarrow> slots_rep rep (dsh d) vss" "dyn_ok d pd vss \<Longrightarrow> minv (dmem d) pd"
    "dyn_ok d pd vss \<Longrightarrow> i \<in> pointers (dmem d) \<Longrightarrow> i < length (slots (dsh d))"
  by (auto simp: dyn_ok_def)

text \<open>What a scan leaves: the membership and the claims as they were, the slots with \<open>got\<close> taken out of one of them.\<close>

definition after_scan :: "nat set \<Rightarrow> nat \<Rightarrow> ('q, 'm) DShared \<Rightarrow> (nat \<times> nat) list \<Rightarrow> 'a list list \<Rightarrow> ('q, 'm) DShared \<Rightarrow> 'a list list \<Rightarrow> 'a list \<Rightarrow> bool" where
  "after_scan P lim d pd vss d' vss' got \<longleftrightarrow> dyn_ok d' pd vss' \<and> dmem d' = dmem d \<and> same_flags (dsh d) (dsh d')
     \<and> scanned (flags (dsh d)) lim P vss vss' got"

lemma after_scan_insert:
  "after_scan P lim d pd vss d' vss' got \<Longrightarrow> flags (dsh d) ! i \<or> vss ! i = [] \<Longrightarrow> after_scan (insert i P) lim d pd vss d' vss' got"
  by (auto simp: after_scan_def intro: scanned_insert)

lemma after_scan_none: "dyn_ok d pd vss \<Longrightarrow> after_scan {} lim d pd vss d vss []"
  by (simp add: after_scan_def scanned_def)

text \<open>A scan that continues behind an empty slot.\<close>

lemma after_scan_step:
  assumes "after_scan P lim d1 pd vss d' vss' got" "same_flags (dsh d) (dsh d1)" "dmem d1 = dmem d" "vss ! i = []"
  shows "after_scan (insert i P) lim d pd vss d' vss' got"
  using assms same_flags_trans [OF assms(2)] same_flags_flags [OF assms(2)] by (auto simp: after_scan_def intro: scanned_insert)

abbreviation seen_by :: "nat \<Rightarrow> ('q, 'm) DShared \<Rightarrow> 'c \<Rightarrow> nat set" where
  "seen_by n d cur \<equiv> {i. Some i \<in> set (visits R (dmem d) n cur)}"

lemma dyn_refill_loop_spec:
  assumes "dyn_ok d pd vss" "cinv (dmem d) (dcur c)" "batch_rep (dstaging c) []" "dbatch c \<noteq> 0"
  shows "\<exists>d' c' vss' got. dyn_refill_loop B R n d c = Some (d', c') \<and> after_scan (seen_by n d (dcur c)) (unat (dbatch c)) d pd vss d' vss' got
     \<and> cinv (dmem d) (dcur c') \<and> dbatch c' = dbatch c \<and> batch_rep (dstaging c') got"
  using assms
proof (induction n arbitrary: d c)
  case 0
  then show ?case using after_scan_none by (intro exI [of _ d] exI [of _ c] exI [of _ vss] exI [of _ "[]"]) simp
next
  case (Suc n)
  obtain p cur where nx: "rg_next R (dmem d) (dcur c) = Some (p, cur)" "cinv (dmem d) cur" "\<And>i. p = Some (Some i) \<Longrightarrow> i \<in> pointers (dmem d)"
    using next_law [OF dyn_okD(2) [OF Suc.prems(1)] Suc.prems(2)] by blast
  consider (none) "p = None" | (null) "p = Some None" | (slot) i where "p = Some (Some i)" by (cases p) (auto intro: option.exhaust)
  then show ?case
  proof cases
    case none
    then show ?thesis using nx Suc.prems after_scan_none
      by (intro exI [of _ d] exI [of _ "c\<lparr>dcur := cur\<rparr>"] exI [of _ vss] exI [of _ "[]"]) simp
  next
    case null
    then show ?thesis using nx Suc.prems Suc.IH [OF Suc.prems(1), of "c\<lparr>dcur := cur\<rparr>"] by simp
  next
    case slot
    have i: "i < length (slots (dsh d))" using dyn_okD(3) [OF Suc.prems(1) nx(3) [OF slot]] .
    have lv: "length vss = length (slots (dsh d))" using Suc.prems(1) by (simp add: dyn_ok_def slots_rep_def)
    have fl: "flags (dsh d) ! i = claimed (slots (dsh d) ! i)" using i by (simp add: flags_def)
    have ps: "seen_by (Suc n) d (dcur c) = insert i (seen_by n d cur)" using nx(1) slot by auto
    show ?thesis
    proof (cases "claimed (slots (dsh d) ! i)")
      case True
      obtain d' c' vss' got where "dyn_refill_loop B R n d (c\<lparr>dcur := cur\<rparr>) = Some (d', c')"
        "after_scan (seen_by n d cur) (unat (dbatch c)) d pd vss d' vss' got" "cinv (dmem d) (dcur c')" "dbatch c' = dbatch c" "batch_rep (dstaging c') got"
        using Suc.IH [OF Suc.prems(1), of "c\<lparr>dcur := cur\<rparr>"] nx(2) Suc.prems by auto
      then show ?thesis using nx(1) slot i True after_scan_insert fl unfolding ps
        by (intro exI [of _ d'] exI [of _ c'] exI [of _ vss'] exI [of _ got]) (simp add: try_acquire_def)
    next
      case False
      obtain k q st where d: "bk_drain_into B (rx (slots (dsh d) ! i)) (dbatch c) (dstaging c) = Some (k, q, st)"
        "slots_rep rep (set_slot i (release_claim ((slots (dsh d) ! i)\<lparr>claimed := True, rx := q\<rparr>)) (dsh d)) (vss[i := drop k (vss ! i)])"
        "same_flags (dsh d) (set_slot i (release_claim ((slots (dsh d) ! i)\<lparr>claimed := True, rx := q\<rparr>)) (dsh d))"
        "batch_rep st (take k (vss ! i))" "batch_is_empty st \<longleftrightarrow> vss ! i = []" "k \<le> min (length (vss ! i)) (unat (dbatch c))" "0 < k \<longleftrightarrow> vss ! i \<noteq> []"
        using claim_refill [OF dyn_okD(1) [OF Suc.prems(1)] i False Suc.prems(3,4)] by (elim exE conjE) (rule that)
      let ?d = "d\<lparr>dsh := set_slot i (release_claim ((slots (dsh d) ! i)\<lparr>claimed := True, rx := q\<rparr>)) (dsh d)\<rparr>"
      have ok: "dyn_ok ?d pd (vss[i := drop k (vss ! i)])" using Suc.prems(1) d(2) by (simp add: dyn_ok_def set_slot_def)
      show ?thesis
      proof (cases "vss ! i = []")
        case True
        then have v: "vss[i := drop k (vss ! i)] = vss" by (metis drop_Nil list_update_id)
        obtain d' c' vss' got where IH: "dyn_refill_loop B R n ?d (c\<lparr>dcur := cur, dstaging := st\<rparr>) = Some (d', c')"
          "after_scan (seen_by n ?d cur) (unat (dbatch c)) ?d pd vss d' vss' got" "cinv (dmem d) (dcur c')" "dbatch c' = dbatch c" "batch_rep (dstaging c') got"
          using Suc.IH [OF ok [unfolded v], of "c\<lparr>dcur := cur, dstaging := st\<rparr>"] nx(2) Suc.prems(4) d(4) True by auto
        have "after_scan (insert i (seen_by n ?d cur)) (unat (dbatch c)) d pd vss d' vss' got"
          using after_scan_step [OF IH(2), of d i] d(3) True by simp
        then show ?thesis using nx(1) slot i False d(1,5) True IH unfolding ps
          by (intro exI [of _ d'] exI [of _ c'] exI [of _ vss'] exI [of _ got]) (simp add: try_acquire_def)
      next
        case ne: False
        let ?c = "c\<lparr>dcur := rg_prefer R cur, dstaging := st\<rparr>"
        have "after_scan P (unat (dbatch c)) d pd vss ?d (vss[i := drop k (vss ! i)]) (take k (vss ! i))" for P
          using ok d(3,6,7) i lv fl False ne unfolding after_scan_def by (simp add: scannedI)
        moreover have "dyn_refill_loop B R (Suc n) d c = Some (?d, ?c)" using nx(1) slot i False d(1,5) ne by (simp add: try_acquire_def)
        ultimately show ?thesis using prefer_law [OF nx(2)] d(4)
          by (intro exI [of _ ?d] exI [of _ ?c] exI [of _ "vss[i := drop k (vss ! i)]"] exI [of _ "take k (vss ! i)"]) simp
      qed
    qed
  qed
qed

text \<open>A whole pass; with no registration under way it reaches every published slot.\<close>

definition reached :: "('q, 'm) DShared \<Rightarrow> (nat \<times> nat) list \<Rightarrow> nat set" where
  "reached d pd = (if pd = [] then pointers (dmem d) else {})"

lemma after_scan_reached:
  assumes "dyn_ok d pd vss" "cinv (dmem d) cur" "after_scan (seen_by (unat (rg_count R (dmem d))) d cur) lim d pd vss d' vss' got"
  shows "after_scan (reached d pd) lim d pd vss d' vss' got"
proof -
  have "reached d pd \<subseteq> seen_by (unat (rg_count R (dmem d))) d cur"
    using cover [of "dmem d" cur] assms(1,2) by (auto simp: reached_def dyn_ok_def)
  then show ?thesis using assms(3) unfolding after_scan_def scanned_def by blast
qed

lemma dyn_refill_spec:
  assumes "dyn_ok d pd vss" "cinv (dmem d) (dcur c)" "batch_rep (dstaging c) st" "dbatch c \<noteq> 0"
  shows "\<exists>d' c' vss' got. dyn_refill B R d c = Some (st, d', c') \<and> after_scan (reached d pd) (unat (dbatch c)) d pd vss d' vss' got
     \<and> cinv (dmem d) (dcur c') \<and> dbatch c' = dbatch c \<and> batch_rep (dstaging c') got"
proof -
  let ?c = "c\<lparr>dstaging := (dstaging c)\<lparr>bvalues := [], bread := 0\<rparr>\<rparr>"
  obtain d' c' vss' got where r: "dyn_refill_loop B R (unat (rg_count R (dmem d))) d ?c = Some (d', c')"
    "after_scan (seen_by (unat (rg_count R (dmem d))) d (dcur c)) (unat (dbatch c)) d pd vss d' vss' got"
    "cinv (dmem d) (dcur c')" "dbatch c' = dbatch c" "batch_rep (dstaging c') got"
    using dyn_refill_loop_spec [OF assms(1), of ?c "unat (rg_count R (dmem d))"] assms(2,4) by auto
  show ?thesis using r(1,3-5) after_scan_reached [OF assms(1,2) r(2)] batch_clear_rep [OF assms(3)]
    by (intro exI [of _ d'] exI [of _ c'] exI [of _ vss'] exI [of _ got]) (simp add: dyn_refill_def)
qed

text \<open>The outcome of a receive: the staged values first, then a pass.\<close>

definition staged_then :: "'a list \<Rightarrow> nat set \<Rightarrow> nat \<Rightarrow> ('q, 'm) DShared \<Rightarrow> (nat \<times> nat) list \<Rightarrow> 'a list list \<Rightarrow> ('q, 'm) DShared \<Rightarrow> 'a list list \<Rightarrow> 'a list \<Rightarrow> bool" where
  "staged_then st P lim d pd vss d' vss' got \<longleftrightarrow>
     (if st \<noteq> [] then got = st \<and> d' = d \<and> vss' = vss else after_scan P lim d pd vss d' vss' got)"

lemma dyn_try_recv_spec:
  assumes "dyn_ok d pd vss" "cinv (dmem d) (dcur c)" "batch_rep (dstaging c) st" "dbatch c \<noteq> 0"
  shows "\<exists>d' c' vss' got. dyn_try_recv B R d c = Some (case got of [] \<Rightarrow> None | v # _ \<Rightarrow> Some v, [], d', c')
     \<and> staged_then st (reached d pd) (unat (dbatch c)) d pd vss d' vss' got
     \<and> cinv (dmem d) (dcur c') \<and> dbatch c' = dbatch c \<and> batch_rep (dstaging c') (tl got)"
proof -
  obtain b where b: "batch_pop_front (dstaging c) = Some (case st of [] \<Rightarrow> None | v # _ \<Rightarrow> Some v, b)" "batch_rep b (tl st)"
    using batch_pop_front_rep [OF assms(3)] by blast
  show ?thesis
  proof (cases st)
    case (Cons x xs)
    then show ?thesis using b assms
      by (intro exI [of _ d] exI [of _ "c\<lparr>dstaging := b\<rparr>"] exI [of _ vss] exI [of _ st]) (simp add: dyn_try_recv_def staged_then_def)
  next
    case Nil
    obtain d' c' vss' got where r: "dyn_refill B R d (c\<lparr>dstaging := b\<rparr>) = Some ([], d', c')"
      "after_scan (reached d pd) (unat (dbatch c)) d pd vss d' vss' got" "cinv (dmem d) (dcur c')" "dbatch c' = dbatch c" "batch_rep (dstaging c') got"
      using dyn_refill_spec [OF assms(1), of "c\<lparr>dstaging := b\<rparr>" "[]"] assms(2,4) b(2) Nil by auto
    obtain b' where b': "batch_pop_front (dstaging c') = Some (case got of [] \<Rightarrow> None | v # _ \<Rightarrow> Some v, b')" "batch_rep b' (tl got)"
      using batch_pop_front_rep [OF r(5)] by blast
    show ?thesis using b Nil r b'
      by (intro exI [of _ d'] exI [of _ "c'\<lparr>dstaging := b'\<rparr>"] exI [of _ vss'] exI [of _ got]) (simp add: dyn_try_recv_def staged_then_def)
  qed
qed

lemma dyn_try_recv_batch_spec:
  assumes "dyn_ok d pd vss" "cinv (dmem d) (dcur c)" "batch_rep (dstaging c) st" "dbatch c \<noteq> 0" "batch_rep out xs"
  shows "\<exists>d' c' out' vss' got. dyn_try_recv_batch B R d c out = Some (xs, length got, d', c', out')
     \<and> staged_then st (reached d pd) (unat (dbatch c)) d pd vss d' vss' got
     \<and> cinv (dmem d) (dcur c') \<and> dbatch c' = dbatch c \<and> batch_rep (dstaging c') [] \<and> batch_rep out' got"
proof -
  let ?out = "out\<lparr>bvalues := [], bread := 0\<rparr>"
  have cl: "batch_clear out = Some (xs, ?out)" using batch_clear_rep [OF assms(5)] by simp
  show ?thesis
  proof (cases "st = []")
    case True
    then have e: "batch_is_empty (dstaging c)" using batch_is_empty_rep [OF assms(3)] by simp
    obtain d' c' vss' got where r: "dyn_refill B R d (c\<lparr>dstaging := ?out\<rparr>) = Some ([], d', c')"
      "after_scan (reached d pd) (unat (dbatch c)) d pd vss d' vss' got" "cinv (dmem d) (dcur c')" "dbatch c' = dbatch c" "batch_rep (dstaging c') got"
      using dyn_refill_spec [OF assms(1), of "c\<lparr>dstaging := ?out\<rparr>" "[]"] assms(2,4) by auto
    show ?thesis using cl e r True assms(3) batch_len_rep [OF r(5)]
      by (intro exI [of _ d'] exI [of _ "c'\<lparr>dstaging := dstaging c\<rparr>"] exI [of _ "dstaging c'"] exI [of _ vss'] exI [of _ got])
        (simp add: dyn_try_recv_batch_def Let_def staged_then_def)
  next
    case False
    then have e: "\<not> batch_is_empty (dstaging c)" using batch_is_empty_rep [OF assms(3)] by simp
    show ?thesis using cl e False assms batch_len_rep [OF assms(3)]
      by (intro exI [of _ d] exI [of _ "c\<lparr>dstaging := ?out\<rparr>"] exI [of _ "dstaging c"] exI [of _ vss] exI [of _ st])
        (simp add: dyn_try_recv_batch_def Let_def staged_then_def)
  qed
qed

end

subsection \<open>Draining in place\<close>

context spsc_backend
begin

text \<open>Claiming a free slot, draining it into user code and releasing it, whether user code returns or unwinds.\<close>

lemma claim_hand:
  assumes "slots_rep rep sh vss" "i < length (slots sh)" "\<not> claimed (slots sh ! i)" "fin < mx" "mx < 2 ^ 64"
  shows "\<exists>k ok q s'. bk_drain_in_place B (rx (slots sh ! i)) (of_nat (mx - fin)) f s = Some (if ok then Return k else Unwind, q, s')
     \<and> slots_rep rep (set_slot i (release_claim ((slots sh ! i)\<lparr>claimed := True, rx := q\<rparr>)) sh) (vss[i := drop k (vss ! i)])
     \<and> same_flags sh (set_slot i (release_claim ((slots sh ! i)\<lparr>claimed := True, rx := q\<rparr>)) sh)
     \<and> feed f (take k (vss ! i)) s = (k, ok, s') \<and> k \<le> min (length (vss ! i)) (mx - fin) \<and> (0 < k \<longleftrightarrow> vss ! i \<noteq> [])"
proof -
  have r: "rep (rx (slots sh ! i)) (vss ! i)" using assms(1,2) by (simp add: slots_rep_def)
  have mxu: "unat (of_nat (mx - fin) :: usize) = mx - fin" using assms(5) by (intro unat_of_nat_usize) simp
  then have mxz: "(of_nat (mx - fin) :: usize) \<noteq> 0" using assms(4) by (metis unat_0 zero_less_diff less_irrefl)
  obtain r q s' k where d: "bk_drain_in_place B (rx (slots sh ! i)) (of_nat (mx - fin)) f s = Some (r, q, s')"
    "rep q (drop k (vss ! i))" "k \<le> min (length (vss ! i)) (mx - fin)" "k = 0 \<longleftrightarrow> vss ! i = []"
    "handed f (take k (vss ! i)) s r 0 s'"
    using drain_handed [OF r, of "of_nat (mx - fin)" f s] mxz unfolding mxu by (elim exE conjE) simp
  obtain ok where ok: "feed f (take k (vss ! i)) s = (k, ok, s')" "r = (if ok then Return k else Unwind)"
    using d(3,5) by (auto simp: handed_def)
  let ?s = "release_claim ((slots sh ! i)\<lparr>claimed := True, rx := q\<rparr>)"
  have "slots_rep rep (set_slot i ?s sh) (vss[i := drop k (vss ! i)])" "same_flags sh (set_slot i ?s sh)"
    using set_slot_rep [OF assms(1,2), of ?s "drop k (vss ! i)"] d(2) assms(3) by (simp_all add: release_claim_def)
  then show ?thesis using d(1,3,4) ok by (intro exI [of _ k] exI [of _ ok] exI [of _ q] exI [of _ s']) (simp flip: neq0_conv)
qed

end

lemma handed_Nil: "handed f [] s (Return n) n s"
  by (auto simp: handed_def)

context dynamic_mpmc
begin

lemma dyn_drain_scan_spec:
  assumes "dyn_ok d pd vss" "cinv (dmem d) (dcur c)" "fin < mx" "mx < 2 ^ 64"
  shows "\<exists>r d' c' s' vss' got. dyn_drain_scan B R n mx fin d c f s = Some (r, d', c', s')
     \<and> after_scan (seen_by n d (dcur c)) (mx - fin) d pd vss d' vss' got \<and> handed f got s r fin s'
     \<and> cinv (dmem d) (dcur c') \<and> dbatch c' = dbatch c \<and> dstaging c' = dstaging c"
  using assms
proof (induction n arbitrary: d c)
  case 0
  then show ?case using after_scan_none
    by (intro exI [of _ "Return fin"] exI [of _ d] exI [of _ c] exI [of _ s] exI [of _ vss] exI [of _ "[]"]) (simp add: handed_Nil)
next
  case (Suc n)
  obtain p cur where nx: "rg_next R (dmem d) (dcur c) = Some (p, cur)" "cinv (dmem d) cur" "\<And>i. p = Some (Some i) \<Longrightarrow> i \<in> pointers (dmem d)"
    using next_law [OF dyn_okD(2) [OF Suc.prems(1)] Suc.prems(2)] by blast
  consider (none) "p = None" | (null) "p = Some None" | (slot) i where "p = Some (Some i)" by (cases p) (auto intro: option.exhaust)
  then show ?case
  proof cases
    case none
    then show ?thesis using nx Suc.prems after_scan_none
      by (intro exI [of _ "Return fin"] exI [of _ d] exI [of _ "c\<lparr>dcur := cur\<rparr>"] exI [of _ s] exI [of _ vss] exI [of _ "[]"]) (simp add: handed_Nil)
  next
    case null
    then show ?thesis using nx Suc.prems Suc.IH [OF Suc.prems(1), of "c\<lparr>dcur := cur\<rparr>"] by simp
  next
    case slot
    have i: "i < length (slots (dsh d))" using dyn_okD(3) [OF Suc.prems(1) nx(3) [OF slot]] .
    have lv: "length vss = length (slots (dsh d))" using Suc.prems(1) by (simp add: dyn_ok_def slots_rep_def)
    have fl: "flags (dsh d) ! i = claimed (slots (dsh d) ! i)" using i by (simp add: flags_def)
    have ps: "seen_by (Suc n) d (dcur c) = insert i (seen_by n d cur)" using nx(1) slot by auto
    show ?thesis
    proof (cases "claimed (slots (dsh d) ! i)")
      case True
      obtain r d' c' s' vss' got where "dyn_drain_scan B R n mx fin d (c\<lparr>dcur := cur\<rparr>) f s = Some (r, d', c', s')"
        "after_scan (seen_by n d cur) (mx - fin) d pd vss d' vss' got" "handed f got s r fin s'" "cinv (dmem d) (dcur c')"
        "dbatch c' = dbatch c" "dstaging c' = dstaging c"
        using Suc.IH [OF Suc.prems(1), of "c\<lparr>dcur := cur\<rparr>"] nx(2) Suc.prems by auto
      then show ?thesis using nx(1) slot i True after_scan_insert fl unfolding ps
        by (intro exI [of _ r] exI [of _ d'] exI [of _ c'] exI [of _ s'] exI [of _ vss'] exI [of _ got]) (simp add: try_acquire_def)
    next
      case False
      obtain k ok q s' where d: "bk_drain_in_place B (rx (slots (dsh d) ! i)) (of_nat (mx - fin)) f s = Some (if ok then Return k else Unwind, q, s')"
        "slots_rep rep (set_slot i (release_claim ((slots (dsh d) ! i)\<lparr>claimed := True, rx := q\<rparr>)) (dsh d)) (vss[i := drop k (vss ! i)])"
        "same_flags (dsh d) (set_slot i (release_claim ((slots (dsh d) ! i)\<lparr>claimed := True, rx := q\<rparr>)) (dsh d))"
        "feed f (take k (vss ! i)) s = (k, ok, s')" "k \<le> min (length (vss ! i)) (mx - fin)" "0 < k \<longleftrightarrow> vss ! i \<noteq> []"
        using claim_hand [OF dyn_okD(1) [OF Suc.prems(1)] i False Suc.prems(3,4), of f s] by (elim exE conjE) (rule that)
      let ?d = "d\<lparr>dsh := set_slot i (release_claim ((slots (dsh d) ! i)\<lparr>claimed := True, rx := q\<rparr>)) (dsh d)\<rparr>"
      have ok: "dyn_ok ?d pd (vss[i := drop k (vss ! i)])" using Suc.prems(1) d(2) by (simp add: dyn_ok_def set_slot_def)
      show ?thesis
      proof (cases "vss ! i = []")
        case True
        then have k: "k = 0" "ok" "s' = s" using d(4,6) by auto
        have v: "vss[i := drop k (vss ! i)] = vss" using True by (metis drop_Nil list_update_id)
        obtain r d' c' s'' vss' got where IH: "dyn_drain_scan B R n mx fin ?d (c\<lparr>dcur := cur\<rparr>) f s = Some (r, d', c', s'')"
          "after_scan (seen_by n ?d cur) (mx - fin) ?d pd vss d' vss' got" "handed f got s r fin s''" "cinv (dmem d) (dcur c')"
          "dbatch c' = dbatch c" "dstaging c' = dstaging c"
          using Suc.IH [OF ok [unfolded v], of "c\<lparr>dcur := cur\<rparr>"] nx(2) Suc.prems(3,4) by auto
        have "after_scan (insert i (seen_by n ?d cur)) (mx - fin) d pd vss d' vss' got"
          using after_scan_step [OF IH(2), of d i] d(3) True by simp
        then show ?thesis using nx(1) slot i False d(1) k IH unfolding ps
          by (intro exI [of _ r] exI [of _ d'] exI [of _ c'] exI [of _ s''] exI [of _ vss'] exI [of _ got]) (simp add: try_acquire_def)
      next
        case ne: False
        let ?c = "if ok then c\<lparr>dcur := rg_prefer R cur\<rparr> else c\<lparr>dcur := cur\<rparr>"
        let ?r = "if ok then Return (fin + k) else Unwind"
        have "after_scan P (mx - fin) d pd vss ?d (vss[i := drop k (vss ! i)]) (take k (vss ! i))" for P
          using ok d(3,5,6) i lv fl False ne unfolding after_scan_def by (simp add: scannedI)
        moreover have "dyn_drain_scan B R (Suc n) mx fin d c f s = Some (?r, ?d, ?c, s')"
          using nx(1) slot i False d(1,6) ne by (cases ok) (simp_all add: try_acquire_def)
        moreover have "handed f (take k (vss ! i)) s ?r fin s'" using d(4,5) unfolding handed_def by (intro exI [of _ ok]) simp
        ultimately show ?thesis using prefer_law [OF nx(2)] nx(2)
          by (intro exI [of _ ?r] exI [of _ ?d] exI [of _ ?c] exI [of _ s'] exI [of _ "vss[i := drop k (vss ! i)]"] exI [of _ "take k (vss ! i)"]) simp
      qed
    qed
  qed
qed

lemma dyn_drain_spec:
  assumes "dyn_ok d pd vss" "cinv (dmem d) (dcur c)" "batch_rep (dstaging c) st"
  shows "\<exists>r d' c' s' vss' st' seen1 seen2. dyn_drain B R d c mx f s = Some (r, d', c', s')
     \<and> cinv (dmem d) (dcur c') \<and> dbatch c' = dbatch c \<and> batch_rep (dstaging c') st' \<and> st = seen1 @ st' \<and> handed f (seen1 @ seen2) s r 0 s'
     \<and> (if st' = [] \<and> length st < unat mx \<and> fst (snd (feed f st s))
        then after_scan (reached d pd) (unat mx - length st) d pd vss d' vss' seen2
        else seen2 = [] \<and> vss' = vss \<and> d' = d)"
proof -
  obtain k ok s1 where fd: "feed f (take (unat mx) st) s = (k, ok, s1)" by (cases "feed f (take (unat mx) st) s")
  obtain b where b: "drain_staged (unat mx) 0 (dstaging c) f s = Some (ok, 0 + (if ok then k else k - 1), b, s1)" "batch_rep b (drop k st)"
    using drain_staged_spec [OF assms(3) fd, of 0] by blast
  have kl: "k \<le> length (take (unat mx) st)" using feed_le [of f "take (unat mx) st" s] fd by simp
  then have fk: "feed f (take k st) s = (k, ok, s1)" using feed_seen [OF fd] by (simp add: min_def split: if_splits)
  have full: "ok \<Longrightarrow> k = min (length st) (unat mx)" using feed_all [of f "take (unat mx) st" s] fd by (simp add: min.commute)
  show ?thesis
  proof (cases "ok \<and> k < unat mx")
    case True
    then have k: "k = length st" "length st < unat mx" using full by auto
    have mx: "unat mx < 2 ^ 64" using unsigned_less [where ?'a = nat, of mx] by simp
    let ?c = "c\<lparr>dstaging := b\<rparr>"
    obtain r d' c' s' vss' got where e: "dyn_drain_scan B R (unat (rg_count R (dmem d))) (unat mx) k d ?c f s1 = Some (r, d', c', s')"
      "after_scan (seen_by (unat (rg_count R (dmem d))) d (dcur c)) (unat mx - k) d pd vss d' vss' got" "handed f got s1 r k s'"
      "cinv (dmem d) (dcur c')" "dbatch c' = dbatch c" "dstaging c' = b"
      using dyn_drain_scan_spec [OF assms(1) _ _ mx, of ?c k "unat (rg_count R (dmem d))" f s1] assms(2) True by auto
    have "dyn_drain B R d c mx f s = Some (r, d', c', s')" using b(1) True e(1) by (simp add: dyn_drain_def)
    moreover have "handed f (st @ got) s r 0 s'"
    proof -
      obtain ok2 where o: "feed f got s1 = (length got, ok2, s')" "r = (if ok2 then Return (k + length got) else Unwind)"
        using e(3) by (auto simp: handed_def)
      have "feed f st s = (k, True, s1)" using fk k True by simp
      then have "feed f (st @ got) s = (length (st @ got), ok2, s')"
        using o(1) k(1) by (simp only: feed_append if_True fst_conv snd_conv length_append)
      then show ?thesis using o(2) k(1) by (simp only: handed_def) auto
    qed
    moreover have "fst (snd (feed f st s))" using fk k True by simp
    ultimately show ?thesis using e(4-6) after_scan_reached [OF assms(1,2) e(2)] b(2) k
      by - (rule exI [of _ r], rule exI [of _ d'], rule exI [of _ c'], rule exI [of _ s'], rule exI [of _ vss'], rule exI [of _ "[]"],
          rule exI [of _ st], rule exI [of _ got], simp)
  next
    case False
    let ?r = "if ok then Return k else Unwind"
    have e: "dyn_drain B R d c mx f s = Some (?r, d, c\<lparr>dstaging := b\<rparr>, s1)" using b(1) False by (cases ok) (simp_all add: dyn_drain_def Let_def)
    have h: "handed f (take k st @ []) s ?r 0 s1" using fk kl by (auto simp: handed_def)
    have nf: "\<not> (drop k st = [] \<and> length st < unat mx \<and> fst (snd (feed f st s)))" using False fk kl by auto
    show ?thesis using e h nf b(2) assms(2)
      by - (rule exI [of _ ?r], rule exI [of _ d], rule exI [of _ "c\<lparr>dstaging := b\<rparr>"], rule exI [of _ s1], rule exI [of _ vss],
          rule exI [of _ "drop k st"], rule exI [of _ "take k st"], rule exI [of _ "[]"], auto)
  qed
qed

end

subsection \<open>Teardown of the array\<close>

text \<open>\<open>Drop for ArrayRings\<close>: every published slot is reclaimed, which drops its receiving half.\<close>

fun drop_cells :: "('q, 'a, 's) Backend \<Rightarrow> nat option list \<Rightarrow> 'q BShared \<Rightarrow> 'q BShared option" where
  "drop_cells B [] sh = Some sh"
| "drop_cells B (None # cells) sh = drop_cells B cells sh"
| "drop_cells B (Some i # cells) sh =
     (if i < length (slots sh)
      then do { q \<leftarrow> bk_drop_rx B (rx (slots sh ! i)); drop_cells B cells (set_slot i ((slots sh ! i)\<lparr>rx := q\<rparr>) sh) }
      else None)"

definition array_drop :: "('q, 'a, 's) Backend \<Rightarrow> ('q, ArrayRings) DShared \<Rightarrow> 'q BShared option" where
  "array_drop B d = drop_cells B (take (min (unat (ar_len (dmem d))) (length (ar_cells (dmem d)))) (ar_cells (dmem d))) (dsh d)"

lemma drop_cells_rep:
  fixes sh :: "'a Ring BShared"
  assumes "slots_rep ring_rep sh vss" "\<And>i. Some i \<in> set cells \<Longrightarrow> i < length vss"
  shows "\<exists>sh' vss'. drop_cells (ring_backend :: ('a Ring, 'a, 's) Backend) cells sh = Some sh' \<and> slots_rep ring_rep sh' vss' \<and> length vss' = length vss
     \<and> (\<forall>i<length vss. vss' ! i = (if Some i \<in> set cells then [] else vss ! i))"
  using assms
proof (induction cells arbitrary: sh vss)
  case Nil
  then show ?case by auto
next
  case (Cons cell cells)
  show ?case
  proof (cases cell)
    case None
    then show ?thesis using Cons.IH [OF Cons.prems(1)] Cons.prems(2) by simp
  next
    case (Some i)
    have i: "i < length (slots sh)" "i < length vss" using Cons.prems Some by (auto simp: slots_rep_def)
    have "ring_rep (rx (slots sh ! i)) (vss ! i)" using Cons.prems(1) i by (simp add: slots_rep_def)
    then obtain q where q: "drop_receiver (rx (slots sh ! i)) = Some (vss ! i, q)" "ring_rep q []" using ring_rep_drop_receiver by blast
    let ?sh = "set_slot i ((slots sh ! i)\<lparr>rx := q\<rparr>) sh"
    have s: "slots_rep ring_rep ?sh (vss[i := []])" using set_slot_rep(1) [OF Cons.prems(1) i(1), of "(slots sh ! i)\<lparr>rx := q\<rparr>" "[]"] q(2) by simp
    obtain sh' vss' where r: "drop_cells (ring_backend :: ('a Ring, 'a, 's) Backend) cells ?sh = Some sh'" "slots_rep ring_rep sh' vss'" "length vss' = length vss"
      "\<forall>j<length vss. vss' ! j = (if Some j \<in> set cells then [] else vss[i := []] ! j)"
      using Cons.IH [OF s] Cons.prems(2) by auto
    then show ?thesis using Some i q(1)
      by (intro exI [of _ sh'] exI [of _ vss']) (auto simp: nth_list_update)
  qed
qed

text \<open>After the teardown with no registration under way no published ring holds a value any more.\<close>

lemma array_drop_empties:
  fixes d :: "('a Ring, ArrayRings) DShared"
  assumes "slots_rep ring_rep (dsh d) vss" "array_inv (dmem d) []" "array_pointers (dmem d) = {..<length vss}"
  shows "\<exists>sh'. array_drop (ring_backend :: ('a Ring, 'a, 's) Backend) d = Some sh' \<and> slots_rep ring_rep sh' (replicate (length vss) [])"
proof -
  let ?n = "min (unat (ar_len (dmem d))) (length (ar_cells (dmem d)))"
  have p: "Some i \<in> set (take ?n (ar_cells (dmem d))) \<longleftrightarrow> i < length vss" for i
  proof -
    have "Some i \<in> set (ar_cells (dmem d)) \<longleftrightarrow> Some i \<in> set (take ?n (ar_cells (dmem d)))"
    proof
      assume "Some i \<in> set (ar_cells (dmem d))"
      then obtain k where k: "k < length (ar_cells (dmem d))" "ar_cells (dmem d) ! k = Some i" by (auto simp: in_set_conv_nth)
      then have "k < ?n" using array_cell [OF assms(2) k(1)] by simp
      then show "Some i \<in> set (take ?n (ar_cells (dmem d)))" using k(2) by (auto simp: in_set_conv_nth)
    qed (rule in_set_takeD)
    then show ?thesis using assms(3) by (auto simp: array_pointers_def)
  qed
  obtain sh' vss' where r: "array_drop (ring_backend :: ('a Ring, 'a, 's) Backend) d = Some sh'" "slots_rep ring_rep sh' vss'" "length vss' = length vss"
    "\<forall>i<length vss. vss' ! i = []"
    using drop_cells_rep [OF assms(1), of "take ?n (ar_cells (dmem d))", where ?'s = 's] p unfolding array_drop_def by auto
  then have "vss' = replicate (length vss) []" by (intro nth_equalityI) simp_all
  then show ?thesis using r by blast
qed

end
