(* ===== verification/Mpmc_Dynamic_System.thy ===== *)
theory Mpmc_Dynamic_System
  imports Mpmc_Dynamic
begin

text \<open>
  The dynamic competing-consumer channel (\<open>src/src/mpmc/brokerless/dynamic.rs\<close>) with all its endpoints: any sequence of operations of
  registrars, producers and consumers, from either way of opening it. The invariant of a run is stated and preserved in the locale
  \<open>dynamic_mpmc\<close> over any backend and membership, and interpreted on both backends and both memberships.
\<close>

section \<open>All endpoints together\<close>

text \<open>
  The channel with the endpoints that are alive: registrars (a count), registrations under way, the slots of the live producers and
  the consumers, together with what was accepted per slot, delivered and destroyed. Every operation is one step, except that a registration is two.
\<close>

record ('q, 'a, 'm, 'c) DynSys =
  y_d :: "('q, 'm) DShared"
  y_regs :: nat
  y_pd :: "(nat \<times> nat) list"
  y_ps :: "nat list"
  y_cs :: "('a, 'c) DConsumer option list"
  y_acc :: "'a list list"
  y_del :: "'a list"
  y_des :: "'a list"

text \<open>
  \<open>DDrain j mx n\<close> drains with user code that panics when it is called after \<open>n\<close> values. A registrar is borrowed while it registers, so
  the last one is not dropped with a registration under way.
\<close>

datatype 'a dop =
    DBegin | DEnd nat | DCloneRegistrar | DDropRegistrar
  | DSend nat 'a | DDropProducer nat
  | DRecv nat | DBatch nat | DDrain nat usize nat | DClone nat | DDropConsumer nat

definition upto_panic :: "nat \<Rightarrow> ('a, 'a list) callback" where
  "upto_panic n v s = (length s < n, s @ [v])"

definition dyn_recv_step :: "nat \<Rightarrow> ('q, 'a, 'm, 'c) DynSys \<Rightarrow> ('q, 'm) DShared \<Rightarrow> ('a, 'c) DConsumer \<Rightarrow> 'a list \<Rightarrow> 'a list \<Rightarrow> ('q, 'a, 'm, 'c) DynSys" where
  "dyn_recv_step j y d c vs dropped = y\<lparr>y_d := d, y_cs := (y_cs y)[j := Some c], y_del := y_del y @ vs, y_des := y_des y @ dropped\<rparr>"

fun dyn_step ::
  "('q, 'a, 'a list) Backend \<Rightarrow> ('m, 'c) Rings \<Rightarrow> usize \<Rightarrow> 'a dop \<Rightarrow> ('q, 'a, 'm, 'c) DynSys \<Rightarrow> ('q, 'a, 'm, 'c) DynSys option" where
  "dyn_step B R cp DBegin y =
     Some (if y_regs y = 0 then y
           else case register_begin B R cp (y_d y) of None \<Rightarrow> y
                | Some (r, d) \<Rightarrow> y\<lparr>y_d := d, y_pd := r # y_pd y, y_acc := y_acc y @ [[]]\<rparr>)"
| "dyn_step B R cp (DEnd k) y =
     (if k < length (y_pd y)
      then do { d \<leftarrow> register_end R (y_pd y ! k) (y_d y);
                Some (y\<lparr>y_d := d, y_pd := remove1 (y_pd y ! k) (y_pd y), y_ps := snd (y_pd y ! k) # y_ps y\<rparr>) }
      else Some y)"
| "dyn_step B R cp DCloneRegistrar y =
     Some (if y_regs y = 0 then y else y\<lparr>y_d := dyn_registrar_clone (y_d y), y_regs := y_regs y + 1\<rparr>)"
| "dyn_step B R cp DDropRegistrar y =
     Some (if 1 < y_regs y \<or> y_regs y = 1 \<and> y_pd y = [] then y\<lparr>y_d := dyn_registrar_drop (y_d y), y_regs := y_regs y - 1\<rparr> else y)"
| "dyn_step B R cp (DSend i v) y =
     (if i \<in> set (y_ps y)
      then do { (r, d) \<leftarrow> dyn_try_send B (y_d y) i v;
                Some (y\<lparr>y_d := d, y_acc := (case r of Ok _ \<Rightarrow> (y_acc y)[i := y_acc y ! i @ [v]] | Err _ \<Rightarrow> y_acc y)\<rparr>) }
      else Some y)"
| "dyn_step B R cp (DDropProducer i) y =
     (if i \<in> set (y_ps y) then do { d \<leftarrow> dyn_drop_producer B (y_d y) i; Some (y\<lparr>y_d := d, y_ps := remove1 i (y_ps y)\<rparr>) } else Some y)"
| "dyn_step B R cp (DRecv j) y =
     (case live (y_cs y) j of None \<Rightarrow> Some y
      | Some c \<Rightarrow> do { (v, dropped, d, c) \<leftarrow> dyn_try_recv B R (y_d y) c;
                       Some (dyn_recv_step j y d c (case v of None \<Rightarrow> [] | Some v \<Rightarrow> [v]) dropped) })"
| "dyn_step B R cp (DBatch j) y =
     (case live (y_cs y) j of None \<Rightarrow> Some y
      | Some c \<Rightarrow> do { (dropped, _, d, c, out) \<leftarrow> dyn_try_recv_batch B R (y_d y) c batch_new;
                       vs \<leftarrow> batch_as_slice out;
                       Some (dyn_recv_step j y d c vs dropped) })"
| "dyn_step B R cp (DDrain j mx n) y =
     (case live (y_cs y) j of None \<Rightarrow> Some y
      | Some c \<Rightarrow> do { (_, d, c, vs) \<leftarrow> dyn_drain B R (y_d y) c mx (upto_panic n) [];
                       Some (dyn_recv_step j y d c vs []) })"
| "dyn_step B R cp (DClone j) y =
     Some (case live (y_cs y) j of None \<Rightarrow> y
      | Some c \<Rightarrow> (let (d, c) = dyn_clone_consumer R (y_d y) c in y\<lparr>y_d := d, y_cs := y_cs y @ [Some c]\<rparr>))"
| "dyn_step B R cp (DDropConsumer j) y =
     (case live (y_cs y) j of None \<Rightarrow> Some y
      | Some c \<Rightarrow> do { (dropped, d) \<leftarrow> dyn_drop_consumer (y_d y) c;
                       Some (y\<lparr>y_d := d, y_cs := (y_cs y)[j := None], y_des := y_des y @ dropped\<rparr>) })"

fun dyn_run ::
  "('q, 'a, 'a list) Backend \<Rightarrow> ('m, 'c) Rings \<Rightarrow> usize \<Rightarrow> 'a dop list \<Rightarrow> ('q, 'a, 'm, 'c) DynSys \<Rightarrow> ('q, 'a, 'm, 'c) DynSys option" where
  "dyn_run B R cp [] y = Some y"
| "dyn_run B R cp (op # ops) y = do { y \<leftarrow> dyn_step B R cp op y; dyn_run B R cp ops y }"

definition dyn_start :: "('q, 'm) DShared \<Rightarrow> ('a, 'c) DConsumer \<Rightarrow> ('q, 'a, 'm, 'c) DynSys" where
  "dyn_start d c = \<lparr>y_d = d, y_regs = 1, y_pd = [], y_ps = [], y_cs = [Some c], y_acc = [], y_del = [], y_des = []\<rparr>"

definition dstaged :: "('a, 'c) DConsumer option list \<Rightarrow> 'a list" where
  "dstaged cs = concat (map (case_option [] (\<lambda>c. the (batch_as_slice (dstaging c)))) cs)"

lemma dstaged_update:
  assumes "live cs j = Some c" "batch_rep (dstaging c) st"
  shows "mset (dstaged (cs[j := z])) + mset st = mset (dstaged cs) + mset (case_option [] (\<lambda>c. the (batch_as_slice (dstaging c))) z)"
  using mset_concat_update [of j cs "case_option [] (\<lambda>c. the (batch_as_slice (dstaging c)))" z] assms batch_as_slice_rep [OF assms(2)]
  by (simp add: dstaged_def live_Some)

text \<open>Per slot, what was accepted is what was taken out, in order, followed by what is buffered; what was taken out is delivered, destroyed or staged.\<close>

definition dyn_history :: "('q, 'a, 'm, 'c) DynSys \<Rightarrow> 'a list list \<Rightarrow> 'a list list \<Rightarrow> bool" where
  "dyn_history y vss tks \<longleftrightarrow> y_acc y = map2 (@) tks vss \<and> length tks = length vss
     \<and> mset (concat tks) = mset (y_del y) + mset (y_des y) + mset (dstaged (y_cs y))"

lemma map2_append_update:
  assumes "length tks = length vss" "i < length vss" "k \<le> length (vss ! i)"
  shows "map2 (@) (tks[i := tks ! i @ take k (vss ! i)]) (vss[i := drop k (vss ! i)]) = map2 (@) tks vss"
  using assms by (intro nth_equalityI) (auto simp: nth_list_update)

lemma scanned_history:
  assumes "scanned fl lim P vss vss' got" "length tks = length vss"
  shows "\<exists>tks'. map2 (@) tks' vss' = map2 (@) tks vss \<and> length tks' = length vss' \<and> mset (concat tks') = mset (concat tks) + mset got"
  using assms(1) unfolding scanned_def
proof (elim disjE exE conjE)
  fix i k assume a: "i < length vss" "k \<le> min (length (vss ! i)) lim" "vss' = vss[i := drop k (vss ! i)]" "got = take k (vss ! i)"
  have "mset (concat (tks[i := tks ! i @ got])) + mset (tks ! i) = mset (concat tks) + mset got + mset (tks ! i)"
    using mset_concat_update_id [of i tks "tks ! i @ got"] a(1) assms(2) by (simp add: ac_simps)
  then have "mset (concat (tks[i := tks ! i @ got])) = mset (concat tks) + mset got" by (rule add_right_imp_eq)
  then show ?thesis using map2_append_update [OF assms(2) a(1)] a assms(2)
    by (intro exI [of _ "tks[i := tks ! i @ got]"]) simp
qed (use assms(2) in auto)

lemma feed_upto_panic: "snd (snd (feed (upto_panic n) vs s)) = s @ take (fst (feed (upto_panic n) vs s)) vs"
proof (induction vs arbitrary: s)
  case (Cons v vs)
  then show ?case using Cons.IH [of "s @ [v]"] by (simp add: feed_Cons upto_panic_def del: feed.simps(2))
qed simp

section \<open>Preservation\<close>

context dynamic_mpmc
begin

definition dyn_consumers :: "('q, 'a, 'm, 'c) DynSys \<Rightarrow> bool" where
  "dyn_consumers y \<longleftrightarrow> (\<forall>c. Some c \<in> set (y_cs y) \<longrightarrow> cinv (dmem (y_d y)) (dcur c) \<and> dbatch c \<noteq> 0 \<and> (\<exists>st. batch_rep (dstaging c) st))"

definition dyn_shape :: "nat \<Rightarrow> ('q, 'a, 'm, 'c) DynSys \<Rightarrow> 'a list list \<Rightarrow> bool" where
  "dyn_shape k y vss \<longleftrightarrow> dyn_ok (y_d y) (y_pd y) vss \<and> pointers (dmem (y_d y)) \<union> snd ` set (y_pd y) = {..<length (slots (dsh (y_d y)))}
     \<and> True \<notin> set (flags (dsh (y_d y))) \<and> set (y_ps y) \<subseteq> {..<length (slots (dsh (y_d y)))}
     \<and> live_producers (dsh (y_d y)) = of_nat (y_regs y + length (y_ps y)) \<and> y_regs y + length (y_ps y) \<le> Suc k \<and> length (slots (dsh (y_d y))) \<le> k
     \<and> (y_regs y = 0 \<longrightarrow> y_pd y = [])"

definition dyn_inv :: "nat \<Rightarrow> ('q, 'a, 'm, 'c) DynSys \<Rightarrow> bool" where
  "dyn_inv k y \<longleftrightarrow> dyn_consumers y \<and> (\<exists>vss tks. dyn_shape k y vss \<and> dyn_history y vss tks)"

lemma dyn_invI: "dyn_consumers y \<Longrightarrow> dyn_shape k y vss \<Longrightarrow> dyn_history y vss tks \<Longrightarrow> dyn_inv k y"
  by (auto simp: dyn_inv_def)

text \<open>What a receiving call does: it takes \<open>got\<close> out of the slots behind what is staged and hands out a prefix of both.\<close>

definition took :: "('q, 'm) DShared \<Rightarrow> (nat \<times> nat) list \<Rightarrow> 'a list list \<Rightarrow> ('a, 'c) DConsumer \<Rightarrow> 'a list \<Rightarrow> ('q, 'm) DShared \<Rightarrow> ('a, 'c) DConsumer \<Rightarrow> 'a list \<Rightarrow> bool" where
  "took d pd vss c st d' c' xs \<longleftrightarrow> (\<exists>P lim vss' got st'. st @ got = xs @ st' \<and> after_scan P lim d pd vss d' vss' got
     \<and> batch_rep (dstaging c') st' \<and> cinv (dmem d) (dcur c') \<and> dbatch c' = dbatch c)"

lemma dyn_step_took:
  assumes "dyn_inv k y" "live (y_cs y) j = Some c"
    and "\<And>vss st. dyn_ok (y_d y) (y_pd y) vss \<Longrightarrow> cinv (dmem (y_d y)) (dcur c) \<Longrightarrow> dbatch c \<noteq> 0 \<Longrightarrow> batch_rep (dstaging c) st
      \<Longrightarrow> \<exists>d' c' xs. step = Some (dyn_recv_step j y d' c' xs []) \<and> took (y_d y) (y_pd y) vss c st d' c' xs"
  shows "\<exists>y'. step = Some y' \<and> dyn_inv (Suc k) y'"
proof -
  obtain vss tks where v: "dyn_consumers y" "dyn_shape k y vss" "dyn_history y vss tks" using assms(1) by (auto simp: dyn_inv_def)
  have "Some c \<in> set (y_cs y)" using assms(2) by (metis live_Some nth_mem)
  then obtain st where c: "cinv (dmem (y_d y)) (dcur c)" "dbatch c \<noteq> 0" "batch_rep (dstaging c) st" using v(1) by (auto simp: dyn_consumers_def)
  obtain d' c' xs where s: "step = Some (dyn_recv_step j y d' c' xs [])" "took (y_d y) (y_pd y) vss c st d' c' xs"
    using assms(3) [of vss st] c v(2) by (metis dyn_shape_def)
  then obtain P lim vss' got st' where t: "st @ got = xs @ st'" "after_scan P lim (y_d y) (y_pd y) vss d' vss' got"
    "batch_rep (dstaging c') st'" "cinv (dmem (y_d y)) (dcur c')" "dbatch c' = dbatch c" unfolding took_def by (elim exE conjE) (rule that)
  have a: "dyn_ok d' (y_pd y) vss'" "dmem d' = dmem (y_d y)" "same_flags (dsh (y_d y)) (dsh d')" "scanned (flags (dsh (y_d y))) lim P vss vss' got"
    using t(2) by (simp_all add: after_scan_def)
  obtain tks' where h: "map2 (@) tks' vss' = map2 (@) tks vss" "length tks' = length vss'" "mset (concat tks') = mset (concat tks) + mset got"
    using scanned_history [OF a(4)] v(3) unfolding dyn_history_def by metis
  let ?y = "dyn_recv_step j y d' c' xs []"
  have "dyn_consumers ?y"
    using all_live_update [OF v(1) [unfolded dyn_consumers_def], of "Some c'" j] t(3-5) c(2) a unfolding dyn_consumers_def dyn_recv_step_def by auto
  moreover have "dyn_shape (Suc k) ?y vss'"
    using v(2) a same_flags_length [of "dsh (y_d y)" "dsh d'"] same_flags_flags [of "dsh (y_d y)" "dsh d'"]
    by (simp add: dyn_shape_def dyn_recv_step_def same_flags_def)
  moreover have "dyn_history ?y vss' tks'"
  proof -
    have "mset (dstaged ((y_cs y)[j := Some c'])) + mset st = mset (dstaged (y_cs y)) + mset st'"
      using dstaged_update [OF assms(2) c(3), of "Some c'"] batch_as_slice_rep [OF t(3)] by simp
    moreover have "mset st' + mset xs = mset st + mset got" using arg_cong [OF t(1), of mset] by (simp add: add.commute)
    ultimately have "mset (dstaged ((y_cs y)[j := Some c'])) + mset xs = mset (dstaged (y_cs y)) + mset got" by (rule mset_exchange)
    moreover have "mset (concat tks) = mset (y_del y) + mset (y_des y) + mset (dstaged (y_cs y))" using v(3) by (simp add: dyn_history_def)
    ultimately have "mset (concat tks') = mset (y_del y @ xs) + mset (y_des y) + mset (dstaged ((y_cs y)[j := Some c']))"
      unfolding h(3) by (simp add: ac_simps)
    then show ?thesis using v(3) h(1,2) by (simp add: dyn_history_def dyn_recv_step_def)
  qed
  ultimately show ?thesis using s(1) dyn_invI by blast
qed

lemma took_staged:
  assumes "staged_then st P lim d pd vss d' vss' got" "dyn_ok d pd vss" "got = xs @ st'"
    "batch_rep (dstaging c') st'" "cinv (dmem d) (dcur c')" "dbatch c' = dbatch c"
  shows "took d pd vss c st d' c' xs"
proof (cases "st = []")
  case True
  then show ?thesis using assms unfolding took_def staged_then_def
    by (intro exI [of _ P] exI [of _ lim] exI [of _ vss'] exI [of _ got] exI [of _ st']) simp
next
  case False
  then show ?thesis using assms after_scan_none [OF assms(2)] unfolding took_def staged_then_def
    by (intro exI [of _ "{}"] exI [of _ lim] exI [of _ vss] exI [of _ "[]"] exI [of _ st']) simp
qed

end

context dynamic_mpmc
begin

lemma dyn_ok_same:
  assumes "dyn_ok d pd vss" "dmem d' = dmem d" "slots (dsh d') = slots (dsh d)"
  shows "dyn_ok d' pd vss"
  using assms by (simp add: dyn_ok_def slots_rep_def)

text \<open>Steps that touch neither the slots' contents nor the consumers.\<close>

lemma dyn_inv_same:
  assumes "dyn_inv k y" "dmem (y_d y') = dmem (y_d y)" "slots (dsh (y_d y')) = slots (dsh (y_d y))" "y_pd y' = y_pd y"
    "y_cs y' = y_cs y" "y_acc y' = y_acc y" "y_del y' = y_del y" "y_des y' = y_des y" "set (y_ps y') \<subseteq> set (y_ps y)"
    "live_producers (dsh (y_d y')) = of_nat (y_regs y' + length (y_ps y'))" "y_regs y' + length (y_ps y') \<le> k + 2" "y_regs y' = 0 \<longrightarrow> y_pd y = []"
  shows "dyn_inv (Suc k) y'"
proof -
  obtain vss tks where v: "dyn_consumers y" "dyn_shape k y vss" "dyn_history y vss tks" using assms(1) by (auto simp: dyn_inv_def)
  have f: "flags (dsh (y_d y')) = flags (dsh (y_d y))" using assms(3) by (simp add: flags_def)
  have p: "set (y_ps y') \<subseteq> {..<length (slots (dsh (y_d y)))}" using v(2) assms(9) by (auto simp: dyn_shape_def)
  have "dyn_ok (y_d y) (y_pd y) vss" using v(2) by (simp add: dyn_shape_def)
  from dyn_ok_same [OF this assms(2,3)] have "dyn_shape (Suc k) y' vss" using v(2) assms p f by (simp add: dyn_shape_def)
  moreover have "dyn_consumers y'" "dyn_history y' vss tks" using v(1,3) assms by (simp_all add: dyn_consumers_def dyn_history_def)
  ultimately show ?thesis by (auto simp: dyn_inv_def)
qed

lemma dyn_shape_live:
  assumes "dyn_inv k y"
  shows "live_producers (dsh (y_d y)) = of_nat (y_regs y + length (y_ps y))" "y_regs y + length (y_ps y) \<le> Suc k" "y_regs y = 0 \<longrightarrow> y_pd y = []"
  using assms by (auto simp: dyn_inv_def dyn_shape_def)

lemma dyn_inv_mono: "dyn_inv k y \<Longrightarrow> dyn_inv (Suc k) y"
  using dyn_shape_live [of k y] by (intro dyn_inv_same) auto

end

lemma of_nat_dec: "0 < n \<Longrightarrow> of_nat n - 1 = (of_nat (n - 1) :: usize)"
  by (cases n) auto

lemma register_begin_Some:
  assumes "register_begin B R cp d = Some r"
  shows "\<exists>q at m. bk_channel B cp = Some q \<and> rg_begin R (length (slots (dsh d))) (dmem d) = Some (at, m)
    \<and> r = ((at, length (slots (dsh d))), \<lparr>dsh = (dsh d)\<lparr>slots := slots (dsh d) @ [\<lparr>claimed = False, rx = q\<rparr>]\<rparr>, dmem = m\<rparr>)"
  using assms by (auto simp: register_begin_def Let_def split: Option.bind_splits)

locale dynamic_system = dynamic_mpmc B rep ctl accepts pgone cgone R minv pointers cinv
  for B :: "('q, 'a, 'a list) Backend" and rep and ctl :: "'q \<Rightarrow> 'k" and accepts and pgone and cgone
    and R :: "('m, 'c) Rings" and minv and pointers and cinv
begin

lemma registrar_steps:
  assumes "dyn_inv k y" "op \<in> {DCloneRegistrar, DDropRegistrar}"
  shows "\<exists>y'. dyn_step B R cp op y = Some y' \<and> dyn_inv (Suc k) y'"
proof -
  have "dyn_inv (Suc k) (y\<lparr>y_d := dyn_registrar_clone (y_d y), y_regs := y_regs y + 1\<rparr>)"
    using dyn_shape_live [OF assms(1)] by (intro dyn_inv_same [OF assms(1)]) (simp_all add: dyn_registrar_clone_def)
  moreover have "dyn_inv (Suc k) (y\<lparr>y_d := dyn_registrar_drop (y_d y), y_regs := y_regs y - 1\<rparr>)" if "1 < y_regs y \<or> y_regs y = 1 \<and> y_pd y = []"
  proof -
    have "0 < y_regs y + length (y_ps y)" "y_regs y - 1 + length (y_ps y) = y_regs y + length (y_ps y) - 1" using that by auto
    then have "live_producers (dsh (y_d y)) - 1 = of_nat (y_regs y - 1 + length (y_ps y))"
      using dyn_shape_live(1) [OF assms(1)] of_nat_dec by metis
    then show ?thesis using dyn_shape_live [OF assms(1)] that by (intro dyn_inv_same [OF assms(1)]) (auto simp: dyn_registrar_drop_def)
  qed
  ultimately show ?thesis using assms(2) dyn_inv_mono [OF assms(1)] by auto
qed

lemma send_step:
  assumes "dyn_inv k y"
  shows "\<exists>y'. dyn_step B R cp (DSend i v) y = Some y' \<and> dyn_inv (Suc k) y'"
proof (cases "i \<in> set (y_ps y)")
  case True
  obtain vss tks where v: "dyn_consumers y" "dyn_shape k y vss" "dyn_history y vss tks" using assms(1) by (auto simp: dyn_inv_def)
  have ok: "dyn_ok (y_d y) (y_pd y) vss" and i: "i < length (slots (dsh (y_d y)))" using v(2) True by (auto simp: dyn_shape_def)
  have lv: "length vss = length (slots (dsh (y_d y)))" using ok by (simp add: dyn_ok_def slots_rep_def)
  let ?a = "accepts (ctl (rx (slots (dsh (y_d y)) ! i))) (vss ! i)"
  obtain sh where s: "producer_try_send B (dsh (y_d y)) i v = Some (if ?a then Ok () else Err v, sh)"
    "slots_rep rep sh (if ?a then vss[i := vss ! i @ [v]] else vss)" "same_flags (dsh (y_d y)) sh"
    using producer_try_send_spec [OF dyn_okD(1) [OF ok] i, of v] by blast
  let ?y = "y\<lparr>y_d := (y_d y)\<lparr>dsh := sh\<rparr>, y_acc := if ?a then (y_acc y)[i := y_acc y ! i @ [v]] else y_acc y\<rparr>"
  have e: "dyn_step B R cp (DSend i v) y = Some ?y" using True s(1) by (simp add: dyn_try_send_def)
  have "dyn_shape (Suc k) ?y (if ?a then vss[i := vss ! i @ [v]] else vss)"
    using v(2) s(2) same_flags_length [OF s(3)] same_flags_flags [OF s(3)] s(3) by (simp add: dyn_shape_def dyn_ok_def same_flags_def)
  moreover have "map2 (@) tks (vss[i := vss ! i @ [v]]) = (map2 (@) tks vss)[i := map2 (@) tks vss ! i @ [v]]" if "length tks = length vss"
    using that i lv by (intro nth_equalityI) (auto simp: nth_list_update)
  then have "dyn_history ?y (if ?a then vss[i := vss ! i @ [v]] else vss) tks" using v(3) by (simp add: dyn_history_def)
  moreover have "dyn_consumers ?y" using v(1) by (simp add: dyn_consumers_def)
  ultimately show ?thesis using e dyn_invI by blast
next
  case False
  then show ?thesis using dyn_inv_mono [OF assms] by simp
qed

lemma drop_producer_step:
  assumes "dyn_inv k y"
  shows "\<exists>y'. dyn_step B R cp (DDropProducer i) y = Some y' \<and> dyn_inv (Suc k) y'"
proof (cases "i \<in> set (y_ps y)")
  case True
  obtain vss tks where v: "dyn_consumers y" "dyn_shape k y vss" "dyn_history y vss tks" using assms(1) by (auto simp: dyn_inv_def)
  have ok: "dyn_ok (y_d y) (y_pd y) vss" and i: "i < length (slots (dsh (y_d y)))" using v(2) True by (auto simp: dyn_shape_def)
  have r: "rep (rx (slots (dsh (y_d y)) ! i)) (vss ! i)" using ok i by (simp add: dyn_ok_def slots_rep_def)
  obtain q where q: "bk_drop_tx B (rx (slots (dsh (y_d y)) ! i)) = Some q" "rep q (vss ! i)" using drop_tx [OF r] by blast
  let ?sh = "set_slot i ((slots (dsh (y_d y)) ! i)\<lparr>rx := q\<rparr>) (dsh (y_d y))"
  have s: "slots_rep rep ?sh (vss[i := vss ! i])" "same_flags (dsh (y_d y)) ?sh" "length (slots ?sh) = length (slots (dsh (y_d y)))"
    using set_slot_rep [OF dyn_okD(1) [OF ok] i, of "(slots (dsh (y_d y)) ! i)\<lparr>rx := q\<rparr>" "vss ! i"] q(2) by simp_all
  let ?y1 = "y\<lparr>y_d := (y_d y)\<lparr>dsh := ?sh\<rparr>\<rparr>"
  have "dyn_shape k ?y1 vss" using v(2) s same_flags_flags [OF s(2)] by (simp add: dyn_shape_def dyn_ok_def same_flags_def)
  then have inv1: "dyn_inv k ?y1" using v(1,3) by (auto simp: dyn_inv_def dyn_consumers_def dyn_history_def)
  let ?y = "y\<lparr>y_d := (y_d y)\<lparr>dsh := ?sh\<lparr>live_producers := live_producers (dsh (y_d y)) - 1\<rparr>\<rparr>, y_ps := remove1 i (y_ps y)\<rparr>"
  have e: "dyn_step B R cp (DDropProducer i) y = Some ?y" using True q(1) i by (simp add: dyn_drop_producer_def drop_producer_def set_slot_def)
  have l: "0 < length (y_ps y)" using True by (auto intro: length_pos_if_in_set)
  then have "live_producers (dsh (y_d y)) - 1 = of_nat (y_regs y + length (y_ps y) - 1)" using dyn_shape_live(1) [OF assms] of_nat_dec [of "y_regs y + length (y_ps y)"] by simp
  moreover have "length (remove1 i (y_ps y)) = length (y_ps y) - 1" using True by (simp add: length_remove1)
  then have "y_regs y + length (y_ps y) - 1 = y_regs y + length (remove1 i (y_ps y))" using l by linarith
  ultimately have "dyn_inv (Suc k) ?y"
    using dyn_shape_live(2,3) [OF assms] set_remove1_subset [of i "y_ps y"]
    by (intro dyn_inv_same [OF inv1]) (simp_all add: set_slot_def length_remove1)
  then show ?thesis using e by blast
next
  case False
  then show ?thesis using dyn_inv_mono [OF assms] by simp
qed

lemma begin_step:
  assumes "dyn_inv k y" "Suc k < 2 ^ 64"
  shows "\<exists>y'. dyn_step B R cp DBegin y = Some y' \<and> dyn_inv (Suc k) y'"
proof (cases "y_regs y = 0 \<or> register_begin B R cp (y_d y) = None")
  case True
  then have "dyn_step B R cp DBegin y = Some y" by auto
  then show ?thesis using dyn_inv_mono [OF assms(1)] by blast
next
  case False
  obtain vss tks where v: "dyn_consumers y" "dyn_shape k y vss" "dyn_history y vss tks" using assms(1) by (auto simp: dyn_inv_def)
  let ?i = "length (slots (dsh (y_d y)))"
  obtain r0 where r0: "register_begin B R cp (y_d y) = Some r0" using False by blast
  obtain q at m where b: "bk_channel B cp = Some q" "rg_begin R ?i (dmem (y_d y)) = Some (at, m)"
    "register_begin B R cp (y_d y) = Some ((at, ?i), \<lparr>dsh = (dsh (y_d y))\<lparr>slots := slots (dsh (y_d y)) @ [\<lparr>claimed = False, rx = q\<rparr>]\<rparr>, dmem = m\<rparr>)"
    using register_begin_Some [OF r0] r0 by blast
  let ?d = "\<lparr>dsh = (dsh (y_d y))\<lparr>slots := slots (dsh (y_d y)) @ [\<lparr>claimed = False, rx = q\<rparr>]\<rparr>, dmem = m\<rparr>"
  let ?y = "y\<lparr>y_d := ?d, y_pd := (at, ?i) # y_pd y, y_acc := y_acc y @ [[]]\<rparr>"
  have s: "pointers (dmem (y_d y)) \<union> snd ` set (y_pd y) = {..<?i}" "dyn_ok (y_d y) (y_pd y) vss" "?i \<le> k" using v(2) by (simp_all add: dyn_shape_def)
  have m: "minv m ((at, ?i) # y_pd y)" "pointers (dmem (y_d y)) \<subseteq> pointers m" "pointers m \<subseteq> insert ?i (pointers (dmem (y_d y)))"
      "\<And>c. cinv (dmem (y_d y)) c \<Longrightarrow> cinv m c"
    using begin_law [OF dyn_okD(2) [OF s(2)] _ _ b(2)] s(3) assms(2) unfolding s(1) by simp_all
  have lv: "length vss = ?i" using s(2) by (simp add: dyn_ok_def slots_rep_def)
  have "rep (rx ((slots (dsh (y_d y)) @ [\<lparr>claimed = False, rx = q\<rparr>]) ! j)) ((vss @ [[]]) ! j)" if "j < Suc ?i" for j
  proof (cases "j = ?i")
    case True
    then show ?thesis using new [OF b(1)] lv by (simp add: nth_append)
  next
    case False
    then show ?thesis using that lv s(2) by (simp add: nth_append dyn_ok_def slots_rep_def)
  qed
  then have "slots_rep rep (dsh ?d) (vss @ [[]])" using lv s(3) assms(2) by (simp add: slots_rep_def)
  moreover have "pointers m \<subseteq> {..<Suc ?i}" using m(3) s(2) by (auto simp: dyn_ok_def)
  ultimately have "dyn_ok ?d ((at, ?i) # y_pd y) (vss @ [[]])"
    using m(1) by (simp add: dyn_ok_def)
  moreover have "pointers m \<union> snd ` set ((at, ?i) # y_pd y) = {..<Suc ?i}"
  proof -
    have "pointers m \<union> snd ` set ((at, ?i) # y_pd y) = insert ?i (pointers (dmem (y_d y)) \<union> snd ` set (y_pd y))" using m(2,3) by auto
    then show ?thesis unfolding s(1) lessThan_Suc .
  qed
  moreover have "set (y_ps y) \<subseteq> {..<Suc ?i}" using v(2) unfolding dyn_shape_def by (elim conjE) auto
  ultimately have "dyn_shape (Suc k) ?y (vss @ [[]])" using v(2) False by (simp add: dyn_shape_def flags_def)
  moreover have "dyn_history ?y (vss @ [[]]) (tks @ [[]])" using v(3) by (simp add: dyn_history_def)
  moreover have "dyn_consumers ?y" using v(1) m(4) by (simp add: dyn_consumers_def)
  ultimately have "dyn_inv (Suc k) ?y" by (intro dyn_invI)
  then show ?thesis using b(3) False by simp
qed

lemma end_step:
  assumes "dyn_inv k y"
  shows "\<exists>y'. dyn_step B R cp (DEnd r) y = Some y' \<and> dyn_inv (Suc k) y'"
proof (cases "r < length (y_pd y)")
  case False
  then show ?thesis using dyn_inv_mono [OF assms(1)] by simp
next
  case True
  obtain vss tks where v: "dyn_consumers y" "dyn_shape k y vss" "dyn_history y vss tks" using assms(1) by (auto simp: dyn_inv_def)
  obtain at i where r: "y_pd y ! r = (at, i)" by (cases "y_pd y ! r")
  then have p: "(at, i) \<in> set (y_pd y)" using True nth_mem by metis
  have s: "pointers (dmem (y_d y)) \<union> snd ` set (y_pd y) = {..<length (slots (dsh (y_d y)))}" "dyn_ok (y_d y) (y_pd y) vss" using v(2) by (simp_all add: dyn_shape_def)
  obtain m where m: "rg_publish R at i (dmem (y_d y)) = Some m" "minv m (remove1 (at, i) (y_pd y))" "pointers m = insert i (pointers (dmem (y_d y)))"
      "\<And>c. cinv (dmem (y_d y)) c \<Longrightarrow> cinv m c"
    using publish_law [OF dyn_okD(2) [OF s(2)] p] by blast
  let ?d = "(y_d y)\<lparr>dmem := m, dsh := (dsh (y_d y))\<lparr>live_producers := live_producers (dsh (y_d y)) + 1\<rparr>\<rparr>"
  let ?y = "y\<lparr>y_d := ?d, y_pd := remove1 (at, i) (y_pd y), y_ps := i # y_ps y\<rparr>"
  have i: "i < length (slots (dsh (y_d y)))" using s(1) p by (metis UnI2 image_eqI lessThan_iff snd_conv)
  have "set (remove1 (at, i) (y_pd y)) \<subseteq> set (y_pd y)" by (rule set_remove1_subset)
  moreover have "set (y_pd y) \<subseteq> insert (at, i) (set (remove1 (at, i) (y_pd y)))" using in_set_remove1 [of _ "(at, i)" "y_pd y"] by blast
  ultimately have e: "set (y_pd y) = insert (at, i) (set (remove1 (at, i) (y_pd y)))" using p by blast
  have "insert i (snd ` set (remove1 (at, i) (y_pd y))) = snd ` set (y_pd y)" unfolding e by simp
  then have "insert i (pointers (dmem (y_d y))) \<union> snd ` set (remove1 (at, i) (y_pd y)) = {..<length (slots (dsh (y_d y)))}"
    using s(1) by auto
  moreover have "dyn_ok ?d (remove1 (at, i) (y_pd y)) vss" using s m(2,3) i by (auto simp: dyn_ok_def slots_rep_def)
  ultimately have "dyn_shape (Suc k) ?y vss" using v(2) m(3) i by (auto simp: dyn_shape_def flags_def)
  moreover have "dyn_history ?y vss tks" using v(3) by (simp add: dyn_history_def)
  moreover have "dyn_consumers ?y" using v(1) m(4) by (simp add: dyn_consumers_def)
  ultimately have "dyn_inv (Suc k) ?y" by (intro dyn_invI)
  then show ?thesis using True r m(1) by (simp add: register_end_def)
qed

lemma recv_step:
  assumes "dyn_inv k y"
  shows "\<exists>y'. dyn_step B R cp (DRecv j) y = Some y' \<and> dyn_inv (Suc k) y'"
proof (cases "live (y_cs y) j")
  case (Some c)
  show ?thesis
  proof (rule dyn_step_took [OF assms Some])
    fix vss st assume a: "dyn_ok (y_d y) (y_pd y) vss" "cinv (dmem (y_d y)) (dcur c)" "dbatch c \<noteq> 0" "batch_rep (dstaging c) st"
    obtain d' c' vss' got where r: "dyn_try_recv B R (y_d y) c = Some (case got of [] \<Rightarrow> None | v # _ \<Rightarrow> Some v, [], d', c')"
      "staged_then st (reached (y_d y) (y_pd y)) (unat (dbatch c)) (y_d y) (y_pd y) vss d' vss' got"
      "cinv (dmem (y_d y)) (dcur c')" "dbatch c' = dbatch c" "batch_rep (dstaging c') (tl got)"
      using dyn_try_recv_spec [OF a(1,2,4,3)] by (elim exE conjE) (rule that)
    let ?xs = "case got of [] \<Rightarrow> [] | v # _ \<Rightarrow> [v]"
    have "took (y_d y) (y_pd y) vss c st d' c' ?xs" by (rule took_staged [OF r(2) a(1) _ r(5,3,4)]) (simp split: list.split)
    then show "\<exists>d' c' xs. dyn_step B R cp (DRecv j) y = Some (dyn_recv_step j y d' c' xs []) \<and> took (y_d y) (y_pd y) vss c st d' c' xs"
      using r(1) Some by (intro exI [of _ d'] exI [of _ c'] exI [of _ ?xs]) (simp split: list.split)
  qed
qed (use dyn_inv_mono [OF assms] in simp)

lemma batch_step:
  assumes "dyn_inv k y"
  shows "\<exists>y'. dyn_step B R cp (DBatch j) y = Some y' \<and> dyn_inv (Suc k) y'"
proof (cases "live (y_cs y) j")
  case (Some c)
  show ?thesis
  proof (rule dyn_step_took [OF assms Some])
    fix vss st assume a: "dyn_ok (y_d y) (y_pd y) vss" "cinv (dmem (y_d y)) (dcur c)" "dbatch c \<noteq> 0" "batch_rep (dstaging c) st"
    obtain d' c' out vss' got where r: "dyn_try_recv_batch B R (y_d y) c batch_new = Some ([], length got, d', c', out)"
      "staged_then st (reached (y_d y) (y_pd y)) (unat (dbatch c)) (y_d y) (y_pd y) vss d' vss' got"
      "cinv (dmem (y_d y)) (dcur c')" "dbatch c' = dbatch c" "batch_rep (dstaging c') []" "batch_rep out got"
      using dyn_try_recv_batch_spec [OF a(1,2,4,3) batch_rep_new] by (elim exE conjE) (rule that)
    have "took (y_d y) (y_pd y) vss c st d' c' got" by (rule took_staged [OF r(2) a(1) _ r(5,3,4)]) simp
    then show "\<exists>d' c' xs. dyn_step B R cp (DBatch j) y = Some (dyn_recv_step j y d' c' xs []) \<and> took (y_d y) (y_pd y) vss c st d' c' xs"
      using r(1) Some batch_as_slice_rep [OF r(6)] by (intro exI [of _ d'] exI [of _ c'] exI [of _ got]) simp
  qed
qed (use dyn_inv_mono [OF assms] in simp)

lemma drain_step:
  assumes "dyn_inv k y"
  shows "\<exists>y'. dyn_step B R cp (DDrain j mx n) y = Some y' \<and> dyn_inv (Suc k) y'"
proof (cases "live (y_cs y) j")
  case (Some c)
  show ?thesis
  proof (rule dyn_step_took [OF assms Some])
    fix vss st assume a: "dyn_ok (y_d y) (y_pd y) vss" "cinv (dmem (y_d y)) (dcur c)" "dbatch c \<noteq> 0" "batch_rep (dstaging c) st"
    obtain r d' c' s' vss' st' seen1 seen2 where r: "dyn_drain B R (y_d y) c mx (upto_panic n) [] = Some (r, d', c', s')"
     "cinv (dmem (y_d y)) (dcur c')" "dbatch c' = dbatch c" "batch_rep (dstaging c') st'" "st = seen1 @ st'" "handed (upto_panic n) (seen1 @ seen2) [] r 0 s'"
     "if st' = [] \<and> length st < unat mx \<and> fst (snd (feed (upto_panic n) st []))
        then after_scan (reached (y_d y) (y_pd y)) (unat mx - length st) (y_d y) (y_pd y) vss d' vss' seen2
        else seen2 = [] \<and> vss' = vss \<and> d' = y_d y"
      using dyn_drain_spec [OF a(1,2,4), of mx "upto_panic n" "[]"] by (elim exE conjE) (rule that)
    have s: "s' = seen1 @ seen2" using r(6) feed_upto_panic [of n "seen1 @ seen2" "[]"] by (auto simp: handed_def)
    have "\<exists>P lim. after_scan P lim (y_d y) (y_pd y) vss d' vss' seen2 \<and> st @ seen2 = (seen1 @ seen2) @ st'"
      using r(5,7) after_scan_none [OF a(1)] by (auto split: if_splits)
    then have "took (y_d y) (y_pd y) vss c st d' c' s'" using r(2-4) unfolding took_def s by blast
    then show "\<exists>d' c' xs. dyn_step B R cp (DDrain j mx n) y = Some (dyn_recv_step j y d' c' xs []) \<and> took (y_d y) (y_pd y) vss c st d' c' xs"
      using r(1) Some by (intro exI [of _ d'] exI [of _ c'] exI [of _ s']) simp
  qed
qed (use dyn_inv_mono [OF assms] in simp)

lemma clone_step:
  assumes "dyn_inv k y"
  shows "\<exists>y'. dyn_step B R cp (DClone j) y = Some y' \<and> dyn_inv (Suc k) y'"
proof (cases "live (y_cs y) j")
  case (Some c)
  obtain vss tks where v: "dyn_consumers y" "dyn_shape k y vss" "dyn_history y vss tks" using assms(1) by (auto simp: dyn_inv_def)
  have c: "dbatch c \<noteq> 0" using v(1) Some by (metis dyn_consumers_def live_Some nth_mem)
  let ?c = "\<lparr>dcur = rg_cursor R (live_consumers (dsh (y_d y))), dstaging = batch_new, dbatch = dbatch c\<rparr>"
  let ?y = "y\<lparr>y_d := (y_d y)\<lparr>dsh := (dsh (y_d y))\<lparr>live_consumers := live_consumers (dsh (y_d y)) + 1\<rparr>\<rparr>, y_cs := y_cs y @ [Some ?c]\<rparr>"
  have "dyn_consumers ?y" using v(1) c cursor_law batch_rep_new by (auto simp: dyn_consumers_def simp del: batch_rep_new)
  moreover have "dyn_ok (y_d ?y) (y_pd y) vss" by (rule dyn_ok_same [of "y_d y"]) (use v(2) in \<open>simp_all add: dyn_shape_def\<close>)
  then have "dyn_shape (Suc k) ?y vss" using v(2) by (simp add: dyn_shape_def flags_def)
  moreover have "dyn_history ?y vss tks" using v(3) by (simp add: dyn_history_def dstaged_def batch_as_slice_rep [OF batch_rep_new])
  ultimately have "dyn_inv (Suc k) ?y" by (intro dyn_invI)
  then show ?thesis using Some by (simp add: dyn_clone_consumer_def)
qed (use dyn_inv_mono [OF assms] in simp)

lemma drop_consumer_step:
  assumes "dyn_inv k y"
  shows "\<exists>y'. dyn_step B R cp (DDropConsumer j) y = Some y' \<and> dyn_inv (Suc k) y'"
proof (cases "live (y_cs y) j")
  case (Some c)
  obtain vss tks where v: "dyn_consumers y" "dyn_shape k y vss" "dyn_history y vss tks" using assms(1) by (auto simp: dyn_inv_def)
  obtain st where st: "batch_rep (dstaging c) st" using v(1) Some by (metis dyn_consumers_def live_Some nth_mem)
  let ?d = "(y_d y)\<lparr>dsh := (dsh (y_d y))\<lparr>live_consumers := live_consumers (dsh (y_d y)) - 1\<rparr>\<rparr>"
  let ?y = "y\<lparr>y_d := ?d, y_cs := (y_cs y)[j := None], y_des := y_des y @ st\<rparr>"
  have e: "dyn_step B R cp (DDropConsumer j) y = Some ?y" using Some batch_clear_rep [OF st] by (simp add: dyn_drop_consumer_def)
  have "dyn_consumers ?y" using all_live_update [OF v(1) [unfolded dyn_consumers_def], of None j] by (simp add: dyn_consumers_def)
  moreover have "dyn_ok ?d (y_pd y) vss" by (rule dyn_ok_same [of "y_d y"]) (use v(2) in \<open>simp_all add: dyn_shape_def\<close>)
  then have "dyn_shape (Suc k) ?y vss" using v(2) by (simp add: dyn_shape_def flags_def)
  moreover have "mset (dstaged (y_cs y)) = mset st + mset (dstaged ((y_cs y)[j := None]))" using dstaged_update [OF Some st, of None] by (simp add: add.commute)
  then have "dyn_history ?y vss tks" using v(3) by (simp add: dyn_history_def add.assoc)
  ultimately show ?thesis using e dyn_invI by blast
qed (use dyn_inv_mono [OF assms] in simp)

lemma dyn_run_inv:
  assumes "dyn_inv k y" "k + length ops < 2 ^ 64"
  shows "\<exists>y'. dyn_run B R cp ops y = Some y' \<and> dyn_inv (k + length ops) y'"
  using assms
proof (induction ops arbitrary: k y)
  case (Cons op ops)
  have "\<exists>y'. dyn_step B R cp op y = Some y' \<and> dyn_inv (Suc k) y'"
    using Cons.prems begin_step end_step registrar_steps send_step drop_producer_step recv_step batch_step drain_step clone_step drop_consumer_step
    by (cases op) (simp_all del: dyn_step.simps)
  then show ?case using Cons.IH [of "Suc k"] Cons.prems(2) by auto
qed simp

text \<open>A receive that reports nothing after every registrar and producer has left.\<close>

lemma dyn_empty_receive:
  assumes "dyn_inv k y" "Suc k < 2 ^ 64" "dyn_is_disconnected (y_d y)" "live (y_cs y) j = Some c" "dyn_try_recv B R (y_d y) c = Some (None, rest)"
  shows "mset (concat (y_acc y)) = mset (y_del y) + mset (y_des y) + mset (dstaged (y_cs y))"
proof -
  obtain vss tks where v: "dyn_consumers y" "dyn_shape k y vss" "dyn_history y vss tks" using assms(1) by (auto simp: dyn_inv_def)
  have "of_nat (y_regs y + length (y_ps y)) = (0 :: usize)" using v(2) assms(3) by (simp add: dyn_shape_def dyn_is_disconnected_def)
  moreover have "y_regs y + length (y_ps y) < 2 ^ 64" using v(2) assms(2) by (simp add: dyn_shape_def)
  ultimately have "y_regs y + length (y_ps y) = 0" using unat_of_nat_usize by (metis unat_0)
  then have pd: "y_pd y = []" using v(2) by (simp add: dyn_shape_def)
  obtain st where c: "cinv (dmem (y_d y)) (dcur c)" "batch_rep (dstaging c) st" "dbatch c \<noteq> 0" using v(1) assms(4) by (metis dyn_consumers_def live_Some nth_mem)
  have ok: "dyn_ok (y_d y) (y_pd y) vss" "pointers (dmem (y_d y)) = {..<length (slots (dsh (y_d y)))}" "True \<notin> set (flags (dsh (y_d y)))"
    using v(2) pd by (simp_all add: dyn_shape_def)
  obtain d' c' vss' got where r: "dyn_try_recv B R (y_d y) c = Some (case got of [] \<Rightarrow> None | v # _ \<Rightarrow> Some v, [], d', c')"
    "staged_then st (reached (y_d y) (y_pd y)) (unat (dbatch c)) (y_d y) (y_pd y) vss d' vss' got"
    using dyn_try_recv_spec [OF ok(1) c] by (elim exE conjE) (rule that)
  have "got = []" using assms(5) r(1) by (cases got) simp_all
  then have "scanned (flags (dsh (y_d y))) (unat (dbatch c)) {..<length (slots (dsh (y_d y)))} vss vss' []"
    using r(2) ok(2) pd by (auto simp: staged_then_def after_scan_def reached_def split: if_splits)
  moreover have "\<not> flags (dsh (y_d y)) ! i" if "i < length (slots (dsh (y_d y)))" for i using ok(3) that by (metis flags_def length_map nth_mem)
  moreover have "length vss = length (slots (dsh (y_d y)))" using ok(1) by (simp add: dyn_ok_def slots_rep_def)
  ultimately have "vss ! i = []" if "i < length vss" for i using that unfolding scanned_def by force
  then have "vss = replicate (length vss) []" by (intro nth_equalityI) simp_all
  moreover have "map2 (@) tks (replicate (length vss) []) = tks" using v(3) by (intro nth_equalityI) (simp_all add: dyn_history_def)
  ultimately have "y_acc y = tks" using v(3) unfolding dyn_history_def by metis
  then show ?thesis using v(3) by (simp add: dyn_history_def)
qed

end

context dynamic_system
begin

lemma dyn_start_inv:
  assumes "channel_with_rings R m capacity = (cp, d, c)" "minv m []" "pointers m = {}"
  shows "dyn_inv 0 (dyn_start d c)"
proof -
  have d: "d = \<lparr>dsh = \<lparr>slots = [], live_producers = 1, live_consumers = 1\<rparr>, dmem = m\<rparr>" "c = \<lparr>dcur = rg_cursor R 0, dstaging = batch_new, dbatch = 64\<rparr>"
    using assms(1) by (simp_all add: channel_with_rings_def)
  have "\<exists>st. batch_rep (batch_new :: 'a Batch) st" using batch_rep_new by blast
  then have "dyn_consumers (dyn_start d c)" using cursor_law by (simp add: dyn_consumers_def dyn_start_def d)
  moreover have "dyn_shape 0 (dyn_start d c) []" using assms(2,3) by (simp add: dyn_shape_def dyn_start_def d dyn_ok_def slots_rep_def flags_def)
  moreover have "dyn_history (dyn_start d c) [] []" by (simp add: dyn_history_def dyn_start_def dstaged_def d batch_as_slice_rep [OF batch_rep_new])
  ultimately show ?thesis by (rule dyn_invI)
qed

lemma dyn_delivers:
  assumes "channel_with_rings R m capacity = (cp, d, c)" "minv m []" "pointers m = {}" "Suc (length ops) < 2 ^ 64"
  shows "\<exists>y vss tks. dyn_run B R cp ops (dyn_start d c) = Some y \<and> slots_rep rep (dsh (y_d y)) vss
     \<and> y_acc y = map2 (@) tks vss \<and> length tks = length vss \<and> mset (concat tks) = mset (y_del y) + mset (y_des y) + mset (dstaged (y_cs y))
     \<and> (\<forall>j c rest. dyn_is_disconnected (y_d y) \<and> live (y_cs y) j = Some c \<and> dyn_try_recv B R (y_d y) c = Some (None, rest)
          \<longrightarrow> mset (concat (y_acc y)) = mset (y_del y) + mset (y_des y) + mset (dstaged (y_cs y)))"
proof -
  obtain y where y: "dyn_run B R cp ops (dyn_start d c) = Some y" "dyn_inv (length ops) y"
    using dyn_run_inv [OF dyn_start_inv [OF assms(1-3)], of ops cp] assms(4) by auto
  then obtain vss tks where v: "dyn_shape (length ops) y vss" "dyn_history y vss tks" by (auto simp: dyn_inv_def)
  have "slots_rep rep (dsh (y_d y)) vss" using v(1) by (simp add: dyn_shape_def dyn_ok_def)
  then show ?thesis using y(1) v(2) dyn_empty_receive [OF y(2) assms(4)] unfolding dyn_history_def by blast
qed

end

interpretation ring_locked: dynamic_system ring_backend ring_rep ring_ctl ring_accepts "\<lambda>c. fst (snd c)" "\<lambda>c. snd (snd c)"
    locked_rings locked_inv "\<lambda>m. set (lr_slots m)" snapshot_of ..

interpretation ring_array: dynamic_system ring_backend ring_rep ring_ctl ring_accepts "\<lambda>c. fst (snd c)" "\<lambda>c. snd (snd c)"
    array_rings array_inv array_pointers "\<lambda>_ _. True" ..

interpretation seg_locked: dynamic_system seg_backend seg_rep seg_live seg_accepts fst snd
    locked_rings locked_inv "\<lambda>m. set (lr_slots m)" snapshot_of ..

interpretation seg_array: dynamic_system seg_backend seg_rep seg_live seg_accepts fst snd
    array_rings array_inv array_pointers "\<lambda>_ _. True" ..

section \<open>Properties\<close>





end
