(* ===== verification/Brokered.thy ===== *)
theory Brokered
  imports Brokerless
begin

text \<open>
  Brokered MPMC (\<open>src/src/mpmc/brokered/mod.rs\<close>): producers feed a router over SPSC transports and
  the router places every value on consumer transports by a policy.

  Waiting for room spins; as in the brokerless theory the calls take the list of what the rest of
  the program does to the consumer transports during each pause, hand the unused part on, and answer
  \<open>Spinning\<close> when it ends first. User routing functions may keep state: they map a value, the
  consumer count and their state to a choice and the next state.
\<close>

section \<open>Target sets\<close>

type_synonym Targets = u64

text \<open>\<open>1u64.checked_shl(i as u32).unwrap_or(0)\<close>: the cast keeps the low 32 bits of the index.\<close>

definition bit_of :: "usize \<Rightarrow> Targets" where
  "bit_of i = (let k = unat (ucast i :: u32) in if k < 64 then push_bit k 1 else 0)"

definition targets_none :: Targets where
  "targets_none = 0"

definition targets_all :: "usize \<Rightarrow> Targets" where
  "targets_all n = (if n \<ge> 64 then - 1 else push_bit (unat n) 1 - 1)"

definition targets_one :: "usize \<Rightarrow> Targets" where
  "targets_one i = bit_of i"

definition targets_with :: "Targets \<Rightarrow> usize \<Rightarrow> Targets" where
  "targets_with t i = t OR bit_of i"

definition targets_of :: "usize list \<Rightarrow> Targets" where
  "targets_of is = fold (\<lambda>i m. m OR bit_of i) is 0"

section \<open>Policies\<close>

type_synonym 'q env = "'q list \<Rightarrow> 'q list"

text \<open>\<open>forward_to\<close>: push to one consumer, waiting for room, dropping the value if it is gone.\<close>

fun forward_to ::
  "('q, 'a, 's) Backend \<Rightarrow> 'q env list \<Rightarrow> 'q list \<Rightarrow> nat \<Rightarrow> 'a \<Rightarrow> ('q list \<times> 'q env list) spin option" where
  "forward_to B envs qs i item =
     (if i < length qs
      then if bk_is_consumer_gone B (qs ! i) then Some (Done (qs, envs))
           else do { (r, q) \<leftarrow> bk_try_push B (qs ! i) item;
                     let qs = qs[i := q];
                     case r of Ok _ \<Rightarrow> Some (Done (qs, envs))
                     | Err item \<Rightarrow> (case envs of [] \<Rightarrow> Some Spinning
                                    | env # envs \<Rightarrow> forward_to B envs (env qs) i item) }
      else None)"

text \<open>
  One pass of \<open>forward_rr\<close> over all consumers: \<open>Inl\<close> when the value was placed, otherwise the number
  of consumers found gone.
\<close>

fun rr_pass ::
  "('q, 'a, 's) Backend \<Rightarrow> nat \<Rightarrow> usize \<Rightarrow> 'q list \<Rightarrow> nat \<Rightarrow> 'a \<Rightarrow> ((unit + nat) \<times> usize \<times> 'q list) option" where
  "rr_pass B 0 cur qs gone item = Some (Inr gone, cur, qs)"
| "rr_pass B (Suc m) cur qs gone item =
     (let (c, cur) = rr_next cur (of_nat (length qs))
      in if unat c < length qs
         then if bk_is_consumer_gone B (qs ! unat c) then rr_pass B m cur qs (gone + 1) item
              else do { (r, q) \<leftarrow> bk_try_push B (qs ! unat c) item;
                        let qs = qs[unat c := q];
                        case r of Ok _ \<Rightarrow> Some (Inl (), cur, qs)
                        | Err item \<Rightarrow> rr_pass B m cur qs gone item }
         else None)"

fun forward_rr ::
  "('q, 'a, 's) Backend \<Rightarrow> 'q env list \<Rightarrow> usize \<Rightarrow> 'q list \<Rightarrow> 'a \<Rightarrow> (usize \<times> 'q list \<times> 'q env list) spin option" where
  "forward_rr B envs cur qs item =
     do { (r, cur, qs) \<leftarrow> rr_pass B (length qs) cur qs 0 item;
          case r of Inl _ \<Rightarrow> Some (Done (cur, qs, envs))
          | Inr gone \<Rightarrow>
              if gone = length qs then Some (Done (cur, qs, envs))
              else (case envs of [] \<Rightarrow> Some Spinning
                    | env # envs \<Rightarrow> forward_rr B envs cur (env qs) item) }"

text \<open>\<open>RoundRobin::deliver\<close>, with the policy's cursor and the consumer transports as its state.\<close>

definition deliver_rr ::
  "('q, 'a, 's) Backend \<Rightarrow> usize \<times> 'q list \<times> 'q env list \<Rightarrow> 'a \<Rightarrow> (usize \<times> 'q list \<times> 'q env list) spin option" where
  "deliver_rr B d item = (case d of (cur, qs, envs) \<Rightarrow> forward_rr B envs cur qs item)"

text \<open>\<open>Route::deliver\<close>; the remainder by zero consumers panics.\<close>

definition deliver_route ::
  "('q, 'a, 's) Backend \<Rightarrow> ('a \<Rightarrow> nat \<Rightarrow> 'p \<Rightarrow> usize \<times> 'p) \<Rightarrow> 'p \<Rightarrow> 'q env list \<Rightarrow> 'q list \<Rightarrow> 'a
     \<Rightarrow> ('p \<times> 'q list \<times> 'q env list) spin option" where
  "deliver_route B f st envs qs item =
     (let n = length qs; (t, st) = f item n st
      in if n = 0 then None
         else do { r \<leftarrow> forward_to B envs qs (unat t mod n) item;
                   Some (case r of Done (qs, envs) \<Rightarrow> Done (st, qs, envs) | Spinning \<Rightarrow> Spinning) })"

text \<open>\<open>PubSub::deliver\<close>: visit the selected consumers in ascending order.\<close>

definition trailing_zeros :: "Targets \<Rightarrow> nat" where
  "trailing_zeros m = length (takeWhile (\<lambda>i. \<not> bit m i) [0..<64])"

fun pubsub_loop ::
  "('q, 'a, 's) Backend \<Rightarrow> nat \<Rightarrow> 'q env list \<Rightarrow> 'q list \<Rightarrow> Targets \<Rightarrow> 'a \<Rightarrow> ('q list \<times> 'q env list) spin option" where
  "pubsub_loop B 0 envs qs m item = (if m \<noteq> 0 then None else Some (Done (qs, envs)))"
| "pubsub_loop B (Suc fuel) envs qs m item =
     (if m \<noteq> 0
      then let index = trailing_zeros m; m = m AND (m - 1)
           in if m = 0 then forward_to B envs qs index item
              else do { r \<leftarrow> forward_to B envs qs index item;
                        case r of Spinning \<Rightarrow> Some Spinning
                        | Done (qs, envs) \<Rightarrow> pubsub_loop B fuel envs qs m item }
      else Some (Done (qs, envs)))"

definition prepare :: "usize \<Rightarrow> u64" where
  "prepare consumers = targets_all consumers"

text \<open>A mask has at most 64 bits, which bounds the loop.\<close>

definition deliver_pubsub ::
  "('q, 'a, 's) Backend \<Rightarrow> ('a \<Rightarrow> nat \<Rightarrow> 'p \<Rightarrow> Targets \<times> 'p) \<Rightarrow> u64 \<Rightarrow> 'p \<Rightarrow> 'q env list \<Rightarrow> 'q list \<Rightarrow> 'a
     \<Rightarrow> ('p \<times> 'q list \<times> 'q env list) spin option" where
  "deliver_pubsub B subscribe consumer_mask st envs qs item =
     (let (t, st) = subscribe item (length qs) st
      in do { r \<leftarrow> pubsub_loop B 64 envs qs (t AND consumer_mask) item;
              Some (case r of Done (qs, envs) \<Rightarrow> Done (st, qs, envs) | Spinning \<Rightarrow> Spinning) })"

section \<open>The router\<close>

text \<open>
  \<open>Broker::sweep\<close>: drain every producer transport in place into the policy. \<open>deliver\<close> is the policy
  with everything it updates as its state. The closure's state records how the last delivery went:
  one that is still waiting ends the sweep as \<open>Spinning\<close>, one that panicked makes it panic.
\<close>

definition delivering :: "('d \<Rightarrow> 'a \<Rightarrow> 'd spin option) \<Rightarrow> ('a, 'd spin option) callback" where
  "delivering deliver v st =
     (case st of Some (Done d) \<Rightarrow> (case deliver d v of Some (Done d') \<Rightarrow> (True, Some (Done d')) | r \<Rightarrow> (False, r))
      | r \<Rightarrow> (False, r))"

fun sweep ::
  "('q, 'a, 'd spin option) Backend \<Rightarrow> ('d \<Rightarrow> 'a \<Rightarrow> 'd spin option) \<Rightarrow> usize \<Rightarrow> nat \<Rightarrow> 'q list \<Rightarrow> 'd
     \<Rightarrow> (nat \<times> 'q list \<times> 'd) spin option" where
  "sweep B deliver per moved [] d = Some (Done (moved, [], d))"
| "sweep B deliver per moved (q # qs) d =
     do { (r, q, st) \<leftarrow> bk_drain_in_place B q per (delivering deliver) (Some (Done d));
          case (r, st) of
            (Return n, Some (Done d)) \<Rightarrow>
              do { rest \<leftarrow> sweep B deliver per (moved + n) qs d;
                   Some (case rest of Done (moved, qs, d) \<Rightarrow> Done (moved, q # qs, d) | Spinning \<Rightarrow> Spinning) }
          | (_, Some Spinning) \<Rightarrow> Some Spinning
          | _ \<Rightarrow> None }"

text \<open>
  \<open>Broker::run\<close>, round by round. \<open>penvs\<close> is what producers do between rounds to their transports and
  to the count of live ones; the loop ends when all are gone and a last full sweep moves nothing.
\<close>

fun broker_run ::
  "('q, 'a, 'd spin option) Backend \<Rightarrow> ('d \<Rightarrow> 'a \<Rightarrow> 'd spin option) \<Rightarrow> usize \<Rightarrow> ('q list \<times> usize \<Rightarrow> 'q list \<times> usize) list
     \<Rightarrow> 'q list \<Rightarrow> usize \<Rightarrow> 'd \<Rightarrow> ('q list \<times> usize \<times> 'd) spin option" where
  "broker_run B deliver b penvs qs live d =
     do { r \<leftarrow> sweep B deliver b 0 qs d;
          case r of Spinning \<Rightarrow> Some Spinning
          | Done (moved, qs, d) \<Rightarrow>
              if moved = 0 \<and> live = 0
              then do { r \<leftarrow> sweep B deliver (- 1) 0 qs d;
                        case r of Spinning \<Rightarrow> Some Spinning
                        | Done (moved, qs, d) \<Rightarrow>
                            if moved = 0 then Some (Done (qs, live, d))
                            else (case penvs of [] \<Rightarrow> Some Spinning
                                  | env # penvs \<Rightarrow> (let (qs, live) = env (qs, live)
                                                    in broker_run B deliver b penvs qs live d)) }
              else (case penvs of [] \<Rightarrow> Some Spinning
                    | env # penvs \<Rightarrow> (let (qs, live) = env (qs, live)
                                      in broker_run B deliver b penvs qs live d)) }"

text \<open>\<open>Broker::set_batch\<close>.\<close>

definition broker_set_batch :: "usize \<Rightarrow> usize" where
  "broker_set_batch b = max b 1"

section \<open>Consumers\<close>

fun bconsumer_scan ::
  "('q, 'a, 's) Backend \<Rightarrow> nat \<Rightarrow> 'q list \<Rightarrow> usize \<Rightarrow> ('a option \<times> 'q list \<times> usize) option" where
  "bconsumer_scan B 0 qs cur = Some (None, qs, cur)"
| "bconsumer_scan B (Suc m) qs cur =
     (let (i, cur) = rr_next cur (of_nat (length qs))
      in if unat i < length qs
         then do { (v, q) \<leftarrow> bk_try_pop B (qs ! unat i);
                   let qs = qs[unat i := q];
                   case v of Some v \<Rightarrow> Some (Some v, qs, cur) | None \<Rightarrow> bconsumer_scan B m qs cur }
         else None)"

definition bconsumer_try_recv ::
  "('q, 'a, 's) Backend \<Rightarrow> 'q list \<Rightarrow> usize \<Rightarrow> ('a option \<times> 'q list \<times> usize) option" where
  "bconsumer_try_recv B qs cur = bconsumer_scan B (length qs) qs cur"

definition bconsumer_is_disconnected :: "('q, 'a, 's) Backend \<Rightarrow> 'q list \<Rightarrow> bool option" where
  "bconsumer_is_disconnected B qs = map_option (\<lambda>bs. list_all id bs) (those (map (bk_is_finished B) qs))"

fun bconsumer_recv ::
  "('q, 'a, 's) Backend \<Rightarrow> 'q env list \<Rightarrow> 'q list \<Rightarrow> usize \<Rightarrow> ('a option \<times> 'q list \<times> usize) spin option" where
  "bconsumer_recv B envs qs cur =
     do { (v, qs, cur) \<leftarrow> bconsumer_try_recv B qs cur;
          case v of Some v \<Rightarrow> Some (Done (Some v, qs, cur))
          | None \<Rightarrow>
              do { over \<leftarrow> bconsumer_is_disconnected B qs;
                   if over then Some (Done (None, qs, cur))
                   else (case envs of [] \<Rightarrow> Some Spinning
                         | env # envs \<Rightarrow> bconsumer_recv B envs (env qs) cur) } }"

text \<open>The producer half: \<open>send\<close> gives up as soon as its router is gone.\<close>

fun bproducer_send :: "('q, 'a, 's) Backend \<Rightarrow> ('q \<Rightarrow> 'q) list \<Rightarrow> 'q \<Rightarrow> 'a \<Rightarrow> (bool \<times> 'q) spin option" where
  "bproducer_send B envs q v =
     (if bk_is_consumer_gone B q then Some (Done (False, q))
      else do { (r, q) \<leftarrow> bk_try_push B q v;
                case r of Ok _ \<Rightarrow> Some (Done (True, q))
                | Err v \<Rightarrow> (case envs of [] \<Rightarrow> Some Spinning
                            | env # envs \<Rightarrow> bproducer_send B envs (env q) v) })"

text \<open>Dropping a producer counts it out before its sending half goes.\<close>

definition drop_bproducer :: "('q, 'a, 's) Backend \<Rightarrow> usize \<Rightarrow> 'q \<Rightarrow> (usize \<times> 'q) option" where
  "drop_bproducer B live q = do { q \<leftarrow> bk_drop_tx B q; Some (live - 1, q) }"

section \<open>Opening\<close>

text \<open>
  \<open>open\<close>: producer \<open>i\<close> feeds broker \<open>i mod brokers\<close>, and every pair of a broker and a consumer has its own
  transport, so consumer \<open>c\<close> reads position \<open>c\<close> of every broker's \<open>consumer_txs\<close>. The first result counts the
  live producers; \<open>None\<close> is the assertion on the counts, or the remainder by zero brokers.
\<close>

record ('q, 'p) Broker =
  producer_rxs :: "'q list"
  consumer_txs :: "'q list"
  broker_batch :: usize
  broker_policy :: 'p

definition brokered_open ::
  "('q, 'a, 's) Backend \<Rightarrow> (usize \<Rightarrow> 'p \<Rightarrow> 'p) \<Rightarrow> usize \<Rightarrow> usize \<Rightarrow> usize \<Rightarrow> usize \<Rightarrow> 'p \<Rightarrow> (usize \<times> ('q, 'p) Broker list) option" where
  "brokered_open B prep n_producers n_consumers n_brokers capacity policy =
     (if 1 \<le> n_producers \<and> 1 \<le> n_consumers
      then let policy = prep n_consumers policy; nb = unat (min n_brokers n_producers)
           in if nb = 0 then None
              else do { q \<leftarrow> bk_channel B capacity;
                        Some (n_producers,
                              map (\<lambda>b. \<lparr>producer_rxs = map (\<lambda>_. q) (filter (\<lambda>i. i mod nb = b) [0..<unat n_producers]),
                                        consumer_txs = replicate (unat n_consumers) q,
                                        broker_batch = 64, broker_policy = policy\<rparr>) [0..<nb]) }
      else None)"

section \<open>Target sets as sets of consumers\<close>

lemma trailing_zeros_bit:
  assumes "m \<noteq> 0"
  shows "trailing_zeros m < 64" "bit m (trailing_zeros m)" "\<And>i. i < trailing_zeros m \<Longrightarrow> \<not> bit m i"
proof -
  let ?P = "\<lambda>i. \<not> bit m i"
  obtain j where j: "bit m j" using assms by (metis bit_eqI bit_0_eq bot_apply bot_bool_def)
  then have j64: "j < 64" using bit_imp_le_length [of m j] by simp
  have "\<exists>x\<in>set [0..<64]. \<not> ?P x" using j j64 by auto
  then have l: "length (takeWhile ?P [0..<64]) < length [0..<64]"
    by (metis length_takeWhile_le nat_less_le takeWhile_eq_all_conv takeWhile_eq_take take_all_iff order_refl)
  then show t: "trailing_zeros m < 64" by (simp add: trailing_zeros_def)
  have n: "[0..<64] ! trailing_zeros m = trailing_zeros m" using t by simp
  show "bit m (trailing_zeros m)"
    using nth_length_takeWhile [OF l] n unfolding trailing_zeros_def by simp
  show "\<not> bit m i" if i: "i < trailing_zeros m" for i
  proof -
    have "takeWhile ?P [0..<64] ! i \<in> set (takeWhile ?P [0..<64])" using i by (simp add: trailing_zeros_def)
    moreover have "takeWhile ?P [0..<64] ! i = i"
      using i t by (simp add: takeWhile_nth trailing_zeros_def)
    ultimately show ?thesis by (metis set_takeWhileD)
  qed
qed

lemma clear_lowest_bit:
  fixes m :: u64
  assumes "m \<noteq> 0"
  shows "bit (m AND (m - 1)) j \<longleftrightarrow> bit m j \<and> j \<noteq> trailing_zeros m"
proof -
  let ?k = "trailing_zeros m"
  note k = trailing_zeros_bit [OF assms]
  define h where "h = m AND NOT (mask (Suc ?k))"
  have hb: "bit h i \<longleftrightarrow> bit m i \<and> ?k < i" for i
    using bit_imp_le_length [of m i] by (auto simp: h_def bit_simps)
  have m: "m = h OR push_bit ?k 1"
    by (rule bit_eqI) (use k in \<open>auto simp: bit_or_iff hb bit_simps bit_push_bit_iff intro: linorder_cases\<close>)
  have d: "h AND push_bit ?k 1 = 0" "h AND mask ?k = 0"
    by (rule bit_eqI, auto simp: bit_and_iff hb bit_simps bit_push_bit_iff)+
  have "m = h + push_bit ?k 1" using m d(1) disjunctive_add_eq_or by metis
  then have "m - 1 = h + mask ?k" by (simp add: mask_eq_exp_minus_1 push_bit_eq_mult)
  also have "\<dots> = h OR mask ?k" using d(2) by (rule disjunctive_add_eq_or)
  finally have "m - 1 = h OR mask ?k" .
  then show ?thesis using k(1,3) by (auto simp: bit_and_iff bit_or_iff hb bit_simps)
qed

definition selected :: "Targets \<Rightarrow> nat set" where
  "selected m = {i. bit m i}"

lemma selected_finite [simp]: "finite (selected m)" and selected_less: "i \<in> selected m \<Longrightarrow> i < 64"
  and selected_card: "card (selected m) \<le> 64"
proof -
  have s: "selected m \<subseteq> {0..<64}" using bit_imp_le_length [of m] by (auto simp: selected_def)
  then show "finite (selected m)" using finite_subset by blast
  show "i \<in> selected m \<Longrightarrow> i < 64" using s by auto
  show "card (selected m) \<le> 64" using card_mono [OF _ s] by simp
qed

lemma selected_empty: "selected m = {} \<longleftrightarrow> m = 0"
  by (auto simp: selected_def intro: bit_eqI)

lemma selected_clear: "m \<noteq> 0 \<Longrightarrow> selected (m AND (m - 1)) = selected m - {trailing_zeros m}"
  by (auto simp: selected_def clear_lowest_bit)

lemma selected_trailing: "m \<noteq> 0 \<Longrightarrow> trailing_zeros m = Min (selected m)"
  using trailing_zeros_bit by (intro Min_eqI [symmetric]) (auto simp: selected_def not_less [symmetric])

text \<open>The members of a target set.\<close>

lemma selected_bit_of: "selected (bit_of i) = (if unat i mod 2 ^ 32 < 64 then {unat i mod 2 ^ 32} else {})"
proof -
  have u: "unat (ucast i :: u32) = unat i mod 2 ^ 32" by (simp add: unsigned_ucast_eq take_bit_eq_mod)
  show ?thesis by (auto simp: selected_def bit_of_def Let_def u bit_push_bit_iff bit_simps)
qed

lemma selected_or: "selected (a OR b) = selected a \<union> selected b"
  by (auto simp: selected_def bit_or_iff)

lemma selected_and: "selected (a AND b) = selected a \<inter> selected b"
  by (auto simp: selected_def bit_and_iff)

lemma selected_targets_of: "selected (targets_of is) = {k. k < 64 \<and> (\<exists>i\<in>set is. unat i mod 2 ^ 32 = k)}"
proof -
  have "selected (fold (\<lambda>i m. m OR bit_of i) is m) = selected m \<union> {k. k < 64 \<and> (\<exists>i\<in>set is. unat i mod 2 ^ 32 = k)}" for m
    by (induction "is" arbitrary: m) (auto simp: selected_or selected_bit_of split: if_splits)
  moreover have "selected 0 = {}" by (simp add: selected_empty)
  ultimately show ?thesis by (simp add: targets_of_def)
qed

lemma selected_targets_all: "selected (targets_all n) = {i. i < 64 \<and> i < unat n}"
proof (cases "n \<ge> 64")
  case True
  then have "64 \<le> unat n" by (simp add: word_le_nat_alt)
  then show ?thesis using True by (auto simp: targets_all_def selected_def)
next
  case False
  then have "unat n < 64" by (simp add: word_le_nat_alt)
  then show ?thesis using False
    by (auto simp: targets_all_def selected_def mask_eq_exp_minus_1 [symmetric] push_bit_eq_mult bit_simps)
qed

section \<open>Delivery\<close>

definition qs_rep :: "('q \<Rightarrow> 'a list \<Rightarrow> bool) \<Rightarrow> 'q list \<Rightarrow> 'a list list \<Rightarrow> bool" where
  "qs_rep rep qs vss \<longleftrightarrow> list_all2 rep qs vss \<and> length qs < 2 ^ 64"

lemma qs_rep_length: "qs_rep rep qs vss \<Longrightarrow> length vss = length qs"
  unfolding qs_rep_def by (auto dest: list_all2_lengthD)

lemma qs_rep_nth: "qs_rep rep qs vss \<Longrightarrow> i < length qs \<Longrightarrow> rep (qs ! i) (vss ! i)"
  by (simp add: qs_rep_def list_all2_nthD)

lemma qs_rep_update: "qs_rep rep qs vss \<Longrightarrow> rep q vs \<Longrightarrow> qs_rep rep (qs[i := q]) (vss[i := vs])"
  by (simp add: qs_rep_def list_all2_update_cong)

text \<open>What the rest of the program may do to the transports during a pause.\<close>

definition qs_env_ok :: "('q \<Rightarrow> 'a list \<Rightarrow> bool) \<Rightarrow> 'q env \<Rightarrow> bool" where
  "qs_env_ok rep env \<longleftrightarrow> (\<forall>qs vss. qs_rep rep qs vss \<longrightarrow> length (env qs) = length qs \<and> (\<exists>vss'. qs_rep rep (env qs) vss'))"

lemma rr_next_less:
  assumes "0 < n" "n < 2 ^ 64"
  shows "unat (fst (rr_next cur (of_nat n))) < n"
proof -
  have u: "unat (of_nat n :: usize) = n" using assms(2) by (rule unat_of_nat_usize)
  then have "(0 :: usize) < of_nat n" using assms(1) by (simp add: word_less_nat_alt)
  from rr_index_less [OF this, of cur] show ?thesis using u by (simp add: rr_next_def Let_def word_less_nat_alt)
qed

definition rr_seen :: "nat \<Rightarrow> usize \<Rightarrow> nat \<Rightarrow> nat list" where
  "rr_seen m cur n = map unat (fst (rr_scan m cur (of_nat n)))"

lemma rr_seen_0 [simp]: "rr_seen 0 cur n = []"
  by (simp add: rr_seen_def)

lemma rr_seen_Suc: "rr_next cur (of_nat n) = (i, cur') \<Longrightarrow> rr_seen (Suc m) cur n = unat i # rr_seen m cur' n"
  by (simp add: rr_seen_def split: prod.splits)

lemma rr_seen_less:
  assumes "0 < n" "n < 2 ^ 64" "i \<in> set (rr_seen m cur n)"
  shows "i < n"
  using assms(3)
proof (induction m arbitrary: cur)
  case (Suc m)
  obtain c cur1 where nx: "rr_next cur (of_nat n) = (c, cur1)" by (cases "rr_next cur (of_nat n)")
  show ?case using Suc rr_next_less [OF assms(1,2), of cur] unfolding rr_seen_Suc [OF nx] by (auto simp: nx)
qed simp

lemma rr_seen_mset:
  assumes "0 < n" "n < 2 ^ 64"
  shows "mset (rr_seen n cur n) = mset [0..<n]"
proof -
  have u: "unat (of_nat n :: usize) = n" using assms(2) by (rule unat_of_nat_usize)
  then have z: "(0 :: usize) < of_nat n" using assms(1) by (simp add: word_less_nat_alt)
  show ?thesis unfolding rr_seen_def rr_scan_positions [OF z] u by (rule mod_cycle_perm [OF assms(1)])
qed

lemma rr_seen_set: "0 < n \<Longrightarrow> n < 2 ^ 64 \<Longrightarrow> set (rr_seen n cur n) = {0..<n}"
  by (metis rr_seen_mset set_mset_mset set_upt)

lemma rr_seen_distinct: "0 < n \<Longrightarrow> n < 2 ^ 64 \<Longrightarrow> distinct (rr_seen n cur n)"
  by (metis rr_seen_mset distinct_upt mset_eq_imp_distinct_iff)

context spsc_backend
begin

abbreviation "gone_at qs i \<equiv> cgone (ctl (qs ! i))"
abbreviation "room_at qs vss i \<equiv> accepts (ctl (qs ! i)) (vss ! i)"

lemma push_at:
  assumes "qs_rep rep qs vss" "i < length qs"
  shows "\<exists>q'. bk_try_push B (qs ! i) item = Some (if room_at qs vss i then Ok () else Err item, q')
    \<and> qs_rep rep (qs[i := q']) (if room_at qs vss i then vss[i := vss ! i @ [item]] else vss)
    \<and> map ctl (qs[i := q']) = map ctl qs"
proof -
  obtain q' where q': "bk_try_push B (qs ! i) item = Some (if room_at qs vss i then Ok () else Err item, q')"
    "rep q' (if room_at qs vss i then vss ! i @ [item] else vss ! i)" "ctl q' = ctl (qs ! i)"
    using push_law [OF qs_rep_nth [OF assms], of item] by (elim exE conjE) (rule that)
  have "qs_rep rep (qs[i := q']) (if room_at qs vss i then vss[i := vss ! i @ [item]] else vss)"
    using qs_rep_update [OF assms(1) q'(2), of i] by (auto split: if_splits)
  moreover have "map ctl (qs[i := q']) = map ctl qs" using q'(3) assms(2) by (metis list_update_id map_update nth_map)
  ultimately show ?thesis using q'(1) by blast
qed

lemma forward_to_spec:
  assumes "qs_rep rep qs vss" "i < length qs" "\<And>env. env \<in> set envs \<Longrightarrow> qs_env_ok rep env"
  shows "\<exists>r. forward_to B envs qs i item = Some r \<and>
    (case r of Spinning \<Rightarrow> \<not> gone_at qs i \<and> \<not> room_at qs vss i
     | Done (qs', envs') \<Rightarrow> \<exists>k qs0 vss0. envs' = drop k envs \<and> qs_rep rep qs0 vss0 \<and> length qs0 = length qs
         \<and> (k = 0 \<longrightarrow> qs0 = qs \<and> vss0 = vss)
         \<and> (if gone_at qs0 i then qs' = qs0
            else room_at qs0 vss0 i \<and> qs_rep rep qs' (vss0[i := vss0 ! i @ [item]]) \<and> map ctl qs' = map ctl qs0))"
  using assms
proof (induction envs arbitrary: qs vss)
  case Nil
  obtain q' where "bk_try_push B (qs ! i) item = Some (if room_at qs vss i then Ok () else Err item, q')"
    "qs_rep rep (qs[i := q']) (if room_at qs vss i then vss[i := vss ! i @ [item]] else vss)"
    "map ctl (qs[i := q']) = map ctl qs"
    using push_at [OF Nil.prems(1,2)] by blast
  then show ?case using Nil.prems(1,2) by (auto simp: gone intro!: exI [of _ qs] exI [of _ vss])
next
  case (Cons env envs)
  obtain q' where q': "bk_try_push B (qs ! i) item = Some (if room_at qs vss i then Ok () else Err item, q')"
    "qs_rep rep (qs[i := q']) (if room_at qs vss i then vss[i := vss ! i @ [item]] else vss)"
    "map ctl (qs[i := q']) = map ctl qs"
    using push_at [OF Cons.prems(1,2)] by blast
  show ?case
  proof (cases "gone_at qs i \<or> room_at qs vss i")
    case True
    then show ?thesis using Cons.prems(1,2) q'
      by (auto simp: gone intro!: exI [of _ "0::nat"] exI [of _ qs] exI [of _ vss])
  next
    case False
    let ?qs = "qs[i := q']"
    have "qs_rep rep ?qs vss" using q'(2) False by simp
    then obtain vss' where e: "qs_rep rep (env ?qs) vss'" "length (env ?qs) = length qs"
      using Cons.prems(3) [of env] unfolding qs_env_ok_def by fastforce
    have "\<exists>r. forward_to B envs (env ?qs) i item = Some r \<and>
      (case r of Spinning \<Rightarrow> True
       | Done (qs', envs') \<Rightarrow> \<exists>k qs0 vss0. envs' = drop k envs \<and> qs_rep rep qs0 vss0 \<and> length qs0 = length (env ?qs)
         \<and> (if gone_at qs0 i then qs' = qs0
            else room_at qs0 vss0 i \<and> qs_rep rep qs' (vss0[i := vss0 ! i @ [item]]) \<and> map ctl qs' = map ctl qs0))"
      using Cons.IH [OF e(1)] Cons.prems(2,3) e(2) by (fastforce split: spin.splits)
    then obtain r where r: "forward_to B envs (env ?qs) i item = Some r"
      "case r of Spinning \<Rightarrow> True
       | Done (qs', envs') \<Rightarrow> \<exists>k qs0 vss0. envs' = drop k envs \<and> qs_rep rep qs0 vss0 \<and> length qs0 = length (env ?qs)
         \<and> (if gone_at qs0 i then qs' = qs0
            else room_at qs0 vss0 i \<and> qs_rep rep qs' (vss0[i := vss0 ! i @ [item]]) \<and> map ctl qs' = map ctl qs0)" by blast
    have s: "forward_to B (env # envs) qs i item = Some r"
      using r(1) q'(1) False Cons.prems(2) by (simp add: gone)
    show ?thesis
    proof (cases r)
      case Spinning
      then show ?thesis using s False by auto
    next
      case (Done p)
      obtain qs' envs' where p: "p = (qs', envs')" by (cases p)
      obtain k qs0 vss0 where "envs' = drop k envs" "qs_rep rep qs0 vss0" "length qs0 = length (env ?qs)"
        "if gone_at qs0 i then qs' = qs0
            else room_at qs0 vss0 i \<and> qs_rep rep qs' (vss0[i := vss0 ! i @ [item]]) \<and> map ctl qs' = map ctl qs0"
        using r(2) unfolding Done p by auto
      then show ?thesis using s e(2) unfolding Done p
        by (auto intro!: exI [of _ "Suc k"] exI [of _ qs0] exI [of _ vss0])
    qed
  qed
qed

end

text \<open>The contents after every selected consumer that is alive has received \<open>item\<close>.\<close>

definition delivered_to :: "nat set \<Rightarrow> 'a \<Rightarrow> 'a list list \<Rightarrow> 'a list list" where
  "delivered_to S item vss = map (\<lambda>i. if i \<in> S then vss ! i @ [item] else vss ! i) [0..<length vss]"

lemma delivered_to_empty [simp]: "delivered_to {} item vss = vss"
  by (simp add: delivered_to_def map_nth)

lemma delivered_to_length [simp]: "length (delivered_to S item vss) = length vss"
  by (simp add: delivered_to_def)

lemma delivered_to_nth: "i < length vss \<Longrightarrow> delivered_to S item vss ! i = (if i \<in> S then vss ! i @ [item] else vss ! i)"
  by (simp add: delivered_to_def)

lemma delivered_to_insert:
  assumes "i \<notin> S"
  shows "delivered_to S item (vss[i := vss ! i @ [item]]) = delivered_to (insert i S) item vss"
proof (rule nth_equalityI)
  fix j assume j: "j < length (delivered_to S item (vss[i := vss ! i @ [item]]))"
  then show "delivered_to S item (vss[i := vss ! i @ [item]]) ! j = delivered_to (insert i S) item vss ! j"
    using assms by (cases "j = i") (auto simp: delivered_to_nth)
qed simp

context spsc_backend
begin

lemma forward_to_now:
  assumes "qs_rep rep qs vss" "i < length qs" "gone_at qs i \<or> room_at qs vss i"
  shows "\<exists>qs'. forward_to B envs qs i item = Some (Done (qs', envs)) \<and> map ctl qs' = map ctl qs
    \<and> qs_rep rep qs' (if gone_at qs i then vss else vss[i := vss ! i @ [item]])"
proof -
  obtain q' where "bk_try_push B (qs ! i) item = Some (if room_at qs vss i then Ok () else Err item, q')"
    "qs_rep rep (qs[i := q']) (if room_at qs vss i then vss[i := vss ! i @ [item]] else vss)"
    "map ctl (qs[i := q']) = map ctl qs"
    using push_at [OF assms(1,2)] by blast
  then show ?thesis using assms by (auto simp: gone forward_to.simps)
qed

lemma pubsub_loop_spec:
  assumes "qs_rep rep qs vss" "card (selected m) \<le> fuel"
    and "\<And>i. i \<in> selected m \<Longrightarrow> i < length qs \<and> (gone_at qs i \<or> room_at qs vss i)"
  shows "\<exists>qs'. pubsub_loop B fuel envs qs m item = Some (Done (qs', envs)) \<and> map ctl qs' = map ctl qs
    \<and> qs_rep rep qs' (delivered_to {i \<in> selected m. \<not> gone_at qs i} item vss)"
  using assms
proof (induction fuel arbitrary: qs vss m)
  case 0
  then have "m = 0" by (simp add: selected_empty)
  then show ?case using 0 by (simp add: selected_def)
next
  case (Suc fuel)
  show ?case
  proof (cases "m = 0")
    case True
    then show ?thesis using Suc.prems by (simp add: selected_def)
  next
    case False
    let ?i = "trailing_zeros m" and ?m = "m AND (m - 1)"
    have i: "?i \<in> selected m" using trailing_zeros_bit(2) [OF False] by (simp add: selected_def)
    note li = Suc.prems(3) [OF i]
    obtain q where q: "forward_to B envs qs ?i item = Some (Done (q, envs))" "map ctl q = map ctl qs"
      "qs_rep rep q (if gone_at qs ?i then vss else vss[?i := vss ! ?i @ [item]])"
      using forward_to_now [OF Suc.prems(1)] li by blast
    define vss' where "vss' = (if gone_at qs ?i then vss else vss[?i := vss ! ?i @ [item]])"
    have lq: "length q = length qs" using q(2) by (metis length_map)
    have ctl: "ctl (q ! j) = ctl (qs ! j)" if "j < length qs" for j using q(2) that lq by (metis nth_map)
    have sel: "selected ?m = selected m - {?i}" by (rule selected_clear [OF False])
    have c: "card (selected ?m) \<le> fuel" using Suc.prems(2) i by (simp add: sel)
    have room: "j < length q \<and> (gone_at q j \<or> room_at q vss' j)" if "j \<in> selected ?m" for j
      using that Suc.prems(3) [of j] lq ctl by (auto simp: sel vss'_def)
    have S: "delivered_to {j \<in> selected ?m. \<not> gone_at q j} item vss' = delivered_to {j \<in> selected m. \<not> gone_at qs j} item vss"
    proof -
      have e: "{j \<in> selected ?m. \<not> gone_at q j} = {j \<in> selected m. \<not> gone_at qs j} - {?i}"
        using Suc.prems(3) ctl by (auto simp: sel)
      have "insert ?i ({j \<in> selected m. \<not> gone_at qs j} - {?i}) = {j \<in> selected m. \<not> gone_at qs j}" if "\<not> gone_at qs ?i"
        using i that by auto
      then show ?thesis unfolding e vss'_def by (auto simp: delivered_to_insert)
    qed
    show ?thesis
    proof (cases "?m = 0")
      case True
      then have e: "selected ?m = {}" by (simp add: selected_empty)
      have "qs_rep rep q (delivered_to {j \<in> selected m. \<not> gone_at qs j} item vss)"
        using q(3) S unfolding vss'_def [symmetric] by (simp add: e)
      then show ?thesis using q(1,2) False True by simp
    next
      case m: False
      obtain qs' where "pubsub_loop B fuel envs q ?m item = Some (Done (qs', envs))" "map ctl qs' = map ctl q"
        "qs_rep rep qs' (delivered_to {j \<in> selected ?m. \<not> gone_at q j} item vss')"
        using Suc.IH [OF q(3) [folded vss'_def] c room] by blast
      then show ?thesis using q(1,2) False m S by simp
    qed
  qed
qed

lemma rr_pass_spec:
  assumes "qs_rep rep qs vss" "qs \<noteq> [] \<or> m = 0" "distinct (rr_seen m cur (length qs))"
  shows "\<exists>r cur' qs' vss'. rr_pass B m cur qs g item = Some (r, cur', qs') \<and> map ctl qs' = map ctl qs \<and> qs_rep rep qs' vss'
    \<and> (case r of Inl _ \<Rightarrow> \<exists>i\<in>set (rr_seen m cur (length qs)). \<not> gone_at qs i \<and> room_at qs vss i \<and> vss' = vss[i := vss ! i @ [item]]
       | Inr g' \<Rightarrow> vss' = vss \<and> (\<forall>i\<in>set (rr_seen m cur (length qs)). gone_at qs i \<or> \<not> room_at qs vss i)
           \<and> g' = g + length (filter (gone_at qs) (rr_seen m cur (length qs))))"
  using assms
proof (induction m arbitrary: cur qs g)
  case 0
  then show ?case by (intro exI [of _ "Inr g"] exI [of _ cur] exI [of _ qs] exI [of _ vss]) simp
next
  case (Suc m)
  obtain c cur1 where nx: "rr_next cur (of_nat (length qs)) = (c, cur1)" by (cases "rr_next cur (of_nat (length qs))")
  let ?i = "unat c"
  have i: "?i < length qs" using rr_next_less [of "length qs" cur] nx Suc.prems(1,2) by (auto simp: qs_rep_def)
  have seen: "rr_seen (Suc m) cur (length qs) = ?i # rr_seen m cur1 (length qs)" by (rule rr_seen_Suc [OF nx])
  have d: "distinct (rr_seen m cur1 (length qs))" using Suc.prems(3) by (simp add: seen)
  have ne: "qs \<noteq> [] \<or> m = 0" using i by auto
  show ?case
  proof (cases "gone_at qs ?i")
    case True
    then show ?thesis using Suc.IH [OF Suc.prems(1) ne d, of "g + 1"] nx i unfolding seen
      by (auto simp: gone split: sum.splits)
  next
    case False
    obtain q' where q': "bk_try_push B (qs ! ?i) item = Some (if room_at qs vss ?i then Ok () else Err item, q')"
      "qs_rep rep (qs[?i := q']) (if room_at qs vss ?i then vss[?i := vss ! ?i @ [item]] else vss)"
      "map ctl (qs[?i := q']) = map ctl qs"
      using push_at [OF Suc.prems(1) i] by blast
    let ?qs = "qs[?i := q']"
    have ctl: "ctl (?qs ! j) = ctl (qs ! j)" if "j < length qs" for j
      using q'(3) that by (metis length_list_update nth_map)
    show ?thesis
    proof (cases "room_at qs vss ?i")
      case True
      then show ?thesis using False q' nx i unfolding seen
        by (intro exI [of _ "Inl ()"] exI [of _ cur1] exI [of _ ?qs] exI [of _ "vss[?i := vss ! ?i @ [item]]"]) (simp add: gone)
    next
      case full: False
      have lt: "j < length qs" if "j \<in> set (rr_seen m cur1 (length qs))" for j
        by (rule rr_seen_less [OF _ _ that]) (use i Suc.prems(1) in \<open>auto simp: qs_rep_def\<close>)
      have q1: "qs_rep rep ?qs vss" using q'(2) full by simp
      have d': "distinct (rr_seen m cur1 (length ?qs))" and ne': "?qs \<noteq> [] \<or> m = 0" using d i by auto
      have f: "filter (gone_at ?qs) (rr_seen m cur1 (length qs)) = filter (gone_at qs) (rr_seen m cur1 (length qs))"
        by (rule filter_cong) (auto simp: ctl lt)
      from Suc.IH [OF q1 ne' d', of g] obtain r cur' qs' vss' where
        r: "rr_pass B m cur1 ?qs g item = Some (r, cur', qs')" "map ctl qs' = map ctl ?qs" "qs_rep rep qs' vss'"
        "case r of Inl _ \<Rightarrow> \<exists>i\<in>set (rr_seen m cur1 (length qs)). \<not> gone_at ?qs i \<and> room_at ?qs vss i \<and> vss' = vss[i := vss ! i @ [item]]
       | Inr g' \<Rightarrow> vss' = vss \<and> (\<forall>i\<in>set (rr_seen m cur1 (length qs)). gone_at ?qs i \<or> \<not> room_at ?qs vss i)
           \<and> g' = g + length (filter (gone_at ?qs) (rr_seen m cur1 (length qs)))"
        unfolding length_list_update by (elim exE conjE) (rule that)
      show ?thesis using r q'(1,3) nx i full False lt unfolding seen
        by - (rule exI [of _ r], rule exI [of _ cur'], rule exI [of _ qs'], rule exI [of _ vss'], auto simp: gone ctl f split: sum.splits)
    qed
  qed
qed

end

lemma rr_seen_length [simp]: "length (rr_seen m cur n) = m"
proof (induction m arbitrary: cur)
  case (Suc m)
  obtain c cur1 where nx: "rr_next cur (of_nat n) = (c, cur1)" by (cases "rr_next cur (of_nat n)")
  show ?case using Suc by (simp add: rr_seen_Suc [OF nx])
qed simp

lemma rr_seen_filter_all:
  assumes "0 < n" "n < 2 ^ 64"
  shows "length (filter P (rr_seen n cur n)) = n \<longleftrightarrow> (\<forall>i<n. P i)"
proof -
  have "length (filter P (rr_seen n cur n)) = n \<longleftrightarrow> (\<forall>i\<in>set (rr_seen n cur n). P i)"
    by (metis filter_True length_filter_less nat_less_le rr_seen_length)
  then show ?thesis using rr_seen_set [OF assms] by auto
qed

context spsc_backend
begin

lemma forward_rr_spec:
  assumes "qs_rep rep qs vss" "qs \<noteq> []"
  shows "if \<forall>i<length qs. gone_at qs i
     then \<exists>cur' qs'. forward_rr B envs cur qs item = Some (Done (cur', qs', envs)) \<and> qs_rep rep qs' vss
     else if \<exists>i<length qs. \<not> gone_at qs i \<and> room_at qs vss i
     then \<exists>cur' qs' i. forward_rr B envs cur qs item = Some (Done (cur', qs', envs)) \<and> i < length qs
            \<and> \<not> gone_at qs i \<and> room_at qs vss i \<and> qs_rep rep qs' (vss[i := vss ! i @ [item]])
            \<and> map ctl qs' = map ctl qs
     else \<exists>cur' qs'. qs_rep rep qs' vss \<and> map ctl qs' = map ctl qs
            \<and> forward_rr B envs cur qs item = (case envs of [] \<Rightarrow> Some Spinning | env # es \<Rightarrow> forward_rr B es cur' (env qs') item)"
proof -
  have n: "0 < length qs" "length qs < 2 ^ 64" using assms by (auto simp: qs_rep_def)
  note set = rr_seen_set [OF n, of cur]
  have ne: "qs \<noteq> [] \<or> length qs = 0" using assms(2) by simp
  obtain r cur' qs' vss' where r: "rr_pass B (length qs) cur qs 0 item = Some (r, cur', qs')" "map ctl qs' = map ctl qs" "qs_rep rep qs' vss'"
    "case r of Inl _ \<Rightarrow> \<exists>i\<in>{0..<length qs}. \<not> gone_at qs i \<and> room_at qs vss i \<and> vss' = vss[i := vss ! i @ [item]]
       | Inr g' \<Rightarrow> vss' = vss \<and> (\<forall>i\<in>{0..<length qs}. gone_at qs i \<or> \<not> room_at qs vss i)
           \<and> g' = 0 + length (filter (gone_at qs) (rr_seen (length qs) cur (length qs)))"
    using rr_pass_spec [OF assms(1) ne rr_seen_distinct [OF n], of cur 0 item] unfolding set
    by (elim exE conjE) (rule that)
  have l: "length qs' = length qs" using r(2) by (metis length_map)
  show ?thesis
  proof (cases r)
    case (Inl u)
    then obtain i where i: "i < length qs" "\<not> gone_at qs i" "room_at qs vss i" "vss' = vss[i := vss ! i @ [item]]"
      using r(4) by auto
    have "forward_rr B envs cur qs item = Some (Done (cur', qs', envs))" using r(1) Inl by (simp add: forward_rr.simps)
    then show ?thesis using r(2,3) i by auto
  next
    case (Inr g)
    then have g: "g = length qs \<longleftrightarrow> (\<forall>i<length qs. gone_at qs i)" "vss' = vss" "\<forall>i<length qs. gone_at qs i \<or> \<not> room_at qs vss i"
      using r(4) rr_seen_filter_all [OF n, of "gone_at qs" cur] by auto
    have e: "forward_rr B envs cur qs item = (if g = length qs' then Some (Done (cur', qs', envs))
       else (case envs of [] \<Rightarrow> Some Spinning | env # es \<Rightarrow> forward_rr B es cur' (env qs') item))"
      using r(1) Inr by (simp add: forward_rr.simps [of B envs] cong: list.case_cong)
    show ?thesis using r(2,3) g l e by (cases "\<forall>i<length qs. gone_at qs i") auto
  qed
qed

lemma bconsumer_scan_spec:
  assumes "qs_rep rep qs vss" "qs \<noteq> [] \<or> m = 0"
  shows "\<exists>v qs' cur' vss'. bconsumer_scan B m qs cur = Some (v, qs', cur') \<and> qs_rep rep qs' vss' \<and> map ctl qs' = map ctl qs
    \<and> (case v of None \<Rightarrow> vss' = vss \<and> (\<forall>i\<in>set (rr_seen m cur (length qs)). vss ! i = [])
       | Some v \<Rightarrow> \<exists>i<length qs. vss ! i \<noteq> [] \<and> v = hd (vss ! i) \<and> vss' = vss[i := tl (vss ! i)])"
  using assms
proof (induction m arbitrary: cur qs)
  case 0
  then show ?case by (intro exI [of _ None] exI [of _ qs] exI [of _ cur] exI [of _ vss]) simp
next
  case (Suc m)
  obtain c cur1 where nx: "rr_next cur (of_nat (length qs)) = (c, cur1)" by (cases "rr_next cur (of_nat (length qs))")
  let ?i = "unat c"
  have i: "?i < length qs" using rr_next_less [of "length qs" cur] nx Suc.prems(1,2) by (auto simp: qs_rep_def)
  have seen: "rr_seen (Suc m) cur (length qs) = ?i # rr_seen m cur1 (length qs)" by (rule rr_seen_Suc [OF nx])
  obtain q' where q': "bk_try_pop B (qs ! ?i) = Some (case vss ! ?i of [] \<Rightarrow> None | v # _ \<Rightarrow> Some v, q')"
    "rep q' (tl (vss ! ?i))" "ctl q' = ctl (qs ! ?i)"
    using pop [OF qs_rep_nth [OF Suc.prems(1) i]] by (elim exE conjE) (rule that)
  let ?qs = "qs[?i := q']"
  have u: "qs_rep rep ?qs (vss[?i := tl (vss ! ?i)])" using qs_rep_update [OF Suc.prems(1) q'(2)] .
  have c: "map ctl ?qs = map ctl qs" using q'(3) i by (metis list_update_id map_update nth_map)
  show ?case
  proof (cases "vss ! ?i")
    case Nil
    then have u': "qs_rep rep ?qs vss" "?qs \<noteq> [] \<or> m = 0" using u i by (metis list.sel(2) list_update_id, auto)
    obtain v qs' cur' vss' where "bconsumer_scan B m ?qs cur1 = Some (v, qs', cur')" "qs_rep rep qs' vss'" "map ctl qs' = map ctl ?qs"
      "case v of None \<Rightarrow> vss' = vss \<and> (\<forall>i\<in>set (rr_seen m cur1 (length qs)). vss ! i = [])
       | Some v \<Rightarrow> \<exists>i<length qs. vss ! i \<noteq> [] \<and> v = hd (vss ! i) \<and> vss' = vss[i := tl (vss ! i)]"
      using Suc.IH [OF u', of cur1] unfolding length_list_update by (elim exE conjE) (rule that)
    then show ?thesis using nx i q'(1) Nil c unfolding seen
      by - (rule exI [of _ v], rule exI [of _ qs'], rule exI [of _ cur'], rule exI [of _ vss'], auto split: option.splits)
  next
    case (Cons v vs)
    then show ?thesis using nx i q'(1) u c
      by - (rule exI [of _ "Some v"], rule exI [of _ ?qs], rule exI [of _ cur1], rule exI [of _ "vss[?i := tl (vss ! ?i)]"], auto)
  qed
qed

lemma bconsumer_is_disconnected_spec:
  assumes "qs_rep rep qs vss"
  shows "bconsumer_is_disconnected B qs = Some (\<forall>i<length qs. pgone (ctl (qs ! i)) \<and> vss ! i = [])"
proof -
  have "list_all2 rep qs vss" using assms by (simp add: qs_rep_def)
  then show ?thesis unfolding bconsumer_is_disconnected_def
  proof (induction rule: list_all2_induct)
    case (Cons q qs vs vss)
    show ?case using Cons.IH finished [OF Cons.hyps(1)] by (auto simp: All_less_Suc2)
  qed simp
qed

end

section \<open>The router places every value once\<close>

text \<open>Values tagged with the producer they come from.\<close>

fun tagged :: "nat \<Rightarrow> 'a list list \<Rightarrow> (nat \<times> 'a) list" where
  "tagged k [] = []"
| "tagged k (xs # xss) = map (Pair k) xs @ tagged (Suc k) xss"

lemma tagged_snd: "map snd (tagged k xss) = concat xss"
  by (induction xss arbitrary: k) (auto simp: comp_def)

lemma tagged_ge: "p \<in> set (tagged k xss) \<Longrightarrow> k \<le> fst p"
  by (induction xss arbitrary: k) (auto, force)

lemma from_producer_tagged: "i < length xss \<Longrightarrow> from_producer (k + i) (tagged k xss) = xss ! i"
proof (induction xss arbitrary: k i)
  case (Cons xs xss)
  show ?case
  proof (cases i)
    case 0
    have "filter (\<lambda>p. fst p = k) (tagged (Suc k) xss) = []" using tagged_ge [of _ "Suc k" xss] by (force simp: filter_empty_conv)
    then show ?thesis using 0 by (simp add: from_producer_def comp_def filter_map)
  next
    case (Suc j)
    then show ?thesis using Cons.IH [of j "Suc k"] Cons.prems by (simp add: from_producer_def comp_def filter_map)
  qed
qed simp

lemma take_drop_empty:
  assumes "length ns = length vss" "\<forall>i<length vss. vss ! i = []"
  shows "concat (map2 take ns vss) = []" "map2 drop ns vss = vss"
  using assms by (induction ns vss rule: list_induct2) (auto simp: All_less_Suc2)

locale router = spsc_backend B rep ctl accepts pgone cgone
  for B :: "('q, 'a, 'd spin option) Backend" and rep and ctl :: "'q \<Rightarrow> 'c" and accepts pgone cgone +
  fixes deliver :: "'d \<Rightarrow> 'a \<Rightarrow> 'd spin option" and place :: "'d \<Rightarrow> 'a \<Rightarrow> 'd" and good :: "'d \<Rightarrow> bool"
  assumes deliver: "good d \<Longrightarrow> deliver d v = Some (Done (place d v)) \<and> good (place d v)"
begin

abbreviation "placed vs d \<equiv> fold (\<lambda>v d. place d v) vs d"

lemma good_placed: "good d \<Longrightarrow> good (placed vs d)"
  by (induction vs arbitrary: d) (auto simp: deliver)

lemma feed_delivering:
  "good d \<Longrightarrow> feed (delivering deliver) vs (Some (Done d)) = (length vs, True, Some (Done (placed vs d)))"
  by (induction vs arbitrary: d) (auto simp: delivering_def deliver)

lemma sweep_spec:
  assumes "list_all2 rep qs vss" "good d"
  shows "\<exists>ns qs'. sweep B deliver per moved qs d
        = Some (Done (moved + sum_list ns, qs', placed (concat (map2 take ns vss)) d))
     \<and> list_all2 rep qs' (map2 drop ns vss) \<and> length ns = length vss
     \<and> (\<forall>i<length vss. ns ! i \<le> length (vss ! i) \<and> (ns ! i = 0 \<longleftrightarrow> vss ! i = [] \<or> per = 0))"
  using assms
proof (induction qs vss arbitrary: moved d rule: list_all2_induct)
  case Nil
  then show ?case by simp
next
  case (Cons q qs vs vss)
  obtain n fin ok st q' where d: "feed (delivering deliver) (take n vs) (Some (Done d)) = (fin, ok, st)"
    "bk_drain_in_place B q per (delivering deliver) (Some (Done d)) = Some (if ok then Return n else Unwind, q', st)"
    "rep q' (drop fin vs)" "n \<le> min (length vs) (unat per)" "n = 0 \<longleftrightarrow> vs = [] \<or> per = 0"
    using drain [OF Cons.hyps(1), of "delivering deliver" "Some (Done d)" per] by (elim exE conjE) (rule that)
  then have f: "ok" "fin = n" "st = Some (Done (placed (take n vs) d))" using feed_delivering [OF Cons.prems] by auto
  obtain ns qs' where r: "sweep B deliver per (moved + n) qs (placed (take n vs) d)
        = Some (Done (moved + n + sum_list ns, qs', placed (concat (map2 take ns vss)) (placed (take n vs) d)))"
     "list_all2 rep qs' (map2 drop ns vss)" "length ns = length vss"
     "\<forall>i<length vss. ns ! i \<le> length (vss ! i) \<and> (ns ! i = 0 \<longleftrightarrow> vss ! i = [] \<or> per = 0)"
    using Cons.IH [OF good_placed [OF Cons.prems], of "moved + n" "take n vs"] by (elim exE conjE) (rule that)
  show ?case using r d f
    by (intro exI [of _ "n # ns"] exI [of _ "q' # qs'"]) (auto simp: All_less_Suc2)
qed

lemma broker_run_spec:
  assumes "list_all2 rep qs vss" "good d" "b \<noteq> 0" "sum_list (map length vss) \<le> n"
  shows "\<exists>qs' tr. broker_run B deliver b (replicate n (\<lambda>s. s)) qs 0 d = Some (Done (qs', 0, placed (map snd tr) d))
     \<and> list_all2 rep qs' (replicate (length vss) []) \<and> (\<forall>i<length vss. from_producer i tr = vss ! i)"
  using assms
proof (induction n arbitrary: qs vss d rule: less_induct)
  case (less n)
  obtain ns qs1 where s: "sweep B deliver b 0 qs d = Some (Done (0 + sum_list ns, qs1, placed (concat (map2 take ns vss)) d))"
     "list_all2 rep qs1 (map2 drop ns vss)" "length ns = length vss"
     "\<forall>i<length vss. ns ! i \<le> length (vss ! i) \<and> (ns ! i = 0 \<longleftrightarrow> vss ! i = [] \<or> b = 0)"
    using sweep_spec [OF less.prems(1,2), of b 0] by (elim exE conjE) (rule that)
  have d2: "vss ! i = take (ns ! i) (vss ! i) @ map2 drop ns vss ! i" if "i < length vss" for i using that s(3) by simp
  show ?case
  proof (cases "sum_list ns = 0")
    case True
    then have z: "\<forall>i<length vss. ns ! i = 0" using s(3) by (metis nth_mem sum_list_eq_0_iff)
    then have e: "\<forall>i<length vss. vss ! i = []" using s(4) less.prems(3) by blast
    then have v: "vss = replicate (length vss) []" by (intro nth_equalityI) simp_all
    have tk: "concat (map2 take ns vss) = []" and dr: "map2 drop ns vss = vss"
      by (rule take_drop_empty [OF s(3) e])+
    obtain ms qs2 where s2: "sweep B deliver (- 1) 0 qs1 d = Some (Done (0 + sum_list ms, qs2, placed (concat (map2 take ms vss)) d))"
      "list_all2 rep qs2 (map2 drop ms vss)" "length ms = length vss"
      "\<forall>i<length vss. ms ! i \<le> length (vss ! i) \<and> (ms ! i = 0 \<longleftrightarrow> vss ! i = [] \<or> (- 1 :: usize) = 0)"
      using sweep_spec [OF s(2) [unfolded dr] less.prems(2), of "- 1" 0] by (elim exE conjE) (rule that)
    have "\<forall>i<length vss. ms ! i = 0" using s2(4) e by simp
    then have "sum_list ms = 0" using s2(3) by (metis in_set_conv_nth sum_list_eq_0_iff)
    note tk2 = take_drop_empty [OF s2(3) e]
    have "sweep B deliver b 0 qs d = Some (Done (0, qs1, d))" using s(1) by (simp only: True tk) simp
    moreover have "sweep B deliver (- 1) 0 qs1 d = Some (Done (0, qs2, d))" using s2(1) by (simp only: \<open>sum_list ms = 0\<close> tk2) simp
    ultimately have "broker_run B deliver b (replicate n (\<lambda>s. s)) qs 0 d = Some (Done (qs2, 0, placed (map snd ([] :: (nat \<times> 'a) list)) d))"
      by (simp add: broker_run.simps)
    moreover have "list_all2 rep qs2 (replicate (length vss) [])" using s2(2) tk2(2) v by metis
    ultimately show ?thesis using e
      by - (rule exI [of _ qs2], rule exI [of _ "[]"], simp del: broker_run.simps)
  next
    case False
    let ?vss = "map2 drop ns vss" and ?d = "placed (concat (map2 take ns vss)) d"
    have sum: "sum_list (map length ?vss) + sum_list ns = sum_list (map length vss)"
      using s(3,4)
    proof (induction ns vss rule: list_induct2)
      case (Cons n ns vs vss)
      then show ?case by (auto simp: All_less_Suc2)
    qed simp
    then obtain m where m: "n = Suc m" using False less.prems(4) by (cases n) auto
    have le: "sum_list (map length ?vss) \<le> m" using sum False less.prems(4) m by linarith
    obtain qs' tr where IH: "broker_run B deliver b (replicate m (\<lambda>s. s)) qs1 0 ?d = Some (Done (qs', 0, placed (map snd tr) ?d))"
      "list_all2 rep qs' (replicate (length ?vss) [])" "\<forall>i<length ?vss. from_producer i tr = ?vss ! i"
      using less.IH [OF _ s(2) good_placed [OF less.prems(2)] less.prems(3) le, of "concat (map2 take ns vss)"] m lessI
      by blast
    let ?tr = "tagged 0 (map2 take ns vss) @ tr"
    have "broker_run B deliver b (replicate n (\<lambda>s. s)) qs 0 d = Some (Done (qs', 0, placed (map snd ?tr) d))"
      using s(1) False m IH(1) by (simp add: broker_run.simps [of B deliver b "_ # _"] tagged_snd del: broker_run.simps sum_list_eq_0_iff)
    moreover have "from_producer i ?tr = vss ! i" if "i < length vss" for i
      using from_producer_tagged [of i "map2 take ns vss" 0] that IH(3) s(3) d2 [OF that] by (simp add: from_producer_append)
    ultimately show ?thesis using IH(2) s(3)
      by - (rule exI [of _ qs'], rule exI [of _ ?tr], simp del: broker_run.simps)
  qed
qed

end

declare forward_to.simps [simp del] forward_rr.simps [simp del] broker_run.simps [simp del]
  bconsumer_recv.simps [simp del] bproducer_send.simps [simp del]

lemma ring_gone [simp]: "snd (snd (ring_ctl r)) = consumer_gone r"
  by (simp add: ring_ctl_def)

lemma ring_room [simp]: "ring_accepts (ring_ctl r) vs \<longleftrightarrow> length vs < unat (cap r)"
  by (simp add: ring_accepts_def ring_ctl_def)

lemma seg_gone [simp]: "snd (seg_live q) = seg_consumer_gone q"
  by (simp add: seg_live_def)

lemma seg_room [simp]: "seg_accepts (seg_live q) vs \<longleftrightarrow> \<not> seg_consumer_gone q"
  by (simp add: seg_accepts_def)

text \<open>The round-robin policy over segmented transports, which are never full.\<close>

definition rr_good :: "usize \<times> 'a Seg list \<times> 'a Seg env list \<Rightarrow> bool" where
  "rr_good d \<longleftrightarrow> (case d of (cur, qs, envs) \<Rightarrow>
     (\<exists>vss. qs_rep seg_rep qs vss) \<and> (\<exists>i<length qs. \<not> seg_consumer_gone (qs ! i)))"

definition rr_place :: "usize \<times> 'a Seg list \<times> 'a Seg env list \<Rightarrow> 'a \<Rightarrow> usize \<times> 'a Seg list \<times> 'a Seg env list" where
  "rr_place d v = (case deliver_rr (seg_backend :: ('a Seg, 'a, unit) Backend) d v of Some (Done d') \<Rightarrow> d' | _ \<Rightarrow> d)"

lemma deliver_rr_seg:
  assumes "qs_rep seg_rep qs vss" "\<exists>i<length qs. \<not> seg_consumer_gone (qs ! i)"
  shows "\<exists>cur' qs' i. deliver_rr (seg_backend :: ('a Seg, 'a, unit) Backend) (cur, qs, envs) v = Some (Done (cur', qs', envs))
     \<and> i < length qs \<and> \<not> seg_consumer_gone (qs ! i) \<and> qs_rep seg_rep qs' (vss[i := vss ! i @ [v]])
     \<and> map seg_live qs' = map seg_live qs"
proof -
  have "qs \<noteq> []" using assms(2) by auto
  from seg_bk.forward_rr_spec [OF assms(1) this, of envs cur v] show ?thesis
    using assms(2) unfolding seg_gone seg_room deliver_rr_def
    by (simp only: if_False if_True not_all simp_thms prod.case split: if_splits)
qed

lemma live_after: "map seg_live qs' = map seg_live qs \<Longrightarrow> i < length qs \<Longrightarrow> i < length qs' \<and> seg_consumer_gone (qs' ! i) = seg_consumer_gone (qs ! i)"
  by (metis length_map nth_map seg_gone)

lemma rr_good_place:
  assumes "rr_good d"
  shows "deliver_rr (seg_backend :: ('a Seg, 'a, unit) Backend) d v = Some (Done (rr_place d v)) \<and> rr_good (rr_place d v)"
proof -
  obtain cur qs envs where d: "d = (cur, qs, envs)" by (cases d)
  obtain vss j where g: "qs_rep seg_rep qs vss" "j < length qs" "\<not> seg_consumer_gone (qs ! j)"
    using assms by (auto simp: d rr_good_def)
  obtain cur' qs' i where r: "deliver_rr (seg_backend :: ('a Seg, 'a, unit) Backend) (cur, qs, envs) v = Some (Done (cur', qs', envs))"
     "qs_rep seg_rep qs' (vss[i := vss ! i @ [v]])" "map seg_live qs' = map seg_live qs"
    using deliver_rr_seg [OF g(1), of cur envs v] g(2,3) by blast
  then show ?thesis using live_after [OF r(3) g(2)] g(3) by (auto simp: rr_place_def rr_good_def d)
qed

interpretation seg_rr: router seg_backend seg_rep seg_live seg_accepts fst snd
  "deliver_rr (seg_backend :: ('a Seg, 'a, unit) Backend)" rr_place rr_good
  by unfold_locales (rule rr_good_place)

text \<open>What consumer \<open>c\<close> receives when value \<open>k\<close> of \<open>vs\<close> goes to consumer \<open>choice ! k\<close>.\<close>

definition assigned :: "nat list \<Rightarrow> 'a list \<Rightarrow> nat \<Rightarrow> 'a list" where
  "assigned choice vs c = map snd (filter (\<lambda>p. fst p = c) (zip choice vs))"

lemma rr_placed_assigned:
  assumes "qs_rep seg_rep qs vss" "j < length qs" "\<not> seg_consumer_gone (qs ! j)"
  shows "\<exists>cur' qs' vss' choice. fold (\<lambda>v d. rr_place d v) vs (cur, qs, envs) = (cur', qs', envs)
     \<and> qs_rep seg_rep qs' vss' \<and> length choice = length vs \<and> length vss' = length vss
     \<and> (\<forall>c\<in>set choice. c < length qs \<and> \<not> seg_consumer_gone (qs ! c))
     \<and> (\<forall>c<length qs. vss' ! c = vss ! c @ assigned choice vs c)"
  using assms
proof (induction vs arbitrary: cur qs vss)
  case Nil
  then show ?case by (auto simp: assigned_def)
next
  case (Cons v vs)
  obtain cur1 q1 i where r: "deliver_rr (seg_backend :: ('a Seg, 'a, unit) Backend) (cur, qs, envs) v = Some (Done (cur1, q1, envs))"
    "i < length qs" "\<not> seg_consumer_gone (qs ! i)"
    "qs_rep seg_rep q1 (vss[i := vss ! i @ [v]])" "map seg_live q1 = map seg_live qs"
    using deliver_rr_seg [OF Cons.prems(1), of cur envs v] Cons.prems(2,3) by blast
  have l: "length q1 = length qs" using r(5) by (metis length_map)
  have lv: "length vss = length qs" by (rule qs_rep_length [OF Cons.prems(1)])
  have g: "seg_consumer_gone (q1 ! c) = seg_consumer_gone (qs ! c)" if "c < length qs" for c
    using live_after [OF r(5) that] by simp
  obtain cur' qs' vss' choice where IH: "fold (\<lambda>v d. rr_place d v) vs (cur1, q1, envs) = (cur', qs', envs)"
     "qs_rep seg_rep qs' vss'" "length choice = length vs" "length vss' = length vss"
     "\<forall>c\<in>set choice. c < length qs \<and> \<not> seg_consumer_gone (q1 ! c)"
     "\<forall>c<length qs. vss' ! c = vss[i := vss ! i @ [v]] ! c @ assigned choice vs c"
    using Cons.IH [OF r(4), unfolded l length_list_update, OF Cons.prems(2), of cur1] g [OF Cons.prems(2)] Cons.prems(3)
    by blast
  have "\<forall>c<length qs. vss' ! c = vss ! c @ assigned (i # choice) (v # vs) c"
  proof (intro allI impI)
    fix c assume c: "c < length qs"
    show "vss' ! c = vss ! c @ assigned (i # choice) (v # vs) c"
      using IH(6) c lv by (cases "c = i") (auto simp: assigned_def)
  qed
  moreover have "\<forall>c\<in>set (i # choice). c < length qs \<and> \<not> seg_consumer_gone (qs ! c)" using IH(5) r(2,3) g by auto
  moreover have "fold (\<lambda>v d. rr_place d v) (v # vs) (cur, qs, envs) = (cur', qs', envs)"
    using r(1) IH(1) by (simp add: rr_place_def)
  ultimately show ?case using IH(2-4)
    by - (rule exI [of _ cur'], rule exI [of _ qs'], rule exI [of _ vss'], rule exI [of _ "i # choice"], simp)
qed


section \<open>Properties\<close>



text \<open>
  The round-robin policy on bounded rings: when a live consumer has room the value goes to
  exactly one such consumer; when every consumer is gone it is dropped; otherwise the router pauses
  with every ring as it was and tries again.
\<close>

theorem forward_rr_outcome:
  fixes qs :: "'a Ring list"
  assumes "qs_rep ring_rep qs vss" "qs \<noteq> []"
  shows "if \<forall>i<length qs. consumer_gone (qs ! i)
     then \<exists>cur' qs'. forward_rr (ring_backend :: ('a Ring, 'a, unit) Backend) envs cur qs item = Some (Done (cur', qs', envs)) \<and> qs_rep ring_rep qs' vss
     else if \<exists>i<length qs. \<not> consumer_gone (qs ! i) \<and> length (vss ! i) < unat (cap (qs ! i))
     then \<exists>cur' qs' i. forward_rr (ring_backend :: ('a Ring, 'a, unit) Backend) envs cur qs item = Some (Done (cur', qs', envs)) \<and> i < length qs
            \<and> \<not> consumer_gone (qs ! i) \<and> length (vss ! i) < unat (cap (qs ! i)) \<and> qs_rep ring_rep qs' (vss[i := vss ! i @ [item]])
     else \<exists>cur' qs'. qs_rep ring_rep qs' vss
            \<and> forward_rr (ring_backend :: ('a Ring, 'a, unit) Backend) envs cur qs item
               = (case envs of [] \<Rightarrow> Some Spinning | env # es \<Rightarrow> forward_rr (ring_backend :: ('a Ring, 'a, unit) Backend) es cur' (env qs') item)"
  using ring_bk.forward_rr_spec [OF assms, of envs cur item] unfolding ring_gone ring_room by (auto split: if_splits)

lemma two_new_rings:
  obtains r :: "'a Ring" where "ring 1 = Some r" "qs_rep ring_rep [r, r] [[], []]" "\<not> consumer_gone r" "0 < unat (cap r)"
proof -
  obtain r :: "'a Ring" where r: "ring 1 = Some r" using ring_defined [of 1] by auto
  show thesis
    by (rule that [OF r]) (use ring_rep_new [OF r] ring_new(2,3) [OF r] ring_rep_cap_pos [OF ring_rep_new [OF r]] in \<open>auto simp: qs_rep_def\<close>)
qed

lemma forward_rr_outcome_witness:
  "\<exists>r cur' qs' i. ring 1 = Some r
     \<and> forward_rr (ring_backend :: (char Ring, char, unit) Backend) [] 1 [r, r] CHR ''v'' = Some (Done (cur', qs', []))
     \<and> i < 2 \<and> qs_rep ring_rep qs' ([[], []][i := ''v''])"
proof -
  obtain r :: "char Ring" where r: "ring 1 = Some r" and q: "qs_rep ring_rep [r, r] [[], []]"
    and n: "\<not> consumer_gone r" "0 < unat (cap r)" by (rule two_new_rings)
  have *: "\<not> (\<forall>i<length [r, r]. consumer_gone ([r, r] ! i))"
    "\<exists>i<length [r, r]. \<not> consumer_gone ([r, r] ! i) \<and> length ([[], []] ! i :: char list) < unat (cap ([r, r] ! i))"
    using n by (auto intro!: exI [of _ 0])
  from forward_rr_outcome [OF q, of "[]" 1 "CHR ''v''"] * obtain cur' qs' i where
    f: "forward_rr (ring_backend :: (char Ring, char, unit) Backend) [] 1 [r, r] CHR ''v'' = Some (Done (cur', qs', []))"
    "i < length [r, r]" "qs_rep ring_rep qs' ([[], []][i := ([[], []] ! i) @ ''v''])" by (auto split: if_splits)
  then have "[[], []] ! i = ([] :: char list)" by (auto simp: less_Suc_eq)
  then show ?thesis using r f by (intro exI [of _ r] exI [of _ cur'] exI [of _ qs'] exI [of _ i]) simp
qed



text \<open>
  A target set built from a list of indices holds the residues modulo \<open>2 ^ 32\<close> of those
  indices that are below 64, and \<open>Targets::all\<close> holds every consumer that a mask can name.
\<close>

theorem targets_membership:
  "selected (targets_of is) = (\<lambda>i. unat i mod 2 ^ 32) ` set is \<inter> {0..<64}
   \<and> selected (targets_with t i) = selected t \<union> selected (targets_one i)
   \<and> selected (targets_all n) = {0..<min 64 (unat n)} \<and> selected targets_none = {}"
proof (intro conjI)
  show "selected (targets_of is) = (\<lambda>i. unat i mod 2 ^ 32) ` set is \<inter> {0..<64}"
    unfolding selected_targets_of by auto
  show "selected (targets_all n) = {0..<min 64 (unat n)}"
    unfolding selected_targets_all by auto
qed (simp_all add: targets_with_def targets_one_def selected_or targets_none_def selected_empty)

text \<open>The cast in \<open>bit\<close> makes an index beyond \<open>2 ^ 32\<close> name the consumer of its low half.\<close>

lemma targets_one_wraps: "targets_one (2 ^ 32) = targets_one 0 \<and> selected (targets_one (2 ^ 32)) = {0}"
proof -
  have s: "selected (targets_one (2 ^ 32)) = {0}" "selected (targets_one 0) = {0}"
    by (simp_all add: targets_one_def selected_bit_of)
  have "targets_one (2 ^ 32) = targets_one 0"
    by (rule bit_eqI) (use s in \<open>auto simp: selected_def set_eq_iff\<close>)
  with s show ?thesis by simp
qed

text \<open>
  A brokered consumer's \<open>try_recv\<close> takes the oldest value of one of its transports, and reports
  nothing only when all of them are empty; \<open>is_disconnected\<close> holds exactly when every router is gone
  and nothing is buffered.
\<close>

theorem brokered_try_recv:
  fixes qs :: "'a Ring list"
  assumes "qs_rep ring_rep qs vss" "qs \<noteq> []"
  shows "\<exists>v qs' cur' vss'. bconsumer_try_recv (ring_backend :: ('a Ring, 'a, unit) Backend) qs cur = Some (v, qs', cur') \<and> qs_rep ring_rep qs' vss'
    \<and> (case v of None \<Rightarrow> vss' = vss \<and> (\<forall>i<length qs. vss ! i = [])
       | Some v \<Rightarrow> \<exists>i<length qs. vss ! i \<noteq> [] \<and> v = hd (vss ! i) \<and> vss' = vss[i := tl (vss ! i)])
    \<and> bconsumer_is_disconnected (ring_backend :: ('a Ring, 'a, unit) Backend) qs' = Some (\<forall>i<length qs. producer_gone (qs ! i) \<and> vss' ! i = [])"
proof -
  have n: "0 < length qs" "length qs < 2 ^ 64" using assms by (auto simp: qs_rep_def)
  obtain v qs' cur' vss' where r: "bconsumer_scan (ring_backend :: ('a Ring, 'a, unit) Backend) (length qs) qs cur = Some (v, qs', cur')"
    "qs_rep ring_rep qs' vss'" "map ring_ctl qs' = map ring_ctl qs"
    "case v of None \<Rightarrow> vss' = vss \<and> (\<forall>i\<in>{0..<length qs}. vss ! i = [])
       | Some v \<Rightarrow> \<exists>i<length qs. vss ! i \<noteq> [] \<and> v = hd (vss ! i) \<and> vss' = vss[i := tl (vss ! i)]"
    using ring_bk.bconsumer_scan_spec [OF assms(1), of "length qs" cur] assms(2) unfolding rr_seen_set [OF n] by blast
  have l: "length qs' = length qs" using r(3) by (metis length_map)
  have p: "producer_gone (qs' ! i) = producer_gone (qs ! i)" if "i < length qs" for i
    using arg_cong [OF r(3), of "\<lambda>xs. fst (snd (xs ! i))"] that l by (simp add: ring_ctl_def)
  have "bconsumer_is_disconnected (ring_backend :: ('a Ring, 'a, unit) Backend) qs' = Some (\<forall>i<length qs. producer_gone (qs ! i) \<and> vss' ! i = [])"
    using ring_bk.bconsumer_is_disconnected_spec [OF r(2)] p unfolding l by (auto simp: ring_ctl_def)
  then show ?thesis using r(1,2,4) unfolding bconsumer_try_recv_def
    by - (rule exI [of _ v], rule exI [of _ qs'], rule exI [of _ cur'], rule exI [of _ vss'], auto split: option.splits)
qed

lemma brokered_try_recv_witness:
  "\<exists>r qs' cur'. ring 1 = Some r
     \<and> bconsumer_try_recv (ring_backend :: (char Ring, char, unit) Backend) [r, r] 5 = Some (None, qs', cur') \<and> qs_rep ring_rep qs' [[], []]"
proof -
  obtain r :: "char Ring" where r: "ring 1 = Some r" and q: "qs_rep ring_rep [r, r] [[], []]" by (rule two_new_rings)
  obtain v qs' cur' vss' where "bconsumer_try_recv (ring_backend :: (char Ring, char, unit) Backend) [r, r] 5 = Some (v, qs', cur')"
    "qs_rep ring_rep qs' vss'"
    "case v of None \<Rightarrow> vss' = [[], []] \<and> (\<forall>i<length [r, r]. [[], []] ! i = ([] :: char list))
       | Some v \<Rightarrow> \<exists>i<length [r, r]. [[], []] ! i \<noteq> ([] :: char list) \<and> v = hd ([[], []] ! i) \<and> vss' = [[], []][i := tl ([[], []] ! i)]"
    using brokered_try_recv [OF q, of 5, OF list.distinct(2)] by (elim exE conjE) (rule that)
  then show ?thesis using r by (auto simp: less_Suc_eq split: option.splits)
qed

end
