(* ===== verification/Broadcast.thy ===== *)
theory Broadcast
  imports Prelude
begin

text \<open>
  Broadcast (\<open>src/src/mpmc/broadcast/mod.rs\<close>): one publisher writes a shared ring, every reader clones
  every value published after it joined, and the slowest reader gates the reuse of slots.

  Operations are translated one by one; \<open>membership_scan\<close> makes activation and the publisher's scan
  exclusive, so each is one step. Cloning is the identity on values. Calls that spin take the list
  of what the rest of the program does to the shared state during each pause.
\<close>

section \<open>State\<close>

record 'a Bcast =
  bbuf :: "'a option list"
  bmask :: usize
  bcap :: usize
  bw :: usize
  readers :: u64
  owned :: u64
  cursors :: "usize list"
  bproducer_gone :: bool

record Publisher =
  pw :: usize
  min_cache :: usize

record Reader =
  rbit :: nat
  rpos :: usize
  suspended :: bool

definition bit_mask :: "nat \<Rightarrow> u64" where
  "bit_mask i = push_bit i 1"

text \<open>\<open>open\<close>: panics on a reader count outside \<open>1..=64\<close> and on a capacity no power of two can hold.\<close>

definition bcast_open :: "usize \<Rightarrow> usize \<Rightarrow> ('a Bcast \<times> Publisher \<times> Reader) option" where
  "bcast_open capacity max_readers =
     (if 1 \<le> max_readers \<and> max_readers \<le> 64
      then do { c \<leftarrow> checked_next_power_of_two capacity;
                Some (\<lparr>bbuf = replicate (unat c) None, bmask = c - 1, bcap = c, bw = 0, readers = 1, owned = 1,
                       cursors = replicate (unat max_readers) 0, bproducer_gone = False\<rparr>,
                      \<lparr>pw = 0, min_cache = 0\<rparr>, \<lparr>rbit = 0, rpos = 0, suspended = False\<rparr>) }
      else None)"

section \<open>Membership\<close>

definition activate_reader :: "'a Bcast \<Rightarrow> nat \<Rightarrow> (usize \<times> 'a Bcast) option" where
  "activate_reader sh b =
     (if b < length (cursors sh)
      then let now = bw sh
           in Some (now, sh\<lparr>cursors := (cursors sh)[b := now], readers := readers sh OR bit_mask b\<rparr>)
      else None)"

text \<open>\<open>slowest\<close>: the cursor of the active reader with the largest lag, or \<open>w\<close> when nobody lags.\<close>

fun slowest_loop :: "u64 \<Rightarrow> usize \<Rightarrow> nat \<Rightarrow> usize list \<Rightarrow> usize \<Rightarrow> usize \<Rightarrow> usize" where
  "slowest_loop bits w i [] mn max_lag = mn"
| "slowest_loop bits w i (c # cs) mn max_lag =
     (if bits AND bit_mask i \<noteq> 0 \<and> w - c > max_lag
      then slowest_loop bits w (i + 1) cs c (w - c)
      else slowest_loop bits w (i + 1) cs mn max_lag)"

definition slowest :: "'a Bcast \<Rightarrow> usize \<Rightarrow> usize" where
  "slowest sh w = slowest_loop (readers sh) w 0 (cursors sh) w 0"

definition refresh_slowest :: "'a Bcast \<Rightarrow> Publisher \<Rightarrow> Publisher" where
  "refresh_slowest sh p = p\<lparr>min_cache := slowest sh (pw p)\<rparr>"

text \<open>\<open>subscribe\<close>: the lowest cursor slot that nobody owns; the exchange meets no interference here.\<close>

definition bcast_subscribe :: "'a Bcast \<Rightarrow> (Reader option \<times> 'a Bcast) option" where
  "bcast_subscribe sh =
     (case List.find (\<lambda>i. owned sh AND bit_mask i = 0) [0..<length (cursors sh)] of
        None \<Rightarrow> Some (None, sh)
      | Some free \<Rightarrow>
          do { (now, sh) \<leftarrow> activate_reader (sh\<lparr>owned := owned sh OR bit_mask free\<rparr>) free;
               Some (Some \<lparr>rbit = free, rpos = now, suspended = False\<rparr>, sh) })"

section \<open>Publishing\<close>

text \<open>
  Writing one slot: from the second lap on the old value is moved out first (\<open>assume_init_read\<close>), and it
  is the first result, which the caller destroys after publication.
\<close>

definition bcast_write :: "'a Bcast \<Rightarrow> usize \<Rightarrow> 'a \<Rightarrow> ('a option \<times> 'a Bcast) option" where
  "bcast_write sh position v =
     (let i = unat (position AND bmask sh)
      in if i < length (bbuf sh)
         then do { replaced \<leftarrow> (if position \<ge> bcap sh then map_option Some (bbuf sh ! i) else Some None);
                   Some (replaced, sh\<lparr>bbuf := (bbuf sh)[i := Some v]\<rparr>) }
         else None)"

definition bcast_try_send ::
  "'a Bcast \<Rightarrow> Publisher \<Rightarrow> 'a \<Rightarrow> ((unit, 'a) Result \<times> 'a option \<times> 'a Bcast \<times> Publisher) option" where
  "bcast_try_send sh p v =
     (let p = (if pw p - min_cache p \<ge> bcap sh then refresh_slowest sh p else p)
      in if pw p - min_cache p \<ge> bcap sh then Some (Err v, None, sh, p)
         else do { (replaced, sh) \<leftarrow> bcast_write sh (pw p) v;
                   let p = p\<lparr>pw := pw p + 1\<rparr>;
                   Some (Ok (), replaced, sh\<lparr>bw := pw p\<rparr>, p) })"

fun bcast_send ::
  "('a Bcast \<Rightarrow> 'a Bcast) list \<Rightarrow> 'a Bcast \<Rightarrow> Publisher \<Rightarrow> 'a \<Rightarrow> (('a option \<times> 'a Bcast \<times> Publisher) spin) option" where
  "bcast_send envs sh p v =
     do { (r, replaced, sh, p) \<leftarrow> bcast_try_send sh p v;
          case r of Ok _ \<Rightarrow> Some (Done (replaced, sh, p))
          | Err v \<Rightarrow> (case envs of [] \<Rightarrow> Some Spinning | env # envs \<Rightarrow> bcast_send envs (env sh) p v) }"

text \<open>\<open>PublishCommit::publish\<close>, which its \<open>Drop\<close> runs too, and \<open>advance\<close>.\<close>

definition commit_publish :: "'a Bcast \<Rightarrow> Publisher \<Rightarrow> bool \<Rightarrow> 'a Bcast" where
  "commit_publish sh p dirty = (if dirty then sh\<lparr>bw := pw p\<rparr> else sh)"

text \<open>The waiting loop of \<open>send_batch\<close>; committing the prefix first leaves the guard clean.\<close>

fun gate_wait ::
  "('a Bcast \<Rightarrow> 'a Bcast) list \<Rightarrow> 'a Bcast \<Rightarrow> Publisher \<Rightarrow> bool
     \<Rightarrow> ('a Bcast \<times> Publisher \<times> bool \<times> ('a Bcast \<Rightarrow> 'a Bcast) list) spin" where
  "gate_wait envs sh p dirty =
     (if pw p - min_cache p \<ge> bcap sh
      then let sh = commit_publish sh p dirty; p = refresh_slowest sh p
           in if pw p - min_cache p < bcap sh then Done (sh, p, False, envs)
              else (case envs of [] \<Rightarrow> Spinning | env # envs \<Rightarrow> gate_wait envs (env sh) p False)
      else Done (sh, p, dirty, envs))"

text \<open>
  \<open>send_batch\<close>: the iterator yields \<open>vs\<close> and then ends, or panics when \<open>panics\<close>; in both cases the guard
  commits what was written. The first result lists the values that were replaced, in order.
\<close>

fun send_batch_loop ::
  "('a Bcast \<Rightarrow> 'a Bcast) list \<Rightarrow> 'a Bcast \<Rightarrow> Publisher \<Rightarrow> bool \<Rightarrow> 'a list \<Rightarrow> bool \<Rightarrow> 'a list
     \<Rightarrow> ('a list \<times> unit control \<times> 'a Bcast \<times> Publisher) spin option" where
  "send_batch_loop envs sh p dirty [] panics dropped =
     Some (Done (dropped, if panics then Unwind else Return (), commit_publish sh p dirty, p))"
| "send_batch_loop envs sh p dirty (v # vs) panics dropped =
     (case gate_wait envs sh p dirty of
        Spinning \<Rightarrow> Some Spinning
      | Done (sh, p, dirty, envs) \<Rightarrow>
          do { (replaced, sh) \<leftarrow> bcast_write sh (pw p) v;
               send_batch_loop envs sh (p\<lparr>pw := pw p + 1\<rparr>) True vs panics
                 (dropped @ (case replaced of None \<Rightarrow> [] | Some x \<Rightarrow> [x])) })"

definition bcast_send_batch ::
  "('a Bcast \<Rightarrow> 'a Bcast) list \<Rightarrow> 'a Bcast \<Rightarrow> Publisher \<Rightarrow> 'a list \<Rightarrow> bool
     \<Rightarrow> ('a list \<times> unit control \<times> 'a Bcast \<times> Publisher) spin option" where
  "bcast_send_batch envs sh p vs panics = send_batch_loop envs sh p False vs panics []"

definition drop_publisher :: "'a Bcast \<Rightarrow> 'a Bcast" where
  "drop_publisher sh = sh\<lparr>bproducer_gone := True\<rparr>"

section \<open>Reading\<close>

definition store_cursor :: "'a Bcast \<Rightarrow> Reader \<Rightarrow> 'a Bcast option" where
  "store_cursor sh rd =
     (if rbit rd < length (cursors sh) then Some (sh\<lparr>cursors := (cursors sh)[rbit rd := rpos rd]\<rparr>) else None)"

definition bcast_clone :: "'a Bcast \<Rightarrow> usize \<Rightarrow> 'a option" where
  "bcast_clone sh position =
     (let i = unat (position AND bmask sh) in if i < length (bbuf sh) then bbuf sh ! i else None)"

definition bcast_try_recv :: "'a Bcast \<Rightarrow> Reader \<Rightarrow> ('a option \<times> 'a Bcast \<times> Reader) option" where
  "bcast_try_recv sh rd =
     (if suspended rd then Some (None, sh, rd)
      else let w = bw sh
           in if rpos rd = w then Some (None, sh, rd)
              else if w - rpos rd > bcap sh
              then do { let rd = rd\<lparr>rpos := w\<rparr>; sh \<leftarrow> store_cursor sh rd; Some (None, sh, rd) }
              else do { v \<leftarrow> bcast_clone sh (rpos rd);
                        let rd = rd\<lparr>rpos := rpos rd + 1\<rparr>;
                        sh \<leftarrow> store_cursor sh rd;
                        Some (Some v, sh, rd) })"

text \<open>The loop of \<open>drain\<close>: the position advances before user code runs; \<open>False\<close> reports a panic.\<close>

fun drain_reads ::
  "nat \<Rightarrow> 'a Bcast \<Rightarrow> usize \<Rightarrow> ('a, 's) callback \<Rightarrow> 's \<Rightarrow> (bool \<times> usize \<times> 's) option" where
  "drain_reads 0 sh position f s = Some (True, position, s)"
| "drain_reads (Suc n) sh position f s =
     do { v \<leftarrow> bcast_clone sh position;
          let position = position + 1;
          (case f v s of (True, s) \<Rightarrow> drain_reads n sh position f s | (False, s) \<Rightarrow> Some (False, position, s)) }"

definition bcast_drain ::
  "'a Bcast \<Rightarrow> Reader \<Rightarrow> usize \<Rightarrow> ('a, 's) callback \<Rightarrow> 's \<Rightarrow> (nat control \<times> 'a Bcast \<times> Reader \<times> 's) option" where
  "bcast_drain sh rd mx f s =
     (if suspended rd then Some (Return 0, sh, rd, s)
      else let w = bw sh
           in if rpos rd = w then Some (Return 0, sh, rd, s)
              else if w - rpos rd > bcap sh
              then do { let rd = rd\<lparr>rpos := w\<rparr>; sh \<leftarrow> store_cursor sh rd; Some (Return 0, sh, rd, s) }
              else do { let n = unat (min (w - rpos rd) mx);
                        (ok, position, s) \<leftarrow> drain_reads n sh (rpos rd) f s;
                        let rd = rd\<lparr>rpos := position\<rparr>;
                        sh \<leftarrow> store_cursor sh rd;
                        Some (if ok then Return n else Unwind, sh, rd, s) })"

definition bcast_is_disconnected :: "'a Bcast \<Rightarrow> Reader \<Rightarrow> bool" where
  "bcast_is_disconnected sh rd \<longleftrightarrow> bproducer_gone sh \<and> rpos rd = bw sh"

text \<open>Rounds that deliver are not pauses, so \<open>for_each\<close> carries a bound of its own.\<close>

fun bcast_for_each ::
  "nat \<Rightarrow> ('a Bcast \<Rightarrow> 'a Bcast) list \<Rightarrow> 'a Bcast \<Rightarrow> Reader \<Rightarrow> usize \<Rightarrow> ('a, 's) callback \<Rightarrow> 's
     \<Rightarrow> (unit spin control \<times> 'a Bcast \<times> Reader \<times> 's) option" where
  "bcast_for_each 0 envs sh rd b f s = None"
| "bcast_for_each (Suc fuel) envs sh rd b f s =
     do { (r, sh, rd, s) \<leftarrow> bcast_drain sh rd (max b 1) f s;
          case r of Unwind \<Rightarrow> Some (Unwind, sh, rd, s)
          | Return n \<Rightarrow>
              if n > 0 then bcast_for_each fuel envs sh rd b f s
              else if bcast_is_disconnected sh rd then Some (Return (Done ()), sh, rd, s)
              else (case envs of [] \<Rightarrow> Some (Return Spinning, sh, rd, s)
                    | env # envs \<Rightarrow> bcast_for_each fuel envs (env sh) rd b f s) }"

fun bcast_recv ::
  "('a Bcast \<Rightarrow> 'a Bcast) list \<Rightarrow> 'a Bcast \<Rightarrow> Reader \<Rightarrow> ('a option \<times> 'a Bcast \<times> Reader) spin option" where
  "bcast_recv envs sh rd =
     do { (v, sh, rd) \<leftarrow> bcast_try_recv sh rd;
          case v of Some v \<Rightarrow> Some (Done (Some v, sh, rd))
          | None \<Rightarrow>
              if suspended rd then Some (Done (None, sh, rd))
              else if bproducer_gone sh \<and> rpos rd = bw sh then Some (Done (None, sh, rd))
              else (case envs of [] \<Rightarrow> Some Spinning | env # envs \<Rightarrow> bcast_recv envs (env sh) rd) }"

definition bcast_suspend :: "'a Bcast \<Rightarrow> Reader \<Rightarrow> 'a Bcast \<times> Reader" where
  "bcast_suspend sh rd =
     (if \<not> suspended rd
      then (sh\<lparr>readers := readers sh AND NOT (bit_mask (rbit rd))\<rparr>, rd\<lparr>suspended := True\<rparr>) else (sh, rd))"

definition bcast_resume :: "'a Bcast \<Rightarrow> Reader \<Rightarrow> ('a Bcast \<times> Reader) option" where
  "bcast_resume sh rd =
     (if suspended rd
      then do { (now, sh) \<leftarrow> activate_reader sh (rbit rd); Some (sh, rd\<lparr>rpos := now, suspended := False\<rparr>) }
      else Some (sh, rd))"

text \<open>Dropping a reader releases its gate and then its cursor slot.\<close>

definition drop_reader :: "'a Bcast \<Rightarrow> Reader \<Rightarrow> 'a Bcast" where
  "drop_reader sh rd =
     (let sh = sh\<lparr>readers := readers sh AND NOT (bit_mask (rbit rd))\<rparr>
      in sh\<lparr>owned := owned sh AND NOT (bit_mask (rbit rd))\<rparr>)"

section \<open>Teardown\<close>

text \<open>\<open>Drop for Shared\<close>: the values whose destructors run; \<open>None\<close> is a destructor on an empty slot.\<close>

fun bcast_drop_loop :: "nat \<Rightarrow> usize \<Rightarrow> 'a Bcast \<Rightarrow> ('a list \<times> 'a Bcast) option" where
  "bcast_drop_loop 0 s sh = Some ([], sh)"
| "bcast_drop_loop (Suc n) s sh =
     (let i = unat (s AND bmask sh)
      in if i < length (bbuf sh)
         then do { v \<leftarrow> bbuf sh ! i;
                   (vs, sh) \<leftarrow> bcast_drop_loop n (s + 1) (sh\<lparr>bbuf := (bbuf sh)[i := None]\<rparr>);
                   Some (v # vs, sh) }
         else None)"

definition drop_bcast :: "'a Bcast \<Rightarrow> ('a list \<times> 'a Bcast) option" where
  "drop_bcast sh = (let w = bw sh; live = min w (bcap sh) in bcast_drop_loop (unat live) (w - live) sh)"

section \<open>What the shared ring holds\<close>

lemma bit_mask_and: "bits AND bit_mask i \<noteq> 0 \<longleftrightarrow> bit bits i"
proof -
  have "bit (bits AND bit_mask i) j \<longleftrightarrow> j = i \<and> bit bits i" for j
    using bit_imp_le_length [of bits i] by (auto simp: bit_mask_def bit_and_iff bit_simps)
  then show ?thesis by (metis bit_0_eq bit_eqI bot_apply bot_bool_def)
qed

lemma bit_mask_bit: "bit (bit_mask i) j \<longleftrightarrow> j = i \<and> i < 64"
  by (auto simp: bit_mask_def bit_simps)

text \<open>
  \<open>hist\<close> is everything ever written. The ring holds the last \<open>2 ^ k\<close> of it, and the slots beyond a first
  incomplete lap own nothing.
\<close>

definition bc_rep :: "nat \<Rightarrow> 'a Bcast \<Rightarrow> 'a list \<Rightarrow> bool" where
  "bc_rep k sh hist \<longleftrightarrow> k \<le> 63 \<and> bcap sh = of_nat (2 ^ k) \<and> bmask sh = of_nat (2 ^ k) - 1 \<and> length (bbuf sh) = 2 ^ k
     \<and> length (cursors sh) \<le> 64
     \<and> (\<forall>s<length hist. length hist \<le> s + 2 ^ k \<longrightarrow> bbuf sh ! (s mod 2 ^ k) = Some (hist ! s))
     \<and> (\<forall>i. length hist \<le> i \<and> i < 2 ^ k \<longrightarrow> bbuf sh ! i = None)"

lemma bc_rep_D:
  assumes "bc_rep k sh hist"
  shows "k \<le> 63" "unat (bcap sh) = 2 ^ k" "length (bbuf sh) = 2 ^ k" "(2 :: nat) ^ k < 2 ^ 64"
    "unat (of_nat s AND bmask sh) = s mod 2 ^ k"
    "s < length hist \<Longrightarrow> length hist \<le> s + 2 ^ k \<Longrightarrow> bbuf sh ! (s mod 2 ^ k) = Some (hist ! s)"
proof -
  show k: "k \<le> 63" using assms by (simp add: bc_rep_def)
  then show "unat (bcap sh) = 2 ^ k" using assms unat_of_nat_pow2 [of k] by (simp add: bc_rep_def)
  show "(2 :: nat) ^ k < 2 ^ 64" using power_strict_increasing [of k 64 "2 :: nat"] k by linarith
  show "unat (of_nat s AND bmask sh) = s mod 2 ^ k" using cursor_index [OF k, of s] assms by (simp add: bc_rep_def)
qed (use assms in \<open>auto simp: bc_rep_def\<close>)

lemma bc_rep_cong: "bc_rep k sh hist \<Longrightarrow> bbuf sh' = bbuf sh \<Longrightarrow> bcap sh' = bcap sh \<Longrightarrow> bmask sh' = bmask sh
    \<Longrightarrow> length (cursors sh') = length (cursors sh) \<Longrightarrow> bc_rep k sh' hist"
  by (simp add: bc_rep_def)

lemma bcast_clone_spec:
  assumes "bc_rep k sh hist" "s < length hist" "length hist \<le> s + 2 ^ k"
  shows "bcast_clone sh (of_nat s) = Some (hist ! s)"
  using bc_rep_D [OF assms(1)] assms by (simp add: bcast_clone_def Let_def)

lemma mod_window:
  fixes s t c :: nat
  assumes "s mod c = t mod c" "s \<le> t" "t < s + c"
  shows "s = t"
  using mod_neq_of_window [of s t c] assms by (cases "s = t") auto

lemma bcast_write_spec:
  assumes "bc_rep k sh hist"
  shows "\<exists>replaced sh'. bcast_write sh (of_nat (length hist)) v = Some (replaced, sh') \<and> bc_rep k sh' (hist @ [v])
     \<and> cursors sh' = cursors sh \<and> readers sh' = readers sh \<and> owned sh' = owned sh \<and> bw sh' = bw sh
     \<and> bproducer_gone sh' = bproducer_gone sh \<and> bcap sh' = bcap sh
     \<and> (length hist < 2 ^ 64 \<longrightarrow> replaced = (if 2 ^ k \<le> length hist then Some (hist ! (length hist - 2 ^ k)) else None))"
proof -
  let ?T = "length hist" and ?c = "(2 :: nat) ^ k"
  note D = bc_rep_D [OF assms]
  let ?i = "?T mod ?c" and ?pos = "of_nat ?T :: usize"
  have i: "?i < length (bbuf sh)" using D(3) by simp
  have ge: "bcap sh \<le> ?pos \<longleftrightarrow> ?c \<le> unat ?pos" using D(2) by (simp add: word_le_nat_alt)
  have old: "bbuf sh ! ?i = Some (hist ! (?T - ?c))" if "?c \<le> ?T"
  proof -
    have "?T - ?c < ?T" using that zero_less_power [of "2 :: nat" k] by linarith
    then show ?thesis using D(6) [of "?T - ?c"] that by (simp add: le_mod_geq)
  qed
  have le: "unat ?pos \<le> ?T" by (simp add: unat_of_nat)
  let ?sh = "sh\<lparr>bbuf := (bbuf sh)[?i := Some v]\<rparr>"
  have rep: "bc_rep k ?sh (hist @ [v])"
  proof -
    have a: "(bbuf sh)[?i := Some v] ! (s mod ?c) = Some ((hist @ [v]) ! s)" if s: "s < ?T + 1" "?T + 1 \<le> s + ?c" for s
    proof (cases "s = ?T")
      case False
      then have "s mod ?c \<noteq> ?i" using mod_window [of s ?c ?T] s by auto
      then show ?thesis using False s D(6) [of s] by (simp add: nth_append)
    qed (use i in simp)
    have b: "(bbuf sh)[?i := Some v] ! j = None" if "?T + 1 \<le> j" "j < ?c" for j
      using that assms by (auto simp: bc_rep_def)
    show ?thesis using assms a b by (simp add: bc_rep_def)
  qed
  show ?thesis
  proof (cases "bcap sh \<le> ?pos")
    case True
    then have "?c \<le> ?T" using ge le by linarith
    then show ?thesis using True old i D(5) rep by (simp add: bcast_write_def Let_def)
  next
    case False
    then have "?T < 2 ^ 64 \<longrightarrow> ?T < ?c" using ge unat_of_nat_usize [of ?T] by auto
    then show ?thesis using False i D(5) rep by (auto simp: bcast_write_def Let_def)
  qed
qed

text \<open>
  The gating state at ghost time \<open>T\<close>: every reader with its bit set has a cursor \<open>P b\<close> that the publisher
  cannot have lapped.
\<close>

definition gated :: "nat \<Rightarrow> 'a Bcast \<Rightarrow> nat \<Rightarrow> (nat \<Rightarrow> nat) \<Rightarrow> bool" where
  "gated k sh T P \<longleftrightarrow> (\<forall>b. bit (readers sh) b \<longrightarrow> b < length (cursors sh) \<and> cursors sh ! b = of_nat (P b) \<and> P b \<le> T \<and> T \<le> P b + 2 ^ k)"

lemma slowest_loop_spec:
  assumes "\<And>j. j < length cs \<Longrightarrow> bit bits (i + j) \<Longrightarrow> cs ! j = of_nat (P (i + j)) \<and> P (i + j) \<le> T \<and> T - P (i + j) < 2 ^ 64"
    and "m \<le> T" "T - m < 2 ^ 64"
  shows "\<exists>m'. slowest_loop bits (of_nat T) i cs (of_nat m) (of_nat T - of_nat m) = of_nat m' \<and> m' \<le> m
     \<and> (\<forall>j<length cs. bit bits (i + j) \<longrightarrow> m' \<le> P (i + j))
     \<and> (m' = m \<or> (\<exists>j<length cs. bit bits (i + j) \<and> m' = P (i + j)))"
  using assms
proof (induction cs arbitrary: i m)
  case (Cons c cs)
  have step: "cs ! j = of_nat (P (i + 1 + j)) \<and> P (i + 1 + j) \<le> T \<and> T - P (i + 1 + j) < 2 ^ 64" if "j < length cs" "bit bits (i + 1 + j)" for j
    using Cons.prems(1) [of "Suc j"] that by simp
  show ?case
  proof (cases "bit bits i \<and> P i < m")
    case True
    then have c: "c = of_nat (P i)" "P i \<le> T" "T - P i < 2 ^ 64" using Cons.prems(1) [of 0] by auto
    have gt: "of_nat T - c > of_nat T - (of_nat m :: usize)"
      using unat_cursor_diff [OF c(2,3)] unat_cursor_diff [OF Cons.prems(2,3)] True Cons.prems(2)
      by (auto simp: word_less_nat_alt c(1))
    obtain m' where m': "slowest_loop bits (of_nat T) (i + 1) cs (of_nat (P i)) (of_nat T - of_nat (P i)) = of_nat m'" "m' \<le> P i"
      "\<forall>j<length cs. bit bits (i + 1 + j) \<longrightarrow> m' \<le> P (i + 1 + j)" "m' = P i \<or> (\<exists>j<length cs. bit bits (i + 1 + j) \<and> m' = P (i + 1 + j))"
      using Cons.IH [OF step c(2,3)] by blast
    show ?thesis using True gt m' c(1)
      by (intro exI [of _ m']) (auto simp: bit_mask_and All_less_Suc2 Ex_less_Suc2)
  next
    case False
    have ng: "\<not> (bits AND bit_mask i \<noteq> 0 \<and> of_nat T - c > of_nat T - (of_nat m :: usize))"
    proof
      assume a: "bits AND bit_mask i \<noteq> 0 \<and> of_nat T - c > of_nat T - (of_nat m :: usize)"
      then have c: "c = of_nat (P i)" "P i \<le> T" "T - P i < 2 ^ 64" "m \<le> P i" using Cons.prems(1) [of 0] False by (auto simp: bit_mask_and)
      then show False using a unat_cursor_diff [OF c(2,3)] unat_cursor_diff [OF Cons.prems(2,3)]
        by (auto simp: word_less_nat_alt)
    qed
    obtain m' where m': "slowest_loop bits (of_nat T) (i + 1) cs (of_nat m) (of_nat T - of_nat m) = of_nat m'" "m' \<le> m"
      "\<forall>j<length cs. bit bits (i + 1 + j) \<longrightarrow> m' \<le> P (i + 1 + j)" "m' = m \<or> (\<exists>j<length cs. bit bits (i + 1 + j) \<and> m' = P (i + 1 + j))"
      using Cons.IH [OF step Cons.prems(2,3)] by blast
    show ?thesis using ng m' False
      by (intro exI [of _ m']) (auto simp: All_less_Suc2 Ex_less_Suc2)
  qed
qed simp

lemma slowest_spec:
  assumes "bc_rep k sh hist" "gated k sh T P"
  shows "\<exists>m. slowest sh (of_nat T) = of_nat m \<and> m \<le> T \<and> T \<le> m + 2 ^ k \<and> (\<forall>b. bit (readers sh) b \<longrightarrow> m \<le> P b)
     \<and> (m = T \<or> (\<exists>b. bit (readers sh) b \<and> m = P b))"
proof -
  note k = bc_rep_D(4) [OF assms(1)]
  have "\<exists>m. slowest_loop (readers sh) (of_nat T) 0 (cursors sh) (of_nat T) (of_nat T - of_nat T) = of_nat m \<and> m \<le> T
     \<and> (\<forall>j<length (cursors sh). bit (readers sh) (0 + j) \<longrightarrow> m \<le> P (0 + j))
     \<and> (m = T \<or> (\<exists>j<length (cursors sh). bit (readers sh) (0 + j) \<and> m = P (0 + j)))"
    by (rule slowest_loop_spec) (use assms(2) k in \<open>auto simp: gated_def\<close>)
  then show ?thesis using assms(2) by (auto simp: gated_def slowest_def)
qed

text \<open>The publisher's cached minimum is a position that no active reader is behind.\<close>

definition pub_ok :: "nat \<Rightarrow> 'a Bcast \<Rightarrow> Publisher \<Rightarrow> nat \<Rightarrow> (nat \<Rightarrow> nat) \<Rightarrow> bool" where
  "pub_ok k sh p T P \<longleftrightarrow> pw p = of_nat T
     \<and> (\<exists>m. min_cache p = of_nat m \<and> m \<le> T \<and> T \<le> m + 2 ^ k \<and> (\<forall>b. bit (readers sh) b \<longrightarrow> m \<le> P b))"

lemma refresh_ok:
  assumes "bc_rep k sh hist" "gated k sh T P" "pub_ok k sh p T P"
  shows "pub_ok k sh (refresh_slowest sh p) T P"
    "pw (refresh_slowest sh p) - min_cache (refresh_slowest sh p) \<ge> bcap sh \<Longrightarrow> \<exists>b. bit (readers sh) b \<and> T = P b + 2 ^ k"
proof -
  obtain m where m: "slowest sh (of_nat T) = of_nat m" "m \<le> T" "T \<le> m + 2 ^ k" "\<forall>b. bit (readers sh) b \<longrightarrow> m \<le> P b"
     "m = T \<or> (\<exists>b. bit (readers sh) b \<and> m = P b)"
    using slowest_spec [OF assms(1,2)] by blast
  have w: "pw p = of_nat T" using assms(3) by (simp add: pub_ok_def)
  show "pub_ok k sh (refresh_slowest sh p) T P" using m w by (auto simp: pub_ok_def refresh_slowest_def)
  assume "pw (refresh_slowest sh p) - min_cache (refresh_slowest sh p) \<ge> bcap sh"
  then have "2 ^ k \<le> unat (of_nat T - of_nat m :: usize)"
    using bc_rep_D(2) [OF assms(1)] w m(1) by (simp add: refresh_slowest_def word_le_nat_alt)
  moreover have "T - m < 2 ^ 64" using m(3) bc_rep_D(4) [OF assms(1)] by linarith
  ultimately have "2 ^ k \<le> T - m" using unat_cursor_diff [OF m(2)] by simp
  then have "T = m + 2 ^ k" using m(2,3) by linarith
  moreover have "0 < (2 :: nat) ^ k" by simp
  ultimately show "\<exists>b. bit (readers sh) b \<and> T = P b + 2 ^ k" using m(5) by auto
qed

lemma pub_room:
  assumes "bc_rep k sh hist" "pub_ok k sh p T P" "\<not> pw p - min_cache p \<ge> bcap sh"
  shows "\<forall>b. bit (readers sh) b \<longrightarrow> T + 1 \<le> P b + 2 ^ k" "\<exists>m. min_cache p = of_nat m \<and> m \<le> T \<and> T + 1 \<le> m + 2 ^ k \<and> (\<forall>b. bit (readers sh) b \<longrightarrow> m \<le> P b)"
proof -
  obtain m where m: "min_cache p = of_nat m" "m \<le> T" "T \<le> m + 2 ^ k" "\<forall>b. bit (readers sh) b \<longrightarrow> m \<le> P b" and w: "pw p = of_nat T"
    using assms(2) by (auto simp: pub_ok_def)
  have "T - m < 2 ^ 64" using m(3) bc_rep_D(4) [OF assms(1)] by linarith
  then have "T - m < 2 ^ k" using assms(3) bc_rep_D(2) [OF assms(1)] unat_cursor_diff [OF m(2)] m(1) w
    by (simp add: word_le_nat_alt)
  then have "T + 1 \<le> m + 2 ^ k" using m(2) by linarith
  then show "\<exists>m. min_cache p = of_nat m \<and> m \<le> T \<and> T + 1 \<le> m + 2 ^ k \<and> (\<forall>b. bit (readers sh) b \<longrightarrow> m \<le> P b)" using m by blast
  show "\<forall>b. bit (readers sh) b \<longrightarrow> T + 1 \<le> P b + 2 ^ k" using \<open>T + 1 \<le> m + 2 ^ k\<close> m(4) by fastforce
qed

lemma bcast_try_send_spec:
  assumes "bc_rep k sh hist" "gated k sh (length hist) P" "pub_ok k sh p (length hist) P" "bw sh = of_nat (length hist)"
  shows "\<exists>r replaced sh' p'. bcast_try_send sh p v = Some (r, replaced, sh', p')
     \<and> (case r of
          Err v' \<Rightarrow> v' = v \<and> sh' = sh \<and> replaced = None \<and> pub_ok k sh p' (length hist) P
             \<and> (\<exists>b. bit (readers sh) b \<and> length hist = P b + 2 ^ k)
        | Ok _ \<Rightarrow> bc_rep k sh' (hist @ [v]) \<and> gated k sh' (length hist + 1) P \<and> pub_ok k sh' p' (length hist + 1) P
             \<and> bw sh' = of_nat (length hist + 1) \<and> cursors sh' = cursors sh \<and> readers sh' = readers sh
             \<and> owned sh' = owned sh \<and> bproducer_gone sh' = bproducer_gone sh
             \<and> (length hist < 2 ^ 64 \<longrightarrow> replaced = (if 2 ^ k \<le> length hist then Some (hist ! (length hist - 2 ^ k)) else None)))"
proof -
  let ?T = "length hist"
  define p1 where "p1 = (if pw p - min_cache p \<ge> bcap sh then refresh_slowest sh p else p)"
  have p1: "pub_ok k sh p1 ?T P" using refresh_ok(1) [OF assms(1-3)] assms(3) by (simp add: p1_def)
  show ?thesis
  proof (cases "pw p1 - min_cache p1 \<ge> bcap sh")
    case True
    then have "p1 = refresh_slowest sh p" by (auto simp: p1_def split: if_splits)
    then have "\<exists>b. bit (readers sh) b \<and> ?T = P b + 2 ^ k" using refresh_ok(2) [OF assms(1-3)] True by simp
    moreover have "bcast_try_send sh p v = Some (Err v, None, sh, p1)"
      using True by (simp add: bcast_try_send_def p1_def [symmetric])
    ultimately show ?thesis using p1 by auto
  next
    case False
    have w: "pw p1 = of_nat ?T" using p1 by (simp add: pub_ok_def)
    note room = pub_room [OF assms(1) p1 False]
    obtain replaced sh1 where wr: "bcast_write sh (of_nat ?T) v = Some (replaced, sh1)" "bc_rep k sh1 (hist @ [v])"
      "cursors sh1 = cursors sh" "readers sh1 = readers sh" "owned sh1 = owned sh" "bproducer_gone sh1 = bproducer_gone sh"
      "length hist < 2 ^ 64 \<longrightarrow> replaced = (if 2 ^ k \<le> length hist then Some (hist ! (length hist - 2 ^ k)) else None)"
      using bcast_write_spec [OF assms(1), of v] by blast
    let ?p = "p1\<lparr>pw := pw p1 + 1\<rparr>" and ?sh = "sh1\<lparr>bw := pw p1 + 1\<rparr>"
    have e: "bcast_try_send sh p v = Some (Ok (), replaced, ?sh, ?p)"
      using False wr(1) w by (simp add: bcast_try_send_def p1_def [symmetric])
    have "bc_rep k ?sh (hist @ [v])" using wr(2) by (rule bc_rep_cong) simp_all
    moreover have "gated k ?sh (?T + 1) P" using assms(2) wr(3,4) room(1) by (auto simp: gated_def)
    moreover have "pub_ok k ?sh ?p (?T + 1) P" using room(2) wr(4) w by (auto simp: pub_ok_def)
    ultimately show ?thesis using e wr w
      by - (rule exI [of _ "Ok ()"], rule exI [of _ replaced], rule exI [of _ ?sh], rule exI [of _ ?p], simp)
  qed
qed

text \<open>A reader whose gate is up, at ghost position \<open>p\<close>.\<close>

definition reading :: "nat \<Rightarrow> 'a Bcast \<Rightarrow> Reader \<Rightarrow> nat \<Rightarrow> nat \<Rightarrow> bool" where
  "reading k sh rd T p \<longleftrightarrow> \<not> suspended rd \<and> rbit rd < length (cursors sh) \<and> rpos rd = of_nat p \<and> p \<le> T \<and> T \<le> p + 2 ^ k"

lemma reading_lag:
  assumes "bc_rep k sh hist" "reading k sh rd T p" "bw sh = of_nat T"
  shows "rpos rd = bw sh \<longleftrightarrow> p = T" "\<not> bw sh - rpos rd > bcap sh" "unat (bw sh - rpos rd) = T - p"
proof -
  have p: "p \<le> T" "T - p < 2 ^ 64" "rpos rd = of_nat p"
    using assms(2) bc_rep_D(4) [OF assms(1)] by (auto simp: reading_def)
  show u: "unat (bw sh - rpos rd) = T - p" using unat_cursor_diff [OF p(1,2)] assms(3) p(3) by simp
  show "rpos rd = bw sh \<longleftrightarrow> p = T" using cursor_eq_iff [OF p(1,2)] assms(3) p(3) by auto
  show "\<not> bw sh - rpos rd > bcap sh"
    using u assms(2) bc_rep_D(2) [OF assms(1)] by (auto simp: reading_def word_less_nat_alt)
qed

lemma bcast_try_recv_spec:
  assumes "bc_rep k sh hist" "reading k sh rd (length hist) p" "bw sh = of_nat (length hist)"
  shows "bcast_try_recv sh rd = (if p = length hist then Some (None, sh, rd)
     else Some (Some (hist ! p), sh\<lparr>cursors := (cursors sh)[rbit rd := of_nat (p + 1)]\<rparr>, rd\<lparr>rpos := of_nat (p + 1)\<rparr>))"
proof (cases "p = length hist")
  case False
  then have "bcast_clone sh (of_nat p) = Some (hist ! p)"
    using assms(2) by (intro bcast_clone_spec [OF assms(1)]) (auto simp: reading_def)
  then show ?thesis using reading_lag [OF assms] False assms(2)
    by (simp add: bcast_try_recv_def reading_def store_cursor_def add.commute)
qed (use reading_lag [OF assms] in \<open>simp add: bcast_try_recv_def\<close>)

lemma drain_reads_spec:
  assumes "bc_rep k sh hist" "p + n \<le> length hist" "length hist \<le> p + 2 ^ k"
    and "feed f (take n (drop p hist)) s = (fin, ok, s')"
  shows "drain_reads n sh (of_nat p) f s = Some (ok, of_nat (p + fin), s')"
  using assms(2-4)
proof (induction n arbitrary: p s fin)
  case 0
  then show ?case by simp
next
  case (Suc n)
  have c: "bcast_clone sh (of_nat p) = Some (hist ! p)" using Suc.prems by (intro bcast_clone_spec [OF assms(1)]) auto
  have d: "take (Suc n) (drop p hist) = hist ! p # take n (drop (Suc p) hist)"
    using Suc.prems(1) by (simp add: Cons_nth_drop_Suc [symmetric])
  obtain b s1 where f: "f (hist ! p) s = (b, s1)" by (cases "f (hist ! p) s")
  show ?case
  proof (cases b)
    case True
    obtain fin1 where "feed f (take n (drop (Suc p) hist)) s1 = (fin1, ok, s')" "fin = Suc fin1"
      using Suc.prems(3) True f unfolding d by (auto split: prod.splits)
    then show ?thesis using Suc.IH [of "Suc p" s1 fin1] Suc.prems(1,2) c f True by (simp add: add.commute add.left_commute)
  next
    case False
    then show ?thesis using Suc.prems(3) c f unfolding d by (auto simp: add.commute)
  qed
qed

lemma bcast_drain_spec:
  assumes "bc_rep k sh hist" "reading k sh rd (length hist) p" "bw sh = of_nat (length hist)"
    and n: "n = min (length hist - p) (unat mx)" and "feed f (take n (drop p hist)) s = (fin, ok, s')"
  shows "\<exists>sh'. bcast_drain sh rd mx f s = Some (if ok then Return n else Unwind, sh', rd\<lparr>rpos := of_nat (p + fin)\<rparr>, s')
     \<and> sh' = (if p = length hist then sh else sh\<lparr>cursors := (cursors sh)[rbit rd := of_nat (p + fin)]\<rparr>)"
proof (cases "p = length hist")
  case True
  then show ?thesis using assms reading_lag [OF assms(1-3)] by (auto simp: bcast_drain_def reading_def)
next
  case False
  have u: "unat (min (bw sh - rpos rd) mx) = n" using reading_lag(3) [OF assms(1-3)] n by (auto simp: min_def word_le_nat_alt)
  have "drain_reads n sh (of_nat p) f s = Some (ok, of_nat (p + fin), s')"
    by (rule drain_reads_spec [OF assms(1) _ _ assms(5)]) (use assms(2) n in \<open>auto simp: reading_def\<close>)
  then show ?thesis using reading_lag [OF assms(1-3)] False assms(2) u
    by (simp add: bcast_drain_def reading_def store_cursor_def Let_def)
qed

section \<open>The whole channel\<close>

text \<open>
  A channel with its publisher and its readers (by cursor slot), and four ghosts: everything ever
  published, the values destroyed because their slot was reused, and for every reader where it
  joined and what it has received since.
\<close>

record 'a Bworld =
  bsh :: "'a Bcast"
  bpub :: Publisher
  brds :: "nat \<Rightarrow> Reader option"
  bhist :: "'a list"
  bdead :: "'a list"
  bjoin :: "nat \<Rightarrow> nat"
  bgot :: "nat \<Rightarrow> 'a list"

datatype 'a bc_op = BSend 'a | BSubscribe | BRecv nat | BDrain nat usize | BSuspend nat | BResume nat | BDropReader nat | BDropPublisher

text \<open>Operations on endpoints that do not exist are skipped; \<open>None\<close> is a panic or undefined behaviour.\<close>

fun bc_exec :: "'a bc_op \<Rightarrow> 'a Bworld \<Rightarrow> 'a Bworld option" where
  "bc_exec (BSend v) w =
     (if bproducer_gone (bsh w) then Some w
      else do { (r, replaced, sh, p) \<leftarrow> bcast_try_send (bsh w) (bpub w) v;
                Some (w\<lparr>bsh := sh, bpub := p, bhist := (case r of Ok _ \<Rightarrow> bhist w @ [v] | Err _ \<Rightarrow> bhist w),
                        bdead := bdead w @ (case replaced of None \<Rightarrow> [] | Some x \<Rightarrow> [x])\<rparr>) })"
| "bc_exec BSubscribe w =
     do { (r, sh) \<leftarrow> bcast_subscribe (bsh w);
          Some (case r of None \<Rightarrow> w
                | Some rd \<Rightarrow> w\<lparr>bsh := sh, brds := (brds w)(rbit rd := Some rd),
                               bjoin := (bjoin w)(rbit rd := length (bhist w)), bgot := (bgot w)(rbit rd := [])\<rparr>) }"
| "bc_exec (BRecv b) w =
     (case brds w b of None \<Rightarrow> Some w
      | Some rd \<Rightarrow> do { (v, sh, rd) \<leftarrow> bcast_try_recv (bsh w) rd;
                        Some (w\<lparr>bsh := sh, brds := (brds w)(b := Some rd),
                                bgot := (bgot w)(b := bgot w b @ (case v of None \<Rightarrow> [] | Some v \<Rightarrow> [v]))\<rparr>) })"
| "bc_exec (BDrain b mx) w =
     (case brds w b of None \<Rightarrow> Some w
      | Some rd \<Rightarrow> do { (_, sh, rd, got) \<leftarrow> bcast_drain (bsh w) rd mx collect (bgot w b);
                        Some (w\<lparr>bsh := sh, brds := (brds w)(b := Some rd), bgot := (bgot w)(b := got)\<rparr>) })"
| "bc_exec (BSuspend b) w =
     (case brds w b of None \<Rightarrow> Some w
      | Some rd \<Rightarrow> (let (sh, rd) = bcast_suspend (bsh w) rd in Some (w\<lparr>bsh := sh, brds := (brds w)(b := Some rd)\<rparr>)))"
| "bc_exec (BResume b) w =
     (case brds w b of None \<Rightarrow> Some w
      | Some rd \<Rightarrow> if suspended rd
                    then do { (sh, rd) \<leftarrow> bcast_resume (bsh w) rd;
                              Some (w\<lparr>bsh := sh, brds := (brds w)(b := Some rd),
                                      bjoin := (bjoin w)(b := length (bhist w)), bgot := (bgot w)(b := [])\<rparr>) }
                    else Some w)"
| "bc_exec (BDropReader b) w =
     (case brds w b of None \<Rightarrow> Some w
      | Some rd \<Rightarrow> Some (w\<lparr>bsh := drop_reader (bsh w) rd, brds := (brds w)(b := None)\<rparr>))"
| "bc_exec BDropPublisher w = Some (w\<lparr>bsh := drop_publisher (bsh w)\<rparr>)"

fun bc_run :: "'a bc_op list \<Rightarrow> 'a Bworld \<Rightarrow> 'a Bworld option" where
  "bc_run [] w = Some w"
| "bc_run (opn # ops) w = do { w \<leftarrow> bc_exec opn w; bc_run ops w }"

definition bc_world :: "usize \<Rightarrow> usize \<Rightarrow> 'a Bworld option" where
  "bc_world capacity max_readers =
     do { (sh, p, rd) \<leftarrow> bcast_open capacity max_readers;
          Some \<lparr>bsh = sh, bpub = p, brds = (\<lambda>_. None)(0 := Some rd), bhist = [], bdead = [], bjoin = (\<lambda>_. 0), bgot = (\<lambda>_. [])\<rparr> }"

definition bpos :: "'a Bworld \<Rightarrow> nat \<Rightarrow> nat" where
  "bpos w b = bjoin w b + length (bgot w b)"

text \<open>Reader \<open>b\<close> has received exactly what was published since it joined, up to its position.\<close>

definition received :: "'a Bworld \<Rightarrow> nat \<Rightarrow> bool" where
  "received w b \<longleftrightarrow> bpos w b \<le> length (bhist w) \<and> bgot w b = take (length (bgot w b)) (drop (bjoin w b) (bhist w))"

definition bc_inv :: "nat \<Rightarrow> 'a Bworld \<Rightarrow> bool" where
  "bc_inv k w \<longleftrightarrow> bc_rep k (bsh w) (bhist w) \<and> gated k (bsh w) (length (bhist w)) (bpos w)
     \<and> pub_ok k (bsh w) (bpub w) (length (bhist w)) (bpos w) \<and> bw (bsh w) = of_nat (length (bhist w))
     \<and> (\<forall>b. bit (readers (bsh w)) b \<longleftrightarrow> (\<exists>rd. brds w b = Some rd \<and> \<not> suspended rd))
     \<and> (\<forall>b. bit (owned (bsh w)) b \<longleftrightarrow> brds w b \<noteq> None)
     \<and> (\<forall>b rd. brds w b = Some rd \<longrightarrow> rbit rd = b \<and> b < length (cursors (bsh w))
          \<and> (\<not> suspended rd \<longrightarrow> rpos rd = of_nat (bpos w b) \<and> received w b))"

lemma bc_inv_reading:
  assumes "bc_inv k w" "brds w b = Some rd" "\<not> suspended rd"
  shows "reading k (bsh w) rd (length (bhist w)) (bpos w b)"
proof -
  have "bit (readers (bsh w)) b" using assms by (auto simp: bc_inv_def)
  then show ?thesis using assms by (auto simp: bc_inv_def gated_def reading_def)
qed

lemma bc_inv_new:
  assumes "bc_world capacity max_readers = Some w"
  shows "\<exists>k. bc_inv k w"
proof -
  obtain c where c: "checked_next_power_of_two capacity = Some c" and m: "1 \<le> max_readers" "max_readers \<le> 64"
    and w: "w = \<lparr>bsh = \<lparr>bbuf = replicate (unat c) None, bmask = c - 1, bcap = c, bw = 0, readers = 1, owned = 1,
                       cursors = replicate (unat max_readers) 0, bproducer_gone = False\<rparr>, bpub = \<lparr>pw = 0, min_cache = 0\<rparr>,
          brds = (\<lambda>_. None)(0 := Some \<lparr>rbit = 0, rpos = 0, suspended = False\<rparr>), bhist = [], bdead = [], bjoin = (\<lambda>_. 0), bgot = (\<lambda>_. [])\<rparr>"
    using assms by (auto simp: bc_world_def bcast_open_def split: if_splits bind_splits)
  obtain k where k: "k \<le> 63" "unat c = 2 ^ k" using checked_next_power_of_two_SomeD(1) [OF c] by blast
  have ck: "c = of_nat (2 ^ k)" using k unat_of_nat_pow2 [of k] by (metis word_unat_eq_iff)
  have mr: "0 < unat max_readers" "unat max_readers \<le> 64" using m by (auto simp: word_le_nat_alt)
  have "bc_inv k w" using k mr
    by (auto simp: w bc_inv_def bc_rep_def gated_def pub_ok_def bpos_def received_def bit_1_iff ck)
  then show ?thesis ..
qed

lemma bc_inv_D:
  assumes "bc_inv k w"
  shows "bc_rep k (bsh w) (bhist w)" "gated k (bsh w) (length (bhist w)) (bpos w)"
    "pub_ok k (bsh w) (bpub w) (length (bhist w)) (bpos w)" "bw (bsh w) = of_nat (length (bhist w))"
    "bit (readers (bsh w)) b \<longleftrightarrow> (\<exists>rd. brds w b = Some rd \<and> \<not> suspended rd)"
    "bit (owned (bsh w)) b \<longleftrightarrow> brds w b \<noteq> None"
    "brds w b = Some rd \<Longrightarrow> rbit rd = b \<and> b < length (cursors (bsh w)) \<and> b < 64"
    "brds w b = Some rd \<Longrightarrow> \<not> suspended rd \<Longrightarrow> rpos rd = of_nat (bpos w b) \<and> received w b"
  using assms unfolding bc_inv_def by (simp_all add: bc_rep_def) fastforce+

lemma received_grow: "received w b \<Longrightarrow> bhist w' = bhist w @ vs \<Longrightarrow> bjoin w' b = bjoin w b \<Longrightarrow> bgot w' b = bgot w b \<Longrightarrow> received w' b"
  by (auto simp: received_def bpos_def)

lemma bc_inv_send:
  assumes "bc_inv k w"
  shows "\<exists>w'. bc_exec (BSend v) w = Some w' \<and> bc_inv k w'"
proof (cases "bproducer_gone (bsh w)")
  case True
  then show ?thesis using assms by simp
next
  case False
  note D = bc_inv_D [OF assms]
  let ?T = "length (bhist w)"
  obtain r replaced sh' p' where r: "bcast_try_send (bsh w) (bpub w) v = Some (r, replaced, sh', p')"
    "case r of
          Err v' \<Rightarrow> v' = v \<and> sh' = bsh w \<and> replaced = None \<and> pub_ok k (bsh w) p' ?T (bpos w)
             \<and> (\<exists>b. bit (readers (bsh w)) b \<and> ?T = bpos w b + 2 ^ k)
        | Ok _ \<Rightarrow> bc_rep k sh' (bhist w @ [v]) \<and> gated k sh' (?T + 1) (bpos w) \<and> pub_ok k sh' p' (?T + 1) (bpos w)
             \<and> bw sh' = of_nat (?T + 1) \<and> cursors sh' = cursors (bsh w) \<and> readers sh' = readers (bsh w)
             \<and> owned sh' = owned (bsh w) \<and> bproducer_gone sh' = bproducer_gone (bsh w)
             \<and> (?T < 2 ^ 64 \<longrightarrow> replaced = (if 2 ^ k \<le> ?T then Some (bhist w ! (?T - 2 ^ k)) else None))"
    using bcast_try_send_spec [OF D(1-4), of v] by (elim exE conjE) (rule that)
  let ?dead = "bdead w @ (case replaced of None \<Rightarrow> [] | Some x \<Rightarrow> [x])"
  show ?thesis
  proof (cases r)
    case (Err v')
    let ?w = "w\<lparr>bpub := p', bdead := ?dead\<rparr>"
    have P: "bpos ?w = bpos w" "received ?w = received w" by (auto simp: bpos_def received_def fun_eq_iff)
    have "bc_inv k ?w" using assms r(2) Err unfolding bc_inv_def P by simp
    then show ?thesis using r Err False by simp
  next
    case (Ok u)
    let ?w = "w\<lparr>bsh := sh', bpub := p', bhist := bhist w @ [v], bdead := ?dead\<rparr>"
    have P: "bpos ?w = bpos w" by (simp add: bpos_def fun_eq_iff)
    have R: "received w b \<Longrightarrow> received ?w b" for b by (rule received_grow) auto
    have "bc_inv k ?w" using assms r(2) Ok R unfolding bc_inv_def P by auto
    then show ?thesis using r(1) Ok False by simp
  qed
qed

text \<open>An operation of reader \<open>b\<close> that moves it forward and stores its cursor.\<close>

lemma bc_inv_advance:
  assumes "bc_inv k w" "brds w b = Some rd" "\<not> suspended rd" "bpos w b + n \<le> length (bhist w)"
  shows "bc_inv k (w\<lparr>bsh := (bsh w)\<lparr>cursors := (cursors (bsh w))[b := of_nat (bpos w b + n)]\<rparr>,
      brds := (brds w)(b := Some (rd\<lparr>rpos := of_nat (bpos w b + n)\<rparr>)),
      bgot := (bgot w)(b := bgot w b @ take n (drop (bpos w b) (bhist w)))\<rparr>)" (is "bc_inv k ?w")
proof -
  note D = bc_inv_D [OF assms(1)]
  have b: "rbit rd = b" "b < length (cursors (bsh w))" using D(7) [OF assms(2)] by auto
  have rec: "received w b" using D(8) [OF assms(2,3)] by blast
  have len: "length (take n (drop (bpos w b) (bhist w))) = n" using assms(4) by simp
  have P: "bpos ?w c = (if c = b then bpos w b + n else bpos w c)" for c
    using len by (simp add: bpos_def add.assoc)
  have "received ?w b"
  proof -
    have "bgot w b @ take n (drop (bpos w b) (bhist w)) = take (length (bgot w b) + n) (drop (bjoin w b) (bhist w))"
      unfolding take_add using rec by (auto simp: received_def bpos_def add.commute)
    moreover have l: "length (bgot ?w b) = length (bgot w b) + n" using len by simp
    ultimately show ?thesis unfolding received_def P l using assms(4) by simp
  qed
  then have R: "received w c \<Longrightarrow> received ?w c" for c by (cases "c = b") (auto simp: received_def bpos_def)
  have "bc_rep k (bsh ?w) (bhist ?w)" using bc_rep_cong [OF D(1), of "bsh ?w"] by simp
  moreover have "gated k (bsh ?w) (length (bhist ?w)) (bpos ?w)"
    unfolding gated_def P using D(2) assms(4) b(2) by (auto simp: gated_def nth_list_update)
  moreover have "pub_ok k (bsh ?w) (bpub ?w) (length (bhist ?w)) (bpos ?w)"
    unfolding pub_ok_def P using D(3) by (auto simp: pub_ok_def intro: trans_le_add1)
  moreover have "\<forall>c. bit (readers (bsh ?w)) c \<longleftrightarrow> (\<exists>rd. brds ?w c = Some rd \<and> \<not> suspended rd)"
    using D(5) assms(2,3) by auto
  moreover have "\<forall>c. bit (owned (bsh ?w)) c \<longleftrightarrow> brds ?w c \<noteq> None" using D(6) assms(2) by auto
  moreover have "\<forall>c rd. brds ?w c = Some rd \<longrightarrow> rbit rd = c \<and> c < length (cursors (bsh ?w))
          \<and> (\<not> suspended rd \<longrightarrow> rpos rd = of_nat (bpos ?w c) \<and> received ?w c)"
    unfolding P using D(7,8) R rec b by auto
  ultimately show ?thesis using D(4) by (simp add: bc_inv_def)
qed

lemma bc_inv_recv:
  assumes "bc_inv k w"
  shows "\<exists>w'. bc_exec (BRecv b) w = Some w' \<and> bc_inv k w'"
proof (cases "brds w b")
  case None
  then show ?thesis using assms by simp
next
  case (Some rd)
  note D = bc_inv_D [OF assms]
  have same: "w\<lparr>bsh := bsh w, brds := (brds w)(b := Some rd), bgot := (bgot w)(b := bgot w b @ [])\<rparr> = w"
    using Some by (simp add: fun_upd_idem)
  show ?thesis
  proof (cases "suspended rd")
    case True
    then show ?thesis using Some assms same by (simp add: bcast_try_recv_def)
  next
    case False
    note R = bcast_try_recv_spec [OF D(1) bc_inv_reading [OF assms Some False] D(4)]
    show ?thesis
    proof (cases "bpos w b = length (bhist w)")
      case True
      then show ?thesis using R Some assms same by simp
    next
      case lt: False
      then have le: "bpos w b + 1 \<le> length (bhist w)" using D(8) [OF Some False] by (auto simp: received_def)
      have "take 1 (drop (bpos w b) (bhist w)) = [bhist w ! bpos w b]" using le by (simp add: take_Suc_conv_app_nth)
      moreover have "rbit rd = b" using D(7) [OF Some] by simp
      ultimately show ?thesis using bc_inv_advance [OF assms Some False le] R Some lt by simp
    qed
  qed
qed

lemma bc_inv_drain:
  assumes "bc_inv k w"
  shows "\<exists>w'. bc_exec (BDrain b mx) w = Some w' \<and> bc_inv k w'"
proof (cases "brds w b")
  case None
  then show ?thesis using assms by simp
next
  case (Some rd)
  note D = bc_inv_D [OF assms]
  show ?thesis
  proof (cases "suspended rd")
    case True
    have "w\<lparr>bsh := bsh w, brds := (brds w)(b := Some rd), bgot := (bgot w)(b := bgot w b)\<rparr> = w"
      using Some by (simp add: fun_upd_idem)
    then show ?thesis using Some assms True by (simp add: bcast_drain_def)
  next
    case False
    define n where "n = min (length (bhist w) - bpos w b) (unat mx)"
    have le: "bpos w b + n \<le> length (bhist w)" using D(8) [OF Some False] by (auto simp: received_def n_def)
    have f: "feed collect (take n (drop (bpos w b) (bhist w))) (bgot w b) = (n, True, bgot w b @ take n (drop (bpos w b) (bhist w)))"
      using le by simp
    have b: "rbit rd = b" "b < length (cursors (bsh w))" using D(7) [OF Some] by auto
    have c: "cursors (bsh w) ! b = of_nat (bpos w b)" using D(2,5) Some False by (auto simp: gated_def)
    obtain sh' where d: "bcast_drain (bsh w) rd mx collect (bgot w b) = Some (Return n, sh', rd\<lparr>rpos := of_nat (bpos w b + n)\<rparr>, bgot w b @ take n (drop (bpos w b) (bhist w)))"
      "sh' = (if bpos w b = length (bhist w) then bsh w else (bsh w)\<lparr>cursors := (cursors (bsh w))[b := of_nat (bpos w b + n)]\<rparr>)"
      using bcast_drain_spec [OF D(1) bc_inv_reading [OF assms Some False] D(4) n_def f] b(1) by auto
    have "n = 0" if "bpos w b = length (bhist w)" using that by (simp add: n_def)
    then have "sh' = (bsh w)\<lparr>cursors := (cursors (bsh w))[b := of_nat (bpos w b + n)]\<rparr>"
      using d(2) c list_update_id [of "cursors (bsh w)" b] by (cases "bpos w b = length (bhist w)") auto
    then show ?thesis using bc_inv_advance [OF assms Some False le] d(1) Some by simp
  qed
qed

lemma bc_inv_join:
  assumes D: "bc_rep k sh (bhist w)" "gated k sh (length (bhist w)) (bpos w)" "pub_ok k sh (bpub w) (length (bhist w)) (bpos w)"
    "bw sh = of_nat (length (bhist w))" "b < length (cursors sh)" "b < 64"
    and R: "\<And>c. c \<noteq> b \<Longrightarrow> bit (readers sh) c \<longleftrightarrow> (\<exists>rd. brds w c = Some rd \<and> \<not> suspended rd)"
    and O: "\<And>c. bit (owned sh) c \<longleftrightarrow> c = b \<or> brds w c \<noteq> None"
    and I: "\<And>c rd. c \<noteq> b \<Longrightarrow> brds w c = Some rd \<Longrightarrow> rbit rd = c \<and> c < length (cursors sh)
          \<and> (\<not> suspended rd \<longrightarrow> rpos rd = of_nat (bpos w c) \<and> received w c)"
    and rd: "rbit rd = b" "rpos rd = bw sh" "\<not> suspended rd"
  shows "bc_inv k (w\<lparr>bsh := sh\<lparr>cursors := (cursors sh)[b := bw sh], readers := readers sh OR bit_mask b\<rparr>,
      brds := (brds w)(b := Some rd), bjoin := (bjoin w)(b := length (bhist w)), bgot := (bgot w)(b := [])\<rparr>)" (is "bc_inv k ?w")
proof -
  have P: "bpos ?w c = (if c = b then length (bhist w) else bpos w c)" for c by (simp add: bpos_def)
  have Rc: "received w c \<Longrightarrow> received ?w c" if "c \<noteq> b" for c using that by (simp add: received_def bpos_def)
  have Rb: "received ?w b" by (simp add: received_def bpos_def)
  have rb: "bit (readers (bsh ?w)) c \<longleftrightarrow> c = b \<or> bit (readers sh) c" for c
    using D(6) by (auto simp: bit_or_iff bit_mask_bit)
  have "bc_rep k (bsh ?w) (bhist ?w)" using bc_rep_cong [OF D(1), of "bsh ?w"] by simp
  moreover have "gated k (bsh ?w) (length (bhist ?w)) (bpos ?w)" unfolding gated_def rb P
    using D(2,4,5) by (auto simp: gated_def nth_list_update)
  moreover have "pub_ok k (bsh ?w) (bpub ?w) (length (bhist ?w)) (bpos ?w)" unfolding pub_ok_def rb P
    using D(3) by (auto simp: pub_ok_def)
  moreover have "bw (bsh ?w) = of_nat (length (bhist ?w))" using D(4) by simp
  moreover have "\<forall>c. bit (readers (bsh ?w)) c \<longleftrightarrow> (\<exists>rd. brds ?w c = Some rd \<and> \<not> suspended rd)"
    unfolding rb using R rd(3) by auto
  moreover have "\<forall>c. bit (owned (bsh ?w)) c \<longleftrightarrow> brds ?w c \<noteq> None" using O by auto
  moreover have "\<forall>c rd. brds ?w c = Some rd \<longrightarrow> rbit rd = c \<and> c < length (cursors (bsh ?w))
          \<and> (\<not> suspended rd \<longrightarrow> rpos rd = of_nat (bpos ?w c) \<and> received ?w c)"
  proof (intro allI impI)
    fix c r assume "brds ?w c = Some r"
    then show "rbit r = c \<and> c < length (cursors (bsh ?w)) \<and> (\<not> suspended r \<longrightarrow> rpos r = of_nat (bpos ?w c) \<and> received ?w c)"
      using I [of c r] Rc [of c] Rb rd D(4,5) P [of c] by (cases "c = b") auto
  qed
  ultimately show ?thesis unfolding bc_inv_def by blast
qed

lemma bc_inv_subscribe:
  assumes "bc_inv k w"
  shows "\<exists>w'. bc_exec BSubscribe w = Some w' \<and> bc_inv k w'"
proof (cases "List.find (\<lambda>i. owned (bsh w) AND bit_mask i = 0) [0..<length (cursors (bsh w))]")
  case None
  then show ?thesis using assms by (simp add: bcast_subscribe_def)
next
  case (Some b)
  note D = bc_inv_D [OF assms]
  have b: "b < length (cursors (bsh w))" "\<not> bit (owned (bsh w)) b"
    using Some bit_mask_and [of "owned (bsh w)" b] by (auto simp: find_Some_iff)
  then have b64: "b < 64" using D(1) by (auto simp: bc_rep_def)
  let ?sh = "(bsh w)\<lparr>owned := owned (bsh w) OR bit_mask b\<rparr>"
  have "bc_rep k ?sh (bhist w)" by (rule bc_rep_cong [OF D(1)]) auto
  moreover have "bit (owned ?sh) c \<longleftrightarrow> c = b \<or> brds w c \<noteq> None" for c
    using D(6) [of c] b64 by (auto simp: bit_or_iff bit_mask_bit)
  ultimately have "bc_inv k (w\<lparr>bsh := ?sh\<lparr>cursors := (cursors ?sh)[b := bw ?sh], readers := readers ?sh OR bit_mask b\<rparr>,
      brds := (brds w)(b := Some \<lparr>rbit = b, rpos = bw ?sh, suspended = False\<rparr>), bjoin := (bjoin w)(b := length (bhist w)), bgot := (bgot w)(b := [])\<rparr>)"
    using D(2,3,4,5,7,8) b(1) b64 by (intro bc_inv_join) (auto simp: gated_def pub_ok_def)
  then show ?thesis using Some b(1) by (simp add: bcast_subscribe_def activate_reader_def Let_def)
qed

lemma bc_inv_resume:
  assumes "bc_inv k w"
  shows "\<exists>w'. bc_exec (BResume b) w = Some w' \<and> bc_inv k w'"
proof (cases "\<exists>rd. brds w b = Some rd \<and> suspended rd")
  case False
  then show ?thesis using assms by (auto split: option.splits)
next
  case True
  then obtain rd where rd: "brds w b = Some rd" "suspended rd" by blast
  note D = bc_inv_D [OF assms]
  have b: "rbit rd = b" "b < length (cursors (bsh w))" "b < 64" using D(7) [OF rd(1)] by auto
  have "bc_inv k (w\<lparr>bsh := (bsh w)\<lparr>cursors := (cursors (bsh w))[b := bw (bsh w)], readers := readers (bsh w) OR bit_mask b\<rparr>,
      brds := (brds w)(b := Some (rd\<lparr>rpos := bw (bsh w), suspended := False\<rparr>)), bjoin := (bjoin w)(b := length (bhist w)), bgot := (bgot w)(b := [])\<rparr>)"
    using D b rd(1) by (intro bc_inv_join) auto
  then show ?thesis using rd b by (simp add: bcast_resume_def activate_reader_def Let_def)
qed

text \<open>Lowering a gate only weakens what the publisher has to respect.\<close>

lemma bc_inv_lower:
  assumes "bc_inv k w" "brds w b = Some rd"
    and sh: "bbuf sh = bbuf (bsh w)" "bcap sh = bcap (bsh w)" "bmask sh = bmask (bsh w)" "cursors sh = cursors (bsh w)" "bw sh = bw (bsh w)"
      "readers sh = readers (bsh w) AND NOT (bit_mask b)"
    and r: "\<And>c. bit (owned sh) c \<longleftrightarrow> ((brds w)(b := r)) c \<noteq> None" "\<And>rd. r = Some rd \<Longrightarrow> suspended rd \<and> rbit rd = b"
  shows "bc_inv k (w\<lparr>bsh := sh, brds := (brds w)(b := r)\<rparr>)" (is "bc_inv k ?w")
proof -
  note D = bc_inv_D [OF assms(1)]
  have b: "b < 64" "b < length (cursors (bsh w))" using D(7) [OF assms(2)] by auto
  have P: "bpos ?w = bpos w" "received ?w = received w" by (auto simp: bpos_def received_def fun_eq_iff)
  have rb: "bit (readers sh) c \<longleftrightarrow> c \<noteq> b \<and> bit (readers (bsh w)) c" for c
    using b bit_imp_le_length [of "readers (bsh w)" c] by (auto simp: sh bit_and_iff bit_not_iff bit_mask_bit)
  have "bc_rep k sh (bhist w)" by (rule bc_rep_cong [OF D(1)]) (simp_all add: sh)
  moreover have "gated k sh (length (bhist w)) (bpos w)" using D(2) unfolding gated_def rb by (simp add: sh)
  moreover have "pub_ok k sh (bpub w) (length (bhist w)) (bpos w)" using D(3) unfolding pub_ok_def rb by auto
  moreover have "bw sh = of_nat (length (bhist w))" using D(4) sh by simp
  moreover have "\<forall>c. bit (readers sh) c \<longleftrightarrow> (\<exists>rd. brds ?w c = Some rd \<and> \<not> suspended rd)" unfolding rb using D(5) r(2) by auto
  moreover have "\<forall>c rd. brds ?w c = Some rd \<longrightarrow> rbit rd = c \<and> c < length (cursors sh)
          \<and> (\<not> suspended rd \<longrightarrow> rpos rd = of_nat (bpos w c) \<and> received w c)" using D(7,8) r(2) b by (auto simp: sh)
  ultimately show ?thesis using r(1) unfolding bc_inv_def P by simp
qed

lemma bc_inv_suspend:
  assumes "bc_inv k w"
  shows "\<exists>w'. bc_exec (BSuspend b) w = Some w' \<and> bc_inv k w'"
proof (cases "\<exists>rd. brds w b = Some rd \<and> \<not> suspended rd")
  case False
  then show ?thesis using assms by (auto simp: bcast_suspend_def fun_upd_idem split: option.splits)
next
  case True
  then obtain rd where rd: "brds w b = Some rd" "\<not> suspended rd" by blast
  note D = bc_inv_D [OF assms]
  have "bc_inv k (w\<lparr>bsh := (bsh w)\<lparr>readers := readers (bsh w) AND NOT (bit_mask b)\<rparr>, brds := (brds w)(b := Some (rd\<lparr>suspended := True\<rparr>))\<rparr>)"
    by (rule bc_inv_lower [OF assms rd(1)]) (use D(6,7) rd(1) in auto)
  then show ?thesis using rd D(7) [OF rd(1)] by (simp add: bcast_suspend_def)
qed

lemma bc_inv_drop:
  assumes "bc_inv k w"
  shows "\<exists>w'. bc_exec (BDropReader b) w = Some w' \<and> bc_inv k w'"
proof (cases "brds w b")
  case None
  then show ?thesis using assms by simp
next
  case (Some rd)
  note D = bc_inv_D [OF assms]
  have b: "rbit rd = b" "b < 64" using D(7) [OF Some] by auto
  have o: "bit (owned (bsh w) AND NOT (bit_mask b)) c \<longleftrightarrow> ((brds w)(b := None)) c \<noteq> None" for c
    using D(6) [of c] b bit_imp_le_length [of "owned (bsh w)" c] by (auto simp: bit_and_iff bit_not_iff bit_mask_bit)
  have "bc_inv k (w\<lparr>bsh := drop_reader (bsh w) rd, brds := (brds w)(b := None)\<rparr>)"
    by (rule bc_inv_lower [OF assms Some]) (use o b in \<open>auto simp: drop_reader_def Let_def\<close>)
  then show ?thesis using Some by simp
qed

lemma bc_inv_exec:
  assumes "bc_inv k w"
  shows "\<exists>w'. bc_exec opn w = Some w' \<and> bc_inv k w'"
proof (cases opn)
  case BDropPublisher
  have "bc_inv k (w\<lparr>bsh := drop_publisher (bsh w)\<rparr>)"
    using assms by (auto simp: bc_inv_def bc_rep_def gated_def pub_ok_def drop_publisher_def bpos_def received_def)
  then show ?thesis using BDropPublisher by simp
qed (use assms bc_inv_send bc_inv_subscribe bc_inv_recv bc_inv_drain bc_inv_suspend bc_inv_resume bc_inv_drop in \<open>simp_all only:\<close>)

lemma bc_inv_run: "bc_inv k w \<Longrightarrow> \<exists>w'. bc_run ops w = Some w' \<and> bc_inv k w'"
proof (induction ops arbitrary: w)
  case (Cons opn ops)
  show ?case using bc_inv_exec [OF Cons.prems, of opn] Cons.IH by auto
qed simp

text \<open>Slot reuse destroys the values of past laps, oldest first, until the cursor itself wraps.\<close>

definition bc_dead :: "nat \<Rightarrow> 'a Bworld \<Rightarrow> bool" where
  "bc_dead k w \<longleftrightarrow> (length (bhist w) \<le> 2 ^ 64 \<longrightarrow> bdead w = take (length (bhist w) - 2 ^ k) (bhist w))"

lemma bc_dead_exec:
  assumes "bc_inv k w" "bc_dead k w" "bc_exec opn w = Some w'"
  shows "bc_dead k w'"
proof (cases opn)
  case (BSend v)
  note D = bc_inv_D [OF assms(1)]
  let ?T = "length (bhist w)"
  show ?thesis
  proof (cases "bproducer_gone (bsh w)")
    case True
    then show ?thesis using assms BSend by simp
  next
    case False
    obtain r replaced sh' p' where r: "bcast_try_send (bsh w) (bpub w) v = Some (r, replaced, sh', p')"
      "case r of Err v' \<Rightarrow> replaced = None
        | Ok _ \<Rightarrow> ?T < 2 ^ 64 \<longrightarrow> replaced = (if 2 ^ k \<le> ?T then Some (bhist w ! (?T - 2 ^ k)) else None)"
      using bcast_try_send_spec [OF D(1-4), of v] by (elim exE conjE) (rule that, auto split: Result.splits)
    show ?thesis
    proof (cases r)
      case (Err v')
      then show ?thesis using assms r False BSend by (auto simp: bc_dead_def)
    next
      case (Ok u)
      have w': "w' = w\<lparr>bsh := sh', bpub := p', bhist := bhist w @ [v], bdead := bdead w @ (case replaced of None \<Rightarrow> [] | Some x \<Rightarrow> [x])\<rparr>"
        using assms(3) BSend r(1) Ok False by simp
      show ?thesis
      proof (cases "?T + 1 \<le> 2 ^ 64 \<and> 2 ^ k \<le> ?T")
        case True
        have lt: "?T - 2 ^ k < ?T" using True zero_less_power [of "2 :: nat" k] by linarith
        have s: "Suc ?T - 2 ^ k = Suc (?T - 2 ^ k)" using True by linarith
        have "replaced = Some (bhist w ! (?T - 2 ^ k))" using True r(2) Ok by simp
        moreover have "bdead w = take (?T - 2 ^ k) (bhist w)" using assms(2) True by (simp add: bc_dead_def)
        ultimately show ?thesis using lt by (simp add: bc_dead_def w' s take_Suc_conv_app_nth)
      next
        case False
        then show ?thesis using assms(2) r(2) Ok by (auto simp: bc_dead_def w')
      qed
    qed
  qed
qed (use assms(2,3) in \<open>auto simp: bc_dead_def bcast_suspend_def Let_def split: option.splits bind_splits if_splits prod.splits\<close>)

lemma bc_run_inv:
  "bc_inv k w \<Longrightarrow> bc_dead k w \<Longrightarrow> \<exists>w'. bc_run ops w = Some w' \<and> bc_inv k w' \<and> bc_dead k w'"
proof (induction ops arbitrary: w)
  case (Cons opn ops)
  obtain w1 where "bc_exec opn w = Some w1" "bc_inv k w1" using bc_inv_exec [OF Cons.prems(1)] by blast
  then show ?case using bc_dead_exec [OF Cons.prems] Cons.IH by auto
qed simp

lemma bc_world_run:
  assumes "bc_world capacity max_readers = Some w0"
  shows "\<exists>k w. bc_run ops w0 = Some w \<and> bc_inv k w \<and> bc_dead k w"
proof -
  obtain k where "bc_inv k w0" using bc_inv_new [OF assms] by blast
  moreover have "bc_dead k w0" using assms by (auto simp: bc_dead_def bc_world_def split: bind_splits)
  ultimately show ?thesis using bc_run_inv by blast
qed

section \<open>Properties\<close>

text \<open>
  C9. Whatever the endpoints of a broadcast channel do, in any order, every operation is defined
  (no slot is read before it holds a value), and every reader whose gate is up has received exactly
  the values published since it joined, in order, up to its position; it is never more than the
  capacity behind, and one that has caught up has received them all.
\<close>

theorem broadcast_lossless:
  assumes "bc_world capacity max_readers = Some w0"
  shows "\<exists>w. bc_run ops w0 = Some w \<and> (\<forall>b rd. brds w b = Some rd \<and> \<not> suspended rd \<longrightarrow>
      bgot w b = take (length (bgot w b)) (drop (bjoin w b) (bhist w))
      \<and> length (bhist w) \<le> bjoin w b + length (bgot w b) + unat (bcap (bsh w))
      \<and> (rpos rd = bw (bsh w) \<longrightarrow> bgot w b = drop (bjoin w b) (bhist w)))"
proof -
  obtain k w where r: "bc_run ops w0 = Some w" "bc_inv k w" using bc_world_run [OF assms] by blast
  note D = bc_inv_D [OF r(2)]
  have "bgot w b = take (length (bgot w b)) (drop (bjoin w b) (bhist w))
      \<and> length (bhist w) \<le> bjoin w b + length (bgot w b) + unat (bcap (bsh w))
      \<and> (rpos rd = bw (bsh w) \<longrightarrow> bgot w b = drop (bjoin w b) (bhist w))" if rd: "brds w b = Some rd" "\<not> suspended rd" for b rd
  proof -
    note R = bc_inv_reading [OF r(2) rd] and rec = D(8) [OF rd]
    have "length (bhist w) \<le> bpos w b + unat (bcap (bsh w))" using R bc_rep_D(2) [OF D(1)] by (simp add: reading_def)
    moreover have "bgot w b = drop (bjoin w b) (bhist w)" if "rpos rd = bw (bsh w)"
    proof -
      have "bpos w b = length (bhist w)" using reading_lag(1) [OF D(1) R D(4)] that by simp
      then have "length (bgot w b) = length (drop (bjoin w b) (bhist w))" by (simp add: bpos_def)
      moreover have "bgot w b = take (length (bgot w b)) (drop (bjoin w b) (bhist w))" using rec by (simp add: received_def)
      ultimately show ?thesis by (metis order_refl take_all_iff)
    qed
    ultimately show ?thesis using rec by (simp add: received_def bpos_def)
  qed
  then show ?thesis using r(1) by blast
qed

lemma broadcast_lossless_witness:
  "\<exists>w0 w. bc_world 2 3 = Some w0 \<and> bc_run [BSend CHR ''a'', BSubscribe, BSend CHR ''b'', BRecv 1] w0 = Some w
     \<and> (\<forall>b rd. brds w b = Some rd \<and> \<not> suspended rd \<longrightarrow> bgot w b = take (length (bgot w b)) (drop (bjoin w b) (bhist w)))"
proof -
  have "checked_next_power_of_two 2 = Some 2" by (simp add: checked_next_power_of_two_def next_pow2.simps [of 2])
  then obtain w0 :: "char Bworld" where w0: "bc_world 2 3 = Some w0" by (auto simp: bc_world_def bcast_open_def)
  then show ?thesis using broadcast_lossless [OF w0, of "[BSend CHR ''a'', BSubscribe, BSend CHR ''b'', BRecv 1]"] by blast
qed

text \<open>
  The publisher refuses a value exactly when some reader whose gate is up is a whole capacity
  behind; in particular it never refuses when there is no such reader.
\<close>

theorem broadcast_backpressure:
  assumes "bc_world capacity max_readers = Some w0"
  shows "\<exists>w r dead sh p. bc_run ops w0 = Some w \<and> bcast_try_send (bsh w) (bpub w) v = Some (r, dead, sh, p)
     \<and> (r = Err v \<longleftrightarrow> (\<exists>b rd. brds w b = Some rd \<and> \<not> suspended rd
            \<and> length (bhist w) = bjoin w b + length (bgot w b) + unat (bcap (bsh w))))
     \<and> (r \<noteq> Err v \<longrightarrow> r = Ok ())"
proof -
  obtain k w where r: "bc_run ops w0 = Some w" "bc_inv k w" using bc_world_run [OF assms] by blast
  note D = bc_inv_D [OF r(2)]
  let ?T = "length (bhist w)"
  obtain q dead sh p where s: "bcast_try_send (bsh w) (bpub w) v = Some (q, dead, sh, p)"
    "case q of Err v' \<Rightarrow> v' = v \<and> (\<exists>b. bit (readers (bsh w)) b \<and> ?T = bpos w b + 2 ^ k)
     | Ok _ \<Rightarrow> gated k sh (?T + 1) (bpos w) \<and> readers sh = readers (bsh w)"
    using bcast_try_send_spec [OF D(1-4), of v] by (elim exE conjE) (rule that, auto split: Result.splits)
  have "q = Err v \<longleftrightarrow> (\<exists>b. bit (readers (bsh w)) b \<and> ?T = bpos w b + 2 ^ k)"
    using s(2) by (cases q) (auto simp: gated_def)
  then have "q = Err v \<longleftrightarrow> (\<exists>b rd. brds w b = Some rd \<and> \<not> suspended rd \<and> ?T = bjoin w b + length (bgot w b) + unat (bcap (bsh w)))"
    using D(5) bc_rep_D(2) [OF D(1)] by (auto simp: bpos_def)
  moreover have "q \<noteq> Err v \<longrightarrow> q = Ok ()" using s(2) by (cases q) auto
  ultimately show ?thesis using r(1) s(1) by blast
qed

lemma broadcast_backpressure_witness:
  "\<exists>w0 w r dead sh p. bc_world 1 1 = Some w0 \<and> bc_run [BSuspend 0] w0 = Some w
     \<and> bcast_try_send (bsh w) (bpub w) CHR ''v'' = Some (r, dead, sh, p) \<and> (r \<noteq> Err CHR ''v'' \<longrightarrow> r = Ok ())"
proof -
  have "checked_next_power_of_two 1 = Some 1" by (simp add: checked_next_power_of_two_def)
  then obtain w0 :: "char Bworld" where w0: "bc_world 1 1 = Some w0" by (auto simp: bc_world_def bcast_open_def)
  then show ?thesis using broadcast_backpressure [OF w0, of "[BSuspend 0]" "CHR ''v''"] by blast
qed

lemma bcast_drop_loop_spec:
  assumes "bc_rep k sh hist" "s + n = length hist" "n \<le> 2 ^ k"
    and "length buf = 2 ^ k" "\<And>j. s \<le> j \<Longrightarrow> j < length hist \<Longrightarrow> buf ! (j mod 2 ^ k) = Some (hist ! j)"
  shows "\<exists>buf'. bcast_drop_loop n (of_nat s) (sh\<lparr>bbuf := buf\<rparr>) = Some (drop s hist, sh\<lparr>bbuf := buf'\<rparr>) \<and> length buf' = 2 ^ k
     \<and> (\<forall>i<2 ^ k. buf' ! i = (if \<exists>j. s \<le> j \<and> j < length hist \<and> j mod 2 ^ k = i then None else buf ! i))"
  using assms(2-)
proof (induction n arbitrary: s buf)
  case 0
  then show ?case by auto
next
  case (Suc n)
  let ?c = "(2 :: nat) ^ k" and ?i = "s mod 2 ^ k"
  have i: "unat (of_nat s AND bmask sh) = ?i" "?i < length buf" using bc_rep_D(5) [OF assms(1)] Suc.prems(3) by auto
  have at: "buf ! ?i = Some (hist ! s)" using Suc.prems(1,4) by simp
  let ?buf = "buf[?i := None]"
  have "?buf ! (j mod ?c) = Some (hist ! j)" if "Suc s \<le> j" "j < length hist" for j
  proof -
    have "s mod ?c \<noteq> j mod ?c" using that Suc.prems(1,2) by (intro mod_neq_of_window) auto
    then show ?thesis using Suc.prems(4) [of j] that by simp
  qed
  then obtain buf' where b: "bcast_drop_loop n (of_nat (Suc s)) (sh\<lparr>bbuf := ?buf\<rparr>) = Some (drop (Suc s) hist, sh\<lparr>bbuf := buf'\<rparr>)"
    "length buf' = ?c" "\<forall>i<?c. buf' ! i = (if \<exists>j. Suc s \<le> j \<and> j < length hist \<and> j mod ?c = i then None else ?buf ! i)"
    using Suc.IH [of "Suc s" ?buf] Suc.prems(1-3) by auto
  have "drop s hist = hist ! s # drop (Suc s) hist" using Suc.prems(1) by (simp add: Cons_nth_drop_Suc)
  moreover have "buf' ! i = (if \<exists>j. s \<le> j \<and> j < length hist \<and> j mod ?c = i then None else buf ! i)" if "i < ?c" for i
  proof -
    have "(\<exists>j. s \<le> j \<and> j < length hist \<and> j mod ?c = i) \<longleftrightarrow> ?i = i \<or> (\<exists>j. Suc s \<le> j \<and> j < length hist \<and> j mod ?c = i)"
      using Suc.prems(1) by (metis Suc_le_eq Suc_leD le_add1 le_neq_implies_less less_add_Suc1 add_Suc_right order_refl)
    then show ?thesis using b(3) that Suc.prems(3) by (auto simp: nth_list_update)
  qed
  ultimately show ?case using b(1,2) i at by (intro exI [of _ buf']) (simp add: Let_def add.commute)
qed

text \<open>
  C21. The values destroyed by slot reuse followed by those that the last handle's drop destroys are
  everything that was published, each exactly once and in order, and no slot owns a value afterwards
  (for a channel that publishes fewer than \<open>2 ^ 64\<close> values).
\<close>

theorem broadcast_teardown_exact:
  assumes "bc_world capacity max_readers = Some w0" "bc_run ops w0 = Some w" "length (bhist w) < 2 ^ 64"
  shows "\<exists>dropped sh. drop_bcast (bsh w) = Some (dropped, sh) \<and> bdead w @ dropped = bhist w \<and> set (bbuf sh) \<subseteq> {None}"
proof -
  obtain k where I: "bc_inv k w" "bc_dead k w" using bc_world_run [OF assms(1), of ops] assms(2) by auto
  note D = bc_inv_D [OF I(1)] note E = bc_rep_D [OF D(1)]
  let ?T = "length (bhist w)" and ?sh = "bsh w"
  define n where "n = min ?T (2 ^ k)"
  have u: "unat (bw ?sh) = ?T" using D(4) assms(3) unat_of_nat_usize by simp
  have live: "unat (min (bw ?sh) (bcap ?sh)) = n" using u E(2) by (auto simp: n_def min_def word_le_nat_alt)
  have "bw ?sh - min (bw ?sh) (bcap ?sh) = of_nat (?T - n)"
  proof -
    have "min (bw ?sh) (bcap ?sh) = of_nat n" using live [symmetric] by simp
    then show ?thesis using D(4) by (simp add: n_def)
  qed
  moreover obtain buf' where b: "bcast_drop_loop n (of_nat (?T - n)) (?sh\<lparr>bbuf := bbuf ?sh\<rparr>) = Some (drop (?T - n) (bhist w), ?sh\<lparr>bbuf := buf'\<rparr>)"
    "length buf' = 2 ^ k" "\<forall>i<2 ^ k. buf' ! i = (if \<exists>j. ?T - n \<le> j \<and> j < ?T \<and> j mod 2 ^ k = i then None else bbuf ?sh ! i)"
    using bcast_drop_loop_spec [OF D(1), of "?T - n" n "bbuf ?sh"] E(3) E(6) by (auto simp: n_def)
  ultimately have d: "drop_bcast ?sh = Some (drop (?T - n) (bhist w), ?sh\<lparr>bbuf := buf'\<rparr>)"
    using live by (simp add: drop_bcast_def Let_def)
  have "bdead w = take (?T - n) (bhist w)" using I(2) assms(3) by (auto simp: bc_dead_def n_def min_def)
  moreover have "buf' ! i = None" if i: "i < 2 ^ k" for i
  proof (cases "?T < 2 ^ k")
    case True
    then have "n = ?T" by (simp add: n_def)
    then have "buf' ! i = (if \<exists>j<?T. j mod 2 ^ k = i then None else bbuf ?sh ! i)" using b(3) i by simp
    moreover have "bbuf ?sh ! i = None" if "\<not> i < ?T" using that i D(1) by (simp add: bc_rep_def)
    moreover have "\<exists>j<?T. j mod 2 ^ k = i" if "i < ?T" using that i by (intro exI [of _ i]) simp
    ultimately show ?thesis by auto
  next
    case False
    then have n: "n = 2 ^ k" by (simp add: n_def)
    have "i \<in> (\<lambda>j. (?T - n + j) mod 2 ^ k) ` {0..<2 ^ k}"
      using mod_cycle_set [of "2 ^ k" "?T - n"] i by simp
    then obtain j where "j < 2 ^ k" "(?T - n + j) mod 2 ^ k = i" by auto
    then have "\<exists>j'. ?T - n \<le> j' \<and> j' < ?T \<and> j' mod 2 ^ k = i" using False n by (intro exI [of _ "?T - n + j"]) auto
    then show ?thesis using b(3) i by auto
  qed
  ultimately show ?thesis using d b(2) by (auto simp: set_conv_nth)
qed

lemma bc_exec_hist: "bc_exec opn w = Some w' \<Longrightarrow> length (bhist w') \<le> Suc (length (bhist w))"
  by (cases opn) (auto split: option.splits bind_splits if_splits prod.splits Result.splits)

lemma bc_run_hist: "bc_run ops w = Some w' \<Longrightarrow> length (bhist w') \<le> length ops + length (bhist w)"
proof (induction ops arbitrary: w)
  case (Cons opn ops)
  then show ?case using bc_exec_hist [of opn w] by (fastforce split: bind_splits)
qed simp

lemma broadcast_teardown_exact_witness:
  "\<exists>w0 w dropped sh. bc_world 1 1 = Some w0 \<and> bc_run [BSuspend 0, BSend CHR ''a'', BSend CHR ''b''] w0 = Some w
     \<and> drop_bcast (bsh w) = Some (dropped, sh) \<and> bdead w @ dropped = bhist w"
proof -
  have c: "checked_next_power_of_two 1 = Some 1" by (simp add: checked_next_power_of_two_def)
  then obtain w0 :: "char Bworld" where w0: "bc_world 1 1 = Some w0" by (auto simp: bc_world_def bcast_open_def)
  obtain w where w: "bc_run [BSuspend 0, BSend CHR ''a'', BSend CHR ''b''] w0 = Some w" using bc_world_run [OF w0] by blast
  have "bhist w0 = []" using w0 by (auto simp: bc_world_def split: bind_splits)
  then have len: "length (bhist w) \<le> 3" using bc_run_hist [OF w] by simp
  show ?thesis using broadcast_teardown_exact [OF w0 w] w0 w len by auto
qed

text \<open>A batch that every active reader leaves room for.\<close>

lemma gate_wait_room:
  assumes "bc_rep k sh hist" "gated k sh T P" "pub_ok k sh p T P" "\<forall>b. bit (readers sh) b \<longrightarrow> T + 1 \<le> P b + 2 ^ k"
    and "dirty \<or> bw sh = of_nat T"
  shows "\<exists>sh' p' dirty'. gate_wait envs sh p dirty = Done (sh', p', dirty', envs) \<and> bc_rep k sh' hist \<and> gated k sh' T P
     \<and> pub_ok k sh' p' T P \<and> \<not> pw p' - min_cache p' \<ge> bcap sh' \<and> (dirty' \<or> bw sh' = of_nat T)
     \<and> cursors sh' = cursors sh \<and> readers sh' = readers sh \<and> owned sh' = owned sh"
proof (cases "pw p - min_cache p \<ge> bcap sh")
  case True
  let ?sh = "commit_publish sh p dirty" and ?p = "refresh_slowest (commit_publish sh p dirty) p"
  have w: "pw p = of_nat T" using assms(3) by (simp add: pub_ok_def)
  have s: "bcap ?sh = bcap sh" "cursors ?sh = cursors sh" "readers ?sh = readers sh" "owned ?sh = owned sh" "bw ?sh = of_nat T"
    using assms(5) w by (auto simp: commit_publish_def)
  have rep: "bc_rep k ?sh hist" using assms(1) by (rule bc_rep_cong) (simp_all add: commit_publish_def)
  have g: "gated k ?sh T P" "pub_ok k ?sh p T P" using assms(2,3) s by (auto simp: gated_def pub_ok_def)
  have "\<not> pw ?p - min_cache ?p \<ge> bcap ?sh"
  proof
    assume "pw ?p - min_cache ?p \<ge> bcap ?sh"
    from refresh_ok(2) [OF rep g this] assms(4) s(3) show False by fastforce
  qed
  then show ?thesis using True rep g refresh_ok(1) [OF rep g] s
    by (intro exI [of _ ?sh] exI [of _ ?p] exI [of _ False]) (simp add: Let_def not_le)
next
  case False
  then show ?thesis using assms by auto
qed

lemma send_batch_loop_spec:
  assumes "bc_rep k sh hist" "gated k sh (length hist) P" "pub_ok k sh p (length hist) P"
    and "\<forall>b. bit (readers sh) b \<longrightarrow> length hist + length vs \<le> P b + 2 ^ k" "dirty \<or> bw sh = of_nat (length hist)"
  shows "\<exists>dead sh' p'. send_batch_loop envs sh p dirty vs panics dropped
       = Some (Done (dropped @ dead, if panics then Unwind else Return (), sh', p'))
     \<and> bc_rep k sh' (hist @ vs) \<and> bw sh' = of_nat (length (hist @ vs)) \<and> pub_ok k sh' p' (length (hist @ vs)) P
     \<and> cursors sh' = cursors sh \<and> readers sh' = readers sh \<and> owned sh' = owned sh"
  using assms
proof (induction vs arbitrary: sh p dirty hist dropped)
  case Nil
  let ?sh = "commit_publish sh p dirty"
  have w: "pw p = of_nat (length hist)" using Nil.prems(3) by (simp add: pub_ok_def)
  have "bc_rep k ?sh hist" using Nil.prems(1) by (rule bc_rep_cong) (simp_all add: commit_publish_def)
  then show ?case using Nil.prems(3,5) w by (auto simp: commit_publish_def pub_ok_def)
next
  case (Cons v vs)
  have room: "\<forall>b. bit (readers sh) b \<longrightarrow> length hist + 1 \<le> P b + 2 ^ k" using Cons.prems(4) by fastforce
  obtain sh1 p1 dirty1 where g: "gate_wait envs sh p dirty = Done (sh1, p1, dirty1, envs)" "bc_rep k sh1 hist" "gated k sh1 (length hist) P"
     "pub_ok k sh1 p1 (length hist) P" "\<not> pw p1 - min_cache p1 \<ge> bcap sh1" "dirty1 \<or> bw sh1 = of_nat (length hist)"
     "cursors sh1 = cursors sh" "readers sh1 = readers sh" "owned sh1 = owned sh"
    using gate_wait_room [OF Cons.prems(1-3) room Cons.prems(5), of envs] by (elim exE conjE) (rule that)
  have w: "pw p1 = of_nat (length hist)" using g(4) by (simp add: pub_ok_def)
  obtain replaced sh2 where wr: "bcast_write sh1 (of_nat (length hist)) v = Some (replaced, sh2)" "bc_rep k sh2 (hist @ [v])"
      "cursors sh2 = cursors sh1" "readers sh2 = readers sh1" "owned sh2 = owned sh1"
    using bcast_write_spec [OF g(2), of v] by blast
  let ?p = "p1\<lparr>pw := pw p1 + 1\<rparr>" and ?d = "case replaced of None \<Rightarrow> [] | Some x \<Rightarrow> [x]"
  note pr = pub_room [OF g(2,4,5)]
  have "gated k sh2 (length (hist @ [v])) P" using g(3) wr(3,4) pr(1) by (auto simp: gated_def)
  moreover have "pub_ok k sh2 ?p (length (hist @ [v])) P" using pr(2) wr(4) w by (auto simp: pub_ok_def)
  moreover have "\<forall>b. bit (readers sh2) b \<longrightarrow> length (hist @ [v]) + length vs \<le> P b + 2 ^ k"
    using Cons.prems(4) wr(4) g(8) by simp
  ultimately obtain dead sh' p' where IH: "send_batch_loop envs sh2 ?p True vs panics (dropped @ ?d)
       = Some (Done ((dropped @ ?d) @ dead, if panics then Unwind else Return (), sh', p'))"
     "bc_rep k sh' ((hist @ [v]) @ vs)" "bw sh' = of_nat (length ((hist @ [v]) @ vs))" "pub_ok k sh' p' (length ((hist @ [v]) @ vs)) P"
     "cursors sh' = cursors sh2" "readers sh' = readers sh2" "owned sh' = owned sh2"
    using Cons.IH [OF wr(2), of ?p True "dropped @ ?d"] by blast
  show ?case using g(1,7-9) wr w IH
    by (intro exI [of _ "?d @ dead"] exI [of _ sh'] exI [of _ p']) (simp add: append.assoc)
qed

text \<open>
  \<open>send_batch\<close> under room for the batch: everything the iterator yielded is written in order and
  published, whether the iterator ends or panics, and nothing but the ring and the write cursor has
  changed.
\<close>

theorem broadcast_batch_published:
  assumes "bc_world capacity max_readers = Some w0" "bc_run ops w0 = Some w"
    and "\<And>b rd. brds w b = Some rd \<Longrightarrow> \<not> suspended rd \<Longrightarrow>
       length (bhist w) + length vs \<le> bjoin w b + length (bgot w b) + unat (bcap (bsh w))"
  shows "\<exists>k dead sh p. bcast_send_batch envs (bsh w) (bpub w) vs panics = Some (Done (dead, if panics then Unwind else Return (), sh, p))
     \<and> bc_rep k sh (bhist w @ vs) \<and> bw sh = of_nat (length (bhist w @ vs))
     \<and> cursors sh = cursors (bsh w) \<and> readers sh = readers (bsh w)"
proof -
  obtain k where I: "bc_inv k w" using bc_world_run [OF assms(1), of ops] assms(2) by auto
  note D = bc_inv_D [OF I]
  have room: "\<forall>b. bit (readers (bsh w)) b \<longrightarrow> length (bhist w) + length vs \<le> bpos w b + 2 ^ k"
    using assms(3) D(5) bc_rep_D(2) [OF D(1)] by (auto simp: bpos_def)
  obtain dead sh p where s: "send_batch_loop envs (bsh w) (bpub w) False vs panics [] = Some (Done ([] @ dead, if panics then Unwind else Return (), sh, p))"
    "bc_rep k sh (bhist w @ vs)" "bw sh = of_nat (length (bhist w @ vs))" "cursors sh = cursors (bsh w)" "readers sh = readers (bsh w)"
    using send_batch_loop_spec [OF D(1-3) room disjI2 [OF D(4)], where dirty = False and envs = envs and panics = panics and dropped = "[]"] by (elim exE conjE) (rule that)
  show ?thesis unfolding bcast_send_batch_def using s
    by - (rule exI [of _ k], rule exI [of _ dead], rule exI [of _ sh], rule exI [of _ p], simp)
qed

lemma broadcast_batch_published_witness:
  "\<exists>w0 k dead sh p. bc_world 2 1 = Some w0
     \<and> bcast_send_batch [] (bsh w0) (bpub w0) ''ab'' True = Some (Done (dead, Unwind, sh, p))
     \<and> bc_rep k sh ''ab'' \<and> bw sh = 2"
proof -
  have "checked_next_power_of_two 2 = Some 2" by (simp add: checked_next_power_of_two_def next_pow2.simps [of 2])
  then obtain w0 :: "char Bworld" where w0: "bc_world 2 1 = Some w0" and h: "bhist w0 = []" "unat (bcap (bsh w0)) = 2"
    by (auto simp: bc_world_def bcast_open_def)
  show ?thesis
    using broadcast_batch_published [OF w0, of "[]" w0 "''ab''" "[]" True] w0 h by auto
qed

text \<open>
  Once the \<open>usize\<close> cursor has wrapped, \<open>Drop for Shared\<close> takes the small cursor for a first lap and
  destroys nothing, although every slot owns a value.
\<close>

lemma teardown_after_wrap_leaks:
  assumes "bc_rep k sh hist" "length hist = 2 ^ 64" "bw sh = of_nat (length hist)"
  shows "drop_bcast sh = Some ([], sh)" "\<forall>i<2 ^ k. bbuf sh ! i \<noteq> None"
proof -
  have w: "bw sh = 0" unfolding assms(3) assms(2) by simp
  then show "drop_bcast sh = Some ([], sh)" by (simp add: drop_bcast_def Let_def)
  show "\<forall>i<2 ^ k. bbuf sh ! i \<noteq> None"
  proof (intro allI impI)
    fix i :: nat assume i: "i < 2 ^ k"
    have k: "(2 :: nat) ^ k \<le> 2 ^ 64" using bc_rep_D(4) [OF assms(1)] by simp
    have "i \<in> (\<lambda>j. (2 ^ 64 - 2 ^ k + j) mod 2 ^ k) ` {0..<2 ^ k}"
      unfolding mod_cycle_set [OF zero_less_power [OF zero_less_numeral]] using i by simp
    then obtain j where j: "j < 2 ^ k" "(2 ^ 64 - 2 ^ k + j) mod 2 ^ k = i" by (elim imageE) simp
    have "bbuf sh ! ((2 ^ 64 - 2 ^ k + j) mod 2 ^ k) = Some (hist ! (2 ^ 64 - 2 ^ k + j))"
      by (rule bc_rep_D(6) [OF assms(1)]) (use j k assms(2) in linarith)+
    then show "bbuf sh ! i \<noteq> None" using j(2) by simp
  qed
qed

end
