(* ===== verification/Declaration.thy ===== *)
theory Declaration
  imports Prelude
begin

text \<open>
  Channel declarations (\<open>src/src/declaration.rs\<close>). A declaration carries a numeric shape and eight type parameters; the type parameters
  (the axes) are fields here, so that a method that exists only on some instances of the type is a partial function: \<open>None\<close> is a chain of
  calls that does not compile. The types that the source leaves open (\<open>backend::<B2>\<close>, \<open>wait::<W2>\<close>, \<open>engine::<E2>\<close>, \<open>membership::<M2>\<close>) range over the
  marker types that the crate exports. A closure of a routing policy is a value of type \<open>'f\<close>.
\<close>

section \<open>Axes\<close>

datatype Engine = Claim | Lanes

datatype Membership = Locked | LockFree

datatype Policy = DropPolicy | Pooled

datatype Run = Spawned | Manual

datatype Topology =
    MpscFixed | MpscPool | MpscDynamic Membership Policy | MpmcFixed Engine | MpmcDynamicLocked | MpmcDynamicArray
  | MpmcBrokered Run | BroadcastTo | ProcessDuplex

datatype Storage = RingStorage | SegStorage

datatype Execution = Sync | Async

datatype Wait = Park | StdThread | Hybrid | Spin | SpinYield | Task

datatype 'f Routing = RoundRobin usize | Route 'f | PubSub 'f u64

datatype Transport = Local | ProcessCreate string | ProcessAttach string

datatype Representation = Native | Leased | RawBytes | PodValues | Encoded

section \<open>Shape\<close>

text \<open>A \<open>Duration\<close> is its number of nanoseconds.\<close>

record Shape =
  sh_producers :: usize
  sh_consumers :: usize
  sh_brokers :: usize
  sh_capacity :: "usize option"
  sh_batch :: usize
  sh_max_producers :: usize
  sh_max_readers :: usize
  sh_recycling :: "usize option"
  sh_timeout :: nat
  sh_lock_memory :: bool
  sh_total_bytes :: u64
  sh_chunk_bytes :: usize
  sh_slots :: usize
  sh_transfer_id :: u64
  sh_array_producers :: usize

definition shape_default :: Shape where
  "shape_default =
     \<lparr>sh_producers = 1, sh_consumers = 1, sh_brokers = 1, sh_capacity = None, sh_batch = 64, sh_max_producers = 64, sh_max_readers = 64, sh_recycling = None,
      sh_timeout = 30 * 10 ^ 9, sh_lock_memory = False, sh_total_bytes = 0, sh_chunk_bytes = 64 * 1024, sh_slots = 8, sh_transfer_id = 1, sh_array_producers = 0\<rparr>"

record 'f Channel =
  ch_shape :: Shape
  ch_topology :: Topology
  ch_storage :: Storage
  ch_execution :: Execution
  ch_waiting :: Wait
  ch_routing :: "'f Routing"
  ch_transport :: Transport
  ch_representation :: Representation

definition channel_new :: "'f Channel" where
  "channel_new =
     \<lparr>ch_shape = shape_default, ch_topology = MpscFixed, ch_storage = RingStorage, ch_execution = Sync, ch_waiting = Park, ch_routing = RoundRobin 0,
      ch_transport = Local, ch_representation = Native\<rparr>"

section \<open>Methods\<close>

datatype 'f Method =
    MpscFixedM | MpscPoolM | MpscDynamicM | MpmcM | MpmcDynamicLockedM | MpmcDynamicArrayM usize | MpmcBrokeredM | BroadcastM
  | BackendM Storage | AsyncM | CapacityM usize | BatchM usize | SyncM | WaitM Wait
  | ProducersM usize | ConsumersM usize | BrokersM usize | MaxProducersM usize | MaxReadersM usize
  | ExpectedProducersM usize | MembershipM Membership | RecyclingM usize | LeasedM | EngineM Engine
  | RouteM 'f | PubsubM 'f | ManualM
  | IpcM | AttachM | EndpointM string | ShapeM u64 usize usize | TransferIdM u64 | TimeoutM nat | LockMemoryM bool
  | BytesM | PodM | CodecM

text \<open>The waiter that a topology gets when it returns from asynchronous to synchronous execution (\<open>sync_default!\<close>).\<close>

fun default_wait :: "Topology \<Rightarrow> Wait" where
  "default_wait MpscFixed = Park"
| "default_wait MpscPool = Park"
| "default_wait (MpscDynamic _ _) = Park"
| "default_wait (MpmcFixed _) = SpinYield"
| "default_wait MpmcDynamicLocked = SpinYield"
| "default_wait MpmcDynamicArray = SpinYield"
| "default_wait (MpmcBrokered _) = SpinYield"
| "default_wait BroadcastTo = SpinYield"
| "default_wait ProcessDuplex = Park"

definition set_shape :: "(Shape \<Rightarrow> Shape) \<Rightarrow> 'f Channel \<Rightarrow> 'f Channel" where
  "set_shape g d = d\<lparr>ch_shape := g (ch_shape d)\<rparr>"

fun general_method :: "'f Method \<Rightarrow> 'f Channel \<Rightarrow> 'f Channel option" where
  "general_method MpscFixedM d = Some (d\<lparr>ch_topology := MpscFixed\<rparr>)"
| "general_method MpscPoolM d = Some (d\<lparr>ch_topology := MpscPool\<rparr>)"
| "general_method MpscDynamicM d = Some (d\<lparr>ch_topology := MpscDynamic Locked DropPolicy\<rparr>)"
| "general_method MpmcM d = Some (d\<lparr>ch_topology := MpmcFixed Claim, ch_waiting := SpinYield\<rparr>)"
| "general_method MpmcDynamicLockedM d = Some (d\<lparr>ch_topology := MpmcDynamicLocked, ch_waiting := SpinYield\<rparr>)"
| "general_method (MpmcDynamicArrayM n) d =
     Some ((set_shape (\<lambda>s. s\<lparr>sh_array_producers := n\<rparr>) d)\<lparr>ch_topology := MpmcDynamicArray, ch_waiting := SpinYield\<rparr>)"
| "general_method MpmcBrokeredM d = Some (d\<lparr>ch_topology := MpmcBrokered Spawned, ch_waiting := SpinYield\<rparr>)"
| "general_method BroadcastM d = Some (d\<lparr>ch_topology := BroadcastTo, ch_waiting := SpinYield\<rparr>)"
| "general_method (BackendM b) d = Some (d\<lparr>ch_storage := b\<rparr>)"
| "general_method AsyncM d = Some (d\<lparr>ch_execution := Async, ch_waiting := Task\<rparr>)"
| "general_method (CapacityM n) d = Some (set_shape (\<lambda>s. s\<lparr>sh_capacity := Some n\<rparr>) d)"
| "general_method (BatchM n) d = Some (set_shape (\<lambda>s. s\<lparr>sh_batch := n\<rparr>) d)"
| "general_method _ d = None"

fun execution_method :: "'f Method \<Rightarrow> 'f Channel \<Rightarrow> 'f Channel option" where
  "execution_method SyncM d =
     (case ch_execution d of Sync \<Rightarrow> Some d | Async \<Rightarrow> Some (d\<lparr>ch_execution := Sync, ch_waiting := default_wait (ch_topology d)\<rparr>))"
| "execution_method (WaitM w) d = (if ch_execution d = Sync then Some (d\<lparr>ch_waiting := w\<rparr>) else None)"
| "execution_method _ d = None"

fun mpsc_method :: "'f Method \<Rightarrow> 'f Channel \<Rightarrow> 'f Channel option" where
  "mpsc_method (ProducersM n) d = (if ch_topology d = MpscFixed then Some (set_shape (\<lambda>s. s\<lparr>sh_producers := n\<rparr>) d) else None)"
| "mpsc_method (MaxProducersM n) d = (if ch_topology d = MpscPool then Some (set_shape (\<lambda>s. s\<lparr>sh_max_producers := n\<rparr>) d) else None)"
| "mpsc_method (ExpectedProducersM n) d = (case ch_topology d of MpscDynamic _ _ \<Rightarrow> Some (set_shape (\<lambda>s. s\<lparr>sh_producers := n\<rparr>) d) | _ \<Rightarrow> None)"
| "mpsc_method (MembershipM m) d = (case ch_topology d of MpscDynamic _ q \<Rightarrow> Some (d\<lparr>ch_topology := MpscDynamic m q\<rparr>) | _ \<Rightarrow> None)"
| "mpsc_method (RecyclingM n) d =
     (case ch_topology d of
        MpscDynamic m _ \<Rightarrow> Some ((set_shape (\<lambda>s. s\<lparr>sh_recycling := Some n\<rparr>) d)\<lparr>ch_topology := MpscDynamic m Pooled\<rparr>)
      | _ \<Rightarrow> None)"
| "mpsc_method _ d = None"

fun mpmc_method :: "'f Method \<Rightarrow> 'f Channel \<Rightarrow> 'f Channel option" where
  "mpmc_method LeasedM d =
     (if ch_topology d = MpmcFixed Claim \<and> ch_representation d = Native then Some (d\<lparr>ch_representation := Leased\<rparr>) else None)"
| "mpmc_method (EngineM e) d = (case ch_topology d of MpmcFixed _ \<Rightarrow> Some (d\<lparr>ch_topology := MpmcFixed e\<rparr>) | _ \<Rightarrow> None)"
| "mpmc_method (ProducersM n) d = (case ch_topology d of MpmcFixed _ \<Rightarrow> Some (set_shape (\<lambda>s. s\<lparr>sh_producers := n\<rparr>) d) | _ \<Rightarrow> None)"
| "mpmc_method (ConsumersM n) d =
     (case ch_topology d of
        MpmcFixed _ \<Rightarrow> Some (set_shape (\<lambda>s. s\<lparr>sh_consumers := n\<rparr>) d)
      | MpmcDynamicLocked \<Rightarrow> Some (set_shape (\<lambda>s. s\<lparr>sh_consumers := n\<rparr>) d)
      | MpmcDynamicArray \<Rightarrow> Some (set_shape (\<lambda>s. s\<lparr>sh_consumers := n\<rparr>) d)
      | _ \<Rightarrow> None)"
| "mpmc_method (ExpectedProducersM n) d = (if ch_topology d = MpmcDynamicLocked then Some (set_shape (\<lambda>s. s\<lparr>sh_producers := n\<rparr>) d) else None)"
| "mpmc_method _ d = None"

fun brokered_method :: "'f Method \<Rightarrow> 'f Channel \<Rightarrow> 'f Channel option" where
  "brokered_method (RouteM f) d =
     (case (ch_topology d, ch_routing d) of (MpmcBrokered _, RoundRobin _) \<Rightarrow> Some (d\<lparr>ch_routing := Route f\<rparr>) | _ \<Rightarrow> None)"
| "brokered_method (PubsubM f) d =
     (case (ch_topology d, ch_routing d) of (MpmcBrokered _, RoundRobin _) \<Rightarrow> Some (d\<lparr>ch_routing := PubSub f 0\<rparr>) | _ \<Rightarrow> None)"
| "brokered_method (ProducersM n) d = (case ch_topology d of MpmcBrokered _ \<Rightarrow> Some (set_shape (\<lambda>s. s\<lparr>sh_producers := n\<rparr>) d) | _ \<Rightarrow> None)"
| "brokered_method (ConsumersM n) d = (case ch_topology d of MpmcBrokered _ \<Rightarrow> Some (set_shape (\<lambda>s. s\<lparr>sh_consumers := n\<rparr>) d) | _ \<Rightarrow> None)"
| "brokered_method (BrokersM n) d = (case ch_topology d of MpmcBrokered _ \<Rightarrow> Some (set_shape (\<lambda>s. s\<lparr>sh_brokers := n\<rparr>) d) | _ \<Rightarrow> None)"
| "brokered_method ManualM d = (if ch_topology d = MpmcBrokered Spawned then Some (d\<lparr>ch_topology := MpmcBrokered Manual\<rparr>) else None)"
| "brokered_method _ d = None"

fun broadcast_method :: "'f Method \<Rightarrow> 'f Channel \<Rightarrow> 'f Channel option" where
  "broadcast_method (MaxReadersM n) d = (if ch_topology d = BroadcastTo then Some (set_shape (\<lambda>s. s\<lparr>sh_max_readers := n\<rparr>) d) else None)"
| "broadcast_method _ d = None"

fun process_method :: "'f Method \<Rightarrow> 'f Channel \<Rightarrow> 'f Channel option" where
  "process_method IpcM d =
     Some (d\<lparr>ch_topology := ProcessDuplex, ch_storage := RingStorage, ch_waiting := Park, ch_transport := ProcessCreate ''default'', ch_representation := RawBytes\<rparr>)"
| "process_method AttachM d =
     (case (ch_topology d, ch_transport d) of (ProcessDuplex, ProcessCreate n) \<Rightarrow> Some (d\<lparr>ch_transport := ProcessAttach n\<rparr>) | _ \<Rightarrow> None)"
| "process_method (EndpointM n) d =
     (case (ch_topology d, ch_transport d) of
        (ProcessDuplex, ProcessCreate _) \<Rightarrow> Some (d\<lparr>ch_transport := ProcessCreate n\<rparr>)
      | (ProcessDuplex, ProcessAttach _) \<Rightarrow> Some (d\<lparr>ch_transport := ProcessAttach n\<rparr>)
      | _ \<Rightarrow> None)"
| "process_method (ShapeM t c n) d =
     (case (ch_topology d, ch_transport d) of
        (ProcessDuplex, ProcessCreate _) \<Rightarrow> Some (set_shape (\<lambda>s. s\<lparr>sh_total_bytes := t, sh_chunk_bytes := c, sh_slots := n\<rparr>) d)
      | _ \<Rightarrow> None)"
| "process_method (TransferIdM t) d =
     (case (ch_topology d, ch_transport d) of
        (ProcessDuplex, ProcessCreate _) \<Rightarrow> Some (set_shape (\<lambda>s. s\<lparr>sh_transfer_id := t\<rparr>) d)
      | _ \<Rightarrow> None)"
| "process_method (TimeoutM t) d = (if ch_topology d = ProcessDuplex then Some (set_shape (\<lambda>s. s\<lparr>sh_timeout := t\<rparr>) d) else None)"
| "process_method (LockMemoryM b) d = (if ch_topology d = ProcessDuplex then Some (set_shape (\<lambda>s. s\<lparr>sh_lock_memory := b\<rparr>) d) else None)"
| "process_method BytesM d = (if ch_topology d = ProcessDuplex then Some (d\<lparr>ch_representation := RawBytes\<rparr>) else None)"
| "process_method PodM d = (if ch_topology d = ProcessDuplex then Some (d\<lparr>ch_representation := PodValues\<rparr>) else None)"
| "process_method CodecM d = (if ch_topology d = ProcessDuplex then Some (d\<lparr>ch_representation := Encoded\<rparr>) else None)"
| "process_method _ d = None"

text \<open>A call of a method: the \<open>impl\<close> block that has it for the type of the declaration, if one has.\<close>

fun first_impl :: "('d \<Rightarrow> 'd option) list \<Rightarrow> 'd \<Rightarrow> 'd option" where
  "first_impl [] d = None"
| "first_impl (g # gs) d = (case g d of Some d' \<Rightarrow> Some d' | None \<Rightarrow> first_impl gs d)"

definition declare_step :: "'f Method \<Rightarrow> 'f Channel \<Rightarrow> 'f Channel option" where
  "declare_step m =
     first_impl [general_method m, execution_method m, mpsc_method m, mpmc_method m, brokered_method m, broadcast_method m, process_method m]"

fun declares :: "'f Method list \<Rightarrow> 'f Channel \<Rightarrow> 'f Channel option" where
  "declares [] d = Some d"
| "declares (m # ms) d = do { d \<leftarrow> declare_step m d; declares ms d }"

section \<open>Which declarations have an \<open>open\<close>\<close>

text \<open>\<open>SyncKernel\<close> is implemented by the four blocking waiters.\<close>

definition is_sync_kernel :: "Wait \<Rightarrow> bool" where
  "is_sync_kernel w \<longleftrightarrow> w \<in> {Park, StdThread, Hybrid, Spin}"

definition local_native :: "'f Channel \<Rightarrow> bool" where
  "local_native d \<longleftrightarrow> ch_transport d = Local \<and> ch_representation d = Native"

fun round_robin :: "'f Routing \<Rightarrow> bool" where
  "round_robin (RoundRobin _) = True"
| "round_robin _ = False"

definition mpsc_openable :: "'f Channel \<Rightarrow> bool" where
  "mpsc_openable d \<longleftrightarrow> ch_storage d = RingStorage \<and> round_robin (ch_routing d) \<and> local_native d
     \<and> (ch_execution d = Sync \<and> is_sync_kernel (ch_waiting d) \<or> ch_execution d = Async \<and> ch_waiting d = Task)"

definition mpmc_openable :: "'f Channel \<Rightarrow> bool" where
  "mpmc_openable d \<longleftrightarrow> ch_execution d = Sync \<and> ch_waiting d = SpinYield \<and> local_native d"

definition process_openable :: "'f Channel \<Rightarrow> bool" where
  "process_openable d \<longleftrightarrow> ch_storage d = RingStorage \<and> ch_execution d = Sync \<and> ch_waiting d = Park \<and> round_robin (ch_routing d) \<and> ch_transport d \<noteq> Local
     \<and> ch_representation d \<in> {RawBytes, PodValues, Encoded}"

definition leased_openable :: "'f Channel \<Rightarrow> bool" where
  "leased_openable d \<longleftrightarrow> ch_storage d = RingStorage \<and> ch_execution d = Sync \<and> ch_waiting d = SpinYield \<and> round_robin (ch_routing d) \<and> ch_transport d = Local
     \<and> ch_representation d = Leased"

fun has_open :: "'f Channel \<Rightarrow> bool" where
  "has_open d =
     (case ch_topology d of
        MpscFixed \<Rightarrow> mpsc_openable d
      | MpscPool \<Rightarrow> mpsc_openable d
      | MpscDynamic Locked _ \<Rightarrow> mpsc_openable d
      | MpscDynamic LockFree _ \<Rightarrow> mpsc_openable d \<and> ch_execution d = Sync
      | MpmcFixed Claim \<Rightarrow> mpmc_openable d \<and> round_robin (ch_routing d) \<or> leased_openable d
      | MpmcFixed Lanes \<Rightarrow> mpmc_openable d \<and> round_robin (ch_routing d)
      | MpmcDynamicLocked \<Rightarrow> mpmc_openable d \<and> round_robin (ch_routing d)
      | MpmcDynamicArray \<Rightarrow> mpmc_openable d \<and> round_robin (ch_routing d)
      | MpmcBrokered _ \<Rightarrow> mpmc_openable d
      | BroadcastTo \<Rightarrow> mpmc_openable d \<and> round_robin (ch_routing d) \<and> ch_storage d = RingStorage
      | ProcessDuplex \<Rightarrow> process_openable d)"

section \<open>Properties\<close>

lemma declares_induct:
  assumes "declares ms d0 = Some d" "P d0" "\<And>m d d'. P d \<Longrightarrow> declare_step m d = Some d' \<Longrightarrow> P d'"
  shows "P d"
  using assms(1,2)
proof (induction ms arbitrary: d0)
  case (Cons m ms)
  then show ?case using assms(3) by (auto split: Option.bind_splits)
qed simp

text \<open>What every declaration built with the methods satisfies: a recycling topology has its pool size, a subscription no mask yet.\<close>

definition well_declared :: "'f Channel \<Rightarrow> bool" where
  "well_declared d \<longleftrightarrow> (\<forall>m. ch_topology d = MpscDynamic m Pooled \<longrightarrow> sh_recycling (ch_shape d) \<noteq> None)
     \<and> (\<forall>f k. ch_routing d = PubSub f k \<longrightarrow> k = 0)"

lemma first_impl_cases:
  assumes "first_impl gs d = Some d'"
  obtains g where "g \<in> set gs" "g d = Some d'"
  using assms by (induction gs) (auto split: option.splits)

lemma impl_declared:
  assumes "well_declared d"
  shows "general_method m d = Some d' \<Longrightarrow> well_declared d'" "execution_method m d = Some d' \<Longrightarrow> well_declared d'"
    "mpsc_method m d = Some d' \<Longrightarrow> well_declared d'" "mpmc_method m d = Some d' \<Longrightarrow> well_declared d'"
    "brokered_method m d = Some d' \<Longrightarrow> well_declared d'" "broadcast_method m d = Some d' \<Longrightarrow> well_declared d'"
    "process_method m d = Some d' \<Longrightarrow> well_declared d'"
  using assms
  by (cases m; auto simp: well_declared_def set_shape_def split: if_splits Topology.splits Routing.splits Transport.splits Execution.splits)+

lemma declare_step_declared:
  assumes "well_declared d" "declare_step m d = Some d'"
  shows "well_declared d'"
  using assms(2) unfolding declare_step_def by (rule first_impl_cases) (use impl_declared [OF assms(1), of m d'] in auto)

lemma declares_well_declared:
  assumes "declares ms channel_new = Some d"
  shows "well_declared d"
proof (rule declares_induct [OF assms])
  show "well_declared channel_new" by (simp add: well_declared_def channel_new_def)
qed (rule declare_step_declared)

text \<open>
  C39. Switching a declaration to asynchronous execution and back never loses its \<open>open\<close>: the waiter that \<open>sync\<close> restores is one that the topology opens with, and
  nothing of the numeric shape changes. In between, exactly the MPSC topologies without the lock-free inbox open.
\<close>

theorem sync_after_async_opens:
  assumes "has_open d"
  shows "\<exists>d1 d2. declares [AsyncM] d = Some d1 \<and> declares [AsyncM, SyncM] d = Some d2 \<and> has_open d2 \<and> ch_shape d2 = ch_shape d \<and> ch_topology d2 = ch_topology d
     \<and> (has_open d1 \<longleftrightarrow> (\<exists>p. ch_topology d \<in> {MpscFixed, MpscPool, MpscDynamic Locked p}))"
proof -
  let ?d1 = "d\<lparr>ch_execution := Async, ch_waiting := Task\<rparr>"
  let ?d2 = "d\<lparr>ch_execution := Sync, ch_waiting := default_wait (ch_topology d)\<rparr>"
  have "declares [AsyncM] d = Some ?d1" "declares [AsyncM, SyncM] d = Some ?d2" by (simp_all add: declare_step_def)
  moreover have "has_open ?d2" using assms
    by (simp add: mpsc_openable_def mpmc_openable_def leased_openable_def process_openable_def local_native_def is_sync_kernel_def split: Topology.splits Engine.splits Membership.splits) auto
  moreover have "has_open ?d1 \<longleftrightarrow> (\<exists>p. ch_topology d \<in> {MpscFixed, MpscPool, MpscDynamic Locked p})" using assms
    by (auto simp: mpsc_openable_def mpmc_openable_def leased_openable_def process_openable_def local_native_def split: Topology.splits Engine.splits Membership.splits)
  ultimately show ?thesis by (intro exI [of _ ?d1] exI [of _ ?d2]) simp
qed

lemma sync_after_async_opens_witness:
  "\<exists>d d2. declares [MpmcM, EngineM Lanes, BackendM SegStorage, ProducersM 3] (channel_new :: unit Channel) = Some d \<and> has_open d
     \<and> declares [AsyncM, SyncM] d = Some d2 \<and> has_open d2"
proof -
  let ?d = "the (declares [MpmcM, EngineM Lanes, BackendM SegStorage, ProducersM 3] (channel_new :: unit Channel))"
  have d: "declares [MpmcM, EngineM Lanes, BackendM SegStorage, ProducersM 3] (channel_new :: unit Channel) = Some ?d" "has_open ?d"
    by (simp_all add: declare_step_def channel_new_def set_shape_def mpmc_openable_def local_native_def)
  show ?thesis using sync_after_async_opens [OF d(2)] d by blast
qed

end
