(* ===== verification/Ipc_Frame.thy ===== *)
theory Ipc_Frame
  imports Prelude
begin

text \<open>
  The fixed-width data of the process transport (\<open>src/src/ipc/stream.rs\<close>): little-endian words, the
  48-byte descriptor frame, payload checksums in both implementations, stream shapes with their chunk
  metadata, and the layout of a shared arena. Byte slices are lists of bytes.
\<close>

section \<open>Errors and bytes\<close>

datatype IoKind = InvalidInput | InvalidData | TimedOut | UnexpectedEof | AlreadyExists | Interrupted | WouldBlock | OtherIo

datatype IoError = IoError IoKind string

definition invalid_input :: "string \<Rightarrow> IoError" where
  "invalid_input message = IoError InvalidInput message"

definition invalid_data :: "string \<Rightarrow> IoError" where
  "invalid_data message = IoError InvalidData message"

text \<open>\<open>to_le_bytes\<close> of a word of \<open>n\<close> bytes, and \<open>from_le_bytes\<close>.\<close>

definition to_le :: "nat \<Rightarrow> 'a::len word \<Rightarrow> u8 list" where
  "to_le n w = map (\<lambda>i. ucast (drop_bit (8 * i) w)) [0..<n]"

fun from_le :: "u8 list \<Rightarrow> 'a::len word" where
  "from_le [] = 0"
| "from_le (b # bs) = ucast b OR push_bit 8 (from_le bs)"

definition byte_slice :: "nat \<Rightarrow> nat \<Rightarrow> 'b list \<Rightarrow> 'b list" where
  "byte_slice a b bs = take (b - a) (drop a bs)"

section \<open>Stream shapes\<close>

record StreamShape =
  total_bytes :: u64
  chunk_bytes :: usize
  stream_slots :: usize

datatype StreamFlow = ParentToWorker | WorkerToParent

definition flow_code :: "StreamFlow \<Rightarrow> u8" where
  "flow_code f = (case f of ParentToWorker \<Rightarrow> 1 | WorkerToParent \<Rightarrow> 2)"

definition flow_try_from :: "u8 \<Rightarrow> (StreamFlow, IoError) Result" where
  "flow_try_from v = (if v = 1 then Ok ParentToWorker else if v = 2 then Ok WorkerToParent
                      else Err (invalid_input ''unknown process stream flow''))"

definition U32_MAX :: u64 where
  "U32_MAX = 0xFFFFFFFF"

definition ISIZE_MAX :: usize where
  "ISIZE_MAX = 0x7FFFFFFFFFFFFFFF"

text \<open>\<open>u64::div_ceil\<close>; a zero divisor panics, and shapes are validated before their first use.\<close>

definition div_ceil :: "u64 \<Rightarrow> u64 \<Rightarrow> u64" where
  "div_ceil a b = (if a mod b > 0 then a div b + 1 else a div b)"

definition checked_mul :: "u64 \<Rightarrow> u64 \<Rightarrow> u64 option" where
  "checked_mul a b = (if unat a * unat b < 2 ^ 64 then Some (a * b) else None)"

definition checked_add :: "u64 \<Rightarrow> u64 \<Rightarrow> u64 option" where
  "checked_add a b = (if unat a + unat b < 2 ^ 64 then Some (a + b) else None)"

definition ok_or :: "'v option \<Rightarrow> 'e \<Rightarrow> ('v, 'e) Result" where
  "ok_or v e = (case v of None \<Rightarrow> Err e | Some v \<Rightarrow> Ok v)"

definition filter_option :: "('v \<Rightarrow> bool) \<Rightarrow> 'v option \<Rightarrow> 'v option" where
  "filter_option P v = (case v of None \<Rightarrow> None | Some v \<Rightarrow> if P v then Some v else None)"

definition chunks :: "StreamShape \<Rightarrow> u64" where
  "chunks s = div_ceil (total_bytes s) (chunk_bytes s)"

definition resident_bytes :: "StreamShape \<Rightarrow> usize" where
  "resident_bytes s = stream_slots s * chunk_bytes s"

definition shape_validate :: "StreamShape \<Rightarrow> (unit, IoError) Result" where
  "shape_validate s =
     (if chunk_bytes s = 0 \<or> chunk_bytes s > U32_MAX
      then Err (invalid_input ''stream chunk_bytes must be in 1..=u32::MAX'')
      else if stream_slots s = 0 \<or> stream_slots s > U32_MAX
      then Err (invalid_input ''stream slots must be in 1..=u32::MAX'')
      else and_then (ok_or (filter_option (\<lambda>b. b \<le> ISIZE_MAX) (checked_mul (stream_slots s) (chunk_bytes s)))
                       (invalid_input ''stream resident size overflows address space''))
             (\<lambda>_. let generations = div_ceil (chunks s) (stream_slots s)
                   in if generations > U32_MAX
                      then Err (invalid_input ''stream slot generation would overflow'') else Ok ()))"

text \<open>\<open>chunk_meta\<close>: offset, length, slot and generation of a chunk.\<close>

definition chunk_meta :: "StreamShape \<Rightarrow> u64 \<Rightarrow> (u64 \<times> usize \<times> usize \<times> u32, IoError) Result" where
  "chunk_meta s chunk_index =
     and_then (ok_or (checked_mul chunk_index (chunk_bytes s)) (invalid_data ''stream offset overflow''))
       (\<lambda>offset.
          let remaining = (if offset \<le> total_bytes s then total_bytes s - offset else 0);
              len = min remaining (chunk_bytes s);
              slot = chunk_index mod stream_slots s;
              g = chunk_index div stream_slots s + 1
          in if g \<le> U32_MAX then Ok (offset, len, slot, ucast g)
             else Err (invalid_data ''stream generation exhausted''))"

section \<open>Frames\<close>

datatype Kind = KData | KReleased | KComplete

definition kind_code :: "Kind \<Rightarrow> u8" where
  "kind_code k = (case k of KData \<Rightarrow> 1 | KReleased \<Rightarrow> 2 | KComplete \<Rightarrow> 3)"

definition kind_try_from :: "u8 \<Rightarrow> (Kind, IoError) Result" where
  "kind_try_from v = (if v = 1 then Ok KData else if v = 2 then Ok KReleased else if v = 3 then Ok KComplete
                      else Err (invalid_data ''unknown stream frame kind''))"

record Frame =
  fkind :: Kind
  fflags :: u8
  ftransfer_id :: u64
  foffset :: u64
  fslot :: u32
  fgeneration :: u32
  flen :: u32
  fchecksum :: u64

definition FRAME_MAGIC :: u32 where "FRAME_MAGIC = 0x50535354"
definition VERSION :: u16 where "VERSION = 2"
definition FRAME_LEN :: nat where "FRAME_LEN = 48"

definition frame_encode :: "Frame \<Rightarrow> u8 list" where
  "frame_encode f =
     to_le 4 FRAME_MAGIC @ to_le 2 VERSION @ [kind_code (fkind f), fflags f] @ to_le 8 (ftransfer_id f)
     @ to_le 8 (foffset f) @ to_le 4 (fslot f) @ to_le 4 (fgeneration f) @ to_le 4 (flen f)
     @ [0, 0, 0, 0] @ to_le 8 (fchecksum f)"

text \<open>Decoding takes exactly \<open>FRAME_LEN\<close> bytes, by the type of its argument.\<close>

definition frame_decode :: "u8 list \<Rightarrow> (Frame, IoError) Result" where
  "frame_decode b =
     (if from_le (byte_slice 0 4 b) \<noteq> FRAME_MAGIC \<or> from_le (byte_slice 4 6 b) \<noteq> VERSION \<or> byte_slice 36 40 b \<noteq> [0, 0, 0, 0]
      then Err (invalid_data ''stream frame header is invalid'')
      else and_then (kind_try_from (b ! 6))
             (\<lambda>k. Ok \<lparr>fkind = k, fflags = b ! 7, ftransfer_id = from_le (byte_slice 8 16 b),
                      foffset = from_le (byte_slice 16 24 b), fslot = from_le (byte_slice 24 28 b),
                      fgeneration = from_le (byte_slice 28 32 b), flen = from_le (byte_slice 32 36 b),
                      fchecksum = from_le (byte_slice 40 48 b)\<rparr>))"

section \<open>Checksums\<close>

text \<open>\<open>as_chunks\<close>: the full chunks and the remainder; \<open>chunks(8)\<close> keeps a short last chunk.\<close>

fun full_chunks :: "nat \<Rightarrow> nat \<Rightarrow> 'b list \<Rightarrow> 'b list list" where
  "full_chunks 0 n bs = []"
| "full_chunks (Suc k) n bs = take n bs # full_chunks k n (drop n bs)"

definition as_chunks :: "nat \<Rightarrow> 'b list \<Rightarrow> 'b list list \<times> 'b list" where
  "as_chunks n bs = (full_chunks (length bs div n) n bs, drop (length bs div n * n) bs)"

definition chunks8 :: "'b list \<Rightarrow> 'b list list" where
  "chunks8 bs = full_chunks ((length bs + 7) div 8) 8 bs"

definition SEEDS :: "u64 list" where
  "SEEDS = [0xCBF29CE484222325, 0x9E3779B97F4A7C15, 0xD1B54A32D192ED03, 0xA0761D6478BD642F]"

definition finalize_checksum :: "u64 list \<Rightarrow> u64 \<Rightarrow> u64" where
  "finalize_checksum sums tail =
     (let sum = sums ! 0 XOR word_rotl 13 (sums ! 1) XOR word_rotl 29 (sums ! 2) XOR word_rotl 47 (sums ! 3) XOR tail;
          sum = sum XOR drop_bit 30 sum;
          sum = sum * 0xBF58476D1CE4E5B9;
          sum = sum XOR drop_bit 27 sum;
          sum = sum * 0x94D049BB133111EB
      in sum XOR drop_bit 31 sum)"

definition tail_sum :: "u8 list \<Rightarrow> u64" where
  "tail_sum remainder = fold (\<lambda>chunk tail. tail + from_le (chunk @ replicate (8 - length chunk) 0)) (chunks8 remainder) 0"

definition scalar_lanes :: "u64 list \<Rightarrow> u8 list \<Rightarrow> u64 list" where
  "scalar_lanes sums chunk =
     map (\<lambda>lane. let start = lane * 8; word = from_le (byte_slice start (start + 8) chunk)
                 in sums ! lane + (word XOR drop_bit (lane + 1) word)) [0..<4]"

definition checksum_scalar :: "u8 list \<Rightarrow> u64" where
  "checksum_scalar payload =
     (let (cs, remainder) = as_chunks 32 payload; sums = fold (\<lambda>chunk sums. scalar_lanes sums chunk) cs SEEDS
      in finalize_checksum sums (tail_sum remainder))"

text \<open>The 256-bit vector operations that the AVX2 version uses, on four 64-bit lanes (low lane first).\<close>

definition vload :: "u8 list \<Rightarrow> nat \<Rightarrow> u64 list" where
  "vload payload offset = map (\<lambda>lane. from_le (byte_slice (offset + lane * 8) (offset + lane * 8 + 8) payload)) [0..<4]"

definition vadd :: "u64 list \<Rightarrow> u64 list \<Rightarrow> u64 list" where
  "vadd a b = map2 (+) a b"

definition vmix :: "u64 list \<Rightarrow> u64 list" where
  "vmix words = map2 (\<lambda>w shift. w XOR drop_bit shift w) words [1, 2, 3, 4]"

fun avx2_loop4 :: "nat \<Rightarrow> u8 list \<Rightarrow> nat \<Rightarrow> nat \<Rightarrow> u64 list \<times> u64 list \<times> u64 list \<times> u64 list
    \<Rightarrow> (u64 list \<times> u64 list \<times> u64 list \<times> u64 list) \<times> nat" where
  "avx2_loop4 0 payload full_bytes offset s = (s, offset)"
| "avx2_loop4 (Suc n) payload full_bytes offset (s0, s1, s2, s3) =
     (if offset + 128 \<le> full_bytes
      then avx2_loop4 n payload full_bytes (offset + 128)
             (vadd s0 (vmix (vload payload offset)), vadd s1 (vmix (vload payload (offset + 32))),
              vadd s2 (vmix (vload payload (offset + 64))), vadd s3 (vmix (vload payload (offset + 96))))
      else ((s0, s1, s2, s3), offset))"

fun avx2_loop1 :: "nat \<Rightarrow> u8 list \<Rightarrow> nat \<Rightarrow> nat \<Rightarrow> u64 list \<Rightarrow> u64 list" where
  "avx2_loop1 0 payload full_bytes offset s0 = s0"
| "avx2_loop1 (Suc n) payload full_bytes offset s0 =
     (if offset < full_bytes
      then avx2_loop1 n payload full_bytes (offset + 32) (vadd s0 (vmix (vload payload offset))) else s0)"

text \<open>Both loops advance by at least one chunk a round, so the number of chunks bounds them.\<close>

definition checksum_avx2 :: "u8 list \<Rightarrow> u64" where
  "checksum_avx2 payload =
     (let full_bytes = length payload div 32 * 32; zero = [0, 0, 0, 0];
          ((s0, s1, s2, s3), offset) = avx2_loop4 (length payload) payload full_bytes 0 (SEEDS, zero, zero, zero);
          s0 = avx2_loop1 (length payload) payload full_bytes offset s0
      in finalize_checksum (vadd (vadd s0 s1) (vadd s2 s3)) (tail_sum (drop full_bytes payload)))"

text \<open>\<open>checksum\<close> picks by payload length and by what the processor offers.\<close>

definition checksum :: "bool \<Rightarrow> u8 list \<Rightarrow> u64" where
  "checksum has_avx2 payload =
     (if length payload \<ge> 256 \<and> has_avx2 then checksum_avx2 payload else checksum_scalar payload)"

definition fold_checksum :: "u64 \<Rightarrow> Frame \<Rightarrow> u64" where
  "fold_checksum aggregate f = word_rotl 7 aggregate XOR fchecksum f XOR foffset f * 0x9E3779B97F4A7C15"

section \<open>Arena layout\<close>

definition HEADER_LEN :: usize where "HEADER_LEN = 448"
definition CACHE_LINE :: usize where "CACHE_LINE = 64"

definition align_up :: "usize \<Rightarrow> usize \<Rightarrow> (usize, IoError) Result" where
  "align_up value alignment =
     ok_or (map_option (\<lambda>v. v AND NOT (alignment - 1)) (checked_add value (alignment - 1))) (invalid_input ''alignment overflow'')"

definition is_power_of_two :: "u64 \<Rightarrow> bool" where
  "is_power_of_two n \<longleftrightarrow> n \<noteq> 0 \<and> n AND (n - 1) = 0"

definition arena_layout :: "usize \<Rightarrow> usize \<Rightarrow> usize \<Rightarrow> (usize \<times> usize, IoError) Result" where
  "arena_layout slots slot_len descriptor_capacity =
     (if (slots = 0) \<noteq> (slot_len = 0) \<or> descriptor_capacity < 2 \<or> \<not> is_power_of_two descriptor_capacity
         \<or> descriptor_capacity > U32_MAX
      then Err (invalid_input ''stream arena dimensions are invalid'')
      else and_then (ok_or (checked_mul descriptor_capacity (of_nat FRAME_LEN)) (invalid_input ''descriptor bytes overflow''))
        (\<lambda>descriptors.
          and_then (ok_or (checked_add HEADER_LEN descriptors) (invalid_input ''arena offset overflow''))
            (\<lambda>unaligned.
              and_then (align_up unaligned CACHE_LINE)
                (\<lambda>payload_offset.
                  and_then (ok_or (checked_mul slots slot_len) (invalid_input ''arena payload bytes overflow''))
                    (\<lambda>payload.
                      and_then (ok_or (filter_option (\<lambda>b. b \<le> ISIZE_MAX) (checked_add payload_offset payload))
                                  (invalid_input ''arena length overflow''))
                        (\<lambda>len. Ok (len, payload_offset)))))))"

definition descriptor_capacity :: "usize \<Rightarrow> (usize, IoError) Result" where
  "descriptor_capacity slots =
     ok_or (do { v \<leftarrow> checked_mul slots 2; v \<leftarrow> checked_add v 2; checked_next_power_of_two v })
       (invalid_input ''descriptor capacity overflow'')"

text \<open>\<open>Arena::descriptor_ptr\<close>: the offset of a descriptor inside the region.\<close>

definition descriptor_offset :: "usize \<Rightarrow> u64 \<Rightarrow> usize" where
  "descriptor_offset capacity sequence =
     (let index = sequence AND (capacity - 1) in HEADER_LEN + index * of_nat FRAME_LEN)"

definition slot_offset :: "usize \<Rightarrow> usize \<Rightarrow> usize \<Rightarrow> usize" where
  "slot_offset payload_offset slot slot_len = payload_offset + slot * slot_len"

section \<open>Role claims\<close>

datatype DirectionRole = Producer | Consumer

definition role_claim :: "DirectionRole \<Rightarrow> u32" where
  "role_claim r = (case r of Producer \<Rightarrow> 1 | Consumer \<Rightarrow> 2)"

definition ROLE_CLAIM_MASK :: u32 where "ROLE_CLAIM_MASK = 3"

text \<open>
  \<open>claim_direction_role\<close> runs in both processes at once, so it is a state machine of one caller: the load
  of the shared word, then rounds of the two checks and the weak exchange. \<open>spurious\<close> is a weak exchange that
  fails although the word is unchanged.
\<close>

datatype Claimant =
    ClaimLoad DirectionRole
  | ClaimTry DirectionRole u32
  | ClaimDone DirectionRole "(unit, IoError) Result"

fun claim_direction_role :: "bool \<Rightarrow> u32 \<Rightarrow> Claimant \<Rightarrow> u32 \<times> Claimant" where
  "claim_direction_role spurious w (ClaimLoad role) = (w, ClaimTry role w)"
| "claim_direction_role spurious w (ClaimTry role current) =
     (if current AND NOT ROLE_CLAIM_MASK \<noteq> 0
      then (w, ClaimDone role (Err (invalid_data ''shared stream role claims are invalid'')))
      else if current AND role_claim role \<noteq> 0
      then (w, ClaimDone role (Err (IoError AlreadyExists ''IPC direction role is already claimed'')))
      else if w = current \<and> \<not> spurious
      then (current OR role_claim role, ClaimDone role (Ok ()))
      else (w, ClaimTry role w))"
| "claim_direction_role spurious w (ClaimDone role r) = (w, ClaimDone role r)"

inductive claim_run :: "u32 \<times> Claimant list \<Rightarrow> u32 \<times> Claimant list \<Rightarrow> bool" where
  claim_start: "claim_run c c"
| claim_step: "\<lbrakk>claim_run c (w, cs); i < length cs; claim_direction_role spurious w (cs ! i) = (w', x)\<rbrakk>
    \<Longrightarrow> claim_run c (w', cs[i := x])"

section \<open>Little-endian words\<close>

lemma bit_from_le:
  "bit (from_le bs :: 'a::len word) i \<longleftrightarrow> i < LENGTH('a) \<and> i div 8 < length bs \<and> bit (bs ! (i div 8)) (i mod 8)"
proof (induction bs arbitrary: i)
  case (Cons b bs)
  show ?case
  proof (cases "i < 8")
    case True
    then show ?thesis by (auto simp: bit_simps)
  next
    case False
    then obtain j where j: "i = j + 8" by (metis le_add_diff_inverse2 not_less)
    have "\<not> bit b (j + 8)" using bit_imp_le_length [of b "j + 8"] by auto
    moreover have "(j + 8) div 8 = Suc (j div 8)" by simp
    ultimately show ?thesis using Cons.IH [of j] by (auto simp: j bit_simps simp del: div_add_self2)
  qed
qed simp

lemma length_to_le [simp]: "length (to_le n w) = n"
  by (simp add: to_le_def)

lemma from_to_le:
  assumes "LENGTH('a) \<le> 8 * n"
  shows "from_le (to_le n (w :: 'a::len word)) = w"
proof (rule bit_word_eqI)
  fix i assume "i < LENGTH('a)"
  then have "i div 8 < n" using assms by auto
  moreover have "i div 8 * 8 + i mod 8 = i" by simp
  ultimately show "bit (from_le (to_le n w) :: 'a word) i = bit w i"
    using \<open>i < LENGTH('a)\<close> by (simp add: bit_from_le to_le_def bit_simps mult.commute)
qed

lemma to_from_le:
  assumes "8 * length bs \<le> LENGTH('a)"
  shows "to_le (length bs) (from_le bs :: 'a::len word) = bs"
proof (rule nth_equalityI)
  fix i assume i: "i < length (to_le (length bs) (from_le bs :: 'a word))"
  show "to_le (length bs) (from_le bs :: 'a word) ! i = bs ! i"
  proof (rule bit_word_eqI)
    fix j assume "j < LENGTH(8)"
    then have j: "j < 8" by simp
    then have "8 * i + j < LENGTH('a)" "(8 * i + j) div 8 = i" "(8 * i + j) mod 8 = j" using i assms by auto
    then show "bit (to_le (length bs) (from_le bs :: 'a word) ! i) j = bit (bs ! i) j"
      using i j by (simp add: to_le_def bit_simps bit_from_le)
  qed
qed simp

lemma slice_append_skip: "byte_slice (length xs + a) (length xs + b) (xs @ ys) = byte_slice a b ys"
  by (simp add: byte_slice_def)

lemma slice_all_append: "byte_slice 0 (length xs) (xs @ ys) = xs"
  by (simp add: byte_slice_def)

lemma length_slice [simp]: "length (byte_slice a b xs) = min (b - a) (length xs - a)"
  by (simp add: byte_slice_def min.commute)

lemma slice_append_slice:
  assumes "a \<le> b" "b \<le> c"
  shows "byte_slice a b xs @ byte_slice b c xs = byte_slice a c xs"
proof -
  from assms obtain d e where "b = a + d" "c = a + d + e" by (metis le_add_diff_inverse)
  then show ?thesis by (simp add: byte_slice_def take_add drop_drop add.commute)
qed

lemma to_from_slice:
  assumes "n = b - a" "a \<le> b" "b \<le> length bs" "8 * n \<le> LENGTH('a)"
  shows "to_le n (from_le (byte_slice a b bs) :: 'a::len word) = byte_slice a b bs"
  using to_from_le [of "byte_slice a b bs", where 'a = 'a] assms by simp

lemma slice_full: "byte_slice 0 (length xs) xs = xs"
  by (simp add: byte_slice_def)

lemma slice_single: "i < length xs \<Longrightarrow> byte_slice i (Suc i) xs = [xs ! i]"
  by (simp add: byte_slice_def take_Suc hd_drop_conv_nth)

section \<open>Frames\<close>

lemma kind_try_from_code [simp]: "kind_try_from (kind_code k) = Ok k"
  by (cases k) (simp_all add: kind_try_from_def kind_code_def)

lemma kind_code_try_from: "kind_try_from v = Ok k \<Longrightarrow> kind_code k = v"
  by (auto simp: kind_try_from_def kind_code_def split: if_splits)

lemma length_frame_encode [simp]: "length (frame_encode f) = FRAME_LEN"
  by (simp add: frame_encode_def FRAME_LEN_def)

lemma frame_roundtrip: "frame_decode (frame_encode f) = Ok f"
proof -
  obtain k fl t ofs sl g l c where f: "f = \<lparr>fkind = k, fflags = fl, ftransfer_id = t, foffset = ofs, fslot = sl,
      fgeneration = g, flen = l, fchecksum = c\<rparr>" by (cases f)
  have e: "to_le 4 w = [to_le 4 w ! 0, to_le 4 w ! 1, to_le 4 w ! 2, to_le 4 w ! 3]" for w :: u32
    by (simp add: to_le_def upt_rec)
  have e8: "to_le 8 w = map (\<lambda>i. to_le 8 w ! i) [0,1,2,3,4,5,6,7]" for w :: u64
    by (simp add: to_le_def upt_rec)
  have "byte_slice 0 4 (frame_encode f) = to_le 4 FRAME_MAGIC" "byte_slice 4 6 (frame_encode f) = to_le 2 VERSION"
    "byte_slice 36 40 (frame_encode f) = [0, 0, 0, 0]" "frame_encode f ! 6 = kind_code k" "frame_encode f ! 7 = fl"
    "byte_slice 8 16 (frame_encode f) = to_le 8 t" "byte_slice 16 24 (frame_encode f) = to_le 8 ofs"
    "byte_slice 24 28 (frame_encode f) = to_le 4 sl" "byte_slice 28 32 (frame_encode f) = to_le 4 g"
    "byte_slice 32 36 (frame_encode f) = to_le 4 l" "byte_slice 40 48 (frame_encode f) = to_le 8 c"
    by (simp_all add: f frame_encode_def byte_slice_def nth_append)
  then show ?thesis by (simp add: frame_decode_def from_to_le f)
qed
lemma frame_canonical:
  assumes "length b = FRAME_LEN" "frame_decode b = Ok f"
  shows "frame_encode f = b"
proof -
  have s: "byte_slice i j b @ byte_slice j k b = byte_slice i k b" if "i \<le> j" "j \<le> k" for i j k
    by (rule slice_append_slice) (use that in auto)
  have l: "length b = 48" using assms(1) by (simp add: FRAME_LEN_def)
  have h: "from_le (byte_slice 0 4 b) = FRAME_MAGIC" "from_le (byte_slice 4 6 b) = VERSION" "byte_slice 36 40 b = [0, 0, 0, 0]"
    using assms(2) by (auto simp: frame_decode_def split: if_splits)
  then obtain k where k: "kind_try_from (b ! 6) = Ok k" and
    f: "f = \<lparr>fkind = k, fflags = b ! 7, ftransfer_id = from_le (byte_slice 8 16 b), foffset = from_le (byte_slice 16 24 b),
            fslot = from_le (byte_slice 24 28 b), fgeneration = from_le (byte_slice 28 32 b), flen = from_le (byte_slice 32 36 b),
            fchecksum = from_le (byte_slice 40 48 b)\<rparr>"
    using assms(2) by (auto simp: frame_decode_def and_then_Ok_conv)
  have m: "to_le 4 FRAME_MAGIC = byte_slice 0 4 b" "to_le 2 VERSION = byte_slice 4 6 b"
    unfolding h(1,2) [symmetric] using l by (simp_all add: to_from_slice)
  have "frame_encode f = byte_slice 0 4 b @ byte_slice 4 6 b @ byte_slice 6 7 b @ byte_slice 7 8 b @ byte_slice 8 16 b @ byte_slice 16 24 b
     @ byte_slice 24 28 b @ byte_slice 28 32 b @ byte_slice 32 36 b @ byte_slice 36 40 b @ byte_slice 40 48 b"
    using h(3) kind_code_try_from [OF k] l slice_single [of 6 b] slice_single [of 7 b]
    by (simp add: frame_encode_def f m to_from_slice)
  also have "\<dots> = byte_slice 0 48 b" by (simp add: s)
  also have "\<dots> = b" using slice_full [of b] l by simp
  finally show ?thesis .
qed

text \<open>C26. The frame codec has no redundancy: a 48-byte block decodes to a frame exactly when it is that frame's encoding, so every frame survives the round trip and every accepted block is canonical.\<close>

theorem frame_codec_bijective:
  assumes "length b = FRAME_LEN"
  shows "frame_decode b = Ok f \<longleftrightarrow> b = frame_encode f"
  using frame_canonical [OF assms] frame_roundtrip by blast

theorem frame_codec_bijective_witness:
  "length (frame_encode \<lparr>fkind = KReleased, fflags = 1, ftransfer_id = 7, foffset = 0x1234567890, fslot = 3,
       fgeneration = 9, flen = 4096, fchecksum = 0xFFEEDDCCBBAA9988\<rparr>) = FRAME_LEN
   \<and> frame_decode (frame_encode \<lparr>fkind = KReleased, fflags = 1, ftransfer_id = 7, foffset = 0x1234567890, fslot = 3,
       fgeneration = 9, flen = 4096, fchecksum = 0xFFEEDDCCBBAA9988\<rparr>)
     = Ok \<lparr>fkind = KReleased, fflags = 1, ftransfer_id = 7, foffset = 0x1234567890, fslot = 3,
       fgeneration = 9, flen = 4096, fchecksum = 0xFFEEDDCCBBAA9988\<rparr>"
  by (simp add: frame_codec_bijective)

section \<open>Checksum agreement\<close>

text \<open>What one 32-byte chunk adds to a lane, and what a run of chunks adds.\<close>

definition lane_mix :: "u8 list \<Rightarrow> nat \<Rightarrow> nat \<Rightarrow> u64" where
  "lane_mix payload offset lane =
     (let word = from_le (byte_slice (offset + lane * 8) (offset + lane * 8 + 8) payload)
      in word XOR drop_bit (lane + 1) word)"

definition lane_run :: "u8 list \<Rightarrow> nat \<Rightarrow> nat \<Rightarrow> nat \<Rightarrow> u64" where
  "lane_run payload offset n lane = (\<Sum>k<n. lane_mix payload (offset + 32 * k) lane)"

lemma lane_run_0 [simp]: "lane_run payload offset 0 lane = 0"
  by (simp add: lane_run_def)

lemma lane_run_Suc: "lane_run payload offset (Suc n) lane = lane_mix payload offset lane + lane_run payload (offset + 32) n lane"
  unfolding lane_run_def by (subst sum.lessThan_Suc_shift) (simp add: algebra_simps)

abbreviation lanes :: "(nat \<Rightarrow> u64) \<Rightarrow> u64 list" where
  "lanes f \<equiv> map f [0..<4]"

lemma vadd_lanes [simp]: "vadd (lanes f) (lanes g) = lanes (\<lambda>i. f i + g i)"
  by (simp add: vadd_def upt_rec)

lemma vmix_vload [simp]: "vmix (vload payload offset) = lanes (lane_mix payload offset)"
  by (simp add: vmix_def vload_def lane_mix_def upt_rec Let_def numeral_2_eq_2 numeral_3_eq_3 eval_nat_numeral(2) [of "num.Bit0 num.One"])

lemma scalar_lanes_lanes: "scalar_lanes (lanes f) chunk = lanes (\<lambda>i. f i + lane_mix chunk 0 i)"
  by (simp add: scalar_lanes_def lane_mix_def Let_def)

lemma lanes_exist: "length xs = 4 \<Longrightarrow> \<exists>f. xs = lanes f"
  by (intro exI [of _ "(!) xs"]) (metis map_nth)

lemma lane_mix_take: "lane < 4 \<Longrightarrow> lane_mix (take 32 bs) 0 lane = lane_mix bs 0 lane"
  by (simp add: lane_mix_def byte_slice_def drop_take min_def)

lemma lane_mix_drop: "lane_mix (drop m bs) offset lane = lane_mix bs (m + offset) lane"
  by (simp add: lane_mix_def byte_slice_def ac_simps)

lemma lane_run_drop: "lane_run (drop m bs) offset n lane = lane_run bs (m + offset) n lane"
  by (simp add: lane_run_def lane_mix_drop add.assoc)

lemma scalar_run:
  "fold (\<lambda>chunk sums. scalar_lanes sums chunk) (full_chunks n 32 bs) (lanes f) = lanes (\<lambda>i. f i + lane_run bs 0 n i)"
proof (induction n arbitrary: bs f)
  case (Suc n)
  have "fold (\<lambda>chunk sums. scalar_lanes sums chunk) (full_chunks (Suc n) 32 bs) (lanes f)
      = lanes (\<lambda>i. f i + lane_mix (take 32 bs) 0 i + lane_run (drop 32 bs) 0 n i)"
    by (simp add: scalar_lanes_lanes Suc.IH)
  also have "\<dots> = lanes (\<lambda>i. f i + lane_run bs 0 (Suc n) i)"
    by (rule map_cong) (simp_all add: lane_mix_take lane_run_drop lane_run_Suc add.assoc)
  finally show ?case .
qed simp

lemma avx2_loop1_run:
  assumes "offset + 32 * n = full_bytes" "n \<le> fuel"
  shows "avx2_loop1 fuel bs full_bytes offset (lanes f) = lanes (\<lambda>i. f i + lane_run bs offset n i)"
  using assms
proof (induction fuel arbitrary: offset n f)
  case (Suc fuel)
  show ?case
  proof (cases n)
    case 0
    then show ?thesis using Suc.prems by simp
  next
    case (Suc m)
    then show ?thesis using Suc.IH [of "offset + 32" m] Suc.prems by (simp add: lane_run_Suc add.assoc)
  qed
qed simp

text \<open>After the four-way loop fewer than four chunks are left, and nothing is lost from the lane totals.\<close>

lemma avx2_loop4_run:
  assumes "offset + 32 * n = full_bytes" "n \<le> fuel"
  shows "\<exists>g0 g1 g2 g3 m. avx2_loop4 fuel bs full_bytes offset (lanes f0, lanes f1, lanes f2, lanes f3)
           = ((lanes g0, lanes g1, lanes g2, lanes g3), full_bytes - 32 * m) \<and> 32 * m \<le> full_bytes \<and> m \<le> n
         \<and> (\<forall>i. g0 i + g1 i + g2 i + g3 i + lane_run bs (full_bytes - 32 * m) m i
                = f0 i + f1 i + f2 i + f3 i + lane_run bs offset n i)"
  using assms
proof (induction fuel arbitrary: offset n f0 f1 f2 f3)
  case 0
  then show ?case by - (rule exI [of _ f0], rule exI [of _ f1], rule exI [of _ f2], rule exI [of _ f3], rule exI [of _ 0], simp)
next
  case (Suc fuel)
  show ?case
  proof (cases "offset + 128 \<le> full_bytes")
    case False
    then show ?thesis using Suc.prems
      by - (rule exI [of _ f0], rule exI [of _ f1], rule exI [of _ f2], rule exI [of _ f3], rule exI [of _ n], auto)
  next
    case True
    then have "4 \<le> n" using Suc.prems by linarith
    then obtain m where m: "n = m + 4" by (metis le_add_diff_inverse2)
    have r: "lane_run bs offset n i = lane_mix bs offset i + lane_mix bs (offset + 32) i + lane_mix bs (offset + 64) i
        + lane_mix bs (offset + 96) i + lane_run bs (offset + 128) m i" for i
      using lane_run_Suc [of bs offset "m + 3" i] lane_run_Suc [of bs "offset + 32" "m + 2" i]
        lane_run_Suc [of bs "offset + 64" "m + 1" i] lane_run_Suc [of bs "offset + 96" m i]
      by (simp add: m numeral_eq_Suc add.assoc)
    have pre: "offset + 128 + 32 * m = full_bytes" "m \<le> fuel" using Suc.prems m by auto
    let ?f0 = "\<lambda>i. f0 i + lane_mix bs offset i" and ?f1 = "\<lambda>i. f1 i + lane_mix bs (offset + 32) i"
    let ?f2 = "\<lambda>i. f2 i + lane_mix bs (offset + 64) i" and ?f3 = "\<lambda>i. f3 i + lane_mix bs (offset + 96) i"
    obtain g0 g1 g2 g3 l where
      e: "avx2_loop4 fuel bs full_bytes (offset + 128) (lanes ?f0, lanes ?f1, lanes ?f2, lanes ?f3)
           = ((lanes g0, lanes g1, lanes g2, lanes g3), full_bytes - 32 * l)"
      and l: "32 * l \<le> full_bytes" "l \<le> m"
      and t: "\<forall>i. g0 i + g1 i + g2 i + g3 i + lane_run bs (full_bytes - 32 * l) l i
                = ?f0 i + ?f1 i + ?f2 i + ?f3 i + lane_run bs (offset + 128) m i"
      using Suc.IH [of "offset + 128" m ?f0 ?f1 ?f2 ?f3, OF pre] by (elim exE conjE) (rule that)
    have "avx2_loop4 (Suc fuel) bs full_bytes offset (lanes f0, lanes f1, lanes f2, lanes f3)
        = ((lanes g0, lanes g1, lanes g2, lanes g3), full_bytes - 32 * l)"
      using True by (simp only: avx2_loop4.simps vmix_vload vadd_lanes e if_True)
    moreover have "\<forall>i. g0 i + g1 i + g2 i + g3 i + lane_run bs (full_bytes - 32 * l) l i
                = f0 i + f1 i + f2 i + f3 i + lane_run bs offset n i"
      using t by (simp add: r algebra_simps)
    ultimately show ?thesis using l m by (intro exI conjI) (assumption | simp)+
  qed
qed

lemma checksum_avx2_scalar: "checksum_avx2 payload = checksum_scalar payload"
proof -
  let ?n = "length payload div 32" and ?full = "length payload div 32 * 32"
  let ?z = "lanes (\<lambda>_. 0)"
  obtain s where s: "SEEDS = lanes s" using lanes_exist [of SEEDS] by (auto simp: SEEDS_def)
  have pre: "0 + 32 * ?n = ?full" "?n \<le> length payload" by simp_all
  obtain g0 g1 g2 g3 m where
    l4: "avx2_loop4 (length payload) payload ?full 0 (lanes s, ?z, ?z, ?z)
           = ((lanes g0, lanes g1, lanes g2, lanes g3), ?full - 32 * m)"
    and m: "32 * m \<le> ?full" "m \<le> ?n"
    and t: "\<And>i. g0 i + g1 i + g2 i + g3 i + lane_run payload (?full - 32 * m) m i = s i + lane_run payload 0 ?n i"
    using avx2_loop4_run [of 0 ?n ?full "length payload" payload s "\<lambda>_. 0" "\<lambda>_. 0" "\<lambda>_. 0", OF pre]
    by (elim exE conjE) (rule that, assumption+, simp)
  have l1: "avx2_loop1 (length payload) payload ?full (?full - 32 * m) (lanes g0)
      = lanes (\<lambda>i. g0 i + lane_run payload (?full - 32 * m) m i)"
    by (rule avx2_loop1_run) (use m in auto)
  have "(\<lambda>i. g0 i + lane_run payload (?full - 32 * m) m i + g1 i + (g2 i + g3 i)) = (\<lambda>i. s i + lane_run payload 0 ?n i)"
    using t by (auto simp: fun_eq_iff algebra_simps)
  then have "vadd (vadd (lanes (\<lambda>i. g0 i + lane_run payload (?full - 32 * m) m i)) (lanes g1)) (vadd (lanes g2) (lanes g3))
      = lanes (\<lambda>i. s i + lane_run payload 0 ?n i)" by (simp only: vadd_lanes)
  moreover have "[0, 0, 0, 0] = ?z" by (simp add: upt_rec)
  ultimately show ?thesis
    unfolding checksum_avx2_def checksum_scalar_def as_chunks_def Let_def s \<open>[0, 0, 0, 0] = ?z\<close> l4 split_conv l1
    by (simp only: scalar_run)
qed

text \<open>C27. The checksum of a payload is the same whichever implementation the processor selects: the vector loops agree with the scalar loop on every byte sequence.\<close>

theorem checksum_agrees: "checksum True payload = checksum False payload"
  by (simp add: checksum_def checksum_avx2_scalar)

section \<open>Shapes and chunks\<close>

lemma unat_div_ceil:
  assumes "b \<noteq> 0"
  shows "unat (div_ceil a b) = (if unat a mod unat b > 0 then unat a div unat b + 1 else unat a div unat b)"
proof -
  have b: "0 < unat b" using assms by (simp add: unat_gt_0)
  have m: "0 < a mod b \<longleftrightarrow> 0 < unat a mod unat b" by (simp add: word_less_nat_alt unat_mod)
  show ?thesis
  proof (cases "unat a mod unat b > 0")
    case True
    then have "unat b \<noteq> 1" by auto
    then have "unat a div unat b < unat a" using True b by (intro div_less_dividend) (auto intro: gr0I)
    moreover have "unat a < 2 ^ 64" using unsigned_less [where ?'a = nat, of a] by simp
    ultimately show ?thesis using True m by (simp add: div_ceil_def unat_word_ariths unat_div)
  next
    case False
    then show ?thesis using m by (simp add: div_ceil_def unat_div)
  qed
qed

lemma less_div_ceil:
  assumes "b \<noteq> 0"
  shows "i < unat (div_ceil a b) \<longleftrightarrow> i * unat b < unat a"
proof -
  have b: "0 < unat b" using assms by (simp add: unat_gt_0)
  have a: "unat a = unat a div unat b * unat b + unat a mod unat b" by simp
  show ?thesis
  proof (cases "unat a mod unat b > 0")
    case True
    have "i * unat b < unat a \<longleftrightarrow> i \<le> unat a div unat b"
    proof
      assume "i * unat b < unat a"
      then show "i \<le> unat a div unat b" by (metis b div_le_mono less_imp_le nonzero_mult_div_cancel_right not_less0)
    next
      assume "i \<le> unat a div unat b"
      then have "i * unat b \<le> unat a div unat b * unat b" by simp
      then show "i * unat b < unat a" using True a by linarith
    qed
    then show ?thesis using True by (simp add: unat_div_ceil [OF assms] less_Suc_eq_le)
  next
    case False
    then have "unat a = unat a div unat b * unat b" using a by simp
    then have "i * unat b < unat a \<longleftrightarrow> i < unat a div unat b" by (metis b mult_less_cancel2)
    then show ?thesis using False by (simp add: unat_div_ceil [OF assms])
  qed
qed

lemma shape_validate_Ok:
  "shape_validate s = Ok () \<longleftrightarrow>
     0 < unat (chunk_bytes s) \<and> unat (chunk_bytes s) < 2 ^ 32 \<and> 0 < unat (stream_slots s) \<and> unat (stream_slots s) < 2 ^ 32
     \<and> unat (stream_slots s) * unat (chunk_bytes s) < 2 ^ 63 \<and> unat (div_ceil (chunks s) (stream_slots s)) < 2 ^ 32"
proof -
  have z: "w = 0 \<longleftrightarrow> \<not> 0 < unat w" for w :: u64 by (simp add: unat_gt_0)
  have u: "w > U32_MAX \<longleftrightarrow> \<not> unat w < 2 ^ 32" for w :: u64 by (auto simp: U32_MAX_def word_less_nat_alt)
  have i: "(a * b \<le> ISIZE_MAX) = (unat a * unat b < 2 ^ 63)" if "unat a * unat b < 2 ^ 64" for a b :: u64
    using that by (auto simp: ISIZE_MAX_def word_le_nat_alt unat_word_ariths)
  show ?thesis
    unfolding shape_validate_def Let_def u
    by (auto simp: z i checked_mul_def filter_option_def ok_or_def)
qed

lemma chunk_meta_Ok:
  assumes "shape_validate s = Ok ()" "i < unat (chunks s)"
  shows "chunk_meta s (of_nat i)
    = Ok (of_nat (i * unat (chunk_bytes s)),
          of_nat (min (unat (total_bytes s) - i * unat (chunk_bytes s)) (unat (chunk_bytes s))),
          of_nat (i mod unat (stream_slots s)), of_nat (i div unat (stream_slots s) + 1))"
proof -
  let ?B = "unat (chunk_bytes s)" and ?S = "unat (stream_slots s)" and ?T = "unat (total_bytes s)"
  have v: "chunk_bytes s \<noteq> 0" "stream_slots s \<noteq> 0" "0 < ?S" "unat (div_ceil (chunks s) (stream_slots s)) < 2 ^ 32"
    using assms(1) by (auto simp: shape_validate_Ok unat_gt_0)
  have lt: "i * ?B < ?T" using assms(2) less_div_ceil [OF v(1)] by (simp add: chunks_def)
  have T: "?T < 2 ^ 64" and N: "unat (chunks s) < 2 ^ 64"
    using unsigned_less [where ?'a = nat, of "total_bytes s"] unsigned_less [where ?'a = nat, of "chunks s"] by simp_all
  have i: "unat (of_nat i :: u64) = i" using assms(2) N by (simp add: unat_of_nat_usize)
  have o: "unat (of_nat i * chunk_bytes s) = i * ?B" using lt T i by (simp add: unat_word_ariths)
  have oe: "of_nat i * chunk_bytes s = of_nat (i * ?B)" by simp
  have len: "min (total_bytes s - of_nat i * chunk_bytes s) (chunk_bytes s) = of_nat (min (?T - i * ?B) ?B)"
  proof -
    have "unat (total_bytes s - of_nat i * chunk_bytes s) = ?T - i * ?B"
      using o lt by (simp add: unat_sub word_le_nat_alt)
    moreover have "min (?T - i * ?B) ?B < 2 ^ 64" using T by linarith
    ultimately show ?thesis by (simp add: word_unat_eq_iff unat_min unat_of_nat_usize del: of_nat_min)
  qed
  have g: "i div ?S + 1 \<le> unat (div_ceil (chunks s) (stream_slots s))"
  proof -
    have "i div ?S * ?S \<le> i" by simp
    then have "i div ?S * ?S < unat (chunks s)" using assms(2) by linarith
    then show ?thesis using less_div_ceil [OF v(2)] by (simp add: Suc_le_eq)
  qed
  then have g2: "i div ?S + 1 < 2 ^ 32" using v by linarith
  then have gu: "unat (of_nat (i div ?S + 1) :: u64) = i div ?S + 1" by (intro unat_of_nat_usize) simp
  have ge: "of_nat i div stream_slots s + 1 = (of_nat (i div ?S + 1) :: u64)"
    using gu g2 i by (simp only: word_unat_eq_iff unat_word_ariths unat_div) simp
  have uc: "ucast (of_nat (i div ?S + 1) :: u64) = (of_nat (i div ?S + 1) :: u32)"
    by (metis gu of_nat_unat)
  have se: "of_nat i mod stream_slots s = (of_nat (i mod ?S) :: u64)"
  proof -
    have "i mod ?S < 2 ^ 64" using assms(2) N mod_less_eq_dividend [of i ?S] by linarith
    then show ?thesis by (simp only: word_unat_eq_iff unat_mod i unat_of_nat_usize)
  qed
  show ?thesis
    unfolding chunk_meta_def checked_mul_def i
    using lt T o gu g2 uc
    by (simp add: ok_or_def word_le_nat_alt U32_MAX_def len [unfolded oe] oe ge se Let_def del: of_nat_add of_nat_mult of_nat_Suc Suc_eq_plus1)
qed

lemma chunk_meta_unat:
  assumes "shape_validate s = Ok ()" "i < unat (chunks s)"
  shows "\<exists>m. chunk_meta s (of_nat i) = Ok m \<and> unat (fst m) = i * unat (chunk_bytes s)
    \<and> unat (fst (snd m)) = min (unat (total_bytes s) - i * unat (chunk_bytes s)) (unat (chunk_bytes s))
    \<and> unat (fst (snd (snd m))) = i mod unat (stream_slots s)
    \<and> unat (snd (snd (snd m))) = i div unat (stream_slots s) + 1"
proof -
  let ?B = "unat (chunk_bytes s)" and ?S = "unat (stream_slots s)" and ?T = "unat (total_bytes s)"
  have v: "chunk_bytes s \<noteq> 0" "stream_slots s \<noteq> 0" "unat (div_ceil (chunks s) (stream_slots s)) < 2 ^ 32"
    using assms(1) by (auto simp: shape_validate_Ok unat_gt_0)
  have T: "?T < 2 ^ 64" and N: "unat (chunks s) < 2 ^ 64"
    using unsigned_less [where ?'a = nat, of "total_bytes s"] unsigned_less [where ?'a = nat, of "chunks s"] by simp_all
  have lt: "i * ?B < ?T" using assms(2) less_div_ceil [OF v(1)] by (simp add: chunks_def)
  then have o: "i * ?B < 2 ^ 64" and l: "min (?T - i * ?B) ?B < 2 ^ 64" using T by linarith+
  have sl: "i mod ?S < 2 ^ 64" using assms(2) N mod_less_eq_dividend [of i ?S] by linarith
  have "i div ?S * ?S < unat (chunks s)" using assms(2) by (meson div_times_less_eq_dividend le_less_trans)
  then have "i div ?S < unat (div_ceil (chunks s) (stream_slots s))" using less_div_ceil [OF v(2)] by blast
  then have "i div ?S + 1 < 2 ^ 32" using v(3) by linarith
  then have "unat (of_nat (i div ?S + 1) :: u32) = i div ?S + 1" by (simp only: unat_of_nat) simp
  then show ?thesis
    unfolding chunk_meta_Ok [OF assms] using unat_of_nat_usize [OF o] unat_of_nat_usize [OF l] unat_of_nat_usize [OF sl]
    by (simp only: Result.inject ex_simps fst_conv snd_conv simp_thms ex_simps)
qed

lemma concat_chunks:
  "concat (map (\<lambda>i. [i * B..<i * B + min (T - i * B) B]) [0..<n]) = [0..<min (n * B) T]" for B T :: nat
proof (induction n)
  case (Suc n)
  show ?case
  proof (cases "n * B \<le> T")
    case True
    then have "min (Suc n * B) T = n * B + min (T - n * B) B" by simp
    then show ?thesis using True by (simp add: Suc.IH upt_add_eq_append [of 0])
  next
    case False
    then have "min (n * B) T = T" "min (Suc n * B) T = T" "min (T - n * B) B = 0" by auto
    then show ?thesis by (simp add: Suc.IH)
  qed
qed simp

text \<open>C28. A validated shape partitions its transfer: every chunk below the chunk count has metadata, the byte ranges of the chunks in order are exactly the bytes from zero to the total, every chunk is non-empty and fits its slot, every slot number is in range, and no two chunks share a slot with the same generation.\<close>

theorem chunk_meta_partition:
  assumes "shape_validate s = Ok ()"
  shows "\<exists>ms. length ms = unat (chunks s) \<and> (\<forall>i < length ms. chunk_meta s (of_nat i) = Ok (ms ! i))
    \<and> concat (map (\<lambda>(offset, len, _). [unat offset..<unat offset + unat len]) ms) = [0..<unat (total_bytes s)]
    \<and> (\<forall>(offset, len, slot, generation) \<in> set ms. 0 < len \<and> len \<le> chunk_bytes s \<and> slot < stream_slots s \<and> 0 < generation)
    \<and> distinct (map (\<lambda>(offset, len, slot, generation). (slot, generation)) ms)"
proof -
  let ?B = "unat (chunk_bytes s)" and ?S = "unat (stream_slots s)" and ?T = "unat (total_bytes s)" and ?N = "unat (chunks s)"
  have v: "chunk_bytes s \<noteq> 0" "0 < ?S" "0 < ?B" using assms by (auto simp: shape_validate_Ok unat_gt_0)
  obtain M where M: "\<And>i. i < ?N \<Longrightarrow> chunk_meta s (of_nat i) = Ok (M i)"
    "\<And>i. i < ?N \<Longrightarrow> unat (fst (M i)) = i * ?B"
    "\<And>i. i < ?N \<Longrightarrow> unat (fst (snd (M i))) = min (?T - i * ?B) ?B"
    "\<And>i. i < ?N \<Longrightarrow> unat (fst (snd (snd (M i)))) = i mod ?S"
    "\<And>i. i < ?N \<Longrightarrow> unat (snd (snd (snd (M i)))) = i div ?S + 1"
    using chunk_meta_unat [OF assms] by metis
  have lt: "i < ?N \<longleftrightarrow> i * ?B < ?T" for i using less_div_ceil [OF v(1)] by (simp add: chunks_def)
  have "?T \<le> ?N * ?B" using lt [of ?N] by simp
  then have "concat (map (\<lambda>i. [i * ?B..<i * ?B + min (?T - i * ?B) ?B]) [0..<?N]) = [0..<?T]"
    unfolding concat_chunks by (simp add: min_def)
  moreover have "map (\<lambda>(offset, len, _). [unat offset..<unat offset + unat len]) (map M [0..<?N])
      = map (\<lambda>i. [i * ?B..<i * ?B + min (?T - i * ?B) ?B]) [0..<?N]"
    unfolding map_map by (rule map_cong) (auto simp: M(2,3) case_prod_beta)
  ultimately have c: "concat (map (\<lambda>(offset, len, _). [unat offset..<unat offset + unat len]) (map M [0..<?N])) = [0..<?T]"
    by (simp only:)
  have "inj_on (\<lambda>i. (fst (snd (snd (M i))), snd (snd (snd (M i))))) {0..<?N}"
  proof (rule inj_onI)
    fix i j assume ij: "i \<in> {0..<?N}" "j \<in> {0..<?N}"
      and e: "(fst (snd (snd (M i))), snd (snd (snd (M i)))) = (fst (snd (snd (M j))), snd (snd (snd (M j))))"
    then have "i mod ?S = j mod ?S" "i div ?S = j div ?S" using M(4,5) [of i] M(4,5) [of j] by simp_all
    then show "i = j" by (metis div_mult_mod_eq)
  qed
  then have d: "distinct (map (\<lambda>(offset, len, slot, generation). (slot, generation)) (map M [0..<?N]))"
    by (simp add: case_prod_beta o_def distinct_map)
  have p: "0 < fst (snd (M i)) \<and> fst (snd (M i)) \<le> chunk_bytes s \<and> fst (snd (snd (M i))) < stream_slots s
      \<and> 0 < snd (snd (snd (M i)))" if "i < ?N" for i
    using M [OF that] that v by (simp add: word_less_nat_alt word_le_nat_alt lt)
  show ?thesis using M(1) c d p
    by (intro exI [of _ "map M [0..<?N]"]) (auto simp: case_prod_beta)
qed

theorem chunk_meta_partition_witness:
  "let s = \<lparr>total_bytes = 10, chunk_bytes = 4, stream_slots = 2\<rparr>
   in chunks s = 3 \<and> chunk_meta s 2 = Ok (8, 2, 0, 2) \<and>
     (\<exists>ms :: (u64 \<times> usize \<times> usize \<times> u32) list. length ms = 3 \<and> concat (map (\<lambda>(offset, len, _). [unat offset..<unat offset + unat len]) ms) = [0..<10])"
proof -
  let ?s = "\<lparr>total_bytes = 10, chunk_bytes = 4, stream_slots = 2\<rparr>"
  have "shape_validate ?s = Ok ()" and c: "chunks ?s = 3" and m: "chunk_meta ?s 2 = Ok (8, 2, 0, 2)"
    by (simp_all add: shape_validate_Ok chunks_def div_ceil_def chunk_meta_def checked_mul_def ok_or_def U32_MAX_def)
  from chunk_meta_partition [OF this(1)] c m show ?thesis unfolding Let_def by auto
qed

section \<open>Role claims are exclusive\<close>

definition role_claimed :: "u32 \<Rightarrow> DirectionRole \<Rightarrow> bool" where
  "role_claimed w r \<longleftrightarrow> w AND role_claim r \<noteq> 0"

definition claim_winners :: "Claimant list \<Rightarrow> DirectionRole \<Rightarrow> nat" where
  "claim_winners cs r = count_list cs (ClaimDone r (Ok ()))"

fun claim_role :: "Claimant \<Rightarrow> DirectionRole" where
  "claim_role (ClaimLoad r) = r"
| "claim_role (ClaimTry r c) = r"
| "claim_role (ClaimDone r x) = r"

text \<open>What a caller knows of the shared word: what it observed is still claimed, and a finished caller's role is.\<close>

fun claim_entry :: "u32 \<Rightarrow> Claimant \<Rightarrow> bool" where
  "claim_entry w (ClaimLoad r) \<longleftrightarrow> True"
| "claim_entry w (ClaimTry r c) \<longleftrightarrow> c \<in> {0, 1, 2, 3} \<and> (\<forall>r. role_claimed c r \<longrightarrow> role_claimed w r)"
| "claim_entry w (ClaimDone r x) \<longleftrightarrow> role_claimed w r"

fun claim_returned :: "Claimant \<Rightarrow> bool" where
  "claim_returned (ClaimDone r x) = True"
| "claim_returned _ = False"

definition claim_inv :: "u32 \<times> Claimant list \<Rightarrow> bool" where
  "claim_inv s \<longleftrightarrow> (case s of (w, cs) \<Rightarrow>
     w \<in> {0, 1, 2, 3} \<and> (\<forall>r. claim_winners cs r = (if role_claimed w r then 1 else 0)) \<and> (\<forall>x \<in> set cs. claim_entry w x))"

lemma role_words [simp]:
  "role_claimed 0 r \<longleftrightarrow> False" "role_claimed 1 r \<longleftrightarrow> r = Producer" "role_claimed 2 r \<longleftrightarrow> r = Consumer" "role_claimed 3 r"
  by (cases r; simp add: role_claimed_def role_claim_def)+

lemma role_word_or:
  assumes "w \<in> {0, 1, 2, 3}"
  shows "w OR role_claim q \<in> {0, 1, 2, 3}" "role_claimed (w OR role_claim q) r \<longleftrightarrow> role_claimed w r \<or> r = q"
  using assms by (cases q; cases r; auto simp: role_claim_def)+

lemma claim_entry_mono:
  "claim_entry w x \<Longrightarrow> (\<And>r. role_claimed w r \<Longrightarrow> role_claimed w' r) \<Longrightarrow> claim_entry w' x"
  by (cases x) auto

text \<open>A step of a caller that has not finished either wins its role, or leaves the word and moves on.\<close>

lemma claim_direction_role_cases:
  assumes "w \<in> {0, 1, 2, 3}" "claim_entry w c" "claim_direction_role spurious w c = (w', x)"
  obtains "w' = w" "x = c"
  | "w' = w" "\<And>r. c \<noteq> ClaimDone r (Ok ())" "\<And>r. x \<noteq> ClaimDone r (Ok ())" "claim_entry w x"
  | role where "c = ClaimTry role w" "\<not> role_claimed w role" "w' = w OR role_claim role" "x = ClaimDone role (Ok ())"
proof (cases c)
  case (ClaimTry role current)
  show ?thesis
  proof (cases "w' = w")
    case True
    have "x \<noteq> ClaimDone r (Ok ())" for r
      using assms ClaimTry True by (cases role) (auto simp: role_claim_def split: if_splits)
    moreover have "claim_entry w x"
      using assms ClaimTry True
      by (cases role) (auto simp: ROLE_CLAIM_MASK_def role_claim_def split: if_splits)
    ultimately show ?thesis using that(2) True ClaimTry by simp
  next
    case False
    then show ?thesis using that(3) assms(3) ClaimTry by (auto simp: role_claimed_def split: if_splits)
  qed
next
  case (ClaimLoad role)
  then show ?thesis using assms by (intro that(2)) auto
next
  case (ClaimDone role r)
  then show ?thesis using assms(3) by (intro that(1)) auto
qed

lemma claim_inv_step:
  assumes "claim_inv (w, cs)" "i < length cs" "claim_direction_role spurious w (cs ! i) = (w', x)"
  shows "claim_inv (w', cs[i := x])"
proof -
  have w: "w \<in> {0, 1, 2, 3}" and e: "\<And>x. x \<in> set cs \<Longrightarrow> claim_entry w x"
    and n: "\<And>r. claim_winners cs r = (if role_claimed w r then 1 else 0)"
    using assms(1) by (auto simp: claim_inv_def)
  have c: "claim_winners (cs[i := x]) r + (if cs ! i = ClaimDone r (Ok ()) then 1 else 0)
      = claim_winners cs r + (if x = ClaimDone r (Ok ()) then 1 else 0)" for r
    using count_list_update [OF assms(2), of x "ClaimDone r (Ok ())"] by (simp add: claim_winners_def of_bool_def)
  have sub: "set (cs[i := x]) \<subseteq> insert x (set cs)" by (rule set_update_subset_insert)
  from claim_direction_role_cases [OF w e [OF nth_mem [OF assms(2)]] assms(3)] show ?thesis
  proof cases
    case 1
    then show ?thesis using assms(1) by simp
  next
    case 2
    then have "claim_winners (cs[i := x]) r = claim_winners cs r" for r using c [of r] by simp
    then show ?thesis using 2 w n e sub by (auto simp: claim_inv_def)
  next
    case (3 role)
    then have "claim_winners (cs[i := x]) r = (if role_claimed w' r then 1 else 0)" for r
      using c [of r] n [of r] role_word_or(2) [OF w] by (auto split: if_splits)
    moreover have "claim_entry w' y" if "y \<in> set (cs[i := x])" for y
      using that sub e [of y] claim_entry_mono [of w y w'] role_word_or(2) [OF w] 3 by auto
    ultimately show ?thesis using 3 role_word_or(1) [OF w, of role] by (simp add: claim_inv_def)
  qed
qed

lemma claim_inv_run: "claim_run s t \<Longrightarrow> claim_inv s \<Longrightarrow> claim_inv t"
  by (induction rule: claim_run.induct) (auto intro: claim_inv_step)

lemma claim_run_roles: "claim_run s t \<Longrightarrow> map claim_role (snd t) = map claim_role (snd s)"
proof (induction rule: claim_run.induct)
  case (claim_step c w cs i spurious w' x)
  have "claim_role x = claim_role (cs ! i)"
    using claim_step.hyps(3) by (cases "cs ! i") (auto split: if_splits)
  then have "map claim_role (cs[i := x]) = map claim_role cs"
    using claim_step.hyps(2) by (simp add: map_update) (metis list_update_id nth_map)
  then show ?case using claim_step.IH by simp
qed simp

text \<open>C30. However the processes that attach to a direction interleave, and however often the weak exchange fails, at most one caller claims each role; and once every caller has returned, each role that was asked for has exactly one owner.\<close>

theorem claim_role_exclusive:
  assumes "claim_run (0, map ClaimLoad roles) (w, cs)"
  shows "claim_winners cs r \<le> 1 \<and>
    ((\<forall>x \<in> set cs. claim_returned x) \<longrightarrow> claim_winners cs r = (if r \<in> set roles then 1 else 0))"
proof -
  have i: "claim_inv (0, map ClaimLoad roles)" by (auto simp: claim_inv_def claim_winners_def count_list_0_iff)
  have w: "claim_winners cs r = (if role_claimed w r then 1 else 0)" "\<And>x. x \<in> set cs \<Longrightarrow> claim_entry w x"
    using claim_inv_run [OF assms i] by (auto simp: claim_inv_def)
  have roles: "map claim_role cs = roles" using claim_run_roles [OF assms] by (simp add: o_def)
  have "claim_winners cs r = (if r \<in> set roles then 1 else 0)" if "\<forall>x \<in> set cs. claim_returned x"
  proof (cases "r \<in> set roles")
    case True
    then obtain x where "x \<in> set cs" "claim_role x = r" using roles by auto
    moreover from calculation have "claim_entry w x" "claim_returned x" using w(2) that by auto
    ultimately have "role_claimed w r" by (cases x rule: Claimant.exhaust) auto
    then show ?thesis using w(1) True by simp
  next
    case False
    then have "ClaimDone r (Ok ()) \<notin> set cs" using roles by (force simp: image_iff)
    then show ?thesis using False by (simp add: claim_winners_def count_list_0_iff)
  qed
  then show ?thesis using w(1) by simp
qed

theorem claim_role_exclusive_witness:
  "claim_run (0, map ClaimLoad [Producer, Producer])
     (1, [ClaimDone Producer (Ok ()), ClaimDone Producer (Err (IoError AlreadyExists ''IPC direction role is already claimed''))])
   \<and> claim_winners [ClaimDone Producer (Ok ()), ClaimDone Producer (Err (IoError AlreadyExists ''IPC direction role is already claimed''))] Producer = 1"
proof -
  let ?e = "ClaimDone Producer (Err (IoError AlreadyExists ''IPC direction role is already claimed''))"
  let ?o = "ClaimDone Producer (Ok ())"
  let ?s = "(0, map ClaimLoad [Producer, Producer])"
  have "claim_run ?s (0, [ClaimTry Producer 0, ClaimLoad Producer])"
    using claim_step [OF claim_start [of ?s, unfolded list.map], of 0 False] by simp
  from claim_step [OF this, of 1 False] have "claim_run ?s (0, [ClaimTry Producer 0, ClaimTry Producer 0])" by simp
  from claim_step [OF this, of 0 False] have "claim_run ?s (1, [?o, ClaimTry Producer 0])"
    by (simp add: role_claim_def)
  from claim_step [OF this, of 1 False] have "claim_run ?s (1, [?o, ClaimTry Producer 1])"
    by (simp add: role_claim_def)
  from claim_step [OF this, of 1 False] have r: "claim_run ?s (1, [?o, ?e])"
    by (simp add: role_claim_def ROLE_CLAIM_MASK_def)
  show ?thesis using r claim_role_exclusive [OF r, of Producer] by simp
qed

section \<open>Arena layout\<close>

lemma is_power_of_two_exp:
  assumes "is_power_of_two n"
  shows "\<exists>k\<le>63. unat n = 2 ^ k"
proof -
  have p: "0 < unat n" and z: "n AND (n - 1) = 0" using assms by (auto simp: is_power_of_two_def unat_gt_0)
  obtain k where k: "2 ^ k \<le> unat n" "unat n < 2 ^ (k + 1)"
    using ex_power_ivl1 [of 2 "unat n"] p by auto
  have l: "unat n < 2 ^ 64" using unsigned_less [where ?'a = nat, of n] by simp
  have "(2::nat) ^ k < 2 ^ 64" using k(1) l by (rule le_less_trans)
  then have k63: "k \<le> 63" using power_less_imp_less_exp [of "2::nat" k 64] by simp
  have b: "bit w k" if "2 ^ k \<le> unat w" "unat w < 2 ^ (k + 1)" for w :: u64
  proof -
    have "unat w div 2 ^ k = 1" using that by (intro div_nat_eqI) auto
    then have "bit (unat w) k" by (simp add: bit_iff_odd)
    then show ?thesis by (simp add: bit_unsigned_iff)
  qed
  have "unat n = 2 ^ k"
  proof (rule ccontr)
    assume "unat n \<noteq> 2 ^ k"
    then have "2 ^ k \<le> unat (n - 1)" "unat (n - 1) < 2 ^ (k + 1)" using k p by (auto simp: unat_sub word_le_nat_alt)
    then have "bit (n AND (n - 1)) k" using b k by (simp add: bit_simps)
    then show False using z by simp
  qed
  then show ?thesis using k63 by blast
qed

lemma and_not_mask_eq: "(w :: 'a::len word) AND NOT (mask k) = w - take_bit k w"
proof -
  have "(w AND NOT (mask k)) + take_bit k w = (w AND NOT (mask k)) OR take_bit k w"
    by (rule disjunctive_add_eq_or) (auto intro!: bit_eqI simp: bit_simps)
  also have "\<dots> = w" by (rule bit_word_eqI) (auto simp: bit_simps)
  finally show ?thesis by (simp add: eq_diff_eq)
qed

lemma align_up_64:
  assumes "align_up v CACHE_LINE = Ok p"
  shows "unat p mod 64 = 0" "unat v \<le> unat p" "unat p < unat v + 64"
proof -
  have s: "unat v + 63 < 2 ^ 64" and p: "p = (v + 63) AND NOT 63"
    using assms by (auto simp: align_up_def checked_add_def CACHE_LINE_def ok_or_def split: if_splits)
  have u: "unat (v + 63) = unat v + 63" using s by (simp add: unat_word_ariths)
  have m: "(63 :: u64) = mask 6" by (simp add: mask_eq_exp_minus_1)
  have t: "unat (take_bit 6 (v + 63)) = (unat v + 63) mod 64"
    using u by (simp only: take_bit_eq_mod unat_mod) simp
  have "unat p = (unat v + 63) - (unat v + 63) mod 64"
    unfolding p [unfolded m and_not_mask_eq] using u t unfolding m by (subst unat_sub) (simp_all only: word_le_nat_alt mod_less_eq_dividend)
  then show "unat p mod 64 = 0" "unat v \<le> unat p" "unat p < unat v + 64"
    using mod_less_divisor [of 64 "unat v + 63"] by (simp_all add: minus_mod_eq_div_mult mod_less_eq_dividend)
qed

lemma arena_layout_Ok:
  assumes "arena_layout slots slot_len cap = Ok (len, payload_offset)"
  shows "is_power_of_two cap" and "2 \<le> unat cap" and "unat cap < 2 ^ 32"
    and "unat payload_offset mod 64 = 0" and "448 + 48 * unat cap \<le> unat payload_offset"
    and "unat payload_offset < 512 + 48 * unat cap"
    and "unat len = unat payload_offset + unat slots * unat slot_len" and "unat len < 2 ^ 63"
    and "unat slots * unat slot_len < 2 ^ 64"
proof -
  have c: "is_power_of_two cap" "\<not> cap < 2" "\<not> cap > U32_MAX"
    using assms by (auto simp: arena_layout_def split: if_splits)
  then show c2: "is_power_of_two cap" "2 \<le> unat cap" "unat cap < 2 ^ 32"
    by (auto simp: U32_MAX_def word_less_nat_alt word_le_nat_alt)
  have d: "unat (cap * 48) = 48 * unat cap" using c2 by (simp add: unat_word_ariths)
  have h: "unat (HEADER_LEN + cap * 48) = 448 + 48 * unat cap"
    using c2 d by (simp add: HEADER_LEN_def unat_word_ariths)
  have a: "align_up (HEADER_LEN + cap * 48) CACHE_LINE = Ok payload_offset"
    and m: "unat slots * unat slot_len < 2 ^ 64"
    and s: "unat payload_offset + unat (slots * slot_len) < 2 ^ 64" "payload_offset + slots * slot_len \<le> ISIZE_MAX"
    and l: "len = payload_offset + slots * slot_len"
    using assms d
    by (auto simp: arena_layout_def and_then_Ok_conv ok_or_def filter_option_def checked_mul_def checked_add_def
        FRAME_LEN_def split: if_splits)
  have p: "unat (slots * slot_len) = unat slots * unat slot_len" using m by (simp add: unat_word_ariths)
  show "unat slots * unat slot_len < 2 ^ 64" by fact
  show "unat len = unat payload_offset + unat slots * unat slot_len"
    using l s p by (simp add: unat_word_ariths)
  show "unat len < 2 ^ 63" using s l by (simp add: ISIZE_MAX_def word_le_nat_alt)
  show "unat payload_offset mod 64 = 0" "448 + 48 * unat cap \<le> unat payload_offset"
    "unat payload_offset < 512 + 48 * unat cap"
    using align_up_64 [OF a] h by auto
qed

lemma descriptor_index:
  assumes "is_power_of_two cap"
  shows "unat (n AND (cap - 1)) = unat n mod unat cap"
proof -
  obtain k where k: "k \<le> 63" "unat cap = 2 ^ k" using is_power_of_two_exp [OF assms] by blast
  then have "cap = of_nat (2 ^ k)" by (metis of_nat_unat ucast_id)
  then show ?thesis using cursor_index [OF k(1), of "unat n"] k(2) by (metis of_nat_unat ucast_id)
qed

lemma unat_descriptor_offset:
  assumes "is_power_of_two cap" "unat cap < 2 ^ 32"
  shows "unat (descriptor_offset cap n) = 448 + unat n mod unat cap * 48"
proof -
  have i: "unat (n AND (cap - 1)) = unat n mod unat cap" by (rule descriptor_index) fact
  have "0 < unat cap" using assms(1) by (simp add: is_power_of_two_def unat_gt_0)
  then have "unat n mod unat cap < 2 ^ 32" using assms(2) by (meson less_trans mod_less_divisor)
  then show ?thesis using i by (simp add: descriptor_offset_def HEADER_LEN_def FRAME_LEN_def unat_word_ariths Let_def)
qed

text \<open>C29. Every arena layout that is accepted keeps its parts apart: the payload starts on a cache line behind the header and all descriptors, the length is the exact end of the last slot and fits \<open>isize\<close>, every descriptor sequence addresses a whole frame between header and payload, descriptors of different ring positions do not overlap, and every slot lies inside the region without touching another slot.\<close>

theorem arena_layout_separates:
  assumes "arena_layout slots slot_len cap = Ok (len, payload_offset)"
  shows "unat payload_offset mod 64 = 0 \<and> unat len = unat payload_offset + unat slots * unat slot_len \<and> len \<le> ISIZE_MAX
    \<and> (\<forall>n. unat HEADER_LEN \<le> unat (descriptor_offset cap n)
            \<and> unat (descriptor_offset cap n) + FRAME_LEN \<le> unat payload_offset)
    \<and> (\<forall>m n. unat m mod unat cap < unat n mod unat cap \<longrightarrow>
            unat (descriptor_offset cap m) + FRAME_LEN \<le> unat (descriptor_offset cap n))
    \<and> (\<forall>slot < slots. unat payload_offset \<le> unat (slot_offset payload_offset slot slot_len)
            \<and> unat (slot_offset payload_offset slot slot_len) + unat slot_len \<le> unat len)
    \<and> (\<forall>a b. a < b \<longrightarrow> b < slots \<longrightarrow>
            unat (slot_offset payload_offset a slot_len) + unat slot_len \<le> unat (slot_offset payload_offset b slot_len))"
proof (intro conjI allI impI)
  note l = arena_layout_Ok [OF assms]
  have o: "unat (descriptor_offset cap n) = 448 + unat n mod unat cap * 48" for n
    by (rule unat_descriptor_offset) (use l in auto)
  show "unat payload_offset mod 64 = 0" "unat len = unat payload_offset + unat slots * unat slot_len" using l by auto
  show "len \<le> ISIZE_MAX" using l(8) by (simp add: ISIZE_MAX_def word_le_nat_alt)
  show "unat HEADER_LEN \<le> unat (descriptor_offset cap n)" for n by (simp add: o HEADER_LEN_def)
  show "unat (descriptor_offset cap n) + FRAME_LEN \<le> unat payload_offset" for n
  proof -
    have "unat n mod unat cap < unat cap" using l(2) by simp
    then show ?thesis using l(5) by (simp add: o FRAME_LEN_def)
  qed
  show "unat (descriptor_offset cap m) + FRAME_LEN \<le> unat (descriptor_offset cap n)"
    if "unat m mod unat cap < unat n mod unat cap" for m n
    using that by (simp add: o FRAME_LEN_def)
  have s: "unat (slot_offset payload_offset a slot_len) = unat payload_offset + unat a * unat slot_len
      \<and> unat payload_offset + unat a * unat slot_len + unat slot_len \<le> unat len" if "a < slots" for a
  proof -
    have "(unat a + 1) * unat slot_len \<le> unat slots * unat slot_len"
      using that by (intro mult_right_mono) (simp_all add: word_less_nat_alt Suc_le_eq)
    then have b: "unat payload_offset + unat a * unat slot_len + unat slot_len \<le> unat len" using l(7) by simp
    then have "unat a * unat slot_len < 2 ^ 64" "unat payload_offset + unat a * unat slot_len < 2 ^ 64"
      using l(8) by simp_all
    then show ?thesis using b by (simp add: slot_offset_def unat_word_ariths)
  qed
  show "unat payload_offset \<le> unat (slot_offset payload_offset slot slot_len)"
    "unat (slot_offset payload_offset slot slot_len) + unat slot_len \<le> unat len" if "slot < slots" for slot
    using s [OF that] by simp_all
  show "unat (slot_offset payload_offset a slot_len) + unat slot_len \<le> unat (slot_offset payload_offset b slot_len)"
    if "a < b" "b < slots" for a b
  proof -
    have "(unat a + 1) * unat slot_len \<le> unat b * unat slot_len"
      using that by (intro mult_right_mono) (simp_all add: word_less_nat_alt Suc_le_eq)
    then show ?thesis using s [OF that(2)] s [of a] that by simp
  qed
qed

theorem arena_layout_separates_witness:
  "arena_layout 4 4096 16 = Ok (17600, 1216) \<and> unat (1216 :: usize) mod 64 = 0
   \<and> unat (descriptor_offset 16 17) + FRAME_LEN \<le> unat (1216 :: usize)"
proof -
  have "arena_layout 4 4096 16 = Ok (17600, 1216)"
    by (simp add: arena_layout_def is_power_of_two_def U32_MAX_def checked_mul_def checked_add_def ok_or_def FRAME_LEN_def
        HEADER_LEN_def align_up_def CACHE_LINE_def filter_option_def ISIZE_MAX_def)
  from arena_layout_separates [OF this] this show ?thesis by simp
qed

end
