(* ===== verification/Ipc_Stream.thy ===== *)
theory Ipc_Stream
  imports Ipc_Frame
begin

text \<open>
  One direction of the process transport (\<open>src/src/ipc/stream.rs\<close>): the shared arenas with their descriptor
  rings and payload slots, and the four transfer loops. Producer and consumer run in different processes, so
  each loop is a state machine whose steps are the calls that touch shared memory, and a schedule interleaves
  the steps of both. A read of the source, a write to the sink, a wait and a notification may fail at any step.
\<close>

section \<open>Sources\<close>

text \<open>
  A \<open>Read\<close> is what its successive calls deliver. A delivery longer than the buffer is split, and a source that
  has nothing left reads zero bytes.
\<close>

datatype ReadEvent = ReadBytes "u8 list" | ReadFailed IoError

fun error_kind :: "IoError \<Rightarrow> IoKind" where
  "error_kind (IoError k m) = k"

fun read_call :: "nat \<Rightarrow> ReadEvent list \<Rightarrow> (u8 list, IoError) Result \<times> ReadEvent list" where
  "read_call n [] = (Ok [], [])"
| "read_call n (ReadBytes bs # es) =
     (if length bs \<le> n then (Ok bs, es) else (Ok (take n bs), ReadBytes (drop n bs) # es))"
| "read_call n (ReadFailed e # es) = (Err e, es)"

text \<open>\<open>read_chunk\<close>: the bytes that were filled in, the error if one ended the loop, and the source afterwards.\<close>

function read_chunk :: "nat \<Rightarrow> ReadEvent list \<Rightarrow> u8 list \<times> IoError option \<times> ReadEvent list" where
  "read_chunk n es =
     (if n = 0 then ([], None, es)
      else case read_call n es of
        (Ok bs, es') \<Rightarrow>
          if bs = [] then ([], None, es')
          else (let (more, e, es'') = read_chunk (n - length bs) es' in (bs @ more, e, es''))
      | (Err e, es') \<Rightarrow> if error_kind e = Interrupted then read_chunk n es' else ([], Some e, es'))"
  by auto
termination
proof (relation "measure (\<lambda>(n, es). n + length es)", goal_cases)
  case (2 n es x es' bs)
  then show ?case by (cases "(n, es)" rule: read_call.cases) (auto split: if_splits)
next
  case (3 n es x es' e)
  then show ?case by (cases "(n, es)" rule: read_call.cases) (auto split: if_splits)
qed simp

declare read_chunk.simps [simp del]

text \<open>\<open>Read::read_exact\<close> of the standard library: the same loop, and a short read is an error.\<close>

definition eof_error :: IoError where
  "eof_error = IoError UnexpectedEof ''failed to fill whole buffer''"

definition read_exact :: "nat \<Rightarrow> ReadEvent list \<Rightarrow> u8 list \<times> IoError option \<times> ReadEvent list" where
  "read_exact n es =
     (let (bs, e, es') = read_chunk n es
      in (bs, if e = None \<and> length bs < n then Some eof_error else e, es'))"

text \<open>The probe for excess input once the ceiling is reached.\<close>

fun excess :: "ReadEvent list \<Rightarrow> (unit, IoError) Result \<times> ReadEvent list" where
  "excess [] = (Ok (), [])"
| "excess (ReadBytes bs # es) =
     (if bs = [] then (Ok (), es)
      else (Err (invalid_data ''stream exceeded its byte ceiling''), snd (read_call 1 (ReadBytes bs # es))))"
| "excess (ReadFailed e # es) = (if error_kind e = Interrupted then excess es else (Err e, es))"

section \<open>Arenas\<close>

text \<open>
  The shared memory of an arena, split as its layout splits it: \<open>descriptors\<close> holds the encoded frames by ring
  position and \<open>payload\<close> the slot buffers.
\<close>

record Arena =
  descriptors :: "u8 list list"
  payload :: "u8 list list"
  head :: u64
  tail :: u64
  arena_capacity :: usize
  arena_slots :: usize
  slot_len :: usize

datatype WaitOutcome = Changed | WaitTimedOut

text \<open>
  What the outside world does to one step. A wait that does not see the awaited event has run for
  \<open>elapsed\<close> of its \<open>timeout\<close>, its event ends with \<open>event_wait\<close>, and a \<open>peek\<close> at the liveness socket returns a byte
  count or an error. A notification may fail, and a \<open>write_all\<close> may fail after a number of bytes.
\<close>

record Env =
  elapsed :: nat
  timeout :: nat
  event_wait :: "(WaitOutcome, IoError) Result"
  peek :: "(nat, IoError) Result"
  notify_error :: "IoError option"
  write_error :: "(nat \<times> IoError) option"

definition peer_closed :: "Env \<Rightarrow> (bool, IoError) Result" where
  "peer_closed env =
     (case peek env of
        Ok n \<Rightarrow> Ok (n = 0)
      | Err e \<Rightarrow> if error_kind e = WouldBlock \<or> error_kind e = Interrupted then Ok False else Err e)"

definition wait_for_peer_event :: "Env \<Rightarrow> (unit, IoError) Result" where
  "wait_for_peer_event env =
     (if elapsed env \<ge> timeout env then Err (IoError TimedOut ''process stream arena wait timed out'')
      else and_then (event_wait env) (\<lambda>w.
        if w = WaitTimedOut
        then and_then (peer_closed env) (\<lambda>closed.
               if closed then Err (IoError UnexpectedEof ''process stream peer closed'') else Ok ())
        else Ok ()))"

definition wait_error :: "Env \<Rightarrow> IoError option" where
  "wait_error env = (case wait_for_peer_event env of Ok _ \<Rightarrow> None | Err e \<Rightarrow> Some e)"

definition outcome :: "IoError option \<Rightarrow> (unit, IoError) Result" where
  "outcome e = (case e of None \<Rightarrow> Ok () | Some e \<Rightarrow> Err e)"

definition ring_index :: "Arena \<Rightarrow> u64 \<Rightarrow> nat" where
  "ring_index a sequence = unat (sequence AND (arena_capacity a - 1))"

text \<open>
  \<open>Arena::push\<close> and \<open>Arena::pop\<close>. A call that finds no room (no frame) waits: it either stays in its loop
  (\<open>Spinning\<close>) or the wait fails.
\<close>

definition arena_push :: "Env \<Rightarrow> Frame \<Rightarrow> Arena \<Rightarrow> (Arena \<times> (unit, IoError) Result) spin" where
  "arena_push env frame a =
     (if tail a - head a \<ge> arena_capacity a
      then (case wait_error env of None \<Rightarrow> Spinning | Some e \<Rightarrow> Done (a, Err e))
      else Done (a\<lparr>descriptors := (descriptors a)[ring_index a (tail a) := frame_encode frame], tail := tail a + 1\<rparr>,
                 outcome (notify_error env)))"

definition arena_pop :: "Env \<Rightarrow> Arena \<Rightarrow> (Arena \<times> (Frame, IoError) Result) spin" where
  "arena_pop env a =
     (if tail a - head a = 0
      then (case wait_error env of None \<Rightarrow> Spinning | Some e \<Rightarrow> Done (a, Err e))
      else Done (a\<lparr>head := head a + 1\<rparr>,
                 and_then (outcome (notify_error env)) (\<lambda>_. frame_decode (descriptors a ! ring_index a (head a)))))"

definition check_slot :: "Arena \<Rightarrow> usize \<Rightarrow> usize \<Rightarrow> (unit, IoError) Result" where
  "check_slot a slot len =
     (if slot \<ge> arena_slots a \<or> len = 0 \<or> len > slot_len a
      then Err (invalid_data ''stream slot or length is out of bounds'') else Ok ())"

text \<open>\<open>write_slot\<close>: \<open>write\<close> maps the old bytes of the destination to the new ones and a result.\<close>

definition write_slot :: "usize \<Rightarrow> usize \<Rightarrow> (u8 list \<Rightarrow> u8 list \<times> ('r, IoError) Result) \<Rightarrow> Arena \<Rightarrow> Arena \<times> ('r, IoError) Result" where
  "write_slot slot len write a =
     (case check_slot a slot len of
        Err e \<Rightarrow> (a, Err e)
      | Ok _ \<Rightarrow> let buffer = payload a ! unat slot; (destination, r) = write (take (unat len) buffer)
                in (a\<lparr>payload := (payload a)[unat slot := destination @ drop (unat len) buffer]\<rparr>, r))"

definition slot_bytes :: "Arena \<Rightarrow> usize \<Rightarrow> usize \<Rightarrow> (u8 list, IoError) Result" where
  "slot_bytes a slot len = and_then (check_slot a slot len) (\<lambda>_. Ok (take (unat len) (payload a ! unat slot)))"

section \<open>Validation\<close>

definition STREAM_FLAG :: u8 where "STREAM_FLAG = 0x40"

definition frame_flags :: "StreamFlow \<Rightarrow> u8" where
  "frame_flags flow = STREAM_FLAG OR flow_code flow"

text \<open>What both ends of a direction agree on; \<open>avx2\<close> is what the processor of the calling process offers.\<close>

record Session =
  shape :: StreamShape
  transfer_id :: u64
  flags :: u8

definition generation_of :: "StreamShape \<Rightarrow> u64 \<Rightarrow> (u32, IoError) Result" where
  "generation_of s chunk_index =
     (let g = chunk_index div stream_slots s + 1
      in if g \<le> U32_MAX then Ok (ucast g) else Err (invalid_data ''stream generation exhausted''))"

definition within_ceiling :: "StreamShape \<Rightarrow> u64 \<Rightarrow> u32 \<Rightarrow> bool" where
  "within_ceiling s offset len =
     (case checked_add offset (ucast len) of None \<Rightarrow> False | Some e \<Rightarrow> e \<le> total_bytes s)"

definition validate_chunk :: "bool \<Rightarrow> Arena \<Rightarrow> Frame \<Rightarrow> u64 \<Rightarrow> Session \<Rightarrow> (unit, IoError) Result" where
  "validate_chunk avx2 data frame chunk_index ss =
     and_then (chunk_meta (shape ss) chunk_index) (\<lambda>(offset, len, slot, generation).
     and_then (slot_bytes data slot len) (\<lambda>bytes.
       if frame = \<lparr>fkind = KData, fflags = flags ss, ftransfer_id = transfer_id ss, foffset = offset, fslot = ucast slot,
                   fgeneration = generation, flen = ucast len, fchecksum = checksum avx2 bytes\<rparr>
       then Ok () else Err (invalid_data ''DATA frame or payload is invalid'')))"

definition validate_release :: "Frame \<Rightarrow> u64 \<Rightarrow> Session \<Rightarrow> (unit, IoError) Result" where
  "validate_release frame chunk_index ss =
     and_then (chunk_meta (shape ss) chunk_index) (\<lambda>(offset, len, slot, generation).
       if fkind frame = KReleased \<and> fflags frame = flags ss \<and> ftransfer_id frame = transfer_id ss
          \<and> foffset frame = offset \<and> fslot frame = ucast slot \<and> fgeneration frame = generation \<and> flen frame = ucast len
       then Ok () else Err (invalid_data ''RELEASED frame is invalid''))"

definition validate_complete :: "Frame \<Rightarrow> Session \<Rightarrow> u64 \<Rightarrow> (unit, IoError) Result" where
  "validate_complete frame ss aggregate =
     (if fkind frame = KComplete \<and> fflags frame = flags ss \<and> ftransfer_id frame = transfer_id ss
         \<and> foffset frame = total_bytes (shape ss) \<and> fslot frame = 0 \<and> fgeneration frame = 0 \<and> flen frame = 0
         \<and> fchecksum frame = aggregate
      then Ok () else Err (invalid_data ''COMPLETE frame is invalid''))"

text \<open>The slot is only read once every other field agrees (\<open>&&\<close> is lazy).\<close>

definition validate_dynamic_chunk :: "bool \<Rightarrow> Arena \<Rightarrow> Frame \<Rightarrow> u64 \<Rightarrow> u64 \<Rightarrow> Session \<Rightarrow> (unit, IoError) Result" where
  "validate_dynamic_chunk avx2 data frame chunk_index offset ss =
     (let slot = chunk_index mod stream_slots (shape ss); len = (ucast (flen frame) :: usize)
      in and_then (generation_of (shape ss) chunk_index) (\<lambda>generation.
           if fkind frame = KData \<and> fflags frame = flags ss \<and> ftransfer_id frame = transfer_id ss
              \<and> foffset frame = offset \<and> fslot frame = ucast slot \<and> fgeneration frame = generation
              \<and> len > 0 \<and> len \<le> chunk_bytes (shape ss) \<and> within_ceiling (shape ss) offset (flen frame)
           then and_then (slot_bytes data slot len) (\<lambda>bytes.
                  if fchecksum frame = checksum avx2 bytes then Ok ()
                  else Err (invalid_data ''streaming DATA frame or payload is invalid''))
           else Err (invalid_data ''streaming DATA frame or payload is invalid'')))"

definition validate_dynamic_release :: "Frame \<Rightarrow> u64 \<Rightarrow> Session \<Rightarrow> (unit, IoError) Result" where
  "validate_dynamic_release frame chunk_index ss =
     and_then (generation_of (shape ss) chunk_index) (\<lambda>generation.
       if fkind frame = KReleased \<and> fflags frame = flags ss \<and> ftransfer_id frame = transfer_id ss
          \<and> fslot frame = ucast (chunk_index mod stream_slots (shape ss)) \<and> fgeneration frame = generation
          \<and> flen frame > 0 \<and> ucast (flen frame) \<le> chunk_bytes (shape ss)
          \<and> within_ceiling (shape ss) (foffset frame) (flen frame)
       then Ok () else Err (invalid_data ''streaming RELEASED frame is invalid''))"

definition validate_dynamic_complete :: "Frame \<Rightarrow> Session \<Rightarrow> u64 \<Rightarrow> u64 \<Rightarrow> (unit, IoError) Result" where
  "validate_dynamic_complete frame ss sofar aggregate =
     (if sofar \<le> total_bytes (shape ss) \<and> fkind frame = KComplete \<and> fflags frame = flags ss
         \<and> ftransfer_id frame = transfer_id ss \<and> foffset frame = sofar \<and> fslot frame = 0 \<and> fgeneration frame = 0
         \<and> flen frame = 0 \<and> fchecksum frame = aggregate
      then Ok () else Err (invalid_data ''streaming COMPLETE frame is invalid''))"

section \<open>The producing loops\<close>

type_synonym outcome = "(u64 \<times> u64 \<times> u64, IoError) Result"

datatype ProducePc =
    PLoop | PRelease | PFill | PPush Frame | PDrain | PComplete | PAck | PReturn outcome

text \<open>
  The local variables of \<open>produce\<close> and \<open>produce_to_end\<close>: \<open>p_chunks\<close> is the index of the next chunk.
  \<open>produce\<close> has no running total of its own; the field is counted for it and never read.
\<close>

record Produce =
  p_pc :: ProducePc
  p_chunks :: u64
  p_released :: u64
  p_total :: u64
  p_aggregate :: u64
  reader :: "ReadEvent list"

definition p_fail :: "IoError \<Rightarrow> Produce \<Rightarrow> Produce" where
  "p_fail e p = p\<lparr>p_pc := PReturn (Err e)\<rparr>"

text \<open>The release that both loops wait for, with the validator of the loop.\<close>

definition take_release :: "(Frame \<Rightarrow> u64 \<Rightarrow> Session \<Rightarrow> (unit, IoError) Result) \<Rightarrow> Session \<Rightarrow> Env \<Rightarrow> ProducePc
    \<Rightarrow> Arena \<times> Arena \<times> Produce \<Rightarrow> Arena \<times> Arena \<times> Produce" where
  "take_release validate ss env next_pc s = (case s of (data, releases, p) \<Rightarrow>
     (case arena_pop env releases of
        Spinning \<Rightarrow> s
      | Done (releases', r) \<Rightarrow>
          (case and_then r (\<lambda>frame. validate frame (p_released p) ss) of
             Err e \<Rightarrow> (data, releases', p_fail e p)
           | Ok _ \<Rightarrow> (data, releases', p\<lparr>p_released := p_released p + 1, p_pc := next_pc\<rparr>))))"

definition push_data :: "Env \<Rightarrow> Frame \<Rightarrow> (Produce \<Rightarrow> Produce) \<Rightarrow> Arena \<times> Arena \<times> Produce \<Rightarrow> Arena \<times> Arena \<times> Produce" where
  "push_data env frame k s = (case s of (data, releases, p) \<Rightarrow>
     (case arena_push env frame data of
        Spinning \<Rightarrow> s
      | Done (data', Err e) \<Rightarrow> (data', releases, p_fail e p)
      | Done (data', Ok _) \<Rightarrow> (data', releases, k p)))"

definition complete_frame :: "Session \<Rightarrow> u64 \<Rightarrow> u64 \<Rightarrow> Frame" where
  "complete_frame ss sofar aggregate =
     \<lparr>fkind = KComplete, fflags = flags ss, ftransfer_id = transfer_id ss, foffset = sofar, fslot = 0,
      fgeneration = 0, flen = 0, fchecksum = aggregate\<rparr>"

definition take_ack :: "(Frame \<Rightarrow> Produce \<Rightarrow> (unit, IoError) Result) \<Rightarrow> Env \<Rightarrow> (Produce \<Rightarrow> u64 \<times> u64 \<times> u64)
    \<Rightarrow> Arena \<times> Arena \<times> Produce \<Rightarrow> Arena \<times> Arena \<times> Produce" where
  "take_ack validate env report s = (case s of (data, releases, p) \<Rightarrow>
     (case arena_pop env releases of
        Spinning \<Rightarrow> s
      | Done (releases', r) \<Rightarrow>
          (case and_then r (\<lambda>frame. validate frame p) of
             Err e \<Rightarrow> (data, releases', p_fail e p)
           | Ok _ \<Rightarrow> (data, releases', p\<lparr>p_pc := PReturn (Ok (report p))\<rparr>))))"

text \<open>The destination after a read: the bytes that came in, then what the buffer held.\<close>

definition filled :: "u8 list \<Rightarrow> u8 list \<Rightarrow> u8 list" where
  "filled bytes destination = bytes @ drop (length bytes) destination"

definition produce_fill :: "bool \<Rightarrow> Session \<Rightarrow> Arena \<times> Arena \<times> Produce \<Rightarrow> Arena \<times> Arena \<times> Produce" where
  "produce_fill avx2 ss s = (case s of (data, releases, p) \<Rightarrow>
     (case chunk_meta (shape ss) (p_chunks p) of
        Err e \<Rightarrow> (data, releases, p_fail e p)
      | Ok (offset, len, slot, generation) \<Rightarrow>
          let (bytes, e, rest) = read_exact (unat len) (reader p);
              (data', r) = write_slot slot len (\<lambda>d. (filled bytes d,
                 case e of Some e \<Rightarrow> Err e | None \<Rightarrow> Ok (checksum avx2 (filled bytes d)))) data
          in (case r of
                Err e \<Rightarrow> (data', releases, p_fail e (p\<lparr>reader := rest\<rparr>))
              | Ok digest \<Rightarrow>
                  let frame = \<lparr>fkind = KData, fflags = flags ss, ftransfer_id = transfer_id ss, foffset = offset,
                               fslot = ucast slot, fgeneration = generation, flen = ucast len, fchecksum = digest\<rparr>
                  in (data', releases, p\<lparr>reader := rest, p_aggregate := fold_checksum (p_aggregate p) frame,
                                         p_pc := PPush frame\<rparr>))))"

definition produce_step :: "bool \<Rightarrow> Session \<Rightarrow> Env \<Rightarrow> Arena \<times> Arena \<times> Produce \<Rightarrow> Arena \<times> Arena \<times> Produce" where
  "produce_step avx2 ss env s = (case s of (data, releases, p) \<Rightarrow>
     (case p_pc p of
        PLoop \<Rightarrow> (data, releases, p\<lparr>p_pc :=
           if p_chunks p < chunks (shape ss) then (if p_chunks p \<ge> stream_slots (shape ss) then PRelease else PFill)
           else PDrain\<rparr>)
      | PRelease \<Rightarrow> take_release validate_release ss env PFill s
      | PFill \<Rightarrow> produce_fill avx2 ss s
      | PPush frame \<Rightarrow> push_data env frame (\<lambda>p. p\<lparr>p_total := p_total p + ucast (flen frame), p_chunks := p_chunks p + 1, p_pc := PLoop\<rparr>) s
      | PDrain \<Rightarrow> if p_released p < chunks (shape ss) then take_release validate_release ss env PDrain s
                  else (data, releases, p\<lparr>p_pc := PComplete\<rparr>)
      | PComplete \<Rightarrow> push_data env (complete_frame ss (total_bytes (shape ss)) (p_aggregate p)) (\<lambda>p. p\<lparr>p_pc := PAck\<rparr>) s
      | PAck \<Rightarrow> take_ack (\<lambda>frame p. validate_complete frame ss (p_aggregate p)) env
                  (\<lambda>p. (p_aggregate p, total_bytes (shape ss), chunks (shape ss))) s
      | PReturn r \<Rightarrow> s))"

definition produce_to_end_fill :: "bool \<Rightarrow> Session \<Rightarrow> Arena \<times> Arena \<times> Produce \<Rightarrow> Arena \<times> Arena \<times> Produce" where
  "produce_to_end_fill avx2 ss s = (case s of (data, releases, p) \<Rightarrow>
     let slot = p_chunks p mod stream_slots (shape ss)
     in (case generation_of (shape ss) (p_chunks p) of
           Err e \<Rightarrow> (data, releases, p_fail e p)
         | Ok generation \<Rightarrow>
             let capacity = min (total_bytes (shape ss) - p_total p) (chunk_bytes (shape ss));
                 (bytes, e, rest) = read_chunk (unat capacity) (reader p);
                 (data', r) = write_slot slot capacity (\<lambda>d. (filled bytes d,
                    case e of Some e \<Rightarrow> Err e | None \<Rightarrow> Ok (length bytes, checksum avx2 (take (length bytes) (filled bytes d))))) data;
                 p = p\<lparr>reader := rest\<rparr>
             in (case r of
                   Err e \<Rightarrow> (data', releases, p_fail e p)
                 | Ok (len, digest) \<Rightarrow>
                     if len = 0 then (data', releases, p\<lparr>p_pc := PDrain\<rparr>)
                     else let frame = \<lparr>fkind = KData, fflags = flags ss, ftransfer_id = transfer_id ss, foffset = p_total p,
                                  fslot = ucast slot, fgeneration = generation, flen = of_nat len, fchecksum = digest\<rparr>
                          in (data', releases, p\<lparr>p_aggregate := fold_checksum (p_aggregate p) frame, p_pc := PPush frame\<rparr>))))"

definition produce_to_end_step :: "bool \<Rightarrow> Session \<Rightarrow> Env \<Rightarrow> Arena \<times> Arena \<times> Produce \<Rightarrow> Arena \<times> Arena \<times> Produce" where
  "produce_to_end_step avx2 ss env s = (case s of (data, releases, p) \<Rightarrow>
     (case p_pc p of
        PLoop \<Rightarrow>
          if p_total p = total_bytes (shape ss)
          then (case excess (reader p) of
                  (Ok _, rest) \<Rightarrow> (data, releases, p\<lparr>reader := rest, p_pc := PDrain\<rparr>)
                | (Err e, rest) \<Rightarrow> (data, releases, p_fail e (p\<lparr>reader := rest\<rparr>)))
          else (data, releases, p\<lparr>p_pc := if p_chunks p \<ge> stream_slots (shape ss) then PRelease else PFill\<rparr>)
      | PRelease \<Rightarrow> take_release validate_dynamic_release ss env PFill s
      | PFill \<Rightarrow> produce_to_end_fill avx2 ss s
      | PPush frame \<Rightarrow> push_data env frame (\<lambda>p. p\<lparr>p_total := p_total p + ucast (flen frame), p_chunks := p_chunks p + 1, p_pc := PLoop\<rparr>) s
      | PDrain \<Rightarrow> if p_released p < p_chunks p then take_release validate_dynamic_release ss env PDrain s
                  else (data, releases, p\<lparr>p_pc := PComplete\<rparr>)
      | PComplete \<Rightarrow> push_data env (complete_frame ss (p_total p) (p_aggregate p)) (\<lambda>p. p\<lparr>p_pc := PAck\<rparr>) s
      | PAck \<Rightarrow> take_ack (\<lambda>frame p. validate_dynamic_complete frame ss (p_total p) (p_aggregate p)) env
                  (\<lambda>p. (p_aggregate p, p_total p, p_chunks p)) s
      | PReturn r \<Rightarrow> s))"

section \<open>The consuming loops\<close>

datatype ConsumePc =
    CPop | CValidate Frame | CWrite Frame | CRelease Frame | CAck Frame | CReturn outcome

text \<open>
  The local variables of \<open>consume\<close> and \<open>consume_to_end\<close>, and what the writer holds. \<open>consume\<close> advances its
  loop index at the end of the body and keeps no total; here both loops count when the chunk has been written.
\<close>

record Consume =
  c_pc :: ConsumePc
  c_chunks :: u64
  c_total :: u64
  c_aggregate :: u64
  sink :: "u8 list"

definition c_fail :: "IoError \<Rightarrow> Consume \<Rightarrow> Consume" where
  "c_fail e c = c\<lparr>c_pc := CReturn (Err e)\<rparr>"

definition pop_data :: "Env \<Rightarrow> (Frame \<Rightarrow> (ConsumePc, IoError) Result) \<Rightarrow> Arena \<times> Arena \<times> Consume \<Rightarrow> Arena \<times> Arena \<times> Consume" where
  "pop_data env k s = (case s of (data, releases, c) \<Rightarrow>
     (case arena_pop env data of
        Spinning \<Rightarrow> s
      | Done (data', r) \<Rightarrow>
          (case and_then r k of
             Err e \<Rightarrow> (data', releases, c_fail e c)
           | Ok pc \<Rightarrow> (data', releases, c\<lparr>c_pc := pc\<rparr>))))"

text \<open>\<open>write_all\<close> of the slot, and the bookkeeping of a chunk that has been written.\<close>

definition write_sink :: "Env \<Rightarrow> Frame \<Rightarrow> Arena \<times> Arena \<times> Consume \<Rightarrow> Arena \<times> Arena \<times> Consume" where
  "write_sink env frame s = (case s of (data, releases, c) \<Rightarrow>
     (case slot_bytes data (ucast (fslot frame)) (ucast (flen frame)) of
        Err e \<Rightarrow> (data, releases, c_fail e c)
      | Ok bytes \<Rightarrow>
          (case write_error env of
             Some (n, e) \<Rightarrow> (data, releases, c_fail e (c\<lparr>sink := sink c @ take n bytes\<rparr>))
           | None \<Rightarrow> (data, releases,
                c\<lparr>sink := sink c @ bytes, c_aggregate := fold_checksum (c_aggregate c) frame,
                  c_total := c_total c + ucast (flen frame), c_chunks := c_chunks c + 1, c_pc := CRelease frame\<rparr>))))"

definition push_release :: "Env \<Rightarrow> Frame \<Rightarrow> ConsumePc \<Rightarrow> Arena \<times> Arena \<times> Consume \<Rightarrow> Arena \<times> Arena \<times> Consume" where
  "push_release env frame next_pc s = (case s of (data, releases, c) \<Rightarrow>
     (case arena_push env frame releases of
        Spinning \<Rightarrow> s
      | Done (releases', Err e) \<Rightarrow> (data, releases', c_fail e c)
      | Done (releases', Ok _) \<Rightarrow> (data, releases', c\<lparr>c_pc := next_pc\<rparr>)))"

definition consume_step :: "bool \<Rightarrow> Session \<Rightarrow> Env \<Rightarrow> Arena \<times> Arena \<times> Consume \<Rightarrow> Arena \<times> Arena \<times> Consume" where
  "consume_step avx2 ss env s = (case s of (data, releases, c) \<Rightarrow>
     (case c_pc c of
        CPop \<Rightarrow>
          if c_chunks c < chunks (shape ss) then pop_data env (\<lambda>frame. Ok (CValidate frame)) s
          else pop_data env (\<lambda>frame. and_then (validate_complete frame ss (c_aggregate c)) (\<lambda>_. Ok (CAck frame))) s
      | CValidate frame \<Rightarrow>
          (case validate_chunk avx2 data frame (c_chunks c) ss of
             Err e \<Rightarrow> (data, releases, c_fail e c)
           | Ok _ \<Rightarrow> (data, releases, c\<lparr>c_pc := CWrite frame\<rparr>))
      | CWrite frame \<Rightarrow> write_sink env frame s
      | CRelease frame \<Rightarrow> push_release env (frame\<lparr>fkind := KReleased\<rparr>) CPop s
      | CAck frame \<Rightarrow> push_release env frame (CReturn (Ok (c_aggregate c, total_bytes (shape ss), chunks (shape ss)))) s
      | CReturn r \<Rightarrow> s))"

definition consume_to_end_step :: "bool \<Rightarrow> Session \<Rightarrow> Env \<Rightarrow> Arena \<times> Arena \<times> Consume \<Rightarrow> Arena \<times> Arena \<times> Consume" where
  "consume_to_end_step avx2 ss env s = (case s of (data, releases, c) \<Rightarrow>
     (case c_pc c of
        CPop \<Rightarrow> pop_data env (\<lambda>frame.
          if fkind frame = KComplete
          then and_then (validate_dynamic_complete frame ss (c_total c) (c_aggregate c)) (\<lambda>_. Ok (CAck frame))
          else Ok (CValidate frame)) s
      | CValidate frame \<Rightarrow>
          (case validate_dynamic_chunk avx2 data frame (c_chunks c) (c_total c) ss of
             Err e \<Rightarrow> (data, releases, c_fail e c)
           | Ok _ \<Rightarrow> (data, releases, c\<lparr>c_pc := CWrite frame\<rparr>))
      | CWrite frame \<Rightarrow> write_sink env frame s
      | CRelease frame \<Rightarrow> push_release env (frame\<lparr>fkind := KReleased\<rparr>) CPop s
      | CAck frame \<Rightarrow> push_release env frame (CReturn (Ok (c_aggregate c, c_total c, c_chunks c))) s
      | CReturn r \<Rightarrow> s))"

section \<open>A direction\<close>

datatype Mode = Exact | ToEnd

record Stream =
  data :: Arena
  releases :: Arena
  producing :: Produce
  consuming :: Consume

text \<open>One step of the schedule: which process runs, and what the outside world does to it.\<close>

datatype Who = AtProducer | AtConsumer

definition stream_step :: "Mode \<Rightarrow> bool \<Rightarrow> bool \<Rightarrow> Session \<Rightarrow> Who \<times> Env \<Rightarrow> Stream \<Rightarrow> Stream" where
  "stream_step mode avx2_p avx2_c ss we st =
     (case we of
        (AtProducer, env) \<Rightarrow>
          let (d, r, p) = (case mode of Exact \<Rightarrow> produce_step | ToEnd \<Rightarrow> produce_to_end_step) avx2_p ss env
                            (data st, releases st, producing st)
          in st\<lparr>data := d, releases := r, producing := p\<rparr>
      | (AtConsumer, env) \<Rightarrow>
          let (d, r, c) = (case mode of Exact \<Rightarrow> consume_step | ToEnd \<Rightarrow> consume_to_end_step) avx2_c ss env
                            (data st, releases st, consuming st)
          in st\<lparr>data := d, releases := r, consuming := c\<rparr>)"

definition stream_run :: "Mode \<Rightarrow> bool \<Rightarrow> bool \<Rightarrow> Session \<Rightarrow> (Who \<times> Env) list \<Rightarrow> Stream \<Rightarrow> Stream" where
  "stream_run mode avx2_p avx2_c ss schedule st = fold (stream_step mode avx2_p avx2_c ss) schedule st"

definition new_arena :: "usize \<Rightarrow> usize \<Rightarrow> usize \<Rightarrow> Arena" where
  "new_arena slots len capacity =
     \<lparr>descriptors = replicate (unat capacity) (replicate FRAME_LEN 0),
      payload = replicate (unat slots) (replicate (unat len) 0),
      head = 0, tail = 0, arena_capacity = capacity, arena_slots = slots, slot_len = len\<rparr>"

definition stream_init :: "Session \<Rightarrow> usize \<Rightarrow> ReadEvent list \<Rightarrow> Stream" where
  "stream_init ss capacity source =
     \<lparr>data = new_arena (stream_slots (shape ss)) (chunk_bytes (shape ss)) capacity,
      releases = new_arena 0 0 capacity,
      producing = \<lparr>p_pc = PLoop, p_chunks = 0, p_released = 0, p_total = 0, p_aggregate = 0, reader = source\<rparr>,
      consuming = \<lparr>c_pc = CPop, c_chunks = 0, c_total = 0, c_aggregate = 0, sink = []\<rparr>\<rparr>"

section \<open>Reports\<close>

record TransferReport =
  r_total_bytes :: u64
  r_chunks :: u64
  r_checksum :: u64
  r_resident_bytes :: usize
  r_memory_locked :: bool

text \<open>\<open>finish_or_cancel\<close>: the report, and whether the liveness socket was shut down.\<close>

definition finish_or_cancel :: "StreamShape \<Rightarrow> bool \<Rightarrow> bool \<Rightarrow> outcome \<Rightarrow> (TransferReport, IoError) Result \<times> bool" where
  "finish_or_cancel s data_locked releases_locked result =
     (case result of
        Ok (digest, sofar, n) \<Rightarrow>
          (Ok \<lparr>r_total_bytes = sofar, r_chunks = n, r_checksum = digest, r_resident_bytes = resident_bytes s,
               r_memory_locked = data_locked \<and> releases_locked\<rparr>, False)
      | Err e \<Rightarrow> (Err e, True))"

end
