(* ===== verification/Ipc_Setup.thy ===== *)
theory Ipc_Setup
  imports Ipc_Stream
begin

text \<open>
  How two processes agree on a duplex (\<open>src/src/ipc/region.rs\<close>, \<open>setup.rs\<close>, \<open>mod.rs\<close> and the opening half of
  \<open>stream.rs\<close>): region locators, the arena header, directions, payload contracts, the setup frame on the control
  socket, and the creating and the attaching side. A Rust \<open>String\<close> is the list of its bytes. What the operating
  system answers is an argument of the operations that ask it.
\<close>

section \<open>Region locators\<close>

record RegionHandle =
  region_name :: "u8 list"
  region_len :: usize

definition MAX_REGION_NAME :: nat where "MAX_REGION_NAME = 240"

definition region_from_parts :: "u8 list \<Rightarrow> usize \<Rightarrow> (RegionHandle, IoError) Result" where
  "region_from_parts name len =
     (if name = [] \<or> length name > 240 then Err (invalid_input ''shared-region name length is invalid'')
      else if len = 0 \<or> len > ISIZE_MAX then Err (invalid_input ''shared-region length is invalid'')
      else Ok \<lparr>region_name = name, region_len = len\<rparr>)"

definition DIGITS :: "u8 list" where
  "DIGITS = [0x30, 0x31, 0x32, 0x33, 0x34, 0x35, 0x36, 0x37, 0x38, 0x39, 0x61, 0x62, 0x63, 0x64, 0x65, 0x66]"

definition hex :: "u8 list \<Rightarrow> u8 list" where
  "hex bytes = concat (map (\<lambda>b. [DIGITS ! unat (drop_bit 4 b), DIGITS ! unat (b AND 0x0F)]) bytes)"

text \<open>The POSIX name \<open>/p-\<close> and the suffix.\<close>

definition platform_region_name :: "u8 list \<Rightarrow> u8 list" where
  "platform_region_name suffix = [0x2F, 0x70, 0x2D] @ suffix"

text \<open>
  \<open>SharedRegion::create\<close>: \<open>token\<close> is what the random source yields (12 bytes) and \<open>mapped\<close> whether the
  system created and mapped the object.
\<close>

definition region_create :: "(u8 list, IoError) Result \<Rightarrow> (unit, IoError) Result \<Rightarrow> usize \<Rightarrow> (RegionHandle, IoError) Result" where
  "region_create token mapped len =
     (if len = 0 \<or> len > ISIZE_MAX then Err (invalid_input ''shared-region length is invalid'')
      else and_then token (\<lambda>token.
             let name = platform_region_name (hex token)
             in and_then mapped (\<lambda>_. region_from_parts name len)))"

section \<open>Arena headers\<close>

definition ARENA_MAGIC :: u32 where "ARENA_MAGIC = 0x50534152"
definition RELEASE_ARENA_FLAG :: u32 where "RELEASE_ARENA_FLAG = 0x80000000"

text \<open>The first 40 bytes of a region, the role claims behind them, and the arena proper.\<close>

record Region =
  region_header :: "u8 list"
  role_claims :: u32
  region_arena :: Arena

text \<open>The answers of the system while an arena is created or opened.\<close>

record Os =
  os_token :: "(u8 list, IoError) Result"
  os_mapped :: "(unit, IoError) Result"
  os_data_event :: "(unit, IoError) Result"
  os_space_event :: "(unit, IoError) Result"
  os_lock :: "(unit, IoError) Result"

definition header_bytes :: "u32 \<Rightarrow> usize \<Rightarrow> usize \<Rightarrow> usize \<Rightarrow> u32 \<Rightarrow> u64 \<Rightarrow> usize \<Rightarrow> u8 list" where
  "header_bytes magic capacity slots slen direction tid payload_offset =
     to_le 4 magic @ to_le 2 VERSION @ to_le 2 (of_nat FRAME_LEN :: u16) @ to_le 4 (ucast capacity :: u32)
     @ to_le 4 (ucast slots :: u32) @ to_le 4 (ucast slen :: u32) @ to_le 4 direction @ to_le 8 tid
     @ to_le 8 payload_offset"

definition arena_create :: "Os \<Rightarrow> usize \<Rightarrow> usize \<Rightarrow> usize \<Rightarrow> u64 \<Rightarrow> u32 \<Rightarrow> bool \<Rightarrow> (Region \<times> RegionHandle, IoError) Result" where
  "arena_create os slots slen capacity tid direction lock_memory =
     and_then (arena_layout slots slen capacity) (\<lambda>(len, payload_offset).
     and_then (region_create (os_token os) (os_mapped os) len) (\<lambda>handle.
     and_then (os_data_event os) (\<lambda>_. and_then (os_space_event os) (\<lambda>_.
     and_then (if lock_memory then os_lock os else Ok ()) (\<lambda>_.
       Ok (\<lparr>region_header = header_bytes ARENA_MAGIC capacity slots slen direction tid payload_offset,
            role_claims = 0, region_arena = new_arena slots slen capacity\<rparr>, handle))))))"

text \<open>\<open>Arena::open\<close>: \<open>opened\<close> is the region that the system maps for the name and length of the handle.\<close>

definition arena_open :: "Os \<Rightarrow> (RegionHandle \<Rightarrow> (Region, IoError) Result) \<Rightarrow> RegionHandle \<Rightarrow> usize \<Rightarrow> usize \<Rightarrow> usize \<Rightarrow> u64 \<Rightarrow> u32 \<Rightarrow> bool
    \<Rightarrow> (Region, IoError) Result" where
  "arena_open os opened handle slots slen expected_capacity tid direction lock_memory =
     and_then (opened handle) (\<lambda>region.
       let h = region_header region
       in if (from_le (byte_slice 0 4 h) :: u32) \<noteq> ARENA_MAGIC
          then Err (invalid_data ''shared stream arena is not initialized'')
          else let capacity = (ucast (from_le (byte_slice 8 12 h) :: u32) :: usize);
                   payload_offset = (from_le (byte_slice 32 40 h) :: u64)
               in and_then (arena_layout slots slen expected_capacity) (\<lambda>(expected_len, expected_payload_offset).
                    if (from_le (byte_slice 4 6 h) :: u16) \<noteq> VERSION
                       \<or> unat (from_le (byte_slice 6 8 h) :: u16) \<noteq> FRAME_LEN
                       \<or> capacity \<noteq> expected_capacity
                       \<or> (ucast (from_le (byte_slice 12 16 h) :: u32) :: usize) \<noteq> slots
                       \<or> (ucast (from_le (byte_slice 16 20 h) :: u32) :: usize) \<noteq> slen
                       \<or> (from_le (byte_slice 20 24 h) :: u32) \<noteq> direction
                       \<or> (from_le (byte_slice 24 32 h) :: u64) \<noteq> tid
                       \<or> payload_offset \<noteq> expected_payload_offset
                       \<or> region_len handle \<noteq> expected_len
                    then Err (invalid_data ''shared stream arena contract mismatch'')
                    else and_then (os_data_event os) (\<lambda>_. and_then (os_space_event os) (\<lambda>_.
                           and_then (if lock_memory then os_lock os else Ok ()) (\<lambda>_. Ok region)))))"

text \<open>\<open>claim_role\<close> when no other process is claiming at the same moment.\<close>

definition claim_role_now :: "DirectionRole \<Rightarrow> Region \<Rightarrow> (Region, IoError) Result" where
  "claim_role_now role region =
     (case claim_direction_role False (role_claims region) (ClaimTry role (role_claims region)) of
        (w, ClaimDone _ (Err e)) \<Rightarrow> Err e
      | (w, _) \<Rightarrow> Ok (region\<lparr>role_claims := w\<rparr>))"

section \<open>Directions\<close>

record EndpointOptions =
  lock_memory :: bool
  wait_timeout :: nat

definition default_options :: EndpointOptions where
  "default_options = \<lparr>lock_memory = False, wait_timeout = 30 * 10 ^ 9\<rparr>"

definition options_validate :: "EndpointOptions \<Rightarrow> (unit, IoError) Result" where
  "options_validate opts =
     (if wait_timeout opts = 0 then Err (invalid_input ''stream timeout must be non-zero'') else Ok ())"

record DirectionConfig =
  cfg_shape :: StreamShape
  cfg_transfer_id :: u64
  cfg_flow :: StreamFlow
  cfg_options :: EndpointOptions

definition config_validate :: "DirectionConfig \<Rightarrow> (unit, IoError) Result" where
  "config_validate cfg =
     and_then (shape_validate (cfg_shape cfg)) (\<lambda>_.
       if cfg_transfer_id cfg = 0 then Err (invalid_input ''transfer id zero is reserved'')
       else options_validate (cfg_options cfg))"

record DirectionHandle =
  data_region :: RegionHandle
  release_region :: RegionHandle
  handle_shape :: StreamShape
  handle_transfer_id :: u64
  handle_flow :: StreamFlow

definition direction_from_parts :: "RegionHandle \<Rightarrow> RegionHandle \<Rightarrow> StreamShape \<Rightarrow> u64 \<Rightarrow> StreamFlow \<Rightarrow> (DirectionHandle, IoError) Result" where
  "direction_from_parts d r s tid flow =
     and_then (shape_validate s) (\<lambda>_.
       if tid = 0 then Err (invalid_input ''transfer id zero is reserved'')
       else Ok \<lparr>data_region = d, release_region = r, handle_shape = s, handle_transfer_id = tid, handle_flow = flow\<rparr>)"

record Direction =
  dir_data :: Region
  dir_releases :: Region
  dir_shape :: StreamShape
  dir_transfer_id :: u64
  dir_flow :: StreamFlow
  dir_options :: EndpointOptions

definition flow_u32 :: "StreamFlow \<Rightarrow> u32" where
  "flow_u32 flow = ucast (flow_code flow)"

definition direction_create :: "Os \<Rightarrow> Os \<Rightarrow> DirectionConfig \<Rightarrow> DirectionRole \<Rightarrow> (Direction \<times> DirectionHandle, IoError) Result" where
  "direction_create os_d os_r cfg role =
     and_then (config_validate cfg) (\<lambda>_.
     and_then (descriptor_capacity (stream_slots (cfg_shape cfg))) (\<lambda>capacity.
     let direction = flow_u32 (cfg_flow cfg); lock = lock_memory (cfg_options cfg)
     in and_then (arena_create os_d (stream_slots (cfg_shape cfg)) (chunk_bytes (cfg_shape cfg)) capacity (cfg_transfer_id cfg) direction lock)
          (\<lambda>(d, data_handle).
        and_then (arena_create os_r 0 0 capacity (cfg_transfer_id cfg) (direction OR RELEASE_ARENA_FLAG) lock)
          (\<lambda>(r, release_handle).
        and_then (claim_role_now role d) (\<lambda>d.
        and_then (direction_from_parts data_handle release_handle (cfg_shape cfg) (cfg_transfer_id cfg) (cfg_flow cfg)) (\<lambda>handle.
          Ok (\<lparr>dir_data = d, dir_releases = r, dir_shape = cfg_shape cfg, dir_transfer_id = cfg_transfer_id cfg,
               dir_flow = cfg_flow cfg, dir_options = cfg_options cfg\<rparr>, handle)))))))"

definition direction_open :: "Os \<Rightarrow> Os \<Rightarrow> (RegionHandle \<Rightarrow> (Region, IoError) Result) \<Rightarrow> DirectionHandle \<Rightarrow> EndpointOptions \<Rightarrow> DirectionRole
    \<Rightarrow> (Direction, IoError) Result" where
  "direction_open os_d os_r opened handle opts role =
     and_then (options_validate opts) (\<lambda>_.
     and_then (shape_validate (handle_shape handle)) (\<lambda>_.
     and_then (descriptor_capacity (stream_slots (handle_shape handle))) (\<lambda>capacity.
     let direction = flow_u32 (handle_flow handle); s = handle_shape handle; tid = handle_transfer_id handle
     in and_then (arena_open os_d opened (data_region handle) (stream_slots s) (chunk_bytes s) capacity tid direction (lock_memory opts)) (\<lambda>d.
        and_then (arena_open os_r opened (release_region handle) 0 0 capacity tid (direction OR RELEASE_ARENA_FLAG) (lock_memory opts)) (\<lambda>r.
        and_then (claim_role_now role d) (\<lambda>d.
          Ok \<lparr>dir_data = d, dir_releases = r, dir_shape = s, dir_transfer_id = tid, dir_flow = handle_flow handle,
              dir_options = opts\<rparr>))))))"

section \<open>Payload contracts\<close>

datatype PayloadKind = Bytes | Pod | Codec

definition payload_kind_code :: "PayloadKind \<Rightarrow> u8" where
  "payload_kind_code k = (case k of Bytes \<Rightarrow> 1 | Pod \<Rightarrow> 2 | Codec \<Rightarrow> 3)"

record PayloadContract =
  pay_kind :: PayloadKind
  schema_id :: u64
  element_size :: usize
  element_align :: usize

definition payload_bytes :: PayloadContract where
  "payload_bytes = \<lparr>pay_kind = Bytes, schema_id = 0, element_size = 1, element_align = 1\<rparr>"

text \<open>The type parameters enter through their schema, size and alignment.\<close>

definition payload_pod :: "u64 \<Rightarrow> usize \<Rightarrow> usize \<Rightarrow> PayloadContract" where
  "payload_pod schema sz al = \<lparr>pay_kind = Pod, schema_id = schema, element_size = sz, element_align = al\<rparr>"

definition payload_codec :: "u64 \<Rightarrow> PayloadContract" where
  "payload_codec schema = \<lparr>pay_kind = Codec, schema_id = schema, element_size = 0, element_align = 0\<rparr>"

definition payload_validate :: "PayloadContract \<Rightarrow> (unit, IoError) Result" where
  "payload_validate p =
     (if (case pay_kind p of
            Bytes \<Rightarrow> schema_id p = 0 \<and> element_size p = 1 \<and> element_align p = 1
          | Pod \<Rightarrow> schema_id p \<noteq> 0 \<and> element_size p \<noteq> 0 \<and> is_power_of_two (element_align p)
          | Codec \<Rightarrow> schema_id p \<noteq> 0 \<and> element_size p = 0 \<and> element_align p = 0)
      then Ok () else Err (IoError InvalidInput ''invalid IPC payload contract''))"

section \<open>The setup frame\<close>

record DuplexHandle =
  parent_to_worker :: DirectionHandle
  worker_to_parent :: DirectionHandle
  payload_contract :: PayloadContract

definition SETUP_MAGIC :: "u8 list" where "SETUP_MAGIC = [0x50, 0x53, 0x43, 0x49, 0x50, 0x43, 0, 0]"
definition SETUP_VERSION :: u16 where "SETUP_VERSION = 1"
definition ACCEPTED :: u8 where "ACCEPTED = 0xA5"
definition REJECTED :: u8 where "REJECTED = 0x5A"

text \<open>Writers append to the frame; \<open>usize\<close> is as wide as \<open>u64\<close>, so no conversion fails.\<close>

definition write_payload :: "PayloadContract \<Rightarrow> u8 list" where
  "write_payload p = [payload_kind_code (pay_kind p)] @ to_le 8 (schema_id p) @ to_le 8 (element_size p) @ to_le 8 (element_align p)"

definition write_region :: "RegionHandle \<Rightarrow> (u8 list, IoError) Result" where
  "write_region h =
     (let name = region_name h
      in if name = [] \<or> length name > MAX_REGION_NAME then Err (invalid_data ''shared-region name length is invalid'')
         else Ok (to_le 2 (of_nat (length name) :: u16) @ name @ to_le 8 (region_len h)))"

definition write_direction :: "DirectionHandle \<Rightarrow> (u8 list, IoError) Result" where
  "write_direction h =
     and_then (write_region (data_region h)) (\<lambda>d. and_then (write_region (release_region h)) (\<lambda>r.
       Ok (d @ r @ to_le 8 (total_bytes (handle_shape h)) @ to_le 8 (chunk_bytes (handle_shape h))
           @ to_le 8 (stream_slots (handle_shape h)) @ to_le 8 (handle_transfer_id h) @ [flow_code (handle_flow h)])))"

definition write_frame :: "DuplexHandle \<Rightarrow> (u8 list, IoError) Result" where
  "write_frame h =
     and_then (write_direction (parent_to_worker h)) (\<lambda>p. and_then (write_direction (worker_to_parent h)) (\<lambda>w.
       Ok (SETUP_MAGIC @ to_le 2 SETUP_VERSION @ write_payload (payload_contract h) @ p @ w)))"

text \<open>\<open>send\<close>: \<open>reply\<close> is what the peer writes back.\<close>

definition setup_send :: "DuplexHandle \<Rightarrow> u8 list \<Rightarrow> (unit, IoError) Result" where
  "setup_send h reply =
     and_then (write_frame h) (\<lambda>_.
       case reply of
         [] \<Rightarrow> Err eof_error
       | a # _ \<Rightarrow> if a = ACCEPTED then Ok ()
                  else if a = REJECTED then Err (invalid_data ''peer rejected IPC setup'')
                  else Err (invalid_data ''invalid IPC setup acknowledgement''))"

text \<open>Readers take from the front of the input.\<close>

type_synonym 'v parsed = "('v \<times> u8 list, IoError) Result"

definition read_bytes :: "nat \<Rightarrow> u8 list \<Rightarrow> u8 list parsed" where
  "read_bytes n input = (if length input < n then Err eof_error else Ok (take n input, drop n input))"

definition read_u8 :: "u8 list \<Rightarrow> u8 parsed" where
  "read_u8 input = and_then (read_bytes 1 input) (\<lambda>(b, rest). Ok (hd b, rest))"

definition read_u16 :: "u8 list \<Rightarrow> u16 parsed" where
  "read_u16 input = and_then (read_bytes 2 input) (\<lambda>(b, rest). Ok (from_le b, rest))"

definition read_u64 :: "u8 list \<Rightarrow> u64 parsed" where
  "read_u64 input = and_then (read_bytes 8 input) (\<lambda>(b, rest). Ok (from_le b, rest))"

definition read_payload :: "u8 list \<Rightarrow> PayloadContract parsed" where
  "read_payload input =
     and_then (read_u8 input) (\<lambda>(k, input).
     and_then (if k = 1 then Ok Bytes else if k = 2 then Ok Pod else if k = 3 then Ok Codec
               else Err (invalid_data ''invalid IPC payload kind'')) (\<lambda>kind.
     and_then (read_u64 input) (\<lambda>(schema, input).
     and_then (read_u64 input) (\<lambda>(sz, input).
     and_then (read_u64 input) (\<lambda>(al, input).
       let p = \<lparr>pay_kind = kind, schema_id = schema, element_size = sz, element_align = al\<rparr>
       in and_then (payload_validate p) (\<lambda>_. Ok (p, input)))))))"

text \<open>\<open>String::from_utf8\<close> accepts exactly the well-formed sequences of the Unicode standard.\<close>

definition continuation :: "u8 \<Rightarrow> bool" where
  "continuation b \<longleftrightarrow> 0x80 \<le> b \<and> b \<le> 0xBF"

fun utf8 :: "u8 list \<Rightarrow> bool" where
  "utf8 [] = True"
| "utf8 (a # r) =
     (if a \<le> 0x7F then utf8 r
      else case r of
        [] \<Rightarrow> False
      | b # r2 \<Rightarrow>
          if 0xC2 \<le> a \<and> a \<le> 0xDF then continuation b \<and> utf8 r2
          else case r2 of
            [] \<Rightarrow> False
          | c # r3 \<Rightarrow>
              if 0xE0 \<le> a \<and> a \<le> 0xEF
              then continuation b \<and> (a = 0xE0 \<longrightarrow> 0xA0 \<le> b) \<and> (a = 0xED \<longrightarrow> b \<le> 0x9F) \<and> continuation c \<and> utf8 r3
              else case r3 of
                [] \<Rightarrow> False
              | d # r4 \<Rightarrow>
                  0xF0 \<le> a \<and> a \<le> 0xF4 \<and> continuation b \<and> (a = 0xF0 \<longrightarrow> 0x90 \<le> b) \<and> (a = 0xF4 \<longrightarrow> b \<le> 0x8F)
                  \<and> continuation c \<and> continuation d \<and> utf8 r4)"

definition read_region :: "u8 list \<Rightarrow> RegionHandle parsed" where
  "read_region input =
     and_then (read_u16 input) (\<lambda>(n, input).
       let name_len = unat n
       in if name_len = 0 \<or> name_len > MAX_REGION_NAME
          then Err (invalid_data ''shared-region name length is invalid'')
          else and_then (read_bytes name_len input) (\<lambda>(name, input).
                 if \<not> utf8 name then Err (invalid_data ''shared-region name is not UTF-8'')
                 else and_then (read_u64 input) (\<lambda>(len, input).
                        and_then (region_from_parts name len) (\<lambda>h. Ok (h, input)))))"

definition read_direction :: "u8 list \<Rightarrow> DirectionHandle parsed" where
  "read_direction input =
     and_then (read_region input) (\<lambda>(d, input).
     and_then (read_region input) (\<lambda>(r, input).
     and_then (read_u64 input) (\<lambda>(t, input).
     and_then (read_u64 input) (\<lambda>(c, input).
     and_then (read_u64 input) (\<lambda>(s, input).
     and_then (read_u64 input) (\<lambda>(tid, input).
     and_then (read_u8 input) (\<lambda>(f, input).
     and_then (flow_try_from f) (\<lambda>flow.
     and_then (direction_from_parts d r \<lparr>total_bytes = t, chunk_bytes = c, stream_slots = s\<rparr> tid flow) (\<lambda>h.
       Ok (h, input))))))))))"

definition read_frame :: "u8 list \<Rightarrow> DuplexHandle parsed" where
  "read_frame input =
     and_then (read_bytes (length SETUP_MAGIC) input) (\<lambda>(magic, input).
       if magic \<noteq> SETUP_MAGIC then Err (invalid_data ''invalid IPC setup magic'')
       else and_then (read_u16 input) (\<lambda>(version, input).
              if version \<noteq> SETUP_VERSION then Err (invalid_data ''unsupported IPC setup version'')
              else and_then (read_payload input) (\<lambda>(p, input).
                   and_then (read_direction input) (\<lambda>(pw, input).
                   and_then (read_direction input) (\<lambda>(wp, input).
                     Ok (\<lparr>parent_to_worker = pw, worker_to_parent = wp, payload_contract = p\<rparr>, input))))))"

section \<open>Both sides of a duplex\<close>

record Duplex =
  outbound :: Direction
  inbound :: Direction

text \<open>\<open>create\<close>: the system answers for the four arenas, and \<open>reply\<close> what the peer acknowledges with.\<close>

definition duplex_directions :: "Os \<times> Os \<times> Os \<times> Os \<Rightarrow> StreamShape \<Rightarrow> u64 \<Rightarrow> EndpointOptions \<Rightarrow> PayloadContract
    \<Rightarrow> (Duplex \<times> DuplexHandle, IoError) Result" where
  "duplex_directions os s tid opts p = (case os of (o1, o2, o3, o4) \<Rightarrow>
     and_then (ok_or (checked_add tid 1) (IoError InvalidInput ''duplex transfer id overflows'')) (\<lambda>reverse_id.
     and_then (direction_create o1 o2 \<lparr>cfg_shape = s, cfg_transfer_id = tid, cfg_flow = ParentToWorker, cfg_options = opts\<rparr> Producer)
       (\<lambda>(out, pw).
     and_then (direction_create o3 o4 \<lparr>cfg_shape = s, cfg_transfer_id = reverse_id, cfg_flow = WorkerToParent, cfg_options = opts\<rparr> Consumer)
       (\<lambda>(inb, wp).
       Ok (\<lparr>outbound = out, inbound = inb\<rparr>, \<lparr>parent_to_worker = pw, worker_to_parent = wp, payload_contract = p\<rparr>)))))"

definition duplex_create :: "Os \<times> Os \<times> Os \<times> Os \<Rightarrow> StreamShape \<Rightarrow> u64 \<Rightarrow> EndpointOptions \<Rightarrow> PayloadContract \<Rightarrow> u8 list
    \<Rightarrow> (Duplex, IoError) Result" where
  "duplex_create os s tid opts p reply =
     and_then (duplex_directions os s tid opts p) (\<lambda>(duplex, handle).
     and_then (setup_send handle reply) (\<lambda>_. Ok duplex))"

definition attach_check :: "PayloadContract \<Rightarrow> DuplexHandle \<Rightarrow> (unit, IoError) Result" where
  "attach_check expected h =
     and_then (payload_validate (payload_contract h)) (\<lambda>_.
       if payload_contract h \<noteq> expected then Err (IoError InvalidInput ''IPC payload contract mismatch'')
       else if handle_shape (parent_to_worker h) \<noteq> handle_shape (worker_to_parent h)
               \<or> handle_flow (parent_to_worker h) \<noteq> ParentToWorker \<or> handle_flow (worker_to_parent h) \<noteq> WorkerToParent
               \<or> checked_add (handle_transfer_id (parent_to_worker h)) 1 \<noteq> Some (handle_transfer_id (worker_to_parent h))
       then Err (IoError InvalidInput ''IPC setup does not describe one paired transport'')
       else if pay_kind (payload_contract h) = Pod
               \<and> total_bytes (handle_shape (parent_to_worker h)) mod element_size (payload_contract h) \<noteq> 0
       then Err (IoError InvalidInput ''IPC POD shape must contain a whole number of values'')
       else Ok ())"

text \<open>\<open>attach_peer\<close>: the result, and the byte it writes back.\<close>

definition attach_peer :: "Os \<times> Os \<times> Os \<times> Os \<Rightarrow> (RegionHandle \<Rightarrow> (Region, IoError) Result) \<Rightarrow> EndpointOptions \<Rightarrow> PayloadContract \<Rightarrow> u8 list
    \<Rightarrow> (Duplex, IoError) Result \<times> u8 list" where
  "attach_peer os opened opts expected input = (case os of (o1, o2, o3, o4) \<Rightarrow>
     (case and_then (read_frame input) (\<lambda>(h, _).
             and_then (attach_check expected h) (\<lambda>_.
             and_then (direction_open o1 o2 opened (parent_to_worker h) opts Consumer) (\<lambda>inb.
             and_then (direction_open o3 o4 opened (worker_to_parent h) opts Producer) (\<lambda>out.
               Ok \<lparr>outbound = out, inbound = inb\<rparr>)))) of
        Ok duplex \<Rightarrow> (Ok duplex, [ACCEPTED])
      | Err e \<Rightarrow> (Err e, [REJECTED])))"

section \<open>The setup frame round trip\<close>

text \<open>Each reader accepts exactly what the matching writer produces.\<close>

lemma read_bytes_Ok: "read_bytes n input = Ok (b, rest) \<longleftrightarrow> input = b @ rest \<and> length b = n"
  by (auto simp: read_bytes_def)

lemma read_u8_Ok: "read_u8 input = Ok (b, rest) \<longleftrightarrow> input = b # rest"
proof -
  have "read_u8 input = Ok (b, rest) \<longleftrightarrow> (\<exists>bs. input = bs @ rest \<and> length bs = 1 \<and> hd bs = b)"
    by (auto simp: read_u8_def and_then_Ok_conv read_bytes_Ok)
  also have "\<dots> \<longleftrightarrow> input = b # rest"
    by (auto simp: length_Suc_conv intro!: exI [of _ "[b]"])
  finally show ?thesis .
qed

lemma le_read:
  fixes v :: "'a::len word"
  assumes "8 * n = LENGTH('a)"
  shows "(\<exists>bs. input = bs @ rest \<and> length bs = n \<and> from_le bs = v) \<longleftrightarrow> input = to_le n v @ rest"
proof
  assume "\<exists>bs. input = bs @ rest \<and> length bs = n \<and> from_le bs = v"
  then obtain bs where "input = bs @ rest" "length bs = n" "from_le bs = v" by blast
  then show "input = to_le n v @ rest" using to_from_le [of bs, where 'a = 'a] assms by simp
next
  assume "input = to_le n v @ rest"
  then show "\<exists>bs. input = bs @ rest \<and> length bs = n \<and> from_le bs = v"
    using assms by (intro exI [of _ "to_le n v"]) (simp add: from_to_le)
qed

lemma read_u16_Ok: "read_u16 input = Ok (v, rest) \<longleftrightarrow> input = to_le 2 v @ rest"
proof -
  have "read_u16 input = Ok (v, rest) \<longleftrightarrow> (\<exists>bs. input = bs @ rest \<and> length bs = 2 \<and> from_le bs = v)"
    by (auto simp: read_u16_def and_then_Ok_conv read_bytes_Ok)
  also have "\<dots> \<longleftrightarrow> input = to_le 2 v @ rest"
    by (rule le_read) simp
  finally show ?thesis .
qed

lemma read_u64_Ok: "read_u64 input = Ok (v, rest) \<longleftrightarrow> input = to_le 8 v @ rest"
proof -
  have "read_u64 input = Ok (v, rest) \<longleftrightarrow> (\<exists>bs. input = bs @ rest \<and> length bs = 8 \<and> from_le bs = v)"
    by (auto simp: read_u64_def and_then_Ok_conv read_bytes_Ok)
  also have "\<dots> \<longleftrightarrow> input = to_le 8 v @ rest"
    by (rule le_read) simp
  finally show ?thesis .
qed

lemmas readers_Ok = read_bytes_Ok read_u8_Ok read_u16_Ok read_u64_Ok

lemma payload_kind_read:
  "(if k = 1 then Ok Bytes else if k = 2 then Ok Pod else if k = 3 then Ok Codec else Err e) = Ok kind \<longleftrightarrow> k = payload_kind_code kind"
  by (cases kind) (auto simp: payload_kind_code_def)

lemma read_payload_Ok:
  "read_payload input = Ok (p, rest) \<longleftrightarrow> input = write_payload p @ rest \<and> payload_validate p = Ok ()"
  by (cases p) (auto simp: read_payload_def and_then_Ok_conv readers_Ok payload_kind_read write_payload_def Let_def)

definition region_ok :: "RegionHandle \<Rightarrow> bool" where
  "region_ok h \<longleftrightarrow> region_name h \<noteq> [] \<and> length (region_name h) \<le> 240 \<and> utf8 (region_name h) \<and> region_len h \<noteq> 0 \<and> region_len h \<le> ISIZE_MAX"

lemma region_from_parts_Ok:
  "region_from_parts name len = Ok h \<longleftrightarrow>
     h = \<lparr>region_name = name, region_len = len\<rparr> \<and> name \<noteq> [] \<and> length name \<le> 240 \<and> len \<noteq> 0 \<and> len \<le> ISIZE_MAX"
  by (auto simp: region_from_parts_def not_less)

lemma unat_len16: "n \<le> 240 \<Longrightarrow> unat (of_nat n :: u16) = n"
  by (simp add: unat_of_nat)

lemma read_region_Ok:
  "read_region input = Ok (h, rest) \<longleftrightarrow> region_ok h \<and> (\<exists>bytes. write_region h = Ok bytes \<and> input = bytes @ rest)"
proof
  assume "read_region input = Ok (h, rest)"
  then obtain n i1 name i2 len where "read_u16 input = Ok (n, i1)" "read_bytes (unat n) i1 = Ok (name, i2)" "read_u64 i2 = Ok (len, rest)"
    and i: "utf8 name" "region_from_parts name len = Ok h" "unat n \<noteq> 0" "unat n \<le> MAX_REGION_NAME"
    by (auto simp: read_region_def and_then_Ok_conv Let_def not_less split: if_splits)
  then have i2: "input = to_le 2 n @ name @ to_le 8 len @ rest" "length name = unat n" by (simp_all add: readers_Ok)
  have "n = of_nat (length name)" using i2(2) by (metis of_nat_unat ucast_id)
  then show "region_ok h \<and> (\<exists>bytes. write_region h = Ok bytes \<and> input = bytes @ rest)"
    using i i2 by (auto simp: region_from_parts_Ok region_ok_def write_region_def MAX_REGION_NAME_def)
next
  assume a: "region_ok h \<and> (\<exists>bytes. write_region h = Ok bytes \<and> input = bytes @ rest)"
  then have n: "unat (of_nat (length (region_name h)) :: u16) = length (region_name h)" by (simp add: region_ok_def unat_len16)
  have i: "input = to_le 2 (of_nat (length (region_name h)) :: u16) @ region_name h @ to_le 8 (region_len h) @ rest"
    using a by (auto simp: write_region_def Let_def split: if_splits)
  have "read_u16 input = Ok (of_nat (length (region_name h)), region_name h @ to_le 8 (region_len h) @ rest)"
    by (simp add: read_u16_Ok i)
  moreover have "read_bytes (length (region_name h)) (region_name h @ to_le 8 (region_len h) @ rest) = Ok (region_name h, to_le 8 (region_len h) @ rest)"
    by (simp add: read_bytes_Ok)
  moreover have "read_u64 (to_le 8 (region_len h) @ rest) = Ok (region_len h, rest)" by (simp add: read_u64_Ok)
  moreover have "region_from_parts (region_name h) (region_len h) = Ok h" using a by (simp add: region_from_parts_Ok region_ok_def)
  ultimately show "read_region input = Ok (h, rest)"
    using a n by (simp add: read_region_def region_ok_def MAX_REGION_NAME_def Let_def)
qed

definition direction_ok :: "DirectionHandle \<Rightarrow> bool" where
  "direction_ok h \<longleftrightarrow> region_ok (data_region h) \<and> region_ok (release_region h) \<and> shape_validate (handle_shape h) = Ok () \<and> handle_transfer_id h \<noteq> 0"

lemma flow_try_from_Ok: "flow_try_from v = Ok f \<longleftrightarrow> v = flow_code f"
  by (cases f) (auto simp: flow_try_from_def flow_code_def)

lemma direction_from_parts_Ok:
  "direction_from_parts d r s tid flow = Ok h \<longleftrightarrow> shape_validate s = Ok () \<and> tid \<noteq> 0
     \<and> h = \<lparr>data_region = d, release_region = r, handle_shape = s, handle_transfer_id = tid, handle_flow = flow\<rparr>"
  by (auto simp: direction_from_parts_def and_then_Ok_conv)

lemma read_direction_Ok:
  "read_direction input = Ok (h, rest) \<longleftrightarrow> direction_ok h \<and> (\<exists>bytes. write_direction h = Ok bytes \<and> input = bytes @ rest)"
proof -
  obtain d r s tid f where h: "h = \<lparr>data_region = d, release_region = r, handle_shape = s, handle_transfer_id = tid, handle_flow = f\<rparr>"
    by (cases h)
  obtain t c sl where s: "s = \<lparr>total_bytes = t, chunk_bytes = c, stream_slots = sl\<rparr>" by (cases s)
  show ?thesis
    unfolding h s
    by (auto simp: read_direction_def write_direction_def and_then_Ok_conv readers_Ok read_region_Ok flow_try_from_Ok
        direction_from_parts_Ok direction_ok_def)
qed

definition duplex_ok :: "DuplexHandle \<Rightarrow> bool" where
  "duplex_ok h \<longleftrightarrow> direction_ok (parent_to_worker h) \<and> direction_ok (worker_to_parent h) \<and> payload_validate (payload_contract h) = Ok ()"

lemma read_frame_Ok:
  "read_frame input = Ok (h, rest) \<longleftrightarrow> duplex_ok h \<and> (\<exists>bytes. write_frame h = Ok bytes \<and> input = bytes @ rest)"
proof -
  obtain pw wp p where h: "h = \<lparr>parent_to_worker = pw, worker_to_parent = wp, payload_contract = p\<rparr>" by (cases h)
  show ?thesis
    unfolding h
    by (auto simp: read_frame_def write_frame_def and_then_Ok_conv readers_Ok read_payload_Ok read_direction_Ok duplex_ok_def)
qed

text \<open>C31. The setup frame carries a duplex handle without loss or ambiguity: reading succeeds exactly on what writing a well-formed handle produces, yields that handle and leaves the rest of the input; well-formed means valid region names and lengths, valid shapes, non-zero transfer ids and a valid payload contract.\<close>

theorem setup_frame_roundtrip:
  "read_frame input = Ok (h, rest) \<longleftrightarrow> duplex_ok h \<and> (\<exists>bytes. write_frame h = Ok bytes \<and> input = bytes @ rest)"
  by (rule read_frame_Ok)

section \<open>Opening what was created\<close>

lemma utf8_ascii: "\<forall>b \<in> set bs. b \<le> 0x7F \<Longrightarrow> utf8 bs"
  by (induction bs) auto

lemma hex_ascii: "b \<in> set (hex bytes) \<Longrightarrow> b \<le> 0x7F"
proof -
  assume "b \<in> set (hex bytes)"
  then have "b \<in> (\<Union>x \<in> set bytes. {DIGITS ! unat (drop_bit 4 x), DIGITS ! unat (x AND 0x0F)})" by (simp add: hex_def)
  then obtain x :: u8 where "b = DIGITS ! unat (drop_bit 4 x) \<or> b = DIGITS ! unat (x AND 0x0F)" by blast
  moreover have "unat (drop_bit 4 x) < 16"
  proof -
    have "unat (drop_bit 4 x) = unat x div 16" by (simp add: drop_bit_eq_div unat_div)
    moreover have "unat x < 256" using unsigned_less [where ?'a = nat, of x] by simp
    ultimately show ?thesis by simp
  qed
  moreover have "unat (x AND 0x0F) < 16"
  proof -
    have "x AND 0x0F \<le> 0x0F" by (rule word_and_le1)
    then show ?thesis by (simp add: word_le_nat_alt)
  qed
  moreover have "\<forall>i < length DIGITS. DIGITS ! i \<le> 0x7F" by (simp add: DIGITS_def All_less_Suc2)
  moreover have "length DIGITS = 16" by (simp add: DIGITS_def)
  ultimately show ?thesis by auto
qed

lemma region_create_Ok:
  assumes "region_create token mapped len = Ok h"
  shows "region_ok h" "region_len h = len"
proof -
  obtain t where h: "region_from_parts (platform_region_name (hex t)) len = Ok h"
    using assms by (auto simp: region_create_def and_then_Ok_conv Let_def split: if_splits)
  have "utf8 (platform_region_name (hex t))" by (rule utf8_ascii) (auto simp: platform_region_name_def dest: hex_ascii)
  then show "region_ok h" "region_len h = len" using h by (auto simp: region_from_parts_Ok region_ok_def)
qed

lemma arena_create_Ok:
  assumes "arena_create os slots slen capacity tid direction lock = Ok (region, h)"
  shows "\<exists>len off. arena_layout slots slen capacity = Ok (len, off) \<and> region_ok h \<and> region_len h = len
    \<and> region = \<lparr>region_header = header_bytes ARENA_MAGIC capacity slots slen direction tid off, role_claims = 0, region_arena = new_arena slots slen capacity\<rparr>"
  using assms region_create_Ok by (fastforce simp: arena_create_def and_then_Ok_conv)

lemma header_fields:
  fixes magic direction :: u32 and capacity slots slen off :: usize and tid :: u64
  defines "h \<equiv> header_bytes magic capacity slots slen direction tid off"
  shows "from_le (byte_slice 0 4 h) = magic" "from_le (byte_slice 4 6 h) = VERSION" "from_le (byte_slice 6 8 h) = (of_nat FRAME_LEN :: u16)"
    "from_le (byte_slice 8 12 h) = (ucast capacity :: u32)" "from_le (byte_slice 12 16 h) = (ucast slots :: u32)"
    "from_le (byte_slice 16 20 h) = (ucast slen :: u32)" "from_le (byte_slice 20 24 h) = direction"
    "from_le (byte_slice 24 32 h) = tid" "from_le (byte_slice 32 40 h) = off"
proof -
  have "byte_slice 0 4 h = to_le 4 magic" "byte_slice 4 6 h = to_le 2 VERSION" "byte_slice 6 8 h = to_le 2 (of_nat FRAME_LEN :: u16)"
    "byte_slice 8 12 h = to_le 4 (ucast capacity :: u32)" "byte_slice 12 16 h = to_le 4 (ucast slots :: u32)"
    "byte_slice 16 20 h = to_le 4 (ucast slen :: u32)" "byte_slice 20 24 h = to_le 4 direction"
    "byte_slice 24 32 h = to_le 8 tid" "byte_slice 32 40 h = to_le 8 off"
    by (simp_all add: h_def header_bytes_def byte_slice_def)
  then show "from_le (byte_slice 0 4 h) = magic" "from_le (byte_slice 4 6 h) = VERSION" "from_le (byte_slice 6 8 h) = (of_nat FRAME_LEN :: u16)"
    "from_le (byte_slice 8 12 h) = (ucast capacity :: u32)" "from_le (byte_slice 12 16 h) = (ucast slots :: u32)"
    "from_le (byte_slice 16 20 h) = (ucast slen :: u32)" "from_le (byte_slice 20 24 h) = direction"
    "from_le (byte_slice 24 32 h) = tid" "from_le (byte_slice 32 40 h) = off"
    by (simp_all add: from_to_le)
qed

definition os_ready :: "bool \<Rightarrow> Os \<Rightarrow> bool" where
  "os_ready lock os \<longleftrightarrow> os_data_event os = Ok () \<and> os_space_event os = Ok () \<and> (lock \<longrightarrow> os_lock os = Ok ())"

lemma ucast_down_up: "unat w < 2 ^ 32 \<Longrightarrow> (ucast (ucast w :: u32) :: usize) = w" for w :: usize
  by (simp add: word_unat_eq_iff unsigned_ucast_eq take_bit_eq_mod unat_mod)

lemma arena_open_created:
  assumes "arena_layout slots slen capacity = Ok (len, off)" "unat slots < 2 ^ 32" "unat slen < 2 ^ 32"
    "opened h = Ok region" "region_header region = header_bytes ARENA_MAGIC capacity slots slen direction tid off"
    "region_len h = len" "os_ready lock os"
  shows "arena_open os opened h slots slen capacity tid direction lock = Ok region"
proof -
  have c: "unat capacity < 2 ^ 32" using arena_layout_Ok(3) [OF assms(1)] .
  have f: "unat (of_nat FRAME_LEN :: u16) = FRAME_LEN" by (simp add: FRAME_LEN_def)
  show ?thesis
    using assms c f by (simp add: arena_open_def Let_def header_fields ucast_down_up os_ready_def)
qed

lemma claim_role_now_spec:
  "claim_role_now role (r\<lparr>role_claims := 0\<rparr>) = Ok (r\<lparr>role_claims := role_claim role\<rparr>)"
  "role \<noteq> role' \<Longrightarrow> role_claims r = role_claim role' \<Longrightarrow> claim_role_now role r = Ok (r\<lparr>role_claims := 3\<rparr>)"
  "role_claims r AND role_claim role \<noteq> 0 \<Longrightarrow> role_claims r \<in> {0, 1, 2, 3} \<Longrightarrow>
     claim_role_now role r = Err (IoError AlreadyExists ''IPC direction role is already claimed'')"
  by (cases role; cases role'; auto simp: claim_role_now_def role_claim_def ROLE_CLAIM_MASK_def)+

lemma direction_create_Ok:
  assumes "direction_create os1 os2 cfg role = Ok (dir, h)"
  shows "\<exists>capacity len off rlen roff. config_validate cfg = Ok () \<and> descriptor_capacity (stream_slots (cfg_shape cfg)) = Ok capacity
    \<and> arena_layout (stream_slots (cfg_shape cfg)) (chunk_bytes (cfg_shape cfg)) capacity = Ok (len, off)
    \<and> arena_layout 0 0 capacity = Ok (rlen, roff)
    \<and> direction_ok h \<and> region_len (data_region h) = len \<and> region_len (release_region h) = rlen
    \<and> handle_shape h = cfg_shape cfg \<and> handle_transfer_id h = cfg_transfer_id cfg \<and> handle_flow h = cfg_flow cfg
    \<and> dir = \<lparr>dir_data = \<lparr>region_header = header_bytes ARENA_MAGIC capacity (stream_slots (cfg_shape cfg)) (chunk_bytes (cfg_shape cfg)) (flow_u32 (cfg_flow cfg)) (cfg_transfer_id cfg) off,
                role_claims = role_claim role, region_arena = new_arena (stream_slots (cfg_shape cfg)) (chunk_bytes (cfg_shape cfg)) capacity\<rparr>,
              dir_releases = \<lparr>region_header = header_bytes ARENA_MAGIC capacity 0 0 (flow_u32 (cfg_flow cfg) OR RELEASE_ARENA_FLAG) (cfg_transfer_id cfg) roff,
                role_claims = 0, region_arena = new_arena 0 0 capacity\<rparr>,
              dir_shape = cfg_shape cfg, dir_transfer_id = cfg_transfer_id cfg, dir_flow = cfg_flow cfg, dir_options = cfg_options cfg\<rparr>"
proof -
  obtain capacity d dh r rh d' where s: "config_validate cfg = Ok ()" "descriptor_capacity (stream_slots (cfg_shape cfg)) = Ok capacity"
    "arena_create os1 (stream_slots (cfg_shape cfg)) (chunk_bytes (cfg_shape cfg)) capacity (cfg_transfer_id cfg) (flow_u32 (cfg_flow cfg)) (lock_memory (cfg_options cfg)) = Ok (d, dh)"
    "arena_create os2 0 0 capacity (cfg_transfer_id cfg) (flow_u32 (cfg_flow cfg) OR RELEASE_ARENA_FLAG) (lock_memory (cfg_options cfg)) = Ok (r, rh)"
    "claim_role_now role d = Ok d'"
    "direction_from_parts dh rh (cfg_shape cfg) (cfg_transfer_id cfg) (cfg_flow cfg) = Ok h"
    "dir = \<lparr>dir_data = d', dir_releases = r, dir_shape = cfg_shape cfg, dir_transfer_id = cfg_transfer_id cfg, dir_flow = cfg_flow cfg, dir_options = cfg_options cfg\<rparr>"
    using assms by (auto simp: direction_create_def and_then_Ok_conv Let_def)
  from arena_create_Ok [OF s(3)] arena_create_Ok [OF s(4)] s(5-7) show ?thesis
    using s(1,2) claim_role_now_spec(1) [of role d]
    by (auto simp: direction_from_parts_Ok direction_ok_def)
qed

lemma direction_open_created:
  assumes c: "direction_create os1 os2 cfg role = Ok (dir, h)" and role: "role' \<noteq> role"
    and o: "opened (data_region h) = Ok (dir_data dir)" "opened (release_region h) = Ok (dir_releases dir)"
    and opts: "options_validate opts = Ok ()" and os: "os_ready (lock_memory opts) os3" "os_ready (lock_memory opts) os4"
  shows "direction_open os3 os4 opened h opts role' = Ok \<lparr>dir_data = (dir_data dir)\<lparr>role_claims := 3\<rparr>, dir_releases = dir_releases dir,
      dir_shape = dir_shape dir, dir_transfer_id = dir_transfer_id dir, dir_flow = dir_flow dir, dir_options = opts\<rparr>"
proof -
  obtain capacity len off rlen roff where s: "descriptor_capacity (stream_slots (cfg_shape cfg)) = Ok capacity"
    "arena_layout (stream_slots (cfg_shape cfg)) (chunk_bytes (cfg_shape cfg)) capacity = Ok (len, off)"
    "arena_layout 0 0 capacity = Ok (rlen, roff)" "direction_ok h" "region_len (data_region h) = len" "region_len (release_region h) = rlen"
    "handle_shape h = cfg_shape cfg" "handle_transfer_id h = cfg_transfer_id cfg" "handle_flow h = cfg_flow cfg"
    and d: "dir = \<lparr>dir_data = \<lparr>region_header = header_bytes ARENA_MAGIC capacity (stream_slots (cfg_shape cfg)) (chunk_bytes (cfg_shape cfg)) (flow_u32 (cfg_flow cfg)) (cfg_transfer_id cfg) off,
                role_claims = role_claim role, region_arena = new_arena (stream_slots (cfg_shape cfg)) (chunk_bytes (cfg_shape cfg)) capacity\<rparr>,
              dir_releases = \<lparr>region_header = header_bytes ARENA_MAGIC capacity 0 0 (flow_u32 (cfg_flow cfg) OR RELEASE_ARENA_FLAG) (cfg_transfer_id cfg) roff,
                role_claims = 0, region_arena = new_arena 0 0 capacity\<rparr>,
              dir_shape = cfg_shape cfg, dir_transfer_id = cfg_transfer_id cfg, dir_flow = cfg_flow cfg, dir_options = cfg_options cfg\<rparr>"
    using direction_create_Ok [OF c] by (elim exE conjE) (rule that)
  have v: "shape_validate (cfg_shape cfg) = Ok ()" using s(4,7) by (simp add: direction_ok_def)
  then have sz: "unat (stream_slots (cfg_shape cfg)) < 2 ^ 32" "unat (chunk_bytes (cfg_shape cfg)) < 2 ^ 32" by (simp_all add: shape_validate_Ok)
  have "arena_open os3 opened (data_region h) (stream_slots (cfg_shape cfg)) (chunk_bytes (cfg_shape cfg)) capacity (cfg_transfer_id cfg)
      (flow_u32 (cfg_flow cfg)) (lock_memory opts) = Ok (dir_data dir)"
    by (rule arena_open_created [where opened = opened and h = "data_region h", OF s(2) sz o(1) _ s(5) os(1)]) (simp add: d)
  moreover have "arena_open os4 opened (release_region h) 0 0 capacity (cfg_transfer_id cfg)
      (flow_u32 (cfg_flow cfg) OR RELEASE_ARENA_FLAG) (lock_memory opts) = Ok (dir_releases dir)"
    by (rule arena_open_created [where opened = opened and h = "release_region h", OF s(3) _ _ o(2) _ s(6) os(2)]) (simp_all add: d)
  moreover have "claim_role_now role' (dir_data dir) = Ok ((dir_data dir)\<lparr>role_claims := 3\<rparr>)"
    using role by (intro claim_role_now_spec(2) [of role' role]) (simp_all add: d)
  ultimately show ?thesis using s v opts by (simp add: direction_open_def Let_def) (simp add: d)
qed

lemma write_region_ok: "region_ok h \<Longrightarrow> \<exists>bytes. write_region h = Ok bytes"
  by (simp add: region_ok_def write_region_def MAX_REGION_NAME_def Let_def)

lemma write_frame_ok: "duplex_ok h \<Longrightarrow> \<exists>bytes. write_frame h = Ok bytes"
proof -
  assume h: "duplex_ok h"
  have d: "\<exists>bytes. write_direction g = Ok bytes" if "direction_ok g" for g
    using write_region_ok [of "data_region g"] write_region_ok [of "release_region g"] that
    by (auto simp: direction_ok_def write_direction_def)
  show ?thesis
    using d [of "parent_to_worker h"] d [of "worker_to_parent h"] h by (auto simp: duplex_ok_def write_frame_def)
qed

lemma duplex_directions_Ok:
  assumes "duplex_directions (o1, o2, o3, o4) s tid opts p = Ok (dup, h)"
  shows "\<exists>rid. checked_add tid 1 = Some rid
    \<and> direction_create o1 o2 \<lparr>cfg_shape = s, cfg_transfer_id = tid, cfg_flow = ParentToWorker, cfg_options = opts\<rparr> Producer = Ok (outbound dup, parent_to_worker h)
    \<and> direction_create o3 o4 \<lparr>cfg_shape = s, cfg_transfer_id = rid, cfg_flow = WorkerToParent, cfg_options = opts\<rparr> Consumer = Ok (inbound dup, worker_to_parent h)
    \<and> payload_contract h = p"
  using assms by (auto simp: duplex_directions_def and_then_Ok_conv ok_or_def split: option.splits)

definition all_ready :: "bool \<Rightarrow> Os \<times> Os \<times> Os \<times> Os \<Rightarrow> bool" where
  "all_ready lock os \<longleftrightarrow> (case os of (a, b, c, d) \<Rightarrow> os_ready lock a \<and> os_ready lock b \<and> os_ready lock c \<and> os_ready lock d)"

text \<open>C20. What one process creates, its peer can attach to: if the system maps the four created regions for the peer, the peer that expects the same payload contract reads the setup frame, accepts, and joins the same shape, ids and shared arenas in the opposite roles, after which both roles of both directions are taken; the creator's side of the handshake succeeds. A peer that expects any other contract refuses, and the creator gets an error.\<close>

theorem duplex_agrees:
  assumes c: "duplex_directions os s tid opts p = Ok (dup, h)" and p: "payload_validate p = Ok ()"
    and pod: "pay_kind p = Pod \<longrightarrow> total_bytes s mod element_size p = 0"
    and mapped: "opened (data_region (parent_to_worker h)) = Ok (dir_data (outbound dup))"
      "opened (release_region (parent_to_worker h)) = Ok (dir_releases (outbound dup))"
      "opened (data_region (worker_to_parent h)) = Ok (dir_data (inbound dup))"
      "opened (release_region (worker_to_parent h)) = Ok (dir_releases (inbound dup))"
    and peer: "options_validate opts' = Ok ()" "all_ready (lock_memory opts') os'"
  shows "\<exists>bytes. write_frame h = Ok bytes
    \<and> (\<exists>dup'. attach_peer os' opened opts' p bytes = (Ok dup', [ACCEPTED])
        \<and> dir_data (inbound dup') = (dir_data (outbound dup))\<lparr>role_claims := 3\<rparr> \<and> dir_releases (inbound dup') = dir_releases (outbound dup)
        \<and> dir_data (outbound dup') = (dir_data (inbound dup))\<lparr>role_claims := 3\<rparr> \<and> dir_releases (outbound dup') = dir_releases (inbound dup)
        \<and> dir_shape (inbound dup') = s \<and> dir_shape (outbound dup') = s
        \<and> dir_transfer_id (inbound dup') = tid \<and> dir_transfer_id (outbound dup') = tid + 1)
    \<and> duplex_create os s tid opts p [ACCEPTED] = Ok dup
    \<and> (\<forall>q. q \<noteq> p \<longrightarrow> (\<exists>e. attach_peer os' opened opts' q bytes = (Err e, [REJECTED])))
    \<and> duplex_create os s tid opts p [REJECTED] = Err (invalid_data ''peer rejected IPC setup'')"
proof -
  obtain o1 o2 o3 o4 where os: "os = (o1, o2, o3, o4)" by (metis prod_cases4)
  obtain q1 q2 q3 q4 where os': "os' = (q1, q2, q3, q4)" by (metis prod_cases4)
  obtain rid where rid: "checked_add tid 1 = Some rid"
    and d1: "direction_create o1 o2 \<lparr>cfg_shape = s, cfg_transfer_id = tid, cfg_flow = ParentToWorker, cfg_options = opts\<rparr> Producer = Ok (outbound dup, parent_to_worker h)"
    and d2: "direction_create o3 o4 \<lparr>cfg_shape = s, cfg_transfer_id = rid, cfg_flow = WorkerToParent, cfg_options = opts\<rparr> Consumer = Ok (inbound dup, worker_to_parent h)"
    and pc: "payload_contract h = p"
    using duplex_directions_Ok [OF c [unfolded os]] by blast
  have f1: "direction_ok (parent_to_worker h)" "handle_shape (parent_to_worker h) = s" "handle_transfer_id (parent_to_worker h) = tid"
    "handle_flow (parent_to_worker h) = ParentToWorker" "dir_shape (outbound dup) = s" "dir_transfer_id (outbound dup) = tid"
    using direction_create_Ok [OF d1] by auto
  have f2: "direction_ok (worker_to_parent h)" "handle_shape (worker_to_parent h) = s" "handle_transfer_id (worker_to_parent h) = rid"
    "handle_flow (worker_to_parent h) = WorkerToParent" "dir_shape (inbound dup) = s" "dir_transfer_id (inbound dup) = rid"
    using direction_create_Ok [OF d2] by auto
  have ok: "duplex_ok h" using f1(1) f2(1) p pc by (simp add: duplex_ok_def)
  then obtain bytes where b: "write_frame h = Ok bytes" using write_frame_ok by blast
  have rf: "read_frame bytes = Ok (h, [])" using ok b by (simp add: read_frame_Ok)
  have chk: "attach_check p h = Ok ()" "q \<noteq> p \<Longrightarrow> \<exists>e. attach_check q h = Err e" for q
    using p pc pod f1 f2 rid by (auto simp: attach_check_def)
  have r: "os_ready (lock_memory opts') q1" "os_ready (lock_memory opts') q2" "os_ready (lock_memory opts') q3" "os_ready (lock_memory opts') q4"
    using peer(2) os' by (simp_all add: all_ready_def)
  have o1: "direction_open q1 q2 opened (parent_to_worker h) opts' Consumer = Ok \<lparr>dir_data = (dir_data (outbound dup))\<lparr>role_claims := 3\<rparr>, dir_releases = dir_releases (outbound dup),
      dir_shape = dir_shape (outbound dup), dir_transfer_id = dir_transfer_id (outbound dup), dir_flow = dir_flow (outbound dup), dir_options = opts'\<rparr>"
    by (rule direction_open_created [OF d1 _ mapped(1,2) peer(1) r(1,2)]) simp
  have o2: "direction_open q3 q4 opened (worker_to_parent h) opts' Producer = Ok \<lparr>dir_data = (dir_data (inbound dup))\<lparr>role_claims := 3\<rparr>, dir_releases = dir_releases (inbound dup),
      dir_shape = dir_shape (inbound dup), dir_transfer_id = dir_transfer_id (inbound dup), dir_flow = dir_flow (inbound dup), dir_options = opts'\<rparr>"
    by (rule direction_open_created [OF d2 _ mapped(3,4) peer(1) r(3,4)]) simp
  have "rid = tid + 1" using rid by (auto simp: checked_add_def split: if_splits)
  moreover have "\<exists>e. attach_peer os' opened opts' q bytes = (Err e, [REJECTED])" if "q \<noteq> p" for q
    using chk(2) [OF that] rf by (auto simp: attach_peer_def os')
  moreover have "duplex_create os s tid opts p [ACCEPTED] = Ok dup"
    "duplex_create os s tid opts p [REJECTED] = Err (invalid_data ''peer rejected IPC setup'')"
    using c b by (simp_all add: duplex_create_def setup_send_def ACCEPTED_def REJECTED_def)
  ultimately show ?thesis using b rf chk(1) o1 o2 f1 f2 by (simp add: attach_peer_def os')
qed

abbreviation ready_os :: "u8 \<Rightarrow> Os" where
  "ready_os b \<equiv> \<lparr>os_token = Ok [b], os_mapped = Ok (), os_data_event = Ok (), os_space_event = Ok (), os_lock = Ok ()\<rparr>"

lemmas setup_eval = duplex_directions_def direction_create_def config_validate_def options_validate_def descriptor_capacity_def
  checked_mul_def checked_add_def checked_next_power_of_two_def ok_or_def next_pow2.simps arena_create_def arena_layout_def is_power_of_two_def
  U32_MAX_def FRAME_LEN_def HEADER_LEN_def align_up_def CACHE_LINE_def filter_option_def ISIZE_MAX_def region_create_def region_from_parts_def
  platform_region_name_def hex_def DIGITS_def claim_role_now_def role_claim_def ROLE_CLAIM_MASK_def direction_from_parts_def

theorem duplex_agrees_witness:
  "\<exists>dup h bytes opened dup'.
     duplex_directions (ready_os 1, ready_os 2, ready_os 3, ready_os 4) \<lparr>total_bytes = 10, chunk_bytes = 4, stream_slots = 1\<rparr> 7
       \<lparr>lock_memory = False, wait_timeout = 30\<rparr> payload_bytes = Ok (dup, h)
     \<and> write_frame h = Ok bytes
     \<and> attach_peer (ready_os 1, ready_os 2, ready_os 3, ready_os 4) opened \<lparr>lock_memory = False, wait_timeout = 30\<rparr> payload_bytes bytes = (Ok dup', [ACCEPTED])"
proof -
  let ?os = "(ready_os 1, ready_os 2, ready_os 3, ready_os 4)" and ?s = "\<lparr>total_bytes = 10, chunk_bytes = 4, stream_slots = 1\<rparr>"
    and ?o = "\<lparr>lock_memory = False, wait_timeout = 30\<rparr>"
  have v: "shape_validate ?s = Ok ()" by (simp add: shape_validate_Ok chunks_def div_ceil_def)
  have "\<exists>dup h. duplex_directions ?os ?s 7 ?o payload_bytes = Ok (dup, h)
    \<and> map region_name [data_region (parent_to_worker h), release_region (parent_to_worker h), data_region (worker_to_parent h), release_region (worker_to_parent h)]
      = map (\<lambda>d. [0x2F, 0x70, 0x2D, 0x30, d]) [0x31, 0x32, 0x33, 0x34]"
    by (simp add: setup_eval v Let_def)
  then obtain dup h where c: "duplex_directions ?os ?s 7 ?o payload_bytes = Ok (dup, h)"
    and names: "region_name (data_region (parent_to_worker h)) = [0x2F, 0x70, 0x2D, 0x30, 0x31]"
      "region_name (release_region (parent_to_worker h)) = [0x2F, 0x70, 0x2D, 0x30, 0x32]"
      "region_name (data_region (worker_to_parent h)) = [0x2F, 0x70, 0x2D, 0x30, 0x33]"
      "region_name (release_region (worker_to_parent h)) = [0x2F, 0x70, 0x2D, 0x30, 0x34]" by auto
  define opened :: "RegionHandle \<Rightarrow> (Region, IoError) Result" where "opened r = Ok (if region_name r = [0x2F, 0x70, 0x2D, 0x30, 0x31] then dir_data (outbound dup)
    else if region_name r = [0x2F, 0x70, 0x2D, 0x30, 0x32] then dir_releases (outbound dup)
    else if region_name r = [0x2F, 0x70, 0x2D, 0x30, 0x33] then dir_data (inbound dup) else dir_releases (inbound dup))" for r
  have "payload_validate payload_bytes = Ok ()" "options_validate ?o = Ok ()" "all_ready (lock_memory ?o) ?os"
    by (simp_all add: payload_validate_def payload_bytes_def options_validate_def all_ready_def os_ready_def)
  moreover have "pay_kind payload_bytes \<noteq> Pod" by (simp add: payload_bytes_def)
  ultimately show ?thesis
    using c duplex_agrees [OF c, of opened ?o ?os] names by (simp add: opened_def) blast
qed

end
