(* ===== verification/Open.thy ===== *)
theory Open
  imports Declaration Mpsc_System Mpmc_Dynamic_System Brokered Broadcast Ipc_Setup
begin

text \<open>
  Opening a declaration (\<open>src/src/open.rs\<close>): the validation of its shape, the automatic capacities and the construction of the endpoints of each
  local topology out of the models of those topologies. The size of the payload type is a parameter, as is the backend that the storage marker selects and
  the kernel that the wait marker selects. \<open>None\<close> is a panic of a constructor.
\<close>

section \<open>Errors and validation\<close>

datatype OpenError = Invalid string | SpawnFailed | OpenIo IoError

definition validate_common :: "usize \<Rightarrow> usize \<Rightarrow> (unit, OpenError) Result" where
  "validate_common capacity batch =
     (if capacity = 0 then Err (Invalid ''channel capacity must be non-zero'')
      else if checked_next_power_of_two capacity = None then Err (Invalid ''channel capacity overflows its ring shape'')
      else if batch = 0 then Err (Invalid ''channel batch must be non-zero'')
      else Ok ())"

section \<open>Automatic capacities\<close>

type_synonym u128 = "128 word"

definition DEFAULT_CAPACITY :: usize where
  "DEFAULT_CAPACITY = 1024"

definition RING_RESIDENT_TARGET_BYTES :: u128 where
  "RING_RESIDENT_TARGET_BYTES = 1024 * 1024"

definition capacity_or_default :: "usize option \<Rightarrow> usize" where
  "capacity_or_default configured = (case configured of Some c \<Rightarrow> c | None \<Rightarrow> DEFAULT_CAPACITY)"

definition quantized_capacity :: "u128 \<Rightarrow> usize" where
  "quantized_capacity s = (if s \<le> 127 then 64 else if s \<le> 511 then 256 else if s \<le> 2047 then 1024 else 4096)"

definition automatic_ring_capacity :: "usize \<Rightarrow> usize \<Rightarrow> usize" where
  "automatic_ring_capacity size_of n_lanes =
     quantized_capacity (RING_RESIDENT_TARGET_BYTES div ucast (max size_of 1) div ucast (max n_lanes 1))"

definition native_capacity :: "usize \<Rightarrow> bool \<Rightarrow> usize option \<Rightarrow> usize \<Rightarrow> usize \<Rightarrow> usize" where
  "native_capacity size_of bounded configured producers consumers =
     (case configured of Some c \<Rightarrow> c
      | None \<Rightarrow> if bounded then automatic_ring_capacity size_of (max producers consumers) else DEFAULT_CAPACITY)"

definition div_ceil :: "usize \<Rightarrow> usize \<Rightarrow> usize" where
  "div_ceil a b = (if a mod b > 0 then a div b + 1 else a div b)"

definition leased_capacity :: "usize \<Rightarrow> usize option \<Rightarrow> usize \<Rightarrow> usize \<Rightarrow> usize \<Rightarrow> usize" where
  "leased_capacity size_of configured producers consumers batch =
     (case configured of Some c \<Rightarrow> c
      | None \<Rightarrow>
          let payload_bytes = ucast (max size_of 1) :: u128;
              slots = RING_RESIDENT_TARGET_BYTES * ucast (max consumers 1) div (payload_bytes * ucast (max producers 1));
              maximum = (if payload_bytes \<le> 64 then 4096 else 1024);
              capacity = min (quantized_capacity slots) maximum
          in if batch = 0 \<or> capacity mod batch = 0 then capacity
             else if capacity < batch then batch
             else div_ceil capacity batch * batch)"

section \<open>Endpoints\<close>

datatype ('a, 'n, 'sp, 'q, 'f) Endpoints =
    FixedEnds "nat list" "('a, 'n, 'sp, unit) Mpsc" "'a MReceiver"
  | PoolEnds "('a, 'n, 'sp, PoolSlots) Mpsc" "'a MReceiver"
  | DynamicEnds usize "('a, 'n, 'sp) Dynamic" "'a MReceiver"
  | ClaimEnds "'q BShared" "'a BConsumer list"
  | LaneEnds "'q LShared" "LProducer list" "'a LConsumer list"
  | LockedEnds usize "('q, LockedRings) DShared" "('a, LockedCursor) DConsumer list"
  | ArrayEnds usize "('q, ArrayRings) DShared" "('a, Cursor) DConsumer list"
  | BrokeredEnds usize "('q, 'f Routing) Broker list"
  | BroadcastEnds "'a Bcast" Publisher Reader

type_synonym ('a, 'n, 'sp, 'q, 'f) opened = "(('a, 'n, 'sp, 'q, 'f) Endpoints, OpenError) Result option"

text \<open>\<open>?\<close> on a validation, before the rest of an \<open>open\<close>.\<close>

definition after :: "(unit, OpenError) Result \<Rightarrow> ('v, OpenError) Result option \<Rightarrow> ('v, OpenError) Result option" where
  "after r k = (case r of Ok _ \<Rightarrow> k | Err e \<Rightarrow> Some (Err e))"

definition refuse_if :: "bool \<Rightarrow> string \<Rightarrow> (unit, OpenError) Result" where
  "refuse_if b message = (if b then Err (Invalid message) else Ok ())"

definition open_fixed :: "('n, 'sp, 'w) Kernel \<Rightarrow> usize \<Rightarrow> Shape \<Rightarrow> ('a, 'n, 'sp, 'q, 'f) opened" where
  "open_fixed K size_of s =
     (let capacity = native_capacity size_of True (sh_capacity s) (sh_producers s) 1
      in after (validate_common capacity (sh_batch s))
           (do { (is, m, rx) \<leftarrow> fixed_open K (sh_producers s) capacity;
                 Some (Ok (FixedEnds is m (mp_set_batch (sh_batch s) rx))) }))"

definition open_pool :: "('n, 'sp, 'w) Kernel \<Rightarrow> usize \<Rightarrow> Shape \<Rightarrow> ('a, 'n, 'sp, 'q, 'f) opened" where
  "open_pool K size_of s =
     after (refuse_if (\<not> (1 \<le> sh_max_producers s \<and> sh_max_producers s \<le> 64)) ''MPSC pool max_producers must be in 1..=64'')
       (let capacity = native_capacity size_of True (sh_capacity s) (sh_max_producers s) 1
        in after (validate_common capacity (sh_batch s))
             (do { (m, rx) \<leftarrow> pool_open K (sh_max_producers s) capacity;
                   Some (Ok (PoolEnds m (mp_set_batch (sh_batch s) rx))) }))"

definition dynamic_mpsc_capacity :: "usize \<Rightarrow> Shape \<Rightarrow> usize" where
  "dynamic_mpsc_capacity size_of s = native_capacity size_of True (sh_capacity s) (sh_producers s) 1"

definition new_inbox :: "Membership \<Rightarrow> Inbox" where
  "new_inbox m = (case m of Locked \<Rightarrow> new_locked_inbox | LockFree \<Rightarrow> new_lock_free_inbox)"

definition finish_dynamic :: "('n, 'sp, 'w) Kernel \<Rightarrow> usize \<Rightarrow> Shape \<Rightarrow> Inbox \<Rightarrow> Reclaim \<Rightarrow> ('a, 'n, 'sp, 'q, 'f) opened" where
  "finish_dynamic K size_of s inbox rc =
     (let (m, rx) = dynamic_open K inbox rc
      in Some (Ok (DynamicEnds (dynamic_mpsc_capacity size_of s) m (mp_set_batch (sh_batch s) rx))))"

definition open_dynamic :: "('n, 'sp, 'w) Kernel \<Rightarrow> usize \<Rightarrow> Membership \<Rightarrow> Shape \<Rightarrow> ('a, 'n, 'sp, 'q, 'f) opened" where
  "open_dynamic K size_of mem s =
     after (validate_common (dynamic_mpsc_capacity size_of s) (sh_batch s)) (finish_dynamic K size_of s (new_inbox mem) DropRings)"

definition open_dynamic_pooled :: "('n, 'sp, 'w) Kernel \<Rightarrow> usize \<Rightarrow> Membership \<Rightarrow> Shape \<Rightarrow> ('a, 'n, 'sp, 'q, 'f) opened" where
  "open_dynamic_pooled K size_of mem s =
     after (validate_common (dynamic_mpsc_capacity size_of s) (sh_batch s))
       (case sh_recycling s of
          None \<Rightarrow> Some (Err (Invalid ''MPSC dynamic recycling requires an explicit pool size''))
        | Some max_pooled \<Rightarrow>
            after (refuse_if (max_pooled = 0) ''MPSC dynamic recycling capacity must be non-zero'')
              (finish_dynamic K size_of s (new_inbox mem) (new_ring_pool max_pooled)))"

text \<open>The consumers of a declaration: clones of the first one, then the first one.\<close>

fun clones :: "('sh \<Rightarrow> 'c \<Rightarrow> 'sh \<times> 'c) \<Rightarrow> nat \<Rightarrow> 'sh \<Rightarrow> 'c \<Rightarrow> 'sh \<times> 'c list" where
  "clones cl 0 sh c = (sh, [c])"
| "clones cl (Suc n) sh c = (let (sh, c') = cl sh c; (sh, cs) = clones cl n sh c in (sh, c' # cs))"

definition open_claim :: "('q, 'a, 's) Backend \<Rightarrow> usize \<Rightarrow> Shape \<Rightarrow> ('a, 'n, 'sp, 'q, 'f) opened" where
  "open_claim B size_of s =
     (let capacity = native_capacity size_of (BOUNDED_CAPACITY B) (sh_capacity s) (sh_producers s) (sh_consumers s)
      in after (validate_common capacity (sh_batch s))
        (after (refuse_if (sh_producers s = 0) ''brokerless MPMC producers must be non-zero'')
        (after (refuse_if (sh_consumers s = 0) ''brokerless MPMC consumers must be non-zero'')
           (do { (sh, c) \<leftarrow> brokerless_open B (sh_producers s) capacity;
                 let (sh, cs) = clones clone_consumer (unat (sh_consumers s) - 1) sh (set_batch (sh_batch s) c);
                 Some (Ok (ClaimEnds sh cs)) }))))"

definition open_lanes :: "('q, 'a, 's) Backend \<Rightarrow> usize \<Rightarrow> Shape \<Rightarrow> ('a, 'n, 'sp, 'q, 'f) opened" where
  "open_lanes B size_of s =
     (let capacity = native_capacity size_of (BOUNDED_CAPACITY B) (sh_capacity s) (sh_producers s) (sh_consumers s)
      in after (validate_common capacity (sh_batch s))
        (after (refuse_if (sh_producers s = 0) ''lane-grid MPMC producers must be non-zero'')
        (after (refuse_if (sh_consumers s = 0) ''lane-grid MPMC consumers must be non-zero'')
           (let lane_capacity = div_ceil capacity (sh_consumers s)
            in after (validate_common lane_capacity (sh_batch s))
                 (do { (sh, ps, cs) \<leftarrow> lanes_open B (sh_producers s) (sh_consumers s) lane_capacity;
                       Some (Ok (LaneEnds sh ps (map (lc_set_batch (sh_batch s)) cs))) })))))"

definition open_mpmc_locked :: "('q, 'a, 's) Backend \<Rightarrow> usize \<Rightarrow> Shape \<Rightarrow> ('a, 'n, 'sp, 'q, 'f) opened" where
  "open_mpmc_locked B size_of s =
     after (refuse_if (sh_producers s = 0) ''dynamic MPMC expected_producers must be non-zero'')
     (after (refuse_if (sh_consumers s = 0) ''dynamic MPMC consumers must be non-zero'')
       (let capacity = native_capacity size_of (BOUNDED_CAPACITY B) (sh_capacity s) (sh_producers s) (sh_consumers s)
        in after (validate_common capacity (sh_batch s))
             (let (cp, d, c) = open_locked capacity;
                  (d, cs) = clones (dyn_clone_consumer locked_rings) (unat (sh_consumers s) - 1) d (dyn_set_batch (sh_batch s) c)
              in Some (Ok (LockedEnds cp d cs)))))"

definition open_mpmc_array :: "('q, 'a, 's) Backend \<Rightarrow> usize \<Rightarrow> Shape \<Rightarrow> ('a, 'n, 'sp, 'q, 'f) opened" where
  "open_mpmc_array B size_of s =
     after (refuse_if (sh_array_producers s = 0) ''array MPMC max_producers must be non-zero'')
     (after (refuse_if (sh_consumers s = 0) ''dynamic MPMC consumers must be non-zero'')
       (let capacity = native_capacity size_of (BOUNDED_CAPACITY B) (sh_capacity s) (sh_array_producers s) (sh_consumers s)
        in after (validate_common capacity (sh_batch s))
             (let (cp, d, c) = open_array capacity (sh_array_producers s);
                  (d, cs) = clones (dyn_clone_consumer array_rings) (unat (sh_consumers s) - 1) d (dyn_set_batch (sh_batch s) c)
              in Some (Ok (ArrayEnds cp d cs)))))"

definition open_broadcast :: "Shape \<Rightarrow> ('a, 'n, 'sp, 'q, 'f) opened" where
  "open_broadcast s =
     (let capacity = capacity_or_default (sh_capacity s)
      in after (refuse_if (capacity < 2) ''broadcast capacity must be at least two'')
        (after (validate_common capacity (sh_batch s))
        (after (refuse_if (\<not> (1 \<le> sh_max_readers s \<and> sh_max_readers s \<le> 64)) ''broadcast max_readers must be in 1..=64'')
          (do { (sh, p, r) \<leftarrow> bcast_open capacity (sh_max_readers s); Some (Ok (BroadcastEnds sh p r)) }))))"

definition validate_brokered :: "usize \<Rightarrow> usize \<Rightarrow> usize \<Rightarrow> usize \<Rightarrow> usize \<Rightarrow> (unit, OpenError) Result" where
  "validate_brokered producers consumers brokers capacity batch =
     (case validate_common capacity batch of Err e \<Rightarrow> Err e
      | Ok _ \<Rightarrow>
          if producers = 0 then Err (Invalid ''brokered MPMC producers must be non-zero'')
          else if consumers = 0 then Err (Invalid ''brokered MPMC consumers must be non-zero'')
          else if brokers = 0 then Err (Invalid ''brokered MPMC brokers must be non-zero'')
          else if brokers > producers then Err (Invalid ''brokered MPMC brokers cannot exceed producers'')
          else Ok ())"

fun MAX_CONSUMERS :: "'f Routing \<Rightarrow> usize option" where
  "MAX_CONSUMERS (RoundRobin _) = None"
| "MAX_CONSUMERS (Route _) = None"
| "MAX_CONSUMERS (PubSub _ _) = Some 64"

definition validate_routing :: "'f Routing \<Rightarrow> usize \<Rightarrow> (unit, OpenError) Result" where
  "validate_routing r consumers =
     refuse_if (case MAX_CONSUMERS r of None \<Rightarrow> False | Some limit \<Rightarrow> consumers > limit) ''brokered pub/sub supports at most 64 consumers''"

fun prepare_routing :: "usize \<Rightarrow> 'f Routing \<Rightarrow> 'f Routing" where
  "prepare_routing n (PubSub f _) = PubSub f (prepare n)"
| "prepare_routing n r = r"

definition set_broker_batch :: "usize \<Rightarrow> ('q, 'p) Broker \<Rightarrow> ('q, 'p) Broker" where
  "set_broker_batch b r = r\<lparr>broker_batch := broker_set_batch b\<rparr>"

text \<open>\<open>spawn i\<close> says whether the system starts the thread of broker \<open>i\<close>; the first refusal ends the opening.\<close>

definition finish_spawned_open :: "(nat \<Rightarrow> bool) \<Rightarrow> usize \<Rightarrow> usize \<times> ('q, 'f Routing) Broker list \<Rightarrow> ('a, 'n, 'sp, 'q, 'f) opened" where
  "finish_spawned_open spawn batch parts =
     (let (live, bs) = parts; bs = map (set_broker_batch batch) bs
      in if list_all spawn [0..<length bs] then Some (Ok (BrokeredEnds live bs)) else Some (Err SpawnFailed))"

definition open_brokered :: "('q, 'a, 's) Backend \<Rightarrow> (nat \<Rightarrow> bool) \<Rightarrow> Run \<Rightarrow> 'f Routing \<Rightarrow> Shape \<Rightarrow> ('a, 'n, 'sp, 'q, 'f) opened" where
  "open_brokered B spawn run r s =
     (let capacity = capacity_or_default (sh_capacity s)
      in after (validate_brokered (sh_producers s) (sh_consumers s) (sh_brokers s) capacity (sh_batch s))
        (after (validate_routing r (sh_consumers s))
          (do { (live, bs) \<leftarrow> brokered_open B prepare_routing (sh_producers s) (sh_consumers s) (sh_brokers s) capacity r;
                case run of Spawned \<Rightarrow> finish_spawned_open spawn (sh_batch s) (live, bs)
                | Manual \<Rightarrow> Some (Ok (BrokeredEnds live (map (set_broker_batch (sh_batch s)) bs))) })))"

text \<open>The \<open>open\<close> of the local, native declarations.\<close>

definition open_channel ::
  "('n, 'sp, 'w) Kernel \<Rightarrow> ('q, 'a, 's) Backend \<Rightarrow> usize \<Rightarrow> (nat \<Rightarrow> bool) \<Rightarrow> 'f Channel \<Rightarrow> ('a, 'n, 'sp, 'q, 'f) opened" where
  "open_channel K B size_of spawn d =
     (case ch_topology d of
        MpscFixed \<Rightarrow> open_fixed K size_of (ch_shape d)
      | MpscPool \<Rightarrow> open_pool K size_of (ch_shape d)
      | MpscDynamic m DropPolicy \<Rightarrow> open_dynamic K size_of m (ch_shape d)
      | MpscDynamic m Pooled \<Rightarrow> open_dynamic_pooled K size_of m (ch_shape d)
      | MpmcFixed Claim \<Rightarrow> open_claim B size_of (ch_shape d)
      | MpmcFixed Lanes \<Rightarrow> open_lanes B size_of (ch_shape d)
      | MpmcDynamicLocked \<Rightarrow> open_mpmc_locked B size_of (ch_shape d)
      | MpmcDynamicArray \<Rightarrow> open_mpmc_array B size_of (ch_shape d)
      | MpmcBrokered run \<Rightarrow> open_brokered B spawn run (ch_routing d) (ch_shape d)
      | BroadcastTo \<Rightarrow> open_broadcast (ch_shape d)
      | ProcessDuplex \<Rightarrow> None)"

section \<open>Process declarations\<close>

text \<open>The creating and the attaching process validate their declarations before they meet.\<close>

definition process_options :: "Shape \<Rightarrow> (EndpointOptions, OpenError) Result" where
  "process_options s =
     (if sh_timeout s = 0 then Err (Invalid ''IPC timeout must be non-zero'')
      else Ok \<lparr>lock_memory = sh_lock_memory s, wait_timeout = sh_timeout s\<rparr>)"

definition process_shape :: "Shape \<Rightarrow> (StreamShape \<times> EndpointOptions, OpenError) Result" where
  "process_shape s =
     (if sh_chunk_bytes s = 0 then Err (Invalid ''IPC chunk_bytes must be non-zero'')
      else if sh_slots s = 0 then Err (Invalid ''IPC slots must be non-zero'')
      else if sh_transfer_id s = 0 \<or> sh_transfer_id s = - 1 then Err (Invalid ''IPC duplex transfer_id must leave two non-zero ids'')
      else if sh_timeout s = 0 then Err (Invalid ''IPC timeout must be non-zero'')
      else Ok (\<lparr>total_bytes = sh_total_bytes s, chunk_bytes = sh_chunk_bytes s, stream_slots = sh_slots s\<rparr>,
               \<lparr>lock_memory = sh_lock_memory s, wait_timeout = sh_timeout s\<rparr>))"

section \<open>The automatic capacities\<close>

lemma quantized_cases: "quantized_capacity s \<in> {64, 256, 1024, 4096}"
  by (simp add: quantized_capacity_def)

text \<open>Between the clamps the chosen plateau is within a factor of two of the number of slots that fit the target.\<close>

lemma quantized_within_two:
  assumes "32 \<le> unat s" "unat s < 8192"
  shows "unat s < 2 * unat (quantized_capacity s)" "unat (quantized_capacity s) \<le> 2 * unat s"
  using assms by (auto simp: quantized_capacity_def word_le_nat_alt split: if_splits)

lemma native_capacity_auto: "native_capacity size_of b None p c \<in> {64, 256, 1024, 4096}"
  using quantized_cases by (auto simp: native_capacity_def automatic_ring_capacity_def DEFAULT_CAPACITY_def)

section \<open>Which shapes open\<close>

text \<open>
  The shapes that a topology accepts. An automatic capacity is always accepted, so the condition only speaks of a configured one.
\<close>

definition topology_ok :: "Topology \<Rightarrow> 'f Routing \<Rightarrow> Shape \<Rightarrow> bool" where
  "topology_ok t r s \<longleftrightarrow>
     (case t of
        MpscPool \<Rightarrow> 1 \<le> sh_max_producers s \<and> sh_max_producers s \<le> 64
      | MpscDynamic _ Pooled \<Rightarrow> sh_recycling s \<notin> {None, Some 0}
      | MpmcFixed _ \<Rightarrow> sh_producers s \<noteq> 0 \<and> sh_consumers s \<noteq> 0
      | MpmcDynamicLocked \<Rightarrow> sh_producers s \<noteq> 0 \<and> sh_consumers s \<noteq> 0
      | MpmcDynamicArray \<Rightarrow> sh_array_producers s \<noteq> 0 \<and> sh_consumers s \<noteq> 0
      | MpmcBrokered _ \<Rightarrow> sh_producers s \<noteq> 0 \<and> sh_consumers s \<noteq> 0 \<and> sh_brokers s \<noteq> 0 \<and> sh_brokers s \<le> sh_producers s
          \<and> ((\<exists>f k. r = PubSub f k) \<longrightarrow> sh_consumers s \<le> 64)
      | BroadcastTo \<Rightarrow> sh_capacity s \<noteq> Some 1 \<and> 1 \<le> sh_max_readers s \<and> sh_max_readers s \<le> 64
      | _ \<Rightarrow> True)"

definition shape_ok :: "Topology \<Rightarrow> 'f Routing \<Rightarrow> Shape \<Rightarrow> bool" where
  "shape_ok t r s \<longleftrightarrow> sh_batch s \<noteq> 0 \<and> (\<forall>c. sh_capacity s = Some c \<longrightarrow> c \<noteq> 0 \<and> unat c \<le> 2 ^ 63) \<and> topology_ok t r s"

text \<open>The endpoints that a topology promises for a shape: as many as declared, with the declared batch.\<close>

definition receiver_ok :: "Shape \<Rightarrow> nat list \<Rightarrow> 'a MReceiver \<Rightarrow> bool" where
  "receiver_ok s is r \<longleftrightarrow> r_shards r = is \<and> r_batch r = sh_batch s \<and> r_staging r = []"

definition ends_ok :: "Shape \<Rightarrow> Topology \<Rightarrow> ('a, 'n, 'sp, 'q, 'f) Endpoints \<Rightarrow> bool" where
  "ends_ok s t e \<longleftrightarrow>
     (case e of
        FixedEnds is m r \<Rightarrow> t = MpscFixed \<and> length is = unat (sh_producers s) \<and> m_live m = sh_producers s \<and> receiver_ok s is r
      | PoolEnds m r \<Rightarrow> t = MpscPool \<and> m_live m = 1 \<and> receiver_ok s [0..<unat (sh_max_producers s)] r
      | DynamicEnds cp m r \<Rightarrow> (\<exists>mem p. t = MpscDynamic mem p) \<and> cp \<noteq> 0 \<and> m_live m = 1 \<and> receiver_ok s [] r
      | ClaimEnds sh cs \<Rightarrow> t = MpmcFixed Claim \<and> length (slots sh) = unat (sh_producers s) \<and> live_producers sh = sh_producers s
          \<and> length cs = unat (sh_consumers s) \<and> live_consumers sh = sh_consumers s \<and> (\<forall>c\<in>set cs. cbatch c = sh_batch s)
      | LaneEnds sh ps cs \<Rightarrow> t = MpmcFixed Lanes \<and> length ps = unat (sh_producers s) \<and> length cs = unat (sh_consumers s)
          \<and> length (lgrid sh) = unat (sh_producers s) * unat (sh_consumers s) \<and> (\<forall>c\<in>set cs. lc_batch c = sh_batch s)
      | LockedEnds cp d cs \<Rightarrow> t = MpmcDynamicLocked \<and> length cs = unat (sh_consumers s) \<and> live_consumers (dsh d) = sh_consumers s
          \<and> live_producers (dsh d) = 1 \<and> (\<forall>c\<in>set cs. dbatch c = sh_batch s)
      | ArrayEnds cp d cs \<Rightarrow> t = MpmcDynamicArray \<and> length cs = unat (sh_consumers s) \<and> live_consumers (dsh d) = sh_consumers s
          \<and> live_producers (dsh d) = 1 \<and> length (ar_cells (dmem d)) = unat (sh_array_producers s) \<and> (\<forall>c\<in>set cs. dbatch c = sh_batch s)
      | BrokeredEnds n bs \<Rightarrow> (\<exists>run. t = MpmcBrokered run) \<and> n = sh_producers s \<and> length bs = unat (sh_brokers s)
          \<and> sum_list (map (\<lambda>b. length (producer_rxs b)) bs) = unat (sh_producers s)
          \<and> (\<forall>b\<in>set bs. length (consumer_txs b) = unat (sh_consumers s) \<and> broker_batch b = sh_batch s)
      | BroadcastEnds sh p r \<Rightarrow> t = BroadcastTo \<and> length (cursors sh) = unat (sh_max_readers s) \<and> 2 \<le> unat (bcap sh)
          \<and> length (bbuf sh) = unat (bcap sh))"

lemma validate_common_cases:
  "validate_common c b = (if c \<noteq> 0 \<and> unat c \<le> 2 ^ 63 \<and> b \<noteq> 0 then Ok () else validate_common c b)"
  "\<not> (c \<noteq> 0 \<and> unat c \<le> 2 ^ 63 \<and> b \<noteq> 0) \<Longrightarrow> \<exists>m. validate_common c b = Err (Invalid m)"
  by (auto simp: validate_common_def checked_next_power_of_two_def)

text \<open>An opening returns endpoints that match, or it refuses the shape.\<close>

definition opens_iff :: "bool \<Rightarrow> Shape \<Rightarrow> Topology \<Rightarrow> ('a, 'n, 'sp, 'q, 'f) opened \<Rightarrow> bool" where
  "opens_iff ok s t r \<longleftrightarrow> (if ok then \<exists>e. r = Some (Ok e) \<and> ends_ok s t e else \<exists>m. r = Some (Err (Invalid m)))"

lemma opens_after:
  assumes "\<not> good \<Longrightarrow> \<exists>m. v = Err (Invalid m)" "good \<Longrightarrow> v = Ok () \<and> opens_iff ok s t k"
  shows "opens_iff (good \<and> ok) s t (after v k)"
  using assms by (cases good) (auto simp: opens_iff_def after_def)

lemma opens_refuse: "(\<not> b \<Longrightarrow> opens_iff ok s t k) \<Longrightarrow> opens_iff (\<not> b \<and> ok) s t (after (refuse_if b m) k)"
  by (rule opens_after) (auto simp: refuse_if_def)

lemma opens_validate:
  "(c \<noteq> 0 \<Longrightarrow> unat c \<le> 2 ^ 63 \<Longrightarrow> b \<noteq> 0 \<Longrightarrow> opens_iff ok s t k) \<Longrightarrow> opens_iff ((c \<noteq> 0 \<and> unat c \<le> 2 ^ 63 \<and> b \<noteq> 0) \<and> ok) s t (after (validate_common c b) k)"
  by (rule opens_after) (auto simp: validate_common_cases(2), simp add: validate_common_def checked_next_power_of_two_def)

lemma native_capacity_ok:
  "native_capacity size_of b cfg p c \<noteq> 0 \<and> unat (native_capacity size_of b cfg p c) \<le> 2 ^ 63 \<longleftrightarrow> (\<forall>k. cfg = Some k \<longrightarrow> k \<noteq> 0 \<and> unat k \<le> 2 ^ 63)"
proof (cases cfg)
  case None
  then show ?thesis using native_capacity_auto [of size_of b p c] by auto
qed (simp add: native_capacity_def)

lemma max_one:
  assumes "b \<noteq> 0"
  shows "max b 1 = (b :: usize)"
proof -
  have "1 \<le> b" using assms by (simp add: word_le_nat_alt unat_gt_0 Suc_le_eq)
  then show ?thesis by (rule max_absorb1)
qed

lemma receiver_okI: "sh_batch s \<noteq> 0 \<Longrightarrow> receiver_ok s is (mp_set_batch (sh_batch s) (make_receiver is))"
  by (simp add: receiver_ok_def mp_set_batch_def make_receiver_def max_one)

lemma clones_length: "length (snd (clones cl n sh c)) = Suc n"
  by (induction n arbitrary: sh) (simp_all add: case_prod_beta)

lemma clones_all:
  assumes "P c" "\<And>sh. P (snd (cl sh c))"
  shows "\<forall>x\<in>set (snd (clones cl n sh c)). P x"
  using assms by (induction n arbitrary: sh) (simp_all add: case_prod_beta)

lemma clones_shared:
  assumes "\<And>sh. Q sh \<Longrightarrow> Q (fst (cl sh c)) \<and> g (fst (cl sh c)) = g sh + (1 :: usize)" "Q sh"
  shows "Q (fst (clones cl n sh c)) \<and> g (fst (clones cl n sh c)) = g sh + of_nat n"
  using assms(2)
proof (induction n arbitrary: sh)
  case (Suc n)
  obtain sh1 c1 where c1: "cl sh c = (sh1, c1)" by (cases "cl sh c")
  have q1: "Q sh1" "g sh1 = g sh + 1" using assms(1) [OF Suc.prems] c1 by simp_all
  then show ?case using Suc.IH [OF q1(1)] c1 by (simp add: case_prod_beta add.assoc)
qed simp

section \<open>Each topology\<close>

lemma open_fixed_iff: "opens_iff (shape_ok MpscFixed r s) s MpscFixed (open_fixed K size_of s :: ('a, 'n, 'sp, 'q, 'f) opened)"
proof -
  let ?c = "native_capacity size_of True (sh_capacity s) (sh_producers s) 1"
  have o: "opens_iff True s MpscFixed (do { (is, m, rx) \<leftarrow> fixed_open K (sh_producers s) ?c; Some (Ok (FixedEnds is m (mp_set_batch (sh_batch s) rx))) } :: ('a, 'n, 'sp, 'q, 'f) opened)"
    if c: "unat ?c \<le> 2 ^ 63" "sh_batch s \<noteq> 0"
  proof -
    obtain m :: "('a, 'n, 'sp, unit) Mpsc" where m: "fixed_spawn K (unat (sh_producers s)) ?c (build_shared K ()) = Some ([0..<unat (sh_producers s)], m)" "m_live m = of_nat (unat (sh_producers s))"
      using fixed_spawn_spec [OF rings_rep_empty c(1), of K "unat (sh_producers s)" K "()"] by (auto simp: build_shared_def)
    then show ?thesis using receiver_okI [OF c(2)] by (simp add: opens_iff_def ends_ok_def fixed_open_def)
  qed
  have "opens_iff ((?c \<noteq> 0 \<and> unat ?c \<le> 2 ^ 63 \<and> sh_batch s \<noteq> 0) \<and> True) s MpscFixed (open_fixed K size_of s :: ('a, 'n, 'sp, 'q, 'f) opened)"
    unfolding open_fixed_def Let_def by (rule opens_validate) (rule o)
  moreover have "(?c \<noteq> 0 \<and> unat ?c \<le> 2 ^ 63 \<and> sh_batch s \<noteq> 0) \<and> True \<longleftrightarrow> shape_ok MpscFixed r s"
    using native_capacity_ok [of size_of True "sh_capacity s" "sh_producers s" 1] by (auto simp: shape_ok_def topology_ok_def)
  ultimately show ?thesis by simp
qed

lemma open_pool_iff: "opens_iff (shape_ok MpscPool r s) s MpscPool (open_pool K size_of s :: ('a, 'n, 'sp, 'q, 'f) opened)"
proof -
  let ?c = "native_capacity size_of True (sh_capacity s) (sh_max_producers s) 1"
  have o: "opens_iff True s MpscPool (do { (m, rx) \<leftarrow> pool_open K (sh_max_producers s) ?c; Some (Ok (PoolEnds m (mp_set_batch (sh_batch s) rx))) } :: ('a, 'n, 'sp, 'q, 'f) opened)"
    if c: "\<not> \<not> (1 \<le> sh_max_producers s \<and> sh_max_producers s \<le> 64)" "unat ?c \<le> 2 ^ 63" "sh_batch s \<noteq> 0"
  proof -
    obtain m :: "('a, 'n, 'sp, PoolSlots) Mpsc" where "pool_open K (sh_max_producers s) ?c = Some (m, make_receiver [0..<unat (sh_max_producers s)])" "m_live m = 1"
      using pool_open_inv [OF c(2), of "sh_max_producers s" K] c(1) by blast
    then show ?thesis using receiver_okI [OF c(3)] by (simp add: opens_iff_def ends_ok_def)
  qed
  have "opens_iff (\<not> \<not> (1 \<le> sh_max_producers s \<and> sh_max_producers s \<le> 64) \<and> (?c \<noteq> 0 \<and> unat ?c \<le> 2 ^ 63 \<and> sh_batch s \<noteq> 0) \<and> True) s MpscPool
      (open_pool K size_of s :: ('a, 'n, 'sp, 'q, 'f) opened)"
    unfolding open_pool_def Let_def by (intro opens_refuse opens_validate o)
  moreover have "\<not> \<not> (1 \<le> sh_max_producers s \<and> sh_max_producers s \<le> 64) \<and> (?c \<noteq> 0 \<and> unat ?c \<le> 2 ^ 63 \<and> sh_batch s \<noteq> 0) \<and> True \<longleftrightarrow> shape_ok MpscPool r s"
    using native_capacity_ok [of size_of True "sh_capacity s" "sh_max_producers s" 1] by (auto simp: shape_ok_def topology_ok_def)
  ultimately show ?thesis by simp
qed

lemma finish_dynamic_iff:
  assumes "dynamic_mpsc_capacity size_of s \<noteq> 0" "sh_batch s \<noteq> 0"
  shows "opens_iff True s (MpscDynamic mem p) (finish_dynamic K size_of s inbox rc :: ('a, 'n, 'sp, 'q, 'f) opened)"
  using assms receiver_okI [OF assms(2)] by (simp add: opens_iff_def ends_ok_def finish_dynamic_def dynamic_open_def shared_inc_def build_shared_def)

lemma open_dynamic_iff:
  "opens_iff (shape_ok (MpscDynamic mem DropPolicy) r s) s (MpscDynamic mem DropPolicy) (open_dynamic K size_of mem s :: ('a, 'n, 'sp, 'q, 'f) opened)"
proof -
  let ?c = "dynamic_mpsc_capacity size_of s"
  have "opens_iff ((?c \<noteq> 0 \<and> unat ?c \<le> 2 ^ 63 \<and> sh_batch s \<noteq> 0) \<and> True) s (MpscDynamic mem DropPolicy) (open_dynamic K size_of mem s :: ('a, 'n, 'sp, 'q, 'f) opened)"
    unfolding open_dynamic_def by (intro opens_validate finish_dynamic_iff)
  moreover have "(?c \<noteq> 0 \<and> unat ?c \<le> 2 ^ 63 \<and> sh_batch s \<noteq> 0) \<and> True \<longleftrightarrow> shape_ok (MpscDynamic mem DropPolicy) r s"
    using native_capacity_ok [of size_of True "sh_capacity s" "sh_producers s" 1] by (auto simp: dynamic_mpsc_capacity_def shape_ok_def topology_ok_def)
  ultimately show ?thesis by simp
qed

lemma open_dynamic_pooled_iff:
  "opens_iff (shape_ok (MpscDynamic mem Pooled) r s) s (MpscDynamic mem Pooled) (open_dynamic_pooled K size_of mem s :: ('a, 'n, 'sp, 'q, 'f) opened)"
proof -
  let ?c = "dynamic_mpsc_capacity size_of s"
  have "opens_iff ((?c \<noteq> 0 \<and> unat ?c \<le> 2 ^ 63 \<and> sh_batch s \<noteq> 0) \<and> sh_recycling s \<notin> {None, Some 0}) s (MpscDynamic mem Pooled)
      (open_dynamic_pooled K size_of mem s :: ('a, 'n, 'sp, 'q, 'f) opened)"
    unfolding open_dynamic_pooled_def
  proof (rule opens_validate, goal_cases)
    case 1
    show ?case
    proof (cases "sh_recycling s")
      case None
      then show ?thesis by (simp add: opens_iff_def)
    next
      case (Some k)
      have "opens_iff (\<not> k = 0 \<and> True) s (MpscDynamic mem Pooled)
          (after (refuse_if (k = 0) msg) (finish_dynamic K size_of s (new_inbox mem) (new_ring_pool k)) :: ('a, 'n, 'sp, 'q, 'f) opened)" for msg
        by (intro opens_refuse finish_dynamic_iff 1)
      then show ?thesis using Some by simp
    qed
  qed
  moreover have "(?c \<noteq> 0 \<and> unat ?c \<le> 2 ^ 63 \<and> sh_batch s \<noteq> 0) \<and> sh_recycling s \<notin> {None, Some 0} \<longleftrightarrow> shape_ok (MpscDynamic mem Pooled) r s"
    using native_capacity_ok [of size_of True "sh_capacity s" "sh_producers s" 1] by (auto simp: dynamic_mpsc_capacity_def shape_ok_def topology_ok_def)
  ultimately show ?thesis by simp
qed

lemma clone_count:
  assumes "n \<noteq> (0 :: usize)"
  shows "Suc (unat n - 1) = unat n" "1 + of_nat (unat n - 1) = n"
proof -
  show s: "Suc (unat n - 1) = unat n" using assms by (simp add: unat_gt_0)
  have "1 + of_nat (unat n - 1) = (of_nat (Suc (unat n - 1)) :: usize)" by simp
  then show "1 + of_nat (unat n - 1) = n" unfolding s by simp
qed

text \<open>What opening relies on in a backend: a capacity with a power of two above it can be allocated.\<close>

locale openable_backend =
  fixes B :: "('q, 'a, 's) Backend"
  assumes channel_total: "unat c \<le> 2 ^ 63 \<Longrightarrow> \<exists>q. bk_channel B c = Some q"
begin

lemma brokerless_opens:
  assumes "unat capacity \<le> 2 ^ 63"
  shows "\<exists>sh. brokerless_open B n capacity = Some (sh, \<lparr>cursor = cursor_new 0, staging = batch_new, cbatch = 64\<rparr>)
     \<and> length (slots sh) = unat n \<and> live_producers sh = n \<and> live_consumers sh = 1"
proof -
  obtain q where q: "bk_channel B capacity = Some q" using channel_total [OF assms] by blast
  show ?thesis by (rule brokerless_open_rep [where rep = "\<lambda>_ _. True", OF q]) (auto simp: slots_rep_def)
qed

lemma open_claim_iff: "opens_iff (shape_ok (MpmcFixed Claim) r s) s (MpmcFixed Claim) (open_claim B size_of s :: ('a, 'n, 'sp, 'q, 'f) opened)"
proof -
  let ?c = "native_capacity size_of (BOUNDED_CAPACITY B) (sh_capacity s) (sh_producers s) (sh_consumers s)"
  have o: "opens_iff True s (MpmcFixed Claim) (do { (sh, c) \<leftarrow> brokerless_open B (sh_producers s) ?c;
        let (sh, cs) = clones clone_consumer (unat (sh_consumers s) - 1) sh (set_batch (sh_batch s) c); Some (Ok (ClaimEnds sh cs)) } :: ('a, 'n, 'sp, 'q, 'f) opened)"
    if c: "unat ?c \<le> 2 ^ 63" "sh_batch s \<noteq> 0" "sh_consumers s \<noteq> 0"
  proof -
    let ?first = "\<lparr>cursor = cursor_new 0, staging = batch_new, cbatch = sh_batch s\<rparr> :: 'a BConsumer"
    obtain sh where sh: "brokerless_open B (sh_producers s) ?c = Some (sh, \<lparr>cursor = cursor_new 0, staging = batch_new, cbatch = 64\<rparr>)"
      "length (slots sh) = unat (sh_producers s)" "live_producers sh = sh_producers s" "live_consumers sh = 1" using brokerless_opens [OF c(1)] by blast
    let ?r = "clones clone_consumer (unat (sh_consumers s) - 1) sh ?first"
    note n = clone_count [OF c(3)]
    have "(length (slots (fst ?r)) = unat (sh_producers s) \<and> live_producers (fst ?r) = sh_producers s) \<and> live_consumers (fst ?r) = live_consumers sh + of_nat (unat (sh_consumers s) - 1)"
      by (rule clones_shared [where Q = "\<lambda>sh. length (slots sh) = unat (sh_producers s) \<and> live_producers sh = sh_producers s" and g = live_consumers])
        (use sh in \<open>simp_all add: clone_consumer_def\<close>)
    moreover have "\<forall>c\<in>set (snd ?r). cbatch c = sh_batch s" by (rule clones_all) (simp_all add: clone_consumer_def)
    moreover have "length (snd ?r) = unat (sh_consumers s)" using clones_length [of clone_consumer] n(1) by metis
    ultimately show ?thesis using sh(1,4) c(2) n(2) by (simp add: opens_iff_def ends_ok_def set_batch_def max_one case_prod_beta)
  qed
  have "opens_iff ((?c \<noteq> 0 \<and> unat ?c \<le> 2 ^ 63 \<and> sh_batch s \<noteq> 0) \<and> \<not> sh_producers s = 0 \<and> \<not> sh_consumers s = 0 \<and> True) s (MpmcFixed Claim)
      (open_claim B size_of s :: ('a, 'n, 'sp, 'q, 'f) opened)"
    unfolding open_claim_def Let_def by (intro opens_refuse opens_validate o [unfolded Let_def])
  moreover have "(?c \<noteq> 0 \<and> unat ?c \<le> 2 ^ 63 \<and> sh_batch s \<noteq> 0) \<and> \<not> sh_producers s = 0 \<and> \<not> sh_consumers s = 0 \<and> True \<longleftrightarrow> shape_ok (MpmcFixed Claim) r s"
    using native_capacity_ok [of size_of "BOUNDED_CAPACITY B" "sh_capacity s" "sh_producers s" "sh_consumers s"] by (auto simp: shape_ok_def topology_ok_def)
  ultimately show ?thesis by simp
qed

lemma div_ceil_ok:
  assumes "c \<noteq> 0" "n \<noteq> 0"
  shows "div_ceil c n \<noteq> 0" "unat (div_ceil c n) \<le> unat c"
proof -
  have u: "unat (c div n) = unat c div unat n" "unat (c mod n) = unat c mod unat n" by (simp_all add: unat_div unat_mod)
  have n: "0 < unat n" "0 < unat c" using assms by (simp_all add: unat_gt_0)
  have m: "0 < c mod n \<longleftrightarrow> 0 < unat c mod unat n" by (simp add: word_less_nat_alt u)
  show "unat (div_ceil c n) \<le> unat c" and "div_ceil c n \<noteq> 0"
  proof (atomize (full), cases "unat c mod unat n = 0")
    case True
    then have "unat (div_ceil c n) = unat c div unat n" "0 < unat c div unat n" using m u n by (auto simp: div_ceil_def div_greater_zero_iff dest: dvd_imp_le)
    then show "unat (div_ceil c n) \<le> unat c \<and> div_ceil c n \<noteq> 0" using n by (auto simp: unat_eq_0)
  next
    case False
    have lt: "unat c div unat n < unat c" using n False by (metis div_less_dividend mod_by_1 nat_neq_iff less_one div_by_1 Suc_lessI One_nat_def)
    then have "unat c div unat n + 1 < 2 ^ 64" using unsigned_less [where ?'a = nat, of c] by simp
    then have "unat (div_ceil c n) = unat c div unat n + 1" using m False u by (simp add: div_ceil_def unat_word_ariths)
    then show "unat (div_ceil c n) \<le> unat c \<and> div_ceil c n \<noteq> 0" using lt by (auto simp: unat_eq_0)
  qed
qed

lemma open_lanes_iff: "opens_iff (shape_ok (MpmcFixed Lanes) r s) s (MpmcFixed Lanes) (open_lanes B size_of s :: ('a, 'n, 'sp, 'q, 'f) opened)"
proof -
  let ?c = "native_capacity size_of (BOUNDED_CAPACITY B) (sh_capacity s) (sh_producers s) (sh_consumers s)"
  let ?l = "div_ceil ?c (sh_consumers s)"
  have o: "opens_iff True s (MpmcFixed Lanes) (do { (sh, ps, cs) \<leftarrow> lanes_open B (sh_producers s) (sh_consumers s) ?l;
        Some (Ok (LaneEnds sh ps (map (lc_set_batch (sh_batch s)) cs))) } :: ('a, 'n, 'sp, 'q, 'f) opened)"
    if c: "sh_producers s \<noteq> 0" "sh_consumers s \<noteq> 0" "unat ?l \<le> 2 ^ 63" "sh_batch s \<noteq> 0"
  proof -
    obtain q where q: "bk_channel B ?l = Some q" using channel_total [OF c(3)] by blast
    show ?thesis using c by (auto simp: opens_iff_def ends_ok_def lanes_open_def q those_replicate_Some Let_def unat_eq_0 lc_set_batch_def max_one)
  qed
  have "opens_iff ((?c \<noteq> 0 \<and> unat ?c \<le> 2 ^ 63 \<and> sh_batch s \<noteq> 0) \<and> \<not> sh_producers s = 0 \<and> \<not> sh_consumers s = 0
        \<and> (?l \<noteq> 0 \<and> unat ?l \<le> 2 ^ 63 \<and> sh_batch s \<noteq> 0) \<and> True) s (MpmcFixed Lanes) (open_lanes B size_of s :: ('a, 'n, 'sp, 'q, 'f) opened)"
    unfolding open_lanes_def Let_def by (intro opens_refuse opens_validate o)
  moreover have "(?c \<noteq> 0 \<and> unat ?c \<le> 2 ^ 63 \<and> sh_batch s \<noteq> 0) \<and> \<not> sh_producers s = 0 \<and> \<not> sh_consumers s = 0
        \<and> (?l \<noteq> 0 \<and> unat ?l \<le> 2 ^ 63 \<and> sh_batch s \<noteq> 0) \<and> True \<longleftrightarrow> shape_ok (MpmcFixed Lanes) r s"
    using native_capacity_ok [of size_of "BOUNDED_CAPACITY B" "sh_capacity s" "sh_producers s" "sh_consumers s"] div_ceil_ok [of ?c "sh_consumers s"]
    by (auto simp: shape_ok_def topology_ok_def)
  ultimately show ?thesis by simp
qed

lemma open_mpmc_locked_iff:
  "opens_iff (shape_ok MpmcDynamicLocked r s) s MpmcDynamicLocked (open_mpmc_locked B size_of s :: ('a, 'n, 'sp, 'q, 'f) opened)"
proof -
  let ?c = "native_capacity size_of (BOUNDED_CAPACITY B) (sh_capacity s) (sh_producers s) (sh_consumers s)"
  have o: "opens_iff True s MpmcDynamicLocked (let (cp, d, c) = open_locked ?c;
        (d, cs) = clones (dyn_clone_consumer locked_rings) (unat (sh_consumers s) - 1) d (dyn_set_batch (sh_batch s) c) in Some (Ok (LockedEnds cp d cs)) :: ('a, 'n, 'sp, 'q, 'f) opened)"
    if c: "sh_consumers s \<noteq> 0" "sh_batch s \<noteq> 0"
  proof -
    obtain cp d and c1 :: "('a, LockedCursor) DConsumer" where k: "(open_locked ?c :: usize \<times> ('q, LockedRings) DShared \<times> ('a, LockedCursor) DConsumer) = (cp, d, c1)" by (rule prod_cases3)
    have d: "live_producers (dsh d) = 1" "live_consumers (dsh d) = 1" using k by (auto simp: open_locked_def channel_with_rings_def)
    let ?r = "clones (dyn_clone_consumer locked_rings) (unat (sh_consumers s) - 1) d (dyn_set_batch (sh_batch s) c1)"
    have "live_producers (dsh (fst ?r)) = 1 \<and> live_consumers (dsh (fst ?r)) = live_consumers (dsh d) + of_nat (unat (sh_consumers s) - 1)"
      by (rule clones_shared [where Q = "\<lambda>d. live_producers (dsh d) = 1" and g = "\<lambda>d. live_consumers (dsh d)"]) (use d in \<open>simp_all add: dyn_clone_consumer_def\<close>)
    moreover have "\<forall>c\<in>set (snd ?r). dbatch c = sh_batch s" by (rule clones_all) (use c(2) in \<open>simp_all add: dyn_clone_consumer_def dyn_set_batch_def max_one\<close>)
    moreover have "length (snd ?r) = unat (sh_consumers s)" using clones_length [of "dyn_clone_consumer locked_rings"] clone_count(1) [OF c(1)] by metis
    ultimately show ?thesis using k d clone_count(2) [OF c(1)] by (simp add: opens_iff_def ends_ok_def case_prod_beta)
  qed
  have "opens_iff (\<not> sh_producers s = 0 \<and> \<not> sh_consumers s = 0 \<and> (?c \<noteq> 0 \<and> unat ?c \<le> 2 ^ 63 \<and> sh_batch s \<noteq> 0) \<and> True) s MpmcDynamicLocked
      (open_mpmc_locked B size_of s :: ('a, 'n, 'sp, 'q, 'f) opened)"
    unfolding open_mpmc_locked_def Let_def by (intro opens_refuse opens_validate o [unfolded Let_def])
  moreover have "\<not> sh_producers s = 0 \<and> \<not> sh_consumers s = 0 \<and> (?c \<noteq> 0 \<and> unat ?c \<le> 2 ^ 63 \<and> sh_batch s \<noteq> 0) \<and> True \<longleftrightarrow> shape_ok MpmcDynamicLocked r s"
    using native_capacity_ok [of size_of "BOUNDED_CAPACITY B" "sh_capacity s" "sh_producers s" "sh_consumers s"] by (auto simp: shape_ok_def topology_ok_def)
  ultimately show ?thesis by simp
qed

lemma open_mpmc_array_iff:
  "opens_iff (shape_ok MpmcDynamicArray r s) s MpmcDynamicArray (open_mpmc_array B size_of s :: ('a, 'n, 'sp, 'q, 'f) opened)"
proof -
  let ?c = "native_capacity size_of (BOUNDED_CAPACITY B) (sh_capacity s) (sh_array_producers s) (sh_consumers s)"
  have o: "opens_iff True s MpmcDynamicArray (let (cp, d, c) = open_array ?c (sh_array_producers s);
        (d, cs) = clones (dyn_clone_consumer array_rings) (unat (sh_consumers s) - 1) d (dyn_set_batch (sh_batch s) c) in Some (Ok (ArrayEnds cp d cs)) :: ('a, 'n, 'sp, 'q, 'f) opened)"
    if c: "sh_array_producers s \<noteq> 0" "sh_consumers s \<noteq> 0" "sh_batch s \<noteq> 0"
  proof -
    obtain cp d and c1 :: "('a, Cursor) DConsumer" where k: "(open_array ?c (sh_array_producers s) :: usize \<times> ('q, ArrayRings) DShared \<times> ('a, Cursor) DConsumer) = (cp, d, c1)" by (rule prod_cases3)
    have d: "live_producers (dsh d) = 1" "live_consumers (dsh d) = 1" "length (ar_cells (dmem d)) = unat (sh_array_producers s)"
      using k c(1) by (auto simp: open_array_def channel_with_rings_def max_one)
    let ?r = "clones (dyn_clone_consumer array_rings) (unat (sh_consumers s) - 1) d (dyn_set_batch (sh_batch s) c1)"
    have "(live_producers (dsh (fst ?r)) = 1 \<and> length (ar_cells (dmem (fst ?r))) = unat (sh_array_producers s))
        \<and> live_consumers (dsh (fst ?r)) = live_consumers (dsh d) + of_nat (unat (sh_consumers s) - 1)"
      by (rule clones_shared [where Q = "\<lambda>d. live_producers (dsh d) = 1 \<and> length (ar_cells (dmem d)) = unat (sh_array_producers s)" and g = "\<lambda>d. live_consumers (dsh d)"])
        (use d in \<open>simp_all add: dyn_clone_consumer_def\<close>)
    moreover have "\<forall>c\<in>set (snd ?r). dbatch c = sh_batch s" by (rule clones_all) (use c(3) in \<open>simp_all add: dyn_clone_consumer_def dyn_set_batch_def max_one\<close>)
    moreover have "length (snd ?r) = unat (sh_consumers s)" using clones_length [of "dyn_clone_consumer array_rings"] clone_count(1) [OF c(2)] by metis
    ultimately show ?thesis using k d clone_count(2) [OF c(2)] by (simp add: opens_iff_def ends_ok_def case_prod_beta)
  qed
  have "opens_iff (\<not> sh_array_producers s = 0 \<and> \<not> sh_consumers s = 0 \<and> (?c \<noteq> 0 \<and> unat ?c \<le> 2 ^ 63 \<and> sh_batch s \<noteq> 0) \<and> True) s MpmcDynamicArray
      (open_mpmc_array B size_of s :: ('a, 'n, 'sp, 'q, 'f) opened)"
    unfolding open_mpmc_array_def Let_def by (intro opens_refuse opens_validate o [unfolded Let_def])
  moreover have "\<not> sh_array_producers s = 0 \<and> \<not> sh_consumers s = 0 \<and> (?c \<noteq> 0 \<and> unat ?c \<le> 2 ^ 63 \<and> sh_batch s \<noteq> 0) \<and> True \<longleftrightarrow> shape_ok MpmcDynamicArray r s"
    using native_capacity_ok [of size_of "BOUNDED_CAPACITY B" "sh_capacity s" "sh_array_producers s" "sh_consumers s"] by (auto simp: shape_ok_def topology_ok_def)
  ultimately show ?thesis by simp
qed

end

interpretation ring_openable: openable_backend ring_backend
  using ring_defined by unfold_locales simp

interpretation seg_openable: openable_backend seg_backend
  by unfold_locales simp

lemma open_broadcast_iff: "opens_iff (shape_ok BroadcastTo r s) s BroadcastTo (open_broadcast s :: ('a, 'n, 'sp, 'q, 'f) opened)"
proof -
  let ?c = "capacity_or_default (sh_capacity s)"
  have o: "opens_iff True s BroadcastTo (do { (sh, p, r) \<leftarrow> bcast_open ?c (sh_max_readers s); Some (Ok (BroadcastEnds sh p r)) } :: ('a, 'n, 'sp, 'q, 'f) opened)"
    if c: "\<not> ?c < 2" "unat ?c \<le> 2 ^ 63" "\<not> \<not> (1 \<le> sh_max_readers s \<and> sh_max_readers s \<le> 64)"
  proof -
    obtain k where k: "checked_next_power_of_two ?c = Some k" using c(2) by (simp add: checked_next_power_of_two_def)
    have "2 \<le> unat k" using checked_next_power_of_two_SomeD(2) [OF k] c(1) by (simp add: word_less_nat_alt)
    then show ?thesis using c(3) k by (simp add: opens_iff_def ends_ok_def bcast_open_def)
  qed
  have "opens_iff (\<not> ?c < 2 \<and> (?c \<noteq> 0 \<and> unat ?c \<le> 2 ^ 63 \<and> sh_batch s \<noteq> 0) \<and> \<not> \<not> (1 \<le> sh_max_readers s \<and> sh_max_readers s \<le> 64) \<and> True) s BroadcastTo
      (open_broadcast s :: ('a, 'n, 'sp, 'q, 'f) opened)"
    unfolding open_broadcast_def Let_def by (intro opens_refuse opens_validate o)
  moreover have two: "c < 2 \<longleftrightarrow> c = 0 \<or> c = (1 :: usize)" for c by (auto simp: word_less_nat_alt word_unat_eq_iff)
  have "\<not> ?c < 2 \<and> (?c \<noteq> 0 \<and> unat ?c \<le> 2 ^ 63 \<and> sh_batch s \<noteq> 0) \<and> \<not> \<not> (1 \<le> sh_max_readers s \<and> sh_max_readers s \<le> 64) \<and> True \<longleftrightarrow> shape_ok BroadcastTo r s"
    unfolding two by (cases "sh_capacity s") (auto simp: shape_ok_def topology_ok_def capacity_or_default_def DEFAULT_CAPACITY_def)
  ultimately show ?thesis by simp
qed

lemma validate_brokered_cases:
  fixes p c b k n :: usize
  defines "good \<equiv> (k \<noteq> 0 \<and> unat k \<le> 2 ^ 63 \<and> n \<noteq> 0) \<and> p \<noteq> 0 \<and> c \<noteq> 0 \<and> b \<noteq> 0 \<and> b \<le> p"
  shows "good \<Longrightarrow> validate_brokered p c b k n = Ok ()" "\<not> good \<Longrightarrow> \<exists>m. validate_brokered p c b k n = Err (Invalid m)"
proof -
  have v: "validate_common k n = Ok ()" if "k \<noteq> 0 \<and> unat k \<le> 2 ^ 63 \<and> n \<noteq> 0" using that by (simp add: validate_common_def checked_next_power_of_two_def)
  show "good \<Longrightarrow> validate_brokered p c b k n = Ok ()" using v by (auto simp: good_def validate_brokered_def)
  assume g: "\<not> good"
  show "\<exists>m. validate_brokered p c b k n = Err (Invalid m)"
  proof (cases "k \<noteq> 0 \<and> unat k \<le> 2 ^ 63 \<and> n \<noteq> 0")
    case True
    then show ?thesis using g v by (auto simp: good_def validate_brokered_def)
  next
    case False
    then show ?thesis using validate_common_cases(2) [of k n] by (auto simp: validate_brokered_def)
  qed
qed

text \<open>Every producer feeds exactly one broker.\<close>

lemma sum_residues: "0 < k \<Longrightarrow> (\<Sum>b\<leftarrow>[0..<k]. length (filter (\<lambda>i. i mod k = b) [0..<n])) = n"
proof (induction n)
  case (Suc n)
  have "(\<Sum>b\<leftarrow>[0..<k]. if n mod k = b then 1 else 0 :: nat) = 1"
    using Suc.prems by (simp add: sum_list_distinct_conv_sum_set)
  moreover have "(\<Sum>b\<leftarrow>[0..<k]. length (filter (\<lambda>i. i mod k = b) [0..<Suc n]))
      = (\<Sum>b\<leftarrow>[0..<k]. length (filter (\<lambda>i. i mod k = b) [0..<n]) + (if n mod k = b then 1 else 0))"
    by (intro arg_cong [where f = sum_list] map_cong) auto
  ultimately show ?case using Suc by (simp add: sum_list_addf)
qed simp

context openable_backend
begin

lemma open_brokered_valid:
  assumes "shape_ok (MpmcBrokered run) r s"
  shows "\<exists>e. ends_ok s (MpmcBrokered run) e
     \<and> (open_brokered B spawn run r s :: ('a, 'n, 'sp, 'q, 'f) opened)
         = Some (if run = Spawned \<and> \<not> list_all spawn [0..<unat (sh_brokers s)] then Err SpawnFailed else Ok e)"
proof -
  let ?c = "capacity_or_default (sh_capacity s)"
  have s: "?c \<noteq> 0" "unat ?c \<le> 2 ^ 63" "sh_batch s \<noteq> 0" "sh_producers s \<noteq> 0" "sh_consumers s \<noteq> 0" "sh_brokers s \<noteq> 0" "sh_brokers s \<le> sh_producers s"
    using assms by (auto simp: shape_ok_def topology_ok_def capacity_or_default_def DEFAULT_CAPACITY_def split: option.splits)
  have v: "validate_brokered (sh_producers s) (sh_consumers s) (sh_brokers s) ?c (sh_batch s) = Ok ()"
    by (rule validate_brokered_cases(1)) (use s in simp)
  have r: "validate_routing r (sh_consumers s) = Ok ()"
    using assms by (cases r) (auto simp: validate_routing_def refuse_if_def shape_ok_def topology_ok_def)
  obtain q where q: "bk_channel B ?c = Some q" using channel_total [OF s(2)] by blast
  let ?nb = "unat (sh_brokers s)"
  have nb: "unat (min (sh_brokers s) (sh_producers s)) = ?nb" "0 < ?nb" using s(6,7) by (simp_all add: min_absorb1 unat_gt_0)
  have ge: "1 \<le> sh_producers s" "1 \<le> sh_consumers s" using s(4,5) by (simp_all add: word_le_nat_alt Suc_le_eq unat_gt_0)
  let ?bs = "map (\<lambda>b. \<lparr>producer_rxs = map (\<lambda>_. q) (filter (\<lambda>i. i mod ?nb = b) [0..<unat (sh_producers s)]), consumer_txs = replicate (unat (sh_consumers s)) q,
      broker_batch = 64, broker_policy = prepare_routing (sh_consumers s) r\<rparr>) [0..<?nb]"
  have o: "brokered_open B prepare_routing (sh_producers s) (sh_consumers s) (sh_brokers s) ?c r = Some (sh_producers s, ?bs)"
    using ge nb q by (simp add: brokered_open_def Let_def)
  let ?e = "BrokeredEnds (sh_producers s) (map (set_broker_batch (sh_batch s)) ?bs) :: ('a, 'n, 'sp, 'q, 'f) Endpoints"
  have "ends_ok s (MpmcBrokered run) ?e"
    using sum_residues [OF nb(2), of "unat (sh_producers s)"] s(3)
    by (simp add: ends_ok_def set_broker_batch_def broker_set_batch_def max_one comp_def)
  moreover have "(open_brokered B spawn run r s :: ('a, 'n, 'sp, 'q, 'f) opened)
      = Some (if run = Spawned \<and> \<not> list_all spawn [0..<unat (sh_brokers s)] then Err SpawnFailed else Ok ?e)"
    using v r o by (cases run) (simp_all add: open_brokered_def after_def Let_def finish_spawned_open_def)
  ultimately show ?thesis by blast
qed

lemma open_brokered_invalid:
  assumes "\<not> shape_ok (MpmcBrokered run) r s"
  shows "\<exists>m. (open_brokered B spawn run r s :: ('a, 'n, 'sp, 'q, 'f) opened) = Some (Err (Invalid m))"
proof -
  let ?c = "capacity_or_default (sh_capacity s)"
  let ?good = "(?c \<noteq> 0 \<and> unat ?c \<le> 2 ^ 63 \<and> sh_batch s \<noteq> 0) \<and> sh_producers s \<noteq> 0 \<and> sh_consumers s \<noteq> 0 \<and> sh_brokers s \<noteq> 0 \<and> sh_brokers s \<le> sh_producers s"
  show ?thesis
  proof (cases ?good)
    case True
    then have "\<exists>f k. r = PubSub f k" "64 < sh_consumers s"
      using assms by (auto simp: shape_ok_def topology_ok_def capacity_or_default_def split: option.splits)
    then have "\<exists>m. validate_routing r (sh_consumers s) = Err (Invalid m)" by (auto simp: validate_routing_def refuse_if_def)
    then show ?thesis using validate_brokered_cases(1) [OF True] by (auto simp: open_brokered_def after_def Let_def)
  next
    case False
    then show ?thesis using validate_brokered_cases(2) [OF False] by (auto simp: open_brokered_def after_def Let_def)
  qed
qed

text \<open>All topologies at once.\<close>

lemma open_channel_decides:
  assumes "ch_topology d \<noteq> ProcessDuplex"
  defines "ok \<equiv> shape_ok (ch_topology d) (ch_routing d) (ch_shape d)"
  shows "\<exists>r. (open_channel K B size_of spawn d :: ('a, 'n, 'sp, 'q, 'f) opened) = Some r
     \<and> (if \<not> ok then \<exists>m. r = Err (Invalid m)
        else if ch_topology d = MpmcBrokered Spawned \<and> \<not> list_all spawn [0..<unat (sh_brokers (ch_shape d))] then r = Err SpawnFailed
        else \<exists>e. r = Ok e \<and> ends_ok (ch_shape d) (ch_topology d) e)"
proof (cases "\<exists>run. ch_topology d = MpmcBrokered run")
  case True
  then obtain run where t: "ch_topology d = MpmcBrokered run" by blast
  have o: "(open_channel K B size_of spawn d :: ('a, 'n, 'sp, 'q, 'f) opened) = open_brokered B spawn run (ch_routing d) (ch_shape d)" using t by (simp add: open_channel_def)
  show ?thesis
  proof (cases ok)
    case True
    then show ?thesis using open_brokered_valid [of run "ch_routing d" "ch_shape d" spawn] t unfolding o ok_def by (auto split: if_splits)
  next
    case False
    then show ?thesis using open_brokered_invalid [of run "ch_routing d" "ch_shape d" spawn] t unfolding o ok_def by auto
  qed
next
  case False
  have "opens_iff ok (ch_shape d) (ch_topology d) (open_channel K B size_of spawn d :: ('a, 'n, 'sp, 'q, 'f) opened)"
    using False assms(1) unfolding ok_def open_channel_def
    by (cases "ch_topology d")
      (simp_all add: open_fixed_iff open_pool_iff open_dynamic_iff open_dynamic_pooled_iff open_claim_iff open_lanes_iff open_mpmc_locked_iff
        open_mpmc_array_iff open_broadcast_iff split: Engine.split Policy.split)
  then show ?thesis using False unfolding opens_iff_def by (auto split: if_splits)
qed

end

section \<open>Properties\<close>



lemma unat_ucast_u128: "unat (ucast x :: u128) = unat (x :: usize)"
proof -
  have "unat x < 2 ^ 128" using unsigned_less [where ?'a = nat, of x] by simp
  then show ?thesis by (simp add: unsigned_ucast_eq take_bit_nat_eq_self)
qed

lemma div_ceil_times:
  assumes "b \<noteq> 0" "b \<le> c" "unat c \<le> 4096"
  shows "unat (div_ceil c b * b) mod unat b = 0" "unat c \<le> unat (div_ceil c b * b)" "unat (div_ceil c b * b) < unat c + unat b"
proof -
  let ?c = "unat c" and ?b = "unat b"
  have b: "0 < ?b" "?b \<le> ?c" using assms(1,2) by (simp_all add: unat_gt_0 word_le_nat_alt)
  have r: "?c div ?b * ?b + ?c mod ?b = ?c" "?c mod ?b < ?b" using b by simp_all
  have d: "unat (div_ceil c b) = ?c div ?b + (if ?c mod ?b = 0 then 0 else 1)"
  proof -
    have "?c div ?b \<le> 4096" using assms(3) by (rule le_trans [OF div_le_dividend])
    then have "?c div ?b + 1 < 2 ^ 64" by simp
    then show ?thesis by (simp add: div_ceil_def word_less_nat_alt unat_div unat_mod unat_word_ariths)
  qed
  have e: "unat (div_ceil c b) * ?b = ?c + (if ?c mod ?b = 0 then 0 else ?b - ?c mod ?b)" 
  proof (cases "?c mod ?b = 0")
    case True
    then show ?thesis using r(1) by (simp add: d)
  next
    case False
    have "(?c div ?b + 1) * ?b = ?c div ?b * ?b + ?b" by (simp add: distrib_right)
    then show ?thesis using False r by (simp only: d if_False)
  qed
  have "unat (div_ceil c b) * ?b < 2 ^ 64" using e r(2) b assms(3) by (simp split: if_splits)
  then have u: "unat (div_ceil c b * b) = unat (div_ceil c b) * ?b" by (simp add: unat_word_ariths)
  then show "unat (div_ceil c b * b) mod unat b = 0" by simp
  show "unat c \<le> unat (div_ceil c b * b)" "unat (div_ceil c b * b) < unat c + unat b"
    unfolding u e using r(2) b(1) by simp_all
qed

text \<open>
  C40. Automatic capacities. Between the clamps, the bytes that the automatic rings of one side keep resident are within a factor of two of the target, for every payload size
  and number of lanes. The automatic capacity of a leased pool is a multiple of its batch, at least one batch and less than a batch above the largest plateau, so that the
  computation never wraps.
\<close>

theorem automatic_capacity_bounds:
  fixes size_of lanes_n producers consumers batch :: usize
  defines "bytes \<equiv> max (unat size_of) 1" and "n \<equiv> max (unat lanes_n) 1"
  shows "(32 \<le> 2 ^ 20 div bytes div n \<and> 2 ^ 20 div bytes div n < 8192
          \<longrightarrow> unat (automatic_ring_capacity size_of lanes_n) * bytes * n \<le> 2 * 2 ^ 20
            \<and> 2 ^ 20 div bytes div n < 2 * unat (automatic_ring_capacity size_of lanes_n))
     \<and> (batch \<noteq> 0 \<longrightarrow> unat (leased_capacity size_of None producers consumers batch) mod unat batch = 0
            \<and> unat batch \<le> unat (leased_capacity size_of None producers consumers batch)
            \<and> unat (leased_capacity size_of None producers consumers batch) < 4096 + unat batch)"
proof (intro conjI impI)
  let ?s = "RING_RESIDENT_TARGET_BYTES div ucast (max size_of 1) div ucast (max lanes_n 1) :: u128"
  have m: "unat (max x 1) = max (unat x) 1" for x :: usize by (simp add: max_def word_le_nat_alt)
  have s: "unat ?s = 2 ^ 20 div bytes div n" by (simp add: unat_div unat_ucast_u128 m bytes_def n_def RING_RESIDENT_TARGET_BYTES_def)
  assume a: "32 \<le> 2 ^ 20 div bytes div n \<and> 2 ^ 20 div bytes div n < 8192"
  then have q: "unat ?s < 2 * unat (quantized_capacity ?s)" "unat (quantized_capacity ?s) \<le> 2 * unat ?s" using quantized_within_two [of ?s] unfolding s by auto
  then show "2 ^ 20 div bytes div n < 2 * unat (automatic_ring_capacity size_of lanes_n)" unfolding automatic_ring_capacity_def s by simp
  have "unat (quantized_capacity ?s) * bytes * n \<le> 2 * (2 ^ 20 div bytes div n) * bytes * n" using q(2) unfolding s by simp
  also have "\<dots> = 2 * (2 ^ 20 div (bytes * n) * (bytes * n))" by (simp add: div_mult2_eq)
  also have "\<dots> \<le> 2 * 2 ^ 20" by (intro mult_left_mono) (simp_all only: div_times_less_eq_dividend zero_le)
  finally show "unat (automatic_ring_capacity size_of lanes_n) * bytes * n \<le> 2 * 2 ^ 20" unfolding automatic_ring_capacity_def .
next
  assume b: "batch \<noteq> 0"
  define c where "c = min (quantized_capacity (RING_RESIDENT_TARGET_BYTES * ucast (max consumers 1) div (ucast (max size_of 1) * ucast (max producers 1))))
      (if (ucast (max size_of 1) :: u128) \<le> 64 then 4096 else 1024)"
  have l: "leased_capacity size_of None producers consumers batch = (if c mod batch = 0 then c else if c < batch then batch else div_ceil c batch * batch)"
    using b by (simp add: leased_capacity_def Let_def c_def)
  have c: "unat c \<le> 4096" "0 < unat c"
    using quantized_cases [of "RING_RESIDENT_TARGET_BYTES * ucast (max consumers 1) div (ucast (max size_of 1) * ucast (max producers 1))"]
    by (auto simp: c_def min_def)
  have bp: "0 < unat batch" using b by (simp add: unat_gt_0)
  have z: "c mod batch = 0 \<longleftrightarrow> unat c mod unat batch = 0" by (metis unat_mod unat_eq_0)
  have "unat batch \<le> unat c" if "unat c mod unat batch = 0" using that c(2) by (metis dvd_imp_le mod_0_imp_dvd)
  then have "unat (leased_capacity size_of None producers consumers batch) mod unat batch = 0
     \<and> unat batch \<le> unat (leased_capacity size_of None producers consumers batch)
     \<and> unat (leased_capacity size_of None producers consumers batch) < 4096 + unat batch"
    using div_ceil_times [OF b, of c] c bp unfolding l z by (auto simp: not_less word_le_nat_alt)
  then show "unat (leased_capacity size_of None producers consumers batch) mod unat batch = 0"
    "unat batch \<le> unat (leased_capacity size_of None producers consumers batch)"
    "unat (leased_capacity size_of None producers consumers batch) < 4096 + unat batch" by auto
qed

lemma automatic_capacity_bounds_witness:
  "unat (automatic_ring_capacity 256 3) * 256 * 3 \<le> 2 * 2 ^ 20 \<and> unat (leased_capacity 4096 None 1 1 96) mod 96 = 0"
  using automatic_capacity_bounds [of 256 3 96 1 1] automatic_capacity_bounds [of 4096 1 96 1 1] by simp

end
