(* ===== verification/Ipc_Transfer.thy ===== *)
theory Ipc_Transfer
  imports Ipc_Stream
begin

text \<open>
  Correctness of a direction of the process transport: the invariant that ties the descriptor rings, the
  payload slots and the local variables of both loops to the chunks read so far, its preservation by every
  step of every loop, and the two results on whole transfers, delivery and freedom from deadlock.
\<close>

section \<open>Sources\<close>

fun event_bytes :: "ReadEvent \<Rightarrow> u8 list" where
  "event_bytes (ReadBytes bs) = bs"
| "event_bytes (ReadFailed e) = []"

definition source_bytes :: "ReadEvent list \<Rightarrow> u8 list" where
  "source_bytes es = concat (map event_bytes es)"

definition source_errors :: "ReadEvent list \<Rightarrow> IoError set" where
  "source_errors es = {e. ReadFailed e \<in> set es}"

lemma source_simps [simp]:
  "source_bytes [] = []" "source_bytes (ReadBytes bs # es) = bs @ source_bytes es" "source_bytes (ReadFailed e # es) = source_bytes es"
  "source_errors [] = {}" "source_errors (ReadBytes bs # es) = source_errors es"
  "source_errors (ReadFailed e # es) = insert e (source_errors es)"
  by (auto simp: source_bytes_def source_errors_def)

text \<open>A source whose empty deliveries only mark its end.\<close>

abbreviation steady :: "ReadEvent list \<Rightarrow> bool" where
  "steady es \<equiv> ReadBytes [] \<notin> set es"

lemma read_chunk_spec:
  assumes "read_chunk n es = (bs, e, es')"
  shows "length bs \<le> n" and "source_bytes es = bs @ source_bytes es'" and "source_errors es' \<subseteq> source_errors es"
    and "e = Some x \<Longrightarrow> x \<in> source_errors es" and "steady es \<Longrightarrow> steady es'"
    and "steady es \<Longrightarrow> e = None \<Longrightarrow> length bs < n \<Longrightarrow> es' = []"
proof -
  have "length bs \<le> n \<and> source_bytes es = bs @ source_bytes es' \<and> source_errors es' \<subseteq> source_errors es
    \<and> (\<forall>x. e = Some x \<longrightarrow> x \<in> source_errors es) \<and> (steady es \<longrightarrow> steady es')
    \<and> (steady es \<longrightarrow> e = None \<longrightarrow> length bs < n \<longrightarrow> es' = [])"
    using assms
  proof (induction n es arbitrary: bs e es' rule: read_chunk.induct)
    case (1 n es)
    show ?case
    proof (cases "n = 0")
      case True
      then show ?thesis using 1(3) by (simp add: read_chunk.simps)
    next
      case False
      show ?thesis
      proof (cases es)
        case Nil
        then show ?thesis using 1(3) False by (simp add: read_chunk.simps)
      next
        case (Cons ev rest)
        show ?thesis
        proof (cases ev)
          case (ReadFailed x)
          show ?thesis
          proof (cases "error_kind x = Interrupted")
            case True
            have "read_chunk n rest = (bs, e, es')"
              using 1(3) False Cons ReadFailed True by (simp add: read_chunk.simps [of n "ReadFailed x # rest"])
            from 1(2) [OF False _ _ True this] show ?thesis using Cons ReadFailed by auto
          next
            case other: False
            then show ?thesis using 1(3) False Cons ReadFailed by (auto simp: read_chunk.simps [of n "ReadFailed x # rest"])
          qed
        next
          case (ReadBytes b)
          show ?thesis
          proof (cases "b = []")
            case True
            then show ?thesis using 1(3) False Cons ReadBytes by (auto simp: read_chunk.simps [of n "ReadBytes [] # rest"])
          next
            case nonempty: False
            obtain c es1 where c: "read_call n es = (Ok c, es1)" "c \<noteq> []" "length c \<le> n"
              "source_bytes es = c @ source_bytes es1" "source_errors es1 = source_errors es"
              "steady es \<longrightarrow> steady es1" 
              using Cons ReadBytes nonempty False by (cases "length b \<le> n") auto
            obtain more e1 es2 where m: "read_chunk (n - length c) es1 = (more, e1, es2)" by (metis prod_cases3)
            have "bs = c @ more" "e = e1" "es' = es2"
              using 1(3) False c m by (auto simp: read_chunk.simps [of n es])
            with 1(1) [OF False _ _ c(2) m] c show ?thesis by auto
          qed
        qed
      qed
    qed
  qed
  then show "length bs \<le> n" "source_bytes es = bs @ source_bytes es'" "source_errors es' \<subseteq> source_errors es"
    "e = Some x \<Longrightarrow> x \<in> source_errors es" "steady es \<Longrightarrow> steady es'"
    "steady es \<Longrightarrow> e = None \<Longrightarrow> length bs < n \<Longrightarrow> es' = []" by blast+
qed

lemma excess_Ok:
  assumes "excess es = (Ok u, es')"
  shows "source_bytes es' = source_bytes es" "source_errors es' \<subseteq> source_errors es" "steady es \<Longrightarrow> es' = []"
  using assms by (induction es rule: excess.induct) (auto split: if_splits)

lemma excess_Err:
  assumes "excess es = (Err e, es')"
  shows "e \<in> source_errors es \<or> e = invalid_data ''stream exceeded its byte ceiling''"
  using assms by (induction es rule: excess.induct) (auto split: if_splits)

section \<open>The descriptor ring\<close>

text \<open>\<open>arena_rep a log h\<close>: the ring has been given the frames \<open>log\<close>, and the first \<open>h\<close> have been taken.\<close>

definition arena_rep :: "Arena \<Rightarrow> Frame list \<Rightarrow> nat \<Rightarrow> bool" where
  "arena_rep a log h \<longleftrightarrow>
     is_power_of_two (arena_capacity a) \<and> unat (arena_capacity a) < 2 ^ 32
     \<and> length (descriptors a) = unat (arena_capacity a) \<and> head a = of_nat h \<and> tail a = of_nat (length log)
     \<and> h \<le> length log \<and> length log \<le> h + unat (arena_capacity a)
     \<and> (\<forall>k. h \<le> k \<longrightarrow> k < length log \<longrightarrow> descriptors a ! (k mod unat (arena_capacity a)) = frame_encode (log ! k))"

lemma arena_rep_index:
  assumes "is_power_of_two (arena_capacity a)"
  shows "ring_index a (of_nat k) = k mod unat (arena_capacity a)"
proof -
  obtain j where j: "j \<le> 63" "unat (arena_capacity a) = 2 ^ j" using is_power_of_two_exp [OF assms] by blast
  then have "arena_capacity a = of_nat (2 ^ j)" by (metis of_nat_unat ucast_id)
  then show ?thesis using cursor_index [OF j(1), of k] j(2) by (simp add: ring_index_def)
qed

lemma arena_rep_gap:
  assumes "arena_rep a log h"
  shows "unat (tail a - head a) = length log - h"
  using assms unat_cursor_diff [of h "length log"] by (auto simp: arena_rep_def)

lemma arena_push_full:
  assumes "arena_rep a log h" "h + unat (arena_capacity a) \<le> length log"
  shows "arena_push env f a = (case wait_error env of None \<Rightarrow> Spinning | Some e \<Rightarrow> Done (a, Err e))"
  using arena_rep_gap [OF assms(1)] assms by (simp add: arena_push_def word_le_nat_alt arena_rep_def)

lemma arena_push_room:
  assumes "arena_rep a log h" "length log < h + unat (arena_capacity a)"
  shows "\<exists>a'. arena_push env f a = Done (a', outcome (notify_error env)) \<and> arena_rep a' (log @ [f]) h
    \<and> payload a' = payload a \<and> arena_slots a' = arena_slots a \<and> slot_len a' = slot_len a \<and> arena_capacity a' = arena_capacity a"
proof -
  let ?a = "a\<lparr>descriptors := (descriptors a)[ring_index a (tail a) := frame_encode f], tail := tail a + 1\<rparr>"
  let ?c = "unat (arena_capacity a)"
  have p: "is_power_of_two (arena_capacity a)" and t: "tail a = of_nat (length log)" and l: "length (descriptors a) = ?c"
    and h: "h \<le> length log"
    using assms(1) by (auto simp: arena_rep_def)
  have c: "0 < ?c" using p by (simp add: is_power_of_two_def unat_gt_0)
  have i: "ring_index a (tail a) = length log mod ?c" unfolding t by (rule arena_rep_index [OF p])
  have "descriptors ?a ! (k mod ?c) = frame_encode ((log @ [f]) ! k)" if "h \<le> k" "k < length (log @ [f])" for k
  proof (cases "k = length log")
    case True
    then show ?thesis unfolding i using c l by simp
  next
    case False
    then have "k mod ?c \<noteq> length log mod ?c" using that assms(2) by (intro mod_neq_of_window) auto
    then show ?thesis unfolding i using False that assms(1) l c by (simp add: arena_rep_def nth_append)
  qed
  then have "arena_rep ?a (log @ [f]) h" using assms h t l p by (auto simp: arena_rep_def)
  moreover have "\<not> tail a - head a \<ge> arena_capacity a"
    using arena_rep_gap [OF assms(1)] assms(2) h by (simp add: word_le_nat_alt)
  ultimately show ?thesis by (intro exI [of _ ?a]) (simp add: arena_push_def)
qed

lemma arena_pop_empty:
  assumes "arena_rep a log (length log)"
  shows "arena_pop env a = (case wait_error env of None \<Rightarrow> Spinning | Some e \<Rightarrow> Done (a, Err e))"
  using assms by (simp add: arena_pop_def arena_rep_def)

lemma arena_pop_ready:
  assumes "arena_rep a log h" "h < length log"
  shows "\<exists>a'. arena_pop env a = Done (a', and_then (outcome (notify_error env)) (\<lambda>_. Ok (log ! h))) \<and> arena_rep a' log (Suc h)
    \<and> payload a' = payload a \<and> arena_slots a' = arena_slots a \<and> slot_len a' = slot_len a \<and> arena_capacity a' = arena_capacity a"
proof -
  let ?a = "a\<lparr>head := head a + 1\<rparr>"
  have p: "is_power_of_two (arena_capacity a)" and e: "head a = of_nat h" using assms(1) by (auto simp: arena_rep_def)
  have i: "ring_index a (head a) = h mod unat (arena_capacity a)" unfolding e by (rule arena_rep_index [OF p])
  have "frame_decode (descriptors a ! ring_index a (head a)) = Ok (log ! h)"
    unfolding i using assms by (simp add: arena_rep_def frame_roundtrip)
  moreover have "tail a - head a \<noteq> 0" using arena_rep_gap [OF assms(1)] assms(2) by (metis unat_0 zero_less_diff less_irrefl)
  moreover have "arena_rep ?a log (Suc h)" using assms by (auto simp: arena_rep_def)
  ultimately show ?thesis by (intro exI [of _ ?a]) (simp add: arena_pop_def)
qed

lemma new_arena_rep:
  assumes "is_power_of_two capacity" "unat capacity < 2 ^ 32"
  shows "arena_rep (new_arena slots len capacity) [] 0"
  using assms by (simp add: arena_rep_def new_arena_def)

section \<open>The frames of a transfer\<close>

text \<open>The descriptor of chunk \<open>k\<close> when the chunks hold the bytes \<open>bs\<close>, and the running aggregate.\<close>

definition dframe :: "Session \<Rightarrow> u8 list list \<Rightarrow> nat \<Rightarrow> Frame" where
  "dframe ss bs k = \<lparr>fkind = KData, fflags = flags ss, ftransfer_id = transfer_id ss,
     foffset = of_nat (length (concat (take k bs))), fslot = of_nat (k mod unat (stream_slots (shape ss))),
     fgeneration = of_nat (k div unat (stream_slots (shape ss)) + 1), flen = of_nat (length (bs ! k)),
     fchecksum = checksum_scalar (bs ! k)\<rparr>"

definition agg :: "Session \<Rightarrow> u8 list list \<Rightarrow> u64" where
  "agg ss bs = fold (\<lambda>k a. fold_checksum a (dframe ss bs k)) [0..<length bs] 0"

definition cframe :: "Session \<Rightarrow> u8 list list \<Rightarrow> Frame" where
  "cframe ss bs = complete_frame ss (of_nat (length (concat bs))) (agg ss bs)"

lemma dframe_take: "k < y \<Longrightarrow> y \<le> length bs \<Longrightarrow> dframe ss (take y bs) k = dframe ss bs k"
  by (simp add: dframe_def min_def)

lemma dframe_snoc: "k < length bs \<Longrightarrow> dframe ss (bs @ [b]) k = dframe ss bs k"
  by (simp add: dframe_def nth_append)

lemma agg_snoc: "agg ss (bs @ [b]) = fold_checksum (agg ss bs) (dframe ss (bs @ [b]) (length bs))"
proof -
  have "fold (\<lambda>k a. fold_checksum a (dframe ss (bs @ [b]) k)) [0..<length bs] 0 = agg ss bs"
    unfolding agg_def by (rule fold_cong) (auto simp: dframe_snoc)
  then show ?thesis by (simp add: agg_def)
qed

lemma agg_Nil [simp]: "agg ss [] = 0"
  by (simp add: agg_def)

lemma agg_take_Suc:
  assumes "y < length bs"
  shows "agg ss (take (Suc y) bs) = fold_checksum (agg ss (take y bs)) (dframe ss bs y)"
proof -
  have "dframe ss (take y bs @ [bs ! y]) y = dframe ss bs y"
    using dframe_take [of y "Suc y" bs ss] assms by (simp add: take_Suc_conv_app_nth)
  then show ?thesis using assms agg_snoc [of ss "take y bs" "bs ! y"] by (simp add: take_Suc_conv_app_nth min_def)
qed

lemma ucast_of_nat_down: "(ucast (of_nat n :: u64) :: u32) = of_nat n"
  by (rule bit_word_eqI) (simp add: bit_simps bit_of_nat_iff_bit)

lemma ucast_of_nat_up: "n < 2 ^ 32 \<Longrightarrow> (ucast (of_nat n :: u32) :: u64) = of_nat n"
  by (simp add: word_unat_eq_iff unsigned_ucast_eq unat_of_nat take_bit_eq_mod)

text \<open>What the chunks of a transfer satisfy: they are non-empty, fit a slot and stay under the ceiling.\<close>

definition chunks_ok :: "Mode \<Rightarrow> StreamShape \<Rightarrow> u8 list list \<Rightarrow> bool" where
  "chunks_ok mode s bs \<longleftrightarrow>
     (\<forall>k < length bs. 0 < length (bs ! k) \<and> length (bs ! k) \<le> unat (chunk_bytes s)
        \<and> k div unat (stream_slots s) + 1 < 2 ^ 32
        \<and> (mode = Exact \<longrightarrow> length (bs ! k) = min (unat (total_bytes s) - k * unat (chunk_bytes s)) (unat (chunk_bytes s))))
     \<and> length (concat bs) \<le> unat (total_bytes s) \<and> (mode = Exact \<longrightarrow> length bs \<le> unat (chunks s))"

lemma chunks_ok_bounds:
  assumes "chunks_ok mode s bs" "shape_validate s = Ok ()" "k < length bs"
  shows "0 < length (bs ! k)" "length (bs ! k) \<le> unat (chunk_bytes s)" "length (bs ! k) < 2 ^ 32"
    "k div unat (stream_slots s) + 1 < 2 ^ 32" "length (concat (take k bs)) + length (bs ! k) \<le> unat (total_bytes s)"
proof -
  show "0 < length (bs ! k)" "length (bs ! k) \<le> unat (chunk_bytes s)" "k div unat (stream_slots s) + 1 < 2 ^ 32"
    using assms(1,3) by (auto simp: chunks_ok_def)
  then show "length (bs ! k) < 2 ^ 32" using assms(2) by (simp add: shape_validate_Ok)
  have "concat bs = concat (take k bs) @ bs ! k @ concat (drop (Suc k) bs)"
    using assms(3) by (metis concat.simps(2) concat_append id_take_nth_drop)
  then show "length (concat (take k bs)) + length (bs ! k) \<le> unat (total_bytes s)"
    using assms(1) by (simp add: chunks_ok_def)
qed

lemma length_concat_ge: "(\<forall>k < length bs. 0 < length (bs ! k)) \<Longrightarrow> length bs \<le> length (concat bs)"
proof (induction bs)
  case (Cons b bs)
  then have "0 < length b" "\<forall>k < length bs. 0 < length (bs ! k)" by (auto simp: All_less_Suc2)
  moreover from calculation have "length bs \<le> length (concat bs)" using Cons.IH by blast
  ultimately have "Suc (length bs) \<le> length b + length (concat bs)" by linarith
  then show ?case by simp
qed simp

lemma chunks_ok_count: "chunks_ok mode s bs \<Longrightarrow> length bs < 2 ^ 64"
  using length_concat_ge [of bs] unsigned_less [where ?'a = nat, of "total_bytes s"] by (simp add: chunks_ok_def)

lemma chunks_ok_offset:
  assumes "chunks_ok Exact s bs" "k \<le> length bs"
  shows "length (concat (take k bs)) = min (k * unat (chunk_bytes s)) (unat (total_bytes s))"
  using assms(2)
proof (induction k)
  case (Suc k)
  then have "length (bs ! k) = min (unat (total_bytes s) - k * unat (chunk_bytes s)) (unat (chunk_bytes s))"
    using assms(1) by (simp add: chunks_ok_def)
  then show ?case using Suc by (simp add: take_Suc_conv_app_nth)
qed simp

lemma unat_chunk_index: "k < 2 ^ 64 \<Longrightarrow> unat (of_nat k mod s :: u64) = k mod unat s" "k < 2 ^ 64 \<Longrightarrow> unat (of_nat k div s :: u64) = k div unat s"
  by (simp_all add: unat_mod unat_div unat_of_nat_usize)

lemma of_nat_mod_word: "k < 2 ^ 64 \<Longrightarrow> (of_nat k mod s :: u64) = of_nat (k mod unat s)"
  using unat_chunk_index(1) [of k s] by (metis of_nat_unat ucast_id)

lemma generation_of_Ok:
  assumes "k < 2 ^ 64" "k div unat (stream_slots s) + 1 < 2 ^ 32"
  shows "generation_of s (of_nat k) = Ok (of_nat (k div unat (stream_slots s) + 1))"
proof -
  have "of_nat k div stream_slots s = of_nat (k div unat (stream_slots s))"
    using unat_chunk_index(2) [OF assms(1), of "stream_slots s"] by (metis of_nat_unat ucast_id)
  then have g: "of_nat k div stream_slots s + 1 = (of_nat (k div unat (stream_slots s) + 1) :: u64)" by (simp add: add.commute)
  have "unat (of_nat (k div unat (stream_slots s) + 1) :: u64) = k div unat (stream_slots s) + 1"
    using assms(2) by (intro unat_of_nat_usize) simp
  then show ?thesis using assms(2)
    unfolding generation_of_def Let_def g
    by (simp add: word_le_nat_alt U32_MAX_def ucast_of_nat_down del: of_nat_Suc of_nat_add)
qed

lemma exact_meta:
  assumes "chunks_ok Exact s bs" "shape_validate s = Ok ()" "k < length bs"
  shows "chunk_meta s (of_nat k) = Ok (of_nat (length (concat (take k bs))), of_nat (length (bs ! k)),
           of_nat (k mod unat (stream_slots s)), of_nat (k div unat (stream_slots s) + 1))"
proof -
  have k: "k < unat (chunks s)" using assms(1,3) by (simp add: chunks_ok_def)
  have "chunk_bytes s \<noteq> 0" using assms(2) by (auto simp: shape_validate_Ok unat_gt_0)
  then have "k * unat (chunk_bytes s) < unat (total_bytes s)" using k less_div_ceil by (simp add: chunks_def)
  then have "length (concat (take k bs)) = k * unat (chunk_bytes s)" using chunks_ok_offset [OF assms(1)] assms(3) by simp
  moreover have "length (bs ! k) = min (unat (total_bytes s) - k * unat (chunk_bytes s)) (unat (chunk_bytes s))"
    using assms(1,3) by (simp add: chunks_ok_def)
  ultimately show ?thesis using chunk_meta_Ok [OF assms(2) k] by simp
qed

lemma within_ceiling_dframe:
  assumes "chunks_ok mode (shape ss) bs" "shape_validate (shape ss) = Ok ()" "k < length bs"
  shows "within_ceiling (shape ss) (foffset (dframe ss bs k)) (flen (dframe ss bs k))"
proof -
  note b = chunks_ok_bounds [OF assms]
  have T: "unat (total_bytes (shape ss)) < 2 ^ 64" using unsigned_less [where ?'a = nat, of "total_bytes (shape ss)"] by simp
  have o: "unat (of_nat (length (concat (take k bs))) :: u64) = length (concat (take k bs))"
    by (rule unat_of_nat_usize) (use b T in linarith)
  have l: "unat (of_nat (length (bs ! k)) :: u64) = length (bs ! k)"
    by (rule unat_of_nat_usize) (use b T in linarith)
  have u: "(ucast (of_nat (length (bs ! k)) :: u32) :: u64) = of_nat (length (bs ! k))" by (rule ucast_of_nat_up) (rule b)
  have s: "unat ((of_nat (length (concat (take k bs))) + of_nat (length (bs ! k))) :: u64) = length (concat (take k bs)) + length (bs ! k)"
    unfolding of_nat_add [symmetric] by (rule unat_of_nat_usize) (use b T in linarith)
  show ?thesis
    unfolding within_ceiling_def dframe_def Frame.simps u checked_add_def o l
    using b(5) T s by (simp add: word_le_nat_alt)
qed

section \<open>The invariant of a direction\<close>

definition dlog :: "Session \<Rightarrow> u8 list list \<Rightarrow> nat \<Rightarrow> bool \<Rightarrow> Frame list" where
  "dlog ss bs n fin = map (dframe ss bs) [0..<n] @ (if fin then [cframe ss bs] else [])"

definition rlog :: "Session \<Rightarrow> u8 list list \<Rightarrow> nat \<Rightarrow> bool \<Rightarrow> Frame list" where
  "rlog ss bs x ack = map (\<lambda>k. (dframe ss bs k)\<lparr>fkind := KReleased\<rparr>) [0..<x] @ (if ack then [cframe ss bs] else [])"

text \<open>
  The shared memory, with ghosts: \<open>g_bs\<close> the chunks that have been filled, \<open>g_n\<close> data frames and possibly (\<open>g_fin\<close>)
  the completion pushed, \<open>g_x\<close> releases and possibly (\<open>g_ack\<close>) the acknowledgement pushed, \<open>g_hd\<close>, \<open>g_hr\<close> frames
  taken from either ring. A chunk that has not been taken back still fills its slot.
\<close>

record Ghost =
  g_bs :: "u8 list list"
  g_n :: nat
  g_fin :: bool
  g_x :: nat
  g_ack :: bool
  g_hd :: nat
  g_hr :: nat

abbreviation nslots :: "Session \<Rightarrow> nat" where "nslots ss \<equiv> unat (stream_slots (shape ss))"
abbreviation nchunk :: "Session \<Rightarrow> nat" where "nchunk ss \<equiv> unat (chunk_bytes (shape ss))"
abbreviation ntotal :: "Session \<Rightarrow> nat" where "ntotal ss \<equiv> unat (total_bytes (shape ss))"

definition slots_ok :: "Session \<Rightarrow> Arena \<Rightarrow> u8 list list \<Rightarrow> nat \<Rightarrow> bool" where
  "slots_ok ss a bs h \<longleftrightarrow>
     arena_slots a = stream_slots (shape ss) \<and> slot_len a = chunk_bytes (shape ss)
     \<and> length (payload a) = nslots ss \<and> (\<forall>i < nslots ss. length (payload a ! i) = nchunk ss) \<and> length bs \<le> h + nslots ss
     \<and> (\<forall>k. h \<le> k \<longrightarrow> k < length bs \<longrightarrow> take (length (bs ! k)) (payload a ! (k mod nslots ss)) = bs ! k)"

definition mem_inv :: "Mode \<Rightarrow> Session \<Rightarrow> Ghost \<Rightarrow> Arena \<Rightarrow> Arena \<Rightarrow> bool" where
  "mem_inv mode ss g d r \<longleftrightarrow>
     shape_validate (shape ss) = Ok () \<and> chunks_ok mode (shape ss) (g_bs g)
     \<and> arena_rep d (dlog ss (g_bs g) (g_n g) (g_fin g)) (g_hd g) \<and> arena_rep r (rlog ss (g_bs g) (g_x g) (g_ack g)) (g_hr g)
     \<and> 2 * nslots ss + 2 \<le> unat (arena_capacity d) \<and> 2 * nslots ss + 2 \<le> unat (arena_capacity r)
     \<and> slots_ok ss d (g_bs g) (g_hr g)
     \<and> g_n g \<le> length (g_bs g) \<and> length (g_bs g) \<le> Suc (g_n g) \<and> g_x g \<le> g_n g \<and> g_x g \<le> g_hd g \<and> g_hd g \<le> Suc (g_x g)
     \<and> (g_fin g \<longrightarrow> g_n g = length (g_bs g)) \<and> (g_ack g \<longrightarrow> g_fin g \<and> g_x g = g_n g)"

definition more_due :: "Mode \<Rightarrow> Session \<Rightarrow> u8 list list \<Rightarrow> bool" where
  "more_due mode ss bs = (case mode of Exact \<Rightarrow> length bs < unat (chunks (shape ss)) | ToEnd \<Rightarrow> length (concat bs) < ntotal ss)"

definition whole :: "Mode \<Rightarrow> Session \<Rightarrow> ReadEvent list \<Rightarrow> u8 list list \<Rightarrow> ReadEvent list \<Rightarrow> bool" where
  "whole mode ss source bs rest = (case mode of Exact \<Rightarrow> length bs = unat (chunks (shape ss)) | ToEnd \<Rightarrow> steady source \<longrightarrow> rest = [])"

text \<open>What holds of the chunks once the completion has been pushed, whatever happens to the producer later.\<close>

definition settled :: "Mode \<Rightarrow> Session \<Rightarrow> ReadEvent list \<Rightarrow> u8 list list \<Rightarrow> bool" where
  "settled mode ss source bs =
     (case mode of Exact \<Rightarrow> length bs = unat (chunks (shape ss)) | ToEnd \<Rightarrow> steady source \<longrightarrow> source_bytes source = concat bs)"

definition p_vars :: "Session \<Rightarrow> ReadEvent list \<Rightarrow> Ghost \<Rightarrow> Produce \<Rightarrow> bool" where
  "p_vars ss source g p \<longleftrightarrow>
     p_chunks p = of_nat (g_n g) \<and> p_released p = of_nat (min (g_hr g) (g_n g)) \<and> p_aggregate p = agg ss (g_bs g)
     \<and> p_total p = of_nat (length (concat (take (g_n g) (g_bs g))))
     \<and> source_bytes source = concat (g_bs g) @ source_bytes (reader p)
     \<and> source_errors (reader p) \<subseteq> source_errors source \<and> (steady source \<longrightarrow> steady (reader p))"

definition report_of :: "Session \<Rightarrow> u8 list list \<Rightarrow> u64 \<times> u64 \<times> u64" where
  "report_of ss bs = (agg ss bs, of_nat (length (concat bs)), of_nat (length bs))"

definition p_inv :: "Mode \<Rightarrow> Session \<Rightarrow> IoError set \<Rightarrow> ReadEvent list \<Rightarrow> Ghost \<Rightarrow> Produce \<Rightarrow> bool" where
  "p_inv mode ss E source g p \<longleftrightarrow>
     (\<exists>rest. source_bytes source = concat (g_bs g) @ rest) \<and> (g_fin g \<longrightarrow> settled mode ss source (g_bs g)) \<and>
     (case p_pc p of
        PLoop \<Rightarrow> p_vars ss source g p \<and> g_n g = length (g_bs g) \<and> \<not> g_fin g \<and> g_hr g = g_n g - nslots ss
      | PRelease \<Rightarrow> p_vars ss source g p \<and> g_n g = length (g_bs g) \<and> \<not> g_fin g \<and> g_hr g = g_n g - nslots ss \<and> nslots ss \<le> g_n g \<and> more_due mode ss (g_bs g)
      | PFill \<Rightarrow> p_vars ss source g p \<and> g_n g = length (g_bs g) \<and> \<not> g_fin g \<and> g_hr g = Suc (g_n g) - nslots ss \<and> more_due mode ss (g_bs g)
      | PPush f \<Rightarrow> p_vars ss source g p \<and> length (g_bs g) = Suc (g_n g) \<and> \<not> g_fin g \<and> g_hr g = Suc (g_n g) - nslots ss \<and> f = dframe ss (g_bs g) (g_n g)
      | PDrain \<Rightarrow> p_vars ss source g p \<and> g_n g = length (g_bs g) \<and> \<not> g_fin g \<and> g_hr g \<le> g_n g \<and> whole mode ss source (g_bs g) (reader p)
      | PComplete \<Rightarrow> p_vars ss source g p \<and> g_n g = length (g_bs g) \<and> \<not> g_fin g \<and> g_hr g = g_n g \<and> whole mode ss source (g_bs g) (reader p)
      | PAck \<Rightarrow> p_vars ss source g p \<and> g_n g = length (g_bs g) \<and> g_fin g \<and> g_hr g = g_n g \<and> whole mode ss source (g_bs g) (reader p)
      | PReturn r \<Rightarrow> (case r of Err e \<Rightarrow> e \<in> E
           | Ok rep \<Rightarrow> p_vars ss source g p \<and> g_ack g \<and> whole mode ss source (g_bs g) (reader p) \<and> rep = report_of ss (g_bs g)))"

definition c_vars :: "Session \<Rightarrow> Ghost \<Rightarrow> nat \<Rightarrow> Consume \<Rightarrow> bool" where
  "c_vars ss g y c \<longleftrightarrow>
     y \<le> g_n g \<and> c_chunks c = of_nat y \<and> sink c = concat (take y (g_bs g)) \<and> c_total c = of_nat (length (sink c))
     \<and> c_aggregate c = agg ss (take y (g_bs g))"

definition c_inv :: "Session \<Rightarrow> IoError set \<Rightarrow> Ghost \<Rightarrow> Consume \<Rightarrow> bool" where
  "c_inv ss E g c \<longleftrightarrow>
     (case c_pc c of
        CPop \<Rightarrow> c_vars ss g (g_x g) c \<and> g_hd g = g_x g \<and> \<not> g_ack g
      | CValidate f \<Rightarrow> c_vars ss g (g_x g) c \<and> g_hd g = Suc (g_x g) \<and> g_x g < g_n g \<and> f = dframe ss (g_bs g) (g_x g) \<and> \<not> g_ack g
      | CWrite f \<Rightarrow> c_vars ss g (g_x g) c \<and> g_hd g = Suc (g_x g) \<and> g_x g < g_n g \<and> f = dframe ss (g_bs g) (g_x g) \<and> \<not> g_ack g
      | CRelease f \<Rightarrow> c_vars ss g (Suc (g_x g)) c \<and> g_hd g = Suc (g_x g) \<and> g_x g < g_n g \<and> f = dframe ss (g_bs g) (g_x g) \<and> \<not> g_ack g
      | CAck f \<Rightarrow> c_vars ss g (g_x g) c \<and> g_hd g = Suc (g_x g) \<and> g_fin g \<and> g_x g = g_n g \<and> f = cframe ss (g_bs g) \<and> \<not> g_ack g
      | CReturn r \<Rightarrow> (case r of Err e \<Rightarrow> e \<in> E \<and> (\<exists>rest. concat (g_bs g) = sink c @ rest) \<and> (g_ack g \<longrightarrow> sink c = concat (g_bs g))
           | Ok rep \<Rightarrow> c_vars ss g (g_x g) c \<and> g_ack g \<and> rep = report_of ss (g_bs g)))"

definition stream_inv :: "Mode \<Rightarrow> Session \<Rightarrow> IoError set \<Rightarrow> ReadEvent list \<Rightarrow> Stream \<Rightarrow> Ghost \<Rightarrow> bool" where
  "stream_inv mode ss E source st g \<longleftrightarrow>
     mem_inv mode ss g (data st) (releases st) \<and> p_inv mode ss E source g (producing st) \<and> c_inv ss E g (consuming st)"

definition env_errors :: "Env \<Rightarrow> IoError set" where
  "env_errors env = set_option (wait_error env) \<union> set_option (notify_error env) \<union> snd ` set_option (write_error env)"

section \<open>Ring operations under the invariant\<close>

definition same_slots :: "Arena \<Rightarrow> Arena \<Rightarrow> bool" where
  "same_slots a a' \<longleftrightarrow> payload a' = payload a \<and> arena_slots a' = arena_slots a \<and> slot_len a' = slot_len a \<and> arena_capacity a' = arena_capacity a"

lemma arena_pop_cases:
  assumes "arena_rep a log h" "env_errors env \<subseteq> E"
  obtains "arena_pop env a = Spinning" "h = length log" "wait_error env = None"
  | a' e h' where "arena_pop env a = Done (a', Err e)" "e \<in> E" "arena_rep a' log h'" "h \<le> h'" "h' \<le> Suc h" "same_slots a a'"
  | a' where "arena_pop env a = Done (a', Ok (log ! h))" "h < length log" "arena_rep a' log (Suc h)" "same_slots a a'"
proof (cases "h < length log")
  case True
  from arena_pop_ready [OF assms(1) True, of env] obtain a' where
    a: "arena_pop env a = Done (a', and_then (outcome (notify_error env)) (\<lambda>_. Ok (log ! h)))" "arena_rep a' log (Suc h)" "same_slots a a'"
    by (auto simp: same_slots_def)
  show ?thesis
  proof (cases "notify_error env")
    case None
    then show ?thesis using a True that(3) [of a'] by (simp add: outcome_def)
  next
    case (Some e)
    then have "e \<in> E" using assms(2) by (auto simp: env_errors_def)
    then show ?thesis using a Some that(2) [of a' e "Suc h"] by (simp add: outcome_def)
  qed
next
  case False
  then have h: "h = length log" using assms(1) by (simp add: arena_rep_def)
  show ?thesis
  proof (cases "wait_error env")
    case None
    then show ?thesis using arena_pop_empty [of a log env] assms(1) h that(1) by simp
  next
    case (Some e)
    then have "e \<in> E" using assms(2) by (auto simp: env_errors_def)
    then show ?thesis using arena_pop_empty [of a log env] assms(1) h Some that(2) [of a e h] by (simp add: same_slots_def)
  qed
qed

lemma arena_push_cases:
  assumes "arena_rep a log h" "env_errors env \<subseteq> E" "length log < h + unat (arena_capacity a)"
  obtains a' e where "arena_push env f a = Done (a', Err e)" "e \<in> E" "arena_rep a' (log @ [f]) h" "same_slots a a'"
  | a' where "arena_push env f a = Done (a', Ok ())" "arena_rep a' (log @ [f]) h" "same_slots a a'"
proof -
  from arena_push_room [OF assms(1,3), of env f] obtain a' where
    a: "arena_push env f a = Done (a', outcome (notify_error env))" "arena_rep a' (log @ [f]) h" "same_slots a a'"
    by (auto simp: same_slots_def)
  show ?thesis
  proof (cases "notify_error env")
    case None
    then show ?thesis using a that(2) [of a'] by (simp add: outcome_def)
  next
    case (Some e)
    then have "e \<in> E" using assms(2) by (auto simp: env_errors_def)
    then show ?thesis using a Some that(1) [of a' e] by (simp add: outcome_def)
  qed
qed

lemma dlog_length [simp]: "length (dlog ss b m f) = m + (if f then 1 else 0)"
  by (simp add: dlog_def)

lemma rlog_length [simp]: "length (rlog ss b m f) = m + (if f then 1 else 0)"
  by (simp add: rlog_def)

lemma dlog_nth: "k < m \<Longrightarrow> dlog ss b m f ! k = dframe ss b k" "dlog ss b m True ! m = cframe ss b"
  by (simp_all add: dlog_def nth_append)

lemma rlog_nth: "k < m \<Longrightarrow> rlog ss b m f ! k = (dframe ss b k)\<lparr>fkind := KReleased\<rparr>" "rlog ss b m True ! m = cframe ss b"
  by (simp_all add: rlog_def nth_append)

lemma dlog_grow:
  "dlog ss b m False @ [dframe ss b m] = dlog ss b (Suc m) False" "dlog ss b m False @ [cframe ss b] = dlog ss b m True"
  by (simp_all add: dlog_def)

lemma rlog_grow:
  "rlog ss b m False @ [(dframe ss b m)\<lparr>fkind := KReleased\<rparr>] = rlog ss b (Suc m) False" "rlog ss b m False @ [cframe ss b] = rlog ss b m True"
  by (simp_all add: rlog_def)

lemma dlog_snoc: "m \<le> length b \<Longrightarrow> dlog ss (b @ [c]) m False = dlog ss b m False"
  by (auto simp: dlog_def dframe_snoc)

lemma rlog_snoc: "m \<le> length b \<Longrightarrow> rlog ss (b @ [c]) m False = rlog ss b m False"
  by (auto simp: rlog_def dframe_snoc)

text \<open>Neither ring is ever full: at most one window of chunks and a completion are outstanding.\<close>

lemma mem_inv_room:
  assumes "mem_inv mode ss g d r"
  shows "length (dlog ss (g_bs g) (g_n g) (g_fin g)) < g_hd g + unat (arena_capacity d)"
    and "length (rlog ss (g_bs g) (g_x g) (g_ack g)) < g_hr g + unat (arena_capacity r)"
proof -
  have m: "length (g_bs g) \<le> g_hr g + nslots ss" "g_n g \<le> length (g_bs g)" "g_x g \<le> g_hd g" "g_x g \<le> g_n g"
    "g_hr g \<le> g_x g + 1" "0 < nslots ss" "2 * nslots ss + 2 \<le> unat (arena_capacity d)" "2 * nslots ss + 2 \<le> unat (arena_capacity r)"
    using assms by (auto simp: mem_inv_def slots_ok_def arena_rep_def shape_validate_Ok split: if_splits)
  have "(if g_fin g then 1 else 0) \<le> (1::nat)" "(if g_ack g then 1 else 0) \<le> (1::nat)" by auto
  then show "length (dlog ss (g_bs g) (g_n g) (g_fin g)) < g_hd g + unat (arena_capacity d)"
    "length (rlog ss (g_bs g) (g_x g) (g_ack g)) < g_hr g + unat (arena_capacity r)"
    using m by (simp_all only: dlog_length rlog_length)
qed

section \<open>Steps of the producer\<close>

text \<open>What a producer step has to leave behind: both invariants for some ghosts, and the consumer undisturbed.\<close>

definition p_next :: "Mode \<Rightarrow> Session \<Rightarrow> IoError set \<Rightarrow> ReadEvent list \<Rightarrow> Ghost \<Rightarrow> Arena \<times> Arena \<times> Produce \<Rightarrow> bool" where
  "p_next mode ss E source g s \<longleftrightarrow> (case s of (d, r, p) \<Rightarrow>
     \<exists>g'. mem_inv mode ss g' d r \<and> p_inv mode ss E source g' p \<and> (\<forall>c. c_inv ss E g c \<longrightarrow> c_inv ss E g' c))"

lemma p_nextI:
  "mem_inv mode ss g' d r \<Longrightarrow> p_inv mode ss E source g' p \<Longrightarrow> (\<And>c. c_inv ss E g c \<Longrightarrow> c_inv ss E g' c)
    \<Longrightarrow> p_next mode ss E source g (d, r, p)"
  by (auto simp: p_next_def)

lemma p_inv_fail:
  "p_inv mode ss E source g p \<Longrightarrow> e \<in> E \<Longrightarrow> g_bs g' = g_bs g \<Longrightarrow> (g_fin g' \<Longrightarrow> g_fin g \<or> settled mode ss source (g_bs g))
    \<Longrightarrow> p_inv mode ss E source g' (p_fail e q)"
  by (auto simp: p_inv_def p_fail_def)

lemma p_inv_fail_hr: "p_inv mode ss E source g p \<Longrightarrow> e \<in> E \<Longrightarrow> p_inv mode ss E source (g\<lparr>g_hr := h\<rparr>) (p_fail e q)"
  by (rule p_inv_fail) auto

lemma c_inv_hr: "c_inv ss E g c \<Longrightarrow> c_inv ss E (g\<lparr>g_hr := h\<rparr>) c"
  by (simp add: c_inv_def c_vars_def split: ConsumePc.splits Result.splits)

lemma c_inv_n:
  assumes "c_inv ss E g c" "\<not> g_fin g" "g_ack g \<longrightarrow> g_fin g"
  shows "c_inv ss E (g\<lparr>g_n := Suc (g_n g)\<rparr>) c"
  using assms by (auto simp: c_inv_def c_vars_def split: ConsumePc.splits Result.splits)

lemma c_inv_fin: "c_inv ss E g c \<Longrightarrow> c_inv ss E (g\<lparr>g_fin := True\<rparr>) c"
  by (auto simp: c_inv_def c_vars_def split: ConsumePc.splits Result.splits)

lemma c_inv_bs:
  assumes "c_inv ss E g c" "\<not> g_fin g" "g_ack g \<longrightarrow> g_fin g" "g_n g \<le> length (g_bs g)"
  shows "c_inv ss E (g\<lparr>g_bs := g_bs g @ [b]\<rparr>) c"
  using assms by (auto simp: c_inv_def c_vars_def dframe_snoc split: ConsumePc.splits Result.splits)

lemma mem_inv_pop_release:
  assumes "mem_inv mode ss g d r" "arena_rep r' (rlog ss (g_bs g) (g_x g) (g_ack g)) h" "g_hr g \<le> h" "same_slots r r'"
  shows "mem_inv mode ss (g\<lparr>g_hr := h\<rparr>) d r'"
  using assms by (auto simp: mem_inv_def same_slots_def slots_ok_def)

lemma mem_inv_push_chunk:
  assumes "mem_inv mode ss g d r" "\<not> g_fin g" "length (g_bs g) = Suc (g_n g)"
    "arena_rep d' (dlog ss (g_bs g) (g_n g) (g_fin g) @ [dframe ss (g_bs g) (g_n g)]) (g_hd g)" "same_slots d d'"
  shows "mem_inv mode ss (g\<lparr>g_n := Suc (g_n g)\<rparr>) d' r"
  using assms by (auto simp: mem_inv_def same_slots_def slots_ok_def dlog_grow)

lemma mem_inv_push_complete:
  assumes "mem_inv mode ss g d r" "\<not> g_fin g" "length (g_bs g) = g_n g"
    "arena_rep d' (dlog ss (g_bs g) (g_n g) (g_fin g) @ [cframe ss (g_bs g)]) (g_hd g)" "same_slots d d'"
  shows "mem_inv mode ss (g\<lparr>g_fin := True\<rparr>) d' r"
  using assms by (auto simp: mem_inv_def same_slots_def slots_ok_def dlog_grow)

lemma mem_inv_unfinished:
  "mem_inv mode ss g d r \<Longrightarrow> \<not> g_fin g \<Longrightarrow> \<not> g_ack g"
  "mem_inv mode ss g d r \<Longrightarrow> \<not> g_fin g \<Longrightarrow> g_hr g \<le> g_x g"
  by (auto simp: mem_inv_def arena_rep_def split: if_splits)

text \<open>The release of every chunk passes the validator of its loop.\<close>

definition release_validator :: "Mode \<Rightarrow> Frame \<Rightarrow> u64 \<Rightarrow> Session \<Rightarrow> (unit, IoError) Result" where
  "release_validator mode = (case mode of Exact \<Rightarrow> validate_release | ToEnd \<Rightarrow> validate_dynamic_release)"

lemma release_valid:
  assumes "chunks_ok mode (shape ss) b" "shape_validate (shape ss) = Ok ()" "k < length b"
  shows "release_validator mode ((dframe ss b k)\<lparr>fkind := KReleased\<rparr>) (of_nat k) ss = Ok ()"
proof (cases mode)
  case Exact
  then show ?thesis using exact_meta [of "shape ss" b k] assms
    by (simp add: release_validator_def validate_release_def dframe_def ucast_of_nat_down)
next
  case ToEnd
  note b = chunks_ok_bounds [OF assms]
  have k: "k < 2 ^ 64" using chunks_ok_count [OF assms(1)] assms(3) by simp
  have "flen (dframe ss b k) > 0" using b(1,3) by (simp add: dframe_def word_less_nat_alt unat_of_nat)
  moreover have "ucast (flen (dframe ss b k)) \<le> chunk_bytes (shape ss)"
    using b(2,3) by (simp add: dframe_def ucast_of_nat_up word_le_nat_alt unat_of_nat_usize)
  moreover note within_ceiling_dframe [OF assms]
  ultimately show ?thesis
    using generation_of_Ok [OF k b(4)] of_nat_mod_word [OF k, of "stream_slots (shape ss)"] ToEnd
    by (simp add: release_validator_def validate_dynamic_release_def dframe_def ucast_of_nat_down)
qed

lemma take_release_next:
  assumes mem: "mem_inv mode ss g d r" and p: "p_inv mode ss E source g p" and env: "env_errors env \<subseteq> E"
    and vars: "p_vars ss source g p" and unf: "\<not> g_fin g" and lt: "g_hr g < g_n g"
    and ok: "p_inv mode ss E source (g\<lparr>g_hr := Suc (g_hr g)\<rparr>) (p\<lparr>p_released := of_nat (Suc (g_hr g)), p_pc := pc\<rparr>)"
  shows "p_next mode ss E source g (take_release (release_validator mode) ss env pc (d, r, p))"
proof -
  have rep: "arena_rep r (rlog ss (g_bs g) (g_x g) (g_ack g)) (g_hr g)" using mem by (simp add: mem_inv_def)
  have rel: "p_released p = of_nat (g_hr g)" using vars lt by (simp add: p_vars_def min_def)
  from arena_pop_cases [OF rep env] show ?thesis
  proof cases
    case 1
    then show ?thesis using mem p by (auto simp: take_release_def intro: p_nextI)
  next
    case (2 r' e h')
    then show ?thesis
      using mem_inv_pop_release [OF mem 2(3,4,6)] p_inv_fail_hr [OF p 2(2)] c_inv_hr
      by (auto simp: take_release_def intro!: p_nextI [of _ _ "g\<lparr>g_hr := h'\<rparr>"])
  next
    case (3 r')
    have x: "g_hr g < g_x g" using 3(2) mem_inv_unfinished [OF mem unf] by simp
    have "release_validator mode (rlog ss (g_bs g) (g_x g) (g_ack g) ! g_hr g) (of_nat (g_hr g)) ss = Ok ()"
      unfolding rlog_nth(1) [OF x] by (rule release_valid) (use mem x in \<open>auto simp: mem_inv_def\<close>)
    then show ?thesis
      using 3 rel ok mem_inv_pop_release [OF mem 3(3) _ 3(4)] c_inv_hr
      by (auto simp: take_release_def add.commute intro!: p_nextI [of _ _ "g\<lparr>g_hr := Suc (g_hr g)\<rparr>"])
  qed
qed

lemma push_data_next:
  assumes mem: "mem_inv mode ss g d r" and p: "p_inv mode ss E source g p" and env: "env_errors env \<subseteq> E"
    and push: "\<And>d'. arena_rep d' (dlog ss (g_bs g) (g_n g) (g_fin g) @ [f]) (g_hd g) \<Longrightarrow> same_slots d d' \<Longrightarrow> mem_inv mode ss g' d' r"
    and ok: "p_inv mode ss E source g' (k p)" and bs: "g_bs g' = g_bs g"
    and fin: "g_fin g' \<Longrightarrow> g_fin g \<or> settled mode ss source (g_bs g)"
    and c: "\<And>c. c_inv ss E g c \<Longrightarrow> c_inv ss E g' c"
  shows "p_next mode ss E source g (push_data env f k (d, r, p))"
proof -
  have rep: "arena_rep d (dlog ss (g_bs g) (g_n g) (g_fin g)) (g_hd g)" using mem by (simp add: mem_inv_def)
  from arena_push_cases [OF rep env mem_inv_room(1) [OF mem], of f] show ?thesis
  proof cases
    case (1 d' e)
    then show ?thesis using push p_inv_fail [OF p 1(2) bs fin] c by (auto simp: push_data_def intro!: p_nextI [of _ _ g'])
  next
    case (2 d')
    then show ?thesis using push ok c by (auto simp: push_data_def intro!: p_nextI [of _ _ g'])
  qed
qed

lemma p_push_next:
  assumes mem: "mem_inv mode ss g d r" and p: "p_inv mode ss E source g p" and env: "env_errors env \<subseteq> E" and pc: "p_pc p = PPush f"
  shows "p_next mode ss E source g (push_data env f
     (\<lambda>p. p\<lparr>p_total := p_total p + ucast (flen f), p_chunks := p_chunks p + 1, p_pc := PLoop\<rparr>) (d, r, p))"
proof -
  have v: "p_vars ss source g p" "length (g_bs g) = Suc (g_n g)" "\<not> g_fin g" "g_hr g = Suc (g_n g) - nslots ss" "f = dframe ss (g_bs g) (g_n g)"
    using p pc by (auto simp: p_inv_def)
  have S: "0 < nslots ss" and ch: "chunks_ok mode (shape ss) (g_bs g)" "shape_validate (shape ss) = Ok ()"
    using mem by (auto simp: mem_inv_def shape_validate_Ok)
  have len: "ucast (flen f) = (of_nat (length (g_bs g ! g_n g)) :: u64)"
    using chunks_ok_bounds(3) [OF ch, of "g_n g"] v by (simp add: dframe_def ucast_of_nat_up)
  have tk: "take (Suc (g_n g)) (g_bs g) = take (g_n g) (g_bs g) @ [g_bs g ! g_n g]"
    by (rule take_Suc_conv_app_nth) (simp add: v(2))
  have hr: "min (g_hr g) (g_n g) = g_hr g" "min (g_hr g) (Suc (g_n g)) = g_hr g" using v(4) S by auto
  have "p_inv mode ss E source (g\<lparr>g_n := Suc (g_n g)\<rparr>) (p\<lparr>p_total := p_total p + ucast (flen f), p_chunks := p_chunks p + 1, p_pc := PLoop\<rparr>)"
    using p v(1,3,4) by (simp add: p_inv_def p_vars_def len tk hr [unfolded v(4)] v(2) add.commute)
  moreover have "c_inv ss E (g\<lparr>g_n := Suc (g_n g)\<rparr>) c" if "c_inv ss E g c" for c
    using that v(3) mem by (intro c_inv_n) (auto simp: mem_inv_def)
  ultimately show ?thesis
    using v(2,3,5) by (intro push_data_next [OF mem p env, of _ "g\<lparr>g_n := Suc (g_n g)\<rparr>"]) (auto intro: mem_inv_push_chunk [OF mem])
qed

lemma exact_whole:
  assumes "chunks_ok Exact s b" "shape_validate s = Ok ()" "length b = unat (chunks s)"
  shows "length (concat b) = unat (total_bytes s)"
proof -
  have "chunk_bytes s \<noteq> 0" using assms(2) by (auto simp: shape_validate_Ok unat_gt_0)
  then have "\<not> length b * unat (chunk_bytes s) < unat (total_bytes s)"
    using less_div_ceil [of "chunk_bytes s" "length b" "total_bytes s"] assms(3) by (simp add: chunks_def)
  then show ?thesis using chunks_ok_offset [OF assms(1), of "length b"] by simp
qed

definition sent_total :: "Mode \<Rightarrow> Session \<Rightarrow> Produce \<Rightarrow> u64" where
  "sent_total mode ss p = (case mode of Exact \<Rightarrow> total_bytes (shape ss) | ToEnd \<Rightarrow> p_total p)"

definition sent_chunks :: "Mode \<Rightarrow> Session \<Rightarrow> Produce \<Rightarrow> u64" where
  "sent_chunks mode ss p = (case mode of Exact \<Rightarrow> chunks (shape ss) | ToEnd \<Rightarrow> p_chunks p)"

lemma sent_totals:
  assumes "mem_inv mode ss g d r" "p_vars ss source g p" "g_n g = length (g_bs g)" "whole mode ss source (g_bs g) rest"
  shows "sent_total mode ss p = of_nat (length (concat (g_bs g)))" "sent_chunks mode ss p = of_nat (length (g_bs g))"
proof -
  have w: "w = of_nat (unat w)" for w :: u64 by (metis of_nat_unat ucast_id)
  show "sent_total mode ss p = of_nat (length (concat (g_bs g)))"
  proof (cases mode)
    case Exact
    then show ?thesis using exact_whole [of "shape ss" "g_bs g"] assms w by (simp add: sent_total_def mem_inv_def whole_def)
  next
    case ToEnd
    then show ?thesis using assms by (simp add: sent_total_def p_vars_def)
  qed
  show "sent_chunks mode ss p = of_nat (length (g_bs g))"
  proof (cases mode)
    case Exact
    then show ?thesis using assms w by (simp add: sent_chunks_def whole_def)
  next
    case ToEnd
    then show ?thesis using assms by (simp add: sent_chunks_def p_vars_def)
  qed
qed

lemma p_complete_next:
  assumes mem: "mem_inv mode ss g d r" and p: "p_inv mode ss E source g p" and env: "env_errors env \<subseteq> E" and pc: "p_pc p = PComplete"
  shows "p_next mode ss E source g (push_data env (complete_frame ss (sent_total mode ss p) (p_aggregate p)) (\<lambda>p. p\<lparr>p_pc := PAck\<rparr>) (d, r, p))"
proof -
  have v: "p_vars ss source g p" "g_n g = length (g_bs g)" "\<not> g_fin g" "g_hr g = g_n g" "whole mode ss source (g_bs g) (reader p)"
    using p pc by (auto simp: p_inv_def)
  have f: "complete_frame ss (sent_total mode ss p) (p_aggregate p) = cframe ss (g_bs g)"
    using sent_totals(1) [OF mem v(1,2,5)] v(1) by (simp add: cframe_def p_vars_def)
  have st: "settled mode ss source (g_bs g)"
    using v(1,5) by (cases mode) (auto simp: settled_def whole_def p_vars_def)
  then have "p_inv mode ss E source (g\<lparr>g_fin := True\<rparr>) (p\<lparr>p_pc := PAck\<rparr>)"
    using p v by (simp add: p_inv_def p_vars_def)
  then show ?thesis unfolding f
    using v(2,3) st c_inv_fin by (intro push_data_next [OF mem p env, of _ "g\<lparr>g_fin := True\<rparr>"]) (auto intro: mem_inv_push_complete [OF mem])
qed

definition complete_validator :: "Mode \<Rightarrow> Session \<Rightarrow> Frame \<Rightarrow> Produce \<Rightarrow> (unit, IoError) Result" where
  "complete_validator mode ss frame p = (case mode of Exact \<Rightarrow> validate_complete frame ss (p_aggregate p)
     | ToEnd \<Rightarrow> validate_dynamic_complete frame ss (p_total p) (p_aggregate p))"

lemma complete_valid:
  assumes "chunks_ok ToEnd (shape ss) b"
  shows "validate_dynamic_complete (cframe ss b) ss (of_nat (length (concat b))) (agg ss b) = Ok ()"
proof -
  have "length (concat b) \<le> ntotal ss" using assms by (simp add: chunks_ok_def)
  moreover have "ntotal ss < 2 ^ 64" using unsigned_less [where ?'a = nat, of "total_bytes (shape ss)"] by simp
  ultimately have "of_nat (length (concat b)) \<le> total_bytes (shape ss)" by (simp add: word_le_nat_alt unat_of_nat_usize)
  then show ?thesis by (simp add: validate_dynamic_complete_def cframe_def complete_frame_def)
qed

lemma p_ack_next:
  assumes mem: "mem_inv mode ss g d r" and p: "p_inv mode ss E source g p" and env: "env_errors env \<subseteq> E" and pc: "p_pc p = PAck"
  shows "p_next mode ss E source g (take_ack (complete_validator mode ss) env (\<lambda>p. (p_aggregate p, sent_total mode ss p, sent_chunks mode ss p)) (d, r, p))"
proof -
  have v: "p_vars ss source g p" "g_n g = length (g_bs g)" "g_fin g" "g_hr g = g_n g" "whole mode ss source (g_bs g) (reader p)"
    using p pc by (auto simp: p_inv_def)
  note tot = sent_totals [OF mem v(1,2,5)]
  have rep: "arena_rep r (rlog ss (g_bs g) (g_x g) (g_ack g)) (g_hr g)" and xn: "g_x g \<le> g_n g" using mem by (simp_all add: mem_inv_def)
  from arena_pop_cases [OF rep env] show ?thesis
  proof cases
    case 1
    then show ?thesis using mem p by (auto simp: take_ack_def intro: p_nextI)
  next
    case (2 r' e h')
    then show ?thesis
      using mem_inv_pop_release [OF mem 2(3,4,6)] p_inv_fail_hr [OF p 2(2)] c_inv_hr
      by (auto simp: take_ack_def intro!: p_nextI [of _ _ "g\<lparr>g_hr := h'\<rparr>"])
  next
    case (3 r')
    then have ack: "g_ack g" "g_x g = g_n g" using v(4) xn by (auto split: if_splits)
    have "rlog ss (g_bs g) (g_x g) (g_ack g) ! g_hr g = cframe ss (g_bs g)" using ack v(4) by (simp add: rlog_nth)
    moreover have "complete_validator mode ss (cframe ss (g_bs g)) p = Ok ()"
    proof (cases mode)
      case Exact
      then show ?thesis using tot(1) v(1) by (simp add: complete_validator_def validate_complete_def cframe_def complete_frame_def sent_total_def p_vars_def)
    next
      case ToEnd
      then show ?thesis using complete_valid [of ss "g_bs g"] mem v(1,2) by (simp add: complete_validator_def mem_inv_def p_vars_def)
    qed
    moreover have "p_inv mode ss E source (g\<lparr>g_hr := Suc (g_hr g)\<rparr>) (p\<lparr>p_pc := PReturn (Ok (p_aggregate p, sent_total mode ss p, sent_chunks mode ss p))\<rparr>)"
      using p v ack tot by (simp add: p_inv_def p_vars_def report_of_def)
    ultimately show ?thesis
      using 3 mem_inv_pop_release [OF mem 3(3) _ 3(4)] c_inv_hr
      by (auto simp: take_ack_def intro!: p_nextI [of _ _ "g\<lparr>g_hr := Suc (g_hr g)\<rparr>"])
  qed
qed

lemma check_slot_ok:
  assumes "slots_ok ss a b h" "i < nslots ss" "0 < l" "l \<le> nchunk ss"
  shows "check_slot a (of_nat i) (of_nat l) = Ok ()" "unat (of_nat i :: usize) = i" "unat (of_nat l :: usize) = l"
proof -
  have s: "nslots ss < 2 ^ 64" "nchunk ss < 2 ^ 64"
    using unsigned_less [where ?'a = nat, of "stream_slots (shape ss)"] unsigned_less [where ?'a = nat, of "chunk_bytes (shape ss)"] by simp_all
  show i: "unat (of_nat i :: usize) = i" by (rule unat_of_nat_usize) (use assms s in linarith)
  show l: "unat (of_nat l :: usize) = l" by (rule unat_of_nat_usize) (use assms s in linarith)
  have "(of_nat l :: usize) \<noteq> 0" using l assms(3) by (metis unat_0 less_irrefl)
  then show "check_slot a (of_nat i) (of_nat l) = Ok ()"
    using assms i l by (simp add: check_slot_def slots_ok_def word_le_nat_alt word_less_nat_alt)
qed

lemma write_slot_at:
  assumes "slots_ok ss a b h" "i < nslots ss" "0 < l" "l \<le> nchunk ss"
  shows "write_slot (of_nat i) (of_nat l) w a =
    (a\<lparr>payload := (payload a)[i := fst (w (take l (payload a ! i))) @ drop l (payload a ! i)]\<rparr>, snd (w (take l (payload a ! i))))"
  using check_slot_ok [OF assms] by (simp add: write_slot_def Let_def case_prod_beta)

text \<open>Filling the next slot does not disturb a chunk that the peer may still read.\<close>

lemma mem_inv_fill:
  assumes "mem_inv mode ss g d r" "g_n g = length (g_bs g)" "g_hr g = Suc (g_n g) - nslots ss" "length buf = nchunk ss"
  shows "mem_inv mode ss g (d\<lparr>payload := (payload d)[g_n g mod nslots ss := buf]\<rparr>) r"
proof -
  let ?d = "d\<lparr>payload := (payload d)[g_n g mod nslots ss := buf]\<rparr>"
  have s: "slots_ok ss d (g_bs g) (g_hr g)" using assms(1) by (simp add: mem_inv_def)
  have "payload ?d ! (k mod nslots ss) = payload d ! (k mod nslots ss)" if "g_hr g \<le> k" "k < length (g_bs g)" for k
  proof -
    have "k mod nslots ss \<noteq> g_n g mod nslots ss" using that assms(2,3) by (intro mod_neq_of_window) auto
    then show ?thesis by simp
  qed
  moreover have "length (payload ?d ! i) = nchunk ss" if "i < nslots ss" for i
    using that s assms(4) by (cases "i = g_n g mod nslots ss") (auto simp: slots_ok_def)
  ultimately have "slots_ok ss ?d (g_bs g) (g_hr g)" using s by (simp add: slots_ok_def)
  then show ?thesis using assms(1) by (simp add: mem_inv_def arena_rep_def)
qed

lemma mem_inv_filled:
  assumes mem: "mem_inv mode ss g d r" and "g_n g = length (g_bs g)" "g_hr g = Suc (g_n g) - nslots ss" "length buf = nchunk ss"
    and unf: "\<not> g_fin g" and b: "take (length b) buf = b" and ch: "chunks_ok mode (shape ss) (g_bs g @ [b])"
  shows "mem_inv mode ss (g\<lparr>g_bs := g_bs g @ [b]\<rparr>) (d\<lparr>payload := (payload d)[g_n g mod nslots ss := buf]\<rparr>) r"
proof -
  let ?d = "d\<lparr>payload := (payload d)[g_n g mod nslots ss := buf]\<rparr>"
  have m: "mem_inv mode ss g ?d r" by (rule mem_inv_fill) fact+
  have a: "\<not> g_ack g" using mem_inv_unfinished(1) [OF mem unf] .
  have S: "0 < nslots ss" using mem by (simp add: mem_inv_def shape_validate_Ok)
  have s: "slots_ok ss ?d (g_bs g) (g_hr g)" using m by (simp add: mem_inv_def)
  have l: "length (payload d) = nslots ss" using s by (simp add: slots_ok_def)
  have x: "g_x g \<le> length (g_bs g)" using mem assms(2) by (simp add: mem_inv_def)
  have "slots_ok ss ?d (g_bs g @ [b]) (g_hr g)"
    using s b l S assms(2,3) by (auto simp: slots_ok_def nth_append less_Suc_eq)
  then show ?thesis using m ch unf a x assms(2)
    by (simp add: mem_inv_def dlog_snoc rlog_snoc)
qed

lemma dframe_last:
  assumes "length b = m"
  shows "dframe ss (b @ [c]) m = \<lparr>fkind = KData, fflags = flags ss, ftransfer_id = transfer_id ss,
    foffset = of_nat (length (concat b)), fslot = of_nat (m mod nslots ss), fgeneration = of_nat (m div nslots ss + 1),
    flen = of_nat (length c), fchecksum = checksum_scalar c\<rparr>"
  using assms by (auto simp: dframe_def nth_append)

lemma p_fill_done:
  assumes mem: "mem_inv mode ss g d r" and p: "p_inv mode ss E source g p" and pc: "p_pc p = PFill"
    and buf: "length buf = nchunk ss" "take (length b) buf = b" and ch: "chunks_ok mode (shape ss) (g_bs g @ [b])"
    and src: "source_bytes (reader p) = b @ source_bytes rest" "source_errors rest \<subseteq> source_errors (reader p)" "steady (reader p) \<Longrightarrow> steady rest"
    and f: "f = dframe ss (g_bs g @ [b]) (g_n g)"
  shows "p_next mode ss E source g (d\<lparr>payload := (payload d)[g_n g mod nslots ss := buf]\<rparr>, r,
           p\<lparr>reader := rest, p_aggregate := fold_checksum (p_aggregate p) f, p_pc := PPush f\<rparr>)"
proof -
  have v: "p_vars ss source g p" "g_n g = length (g_bs g)" "\<not> g_fin g" "g_hr g = Suc (g_n g) - nslots ss"
    using p pc by (auto simp: p_inv_def)
  have "p_inv mode ss E source (g\<lparr>g_bs := g_bs g @ [b]\<rparr>) (p\<lparr>reader := rest, p_aggregate := fold_checksum (p_aggregate p) f, p_pc := PPush f\<rparr>)"
    using v src f by (auto simp: p_inv_def p_vars_def agg_snoc)
  moreover have "c_inv ss E (g\<lparr>g_bs := g_bs g @ [b]\<rparr>) c" if "c_inv ss E g c" for c
    using that v mem by (intro c_inv_bs) (auto simp: mem_inv_def)
  moreover have "mem_inv mode ss (g\<lparr>g_bs := g_bs g @ [b]\<rparr>) (d\<lparr>payload := (payload d)[g_n g mod nslots ss := buf]\<rparr>) r"
    by (rule mem_inv_filled) fact+
  ultimately show ?thesis by (blast intro: p_nextI)
qed

lemma p_fill_fail:
  assumes mem: "mem_inv mode ss g d r" and p: "p_inv mode ss E source g p" and pc: "p_pc p = PFill"
    and buf: "length buf = nchunk ss" and "e \<in> E"
  shows "p_next mode ss E source g (d\<lparr>payload := (payload d)[g_n g mod nslots ss := buf]\<rparr>, r, p_fail e q)"
proof -
  have "g_n g = length (g_bs g)" "g_hr g = Suc (g_n g) - nslots ss" using p pc by (auto simp: p_inv_def)
  then show ?thesis using mem_inv_fill [OF mem _ _ buf] p_inv_fail [OF p \<open>e \<in> E\<close>, of g q] by (blast intro: p_nextI)
qed

lemma checksum_any: "checksum avx2 b = checksum_scalar b"
  by (simp add: checksum_def checksum_avx2_scalar)

lemma produce_fill_next:
  assumes mem: "mem_inv Exact ss g d r" and p: "p_inv Exact ss E source g p" and pc: "p_pc p = PFill"
    and E: "source_errors source \<subseteq> E" "eof_error \<in> E"
  shows "p_next Exact ss E source g (produce_fill avx2 ss (d, r, p))"
proof -
  have v: "p_vars ss source g p" "g_n g = length (g_bs g)" "g_n g < unat (chunks (shape ss))"
    using p pc by (auto simp: p_inv_def more_due_def)
  have val: "shape_validate (shape ss) = Ok ()" and ch: "chunks_ok Exact (shape ss) (g_bs g)" and sl: "slots_ok ss d (g_bs g) (g_hr g)"
    using mem by (auto simp: mem_inv_def)
  have nz: "chunk_bytes (shape ss) \<noteq> 0" "0 < nslots ss" "0 < nchunk ss" using val by (auto simp: shape_validate_Ok unat_gt_0)
  define l where "l = min (ntotal ss - g_n g * nchunk ss) (nchunk ss)"
  have lt: "g_n g * nchunk ss < ntotal ss" using v(3) less_div_ceil [OF nz(1)] by (simp add: chunks_def)
  have l: "0 < l" "l \<le> nchunk ss" using lt nz by (auto simp: l_def)
  have off: "length (concat (g_bs g)) = g_n g * nchunk ss" using chunks_ok_offset [OF ch, of "g_n g"] lt v(2) by simp
  have meta: "chunk_meta (shape ss) (p_chunks p) = Ok (of_nat (g_n g * nchunk ss), of_nat l, of_nat (g_n g mod nslots ss), of_nat (g_n g div nslots ss + 1))"
    using chunk_meta_Ok [OF val v(3)] v(1) by (simp add: l_def p_vars_def)
  have i: "g_n g mod nslots ss < nslots ss" using nz by simp
  let ?buf = "payload d ! (g_n g mod nslots ss)"
  have bl: "length ?buf = nchunk ss" using sl i by (simp add: slots_ok_def)
  obtain b e rest where rc: "read_chunk l (reader p) = (b, e, rest)" by (metis prod_cases3)
  note rs = read_chunk_spec [OF rc]
  have fl: "length (filled b (take l ?buf) @ drop l ?buf) = nchunk ss" using rs(1) l bl by (simp add: filled_def)
  have re: "source_errors (reader p) \<subseteq> source_errors source" "steady source \<longrightarrow> steady (reader p)" using v(1) by (auto simp: p_vars_def)
  note W = write_slot_at [OF sl i l] check_slot_ok(3) [OF sl i l]
  show ?thesis
  proof (cases "e = None \<and> length b = l")
    case True
    have "checksum avx2 (filled b (take l ?buf)) = checksum_scalar b" using True by (simp add: filled_def checksum_any)
    moreover have "k div nslots ss + 1 < 2 ^ 32" if "k \<le> g_n g" for k
    proof -
      have "unat (div_ceil (chunks (shape ss)) (stream_slots (shape ss))) < 2 ^ 32" using val by (simp add: shape_validate_Ok)
      moreover have "k div nslots ss * nslots ss < unat (chunks (shape ss))" using that v(3) by (meson div_times_less_eq_dividend le_less_trans)
      then have "k div nslots ss < unat (div_ceil (chunks (shape ss)) (stream_slots (shape ss)))"
        using less_div_ceil nz(2) by (metis unat_0 less_irrefl)
      ultimately show ?thesis by linarith
    qed
    then have "chunks_ok Exact (shape ss) (g_bs g @ [b])"
      using ch True l v(2,3) lt off unfolding chunks_ok_def by (auto simp: nth_append less_Suc_eq l_def)
    moreover have "take (length b) (filled b (take l ?buf) @ drop l ?buf) = b" by (simp add: filled_def)
    moreover note dframe_last [OF v(2) [symmetric], of ss b]
    ultimately show ?thesis
      using p_fill_done [OF mem p pc fl, of b rest "dframe ss (g_bs g @ [b]) (g_n g)"] True rs
      by (simp add: produce_fill_def meta W read_exact_def rc off ucast_of_nat_down Let_def)
  next
    case False
    then obtain e' where e': "(if e = None \<and> length b < l then Some eof_error else e) = Some e'" "e' \<in> E"
      using rs(1,4) E re by (cases e) auto
    then show ?thesis
      using p_fill_fail [OF mem p pc fl e'(2), of "p\<lparr>reader := rest\<rparr>"]
      by (simp add: produce_fill_def meta W read_exact_def rc Let_def)
  qed
qed

definition generation_error :: IoError where
  "generation_error = invalid_data ''stream generation exhausted''"

lemma generation_of_cases:
  assumes "k + 1 < 2 ^ 64"
  obtains "k div unat (stream_slots s) + 1 < 2 ^ 32" "generation_of s (of_nat k) = Ok (of_nat (k div unat (stream_slots s) + 1))"
  | "generation_of s (of_nat k) = Err generation_error"
proof (cases "k div unat (stream_slots s) + 1 < 2 ^ 32")
  case True
  then show ?thesis using that(1) generation_of_Ok [of k s] assms by simp
next
  case False
  have "k div unat (stream_slots s) + 1 < 2 ^ 64" using assms div_le_dividend [of k "unat (stream_slots s)"] by linarith
  then have "unat (of_nat k div stream_slots s + 1) = k div unat (stream_slots s) + 1"
    using unat_chunk_index(2) [of k "stream_slots s"] assms by (simp add: unat_word_ariths)
  then have "\<not> of_nat k div stream_slots s + 1 \<le> U32_MAX" using False by (simp add: U32_MAX_def word_le_nat_alt)
  then show ?thesis using that(2) by (simp add: generation_of_def generation_error_def Let_def)
qed

lemma produce_to_end_fill_next:
  assumes mem: "mem_inv ToEnd ss g d r" and p: "p_inv ToEnd ss E source g p" and pc: "p_pc p = PFill"
    and E: "source_errors source \<subseteq> E" "generation_error \<in> E"
  shows "p_next ToEnd ss E source g (produce_to_end_fill avx2 ss (d, r, p))"
proof -
  have v: "p_vars ss source g p" "g_n g = length (g_bs g)" "length (concat (g_bs g)) < ntotal ss" "\<not> g_fin g" "g_hr g = Suc (g_n g) - nslots ss"
    using p pc by (auto simp: p_inv_def more_due_def)
  have val: "shape_validate (shape ss) = Ok ()" and ch: "chunks_ok ToEnd (shape ss) (g_bs g)" and sl: "slots_ok ss d (g_bs g) (g_hr g)"
    using mem by (auto simp: mem_inv_def)
  have nz: "0 < nslots ss" "0 < nchunk ss" using val by (auto simp: shape_validate_Ok)
  have T: "ntotal ss < 2 ^ 64" using unsigned_less [where ?'a = nat, of "total_bytes (shape ss)"] by simp
  have n1: "g_n g + 1 < 2 ^ 64"
  proof -
    have "length (g_bs g) \<le> length (concat (g_bs g))" using ch by (intro length_concat_ge) (simp add: chunks_ok_def)
    then show ?thesis using v(2,3) T by linarith
  qed
  then have n64: "g_n g < 2 ^ 64" by simp
  define l where "l = min (ntotal ss - length (concat (g_bs g))) (nchunk ss)"
  have l: "0 < l" "l \<le> nchunk ss" "l \<le> ntotal ss - length (concat (g_bs g))" using v(3) nz by (auto simp: l_def)
  have tot: "p_total p = of_nat (length (concat (g_bs g)))" "p_chunks p = of_nat (g_n g)" using v(1,2) by (simp_all add: p_vars_def)
  have ul: "unat (of_nat (length (concat (g_bs g))) :: u64) = length (concat (g_bs g))" by (rule unat_of_nat_usize) (use v(3) T in linarith)
  have cap: "min (total_bytes (shape ss) - p_total p) (chunk_bytes (shape ss)) = of_nat l"
  proof -
    have "unat (total_bytes (shape ss) - p_total p) = ntotal ss - length (concat (g_bs g))"
      using v(3) ul unfolding tot by (subst unat_sub) (simp_all add: word_le_nat_alt)
    moreover have "l < 2 ^ 64" using l(3) T by linarith
    ultimately show ?thesis by (simp add: word_unat_eq_iff unat_min unat_of_nat_usize) (simp add: l_def)
  qed
  have i: "g_n g mod nslots ss < nslots ss" using nz by simp
  have slot: "p_chunks p mod stream_slots (shape ss) = of_nat (g_n g mod nslots ss)" unfolding tot by (rule of_nat_mod_word) fact
  let ?buf = "payload d ! (g_n g mod nslots ss)"
  have bl: "length ?buf = nchunk ss" using sl i by (simp add: slots_ok_def)
  obtain b e rest where rc: "read_chunk l (reader p) = (b, e, rest)" by (metis prod_cases3)
  note rs = read_chunk_spec [OF rc]
  have fl: "length (filled b (take l ?buf) @ drop l ?buf) = nchunk ss" using rs(1) l bl by (simp add: filled_def)
  have re: "source_errors (reader p) \<subseteq> source_errors source" "steady source \<longrightarrow> steady (reader p)" using v(1) by (auto simp: p_vars_def)
  note W = write_slot_at [OF sl i l(1,2)] check_slot_ok(3) [OF sl i l(1,2)]
  from generation_of_cases [OF n1, of "shape ss"] show ?thesis
  proof cases
    case 2
    then show ?thesis using mem p_inv_fail [OF p E(2), of g p] by (auto simp: produce_to_end_fill_def tot Let_def intro: p_nextI)
  next
    case 1
    note gen = 1(2) [folded tot(2)]
    show ?thesis
    proof (cases e)
      case (Some e')
      then have "e' \<in> E" using rs(4) E re by auto
      then show ?thesis using Some p_fill_fail [OF mem p pc fl, of e' "p\<lparr>reader := rest\<rparr>"]
        by (simp add: produce_to_end_fill_def gen slot cap W rc Let_def)
    next
      case None
      show ?thesis
      proof (cases "b = []")
        case True
        have "mem_inv ToEnd ss g (d\<lparr>payload := (payload d)[g_n g mod nslots ss := filled b (take l ?buf) @ drop l ?buf]\<rparr>) r"
          by (rule mem_inv_fill [OF mem v(2,5) fl])
        moreover have "steady source \<longrightarrow> rest = []" using rs(6) None True l(1) re(2) by auto
        then have "p_inv ToEnd ss E source g (p\<lparr>reader := rest, p_pc := PDrain\<rparr>)"
          using p v rs True nz by (auto simp: p_inv_def p_vars_def whole_def)
        ultimately show ?thesis using None True
          by (auto simp: produce_to_end_fill_def gen slot cap W rc Let_def filled_def intro!: p_nextI)
      next
        case False
        have "chunks_ok ToEnd (shape ss) (g_bs g @ [b])"
          using ch False rs(1) l 1(1) v(2) unfolding chunks_ok_def by (auto simp: nth_append less_Suc_eq)
        moreover have "take (length b) (filled b (take l ?buf) @ drop l ?buf) = b" by (simp add: filled_def)
        moreover have "checksum avx2 (take (length b) (filled b (take l ?buf))) = checksum_scalar b" by (simp add: filled_def checksum_any)
        moreover note dframe_last [OF v(2) [symmetric], of ss b]
        ultimately show ?thesis
          using p_fill_done [OF mem p pc fl, of b rest "dframe ss (g_bs g @ [b]) (g_n g)"] None False rs
          by (simp add: produce_to_end_fill_def gen slot cap cap [unfolded tot(1)] W rc tot(1) ucast_of_nat_down Let_def)
      qed
    qed
  qed
qed

text \<open>Every step of either producing loop keeps the invariant.\<close>

definition loop_errors :: "IoError set" where
  "loop_errors = {eof_error, generation_error, invalid_data ''stream exceeded its byte ceiling''}"

lemma of_nat_less: "a < 2 ^ 64 \<Longrightarrow> b < 2 ^ 64 \<Longrightarrow> (of_nat a < (of_nat b :: u64)) = (a < b)"
  by (simp add: word_less_nat_alt unat_of_nat_usize)

lemma slots_le_of_nat:
  assumes "m < 2 ^ 64"
  shows "(stream_slots s \<le> of_nat m) = (unat (stream_slots s) \<le> m)" "((of_nat m :: u64) < w) = (m < unat w)"
  using assms by (simp_all add: word_le_nat_alt word_less_nat_alt unat_of_nat_usize)

lemma p_release_next:
  assumes mem: "mem_inv mode ss g d r" and p: "p_inv mode ss E source g p" and env: "env_errors env \<subseteq> E" and pc: "p_pc p = PRelease"
  shows "p_next mode ss E source g (take_release (release_validator mode) ss env PFill (d, r, p))"
proof -
  have v: "p_vars ss source g p" "g_n g = length (g_bs g)" "\<not> g_fin g" "g_hr g = g_n g - nslots ss" "nslots ss \<le> g_n g" "more_due mode ss (g_bs g)"
    using p pc by (auto simp: p_inv_def)
  have S: "0 < nslots ss" using mem by (simp add: mem_inv_def shape_validate_Ok)
  show ?thesis
  proof (rule take_release_next [OF mem p env v(1,3)])
    show "g_hr g < g_n g" using v S by simp
    show "p_inv mode ss E source (g\<lparr>g_hr := Suc (g_hr g)\<rparr>) (p\<lparr>p_released := of_nat (Suc (g_hr g)), p_pc := PFill\<rparr>)"
      using p v S by (auto simp: p_inv_def p_vars_def Suc_diff_le min_def)
  qed
qed

lemma p_drain_next:
  assumes mem: "mem_inv mode ss g d r" and p: "p_inv mode ss E source g p" and env: "env_errors env \<subseteq> E" and pc: "p_pc p = PDrain"
  shows "p_next mode ss E source g (if p_released p < sent_chunks mode ss p then take_release (release_validator mode) ss env PDrain (d, r, p)
      else (d, r, p\<lparr>p_pc := PComplete\<rparr>))"
proof -
  have v: "p_vars ss source g p" "g_n g = length (g_bs g)" "\<not> g_fin g" "g_hr g \<le> g_n g" "whole mode ss source (g_bs g) (reader p)"
    using p pc by (auto simp: p_inv_def)
  have n64: "g_n g < 2 ^ 64" using chunks_ok_count [of mode "shape ss" "g_bs g"] mem v(2) by (simp add: mem_inv_def)
  have "p_released p = of_nat (g_hr g)" using v(1,4) by (simp add: p_vars_def min_def)
  then have lt: "p_released p < sent_chunks mode ss p \<longleftrightarrow> g_hr g < g_n g"
    using sent_totals(2) [OF mem v(1,2,5)] v(2,4) n64 by (simp add: of_nat_less)
  show ?thesis
  proof (cases "g_hr g < g_n g")
    case True
    have "p_inv mode ss E source (g\<lparr>g_hr := Suc (g_hr g)\<rparr>) (p\<lparr>p_released := of_nat (Suc (g_hr g)), p_pc := PDrain\<rparr>)"
      using p v True by (auto simp: p_inv_def p_vars_def min_def)
    then show ?thesis using take_release_next [OF mem p env v(1,3) True] lt True by simp
  next
    case False
    then have "p_inv mode ss E source g (p\<lparr>p_pc := PComplete\<rparr>)" using p v by (simp add: p_inv_def p_vars_def)
    then show ?thesis using lt False mem by (auto intro: p_nextI)
  qed
qed

lemma p_loop_next:
  assumes mem: "mem_inv mode ss g d r" and p: "p_inv mode ss E source g p" and pc: "p_pc p = PLoop" and m: "more_due mode ss (g_bs g)"
  shows "p_next mode ss E source g (d, r, p\<lparr>p_pc := if p_chunks p \<ge> stream_slots (shape ss) then PRelease else PFill\<rparr>)"
proof -
  have v: "p_vars ss source g p" "g_n g = length (g_bs g)" "\<not> g_fin g" "g_hr g = g_n g - nslots ss"
    using p pc by (auto simp: p_inv_def)
  have n64: "g_n g < 2 ^ 64" using chunks_ok_count [of mode "shape ss" "g_bs g"] mem v(2) by (simp add: mem_inv_def)
  have "(stream_slots (shape ss) \<le> p_chunks p) = (nslots ss \<le> g_n g)" using v(1) slots_le_of_nat(1) [OF n64] by (simp add: p_vars_def)
  then have "p_inv mode ss E source g (p\<lparr>p_pc := if p_chunks p \<ge> stream_slots (shape ss) then PRelease else PFill\<rparr>)"
    using p v m by (auto simp: p_inv_def p_vars_def)
  then show ?thesis using mem by (blast intro: p_nextI)
qed

lemma produce_step_next:
  assumes mem: "mem_inv Exact ss g d r" and p: "p_inv Exact ss E source g p" and env: "env_errors env \<subseteq> E"
    and E: "source_errors source \<subseteq> E" "loop_errors \<subseteq> E"
  shows "p_next Exact ss E source g (produce_step avx2 ss env (d, r, p))"
proof (cases "p_pc p")
  case PLoop
  then have v: "p_vars ss source g p" "g_n g = length (g_bs g)" "\<not> g_fin g" "g_hr g = g_n g - nslots ss" using p by (auto simp: p_inv_def)
  have ch: "chunks_ok Exact (shape ss) (g_bs g)" using mem by (simp add: mem_inv_def)
  have lt: "p_chunks p < chunks (shape ss) \<longleftrightarrow> g_n g < unat (chunks (shape ss))"
    using v(1,2) slots_le_of_nat(2) chunks_ok_count [OF ch] by (simp add: p_vars_def)
  show ?thesis
  proof (cases "g_n g < unat (chunks (shape ss))")
    case True
    then show ?thesis using p_loop_next [OF mem p PLoop] lt PLoop v(2) by (simp add: produce_step_def more_due_def)
  next
    case False
    then have "p_inv Exact ss E source g (p\<lparr>p_pc := PDrain\<rparr>)"
      using p v ch by (auto simp: p_inv_def p_vars_def whole_def chunks_ok_def)
    then show ?thesis using False lt PLoop mem by (auto simp: produce_step_def intro: p_nextI)
  qed
next
  case PRelease
  then show ?thesis using p_release_next [OF mem p env] by (simp add: produce_step_def release_validator_def)
next
  case PFill
  then show ?thesis using produce_fill_next [OF mem p PFill E(1)] E(2) by (simp add: produce_step_def loop_errors_def)
next
  case (PPush f)
  then show ?thesis using p_push_next [OF mem p env PPush] by (simp add: produce_step_def)
next
  case PDrain
  then show ?thesis using p_drain_next [OF mem p env] by (auto simp: produce_step_def sent_chunks_def release_validator_def split: if_splits)
next
  case PComplete
  then show ?thesis using p_complete_next [OF mem p env] by (simp add: produce_step_def sent_total_def)
next
  case PAck
  then show ?thesis using p_ack_next [OF mem p env]
    by (simp add: produce_step_def sent_total_def sent_chunks_def complete_validator_def [abs_def])
next
  case (PReturn x)
  then show ?thesis using mem p by (auto simp: produce_step_def intro: p_nextI)
qed

lemma produce_to_end_step_next:
  assumes mem: "mem_inv ToEnd ss g d r" and p: "p_inv ToEnd ss E source g p" and env: "env_errors env \<subseteq> E"
    and E: "source_errors source \<subseteq> E" "loop_errors \<subseteq> E"
  shows "p_next ToEnd ss E source g (produce_to_end_step avx2 ss env (d, r, p))"
proof (cases "p_pc p")
  case PLoop
  then have v: "p_vars ss source g p" "g_n g = length (g_bs g)" "\<not> g_fin g" "g_hr g = g_n g - nslots ss" using p by (auto simp: p_inv_def)
  have ch: "chunks_ok ToEnd (shape ss) (g_bs g)" using mem by (simp add: mem_inv_def)
  then have le: "length (concat (g_bs g)) \<le> ntotal ss" by (simp add: chunks_ok_def)
  then have "length (concat (g_bs g)) < 2 ^ 64" using unsigned_less [where ?'a = nat, of "total_bytes (shape ss)"] by simp
  then have eq: "p_total p = total_bytes (shape ss) \<longleftrightarrow> length (concat (g_bs g)) = ntotal ss"
    using v(1,2) by (simp add: p_vars_def word_unat_eq_iff unat_of_nat_usize)
  show ?thesis
  proof (cases "length (concat (g_bs g)) = ntotal ss")
    case True
    obtain res rest where ex: "excess (reader p) = (res, rest)" by fastforce
    show ?thesis
    proof (cases res)
      case (Ok u)
      have "p_inv ToEnd ss E source g (p\<lparr>reader := rest, p_pc := PDrain\<rparr>)"
        using p v excess_Ok [OF ex [unfolded Ok]] by (auto simp: p_inv_def p_vars_def whole_def)
      then show ?thesis using True eq PLoop mem ex Ok by (auto simp: produce_to_end_step_def intro: p_nextI)
    next
      case (Err e)
      have "e \<in> E" using excess_Err [OF ex [unfolded Err]] E v(1) by (auto simp: loop_errors_def p_vars_def)
      then show ?thesis using True eq PLoop mem ex Err p_inv_fail [OF p, of e g "p\<lparr>reader := rest\<rparr>"]
        by (auto simp: produce_to_end_step_def intro: p_nextI)
    qed
  next
    case False
    then show ?thesis using p_loop_next [OF mem p PLoop] eq PLoop le by (simp add: produce_to_end_step_def more_due_def)
  qed
next
  case PRelease
  then show ?thesis using p_release_next [OF mem p env] by (simp add: produce_to_end_step_def release_validator_def)
next
  case PFill
  then show ?thesis using produce_to_end_fill_next [OF mem p PFill E(1)] E(2) by (simp add: produce_to_end_step_def loop_errors_def)
next
  case (PPush f)
  then show ?thesis using p_push_next [OF mem p env PPush] by (simp add: produce_to_end_step_def)
next
  case PDrain
  then show ?thesis using p_drain_next [OF mem p env] by (auto simp: produce_to_end_step_def sent_chunks_def release_validator_def split: if_splits)
next
  case PComplete
  then show ?thesis using p_complete_next [OF mem p env] by (simp add: produce_to_end_step_def sent_total_def)
next
  case PAck
  then show ?thesis using p_ack_next [OF mem p env]
    by (simp add: produce_to_end_step_def sent_total_def sent_chunks_def complete_validator_def [abs_def])
next
  case (PReturn x)
  then show ?thesis using mem p by (auto simp: produce_to_end_step_def intro: p_nextI)
qed

section \<open>Steps of the consumer\<close>

definition c_next :: "Mode \<Rightarrow> Session \<Rightarrow> IoError set \<Rightarrow> ReadEvent list \<Rightarrow> Ghost \<Rightarrow> Arena \<times> Arena \<times> Consume \<Rightarrow> bool" where
  "c_next mode ss E source g s \<longleftrightarrow> (case s of (d, r, c) \<Rightarrow>
     \<exists>g'. mem_inv mode ss g' d r \<and> c_inv ss E g' c \<and> (\<forall>p. p_inv mode ss E source g p \<longrightarrow> p_inv mode ss E source g' p))"

lemma c_nextI:
  "mem_inv mode ss g' d r \<Longrightarrow> c_inv ss E g' c \<Longrightarrow> (\<And>p. p_inv mode ss E source g p \<Longrightarrow> p_inv mode ss E source g' p)
    \<Longrightarrow> c_next mode ss E source g (d, r, c)"
  by (auto simp: c_next_def)

lemma p_inv_hd: "p_inv mode ss E source g p \<Longrightarrow> p_inv mode ss E source (g\<lparr>g_hd := h\<rparr>) p"
  by (simp add: p_inv_def p_vars_def split: ProducePc.splits Result.splits)

lemma p_inv_x: "p_inv mode ss E source g p \<Longrightarrow> p_inv mode ss E source (g\<lparr>g_x := h\<rparr>) p"
  by (simp add: p_inv_def p_vars_def split: ProducePc.splits Result.splits)

lemma p_inv_ack: "p_inv mode ss E source g p \<Longrightarrow> p_inv mode ss E source (g\<lparr>g_ack := True\<rparr>) p"
  by (simp add: p_inv_def p_vars_def split: ProducePc.splits Result.splits)

lemma c_vars_prefix: "c_vars ss g y c \<Longrightarrow> \<exists>rest. concat (g_bs g) = sink c @ rest"
  by (metis append_take_drop_id c_vars_def concat_append)

lemma c_inv_fail:
  "e \<in> E \<Longrightarrow> concat (g_bs g') = sink q @ rest \<Longrightarrow> (g_ack g' \<Longrightarrow> rest = []) \<Longrightarrow> c_inv ss E g' (c_fail e q)"
  by (auto simp: c_inv_def c_fail_def)

lemma mem_inv_pop_data:
  assumes "mem_inv mode ss g d r" "arena_rep d' (dlog ss (g_bs g) (g_n g) (g_fin g)) h" "g_x g \<le> h" "h \<le> Suc (g_x g)" "same_slots d d'"
  shows "mem_inv mode ss (g\<lparr>g_hd := h\<rparr>) d' r"
  using assms by (auto simp: mem_inv_def same_slots_def slots_ok_def)

lemma mem_inv_push_release:
  assumes "mem_inv mode ss g d r" "\<not> g_ack g" "g_x g < g_n g" "g_hd g = Suc (g_x g)"
    "arena_rep r' (rlog ss (g_bs g) (g_x g) (g_ack g) @ [(dframe ss (g_bs g) (g_x g))\<lparr>fkind := KReleased\<rparr>]) (g_hr g)" "same_slots r r'"
  shows "mem_inv mode ss (g\<lparr>g_x := Suc (g_x g)\<rparr>) d r'"
  using assms by (auto simp: mem_inv_def same_slots_def rlog_grow)

lemma mem_inv_push_ack:
  assumes "mem_inv mode ss g d r" "\<not> g_ack g" "g_fin g" "g_x g = g_n g"
    "arena_rep r' (rlog ss (g_bs g) (g_x g) (g_ack g) @ [cframe ss (g_bs g)]) (g_hr g)" "same_slots r r'"
  shows "mem_inv mode ss (g\<lparr>g_ack := True\<rparr>) d r'"
  using assms by (auto simp: mem_inv_def same_slots_def rlog_grow)

lemma mem_inv_hr_le: "mem_inv mode ss g d r \<Longrightarrow> \<not> g_ack g \<Longrightarrow> g_hr g \<le> g_x g"
  by (auto simp: mem_inv_def arena_rep_def)

text \<open>A chunk that has not been released is read back from its slot as it was filled.\<close>

lemma slot_bytes_chunk:
  assumes mem: "mem_inv mode ss g d r" and "\<not> g_ack g" "g_x g < g_n g"
  shows "slot_bytes d (of_nat (g_x g mod nslots ss)) (of_nat (length (g_bs g ! g_x g))) = Ok (g_bs g ! g_x g)"
proof -
  have sl: "slots_ok ss d (g_bs g) (g_hr g)" and ch: "chunks_ok mode (shape ss) (g_bs g)" "shape_validate (shape ss) = Ok ()"
    and k: "g_x g < length (g_bs g)" and S: "0 < nslots ss"
    using mem assms(3) by (auto simp: mem_inv_def shape_validate_Ok)
  note b = chunks_ok_bounds(1,2) [OF ch k]
  have "g_hr g \<le> g_x g" using mem_inv_hr_le [OF mem] assms(2) .
  then have "take (length (g_bs g ! g_x g)) (payload d ! (g_x g mod nslots ss)) = g_bs g ! g_x g"
    using sl k by (simp add: slots_ok_def)
  then show ?thesis using check_slot_ok [OF sl _ b] S by (simp add: slot_bytes_def)
qed

definition chunk_validator :: "Mode \<Rightarrow> bool \<Rightarrow> Arena \<Rightarrow> Frame \<Rightarrow> Consume \<Rightarrow> Session \<Rightarrow> (unit, IoError) Result" where
  "chunk_validator mode avx2 d f c ss = (case mode of Exact \<Rightarrow> validate_chunk avx2 d f (c_chunks c) ss
     | ToEnd \<Rightarrow> validate_dynamic_chunk avx2 d f (c_chunks c) (c_total c) ss)"

lemma chunk_valid:
  assumes mem: "mem_inv mode ss g d r" and a: "\<not> g_ack g" "g_x g < g_n g" and v: "c_vars ss g (g_x g) c"
  shows "chunk_validator mode avx2 d (dframe ss (g_bs g) (g_x g)) c ss = Ok ()"
proof -
  have ch: "chunks_ok mode (shape ss) (g_bs g)" "shape_validate (shape ss) = Ok ()" and k: "g_x g < length (g_bs g)"
    using mem a(2) by (auto simp: mem_inv_def)
  note b = chunks_ok_bounds [OF ch k] and sb = slot_bytes_chunk [OF mem a]
  have k64: "g_x g < 2 ^ 64" using chunks_ok_count [OF ch(1)] k by simp
  have c: "c_chunks c = of_nat (g_x g)" "c_total c = of_nat (length (concat (take (g_x g) (g_bs g))))" using v by (auto simp: c_vars_def)
  show ?thesis
  proof (cases mode)
    case Exact
    then show ?thesis using exact_meta [of "shape ss" "g_bs g" "g_x g"] ch k sb c
      by (simp add: chunk_validator_def validate_chunk_def dframe_def ucast_of_nat_down checksum_any)
  next
    case ToEnd
    have fl: "ucast (flen (dframe ss (g_bs g) (g_x g))) = (of_nat (length (g_bs g ! g_x g)) :: u64)"
      using b(3) by (simp add: dframe_def ucast_of_nat_up)
    have "(of_nat (length (g_bs g ! g_x g)) :: u64) > 0" "of_nat (length (g_bs g ! g_x g)) \<le> chunk_bytes (shape ss)"
      using b(1,2,3) by (simp_all add: word_less_nat_alt word_le_nat_alt unat_of_nat_usize)
    moreover have "foffset (dframe ss (g_bs g) (g_x g)) = c_total c" using c by (simp add: dframe_def)
    moreover note within_ceiling_dframe [OF ch k]
    ultimately show ?thesis
      using generation_of_Ok [OF k64 b(4)] of_nat_mod_word [OF k64, of "stream_slots (shape ss)"] ToEnd fl sb c
      by (simp add: chunk_validator_def validate_dynamic_chunk_def Let_def checksum_any)
        (simp add: dframe_def ucast_of_nat_down)
  qed
qed

lemma write_sink_next:
  assumes mem: "mem_inv mode ss g d r" and c: "c_inv ss E g c" and pc: "c_pc c = CWrite f" and env: "env_errors env \<subseteq> E"
  shows "c_next mode ss E source g (write_sink env f (d, r, c))"
proof -
  have v: "c_vars ss g (g_x g) c" "g_hd g = Suc (g_x g)" "g_x g < g_n g" "f = dframe ss (g_bs g) (g_x g)" "\<not> g_ack g"
    using c pc by (auto simp: c_inv_def)
  have ch: "chunks_ok mode (shape ss) (g_bs g)" "shape_validate (shape ss) = Ok ()" and k: "g_x g < length (g_bs g)" and S: "0 < nslots ss" "nslots ss < 2 ^ 32"
    using mem v(3) by (auto simp: mem_inv_def shape_validate_Ok)
  have fl: "ucast (flen f) = (of_nat (length (g_bs g ! g_x g)) :: u64)" and fs: "ucast (fslot f) = (of_nat (g_x g mod nslots ss) :: u64)"
    using chunks_ok_bounds(3) [OF ch k] v(4) less_trans [OF mod_less_divisor [OF S(1), of "g_x g"] S(2)] by (simp_all add: dframe_def ucast_of_nat_up)
  have tk: "take (Suc (g_x g)) (g_bs g) = take (g_x g) (g_bs g) @ [g_bs g ! g_x g]" by (rule take_Suc_conv_app_nth) fact
  have sb: "slot_bytes d (ucast (fslot f)) (ucast (flen f)) = Ok (g_bs g ! g_x g)"
    unfolding fl fs by (rule slot_bytes_chunk [OF mem v(5,3)])
  show ?thesis
  proof (cases "write_error env")
    case None
    have "c_inv ss E g (c\<lparr>sink := sink c @ g_bs g ! g_x g, c_aggregate := fold_checksum (c_aggregate c) f,
        c_total := c_total c + ucast (flen f), c_chunks := c_chunks c + 1, c_pc := CRelease f\<rparr>)"
      using v agg_take_Suc [OF k] by (auto simp: c_inv_def c_vars_def tk fl fl [unfolded v(4)])
    then show ?thesis using None sb mem by (auto simp: write_sink_def intro: c_nextI)
  next
    case (Some ne)
    obtain m e where me: "ne = (m, e)" by fastforce
    have "e \<in> E" using env Some me by (force simp: env_errors_def)
    moreover have "concat (g_bs g) = (sink c @ take m (g_bs g ! g_x g)) @ drop m (g_bs g ! g_x g) @ concat (drop (Suc (g_x g)) (g_bs g))"
    proof -
      have "concat (g_bs g) = concat (take (Suc (g_x g)) (g_bs g)) @ concat (drop (Suc (g_x g)) (g_bs g))" by (metis append_take_drop_id concat_append)
      also have "concat (take (Suc (g_x g)) (g_bs g)) = sink c @ g_bs g ! g_x g" using v(1) by (simp add: tk c_vars_def)
      finally show ?thesis by simp
    qed
    ultimately have "c_inv ss E g (c_fail e (c\<lparr>sink := sink c @ take m (g_bs g ! g_x g)\<rparr>))" using v(5) by (intro c_inv_fail) simp_all
    then show ?thesis using Some me sb mem by (auto simp: write_sink_def intro: c_nextI)
  qed
qed

lemma pop_data_next:
  assumes mem: "mem_inv mode ss g d r" and c: "c_inv ss E g c" and pc: "c_pc c = CPop" and env: "env_errors env \<subseteq> E"
    and data: "g_x g < g_n g \<Longrightarrow> k (dframe ss (g_bs g) (g_x g)) = Ok (CValidate (dframe ss (g_bs g) (g_x g)))"
    and compl: "g_fin g \<Longrightarrow> g_x g = g_n g \<Longrightarrow> k (cframe ss (g_bs g)) = Ok (CAck (cframe ss (g_bs g)))"
  shows "c_next mode ss E source g (pop_data env k (d, r, c))"
proof -
  have v: "c_vars ss g (g_x g) c" "g_hd g = g_x g" "\<not> g_ack g" using c pc by (auto simp: c_inv_def)
  have rep: "arena_rep d (dlog ss (g_bs g) (g_n g) (g_fin g)) (g_hd g)" and xn: "g_x g \<le> g_n g" using mem by (simp_all add: mem_inv_def)
  obtain rest where pre: "concat (g_bs g) = sink c @ rest" using c_vars_prefix [OF v(1)] by blast
  from arena_pop_cases [OF rep env] show ?thesis
  proof cases
    case 1
    then show ?thesis using mem c by (auto simp: pop_data_def intro: c_nextI)
  next
    case (2 d' e h')
    then have "mem_inv mode ss (g\<lparr>g_hd := h'\<rparr>) d' r" using v(2) by (intro mem_inv_pop_data [OF mem]) auto
    moreover have "c_inv ss E (g\<lparr>g_hd := h'\<rparr>) (c_fail e c)" using pre 2(2) v(3) by (intro c_inv_fail [of _ _ _ _ rest]) simp_all
    ultimately show ?thesis using 2(1) p_inv_hd by (auto simp: pop_data_def intro!: c_nextI [of _ _ "g\<lparr>g_hd := h'\<rparr>"])
  next
    case (3 d')
    let ?f = "dlog ss (g_bs g) (g_n g) (g_fin g) ! g_hd g"
    have m: "mem_inv mode ss (g\<lparr>g_hd := Suc (g_hd g)\<rparr>) d' r" using 3 v(2) by (intro mem_inv_pop_data [OF mem]) auto
    have "\<exists>q. k ?f = Ok q \<and> c_inv ss E (g\<lparr>g_hd := Suc (g_hd g)\<rparr>) (c\<lparr>c_pc := q\<rparr>)"
    proof (cases "g_x g < g_n g")
      case True
      then have "?f = dframe ss (g_bs g) (g_x g)" using v(2) by (simp add: dlog_nth)
      then show ?thesis using data [OF True] v True by (simp add: c_inv_def c_vars_def)
    next
      case False
      then have "g_fin g" "g_x g = g_n g" using 3(2) v(2) xn by (auto split: if_splits)
      moreover from this have "?f = cframe ss (g_bs g)" using v(2) by (simp add: dlog_nth)
      ultimately show ?thesis using compl v by (simp add: c_inv_def c_vars_def)
    qed
    then obtain q where "k ?f = Ok q" "c_inv ss E (g\<lparr>g_hd := Suc (g_hd g)\<rparr>) (c\<lparr>c_pc := q\<rparr>)" by blast
    then show ?thesis using 3(1) m p_inv_hd by (auto simp: pop_data_def intro!: c_nextI [of _ _ "g\<lparr>g_hd := Suc (g_hd g)\<rparr>"])
  qed
qed

lemma push_release_next:
  assumes mem: "mem_inv mode ss g d r" and env: "env_errors env \<subseteq> E"
    and push: "\<And>r'. arena_rep r' (rlog ss (g_bs g) (g_x g) (g_ack g) @ [f]) (g_hr g) \<Longrightarrow> same_slots r r' \<Longrightarrow> mem_inv mode ss g' d r'"
    and ok: "c_inv ss E g' (c\<lparr>c_pc := pc\<rparr>)" and pre: "concat (g_bs g') = sink c @ rest" and ack: "g_ack g' \<Longrightarrow> rest = []"
    and p: "\<And>p. p_inv mode ss E source g p \<Longrightarrow> p_inv mode ss E source g' p"
  shows "c_next mode ss E source g (push_release env f pc (d, r, c))"
proof -
  have rep: "arena_rep r (rlog ss (g_bs g) (g_x g) (g_ack g)) (g_hr g)" using mem by (simp add: mem_inv_def)
  from arena_push_cases [OF rep env mem_inv_room(2) [OF mem], of f] show ?thesis
  proof cases
    case (1 r' e)
    then show ?thesis using push p c_inv_fail [OF 1(2) pre ack] by (auto simp: push_release_def intro!: c_nextI [of _ _ g'])
  next
    case (2 r')
    then show ?thesis using push p ok by (auto simp: push_release_def intro!: c_nextI [of _ _ g'])
  qed
qed

lemma c_release_next:
  assumes mem: "mem_inv mode ss g d r" and c: "c_inv ss E g c" and pc: "c_pc c = CRelease f" and env: "env_errors env \<subseteq> E"
  shows "c_next mode ss E source g (push_release env (f\<lparr>fkind := KReleased\<rparr>) CPop (d, r, c))"
proof -
  have v: "c_vars ss g (Suc (g_x g)) c" "g_hd g = Suc (g_x g)" "g_x g < g_n g" "f = dframe ss (g_bs g) (g_x g)" "\<not> g_ack g"
    using c pc by (auto simp: c_inv_def)
  obtain rest where "concat (g_bs g) = sink c @ rest" using c_vars_prefix [OF v(1)] by blast
  moreover have "c_inv ss E (g\<lparr>g_x := Suc (g_x g)\<rparr>) (c\<lparr>c_pc := CPop\<rparr>)" using v by (simp add: c_inv_def c_vars_def)
  ultimately show ?thesis
    using v p_inv_x by (intro push_release_next [OF mem env, where g' = "g\<lparr>g_x := Suc (g_x g)\<rparr>" and rest = rest]) (auto intro: mem_inv_push_release [OF mem])
qed

lemma c_ack_next:
  assumes mem: "mem_inv mode ss g d r" and c: "c_inv ss E g c" and pc: "c_pc c = CAck f" and env: "env_errors env \<subseteq> E"
    and rep: "\<lbrakk>c_vars ss g (g_n g) c; g_n g = length (g_bs g)\<rbrakk> \<Longrightarrow> rep = report_of ss (g_bs g)"
  shows "c_next mode ss E source g (push_release env f (CReturn (Ok rep)) (d, r, c))"
proof -
  have v: "c_vars ss g (g_x g) c" "g_fin g" "g_x g = g_n g" "f = cframe ss (g_bs g)" "\<not> g_ack g"
    using c pc by (auto simp: c_inv_def)
  have "g_n g = length (g_bs g)" using mem v(2) by (simp add: mem_inv_def)
  then have r: "rep = report_of ss (g_bs g)" using rep v by simp
  have "concat (g_bs g) = sink c @ []" using v(1,3) \<open>g_n g = length (g_bs g)\<close> by (simp add: c_vars_def)
  moreover have "c_inv ss E (g\<lparr>g_ack := True\<rparr>) (c\<lparr>c_pc := CReturn (Ok rep)\<rparr>)" using v r by (simp add: c_inv_def c_vars_def)
  ultimately show ?thesis
    using v p_inv_ack by (intro push_release_next [OF mem env, where g' = "g\<lparr>g_ack := True\<rparr>" and rest = "[]"]) (auto intro: mem_inv_push_ack [OF mem])
qed

lemma c_validate_next:
  assumes mem: "mem_inv mode ss g d r" and c: "c_inv ss E g c" and pc: "c_pc c = CValidate f"
  shows "c_next mode ss E source g (case chunk_validator mode avx2 d f c ss of Err e \<Rightarrow> (d, r, c_fail e c) | Ok _ \<Rightarrow> (d, r, c\<lparr>c_pc := CWrite f\<rparr>))"
proof -
  have v: "c_vars ss g (g_x g) c" "g_hd g = Suc (g_x g)" "g_x g < g_n g" "f = dframe ss (g_bs g) (g_x g)" "\<not> g_ack g"
    using c pc by (auto simp: c_inv_def)
  then have "c_inv ss E g (c\<lparr>c_pc := CWrite f\<rparr>)" by (simp add: c_inv_def c_vars_def)
  then show ?thesis using chunk_valid [OF mem v(5,3,1)] v(4) mem by (auto intro: c_nextI)
qed

lemma chunk_count_less:
  assumes "mem_inv mode ss g d r" "c_vars ss g y c"
  shows "c_chunks c < w \<longleftrightarrow> y < unat w"
proof -
  have "y < 2 ^ 64" using assms chunks_ok_count [of mode "shape ss" "g_bs g"] by (auto simp: mem_inv_def c_vars_def)
  then show ?thesis using slots_le_of_nat(2) [of y w] assms(2) by (simp add: c_vars_def)
qed

lemma consume_step_next:
  assumes mem: "mem_inv Exact ss g d r" and c: "c_inv ss E g c" and env: "env_errors env \<subseteq> E" and p: "p_inv Exact ss E source g p"
  shows "c_next Exact ss E source g (consume_step avx2 ss env (d, r, c))"
proof -
  have ch: "chunks_ok Exact (shape ss) (g_bs g)" and val: "shape_validate (shape ss) = Ok ()"
    and sizes: "g_n g \<le> length (g_bs g)" "g_fin g \<Longrightarrow> g_n g = length (g_bs g)"
    using mem by (auto simp: mem_inv_def)
  have le: "length (g_bs g) \<le> unat (chunks (shape ss))" using ch by (simp add: chunks_ok_def)
  have fin: "length (g_bs g) = unat (chunks (shape ss))" if "g_fin g" using that p by (auto simp: p_inv_def settled_def)
  have w: "w = of_nat (unat w)" for w :: u64 by (metis of_nat_unat ucast_id)
  show ?thesis
  proof (cases "c_pc c")
    case CPop
    then have v: "c_vars ss g (g_x g) c" using c by (simp add: c_inv_def)
    have xn: "g_x g \<le> g_n g" using mem by (simp add: mem_inv_def)
    show ?thesis
    proof (cases "g_x g < unat (chunks (shape ss))")
      case True
      then have "\<not> (g_fin g \<and> g_x g = g_n g)" using fin sizes by auto
      then show ?thesis
        using pop_data_next [OF mem c CPop env, of "\<lambda>frame. Ok (CValidate frame)"] CPop True chunk_count_less [OF mem v]
        by (simp add: consume_step_def)
    next
      case False
      let ?k = "\<lambda>frame. and_then (validate_complete frame ss (c_aggregate c)) (\<lambda>_. Ok (CAck frame))"
      have "?k (cframe ss (g_bs g)) = Ok (CAck (cframe ss (g_bs g)))" if "g_fin g" "g_x g = g_n g"
      proof -
        have "of_nat (length (concat (g_bs g))) = total_bytes (shape ss)"
          using exact_whole [OF ch val fin [OF that(1)]] w by simp
        moreover have "c_aggregate c = agg ss (g_bs g)" using v that sizes by (simp add: c_vars_def)
        ultimately show ?thesis by (simp add: validate_complete_def cframe_def complete_frame_def)
      qed
      moreover have "\<not> g_x g < g_n g" using False le sizes(1) by linarith
      ultimately show ?thesis
        using pop_data_next [OF mem c CPop env, of ?k] CPop False chunk_count_less [OF mem v] by (simp add: consume_step_def)
    qed
  next
    case (CValidate f)
    then show ?thesis using c_validate_next [OF mem c CValidate, of source avx2] by (simp add: consume_step_def chunk_validator_def)
  next
    case (CWrite f)
    then show ?thesis using write_sink_next [OF mem c CWrite env] by (simp add: consume_step_def)
  next
    case (CRelease f)
    then show ?thesis using c_release_next [OF mem c CRelease env] by (simp add: consume_step_def)
  next
    case (CAck f)
    then have "g_fin g" using c by (simp add: c_inv_def)
    then have "(c_aggregate c, total_bytes (shape ss), chunks (shape ss)) = report_of ss (g_bs g)" if "c_vars ss g (g_n g) c" "g_n g = length (g_bs g)"
      using that exact_whole [OF ch val fin] fin w by (simp add: report_of_def c_vars_def)
    then show ?thesis using c_ack_next [OF mem c CAck env] CAck by (simp add: consume_step_def)
  next
    case (CReturn x)
    then show ?thesis using mem c by (auto simp: consume_step_def intro: c_nextI)
  qed
qed

lemma consume_to_end_step_next:
  assumes mem: "mem_inv ToEnd ss g d r" and c: "c_inv ss E g c" and env: "env_errors env \<subseteq> E"
  shows "c_next ToEnd ss E source g (consume_to_end_step avx2 ss env (d, r, c))"
proof (cases "c_pc c")
  case CPop
  then have v: "c_vars ss g (g_x g) c" using c by (simp add: c_inv_def)
  let ?k = "\<lambda>frame. if fkind frame = KComplete
    then and_then (validate_dynamic_complete frame ss (c_total c) (c_aggregate c)) (\<lambda>_. Ok (CAck frame)) else Ok (CValidate frame)"
  have "?k (cframe ss (g_bs g)) = Ok (CAck (cframe ss (g_bs g)))" if "g_fin g" "g_x g = g_n g"
  proof -
    have "c_total c = of_nat (length (concat (g_bs g)))" "c_aggregate c = agg ss (g_bs g)"
      using v that mem by (auto simp: c_vars_def mem_inv_def)
    then show ?thesis using complete_valid [of ss "g_bs g"] mem
      by (simp add: mem_inv_def) (simp add: cframe_def complete_frame_def)
  qed
  then show ?thesis
    using pop_data_next [OF mem c CPop env, of ?k] CPop by (simp add: consume_to_end_step_def dframe_def)
next
  case (CValidate f)
  then show ?thesis using c_validate_next [OF mem c CValidate, of source avx2] by (simp add: consume_to_end_step_def chunk_validator_def)
next
  case (CWrite f)
  then show ?thesis using write_sink_next [OF mem c CWrite env] by (simp add: consume_to_end_step_def)
next
  case (CRelease f)
  then show ?thesis using c_release_next [OF mem c CRelease env] by (simp add: consume_to_end_step_def)
next
  case (CAck f)
  have "(c_aggregate c, c_total c, c_chunks c) = report_of ss (g_bs g)" if "c_vars ss g (g_n g) c" "g_n g = length (g_bs g)"
    using that by (simp add: report_of_def c_vars_def)
  then show ?thesis using c_ack_next [OF mem c CAck env] CAck by (simp add: consume_to_end_step_def)
next
  case (CReturn x)
  then show ?thesis using mem c by (auto simp: consume_to_end_step_def intro: c_nextI)
qed

section \<open>Whole transfers\<close>

definition schedule_errors :: "(Who \<times> Env) list \<Rightarrow> IoError set" where
  "schedule_errors schedule = (\<Union>we \<in> set schedule. env_errors (snd we))"

lemma stream_step_inv:
  assumes "stream_inv mode ss E source st g" "env_errors (snd we) \<subseteq> E" "source_errors source \<subseteq> E" "loop_errors \<subseteq> E"
  shows "\<exists>g'. stream_inv mode ss E source (stream_step mode a b ss we st) g'"
proof -
  obtain who env where we: "we = (who, env)" by fastforce
  have i: "mem_inv mode ss g (data st) (releases st)" "p_inv mode ss E source g (producing st)" "c_inv ss E g (consuming st)"
    using assms(1) by (auto simp: stream_inv_def)
  show ?thesis
  proof (cases who)
    case AtProducer
    let ?s = "(case mode of Exact \<Rightarrow> produce_step | ToEnd \<Rightarrow> produce_to_end_step) a ss env (data st, releases st, producing st)"
    have "p_next mode ss E source g ?s"
      using produce_step_next [of ss g _ _ E source _ env a] produce_to_end_step_next [of ss g _ _ E source _ env a] i assms we
      by (cases mode) auto
    moreover obtain d r p where s: "?s = (d, r, p)" by (metis prod_cases3)
    ultimately show ?thesis using i(3) we AtProducer by (auto simp: p_next_def stream_step_def stream_inv_def)
  next
    case AtConsumer
    let ?s = "(case mode of Exact \<Rightarrow> consume_step | ToEnd \<Rightarrow> consume_to_end_step) b ss env (data st, releases st, consuming st)"
    have "c_next mode ss E source g ?s"
      using consume_step_next [of ss g _ _ E _ env source _ b] consume_to_end_step_next [of ss g _ _ E _ env source b] i assms we
      by (cases mode) auto
    moreover obtain d r c where s: "?s = (d, r, c)" by (metis prod_cases3)
    ultimately show ?thesis using i(2) we AtConsumer by (auto simp: c_next_def stream_step_def stream_inv_def)
  qed
qed

lemma stream_init_inv:
  assumes "shape_validate (shape ss) = Ok ()" "descriptor_capacity (stream_slots (shape ss)) = Ok capacity"
    "arena_layout (stream_slots (shape ss)) (chunk_bytes (shape ss)) capacity = Ok layout"
  shows "stream_inv mode ss E source (stream_init ss capacity source)
    \<lparr>g_bs = [], g_n = 0, g_fin = False, g_x = 0, g_ack = False, g_hd = 0, g_hr = 0\<rparr>"
proof -
  obtain len off where "layout = (len, off)" by fastforce
  then have a: "is_power_of_two capacity" "unat capacity < 2 ^ 32" using arena_layout_Ok(1,3) assms(3) by auto
  have S: "nslots ss < 2 ^ 32" using assms(1) by (simp add: shape_validate_Ok)
  then have u: "unat (stream_slots (shape ss) * 2 + 2) = 2 * nslots ss + 2" by (simp add: unat_word_ariths)
  have "checked_next_power_of_two (stream_slots (shape ss) * 2 + 2) = Some capacity"
    using assms(2) by (auto simp: descriptor_capacity_def ok_or_def checked_mul_def checked_add_def split: option.splits if_splits bind_splits)
  then have "2 * nslots ss + 2 \<le> unat capacity" using checked_next_power_of_two_SomeD(2) u by metis
  then show ?thesis
    using assms(1) a new_arena_rep [OF a]
    by (simp add: stream_inv_def mem_inv_def stream_init_def dlog_def rlog_def chunks_ok_def slots_ok_def p_inv_def p_vars_def c_inv_def c_vars_def)
      (simp add: new_arena_def)
qed

lemma stream_run_inv:
  assumes "stream_inv mode ss E source st g" "schedule_errors schedule \<subseteq> E" "source_errors source \<subseteq> E" "loop_errors \<subseteq> E"
  shows "\<exists>g'. stream_inv mode ss E source (stream_run mode a b ss schedule st) g'"
  using assms(1,2)
proof (induction schedule arbitrary: st g)
  case (Cons we schedule)
  then obtain g' where "stream_inv mode ss E source (stream_step mode a b ss we st) g'"
    using stream_step_inv [OF Cons.prems(1) _ assms(3,4), of we] by (metis UN_upper list.set_intros(1) order_trans schedule_errors_def)
  then show ?case using Cons.IH Cons.prems(2) by (auto simp: stream_run_def schedule_errors_def)
qed (auto simp: stream_run_def)

text \<open>What the invariant says of the results.\<close>

lemma stream_inv_sink:
  assumes "stream_inv mode ss E source st g"
  shows "\<exists>rest. source_bytes source = sink (consuming st) @ rest" "length (sink (consuming st)) \<le> ntotal ss"
proof -
  have i: "mem_inv mode ss g (data st) (releases st)" "p_inv mode ss E source g (producing st)" "c_inv ss E g (consuming st)"
    using assms by (auto simp: stream_inv_def)
  obtain rest where r: "source_bytes source = concat (g_bs g) @ rest" using i(2) by (auto simp: p_inv_def)
  have "\<exists>rest'. concat (g_bs g) = sink (consuming st) @ rest'"
    using i(3) c_vars_prefix by (auto simp: c_inv_def split: ConsumePc.splits Result.splits)
  then obtain rest' where r': "concat (g_bs g) = sink (consuming st) @ rest'" ..
  show "\<exists>rest. source_bytes source = sink (consuming st) @ rest" using r r' by simp
  show "length (sink (consuming st)) \<le> ntotal ss"
    using i(1) arg_cong [OF r', of length] by (simp add: mem_inv_def chunks_ok_def)
qed

definition delivered :: "Mode \<Rightarrow> Session \<Rightarrow> ReadEvent list \<Rightarrow> u8 list \<Rightarrow> u64 \<times> u64 \<times> u64 \<Rightarrow> bool" where
  "delivered mode ss source bytes report \<longleftrightarrow>
     unat (fst (snd report)) = length bytes \<and> (\<exists>rest. source_bytes source = bytes @ rest)
     \<and> (mode = Exact \<longrightarrow> length bytes = unat (total_bytes (shape ss)) \<and> snd (snd report) = chunks (shape ss))
     \<and> (mode = ToEnd \<longrightarrow> steady source \<longrightarrow> bytes = source_bytes source)"

lemma acknowledged_delivered:
  assumes inv: "stream_inv mode ss E source st g" and ack: "g_ack g" and s: "sink (consuming st) = concat (g_bs g)"
  shows "delivered mode ss source (sink (consuming st)) (report_of ss (g_bs g))"
proof -
  have i: "mem_inv mode ss g (data st) (releases st)" "p_inv mode ss E source g (producing st)"
    using inv by (auto simp: stream_inv_def)
  have ch: "chunks_ok mode (shape ss) (g_bs g)" "shape_validate (shape ss) = Ok ()" and "g_fin g" using i(1) ack by (auto simp: mem_inv_def)
  then have st: "settled mode ss source (g_bs g)" using i(2) by (simp add: p_inv_def)
  have w: "w = of_nat (unat w)" for w :: u64 by (metis of_nat_unat ucast_id)
  have "length (concat (g_bs g)) \<le> ntotal ss" using ch by (simp add: chunks_ok_def)
  then have "length (concat (g_bs g)) < 2 ^ 64" using unsigned_less [where ?'a = nat, of "total_bytes (shape ss)"] by simp
  then have "unat (fst (snd (report_of ss (g_bs g)))) = length (concat (g_bs g))" by (simp add: report_of_def unat_of_nat_usize)
  moreover have "length (concat (g_bs g)) = ntotal ss \<and> snd (snd (report_of ss (g_bs g))) = chunks (shape ss)" if "mode = Exact"
    using that exact_whole [of "shape ss" "g_bs g"] ch st w by (simp add: settled_def report_of_def)
  ultimately show ?thesis using stream_inv_sink(1) [OF inv] st s by (auto simp: delivered_def settled_def)
qed

lemma consumer_ok:
  assumes "stream_inv mode ss E source st g" "c_pc (consuming st) = CReturn (Ok rep)"
  shows "g_ack g" "sink (consuming st) = concat (g_bs g)" "rep = report_of ss (g_bs g)"
  using assms by (auto simp: stream_inv_def c_inv_def c_vars_def mem_inv_def)

lemma producer_ok:
  assumes "stream_inv mode ss E source st g" "p_pc (producing st) = PReturn (Ok rep)"
  shows "g_ack g" "sink (consuming st) = concat (g_bs g)" "rep = report_of ss (g_bs g)"
    "c_pc (consuming st) = CReturn (Ok rep) \<or> (\<exists>e. c_pc (consuming st) = CReturn (Err e))"
proof -
  have i: "p_inv mode ss E source g (producing st)" "c_inv ss E g (consuming st)" using assms by (auto simp: stream_inv_def)
  show a: "g_ack g" and r: "rep = report_of ss (g_bs g)" using i(1) assms(2) by (auto simp: p_inv_def)
  show c: "c_pc (consuming st) = CReturn (Ok rep) \<or> (\<exists>e. c_pc (consuming st) = CReturn (Err e))"
    using i(2) a r by (auto simp: c_inv_def split: ConsumePc.splits Result.splits)
  then show "sink (consuming st) = concat (g_bs g)"
    using consumer_ok(2) [OF assms(1), of rep] i(2) a by (auto simp: c_inv_def)
qed

text \<open>C2. A transfer between two processes over shared memory delivers what its source yields, in both modes, under every interleaving of the two loops and every failure of a wait, a notification, the source or the writer. At every moment the sink holds a prefix of the source within the declared size. When the consumer reports success the sink holds the whole transfer (exactly the declared bytes, or everything up to end of file) and the report states its length; when the producer reports success the consumer has written everything and its report, if it returned one, is the same. No loop ever fails because it rejects a frame of its peer: every error comes from outside, from a short source, from input above the ceiling or from exhausted generations.\<close>

theorem stream_delivers:
  assumes "shape_validate (shape ss) = Ok ()" "descriptor_capacity (stream_slots (shape ss)) = Ok capacity"
    "arena_layout (stream_slots (shape ss)) (chunk_bytes (shape ss)) capacity = Ok layout"
    and st: "st = stream_run mode avx2_p avx2_c ss schedule (stream_init ss capacity source)"
  shows "(\<exists>rest. source_bytes source = sink (consuming st) @ rest) \<and> length (sink (consuming st)) \<le> unat (total_bytes (shape ss))
    \<and> (\<forall>rep. c_pc (consuming st) = CReturn (Ok rep) \<longrightarrow> delivered mode ss source (sink (consuming st)) rep)
    \<and> (\<forall>rep. p_pc (producing st) = PReturn (Ok rep) \<longrightarrow> delivered mode ss source (sink (consuming st)) rep
          \<and> (c_pc (consuming st) = CReturn (Ok rep) \<or> (\<exists>e. c_pc (consuming st) = CReturn (Err e))))
    \<and> (\<forall>e. p_pc (producing st) = PReturn (Err e) \<or> c_pc (consuming st) = CReturn (Err e)
          \<longrightarrow> e \<in> schedule_errors schedule \<union> source_errors source \<union> loop_errors)"
proof -
  let ?E = "schedule_errors schedule \<union> source_errors source \<union> loop_errors"
  obtain g where g: "stream_inv mode ss ?E source st g"
    using stream_run_inv [OF stream_init_inv [OF assms(1-3)]] unfolding st by (metis Un_upper1 Un_upper2 le_supI1)
  have "delivered mode ss source (sink (consuming st)) rep" if "c_pc (consuming st) = CReturn (Ok rep)" for rep
    using acknowledged_delivered [OF g] consumer_ok [OF g that] by simp
  moreover have "delivered mode ss source (sink (consuming st)) rep
      \<and> (c_pc (consuming st) = CReturn (Ok rep) \<or> (\<exists>e. c_pc (consuming st) = CReturn (Err e)))" if "p_pc (producing st) = PReturn (Ok rep)" for rep
    using acknowledged_delivered [OF g] producer_ok [OF g that] by simp
  moreover have "e \<in> ?E" if "p_pc (producing st) = PReturn (Err e) \<or> c_pc (consuming st) = CReturn (Err e)" for e
    using g that by (auto simp: stream_inv_def p_inv_def c_inv_def)
  ultimately show ?thesis using stream_inv_sink [OF g] by blast
qed

abbreviation calm :: Env where
  "calm \<equiv> \<lparr>elapsed = 0, timeout = 30, event_wait = Ok Changed, peek = Ok 3, notify_error = None, write_error = None\<rparr>"

lemma calm_wait [simp]: "wait_error calm = None"
  by (simp add: wait_error_def wait_for_peer_event_def)

lemmas stream_eval = stream_run_def stream_init_def new_arena_def stream_step_def produce_step_def consume_step_def
  produce_to_end_step_def consume_to_end_step_def chunks_def div_ceil_def take_release_def push_data_def take_ack_def
  pop_data_def write_sink_def push_release_def arena_push_def arena_pop_def ring_index_def outcome_def
  produce_fill_def read_exact_def chunk_meta_def checked_mul_def ok_or_def U32_MAX_def write_slot_def check_slot_def slot_bytes_def filled_def checksum_any validate_chunk_def validate_release_def
  complete_frame_def validate_complete_def validate_dynamic_complete_def frame_roundtrip 

theorem stream_delivers_witness:
  "let ss = \<lparr>shape = \<lparr>total_bytes = 0, chunk_bytes = 2, stream_slots = 1\<rparr>, transfer_id = 7, flags = 0x41\<rparr>;
       st = stream_run Exact True False ss [(AtProducer, calm), (AtProducer, calm), (AtProducer, calm), (AtConsumer, calm), (AtConsumer, calm), (AtProducer, calm)]
              (stream_init ss 4 [])
   in p_pc (producing st) = PReturn (Ok (0, 0, 0)) \<and> c_pc (consuming st) = CReturn (Ok (0, 0, 0))
      \<and> delivered Exact ss [] (sink (consuming st)) (0, 0, 0)"
proof -
  let ?ss = "\<lparr>shape = \<lparr>total_bytes = 0, chunk_bytes = 2, stream_slots = 1\<rparr>, transfer_id = 7, flags = 0x41\<rparr>"
  let ?sch = "[(AtProducer, calm), (AtProducer, calm), (AtProducer, calm), (AtConsumer, calm), (AtConsumer, calm), (AtProducer, calm)]"
  let ?st = "stream_run Exact True False ?ss ?sch (stream_init ?ss 4 [])"
  have v: "shape_validate (shape ?ss) = Ok ()" by (simp add: shape_validate_Ok chunks_def div_ceil_def)
  have d: "descriptor_capacity (stream_slots (shape ?ss)) = Ok 4"
    by (simp add: descriptor_capacity_def checked_mul_def checked_add_def checked_next_power_of_two_def ok_or_def next_pow2.simps)
  have a: "arena_layout (stream_slots (shape ?ss)) (chunk_bytes (shape ?ss)) 4 = Ok (642, 640)"
    by (simp add: arena_layout_def is_power_of_two_def U32_MAX_def checked_mul_def checked_add_def ok_or_def FRAME_LEN_def
        HEADER_LEN_def align_up_def CACHE_LINE_def filter_option_def ISIZE_MAX_def)
  have r: "p_pc (producing ?st) = PReturn (Ok (0, 0, 0))" "c_pc (consuming ?st) = CReturn (Ok (0, 0, 0))"
    by (simp_all add: stream_eval)
  show ?thesis using stream_delivers [OF v d a refl, where schedule = ?sch and source = "[]" and mode = Exact and avx2_p = True and avx2_c = False] r
    unfolding Let_def by blast
qed

text \<open>With nothing failing outside, only a process that waits for its peer stands still.\<close>

lemma pop_moves:
  assumes "arena_rep a log h" "h \<noteq> length log"
  shows "\<exists>a' f. arena_pop calm a = Done (a', Ok f) \<and> a' \<noteq> a"
proof -
  have "h < length log" using assms by (simp add: arena_rep_def)
  from arena_pop_ready [OF assms(1) this, of calm] obtain a' where
    a: "arena_pop calm a = Done (a', Ok (log ! h))" "arena_rep a' log (Suc h)" by (auto simp: outcome_def)
  then have "head a' \<noteq> head a" using assms(1) by (auto simp: arena_rep_def)
  then show ?thesis using a(1) by blast
qed

lemma push_moves:
  assumes "arena_rep a log h" "length log < h + unat (arena_capacity a)"
  shows "\<exists>a'. arena_push calm f a = Done (a', Ok ()) \<and> a' \<noteq> a"
proof -
  from arena_push_room [OF assms, of calm f] obtain a' where
    a: "arena_push calm f a = Done (a', Ok ())" "arena_rep a' (log @ [f]) h" by (auto simp: outcome_def)
  then have "tail a' \<noteq> tail a" using assms(1) by (auto simp: arena_rep_def)
  then show ?thesis using a(1) by blast
qed

lemma push_data_moves:
  assumes "mem_inv mode ss g d r" shows "push_data calm f k (d, r, p) \<noteq> (d, r, p)"
  using push_moves [OF _ mem_inv_room(1) [OF assms], of f] assms by (auto simp: push_data_def mem_inv_def)

lemma push_release_moves:
  assumes "mem_inv mode ss g d r" shows "push_release calm f pc (d, r, c) \<noteq> (d, r, c)"
  using push_moves [OF _ mem_inv_room(2) [OF assms], of f] assms by (auto simp: push_release_def mem_inv_def)

lemma take_stuck:
  assumes "mem_inv mode ss g d r"
  shows "take_release V ss calm pc (d, r, p) = (d, r, p) \<Longrightarrow> g_hr g = g_x g + (if g_ack g then 1 else 0)"
    and "take_ack W calm rp (d, r, p) = (d, r, p) \<Longrightarrow> g_hr g = g_x g + (if g_ack g then 1 else 0)"
    and "pop_data calm k (d, r, c) = (d, r, c) \<Longrightarrow> g_hd g = g_n g + (if g_fin g then 1 else 0)"
proof -
  have rep: "arena_rep d (dlog ss (g_bs g) (g_n g) (g_fin g)) (g_hd g)" "arena_rep r (rlog ss (g_bs g) (g_x g) (g_ack g)) (g_hr g)"
    using assms by (simp_all add: mem_inv_def)
  have "take_release V ss calm pc (d, r, p) \<noteq> (d, r, p)" "take_ack W calm rp (d, r, p) \<noteq> (d, r, p)"
    if "g_hr g \<noteq> length (rlog ss (g_bs g) (g_x g) (g_ack g))"
    using pop_moves [OF rep(2) that] by (auto simp: take_release_def take_ack_def split: Result.splits)
  then show "take_release V ss calm pc (d, r, p) = (d, r, p) \<Longrightarrow> g_hr g = g_x g + (if g_ack g then 1 else 0)"
    "take_ack W calm rp (d, r, p) = (d, r, p) \<Longrightarrow> g_hr g = g_x g + (if g_ack g then 1 else 0)"
    unfolding rlog_length by blast+
  have "pop_data calm k (d, r, c) \<noteq> (d, r, c)" if "g_hd g \<noteq> length (dlog ss (g_bs g) (g_n g) (g_fin g))"
    using pop_moves [OF rep(1) that] by (auto simp: pop_data_def split: Result.splits)
  then show "pop_data calm k (d, r, c) = (d, r, c) \<Longrightarrow> g_hd g = g_n g + (if g_fin g then 1 else 0)"
    unfolding dlog_length by blast
qed

text \<open>A producer that stands still waits for a release or the acknowledgement, or has returned.\<close>

lemma produce_fill_moves:
  "p_pc p = PFill \<Longrightarrow> produce_fill a ss (d, r, p) \<noteq> (d, r, p)" "p_pc p = PFill \<Longrightarrow> produce_to_end_fill a ss (d, r, p) \<noteq> (d, r, p)"
proof -
  assume pc: "p_pc p = PFill"
  have "p_pc (snd (snd (produce_fill a ss (d, r, p)))) \<noteq> PFill" "p_pc (snd (snd (produce_to_end_fill a ss (d, r, p)))) \<noteq> PFill"
    by (auto simp: produce_fill_def produce_to_end_fill_def p_fail_def Let_def split: Result.split prod.split)
  then show "produce_fill a ss (d, r, p) \<noteq> (d, r, p)" "produce_to_end_fill a ss (d, r, p) \<noteq> (d, r, p)"
    using pc by (metis snd_conv)+
qed

definition producer_step :: "Mode \<Rightarrow> bool \<Rightarrow> Session \<Rightarrow> Env \<Rightarrow> Arena \<times> Arena \<times> Produce \<Rightarrow> Arena \<times> Arena \<times> Produce" where
  "producer_step mode = (case mode of Exact \<Rightarrow> produce_step | ToEnd \<Rightarrow> produce_to_end_step)"

definition consumer_step :: "Mode \<Rightarrow> bool \<Rightarrow> Session \<Rightarrow> Env \<Rightarrow> Arena \<times> Arena \<times> Consume \<Rightarrow> Arena \<times> Arena \<times> Consume" where
  "consumer_step mode = (case mode of Exact \<Rightarrow> consume_step | ToEnd \<Rightarrow> consume_to_end_step)"

lemma producer_stuck:
  assumes mem: "mem_inv mode ss g d r" and s: "producer_step mode a ss calm (d, r, p) = (d, r, p)"
  shows "(\<exists>x. p_pc p = PReturn x) \<or> g_hr g = g_x g + (if g_ack g then 1 else 0) \<and> p_pc p \<in> {PRelease, PDrain, PAck}"
proof (cases "p_pc p")
  case PLoop
  have "p_pc (snd (snd (producer_step mode a ss calm (d, r, p)))) \<noteq> PLoop"
    using PLoop by (cases mode) (auto simp: producer_step_def produce_step_def produce_to_end_step_def p_fail_def split: Result.split prod.split)
  then show ?thesis using s PLoop by simp
next
  case PRelease
  then show ?thesis using s take_stuck(1) [OF mem] by (cases mode) (auto simp: producer_step_def produce_step_def produce_to_end_step_def)
next
  case PFill
  then show ?thesis using s produce_fill_moves [OF PFill, of a ss d r] by (cases mode) (auto simp: producer_step_def produce_step_def produce_to_end_step_def)
next
  case (PPush f)
  then show ?thesis using s push_data_moves [OF mem] by (cases mode) (auto simp: producer_step_def produce_step_def produce_to_end_step_def)
next
  case PDrain
  have "p_pc (p\<lparr>p_pc := PComplete\<rparr>) \<noteq> p_pc p" using PDrain by simp
  then have "(d, r, p\<lparr>p_pc := PComplete\<rparr>) \<noteq> (d, r, p)" by (metis prod.inject)
  then show ?thesis using s take_stuck(1) [OF mem] PDrain
    by (cases mode) (auto simp: producer_step_def produce_step_def produce_to_end_step_def split: if_splits)
next
  case PComplete
  then show ?thesis using s push_data_moves [OF mem] by (cases mode) (auto simp: producer_step_def produce_step_def produce_to_end_step_def)
next
  case PAck
  then show ?thesis using s take_stuck(2) [OF mem] by (cases mode) (auto simp: producer_step_def produce_step_def produce_to_end_step_def)
qed simp

lemma producer_drained:
  assumes mem: "mem_inv mode ss g d r" and p: "p_inv mode ss E source g p" and "p_pc p = PDrain"
    and s: "producer_step mode a ss calm (d, r, p) = (d, r, p)"
  shows "g_hr g \<noteq> g_n g"
proof
  assume e: "g_hr g = g_n g"
  have v: "p_vars ss source g p" "g_n g = length (g_bs g)" "whole mode ss source (g_bs g) (reader p)" using p assms(3) by (auto simp: p_inv_def)
  then have "p_released p = sent_chunks mode ss p" using sent_totals(2) [OF mem v] e by (simp add: p_vars_def)
  then have "producer_step mode a ss calm (d, r, p) = (d, r, p\<lparr>p_pc := PComplete\<rparr>)"
    using assms(3) by (cases mode) (simp_all add: producer_step_def produce_step_def produce_to_end_step_def sent_chunks_def)
  moreover have "p_pc (p\<lparr>p_pc := PComplete\<rparr>) \<noteq> p_pc p" using assms(3) by simp
  ultimately show False using s by (metis prod.inject)
qed

lemma consumer_stuck:
  assumes mem: "mem_inv mode ss g d r" and s: "consumer_step mode a ss calm (d, r, c) = (d, r, c)"
  shows "(\<exists>x. c_pc c = CReturn x) \<or> g_hd g = g_n g + (if g_fin g then 1 else 0) \<and> c_pc c = CPop"
proof (cases "c_pc c")
  case CPop
  then show ?thesis using s take_stuck(3) [OF mem] by (cases mode) (auto simp: consumer_step_def consume_step_def consume_to_end_step_def split: if_splits)
next
  case (CValidate f)
  have "c_pc (snd (snd (consumer_step mode a ss calm (d, r, c)))) \<noteq> CValidate f"
    using CValidate by (cases mode) (auto simp: consumer_step_def consume_step_def consume_to_end_step_def c_fail_def split: Result.split)
  then show ?thesis using s CValidate by simp
next
  case (CWrite f)
  have "c_pc (snd (snd (consumer_step mode a ss calm (d, r, c)))) \<noteq> CWrite f"
    using CWrite by (cases mode) (auto simp: consumer_step_def consume_step_def consume_to_end_step_def write_sink_def c_fail_def split: Result.split)
  then show ?thesis using s CWrite by simp
next
  case (CRelease f)
  then show ?thesis using s push_release_moves [OF mem] by (cases mode) (auto simp: consumer_step_def consume_step_def consume_to_end_step_def)
next
  case (CAck f)
  then show ?thesis using s push_release_moves [OF mem] by (cases mode) (auto simp: consumer_step_def consume_step_def consume_to_end_step_def)
qed simp

lemma stream_step_parts:
  "stream_step mode a b ss (AtProducer, env) st = st \<longleftrightarrow> producer_step mode a ss env (data st, releases st, producing st) = (data st, releases st, producing st)"
  "stream_step mode a b ss (AtConsumer, env) st = st \<longleftrightarrow> consumer_step mode b ss env (data st, releases st, consuming st) = (data st, releases st, consuming st)"
  by (cases st; cases "producer_step mode a ss env (data st, releases st, producing st)"; cases "consumer_step mode b ss env (data st, releases st, consuming st)";
      auto simp: stream_step_def producer_step_def consumer_step_def)+

text \<open>C19. A transfer never deadlocks: as long as neither side has failed and not both have returned, at least one of the two processes can make a step without waiting, whatever happened before.\<close>

theorem stream_no_deadlock:
  assumes "shape_validate (shape ss) = Ok ()" "descriptor_capacity (stream_slots (shape ss)) = Ok capacity"
    "arena_layout (stream_slots (shape ss)) (chunk_bytes (shape ss)) capacity = Ok layout"
    and st: "st = stream_run mode avx2_p avx2_c ss schedule (stream_init ss capacity source)"
    and alive: "\<forall>e. p_pc (producing st) \<noteq> PReturn (Err e) \<and> c_pc (consuming st) \<noteq> CReturn (Err e)"
    and running: "\<forall>r q. \<not> (p_pc (producing st) = PReturn r \<and> c_pc (consuming st) = CReturn q)"
  shows "stream_step mode avx2_p avx2_c ss (AtProducer, calm) st \<noteq> st \<or> stream_step mode avx2_p avx2_c ss (AtConsumer, calm) st \<noteq> st"
proof (rule ccontr)
  assume "\<not> ?thesis"
  then have s: "producer_step mode avx2_p ss calm (data st, releases st, producing st) = (data st, releases st, producing st)"
    "consumer_step mode avx2_c ss calm (data st, releases st, consuming st) = (data st, releases st, consuming st)"
    by (auto simp: stream_step_parts)
  let ?E = "schedule_errors schedule \<union> source_errors source \<union> loop_errors"
  obtain g where g: "stream_inv mode ss ?E source st g"
    using stream_run_inv [OF stream_init_inv [OF assms(1-3)]] unfolding st by (metis Un_upper1 Un_upper2 le_supI1)
  then have i: "mem_inv mode ss g (data st) (releases st)" "p_inv mode ss ?E source g (producing st)" "c_inv ss ?E g (consuming st)"
    by (auto simp: stream_inv_def)
  have m: "g_x g \<le> g_n g" "g_ack g \<longrightarrow> g_fin g \<and> g_x g = g_n g" "0 < nslots ss" using i(1) by (auto simp: mem_inv_def shape_validate_Ok)
  from consumer_stuck [OF i(1) s(2)] show False
  proof
    assume "\<exists>x. c_pc (consuming st) = CReturn x"
    then obtain q where q: "c_pc (consuming st) = CReturn q" ..
    then have "g_ack g" using i(3) alive by (cases q) (auto simp: c_inv_def)
    then have "p_pc (producing st) = PAck"
      using producer_stuck [OF i(1) s(1)] m running q i(2) by (auto simp: p_inv_def)
    then show False using producer_stuck [OF i(1) s(1)] m i(2) \<open>g_ack g\<close> by (auto simp: p_inv_def)
  next
    assume c: "g_hd g = g_n g + (if g_fin g then 1 else 0) \<and> c_pc (consuming st) = CPop"
    then have x: "g_hd g = g_x g" "\<not> g_ack g" using i(3) by (auto simp: c_inv_def)
    then have f: "\<not> g_fin g" "g_x g = g_n g" using c m by (auto split: if_splits)
    from producer_stuck [OF i(1) s(1)] show False
    proof
      assume "\<exists>x. p_pc (producing st) = PReturn x"
      then obtain q where "p_pc (producing st) = PReturn q" ..
      then show False using i(2) alive x by (cases q) (auto simp: p_inv_def)
    next
      assume p: "g_hr g = g_x g + (if g_ack g then 1 else 0) \<and> p_pc (producing st) \<in> {PRelease, PDrain, PAck}"
      then have "g_hr g = g_n g" using x f by simp
      then have "p_pc (producing st) \<noteq> PDrain" using producer_drained [OF i(1,2) _ s(1)] by blast
      then show False using p i(2) f m \<open>g_hr g = g_n g\<close> by (auto simp: p_inv_def)
    qed
  qed
qed

theorem stream_no_deadlock_witness:
  "let ss = \<lparr>shape = \<lparr>total_bytes = 3, chunk_bytes = 2, stream_slots = 1\<rparr>, transfer_id = 7, flags = 0x41\<rparr>;
       st = stream_run ToEnd True False ss [(AtConsumer, calm), (AtProducer, calm)] (stream_init ss 4 [ReadBytes [1, 2, 3]])
   in p_pc (producing st) = PFill \<and> c_pc (consuming st) = CPop
      \<and> (stream_step ToEnd True False ss (AtProducer, calm) st \<noteq> st \<or> stream_step ToEnd True False ss (AtConsumer, calm) st \<noteq> st)"
proof -
  let ?ss = "\<lparr>shape = \<lparr>total_bytes = 3, chunk_bytes = 2, stream_slots = 1\<rparr>, transfer_id = 7, flags = 0x41\<rparr>"
  let ?sch = "[(AtConsumer, calm), (AtProducer, calm)]" and ?src = "[ReadBytes [1, 2, 3]]"
  let ?st = "stream_run ToEnd True False ?ss ?sch (stream_init ?ss 4 ?src)"
  have v: "shape_validate (shape ?ss) = Ok ()" by (simp add: shape_validate_Ok chunks_def div_ceil_def)
  have d: "descriptor_capacity (stream_slots (shape ?ss)) = Ok 4"
    by (simp add: descriptor_capacity_def checked_mul_def checked_add_def checked_next_power_of_two_def ok_or_def next_pow2.simps)
  have a: "arena_layout (stream_slots (shape ?ss)) (chunk_bytes (shape ?ss)) 4 = Ok (642, 640)"
    by (simp add: arena_layout_def is_power_of_two_def U32_MAX_def checked_mul_def checked_add_def ok_or_def FRAME_LEN_def
        HEADER_LEN_def align_up_def CACHE_LINE_def filter_option_def ISIZE_MAX_def)
  have r: "p_pc (producing ?st) = PFill" "c_pc (consuming ?st) = CPop" by (simp_all add: stream_eval)
  show ?thesis
    using stream_no_deadlock [OF v d a refl, where schedule = ?sch and source = ?src and mode = ToEnd and avx2_p = True and avx2_c = False] r
    unfolding Let_def by simp
qed

end
