(* ===== verification/Spec2Isabelle.thy ===== *)
theory Spec2Isabelle
  imports Ring_Conc Mpmc_Conc Lanes Mpsc_Async Mpsc_Batch Park_Kernels Select Mpmc_Dynamic_System Brokered Broadcast Open Ipc_Transfer Ipc_Setup
begin

text \<open>
  A verification development for the channel crate \<^emph>\<open>prescient\<close>. The crate builds typed channels out of
  single-producer single-consumer transports: a bounded ring or an unbounded list of segments carries the
  values, and the topologies (many producers to one receiver, competing consumers, a router between both sides,
  one publisher with many readers, two processes over shared memory) are compositions of such transports with
  round-robin cursors, claims and liveness flags. File names below are relative to \<open>src/src\<close>.

  \<^bold>\<open>Conventions.\<close>
  \<^item> \<open>usize\<close> and the fixed-width integers are \<open>HOL-Library.Word\<close> words, so counters wrap as they do in the code;
    \<open>checked_\<dots>\<close> operations of the standard library return \<open>option\<close>.
  \<^item> An \<open>option\<close> result is \<open>None\<close> where the code panics or where an \<open>unsafe\<close> access would be undefined behaviour.
    That an operation returns \<open>Some\<close> is therefore a memory-safety and panic-freedom statement.
  \<^item> A \<open>MaybeUninit\<close> cell is an \<open>option\<close>; moving a value out leaves \<open>None\<close>. Destructor calls are recorded in the
    returned lists of dropped values.
  \<^item> Calls into user code (iterators, sinks, closures) are given as the list of their outcomes; a call that runs
    user code ends with a \<open>control\<close> value, \<open>Return\<close> or \<open>Unwind\<close>.
  \<^item> A call that may wait takes the list of what the rest of the program does during its pauses and ends with a
    \<open>spin\<close> value; \<open>Spinning\<close> means that the list ended first. Liveness properties state which lists are long
    enough. Loops that make progress without pausing carry a bound of their own where the recursion is not structural:
    \<open>pubsub_loop\<close> runs at most once per bit of a 64-bit mask, the bulk sends at most once per value of the batch.
  \<^item> Rust traits are records of functions (\<open>Backend.backend\<close>), their contracts are locales, and every locale is
    interpreted on the models of the implementations.

  \<^bold>\<open>Theories.\<close>
  \<^item> \<open>Prelude\<close>: word types, \<open>Result\<close>, \<open>checked_next_power_of_two\<close>, slot addressing by masking, shared lemmas.
  \<^item> \<open>Batch\<close> (\<open>backend/batch.rs\<close>): the owned vector with a read index that staging areas use.
  \<^item> \<open>Round_Robin\<close> (\<open>round_robin.rs\<close>, \<open>mpmc/brokerless/scan.rs\<close>): scan positions without division and the
    preferred-ring cursor; a scan visits every position once, and a busy ring is preferred for a bounded quantum.
  \<^item> \<open>Ring\<close> (\<open>backend/ring.rs\<close>): allocation, both endpoints with their cached counters, two-span bulk copies,
    drains that survive a panic, recycling and teardown. The representation invariant \<open>ring_rep\<close> relates the slots
    and the wrapping counters to a list; every operation is characterised against that list.
  \<^item> \<open>Seg\<close> (\<open>backend/seg.rs\<close>): segments at addresses of an explicit heap, so that reuse of a freed segment would
    show; the invariant \<open>seg_rep\<close> and the teardown walk.
  \<^item> \<open>Backend\<close> (\<open>backend/mod.rs\<close>): the storage traits with their default bodies, the locales \<open>spsc_push\<close> and
    \<open>spsc_backend\<close> with what a backend promises, their interpretations on both backends, and the refinement of a
    FIFO queue by any script of operations.
  \<^item> \<open>Ring_Conc\<close> (\<open>backend/ring.rs\<close>): the same ring, one atomic access or slot access per step, with both
    endpoints interleaved and with stale reads of the other endpoint's counter. FIFO refinement, absence of data
    races, and a bound on the steps of one operation.
  \<^item> \<open>Brokerless\<close> and \<open>Mpmc_Conc\<close> (\<open>mpmc/brokerless/mod.rs\<close>): competing consumers over one transport per
    producer; claims, staging, drains and drops, then any number of consumers interleaved.
  \<^item> \<open>Brokered\<close> (\<open>mpmc/brokered/mod.rs\<close>): target sets, delivery policies, the router loop, both endpoint halves.
    The locale \<open>router\<close> extends \<open>spsc_backend\<close> and is interpreted on the segmented backend.
  \<^item> \<open>Broadcast\<close> (\<open>mpmc/broadcast/mod.rs\<close>): the shared ring gated by its slowest reader.
  \<^item> \<open>Ipc_Frame\<close>, \<open>Ipc_Stream\<close>, \<open>Ipc_Transfer\<close> (\<open>ipc/stream.rs\<close>): frames and checksums; the shared arenas and the
    four transfer loops as state machines; the invariant of a direction, delivery and freedom from deadlock.
  \<^item> \<open>Ipc_Setup\<close> (\<open>ipc/setup.rs\<close>, \<open>ipc/mod.rs\<close>, \<open>ipc/region.rs\<close>): locators, payload contracts, the setup frame and
    the agreement of the creating with the attaching process.

  \<^bold>\<open>Granularity.\<close> \<open>Ring_Conc\<close> and the role claims of \<open>Ipc_Frame\<close> interleave single atomic accesses. A stale read of
  the other endpoint's counter is the one effect of the acquire/release memory model that is represented: a
  relaxed or acquire load may return any earlier value not older than one already seen. \<open>Mpmc_Conc\<close> takes claims,
  releases and the operations under a claim as steps; \<open>Broadcast\<close> takes whole public operations as steps;
  \<open>Ipc_Stream\<close> takes one ring or slot access of one process as a step.

  \<^bold>\<open>Not modelled.\<close> Failure of the allocator and panicking destructors; the remaining effects of weak memory; the
  operating system side of shared regions, events and process control (\<open>ipc/event.rs\<close>, \<open>ipc/control.rs\<close>,
  \<open>ipc/windows_security.rs\<close>, the mapping calls of \<open>ipc/region.rs\<close>), whose results enter the transfer loops as
  outcomes; waking and parking (\<open>task_waker.rs\<close>, \<open>park/\<close>), which affect when a waiting call resumes but not what it
  finds; the asynchronous wrappers. The MPSC kernels (\<open>mpsc/\<close>), the leased and the dynamic competing-consumer
  topologies (\<open>mpmc/lanes.rs\<close>, \<open>mpmc/brokerless/leased.rs\<close>, \<open>mpmc/brokerless/dynamic.rs\<close>) and \<open>InboxStack\<close> of
  \<open>backend/ring.rs\<close> are the next parts to add, in this order: lanes and leases, the MPSC kernel with its
  reclamation, dynamic membership, wakers.
\<close>

end
